(* ===== verification/Prelude.thy ===== *)
theory Prelude
  imports Main "HOL-Library.Word" "HOL-Library.Monad_Syntax"
begin

text \<open>
  What every component of the development shares: the machine arithmetic of the Rust code
  written out on \<^typ>\<open>nat\<close>, and the generic facts about options and lists that the
  component theories use.  A computation that may fail (a panic, an overflow that the
  checked build reports, a dereference outside the allocated memory, a loop that does not
  return) is a value of \<^typ>\<open>'a option\<close>, with \<open>None\<close> for the failure;
  \<open>do\<close> blocks are \<open>Option.bind\<close>.
\<close>

named_theorems arith_defs "the machine-arithmetic operations, unfolded"

section \<open>Machine integers as bounded naturals\<close>

text \<open>
  A Rust \<open>u64\<close> (and a \<open>usize\<close> on the 64-bit targets) is a natural number up to
  \<open>u64_max\<close>.  An addition the code leaves unguarded is \<open>checked_add_u64\<close>: it fails
  where the checked build panics, and a theorem that the operation returns covers the
  wrapping build as well, since the two agree there.
\<close>

definition u64_max :: nat where
  "u64_max = 2 ^ 64 - 1"

definition checked_add_u64 :: "nat \<Rightarrow> nat \<Rightarrow> nat option" where
  [arith_defs]: "checked_add_u64 a b = (if a + b \<le> u64_max then Some (a + b) else None)"

definition saturating_add_u64 :: "nat \<Rightarrow> nat \<Rightarrow> nat" where
  [arith_defs]: "saturating_add_u64 a b = min (a + b) u64_max"

definition saturating_mul_u64 :: "nat \<Rightarrow> nat \<Rightarrow> nat" where
  [arith_defs]: "saturating_mul_u64 a b = min (a * b) u64_max"

definition saturating_pow_u64 :: "nat \<Rightarrow> nat \<Rightarrow> nat" where
  [arith_defs]: "saturating_pow_u64 a n = min (a ^ n) u64_max"

lemma checked_add_u64_eq_Some [simp]:
  "checked_add_u64 a b = Some c \<longleftrightarrow> c = a + b \<and> a + b \<le> u64_max"
  by (auto simp: checked_add_u64_def)

lemma saturating_pow_u64_exact [simp]: "a ^ n \<le> u64_max \<Longrightarrow> saturating_pow_u64 a n = a ^ n"
  by (simp add: saturating_pow_u64_def)

lemma saturating_mul_u64_exact [simp]: "a * b \<le> u64_max \<Longrightarrow> saturating_mul_u64 a b = a * b"
  by (simp add: saturating_mul_u64_def)

section \<open>Options\<close>

text \<open>A step that may fail, taken \<open>n\<close> times.\<close>

primrec iterate_opt :: "nat \<Rightarrow> ('s \<Rightarrow> 's option) \<Rightarrow> 's \<Rightarrow> 's option" where
  "iterate_opt 0 f s = Some s"
| "iterate_opt (Suc n) f s = do { s1 \<leftarrow> f s; iterate_opt n f s1 }"

text \<open>What a poll of a future returns.\<close>

datatype 'a poll = Pending | Ready 'a

lemma bind_Some_iff: "Option.bind x f = Some y \<longleftrightarrow> (\<exists>a. x = Some a \<and> f a = Some y)"
  by (cases x) auto

end
