(* ===== verification/Timer_Wheel.thy ===== *)
theory Timer_Wheel
  imports Prelude
begin

text \<open>
  The hierarchical timer wheel of \<open>crates/tpt-async-timer/src/wheel.rs\<close>, as it is written:
  intrusive doubly linked lists through \<open>TimerEntry\<close> nodes that live at addresses of a
  memory, \<open>heads[level][slot]\<close> pointers, the tick counter and the number of registered
  entries.  Operations return \<open>None\<close> where the code would dereference an address that
  holds no entry, overflow a counter, or not return; \<open>Wheel_Refine\<close> shows that none of
  this happens on a well-formed wheel.
\<close>

section \<open>State\<close>

type_synonym addr = nat

text \<open>A waker is known by its identity; \<open>will_wake\<close> is equality.\<close>

type_synonym waker = nat

text \<open>
  The fields of type \<open>Option<NonNull<TimerEntry>>\<close> a \<open>prev_next\<close> pointer can point to:
  the head of a slot list, or the \<open>next\<close> field of another entry.
\<close>

datatype link_field = Slot_Head nat nat | Next_Of addr

record timer_entry =
  deadline :: nat
  waker :: "waker option"
  next_ptr :: "addr option"
  prev_next :: "link_field option"

definition timer_entry_new :: "nat \<Rightarrow> timer_entry" where
  "timer_entry_new d = \<lparr>deadline = d, waker = None, next_ptr = None, prev_next = None\<rparr>"

definition is_registered :: "timer_entry \<Rightarrow> bool" where
  "is_registered e \<longleftrightarrow> prev_next e \<noteq> None"

text \<open>
  \<open>inner\<close> holds the fields of \<open>Inner\<close>; \<open>wheel\<close> adds the memory the entries live in
  and the log of the \<open>Waker::wake\<close> calls, in order.  The const generics \<open>SLOTS\<close> and
  \<open>LEVELS\<close> are the arguments \<open>S\<close> and \<open>L\<close> of the operations.
\<close>

record inner =
  heads :: "nat \<Rightarrow> nat \<Rightarrow> addr option"
  current_tick :: nat
  pending :: nat

record wheel = inner +
  mem :: "addr \<rightharpoonup> timer_entry"
  woken :: "waker list"

text \<open>\<open>TimerWheel::new\<close> panics unless \<open>SLOTS >= 2\<close> and \<open>LEVELS >= 1\<close>.\<close>

definition wheel_new :: "nat \<Rightarrow> nat \<Rightarrow> (addr \<rightharpoonup> timer_entry) \<Rightarrow> wheel option" where
  "wheel_new S L m =
     (if S < 2 \<or> L < 1 then None
      else Some \<lparr>heads = (\<lambda>_ _. None), current_tick = 0, pending = 0, mem = m, woken = []\<rparr>)"

definition wheel_now :: "wheel \<Rightarrow> nat" where
  "wheel_now w = current_tick w"

definition wheel_len :: "wheel \<Rightarrow> nat" where
  "wheel_len w = pending w"

definition wheel_is_empty :: "wheel \<Rightarrow> bool" where
  "wheel_is_empty w \<longleftrightarrow> wheel_len w = 0"

section \<open>Choosing a slot\<close>

function choose_level :: "nat \<Rightarrow> nat \<Rightarrow> nat \<Rightarrow> nat \<Rightarrow> nat \<Rightarrow> nat" where
  "choose_level S L delta level width =
     (if level + 1 < L \<and> width \<le> delta
      then choose_level S L delta (level + 1) (saturating_mul_u64 width S)
      else level)"
  by pat_completeness auto
termination by (relation "measure (\<lambda>(S, L, delta, level, width). L - level)") auto

declare choose_level.simps [simp del]

text \<open>The part of \<open>choose_slot\<close> for a deadline that is not yet due.\<close>

definition future_slot :: "nat \<Rightarrow> nat \<Rightarrow> nat \<Rightarrow> nat \<Rightarrow> nat \<times> nat" where
  "future_slot S L now d =
     (let level = choose_level S L (d - now) 0 S;
          resolution = saturating_pow_u64 S level
      in (level, d div resolution mod S))"

definition choose_slot :: "nat \<Rightarrow> nat \<Rightarrow> nat \<Rightarrow> nat \<Rightarrow> (nat \<times> nat) option" where
  "choose_slot S L now d =
     (let delta = d - now in
      if delta = 0 then do { t \<leftarrow> checked_add_u64 now 1; Some (0, t mod S) }
      else Some (future_slot S L now d))"

section \<open>Linking and unlinking entries\<close>

definition set_head :: "nat \<Rightarrow> nat \<Rightarrow> addr option \<Rightarrow> wheel \<Rightarrow> wheel" where
  "set_head level slot p w = w\<lparr>heads := (heads w)(level := (heads w level)(slot := p))\<rparr>"

definition put_entry :: "addr \<Rightarrow> timer_entry \<Rightarrow> wheel \<Rightarrow> wheel" where
  "put_entry a e w = w\<lparr>mem := (mem w)(a \<mapsto> e)\<rparr>"

text \<open>A store through a \<open>prev_next\<close> pointer.\<close>

fun write_link :: "link_field \<Rightarrow> addr option \<Rightarrow> wheel \<Rightarrow> wheel option" where
  "write_link (Slot_Head level slot) p w = Some (set_head level slot p w)"
| "write_link (Next_Of a) p w = do { e \<leftarrow> mem w a; Some (put_entry a (e\<lparr>next_ptr := p\<rparr>) w) }"

definition set_prev_next :: "addr option \<Rightarrow> link_field \<Rightarrow> wheel \<Rightarrow> wheel option" where
  "set_prev_next p f w =
     (case p of
        None \<Rightarrow> Some w
      | Some a \<Rightarrow> do { e \<leftarrow> mem w a; Some (put_entry a (e\<lparr>prev_next := Some f\<rparr>) w) })"

definition link :: "nat \<Rightarrow> nat \<Rightarrow> addr \<Rightarrow> wheel \<Rightarrow> wheel option" where
  "link level slot a w = do {
     e \<leftarrow> mem w a;
     if is_registered e then None else do {
       let old = heads w level slot;
       let w1 = put_entry a (e\<lparr>next_ptr := old, prev_next := Some (Slot_Head level slot)\<rparr>) w;
       w2 \<leftarrow> set_prev_next old (Next_Of a) w1;
       let w3 = set_head level slot (Some a) w2;
       Some (w3\<lparr>pending := pending w3 + 1\<rparr>) } }"

definition dec_pending :: "wheel \<Rightarrow> wheel option" where
  "dec_pending w = (if pending w = 0 then None else Some (w\<lparr>pending := pending w - 1\<rparr>))"

definition inner_insert :: "nat \<Rightarrow> nat \<Rightarrow> addr \<Rightarrow> wheel \<Rightarrow> wheel option" where
  "inner_insert S L a w = do {
     e \<leftarrow> mem w a;
     (level, slot) \<leftarrow> choose_slot S L (current_tick w) (deadline e);
     link level slot a w }"

text \<open>
  \<open>remove\<close> takes \<open>prev_next\<close>, stores the entry's \<open>next\<close> where it pointed, then takes
  \<open>next\<close> and repairs the successor.
\<close>

definition inner_remove :: "addr \<Rightarrow> wheel \<Rightarrow> wheel option" where
  "inner_remove a w = do {
     e \<leftarrow> mem w a;
     case prev_next e of
       None \<Rightarrow> Some w
     | Some p \<Rightarrow> do {
         let w1 = put_entry a (e\<lparr>prev_next := None\<rparr>) w;
         w2 \<leftarrow> write_link p (next_ptr e) w1;
         e2 \<leftarrow> mem w2 a;
         let w3 = put_entry a (e2\<lparr>next_ptr := None\<rparr>) w2;
         w4 \<leftarrow> set_prev_next (next_ptr e2) p w3;
         dec_pending w4 } }"

section \<open>Draining and cascading\<close>

text \<open>The loop of \<open>drain_slot\<close> over the detached list.\<close>

definition detach :: "addr \<Rightarrow> timer_entry \<Rightarrow> wheel \<Rightarrow> wheel option" where
  "detach a e w = dec_pending (put_entry a (e\<lparr>next_ptr := None, prev_next := None\<rparr>) w)"

definition fire :: "addr \<Rightarrow> wheel \<Rightarrow> wheel option" where
  "fire a w = do {
     e \<leftarrow> mem w a;
     case waker e of
       None \<Rightarrow> Some w
     | Some k \<Rightarrow> Some ((put_entry a (e\<lparr>waker := None\<rparr>) w)\<lparr>woken := woken w @ [k]\<rparr>) }"

partial_function (option) drain_loop :: "addr option \<Rightarrow> wheel \<Rightarrow> wheel option" where
  "drain_loop cursor w =
     (case cursor of
        None \<Rightarrow> Some w
      | Some a \<Rightarrow> do {
          e \<leftarrow> mem w a;
          w1 \<leftarrow> detach a e w;
          w2 \<leftarrow> fire a w1;
          drain_loop (next_ptr e) w2 })"

definition drain_slot :: "nat \<Rightarrow> nat \<Rightarrow> wheel \<Rightarrow> wheel option" where
  "drain_slot level slot w = drain_loop (heads w level slot) (set_head level slot None w)"

text \<open>
  \<open>cascade\<close> re-links every entry of a detached coarse slot: an entry that is due goes
  into the level-0 slot that drains right after, any other where \<open>choose_slot\<close> says.
\<close>

definition cascade_target :: "nat \<Rightarrow> nat \<Rightarrow> nat \<Rightarrow> nat \<Rightarrow> (nat \<times> nat) option" where
  "cascade_target S L now d = (if d \<le> now then Some (0, now mod S) else choose_slot S L now d)"

partial_function (option) cascade_loop :: "nat \<Rightarrow> nat \<Rightarrow> addr option \<Rightarrow> wheel \<Rightarrow> wheel option" where
  "cascade_loop S L cursor w =
     (case cursor of
        None \<Rightarrow> Some w
      | Some a \<Rightarrow> do {
          e \<leftarrow> mem w a;
          w1 \<leftarrow> detach a e w;
          (level, slot) \<leftarrow> cascade_target S L (current_tick w1) (deadline e);
          w2 \<leftarrow> link level slot a w1;
          cascade_loop S L (next_ptr e) w2 })"

definition cascade :: "nat \<Rightarrow> nat \<Rightarrow> nat \<Rightarrow> nat \<Rightarrow> wheel \<Rightarrow> wheel option" where
  "cascade S L level slot w =
     cascade_loop S L (heads w level slot) (set_head level slot None w)"

section \<open>Advancing the wheel\<close>

text \<open>The \<open>for level in 1..LEVELS\<close> loop of \<open>advance_one\<close>, with its early \<open>break\<close>.\<close>

function cascade_levels :: "nat \<Rightarrow> nat \<Rightarrow> nat \<Rightarrow> nat \<Rightarrow> wheel \<Rightarrow> wheel option" where
  "cascade_levels S L level width w =
     (if level < L \<and> current_tick w mod width = 0
      then do {
        w1 \<leftarrow> cascade S L level (current_tick w div width mod S) w;
        cascade_levels S L (level + 1) (saturating_mul_u64 width S) w1 }
      else Some w)"
  by pat_completeness auto
termination by (relation "measure (\<lambda>(S, L, level, width, w). L - level)") auto

declare cascade_levels.simps [simp del]

definition advance_one :: "nat \<Rightarrow> nat \<Rightarrow> wheel \<Rightarrow> wheel option" where
  "advance_one S L w = do {
     t \<leftarrow> checked_add_u64 (current_tick w) 1;
     w1 \<leftarrow> cascade_levels S L 1 S (w\<lparr>current_tick := t\<rparr>);
     drain_slot 0 (current_tick w1 mod S) w1 }"

definition wheel_tick :: "nat \<Rightarrow> nat \<Rightarrow> wheel \<Rightarrow> wheel option" where
  "wheel_tick S L w = advance_one S L w"

primrec wheel_tick_n :: "nat \<Rightarrow> nat \<Rightarrow> nat \<Rightarrow> wheel \<Rightarrow> wheel option" where
  "wheel_tick_n S L 0 w = Some w"
| "wheel_tick_n S L (Suc n) w = do { w1 \<leftarrow> advance_one S L w; wheel_tick_n S L n w1 }"

partial_function (option) wheel_advance_to :: "nat \<Rightarrow> nat \<Rightarrow> nat \<Rightarrow> wheel \<Rightarrow> wheel option" where
  "wheel_advance_to S L target w =
     (if current_tick w < target
      then do { w1 \<leftarrow> advance_one S L w; wheel_advance_to S L target w1 }
      else Some w)"

section \<open>The next deadline\<close>

text \<open>\<open>next_deadline\<close> looks at the head of every slot list, level by level.\<close>

fun min_deadline :: "(addr \<rightharpoonup> timer_entry) \<Rightarrow> addr option list \<Rightarrow> nat option \<Rightarrow> nat option option" where
  "min_deadline m [] acc = Some acc"
| "min_deadline m (None # hs) acc = min_deadline m hs acc"
| "min_deadline m (Some a # hs) acc = do {
     e \<leftarrow> m a;
     min_deadline m hs
       (Some (case acc of Some x \<Rightarrow> if x \<le> deadline e then x else deadline e | None \<Rightarrow> deadline e)) }"

definition wheel_next_deadline :: "nat \<Rightarrow> nat \<Rightarrow> wheel \<Rightarrow> nat option option" where
  "wheel_next_deadline S L w =
     min_deadline (mem w) (concat (map (\<lambda>l. map (\<lambda>s. heads w l s) [0..<S]) [0..<L])) None"

section \<open>Equations for evaluation and proof\<close>

lemma set_head_fields [simp]:
  "mem (set_head l s p w) = mem w" "current_tick (set_head l s p w) = current_tick w"
  "pending (set_head l s p w) = pending w" "woken (set_head l s p w) = woken w"
  by (simp_all add: set_head_def)

lemma heads_set_head [simp]:
  "heads (set_head l s p w) l' s' = (if l' = l \<and> s' = s then p else heads w l' s')"
  by (simp add: set_head_def)

lemma put_entry_fields [simp]:
  "mem (put_entry a e w) = (mem w)(a \<mapsto> e)" "current_tick (put_entry a e w) = current_tick w"
  "pending (put_entry a e w) = pending w" "woken (put_entry a e w) = woken w"
  "heads (put_entry a e w) = heads w"
  by (simp_all add: put_entry_def)

lemma drain_loop_None [simp]: "drain_loop None w = Some w"
  by (subst drain_loop.simps) simp

lemma drain_loop_Some [simp]:
  "drain_loop (Some a) w = do {
     e \<leftarrow> mem w a;
     w1 \<leftarrow> detach a e w;
     w2 \<leftarrow> fire a w1;
     drain_loop (next_ptr e) w2 }"
  by (subst drain_loop.simps) simp

lemma cascade_loop_None [simp]: "cascade_loop S L None w = Some w"
  by (subst cascade_loop.simps) simp

lemma cascade_loop_Some [simp]:
  "cascade_loop S L (Some a) w = do {
     e \<leftarrow> mem w a;
     w1 \<leftarrow> detach a e w;
     (level, slot) \<leftarrow> cascade_target S L (current_tick w1) (deadline e);
     w2 \<leftarrow> link level slot a w1;
     cascade_loop S L (next_ptr e) w2 }"
  by (subst cascade_loop.simps) simp

text \<open>The definitions a concrete run unfolds.\<close>

lemmas wheel_eval =
  inner_insert_def inner_remove_def choose_slot_def future_slot_def choose_level.simps link_def
  is_registered_def set_prev_next_def set_head_def put_entry_def dec_pending_def detach_def fire_def
  drain_slot_def cascade_target_def cascade_def cascade_levels.simps advance_one_def
  wheel_tick_def timer_entry_new_def arith_defs u64_max_def

end
