(* ===== verification/Wheel_Slots.thy ===== *)
theory Wheel_Slots
  imports Timer_Wheel
begin

text \<open>
  The wheel with its pointers abstracted away: every slot is the list of the entries in it,
  front first.  The theory states where an entry may be (\<open>placed\<close>), shows that the
  cascade and the drain of one tick keep every entry in its place, and that the drained
  slot holds exactly the entries that are due.  \<open>Wheel_Refine\<close> connects it to the
  pointer-level operations of \<open>Timer_Wheel\<close>.
\<close>

type_synonym slots = "nat \<Rightarrow> nat \<Rightarrow> addr list"

definition registered :: "slots \<Rightarrow> addr set" where
  "registered sl = {a. \<exists>l s. a \<in> set (sl l s)}"

definition set_slot :: "nat \<Rightarrow> nat \<Rightarrow> addr list \<Rightarrow> slots \<Rightarrow> slots" where
  "set_slot l s xs sl = sl(l := (sl l)(s := xs))"

lemma set_slot_apply [simp]:
  "set_slot l s xs sl l' s' = (if l' = l \<and> s' = s then xs else sl l' s')"
  by (auto simp: set_slot_def)

definition push_slot :: "nat \<times> nat \<Rightarrow> addr \<Rightarrow> slots \<Rightarrow> slots" where
  "push_slot p a sl = set_slot (fst p) (snd p) (a # sl (fst p) (snd p)) sl"

text \<open>Every entry is in one slot only, once, and only the slots of the wheel are used.\<close>

definition slots_ok :: "nat \<Rightarrow> nat \<Rightarrow> slots \<Rightarrow> bool" where
  "slots_ok S L sl \<longleftrightarrow>
     (\<forall>l s. distinct (sl l s)) \<and>
     (\<forall>l s l' s' a. a \<in> set (sl l s) \<longrightarrow> a \<in> set (sl l' s') \<longrightarrow> l = l' \<and> s = s') \<and>
     (\<forall>l s. L \<le> l \<or> S \<le> s \<longrightarrow> sl l s = [])"

definition empty_slots :: slots where
  "empty_slots = (\<lambda>_ _. [])"

lemma empty_slots_apply [simp]: "empty_slots l s = []"
  by (simp add: empty_slots_def)

lemma registered_empty [simp]: "registered empty_slots = {}"
  by (simp add: registered_def empty_slots_def)

lemma slots_ok_empty [simp]: "slots_ok S L empty_slots"
  by (simp add: slots_ok_def empty_slots_def)

lemma in_push_slot:
  "x \<in> set (push_slot p a sl l s) \<longleftrightarrow> x \<in> set (sl l s) \<or> (x = a \<and> p = (l, s))"
  by (cases p) (auto simp: push_slot_def)

lemma in_registered: "a \<in> set (sl l s) \<Longrightarrow> a \<in> registered sl"
  by (auto simp: registered_def)

lemma registered_push: "registered (push_slot p a sl) = insert a (registered sl)"
  by (cases p) (auto simp: registered_def in_push_slot)

lemma registered_clear:
  "slots_ok S L sl \<Longrightarrow> registered (set_slot l s [] sl) = registered sl - set (sl l s)"
  unfolding registered_def slots_ok_def by (auto split: if_splits)

lemma slots_ok_push:
  assumes "slots_ok S L sl" "a \<notin> registered sl" "fst p < L" "snd p < S"
  shows "slots_ok S L (push_slot p a sl)"
  using assms unfolding slots_ok_def
  by (cases p) (auto simp: registered_def in_push_slot, auto simp: push_slot_def)

lemma slots_ok_clear: "slots_ok S L sl \<Longrightarrow> slots_ok S L (set_slot l s [] sl)"
  by (auto simp: slots_ok_def)

lemma slots_ok_remove: "slots_ok S L sl \<Longrightarrow> slots_ok S L (\<lambda>l s. removeAll a (sl l s))"
  by (auto simp: slots_ok_def distinct_removeAll)

lemma registered_remove: "registered (\<lambda>l s. removeAll a (sl l s)) = registered sl - {a}"
  by (auto simp: registered_def)

lemma slots_ok_distinct: "slots_ok S L sl \<Longrightarrow> distinct (sl l s)"
  by (simp add: slots_ok_def)

lemma slots_ok_disjoint:
  "slots_ok S L sl \<Longrightarrow> a \<in> set (sl l s) \<Longrightarrow> a \<in> set (sl l' s') \<Longrightarrow> l = l' \<and> s = s'"
  by (simp add: slots_ok_def)

lemma slots_ok_range: "slots_ok S L sl \<Longrightarrow> a \<in> set (sl l s) \<Longrightarrow> l < L \<and> s < S"
  unfolding slots_ok_def by (metis list.set(1) empty_iff not_le)

lemma finite_registered [simp]: "slots_ok S L sl \<Longrightarrow> finite (registered sl)"
proof -
  assume ok: "slots_ok S L sl"
  have "registered sl \<subseteq> (\<Union>l<L. \<Union>s<S. set (sl l s))"
    using slots_ok_range[OF ok] by (force simp: registered_def)
  then show ?thesis by (rule finite_subset) simp
qed

section \<open>Dimensions and the chosen slot\<close>

text \<open>
  \<open>SLOTS >= 2\<close> and \<open>LEVELS >= 1\<close> as \<open>TimerWheel::new\<close> asserts, and the resolution of
  the coarsest level fits a \<open>u64\<close> (so that no width or resolution the code compares a
  delta with is saturated).
\<close>

definition dims_ok :: "nat \<Rightarrow> nat \<Rightarrow> bool" where
  "dims_ok S L \<longleftrightarrow> 2 \<le> S \<and> 1 \<le> L \<and> S ^ (L - 1) \<le> u64_max"

lemma dims_power:
  assumes "dims_ok S L" "l < L"
  shows "S ^ l \<le> u64_max"
proof -
  have "S ^ l \<le> S ^ (L - 1)"
    using assms by (intro power_increasing) (auto simp: dims_ok_def)
  also have "\<dots> \<le> u64_max" using assms by (simp add: dims_ok_def)
  finally show ?thesis .
qed

lemma saturating_width_step:
  "2 \<le> S \<Longrightarrow> saturating_mul_u64 (min (S ^ k) u64_max) S = min (S ^ Suc k) u64_max"
proof (cases "S ^ k \<le> u64_max")
  case True
  then show ?thesis by (simp add: saturating_mul_u64_def mult.commute)
next
  case False
  assume S: "2 \<le> S"
  have "u64_max \<le> u64_max * S" using S by simp
  moreover have "u64_max \<le> S ^ Suc k"
    using False S by (simp add: le_trans[of u64_max "S ^ k"])
  ultimately show ?thesis using False by (simp add: saturating_mul_u64_def min_absorb2)
qed

lemma choose_level_spec:
  assumes "dims_ok S L" "level < L" "width = min (S ^ Suc level) u64_max"
    and "level = 0 \<or> S ^ level \<le> delta"
  defines "r \<equiv> choose_level S L delta level width"
  shows "r < L \<and> (r = 0 \<or> S ^ r \<le> delta) \<and> (r + 1 < L \<longrightarrow> delta < S ^ Suc r)"
  using assms(1-4) unfolding r_def
proof (induction S L delta level width rule: choose_level.induct)
  case (1 S L delta level width)
  show ?case
  proof (cases "level + 1 < L \<and> width \<le> delta")
    case True
    then have "S ^ Suc level \<le> u64_max"
      using dims_power[OF 1(2), of "Suc level"] by simp
    then have "width = S ^ Suc level" using 1(4) by linarith
    with True have "S ^ Suc level \<le> delta" by simp
    moreover have "saturating_mul_u64 width S = min (S ^ Suc (Suc level)) u64_max"
      using saturating_width_step[of S "Suc level"] 1(2,4) by (simp add: dims_ok_def)
    moreover have "choose_level S L delta level width =
        choose_level S L delta (level + 1) (saturating_mul_u64 width S)"
      using True by (subst choose_level.simps) simp
    ultimately show ?thesis using 1(1)[OF True] 1(2) True by simp
  next
    case False
    have "delta < S ^ Suc level" if "level + 1 < L"
      using that False 1(4) dims_power[OF 1(2), of "Suc level"] by simp
    moreover have "choose_level S L delta level width = level"
      using False by (subst choose_level.simps) auto
    ultimately show ?thesis using 1(3,5) by simp
  qed
qed

lemma future_slot_spec:
  assumes "dims_ok S L" "now < d" "future_slot S L now d = (l, s)"
  shows "l < L" "s < S" "s = d div S ^ l mod S"
    and "l \<noteq> 0 \<Longrightarrow> now div S ^ l < d div S ^ l"
    and "l = 0 \<Longrightarrow> 2 \<le> L \<Longrightarrow> d - now < S"
proof -
  have S: "2 \<le> S" and L: "1 \<le> L" using assms(1) by (auto simp: dims_ok_def)
  have "choose_level S L (d - now) 0 S = choose_level S L (d - now) 0 (min (S ^ Suc 0) u64_max)"
  proof (cases "L = 1")
    case True \<comment> \<open>the width is never compared\<close>
    then show ?thesis by (simp add: choose_level.simps)
  next
    case False
    then have "S ^ 1 \<le> u64_max" using L by (intro dims_power[OF assms(1)]) simp
    then show ?thesis by (simp add: min_absorb1)
  qed
  moreover have "l = choose_level S L (d - now) 0 S"
    using assms(3) by (simp add: future_slot_def Let_def)
  ultimately have spec: "l < L \<and> (l = 0 \<or> S ^ l \<le> d - now) \<and> (l + 1 < L \<longrightarrow> d - now < S ^ Suc l)"
    using choose_level_spec[OF assms(1) _ refl, of 0 "d - now"] L by simp
  then show l: "l < L" by simp
  have "S ^ l \<le> u64_max" using dims_power[OF assms(1) l] .
  then show sl: "s = d div S ^ l mod S"
    using assms(3) by (auto simp: future_slot_def Let_def)
  show "s < S" using S by (simp add: sl)
  show "now div S ^ l < d div S ^ l" if "l \<noteq> 0"
  proof -
    have "now + S ^ l \<le> d" using that spec assms(2) by linarith
    then have "(now + S ^ l) div S ^ l \<le> d div S ^ l" by (rule div_le_mono)
    also have "(now + S ^ l) div S ^ l = now div S ^ l + 1"
      using S by (intro div_add_self2) simp
    finally show ?thesis by simp
  qed
  show "d - now < S" if "l = 0" "2 \<le> L" using that spec by simp
qed

section \<open>The cascade and the drain on slot lists\<close>

text \<open>
  \<open>dl\<close> gives the deadline of an entry.  \<open>slot_for\<close> is where the cascade at tick \<open>now\<close> puts an
  entry; the entries of the detached list are pushed one after the other.
\<close>

definition slot_for :: "nat \<Rightarrow> nat \<Rightarrow> nat \<Rightarrow> nat \<Rightarrow> nat \<times> nat" where
  "slot_for S L now d = (if d \<le> now then (0, now mod S) else future_slot S L now d)"

fun relink_all :: "nat \<Rightarrow> nat \<Rightarrow> nat \<Rightarrow> (addr \<Rightarrow> nat) \<Rightarrow> addr list \<Rightarrow> slots \<Rightarrow> slots" where
  "relink_all S L now dl [] sl = sl"
| "relink_all S L now dl (a # as) sl =
     relink_all S L now dl as (push_slot (slot_for S L now (dl a)) a sl)"

definition cascade_slots :: "nat \<Rightarrow> nat \<Rightarrow> nat \<Rightarrow> (addr \<Rightarrow> nat) \<Rightarrow> nat \<Rightarrow> nat \<Rightarrow> slots \<Rightarrow> slots" where
  "cascade_slots S L now dl l s sl = relink_all S L now dl (sl l s) (set_slot l s [] sl)"

function cascade_levels_slots ::
  "nat \<Rightarrow> nat \<Rightarrow> nat \<Rightarrow> (addr \<Rightarrow> nat) \<Rightarrow> nat \<Rightarrow> nat \<Rightarrow> slots \<Rightarrow> slots" where
  "cascade_levels_slots S L now dl level width sl =
     (if level < L \<and> now mod width = 0
      then cascade_levels_slots S L now dl (level + 1) (saturating_mul_u64 width S)
             (cascade_slots S L now dl level (now div width mod S) sl)
      else sl)"
  by pat_completeness auto
termination by (relation "measure (\<lambda>(S, L, now, dl, level, width, sl). L - level)") auto

declare cascade_levels_slots.simps [simp del]

text \<open>The slots after the cascades of the tick that moves the wheel to \<open>now\<close>.\<close>

definition cascaded :: "nat \<Rightarrow> nat \<Rightarrow> nat \<Rightarrow> (addr \<Rightarrow> nat) \<Rightarrow> slots \<Rightarrow> slots" where
  "cascaded S L now dl sl = cascade_levels_slots S L now dl 1 S sl"

lemma slot_for_range:
  assumes "dims_ok S L"
  shows "fst (slot_for S L now d) < L" "snd (slot_for S L now d) < S"
  using assms future_slot_spec(1,2)[OF assms, of now d "fst (slot_for S L now d)" "snd (slot_for S L now d)"]
  by (auto simp: slot_for_def dims_ok_def)

lemma relink_all_ok:
  assumes "dims_ok S L" "slots_ok S L sl" "distinct as" "set as \<inter> registered sl = {}"
  shows "slots_ok S L (relink_all S L now dl as sl) \<and>
         registered (relink_all S L now dl as sl) = registered sl \<union> set as"
  using assms(2-)
proof (induction as arbitrary: sl)
  case (Cons a as)
  then show ?case
    using slot_for_range[OF assms(1)] by (auto simp: registered_push slots_ok_push)
qed simp

lemma cascade_slots_ok:
  assumes "dims_ok S L" "slots_ok S L sl"
  shows "slots_ok S L (cascade_slots S L now dl l s sl)"
    and "registered (cascade_slots S L now dl l s sl) = registered sl"
proof -
  have "set (sl l s) \<subseteq> registered sl" by (auto simp: registered_def)
  then show "slots_ok S L (cascade_slots S L now dl l s sl)"
    and "registered (cascade_slots S L now dl l s sl) = registered sl"
    using relink_all_ok[OF assms(1), of "set_slot l s [] sl" "sl l s" now dl] assms(2)
    by (auto simp: cascade_slots_def slots_ok_clear registered_clear) (auto simp: slots_ok_def)
qed

lemma cascade_levels_slots_ok:
  assumes "dims_ok S L" "slots_ok S L sl"
  shows "slots_ok S L (cascade_levels_slots S L now dl level width sl) \<and>
         registered (cascade_levels_slots S L now dl level width sl) = registered sl"
  using assms
proof (induction S L now dl level width sl rule: cascade_levels_slots.induct)
  case (1 S L now dl level width sl)
  then show ?case
    by (subst (1 2) cascade_levels_slots.simps) (simp add: cascade_slots_ok)
qed

section \<open>Where an entry may be\<close>

text \<open>
  Between ticks (the current tick is \<open>t\<close>): the entry of a level-0 slot fires when the slot
  drains next, at its deadline or, if that has passed, at the next tick; a coarser slot is
  the one of the deadline, and its cascade is still to come.
\<close>

definition placed :: "nat \<Rightarrow> nat \<Rightarrow> nat \<Rightarrow> nat \<Rightarrow> nat \<Rightarrow> bool" where
  "placed S t l s d \<longleftrightarrow>
     (if l = 0 then s = max d (t + 1) mod S \<and> max d (t + 1) \<le> t + S
      else s = d div S ^ l mod S \<and> t div S ^ l < d div S ^ l)"

text \<open>
  During the tick that moves the wheel to \<open>t\<close>, before level \<open>k\<close> is cascaded: the entries of
  a level from \<open>k\<close> on may sit in the slot whose cascade is due in this very tick.
\<close>

definition mid_placed :: "nat \<Rightarrow> nat \<Rightarrow> nat \<Rightarrow> nat \<Rightarrow> nat \<Rightarrow> nat \<Rightarrow> bool" where
  "mid_placed S t k l s d \<longleftrightarrow>
     (if l = 0 then s = max d t mod S \<and> max d t < t + S
      else s = d div S ^ l mod S \<and>
           (t div S ^ l < d div S ^ l \<or> k \<le> l \<and> t div S ^ l = d div S ^ l \<and> S ^ l dvd t))"

definition all_slots :: "(nat \<Rightarrow> nat \<Rightarrow> nat \<Rightarrow> bool) \<Rightarrow> (addr \<Rightarrow> nat) \<Rightarrow> slots \<Rightarrow> bool" where
  "all_slots P dl sl \<longleftrightarrow> (\<forall>l s. \<forall>a \<in> set (sl l s). P l s (dl a))"

lemma all_slotsI: "(\<And>l s a. a \<in> set (sl l s) \<Longrightarrow> P l s (dl a)) \<Longrightarrow> all_slots P dl sl"
  by (simp add: all_slots_def)

lemma all_slotsD: "all_slots P dl sl \<Longrightarrow> a \<in> set (sl l s) \<Longrightarrow> P l s (dl a)"
  by (simp add: all_slots_def)

lemma all_slots_push:
  "all_slots P dl (push_slot p a sl) \<longleftrightarrow> all_slots P dl sl \<and> P (fst p) (snd p) (dl a)"
  by (cases p) (auto simp: all_slots_def in_push_slot)

lemma Suc_div_cases:
  fixes t n :: nat
  assumes "0 < n"
  shows "Suc t div n = t div n \<or> (Suc t div n = Suc (t div n) \<and> n dvd Suc t)"
  using assms by (auto simp: div_Suc dvd_eq_mod_eq_0)

lemma placed_mid:
  assumes "2 \<le> S" "placed S t l s d"
  shows "mid_placed S (Suc t) 1 l s d"
proof (cases "l = 0")
  case True
  then show ?thesis using assms by (auto simp: placed_def mid_placed_def)
next
  case False
  have "0 < S ^ l" using assms(1) by simp
  from Suc_div_cases[OF this, of t] show ?thesis
    using assms False by (auto simp: placed_def mid_placed_def)
qed

text \<open>An entry that is linked in tick \<open>t\<close> is where it belongs after the tick's cascades.\<close>

lemma slot_for_mid_placed:
  assumes "dims_ok S L" "2 \<le> L" "slot_for S L t d = (l, s)"
  shows "mid_placed S t k l s d"
proof (cases "d \<le> t")
  case True
  then show ?thesis using assms by (auto simp: slot_for_def mid_placed_def dims_ok_def)
next
  case False
  then have fs: "future_slot S L t d = (l, s)" and d: "t < d" using assms by (auto simp: slot_for_def)
  show ?thesis
    using future_slot_spec[OF assms(1) d fs] assms(2) d by (auto simp: mid_placed_def)
qed

lemma future_placed:
  assumes "dims_ok S L" "2 \<le> L" "t < d" "future_slot S L t d = (l, s)"
  shows "placed S t l s d"
  using future_slot_spec[OF assms(1,3,4)] assms(2,3) by (auto simp: placed_def)

lemma relink_all_mid:
  assumes "dims_ok S L" "2 \<le> L" "all_slots (mid_placed S t k) dl sl"
  shows "all_slots (mid_placed S t k) dl (relink_all S L t dl as sl)"
  using assms(3)
proof (induction as arbitrary: sl)
  case (Cons a as)
  have "mid_placed S t k (fst (slot_for S L t (dl a))) (snd (slot_for S L t (dl a))) (dl a)"
    by (rule slot_for_mid_placed[OF assms(1,2)]) simp
  then show ?case using Cons by (simp add: all_slots_push)
qed simp

lemma cascade_slots_mid:
  assumes "dims_ok S L" "2 \<le> L" "all_slots (mid_placed S t k) dl sl"
  shows "all_slots (mid_placed S t (Suc k)) dl (cascade_slots S L t dl k (t div S ^ k mod S) sl)"
proof -
  have "all_slots (mid_placed S t (Suc k)) dl (set_slot k (t div S ^ k mod S) [] sl)"
  proof (rule all_slotsI)
    fix l s a
    assume a: "a \<in> set (set_slot k (t div S ^ k mod S) [] sl l s)"
    then have "a \<in> set (sl l s)" and other: "\<not> (l = k \<and> s = t div S ^ k mod S)"
      by (auto split: if_splits)
    then have "mid_placed S t k l s (dl a)" by (auto dest: all_slotsD[OF assms(3)])
    with other show "mid_placed S t (Suc k) l s (dl a)"
      by (cases "l = k") (auto simp: mid_placed_def split: if_splits)
  qed
  then show ?thesis
    unfolding cascade_slots_def by (rule relink_all_mid[OF assms(1,2)])
qed

text \<open>Where the loop breaks, no coarser slot is due.\<close>

lemma mid_placed_break:
  assumes "\<not> S ^ k dvd t" "mid_placed S t k l s d"
  shows "mid_placed S t k' l s d"
  using assms power_le_dvd[of S l t k] by (auto simp: mid_placed_def)

lemma cascade_levels_slots_mid:
  assumes "dims_ok S L" "2 \<le> L" "slots_ok S L sl" "1 \<le> k" "width = min (S ^ k) u64_max"
    and "all_slots (mid_placed S t k) dl sl"
  shows "all_slots (mid_placed S t L) dl (cascade_levels_slots S L t dl k width sl)"
  using assms
proof (induction S L t dl k width sl rule: cascade_levels_slots.induct)
  case (1 S L t dl k width sl)
  have S: "2 \<le> S" using 1(2) by (simp add: dims_ok_def)
  show ?case
  proof (cases "k < L")
    case False
    have "all_slots (mid_placed S t L) dl sl"
    proof (rule all_slotsI)
      fix l s a assume a: "a \<in> set (sl l s)"
      then have "l < L" using 1(4) by (auto dest: slots_ok_range)
      then show "mid_placed S t L l s (dl a)"
        using all_slotsD[OF 1(7) a] False by (auto simp: mid_placed_def split: if_splits)
    qed
    then show ?thesis using False by (subst cascade_levels_slots.simps) simp
  next
    case True
    then have w: "width = S ^ k" using 1(6) dims_power[OF 1(2), of k] by simp
    show ?thesis
    proof (cases "t mod width = 0")
      case True
      have "saturating_mul_u64 width S = min (S ^ Suc k) u64_max"
        using saturating_width_step[OF S, of k] 1(6) by simp
      then show ?thesis
        using 1(1)[OF conjI[OF \<open>k < L\<close> True]] 1(2-7) w True \<open>k < L\<close>
          cascade_slots_mid[OF 1(2,3,7)] cascade_slots_ok(1)[OF 1(2,4)]
        by (subst cascade_levels_slots.simps) simp
    next
      case False
      then have "\<not> S ^ k dvd t" using w by (simp add: dvd_eq_mod_eq_0)
      then have "all_slots (mid_placed S t L) dl sl"
        using 1(7) by (auto simp: all_slots_def intro: mid_placed_break)
      then show ?thesis using False by (subst cascade_levels_slots.simps) simp
    qed
  qed
qed

section \<open>One tick on slot lists\<close>

text \<open>The entries drained by the tick to \<open>t\<close> are exactly those whose deadline is at most \<open>t\<close>.\<close>

lemma mod_same_range:
  fixes x t S :: nat
  assumes "t \<le> x" "x < t + S" "x mod S = t mod S"
  shows "x = t"
proof -
  have "S dvd x - t" using assms by (simp add: mod_eq_dvd_iff_nat)
  moreover have "x - t < S" using assms by linarith
  ultimately show ?thesis using assms(1) by (auto dest: dvd_imp_le)
qed

lemma drained_due:
  assumes "all_slots (mid_placed S t L) dl sl"
  shows "a \<in> set (sl 0 (t mod S)) \<Longrightarrow> dl a \<le> t"
    and "a \<in> registered sl \<Longrightarrow> slots_ok S L sl \<Longrightarrow> dl a \<le> t \<Longrightarrow> a \<in> set (sl 0 (t mod S))"
proof -
  assume "a \<in> set (sl 0 (t mod S))"
  from all_slotsD[OF assms this] show "dl a \<le> t"
    using mod_same_range[of t "max (dl a) t" S] by (auto simp: mid_placed_def)
next
  assume "a \<in> registered sl" "slots_ok S L sl" and due: "dl a \<le> t"
  then obtain l s where a: "a \<in> set (sl l s)" and "l < L"
    by (auto simp: registered_def dest: slots_ok_range)
  then have mid: "mid_placed S t L l s (dl a)" by (auto dest: all_slotsD[OF assms])
  have "l = 0"
    using mid \<open>l < L\<close> div_le_mono[OF due, of "S ^ l"] by (auto simp: mid_placed_def split: if_splits)
  with mid due a show "a \<in> set (sl 0 (t mod S))" by (simp add: mid_placed_def max_absorb2)
qed

lemma mid_placed_done:
  assumes "mid_placed S t L l s d" "l < L" "\<not> (l = 0 \<and> s = t mod S)"
  shows "placed S t l s d"
proof (cases "d \<le> t")
  case True
  then show ?thesis using assms by (auto simp: mid_placed_def placed_def max_absorb2 split: if_splits)
next
  case False
  then have "max d t = d" "max d (t + 1) = d" by auto
  then show ?thesis using assms by (auto simp: mid_placed_def placed_def split: if_splits)
qed

theorem advance_slots_spec:
  assumes "dims_ok S L" "2 \<le> L" "slots_ok S L sl" "all_slots (placed S t) dl sl"
  defines "sl1 \<equiv> cascaded S L (Suc t) dl sl"
  shows "set (sl1 0 (Suc t mod S)) = {a \<in> registered sl. dl a \<le> Suc t}"
    and "registered (set_slot 0 (Suc t mod S) [] sl1) = {a \<in> registered sl. Suc t < dl a}"
    and "all_slots (placed S (Suc t)) dl (set_slot 0 (Suc t mod S) [] sl1)"
    and "slots_ok S L (set_slot 0 (Suc t mod S) [] sl1)"
proof -
  have S: "2 \<le> S" using assms(1) by (simp add: dims_ok_def)
  have "S ^ 1 \<le> u64_max" using dims_power[OF assms(1), of 1] assms(2) by simp
  then have "S = min (S ^ 1) u64_max" by simp
  moreover have "all_slots (mid_placed S (Suc t) 1) dl sl"
    using assms(4) placed_mid[OF S] by (auto simp: all_slots_def)
  ultimately have mid: "all_slots (mid_placed S (Suc t) L) dl sl1"
    unfolding sl1_def cascaded_def by (intro cascade_levels_slots_mid[OF assms(1-3)]) simp_all
  have ok: "slots_ok S L sl1" and reg: "registered sl1 = registered sl"
    using cascade_levels_slots_ok[OF assms(1,3)] by (auto simp: sl1_def cascaded_def)
  show fired: "set (sl1 0 (Suc t mod S)) = {a \<in> registered sl. dl a \<le> Suc t}"
    using drained_due[OF mid] ok in_registered reg[symmetric] by auto
  show "registered (set_slot 0 (Suc t mod S) [] sl1) = {a \<in> registered sl. Suc t < dl a}"
    using registered_clear[OF ok] fired reg by auto
  show "slots_ok S L (set_slot 0 (Suc t mod S) [] sl1)" using ok by (rule slots_ok_clear)
  show "all_slots (placed S (Suc t)) dl (set_slot 0 (Suc t mod S) [] sl1)"
  proof (rule all_slotsI)
    fix l s a
    assume "a \<in> set (set_slot 0 (Suc t mod S) [] sl1 l s)"
    then have a: "a \<in> set (sl1 l s)" and other: "\<not> (l = 0 \<and> s = Suc t mod S)"
      by (auto split: if_splits)
    have "l < L" using a ok by (auto dest: slots_ok_range)
    from mid_placed_done[OF all_slotsD[OF mid a] this other]
    show "placed S (Suc t) l s (dl a)" .
  qed
qed

end
