(* ===== verification/Wheel_Refine.thy ===== *)
theory Wheel_Refine
  imports Wheel_Slots
begin

text \<open>
  The pointer-level wheel implements the slot lists: \<open>wheel_rel S L sl R w\<close> says that the
  intrusive lists of \<open>w\<close> are the lists of \<open>sl\<close>, and that the entries of \<open>R\<close> have been
  detached with their list but not yet visited by the running loop.  Every operation on a
  related state returns (no dangling dereference, no underflow of \<open>pending\<close>, no endless
  loop) and leads to the state the slot-list operation gives.
\<close>

section \<open>Intrusive lists\<close>

fun chain :: "(addr \<rightharpoonup> timer_entry) \<Rightarrow> link_field \<Rightarrow> addr option \<Rightarrow> addr list \<Rightarrow> bool" where
  "chain m p x [] \<longleftrightarrow> x = None"
| "chain m p x (a # as) \<longleftrightarrow>
     x = Some a \<and>
     (\<exists>e. m a = Some e \<and> prev_next e = Some p \<and> chain m (Next_Of a) (next_ptr e) as)"

lemma chain_frame: "(\<And>b. b \<in> set as \<Longrightarrow> m' b = m b) \<Longrightarrow> chain m' p x as = chain m p x as"
  by (induction as arbitrary: p x) auto

lemma chain_head: "chain m p x as \<Longrightarrow> x = (case as of [] \<Rightarrow> None | a # _ \<Rightarrow> Some a)"
  by (cases as) auto

lemma chain_allocated: "chain m p x as \<Longrightarrow> a \<in> set as \<Longrightarrow> \<exists>e. m a = Some e \<and> prev_next e \<noteq> None"
  by (induction as arbitrary: p x) auto

lemma chain_middle:
  assumes "chain m p x (xs @ a # ys)"
  shows "\<exists>e. m a = Some e \<and> prev_next e = Some (if xs = [] then p else Next_Of (last xs)) \<and>
             next_ptr e = (case ys of [] \<Rightarrow> None | c # _ \<Rightarrow> Some c)"
  using assms
  by (induction xs arbitrary: p x) (auto dest: chain_head)

text \<open>Taking one entry out of a chain: its neighbours are linked to each other.\<close>

lemma chain_unlink:
  assumes "chain m p x (xs @ a # ys)" "m a = Some e"
    and "\<And>b. b \<in> set (butlast xs) \<union> set (tl ys) \<Longrightarrow> m' b = m b"
    and "xs \<noteq> [] \<Longrightarrow> m' (last xs) = map_option (\<lambda>eb. eb\<lparr>next_ptr := next_ptr e\<rparr>) (m (last xs))"
    and "ys \<noteq> [] \<Longrightarrow> m' (hd ys) = map_option (\<lambda>ec. ec\<lparr>prev_next := prev_next e\<rparr>) (m (hd ys))"
  shows "chain m' p (if xs = [] then next_ptr e else x) (xs @ ys)"
  using assms
proof (induction xs arbitrary: p x)
  case Nil
  show ?case
  proof (cases ys)
    case (Cons c cs)
    then have "chain m' q y cs = chain m q y cs" for q y
      using Nil.prems(3) by (intro chain_frame) simp
    then show ?thesis using Nil Cons by auto
  qed (use Nil in auto)
next
  case (Cons b xs)
  then obtain eb where b: "x = Some b" "m b = Some eb" "prev_next eb = Some p"
    and c: "chain m (Next_Of b) (next_ptr eb) (xs @ a # ys)" by auto
  have IH: "chain m' (Next_Of b) (if xs = [] then next_ptr e else next_ptr eb) (xs @ ys)"
    using Cons.prems by (intro Cons.IH[OF c]) (auto split: if_splits)
  show ?case
  proof (cases "xs = []")
    case True
    then show ?thesis using IH b Cons.prems(4) by simp
  next
    case False
    then show ?thesis using IH b Cons.prems(3) by simp
  qed
qed

section \<open>The relation\<close>

definition wheel_rel :: "nat \<Rightarrow> nat \<Rightarrow> slots \<Rightarrow> addr set \<Rightarrow> wheel \<Rightarrow> bool" where
  "wheel_rel S L sl R w \<longleftrightarrow>
     (\<forall>l s. chain (mem w) (Slot_Head l s) (heads w l s) (sl l s)) \<and>
     slots_ok S L sl \<and>
     registered sl \<inter> R = {} \<and> finite R \<and>
     (\<forall>a e. mem w a = Some e \<longrightarrow> prev_next e \<noteq> None \<longrightarrow> a \<in> registered sl \<union> R) \<and>
     pending w = card (registered sl) + card R"

text \<open>The fields of an entry that the list operations do not touch.\<close>

definition payload :: "(addr \<rightharpoonup> timer_entry) \<Rightarrow> addr \<Rightarrow> (nat \<times> waker option) option" where
  "payload m a = map_option (\<lambda>e. (deadline e, waker e)) (m a)"

definition deadline_at :: "(addr \<rightharpoonup> timer_entry) \<Rightarrow> addr \<Rightarrow> nat" where
  "deadline_at m a = (case m a of None \<Rightarrow> 0 | Some e \<Rightarrow> deadline e)"

lemma deadline_at_payload:
  "deadline_at m a = (case payload m a of None \<Rightarrow> 0 | Some (d, _) \<Rightarrow> d)"
  by (simp add: payload_def deadline_at_def split: option.split)

lemma payload_deadline_at: "payload m = payload m' \<Longrightarrow> deadline_at m = deadline_at m'"
  by (simp add: fun_eq_iff deadline_at_payload)

lemma payload_dom: "payload m = payload m' \<Longrightarrow> (m a = None) = (m' a = None)"
  by (metis payload_def option.map_disc_iff)

lemma payload_upd:
  "m a = Some e \<Longrightarrow> deadline e' = deadline e \<Longrightarrow> waker e' = waker e \<Longrightarrow>
   payload (m(a \<mapsto> e')) = payload m"
  by (auto simp: payload_def fun_eq_iff)

lemma wheel_relD:
  assumes "wheel_rel S L sl R w"
  shows "chain (mem w) (Slot_Head l s) (heads w l s) (sl l s)"
    and "slots_ok S L sl" and "registered sl \<inter> R = {}" and "finite R"
    and "mem w a = Some e \<Longrightarrow> prev_next e \<noteq> None \<Longrightarrow> a \<in> registered sl \<union> R"
    and "pending w = card (registered sl) + card R"
  using assms by (auto simp: wheel_rel_def)

lemma heads_sl: "wheel_rel S L sl R w \<Longrightarrow> heads w l s = (case sl l s of [] \<Rightarrow> None | a # _ \<Rightarrow> Some a)"
  by (rule chain_head[OF wheel_relD(1)])

lemma registered_entry:
  "wheel_rel S L sl R w \<Longrightarrow> a \<in> registered sl \<Longrightarrow> \<exists>e. mem w a = Some e \<and> prev_next e \<noteq> None"
  using chain_allocated[OF wheel_relD(1)] by (fastforce simp: registered_def)

lemma wheel_rel_new:
  assumes "wheel_new S L m = Some w" "\<And>a e. m a = Some e \<Longrightarrow> prev_next e = None"
  shows "wheel_rel S L empty_slots {} w"
proof -
  have w: "w = \<lparr>heads = (\<lambda>_ _. None), current_tick = 0, pending = 0, mem = m, woken = []\<rparr>"
    using assms(1) by (auto simp: wheel_new_def split: if_splits)
  show ?thesis using assms(2) unfolding w wheel_rel_def by auto
qed

section \<open>Linking\<close>

lemma link_rel:
  assumes rel: "wheel_rel S L sl R w"
    and a: "mem w a = Some e" "prev_next e = None" "a \<notin> R" and ls: "l < L" "s < S"
  shows "\<exists>w'. link l s a w = Some w' \<and> wheel_rel S L (push_slot (l, s) a sl) R w' \<and>
           current_tick w' = current_tick w \<and> woken w' = woken w \<and>
           payload (mem w') = payload (mem w) \<and>
           (\<forall>b. b \<notin> insert a (registered sl) \<longrightarrow> mem w' b = mem w b)"
proof -
  let ?old = "heads w l s"
  let ?e' = "e\<lparr>next_ptr := ?old, prev_next := Some (Slot_Head l s)\<rparr>"
  let ?m1 = "(mem w)(a \<mapsto> ?e')"
  have notreg: "a \<notin> registered sl" using registered_entry[OF rel] a by force
  define m' where "m' = (case sl l s of [] \<Rightarrow> ?m1
      | h # _ \<Rightarrow> ?m1(h := map_option (\<lambda>eh. eh\<lparr>prev_next := Some (Next_Of a)\<rparr>) (mem w h)))"
  define w' where "w' = (set_head l s (Some a) (w\<lparr>mem := m'\<rparr>))\<lparr>pending := pending w + 1\<rparr>"
  have alloc: "\<exists>eh. mem w h = Some eh" if "sl l s = h # hs" for h hs
    using registered_entry[OF rel, of h] in_registered[of h sl l s] that by auto
  have ah: "h \<noteq> a" if "sl l s = h # hs" for h hs
    using notreg in_registered[of h sl l s] that by auto
  have "link l s a w = Some w'"
    using a alloc ah unfolding link_def w'_def m'_def heads_sl[OF rel]
    by (auto simp: is_registered_def set_prev_next_def put_entry_def set_head_def split: list.split)
  moreover have "wheel_rel S L (push_slot (l, s) a sl) R w'"
    unfolding wheel_rel_def
  proof (intro conjI allI impI)
    fix l' s'
    show "chain (mem w') (Slot_Head l' s') (heads w' l' s') (push_slot (l, s) a sl l' s')"
    proof (cases "l' = l \<and> s' = s")
      case True
      have "chain m' (Next_Of a) ?old (sl l s)"
      proof (cases "sl l s")
        case (Cons h hs)
        have "h \<notin> set hs" using slots_ok_distinct[OF wheel_relD(2)[OF rel], of l s] Cons by simp
        moreover have "a \<notin> set hs" using notreg in_registered[of a sl l s] Cons by auto
        ultimately have "chain m' q y hs = chain (mem w) q y hs" for q y
          using Cons by (intro chain_frame) (auto simp: m'_def)
        then show ?thesis using wheel_relD(1)[OF rel, of l s] Cons by (auto simp: m'_def)
      qed (use heads_sl[OF rel] in simp)
      moreover have "m' a = Some ?e'" using ah by (auto simp: m'_def split: list.split)
      ultimately show ?thesis using True by (simp add: w'_def set_head_def push_slot_def)
    next
      case False
      have "chain m' q y (sl l' s') = chain (mem w) q y (sl l' s')" for q y
      proof (rule chain_frame)
        fix b assume b: "b \<in> set (sl l' s')"
        then have "b \<notin> set (sl l s)"
          using False slots_ok_disjoint[OF wheel_relD(2)[OF rel]] by blast
        moreover have "b \<noteq> a" using notreg in_registered[of b sl l' s'] b by auto
        ultimately show "m' b = mem w b" by (auto simp: m'_def split: list.split)
      qed
      then show ?thesis
        using False wheel_relD(1)[OF rel] by (auto simp: w'_def set_head_def push_slot_def)
    qed
  next
    show "slots_ok S L (push_slot (l, s) a sl)"
      using wheel_relD(2)[OF rel] notreg ls by (intro slots_ok_push) auto
  next
    show "registered (push_slot (l, s) a sl) \<inter> R = {}"
      using wheel_relD(3)[OF rel] a(3) by (simp add: registered_push)
  next
    show "finite R" by (rule wheel_relD(4)[OF rel])
  next
    fix b eb assume "mem w' b = Some eb" "prev_next eb \<noteq> None"
    then show "b \<in> registered (push_slot (l, s) a sl) \<union> R"
      using wheel_relD(5)[OF rel, of b] in_registered[of b sl l s]
      by (auto simp: w'_def m'_def set_head_def registered_push split: list.splits if_splits)
  next
    show "pending w' = card (registered (push_slot (l, s) a sl)) + card R"
      using wheel_relD(6)[OF rel] notreg finite_registered[OF wheel_relD(2)[OF rel]]
      by (simp add: w'_def set_head_def registered_push)
  qed
  moreover have "payload (mem w') = payload (mem w)"
    using a alloc ah
    by (auto simp: w'_def m'_def set_head_def payload_upd split: list.split)
  moreover have "\<forall>b. b \<notin> insert a (registered sl) \<longrightarrow> mem w' b = mem w b"
    using in_registered[of _ sl l s] by (auto simp: w'_def m'_def set_head_def split: list.split)
  ultimately show ?thesis by (auto simp: w'_def set_head_def)
qed

section \<open>Detaching a list\<close>

text \<open>The forward pointers of a detached list, whose entries still count as registered.\<close>

fun fwd :: "(addr \<rightharpoonup> timer_entry) \<Rightarrow> addr option \<Rightarrow> addr list \<Rightarrow> bool" where
  "fwd m x [] \<longleftrightarrow> x = None"
| "fwd m x (a # as) \<longleftrightarrow>
     x = Some a \<and> (\<exists>e. m a = Some e \<and> prev_next e \<noteq> None \<and> fwd m (next_ptr e) as)"

lemma chain_fwd: "chain m p x as \<Longrightarrow> fwd m x as"
  by (induction as arbitrary: p x) auto

lemma fwd_frame: "(\<And>b. b \<in> set as \<Longrightarrow> m' b = m b) \<Longrightarrow> fwd m' x as = fwd m x as"
  by (induction as arbitrary: x) auto

lemma take_list_rel:
  assumes rel: "wheel_rel S L sl {} w"
  shows "wheel_rel S L (set_slot l s [] sl) (set (sl l s)) (set_head l s None w)"
    and "fwd (mem (set_head l s None w)) (heads w l s) (sl l s)"
    and "distinct (sl l s)"
proof -
  note ok = wheel_relD(2)[OF rel]
  have sub: "set (sl l s) \<subseteq> registered sl" by (auto simp: registered_def)
  have "card (registered sl) = card (registered sl - set (sl l s)) + card (set (sl l s))"
    using sub finite_registered[OF ok] by (simp add: card_Diff_subset card_mono)
  then show "wheel_rel S L (set_slot l s [] sl) (set (sl l s)) (set_head l s None w)"
    using rel sub ok unfolding wheel_rel_def
    by (auto simp: set_head_def slots_ok_clear registered_clear)
  show "fwd (mem (set_head l s None w)) (heads w l s) (sl l s)"
    using chain_fwd[OF wheel_relD(1)[OF rel]] by (simp add: set_head_def)
  show "distinct (sl l s)" by (rule slots_ok_distinct[OF ok])
qed

text \<open>An update of one entry outside the lists that leaves it unregistered.\<close>

lemma wheel_rel_loose:
  assumes rel: "wheel_rel S L sl R w" and a: "a \<notin> registered sl" "prev_next e = None"
  shows "wheel_rel S L sl (R - {a}) (w\<lparr>mem := (mem w)(a \<mapsto> e), pending := card (registered sl) + card (R - {a})\<rparr>)"
proof -
  have "chain ((mem w)(a \<mapsto> e)) p x (sl l s) = chain (mem w) p x (sl l s)" for p x l s
    using a in_registered[of _ sl l s] by (intro chain_frame) auto
  then show ?thesis using rel a(2) unfolding wheel_rel_def by auto
qed

lemma detach_rel:
  assumes rel: "wheel_rel S L sl R w" and a: "a \<in> R" "mem w a = Some e"
  shows "\<exists>w'. detach a e w = Some w' \<and> wheel_rel S L sl (R - {a}) w' \<and>
           current_tick w' = current_tick w \<and> woken w' = woken w \<and>
           mem w' = (mem w)(a \<mapsto> e\<lparr>next_ptr := None, prev_next := None\<rparr>)"
proof -
  have na: "a \<notin> registered sl" using wheel_relD(3)[OF rel] a by auto
  have c: "card R = Suc (card (R - {a}))"
    using a wheel_relD(4)[OF rel] by (intro card.remove)
  let ?e = "e\<lparr>next_ptr := None, prev_next := None\<rparr>"
  have "detach a e w = Some (w\<lparr>mem := (mem w)(a \<mapsto> ?e), pending := card (registered sl) + card (R - {a})\<rparr>)"
    using c wheel_relD(6)[OF rel] by (simp add: detach_def dec_pending_def put_entry_def)
  then show ?thesis using wheel_rel_loose[OF rel na, of ?e] by simp
qed

section \<open>Draining\<close>

definition wakers_of :: "(addr \<rightharpoonup> timer_entry) \<Rightarrow> addr list \<Rightarrow> waker list" where
  "wakers_of m as = concat (map (\<lambda>a. case m a of None \<Rightarrow> [] |
      Some e \<Rightarrow> (case waker e of None \<Rightarrow> [] | Some k \<Rightarrow> [k])) as)"

definition fired_entry :: "timer_entry \<Rightarrow> timer_entry" where
  "fired_entry e = e\<lparr>next_ptr := None, prev_next := None, waker := None\<rparr>"

lemma wakers_of_frame: "(\<And>b. b \<in> set as \<Longrightarrow> m' b = m b) \<Longrightarrow> wakers_of m' as = wakers_of m as"
  by (simp add: wakers_of_def cong: map_cong)

lemma drain_step:
  assumes rel: "wheel_rel S L sl R w" and a: "a \<in> R" "mem w a = Some e"
  obtains w1 w2 where "detach a e w = Some w1" "fire a w1 = Some w2"
    "wheel_rel S L sl (R - {a}) w2" "current_tick w2 = current_tick w"
    "woken w2 = woken w @ wakers_of (mem w) [a]" "mem w2 = (mem w)(a \<mapsto> fired_entry e)"
proof -
  obtain w1 where w1: "detach a e w = Some w1" "wheel_rel S L sl (R - {a}) w1"
      "current_tick w1 = current_tick w" "woken w1 = woken w"
      "mem w1 = (mem w)(a \<mapsto> e\<lparr>next_ptr := None, prev_next := None\<rparr>)"
    using detach_rel[OF assms] by blast
  have na: "a \<notin> registered sl" using wheel_relD(3)[OF rel] a by auto
  show thesis
  proof (cases "waker e")
    case None
    then have "fired_entry e = e\<lparr>next_ptr := None, prev_next := None\<rparr>"
      by (simp add: fired_entry_def)
    with None w1 a show ?thesis
      by (intro that[of w1 w1]) (auto simp: fire_def wakers_of_def)
  next
    case (Some k)
    let ?w2 = "w1\<lparr>mem := (mem w1)(a \<mapsto> fired_entry e), woken := woken w1 @ [k]\<rparr>"
    have "wheel_rel S L sl (R - {a}) ?w2"
      using wheel_rel_loose[OF w1(2) na, of "fired_entry e"] wheel_relD(6)[OF w1(2)]
      by (simp add: fired_entry_def wheel_rel_def)
    with Some w1 a show ?thesis
      by (intro that[of w1 ?w2]) (auto simp: fire_def wakers_of_def put_entry_def fired_entry_def)
  qed
qed

lemma drain_loop_rel:
  assumes "wheel_rel S L sl (set as) w" "fwd (mem w) x as" "distinct as"
  shows "\<exists>w'. drain_loop x w = Some w' \<and> wheel_rel S L sl {} w' \<and>
           current_tick w' = current_tick w \<and> woken w' = woken w @ wakers_of (mem w) as \<and>
           mem w' = (\<lambda>b. if b \<in> set as then map_option fired_entry (mem w b) else mem w b)"
  using assms
proof (induction as arbitrary: x w)
  case (Cons a as)
  then obtain e where x: "x = Some a" and e: "mem w a = Some e" and f: "fwd (mem w) (next_ptr e) as"
    by auto
  obtain w1 w2 where w: "detach a e w = Some w1" "fire a w1 = Some w2"
      "wheel_rel S L sl (set (a # as) - {a}) w2" "current_tick w2 = current_tick w"
      "woken w2 = woken w @ wakers_of (mem w) [a]" "mem w2 = (mem w)(a \<mapsto> fired_entry e)"
    using drain_step[OF Cons.prems(1) _ e] by auto
  have "set (a # as) - {a} = set as" using Cons.prems(3) by auto
  moreover have "fwd (mem w2) (next_ptr e) as"
    using f Cons.prems(3) w(6) by (subst fwd_frame[of as "mem w2" "mem w"]) auto
  ultimately obtain w' where w': "drain_loop (next_ptr e) w2 = Some w'" "wheel_rel S L sl {} w'"
      "current_tick w' = current_tick w2" "woken w' = woken w2 @ wakers_of (mem w2) as"
      "mem w' = (\<lambda>b. if b \<in> set as then map_option fired_entry (mem w2 b) else mem w2 b)"
    using Cons.IH[of w2 "next_ptr e"] Cons.prems(3) w(3) by auto
  have "wakers_of (mem w2) as = wakers_of (mem w) as"
    using Cons.prems(3) w(6) by (intro wakers_of_frame) auto
  then show ?case
    using x e w w' Cons.prems(3) by (auto simp: wakers_of_def fun_eq_iff)
qed (auto simp: wakers_of_def)

lemma drain_slot_rel:
  assumes rel: "wheel_rel S L sl {} w"
  shows "\<exists>w'. drain_slot l s w = Some w' \<and> wheel_rel S L (set_slot l s [] sl) {} w' \<and>
           current_tick w' = current_tick w \<and> woken w' = woken w @ wakers_of (mem w) (sl l s) \<and>
           mem w' = (\<lambda>b. if b \<in> set (sl l s) then map_option fired_entry (mem w b) else mem w b)"
  using drain_loop_rel[OF take_list_rel(1,2,3)[OF rel, of l s]]
  by (simp add: drain_slot_def cong: if_cong)

section \<open>Cascading\<close>

lemma cascade_target_eq:
  "cascade_target S L now d = Some (slot_for S L now d)"
  by (simp add: cascade_target_def slot_for_def choose_slot_def Let_def)

lemma cascade_loop_rel:
  assumes dims: "dims_ok S L"
    and "wheel_rel S L sl (set as) w" "fwd (mem w) x as" "distinct as"
  shows "\<exists>w'. cascade_loop S L x w = Some w' \<and>
           wheel_rel S L (relink_all S L (current_tick w) (deadline_at (mem w)) as sl) {} w' \<and>
           current_tick w' = current_tick w \<and> woken w' = woken w \<and>
           payload (mem w') = payload (mem w)"
  using assms(2-)
proof (induction as arbitrary: x w sl)
  case (Cons a as)
  then obtain e where x: "x = Some a" and e: "mem w a = Some e" and f: "fwd (mem w) (next_ptr e) as"
    by auto
  have na: "a \<notin> registered sl" and nas: "a \<notin> set as"
    using wheel_relD(3)[OF Cons.prems(1)] Cons.prems(3) by auto
  obtain w1 where w1: "detach a e w = Some w1" "wheel_rel S L sl (set (a # as) - {a}) w1"
      "current_tick w1 = current_tick w" "woken w1 = woken w"
      "mem w1 = (mem w)(a \<mapsto> e\<lparr>next_ptr := None, prev_next := None\<rparr>)"
    using detach_rel[OF Cons.prems(1) _ e] by auto
  obtain l s where t: "slot_for S L (current_tick w) (deadline e) = (l, s)" by fastforce
  have ls: "l < L" "s < S" using slot_for_range[OF dims, of "current_tick w" "deadline e"] t by auto
  have R: "set (a # as) - {a} = set as" using nas by auto
  obtain w2 where w2: "link l s a w1 = Some w2" "wheel_rel S L (push_slot (l, s) a sl) (set as) w2"
      "current_tick w2 = current_tick w1" "woken w2 = woken w1" "payload (mem w2) = payload (mem w1)"
      "\<forall>b. b \<notin> insert a (registered sl) \<longrightarrow> mem w2 b = mem w1 b"
    using link_rel[OF w1(2)[unfolded R], of a "e\<lparr>next_ptr := None, prev_next := None\<rparr>" l s] w1(5) nas ls
    by auto
  have frame: "mem w2 b = mem w b" if "b \<in> set as" for b
    using that w2(6) w1(5) nas wheel_relD(3)[OF Cons.prems(1)] by auto
  have pay: "payload (mem w2) = payload (mem w)"
    using w2(5) w1(5) e by (simp add: payload_upd)
  have "fwd (mem w2) (next_ptr e) as"
    using f by (subst fwd_frame[of as "mem w2" "mem w"]) (auto simp: frame)
  then obtain w' where w': "cascade_loop S L (next_ptr e) w2 = Some w'"
      "wheel_rel S L (relink_all S L (current_tick w2) (deadline_at (mem w2)) as (push_slot (l, s) a sl)) {} w'"
      "current_tick w' = current_tick w2" "woken w' = woken w2" "payload (mem w') = payload (mem w2)"
    using Cons.IH[OF w2(2)] Cons.prems(3) by auto
  have "deadline_at (mem w) a = deadline e" using e by (simp add: deadline_at_def)
  then show ?case
    using x e w1 w2 w' t pay payload_deadline_at[OF pay] by (simp add: cascade_target_eq)
qed auto

lemma cascade_rel:
  assumes "dims_ok S L" and rel: "wheel_rel S L sl {} w"
  shows "\<exists>w'. cascade S L l s w = Some w' \<and>
           wheel_rel S L (cascade_slots S L (current_tick w) (deadline_at (mem w)) l s sl) {} w' \<and>
           current_tick w' = current_tick w \<and> woken w' = woken w \<and>
           payload (mem w') = payload (mem w)"
  using cascade_loop_rel[OF assms(1) take_list_rel(1,2,3)[OF rel, of l s]]
  by (simp add: cascade_def cascade_slots_def)

lemma cascade_levels_rel:
  assumes "dims_ok S L" "wheel_rel S L sl {} w"
  shows "\<exists>w'. cascade_levels S L level width w = Some w' \<and>
           wheel_rel S L (cascade_levels_slots S L (current_tick w) (deadline_at (mem w)) level width sl) {} w' \<and>
           current_tick w' = current_tick w \<and> woken w' = woken w \<and>
           payload (mem w') = payload (mem w)"
  using assms
proof (induction S L level width w arbitrary: sl rule: cascade_levels.induct)
  case (1 S L level width w)
  show ?case
  proof (cases "level < L \<and> current_tick w mod width = 0")
    case True
    obtain w1 where w1: "cascade S L level (current_tick w div width mod S) w = Some w1"
      "wheel_rel S L (cascade_slots S L (current_tick w) (deadline_at (mem w)) level
          (current_tick w div width mod S) sl) {} w1"
      "current_tick w1 = current_tick w" "woken w1 = woken w" "payload (mem w1) = payload (mem w)"
      using cascade_rel[OF 1(2,3)] by blast
    show ?thesis
      using 1(1)[OF True w1(1) 1(2) w1(2)] True w1 payload_deadline_at[OF w1(5)]
      by (subst cascade_levels.simps, subst cascade_levels_slots.simps) simp
  next
    case False
    then show ?thesis
      using 1(3) by (subst cascade_levels.simps, subst cascade_levels_slots.simps) auto
  qed
qed

section \<open>One tick, insert and remove\<close>

text \<open>
  The slot lists after the tick that ends at \<open>now\<close>, and the entries it drains.
\<close>

definition ticked :: "nat \<Rightarrow> nat \<Rightarrow> nat \<Rightarrow> (addr \<Rightarrow> nat) \<Rightarrow> slots \<Rightarrow> slots" where
  "ticked S L now dl sl = set_slot 0 (now mod S) [] (cascaded S L now dl sl)"

definition drained :: "nat \<Rightarrow> nat \<Rightarrow> nat \<Rightarrow> (addr \<Rightarrow> nat) \<Rightarrow> slots \<Rightarrow> addr list" where
  "drained S L now dl sl = cascaded S L now dl sl 0 (now mod S)"

lemma wakers_of_payload: "payload m = payload m' \<Longrightarrow> wakers_of m as = wakers_of m' as"
proof -
  have "(case m a of None \<Rightarrow> [] | Some e \<Rightarrow> (case waker e of None \<Rightarrow> [] | Some k \<Rightarrow> [k])) =
        (case payload m a of None \<Rightarrow> [] | Some (_, v) \<Rightarrow> (case v of None \<Rightarrow> [] | Some k \<Rightarrow> [k]))" for m a
    by (simp add: payload_def split: option.split)
  then show "payload m = payload m' \<Longrightarrow> wakers_of m as = wakers_of m' as"
    by (simp add: wakers_of_def)
qed

lemma advance_one_rel:
  assumes dims: "dims_ok S L" and rel: "wheel_rel S L sl {} w" and t: "current_tick w < u64_max"
  defines "now \<equiv> Suc (current_tick w)" and "dl \<equiv> deadline_at (mem w)"
  shows "\<exists>w'. advance_one S L w = Some w' \<and> wheel_rel S L (ticked S L now dl sl) {} w' \<and>
           current_tick w' = now \<and>
           woken w' = woken w @ wakers_of (mem w) (drained S L now dl sl) \<and>
           payload (mem w') = (\<lambda>a. if a \<in> set (drained S L now dl sl)
              then map_option (\<lambda>(d, _). (d, None)) (payload (mem w) a) else payload (mem w) a)"
proof -
  let ?w0 = "w\<lparr>current_tick := now\<rparr>"
  have "wheel_rel S L sl {} ?w0" using rel by (simp add: wheel_rel_def)
  from cascade_levels_rel[OF dims this, of 1 S] obtain w1 where
    w1: "cascade_levels S L 1 S ?w0 = Some w1" "wheel_rel S L (cascaded S L now dl sl) {} w1"
      "current_tick w1 = now" "woken w1 = woken w" "payload (mem w1) = payload (mem w)"
    by (auto simp: cascaded_def dl_def)
  obtain w2 where w2: "drain_slot 0 (now mod S) w1 = Some w2"
      "wheel_rel S L (ticked S L now dl sl) {} w2" "current_tick w2 = now"
      "woken w2 = woken w1 @ wakers_of (mem w1) (drained S L now dl sl)"
      "mem w2 = (\<lambda>b. if b \<in> set (drained S L now dl sl) then map_option fired_entry (mem w1 b) else mem w1 b)"
    using drain_slot_rel[OF w1(2), of 0 "now mod S"] w1(3) by (auto simp: ticked_def drained_def)
  have "payload (mem w2) a = (if a \<in> set (drained S L now dl sl)
      then map_option (\<lambda>(d, _). (d, None)) (payload (mem w1) a) else payload (mem w1) a)" for a
    by (auto simp: w2(5) payload_def fired_entry_def option.map_comp comp_def)
  moreover have "advance_one S L w = Some w2"
    using w1 w2(1) t by (simp add: advance_one_def checked_add_u64_def now_def)
  ultimately show ?thesis
    using w1 w2 wakers_of_payload[OF w1(5)] by auto
qed

lemma inner_insert_rel:
  assumes dims: "dims_ok S L" and rel: "wheel_rel S L sl {} w"
    and a: "mem w a = Some e" "prev_next e = None"
    and p: "choose_slot S L (current_tick w) (deadline e) = Some (l, s)"
  shows "\<exists>w'. inner_insert S L a w = Some w' \<and> wheel_rel S L (push_slot (l, s) a sl) {} w' \<and>
           current_tick w' = current_tick w \<and> woken w' = woken w \<and>
           payload (mem w') = payload (mem w)"
proof -
  have "l < L \<and> s < S"
    using p dims future_slot_spec(1,2)[OF dims, of "current_tick w" "deadline e" l s]
    by (auto simp: choose_slot_def dims_ok_def Let_def bind_Some_iff split: if_splits)
  then show ?thesis
    using link_rel[OF rel a, of l s] a p by (auto simp: inner_insert_def)
qed

lemma inner_remove_unregistered:
  "mem w a = Some e \<Longrightarrow> prev_next e = None \<Longrightarrow> inner_remove a w = Some w"
  by (simp add: inner_remove_def)

text \<open>
  The memory after unlinking \<open>a\<close> (with entry \<open>e\<close>) from between \<open>p\<close> and \<open>x\<close>.
\<close>

definition unlinked :: "addr \<Rightarrow> timer_entry \<Rightarrow> (addr \<rightharpoonup> timer_entry) \<Rightarrow> addr \<rightharpoonup> timer_entry" where
  "unlinked a e m =
     (let m1 = m(a \<mapsto> e\<lparr>prev_next := None, next_ptr := None\<rparr>);
          m2 = (case prev_next e of
                  Some (Next_Of b) \<Rightarrow> m1(b := map_option (\<lambda>eb. eb\<lparr>next_ptr := next_ptr e\<rparr>) (m b))
                | _ \<Rightarrow> m1)
      in case next_ptr e of
           None \<Rightarrow> m2
         | Some c \<Rightarrow> m2(c := map_option (\<lambda>ec. ec\<lparr>prev_next := prev_next e\<rparr>) (m c)))"

lemma inner_remove_eval:
  assumes e: "mem w a = Some e" "prev_next e = Some p"
    and p: "\<And>b. p = Next_Of b \<Longrightarrow> b \<noteq> a \<and> next_ptr e \<noteq> Some b \<and> mem w b \<noteq> None"
    and n: "\<And>c. next_ptr e = Some c \<Longrightarrow> c \<noteq> a \<and> mem w c \<noteq> None"
    and pend: "0 < pending w"
  shows "inner_remove a w = Some (w\<lparr>
           heads := (case p of Slot_Head l s \<Rightarrow> (heads w)(l := (heads w l)(s := next_ptr e)) | _ \<Rightarrow> heads w),
           pending := pending w - 1, mem := unlinked a e (mem w)\<rparr>)"
proof (cases p)
  case (Slot_Head l s)
  then show ?thesis
    using e n pend
    by (cases "next_ptr e")
      (auto simp: inner_remove_def unlinked_def put_entry_def set_head_def set_prev_next_def dec_pending_def)
next
  case (Next_Of b)
  then obtain eb where "mem w b = Some eb" "b \<noteq> a" "next_ptr e \<noteq> Some b" using p by auto
  then show ?thesis
    using e n pend Next_Of
    by (cases "next_ptr e")
      (auto simp: inner_remove_def unlinked_def put_entry_def set_head_def set_prev_next_def
        dec_pending_def fun_upd_twist)
qed

lemma unlinked_apply:
  assumes "prev_next e = Some (if xs = [] then Slot_Head l s else Next_Of (last xs))"
    and "next_ptr e = (case ys of [] \<Rightarrow> None | c # _ \<Rightarrow> Some c)" and "distinct (xs @ a # ys)"
  shows "unlinked a e m a = Some (e\<lparr>prev_next := None, next_ptr := None\<rparr>)"
    and "b \<noteq> a \<Longrightarrow> b \<notin> set xs \<union> set ys \<Longrightarrow> unlinked a e m b = m b"
    and "b \<in> set (butlast xs) \<union> set (tl ys) \<Longrightarrow> unlinked a e m b = m b"
    and "xs \<noteq> [] \<Longrightarrow> unlinked a e m (last xs) = map_option (\<lambda>eb. eb\<lparr>next_ptr := next_ptr e\<rparr>) (m (last xs))"
    and "ys \<noteq> [] \<Longrightarrow> unlinked a e m (hd ys) = map_option (\<lambda>ec. ec\<lparr>prev_next := prev_next e\<rparr>) (m (hd ys))"
  using assms by (cases xs rule: rev_cases; cases ys; auto simp: unlinked_def Let_def)+

lemma unlinked_payload:
  assumes "m a = Some e" shows "payload (unlinked a e m) = payload m"
  using assms
  by (auto simp: unlinked_def Let_def payload_def fun_eq_iff option.map_comp comp_def
      split: option.split link_field.split)

lemma removeAll_middle: "distinct (xs @ a # ys) \<Longrightarrow> removeAll a (xs @ a # ys) = xs @ ys"
  by (auto simp: removeAll_id)

lemma inner_remove_rel:
  assumes rel: "wheel_rel S L sl {} w" and a: "a \<in> registered sl"
  shows "\<exists>w'. inner_remove a w = Some w' \<and> wheel_rel S L (\<lambda>l s. removeAll a (sl l s)) {} w' \<and>
           current_tick w' = current_tick w \<and> woken w' = woken w \<and>
           payload (mem w') = payload (mem w) \<and>
           (\<exists>e. mem w' a = Some e \<and> prev_next e = None)"
proof -
  note ok = wheel_relD(2)[OF rel]
  obtain l s where "a \<in> set (sl l s)" using a by (auto simp: registered_def)
  then obtain xs ys where sl: "sl l s = xs @ a # ys" by (auto dest: split_list)
  have dist: "distinct (xs @ a # ys)" using slots_ok_distinct[OF ok, of l s] sl by simp
  have ch: "chain (mem w) (Slot_Head l s) (heads w l s) (xs @ a # ys)"
    using wheel_relD(1)[OF rel, of l s] sl by simp
  obtain e where e: "mem w a = Some e"
      "prev_next e = Some (if xs = [] then Slot_Head l s else Next_Of (last xs))"
      "next_ptr e = (case ys of [] \<Rightarrow> None | c # _ \<Rightarrow> Some c)"
    using chain_middle[OF ch] by blast
  have alloc: "mem w b \<noteq> None" if "b \<in> set xs \<union> set ys" for b
    using chain_allocated[OF ch, of b] that by auto
  define m' where "m' = unlinked a e (mem w)"
  define hs where "hs = (if xs = [] then (heads w)(l := (heads w l)(s := next_ptr e)) else heads w)"
  note at = unlinked_apply[where m = "mem w", OF e(2,3) dist, folded m'_def]
  define w' where "w' = w\<lparr>heads := hs, pending := pending w - 1, mem := m'\<rparr>"
  have fin: "finite (registered sl)" using finite_registered[OF ok] .
  have pend: "pending w = card (registered sl)" "0 < pending w"
    using wheel_relD(6)[OF rel] a fin by (auto simp: card_gt_0_iff)
  have "inner_remove a w = Some w'"
    using inner_remove_eval[OF e(1,2) _ _ pend(2)] e alloc dist
    by (cases xs rule: rev_cases; cases ys; auto simp: w'_def hs_def m'_def)
  moreover have "wheel_rel S L (\<lambda>l s. removeAll a (sl l s)) {} w'"
    unfolding wheel_rel_def
  proof (intro conjI allI impI)
    fix l' s'
    show "chain (mem w') (Slot_Head l' s') (heads w' l' s') (removeAll a (sl l' s'))"
    proof (cases "l' = l \<and> s' = s")
      case True
      have "chain m' (Slot_Head l s) (if xs = [] then next_ptr e else heads w l s) (xs @ ys)"
        using at by (intro chain_unlink[OF ch e(1)]) auto
      then show ?thesis using True sl removeAll_middle[OF dist] by (auto simp: w'_def hs_def)
    next
      case False
      have "b \<noteq> a \<and> b \<notin> set xs \<union> set ys" if "b \<in> set (sl l' s')" for b
        using slots_ok_disjoint[OF ok that, of l s] False sl by auto
      then have "removeAll a (sl l' s') = sl l' s'"
        and "chain m' q x (sl l' s') = chain (mem w) q x (sl l' s')" for q x
        using at(2) by (auto intro!: removeAll_id chain_frame)
      then show ?thesis using False wheel_relD(1)[OF rel] by (auto simp: w'_def hs_def)
    qed
  next
    show "slots_ok S L (\<lambda>l s. removeAll a (sl l s))" by (rule slots_ok_remove[OF ok])
  next
    fix b eb assume b: "mem w' b = Some eb" "prev_next eb \<noteq> None"
    have "b \<noteq> a" using b at(1) by (auto simp: w'_def)
    moreover have "b \<in> registered sl"
    proof (cases "b \<in> set xs \<union> set ys")
      case True
      then show ?thesis using in_registered[of b sl l s] sl by auto
    next
      case False
      then show ?thesis using wheel_relD(5)[OF rel, of b] b at(2)[OF \<open>b \<noteq> a\<close>] by (auto simp: w'_def)
    qed
    ultimately show "b \<in> registered (\<lambda>l s. removeAll a (sl l s)) \<union> {}"
      by (simp add: registered_remove)
  next
    show "pending w' = card (registered (\<lambda>l s. removeAll a (sl l s))) + card {}"
      using pend a fin by (simp add: w'_def registered_remove card_Diff_singleton)
  qed simp_all
  moreover have "payload (mem w') = payload (mem w)"
    using unlinked_payload[of "mem w" a e] e(1) by (simp add: w'_def m'_def)
  moreover have "mem w' a = Some (e\<lparr>prev_next := None, next_ptr := None\<rparr>)"
    using at(1) by (simp add: w'_def)
  ultimately show ?thesis by (auto simp: w'_def)
qed

end
