(* ===== verification/Wheel_Service.thy ===== *)
theory Wheel_Service
  imports Wheel_Refine
begin

text \<open>
  What the timer wheel promises to the futures that use it.  The locale \<open>timer_service\<close>
  states the contract over any implementation: ticking fires exactly the registered entries
  whose deadline has come.  Its lemmas lift the contract to many ticks.  The pointer-level
  wheel of \<open>Timer_Wheel\<close> is shown to be an instance, and the properties of the wheel are
  read off it.
\<close>

section \<open>The contract\<close>

locale timer_service =
  fixes inv :: "'s \<Rightarrow> bool"
    and now :: "'s \<Rightarrow> nat"
    and regs :: "'s \<Rightarrow> 'a set"
    and due :: "'s \<Rightarrow> 'a \<Rightarrow> nat"
    and tick :: "'s \<Rightarrow> 's option"
  assumes tick_ok: "inv s \<Longrightarrow> now s < u64_max \<Longrightarrow>
      \<exists>s'. tick s = Some s' \<and> inv s' \<and> now s' = Suc (now s) \<and> due s' = due s \<and>
           regs s' = {a \<in> regs s. Suc (now s) < due s a}"
begin

lemma ticks_ok:
  assumes "inv s" "now s + n \<le> u64_max"
  shows "\<exists>s'. iterate_opt n tick s = Some s' \<and> inv s' \<and> now s' = now s + n \<and> due s' = due s \<and>
           regs s' = {a \<in> regs s. n = 0 \<or> now s + n < due s a}"
  using assms
proof (induction n arbitrary: s)
  case (Suc n)
  obtain s1 where s1: "tick s = Some s1" "inv s1" "now s1 = Suc (now s)" "due s1 = due s"
      "regs s1 = {a \<in> regs s. Suc (now s) < due s a}"
    using tick_ok[OF Suc.prems(1)] Suc.prems(2) by auto
  obtain s' where s': "iterate_opt n tick s1 = Some s'" "inv s'" "now s' = now s1 + n"
      "due s' = due s1" "regs s' = {a \<in> regs s1. n = 0 \<or> now s1 + n < due s1 a}"
    using Suc.IH[OF s1(2)] Suc.prems(2) s1(3) by auto
  have "regs s' = {a \<in> regs s. now s + Suc n < due s a}"
    unfolding s'(5) s1(3-5) by auto
  then show ?case using s1(1,3,4) s'(1-4) by simp
qed simp

lemma stays_registered:
  "inv s \<Longrightarrow> iterate_opt n tick s = Some s' \<Longrightarrow> a \<in> regs s \<Longrightarrow> 0 < n \<Longrightarrow> now s + n \<le> u64_max \<Longrightarrow>
   a \<in> regs s' \<longleftrightarrow> now s + n < due s a"
  using ticks_ok[of s n] by auto

end

section \<open>The invariant of the wheel\<close>

definition registered_in :: "wheel \<Rightarrow> addr set" where
  "registered_in w = {a. \<exists>e. mem w a = Some e \<and> is_registered e}"

text \<open>
  A well-formed wheel: its pointers form the intrusive lists of some slot lists, and every
  entry is in a slot from which it fires in time.
\<close>

definition wheel_inv :: "nat \<Rightarrow> nat \<Rightarrow> wheel \<Rightarrow> bool" where
  "wheel_inv S L w \<longleftrightarrow>
     dims_ok S L \<and> 2 \<le> L \<and>
     (\<exists>sl. wheel_rel S L sl {} w \<and>
           all_slots (placed S (current_tick w)) (deadline_at (mem w)) sl)"

lemma registered_in_rel: "wheel_rel S L sl {} w \<Longrightarrow> registered_in w = registered sl"
  using registered_entry[of S L sl "{}" w] wheel_relD(5)[of S L sl "{}" w]
  by (auto simp: registered_in_def is_registered_def)

lemma wheel_invE:
  assumes "wheel_inv S L w"
  obtains sl where "dims_ok S L" "2 \<le> L" "wheel_rel S L sl {} w" "registered_in w = registered sl"
    "all_slots (placed S (current_tick w)) (deadline_at (mem w)) sl"
  using assms registered_in_rel by (auto simp: wheel_inv_def)

lemma wheel_invI:
  assumes "dims_ok S L" "2 \<le> L" "wheel_rel S L sl {} w"
    "all_slots (placed S (current_tick w)) (deadline_at (mem w)) sl"
  shows "wheel_inv S L w" "registered_in w = registered sl"
  using assms registered_in_rel by (auto simp: wheel_inv_def)

section \<open>Ticking\<close>

lemma tick_fires:
  assumes inv: "wheel_inv S L w" and t: "current_tick w < u64_max"
  shows "\<exists>w' as. advance_one S L w = Some w' \<and> wheel_inv S L w' \<and>
           current_tick w' = Suc (current_tick w) \<and>
           set as = {a \<in> registered_in w. deadline_at (mem w) a \<le> Suc (current_tick w)} \<and>
           distinct as \<and>
           woken w' = woken w @ wakers_of (mem w) as \<and>
           registered_in w' = registered_in w - set as \<and>
           payload (mem w') = (\<lambda>a. if a \<in> set as
              then map_option (\<lambda>(d, _). (d, None)) (payload (mem w) a) else payload (mem w) a)"
proof -
  obtain sl where sl: "dims_ok S L" "2 \<le> L" "wheel_rel S L sl {} w" "registered_in w = registered sl"
    "all_slots (placed S (current_tick w)) (deadline_at (mem w)) sl"
    using wheel_invE[OF inv] by blast
  let ?t = "Suc (current_tick w)" and ?dl = "deadline_at (mem w)"
  obtain w' where w': "advance_one S L w = Some w'" "wheel_rel S L (ticked S L ?t ?dl sl) {} w'"
      "current_tick w' = ?t" "woken w' = woken w @ wakers_of (mem w) (drained S L ?t ?dl sl)"
      "payload (mem w') = (\<lambda>a. if a \<in> set (drained S L ?t ?dl sl)
         then map_option (\<lambda>(d, _). (d, None)) (payload (mem w) a) else payload (mem w) a)"
    using advance_one_rel[OF sl(1,3) t] by blast
  note spec = advance_slots_spec[OF sl(1,2) wheel_relD(2)[OF sl(3)] sl(5)]
  have dl: "deadline_at (mem w') = ?dl"
    unfolding fun_eq_iff deadline_at_payload w'(5) by (auto split: option.split)
  have "wheel_inv S L w'" "registered_in w' = registered (ticked S L ?t ?dl sl)"
    using wheel_invI[OF sl(1,2) w'(2)] spec(3) dl w'(3) by (auto simp: ticked_def)
  moreover have "set (drained S L ?t ?dl sl) = {a \<in> registered_in w. ?dl a \<le> ?t}"
    using spec(1) sl(4) by (simp add: drained_def)
  moreover have "registered (ticked S L ?t ?dl sl) = registered_in w - {a \<in> registered_in w. ?dl a \<le> ?t}"
    using spec(2) sl(4) by (auto simp: ticked_def)
  moreover have "distinct (drained S L ?t ?dl sl)"
    using cascade_levels_slots_ok[OF sl(1) wheel_relD(2)[OF sl(3)]]
    by (auto simp: drained_def cascaded_def slots_ok_def)
  ultimately show ?thesis using w' by auto
qed

interpretation wheel_timers: timer_service "wheel_inv S L" current_tick registered_in
  "\<lambda>w. deadline_at (mem w)" "advance_one S L" for S L
proof
  fix w assume inv: "wheel_inv S L w" and t: "current_tick w < u64_max"
  obtain w' as where w': "advance_one S L w = Some w'" "wheel_inv S L w'"
      "current_tick w' = Suc (current_tick w)"
      "set as = {a \<in> registered_in w. deadline_at (mem w) a \<le> Suc (current_tick w)}"
      "registered_in w' = registered_in w - set as"
      "payload (mem w') = (\<lambda>a. if a \<in> set as
         then map_option (\<lambda>(d, _). (d, None)) (payload (mem w) a) else payload (mem w) a)"
    using tick_fires[OF inv t] by blast
  have "deadline_at (mem w') = deadline_at (mem w)"
    unfolding fun_eq_iff deadline_at_payload w'(6) by (auto split: option.split)
  then show "\<exists>s'. advance_one S L w = Some s' \<and> wheel_inv S L s' \<and>
      current_tick s' = Suc (current_tick w) \<and> deadline_at (mem s') = deadline_at (mem w) \<and>
      registered_in s' = {a \<in> registered_in w. Suc (current_tick w) < deadline_at (mem w) a}"
    using w' by auto
qed

lemma wheel_tick_n_iterate: "wheel_tick_n S L n w = iterate_opt n (advance_one S L) w"
  by (induction n arbitrary: w) auto

lemma wheel_advance_to_iterate:
  assumes "wheel_inv S L w" "target \<le> u64_max"
  shows "wheel_advance_to S L target w = iterate_opt (target - current_tick w) (advance_one S L) w"
  using assms
proof (induction "target - current_tick w" arbitrary: w)
  case 0
  then show ?case by (subst wheel_advance_to.simps) simp
next
  case (Suc n)
  then have "current_tick w < u64_max" by simp
  then obtain w1 where w1: "advance_one S L w = Some w1" "wheel_inv S L w1"
      "current_tick w1 = Suc (current_tick w)"
    using wheel_timers.tick_ok[OF Suc.prems(1)] by blast
  have "n = target - current_tick w1" using Suc.hyps(2) w1(3) by simp
  then show ?case
    using Suc.hyps(1)[OF _ w1(2) Suc.prems(2)] Suc.hyps(2)[symmetric] w1(1)
    by (subst wheel_advance_to.simps) simp
qed

section \<open>Creating, inserting and removing\<close>

lemma wheel_inv_new:
  assumes "dims_ok S L" "2 \<le> L" "wheel_new S L m = Some w"
    and "\<And>a e. m a = Some e \<Longrightarrow> \<not> is_registered e"
  shows "wheel_inv S L w" "registered_in w = {}" "mem w = m" "current_tick w = 0" "woken w = []"
proof -
  have rel: "wheel_rel S L empty_slots {} w"
    using assms(3,4) by (intro wheel_rel_new) (auto simp: is_registered_def)
  show "wheel_inv S L w" "registered_in w = {}"
    using wheel_invI[OF assms(1,2) rel] by (simp_all add: all_slots_def)
  show "mem w = m" "current_tick w = 0" "woken w = []"
    using assms(3) by (auto simp: wheel_new_def split: if_splits)
qed

lemma choose_slot_placed:
  assumes "dims_ok S L" "2 \<le> L" "t < u64_max"
  shows "\<exists>l s. choose_slot S L t d = Some (l, s) \<and> placed S t l s d"
proof (cases "d \<le> t")
  case True
  then show ?thesis
    using assms by (auto simp: choose_slot_def checked_add_u64_def placed_def max_absorb2 dims_ok_def)
next
  case False
  obtain l s where "future_slot S L t d = (l, s)" by fastforce
  then show ?thesis
    using False future_placed[OF assms(1,2)] by (auto simp: choose_slot_def)
qed

lemma insert_ok:
  assumes inv: "wheel_inv S L w" and t: "current_tick w < u64_max"
    and a: "mem w a = Some e" "\<not> is_registered e"
  shows "\<exists>w'. inner_insert S L a w = Some w' \<and> wheel_inv S L w' \<and>
           registered_in w' = insert a (registered_in w) \<and>
           current_tick w' = current_tick w \<and> woken w' = woken w \<and> payload (mem w') = payload (mem w)"
proof -
  obtain sl where sl: "dims_ok S L" "2 \<le> L" "wheel_rel S L sl {} w" "registered_in w = registered sl"
    "all_slots (placed S (current_tick w)) (deadline_at (mem w)) sl"
    using wheel_invE[OF inv] by blast
  obtain l s where ls: "choose_slot S L (current_tick w) (deadline e) = Some (l, s)"
      "placed S (current_tick w) l s (deadline e)"
    using choose_slot_placed[OF sl(1,2) t] by blast
  have "prev_next e = None" using a by (simp add: is_registered_def)
  then obtain w' where w': "inner_insert S L a w = Some w'" "wheel_rel S L (push_slot (l, s) a sl) {} w'"
      "current_tick w' = current_tick w" "woken w' = woken w" "payload (mem w') = payload (mem w)"
    using inner_insert_rel[OF sl(1,3) a(1) _ ls(1)] by blast
  have "all_slots (placed S (current_tick w')) (deadline_at (mem w')) (push_slot (l, s) a sl)"
    using sl(5) ls(2) a(1) w'(3) payload_deadline_at[OF w'(5)]
    by (simp add: all_slots_push deadline_at_def)
  from wheel_invI[OF sl(1,2) w'(2) this] w' sl(4) show ?thesis by (auto simp: registered_push)
qed

lemma remove_ok:
  assumes inv: "wheel_inv S L w" and a: "mem w a = Some e"
  shows "\<exists>w'. inner_remove a w = Some w' \<and> wheel_inv S L w' \<and>
           registered_in w' = registered_in w - {a} \<and>
           current_tick w' = current_tick w \<and> woken w' = woken w \<and> payload (mem w') = payload (mem w)"
proof (cases "a \<in> registered_in w")
  case False
  then have "prev_next e = None" using a by (simp add: registered_in_def is_registered_def)
  then show ?thesis using inner_remove_unregistered[OF a] inv False by auto
next
  case True
  obtain sl where sl: "dims_ok S L" "2 \<le> L" "wheel_rel S L sl {} w" "registered_in w = registered sl"
    "all_slots (placed S (current_tick w)) (deadline_at (mem w)) sl"
    using wheel_invE[OF inv] by blast
  obtain w' where w': "inner_remove a w = Some w'" "wheel_rel S L (\<lambda>l s. removeAll a (sl l s)) {} w'"
      "current_tick w' = current_tick w" "woken w' = woken w" "payload (mem w') = payload (mem w)"
    using inner_remove_rel[OF sl(3)] True sl(4) by blast
  have "all_slots (placed S (current_tick w')) (deadline_at (mem w')) (\<lambda>l s. removeAll a (sl l s))"
    using sl(5) w'(3) payload_deadline_at[OF w'(5)] by (simp add: all_slots_def)
  from wheel_invI[OF sl(1,2) w'(2) this] w' sl(4) show ?thesis by (auto simp: registered_remove)
qed

lemma pending_card:
  assumes "wheel_inv S L w"
  shows "pending w = card (registered_in w)" "finite (registered_in w)"
proof -
  obtain sl where sl: "dims_ok S L" "wheel_rel S L sl {} w" "registered_in w = registered sl"
    using wheel_invE[OF assms] by blast
  then show "pending w = card (registered_in w)" "finite (registered_in w)"
    using wheel_relD(6)[OF sl(2)] finite_registered[OF wheel_relD(2)[OF sl(2)]] by simp_all
qed

lemma registered_in_allocated: "a \<in> registered_in w \<Longrightarrow> \<exists>e. mem w a = Some e"
  by (auto simp: registered_in_def)

text \<open>
  What the owner of an entry may do under the wheel's lock: store a fresh entry at an
  address that is not registered, and change the waker of any entry.
\<close>

lemma put_entry_ok:
  assumes inv: "wheel_inv S L w" and a: "a \<notin> registered_in w" "\<not> is_registered e"
  shows "wheel_inv S L (put_entry a e w)" "registered_in (put_entry a e w) = registered_in w"
proof -
  obtain sl where sl: "dims_ok S L" "2 \<le> L" "wheel_rel S L sl {} w" "registered_in w = registered sl"
    "all_slots (placed S (current_tick w)) (deadline_at (mem w)) sl"
    using wheel_invE[OF inv] by blast
  have e: "prev_next e = None" "a \<notin> registered sl" using a sl(4) by (simp_all add: is_registered_def)
  have "wheel_rel S L sl {} (put_entry a e w)"
    using wheel_rel_loose[OF sl(3) e(2,1)] wheel_relD(6)[OF sl(3)]
    by (simp add: put_entry_def wheel_rel_def)
  moreover have "all_slots (placed S (current_tick w)) (deadline_at (mem (put_entry a e w))) sl"
  proof (rule all_slotsI)
    fix l s b assume b: "b \<in> set (sl l s)"
    then have "b \<noteq> a" using e(2) in_registered[of b sl l s] by auto
    then show "placed S (current_tick w) l s (deadline_at (mem (put_entry a e w)) b)"
      using all_slotsD[OF sl(5) b] by (simp add: deadline_at_def)
  qed
  ultimately show "wheel_inv S L (put_entry a e w)" "registered_in (put_entry a e w) = registered_in w"
    using wheel_invI[OF sl(1,2)] sl(4) by auto
qed

lemma chain_set_waker:
  assumes "m a = Some e"
  shows "chain (m(a \<mapsto> e\<lparr>waker := k\<rparr>)) p x as = chain m p x as"
  using assms by (induction as arbitrary: p x) auto

lemma set_waker_ok:
  assumes inv: "wheel_inv S L w" and a: "mem w a = Some e"
  shows "wheel_inv S L (put_entry a (e\<lparr>waker := k\<rparr>) w)"
    "registered_in (put_entry a (e\<lparr>waker := k\<rparr>) w) = registered_in w"
proof -
  obtain sl where sl: "dims_ok S L" "2 \<le> L" "wheel_rel S L sl {} w" "registered_in w = registered sl"
    "all_slots (placed S (current_tick w)) (deadline_at (mem w)) sl"
    using wheel_invE[OF inv] by blast
  have rel: "wheel_rel S L sl {} (put_entry a (e\<lparr>waker := k\<rparr>) w)"
    using sl(3) a chain_set_waker[where m = "mem w" and a = a and e = e, OF a] unfolding wheel_rel_def by auto
  have "deadline_at (mem (put_entry a (e\<lparr>waker := k\<rparr>) w)) = deadline_at (mem w)"
    using a by (auto simp: deadline_at_def fun_eq_iff)
  then show "wheel_inv S L (put_entry a (e\<lparr>waker := k\<rparr>) w)"
    "registered_in (put_entry a (e\<lparr>waker := k\<rparr>) w) = registered_in w"
    using wheel_invI[OF sl(1,2) rel] sl(4,5) by auto
qed

section \<open>The timer table\<close>

text \<open>
  The abstract specification of the wheel: a clock and the deadlines and wakers of the
  registered entries; no levels, no slots, no pointers.
\<close>

record timer_table =
  clock :: nat
  table :: "addr \<rightharpoonup> nat \<times> waker option"

definition table_of :: "wheel \<Rightarrow> timer_table" where
  "table_of w = \<lparr>clock = current_tick w,
     table = (\<lambda>a. if a \<in> registered_in w then payload (mem w) a else None)\<rparr>"

lemma registered_in_table: "registered_in w = dom (table (table_of w))"
proof -
  have "payload (mem w) a \<noteq> None" if "a \<in> registered_in w" for a
    using registered_in_allocated[OF that] by (auto simp: payload_def)
  then show ?thesis by (auto simp: table_of_def split: if_splits)
qed

definition table_tick :: "timer_table \<Rightarrow> timer_table" where
  "table_tick T = \<lparr>clock = Suc (clock T),
     table = (\<lambda>a. case table T a of None \<Rightarrow> None
                 | Some (d, k) \<Rightarrow> if d \<le> Suc (clock T) then None else Some (d, k))\<rparr>"

definition table_insert :: "addr \<Rightarrow> nat \<Rightarrow> waker option \<Rightarrow> timer_table \<Rightarrow> timer_table" where
  "table_insert a d k T = T\<lparr>table := (table T)(a \<mapsto> (d, k))\<rparr>"

definition table_remove :: "addr \<Rightarrow> timer_table \<Rightarrow> timer_table" where
  "table_remove a T = T\<lparr>table := (table T)(a := None)\<rparr>"

lemma table_of_tick:
  assumes "wheel_inv S L w" "current_tick w < u64_max"
  shows "\<exists>w'. wheel_tick S L w = Some w' \<and> wheel_inv S L w' \<and> table_of w' = table_tick (table_of w)"
proof -
  obtain w' as where w': "advance_one S L w = Some w'" "wheel_inv S L w'"
      "current_tick w' = Suc (current_tick w)"
      "set as = {a \<in> registered_in w. deadline_at (mem w) a \<le> Suc (current_tick w)}"
      "registered_in w' = registered_in w - set as"
      "payload (mem w') = (\<lambda>a. if a \<in> set as
         then map_option (\<lambda>(d, _). (d, None)) (payload (mem w) a) else payload (mem w) a)"
    using tick_fires[OF assms] by blast
  have "table (table_of w') a = table (table_tick (table_of w)) a" for a
  proof (cases "a \<in> registered_in w")
    case True
    then obtain e where "mem w a = Some e" using registered_in_allocated by blast
    with True show ?thesis
      by (auto simp: table_of_def table_tick_def w'(4-6) payload_def deadline_at_def)
  qed (simp add: table_of_def table_tick_def w'(5))
  then have "table_of w' = table_tick (table_of w)"
    using w'(3) by (auto simp: table_of_def table_tick_def fun_eq_iff)
  then show ?thesis using w'(1,2) by (auto simp: wheel_tick_def)
qed

lemma table_of_insert:
  assumes "wheel_inv S L w" "current_tick w < u64_max" "mem w a = Some e" "\<not> is_registered e"
  shows "\<exists>w'. inner_insert S L a w = Some w' \<and> wheel_inv S L w' \<and>
           table_of w' = table_insert a (deadline e) (waker e) (table_of w)"
proof -
  have "payload (mem w) a = Some (deadline e, waker e)" using assms(3) by (simp add: payload_def)
  then show ?thesis
    using insert_ok[OF assms] by (auto simp: table_of_def table_insert_def fun_eq_iff)
qed

lemma table_of_remove:
  assumes "wheel_inv S L w" "mem w a = Some e"
  shows "\<exists>w'. inner_remove a w = Some w' \<and> wheel_inv S L w' \<and>
           table_of w' = table_remove a (table_of w)"
  using remove_ok[OF assms] by (auto simp: table_of_def table_remove_def fun_eq_iff)

section \<open>The next deadline\<close>

lemma min_deadline_spec:
  assumes "\<And>a. Some a \<in> set hs \<Longrightarrow> m a \<noteq> None"
  shows "\<exists>r. min_deadline m hs acc = Some r \<and>
           (r = None \<longleftrightarrow> acc = None \<and> (\<forall>a. Some a \<notin> set hs)) \<and>
           (\<forall>d. r = Some d \<longrightarrow> acc = Some d \<or> (\<exists>a. Some a \<in> set hs \<and> deadline_at m a = d))"
  using assms
proof (induction m hs acc rule: min_deadline.induct)
  case (3 m a hs acc)
  then obtain e where e: "m a = Some e" by fastforce
  let ?acc = "Some (case acc of Some x \<Rightarrow> if x \<le> deadline e then x else deadline e | None \<Rightarrow> deadline e)"
  obtain r where r: "min_deadline m hs ?acc = Some r" "r \<noteq> None"
      "\<forall>d. r = Some d \<longrightarrow> ?acc = Some d \<or> (\<exists>b. Some b \<in> set hs \<and> deadline_at m b = d)"
    using "3.IH"[of e] "3.prems" e by fastforce
  moreover have "deadline_at m a = deadline e" using e by (simp add: deadline_at_def)
  ultimately show ?case using e by (auto split: option.splits if_splits)
qed auto

lemma next_deadline_ok:
  assumes inv: "wheel_inv S L w"
  shows "\<exists>r. wheel_next_deadline S L w = Some r \<and> (r = None \<longleftrightarrow> registered_in w = {}) \<and>
           (\<forall>d. r = Some d \<longrightarrow> (\<exists>a \<in> registered_in w. deadline_at (mem w) a = d))"
proof -
  obtain sl where sl: "dims_ok S L" "2 \<le> L" "wheel_rel S L sl {} w" "registered_in w = registered sl"
    using wheel_invE[OF inv] by blast
  let ?hs = "concat (map (\<lambda>l. map (\<lambda>s. heads w l s) [0..<S]) [0..<L])"
  note ok = wheel_relD(2)[OF sl(3)]
  have heads: "Some a \<in> set ?hs \<longleftrightarrow> (\<exists>l s. \<exists>as. sl l s = a # as)" for a
  proof -
    have "Some a \<in> set ?hs \<longleftrightarrow> (\<exists>l<L. \<exists>s<S. heads w l s = Some a)"
      unfolding set_concat set_map by force
    also have "\<dots> \<longleftrightarrow> (\<exists>l s. \<exists>as. sl l s = a # as)"
    proof
      assume "\<exists>l s. \<exists>as. sl l s = a # as"
      then obtain l s as where a: "sl l s = a # as" by blast
      then have "heads w l s = Some a" "l < L" "s < S"
        using slots_ok_range[OF ok, of a l s] heads_sl[OF sl(3), of l s] by auto
      then show "\<exists>l<L. \<exists>s<S. heads w l s = Some a" by blast
    next
      assume "\<exists>l<L. \<exists>s<S. heads w l s = Some a"
      then obtain l s where "heads w l s = Some a" by blast
      then have "\<exists>as. sl l s = a # as"
        using heads_sl[OF sl(3), of l s] by (cases "sl l s") auto
      then show "\<exists>l s. \<exists>as. sl l s = a # as" by blast
    qed
    finally show ?thesis .
  qed
  have reg: "a \<in> registered_in w" if a: "Some a \<in> set ?hs" for a
  proof -
    obtain l s as where "sl l s = a # as" using a unfolding heads by blast
    then show ?thesis using in_registered[of a sl l s] sl(4) by simp
  qed
  have none: "registered_in w = {} \<longleftrightarrow> (\<forall>a. Some a \<notin> set ?hs)"
  proof
    assume none: "\<forall>a. Some a \<notin> set ?hs"
    have "sl l s = []" for l s
      using none unfolding heads by (cases "sl l s") auto
    then show "registered_in w = {}" by (simp add: sl(4) registered_def)
  qed (use reg in auto)
  have alloc: "mem w a \<noteq> None" if "Some a \<in> set ?hs" for a
    using registered_in_allocated[OF reg[OF that]] by auto
  obtain r where r: "min_deadline (mem w) ?hs None = Some r" "r = None \<longleftrightarrow> (\<forall>a. Some a \<notin> set ?hs)"
      "\<forall>d. r = Some d \<longrightarrow> (\<exists>a. Some a \<in> set ?hs \<and> deadline_at (mem w) a = d)"
    using min_deadline_spec[of ?hs "mem w" None, OF alloc] by auto
  show ?thesis
  proof (intro exI[of _ r] conjI allI impI)
    show "wheel_next_deadline S L w = Some r" using r(1) by (simp add: wheel_next_deadline_def)
    show "r = None \<longleftrightarrow> registered_in w = {}" using r(2) none by simp
    fix d assume "r = Some d"
    then show "\<exists>a\<in>registered_in w. deadline_at (mem w) a = d" using r(3) reg by blast
  qed
qed

end
