(* ===== verification/Wheel_Properties.thy ===== *)
theory Wheel_Properties
  imports Wheel_Service
begin

text \<open>
  The properties of the timer wheel, over the pointer-level model of \<open>Timer_Wheel\<close>, and the
  concrete wheels their witnesses use.
\<close>

section \<open>Reachable wheels\<close>

text \<open>
  The wheels a program can reach from \<open>TimerWheel::new\<close> while it keeps the safety contract
  of \<open>insert\<close> (a valid entry that is not registered) and touches entries only as their
  owner: it may store a fresh entry where none is registered, and swap the waker of any
  entry under the lock.
\<close>

inductive wheel_reach :: "nat \<Rightarrow> nat \<Rightarrow> wheel \<Rightarrow> bool" for S L where
  reach_new: "wheel_new S L m = Some w \<Longrightarrow> (\<And>a e. m a = Some e \<Longrightarrow> \<not> is_registered e) \<Longrightarrow> wheel_reach S L w"
| reach_store: "wheel_reach S L w \<Longrightarrow> (\<And>e'. mem w a = Some e' \<Longrightarrow> \<not> is_registered e') \<Longrightarrow>
    \<not> is_registered e \<Longrightarrow> wheel_reach S L (put_entry a e w)"
| reach_waker: "wheel_reach S L w \<Longrightarrow> mem w a = Some e \<Longrightarrow> wheel_reach S L (put_entry a (e\<lparr>waker := k\<rparr>) w)"
| reach_insert: "wheel_reach S L w \<Longrightarrow> mem w a = Some e \<Longrightarrow> \<not> is_registered e \<Longrightarrow>
    current_tick w < u64_max \<Longrightarrow> inner_insert S L a w = Some w' \<Longrightarrow> wheel_reach S L w'"
| reach_remove: "wheel_reach S L w \<Longrightarrow> mem w a = Some e \<Longrightarrow> inner_remove a w = Some w' \<Longrightarrow> wheel_reach S L w'"
| reach_tick: "wheel_reach S L w \<Longrightarrow> current_tick w < u64_max \<Longrightarrow> wheel_tick S L w = Some w' \<Longrightarrow> wheel_reach S L w'"

lemma wheel_reach_inv:
  assumes "wheel_reach S L w" "dims_ok S L" "2 \<le> L"
  shows "wheel_inv S L w"
  using assms
proof (induction rule: wheel_reach.induct)
  case (reach_new m w)
  then show ?case by (intro wheel_inv_new(1)) auto
next
  case (reach_store w a e)
  then show ?case by (intro put_entry_ok(1)) (auto simp: registered_in_def)
next
  case (reach_waker w a e k)
  then show ?case by (intro set_waker_ok(1)) auto
next
  case (reach_insert w a e w')
  then show ?case using insert_ok[of S L w a e] by auto
next
  case (reach_remove w a e w')
  then show ?case using remove_ok[of S L w a e] by auto
next
  case (reach_tick w w')
  then show ?case using table_of_tick[of S L w] by auto
qed

section \<open>Concrete wheels\<close>

text \<open>
  Three entries at the addresses 0, 1 and 2, with the deadlines 20, 65 and 70 and the wakers
  5, 6 and 7; the wheel has eight slots in each of four levels, as in the tests of the source.
\<close>

definition demo_mem :: "addr \<rightharpoonup> timer_entry" where
  "demo_mem = [0 \<mapsto> (timer_entry_new 20)\<lparr>waker := Some 5\<rparr>,
               1 \<mapsto> (timer_entry_new 65)\<lparr>waker := Some 6\<rparr>,
               2 \<mapsto> (timer_entry_new 70)\<lparr>waker := Some 7\<rparr>]"

definition demo_wheel :: wheel where
  "demo_wheel = \<lparr>heads = (\<lambda>_ _. None), current_tick = 0, pending = 0, mem = demo_mem, woken = []\<rparr>"

lemma demo_mem_unregistered: "demo_mem a = Some e \<Longrightarrow> \<not> is_registered e"
  by (auto simp: demo_mem_def timer_entry_new_def is_registered_def split: if_splits)

lemma demo_dims: "dims_ok 8 4"
  by (simp add: dims_ok_def u64_max_def)

lemma demo_new: "wheel_new 8 4 demo_mem = Some demo_wheel"
  by (simp add: wheel_new_def demo_wheel_def)

lemma demo_inv: "wheel_inv 8 4 demo_wheel"
  using wheel_inv_new(1)[OF demo_dims _ demo_new demo_mem_unregistered] by simp

lemma demo_fields [simp]:
  "mem demo_wheel = demo_mem" "current_tick demo_wheel = 0" "woken demo_wheel = []" "pending demo_wheel = 0"
  by (simp_all add: demo_wheel_def)

lemma demo_mem_0: "demo_mem 0 = Some ((timer_entry_new 20)\<lparr>waker := Some 5\<rparr>)"
  by (simp add: demo_mem_def)

lemma demo_unregistered: "registered_in demo_wheel = {}"
  using wheel_inv_new(2)[OF demo_dims _ demo_new demo_mem_unregistered] by simp

lemma demo_table: "table_of demo_wheel = \<lparr>clock = 0, table = Map.empty\<rparr>"
  by (simp add: table_of_def demo_unregistered)

section \<open>Properties\<close>

text \<open>
  C3: a tick wakes exactly what is due.  The tick that moves the clock to \<open>t + 1\<close> calls the
  wakers of precisely the registered entries with a deadline of at most \<open>t + 1\<close>, each entry
  once, deregisters them and no others, and leaves every other entry's deadline and waker
  alone.
\<close>

theorem wheel_tick_wakes_exactly:
  assumes "wheel_inv S L w" "current_tick w < u64_max"
  shows "\<exists>w' fired. wheel_tick S L w = Some w' \<and>
           set fired = {a \<in> registered_in w. deadline_at (mem w) a \<le> Suc (current_tick w)} \<and>
           distinct fired \<and>
           woken w' = woken w @ wakers_of (mem w) fired \<and>
           registered_in w' = registered_in w - set fired \<and>
           (\<forall>a. a \<notin> set fired \<longrightarrow> payload (mem w') a = payload (mem w) a)"
  using tick_fires[OF assms] by (fastforce simp: wheel_tick_def)

theorem wheel_tick_wakes_exactly_witness:
  "\<exists>w'. wheel_tick 8 4 demo_wheel = Some w' \<and> woken w' = [] \<and> registered_in w' = {}"
  using wheel_tick_wakes_exactly[OF demo_inv] by (auto simp: demo_unregistered wakers_of_def u64_max_def)

text \<open>
  A timer fires on schedule.  An entry that is inserted at tick \<open>t\<close> with deadline \<open>d\<close> is
  still registered after \<open>n\<close> further ticks exactly when \<open>t + n\<close> has not reached \<open>d\<close>
  (or, for a deadline that had already passed, while no tick has been taken): never early,
  never late, whatever levels it cascades through.
\<close>

theorem wheel_fires_on_schedule:
  assumes "wheel_inv S L w" "mem w a = Some e" "\<not> is_registered e"
    and "current_tick w < u64_max" "current_tick w + n \<le> u64_max"
  shows "\<exists>w1 w2. inner_insert S L a w = Some w1 \<and> wheel_tick_n S L n w1 = Some w2 \<and>
           current_tick w2 = current_tick w + n \<and>
           (a \<in> registered_in w2 \<longleftrightarrow> current_tick w + n < max (deadline e) (Suc (current_tick w)))"
proof -
  obtain w1 where w1: "inner_insert S L a w = Some w1" "wheel_inv S L w1"
      "registered_in w1 = insert a (registered_in w)" "current_tick w1 = current_tick w"
      "payload (mem w1) = payload (mem w)"
    using insert_ok[OF assms(1,4,2,3)] by blast
  have d: "deadline_at (mem w1) a = deadline e"
    using payload_deadline_at[OF w1(5)] assms(2) by (simp add: deadline_at_def)
  obtain w2 where w2: "wheel_tick_n S L n w1 = Some w2" "current_tick w2 = current_tick w1 + n"
      "registered_in w2 = {b \<in> registered_in w1. n = 0 \<or> current_tick w1 + n < deadline_at (mem w1) b}"
    using wheel_timers.ticks_ok[OF w1(2), of n] assms(5) w1(4) by (auto simp: wheel_tick_n_iterate)
  have "a \<in> registered_in w2 \<longleftrightarrow> current_tick w + n < max (deadline e) (Suc (current_tick w))"
    unfolding w2(3) using w1(3,4) d by auto
  then show ?thesis using w1(1,4) w2(1,2) by auto
qed

theorem wheel_fires_on_schedule_witness:
  "(\<exists>w1 w2. inner_insert 8 4 0 demo_wheel = Some w1 \<and> wheel_tick_n 8 4 19 w1 = Some w2 \<and> 0 \<in> registered_in w2) \<and>
   (\<exists>w1 w2. inner_insert 8 4 0 demo_wheel = Some w1 \<and> wheel_tick_n 8 4 20 w1 = Some w2 \<and> 0 \<notin> registered_in w2)"
proof -
  have "\<not> is_registered ((timer_entry_new 20)\<lparr>waker := Some 5\<rparr>)"
    by (rule demo_mem_unregistered[OF demo_mem_0])
  from wheel_fires_on_schedule[OF demo_inv _ this, of 0 19] wheel_fires_on_schedule[OF demo_inv _ this, of 0 20]
  show ?thesis by (auto simp: demo_mem_0 timer_entry_new_def u64_max_def)
qed

text \<open>
  \<open>advance_to\<close> returns.  The loop stops with the clock at the target (or where it was,
  when it was past the target already), and what is left registered is exactly what was due
  after the target.
\<close>

theorem wheel_advance_to_returns:
  assumes "wheel_inv S L w" "target \<le> u64_max"
  shows "\<exists>w'. wheel_advance_to S L target w = Some w' \<and> wheel_inv S L w' \<and>
           current_tick w' = max target (current_tick w) \<and>
           (current_tick w < target \<longrightarrow>
              registered_in w' = {a \<in> registered_in w. target < deadline_at (mem w) a}) \<and>
           (target \<le> current_tick w \<longrightarrow> w' = w)"
proof (cases "current_tick w < target")
  case True
  then show ?thesis
    using wheel_timers.ticks_ok[OF assms(1), of "target - current_tick w"] assms(2)
    by (auto simp: wheel_advance_to_iterate[OF assms] max_absorb1)
next
  case False
  then show ?thesis
    using assms(1) by (subst wheel_advance_to.simps) (simp add: max_absorb2)
qed

theorem wheel_advance_to_returns_witness:
  "\<exists>w'. wheel_advance_to 8 4 1000 demo_wheel = Some w' \<and> current_tick w' = 1000"
  using wheel_advance_to_returns[OF demo_inv, of 1000] by (auto simp: u64_max_def)

text \<open>
  C30: memory safety and accounting of every reachable wheel.  Whatever a program does within
  the safety contract, \<open>len()\<close> is the number of registered entries, and every operation
  returns: no pointer the wheel follows dangles, \<open>pending\<close> never underflows, no list is
  cyclic.
\<close>

theorem wheel_reach_safe:
  assumes "wheel_reach S L w" "dims_ok S L" "2 \<le> L"
  shows "wheel_len w = card (registered_in w) \<and>
         (wheel_is_empty w \<longleftrightarrow> registered_in w = {}) \<and>
         (current_tick w < u64_max \<longrightarrow> wheel_tick S L w \<noteq> None) \<and>
         (mem w a \<noteq> None \<longrightarrow> inner_remove a w \<noteq> None) \<and>
         (\<forall>e. mem w a = Some e \<longrightarrow> \<not> is_registered e \<longrightarrow> current_tick w < u64_max \<longrightarrow>
              inner_insert S L a w \<noteq> None) \<and>
         wheel_next_deadline S L w \<noteq> None"
proof (intro conjI)
  note inv = wheel_reach_inv[OF assms]
  show len: "wheel_len w = card (registered_in w)"
    using pending_card[OF inv] by (simp add: wheel_len_def)
  show "wheel_is_empty w \<longleftrightarrow> registered_in w = {}"
    using len pending_card(2)[OF inv] by (simp add: wheel_is_empty_def)
  show "current_tick w < u64_max \<longrightarrow> wheel_tick S L w \<noteq> None"
    using table_of_tick[OF inv] by auto
  show "mem w a \<noteq> None \<longrightarrow> inner_remove a w \<noteq> None"
    using remove_ok[OF inv, of a] by auto
  show "\<forall>e. mem w a = Some e \<longrightarrow> \<not> is_registered e \<longrightarrow> current_tick w < u64_max \<longrightarrow>
      inner_insert S L a w \<noteq> None"
    using insert_ok[OF inv] by fastforce
  show "wheel_next_deadline S L w \<noteq> None" using next_deadline_ok[OF inv] by auto
qed

theorem wheel_reach_safe_witness: "wheel_len demo_wheel = 0 \<and> wheel_tick 8 4 demo_wheel \<noteq> None"
proof -
  have "wheel_reach 8 4 demo_wheel" by (rule reach_new[OF demo_new demo_mem_unregistered])
  from wheel_reach_safe[OF this demo_dims, of 0]
  show ?thesis by (simp add: demo_unregistered u64_max_def)
qed

text \<open>
  \<open>next_deadline\<close> is \<open>None\<close> exactly for an empty wheel, and otherwise the deadline of
  some registered entry; so it is never before the earliest deadline.
\<close>

theorem wheel_next_deadline_registered:
  assumes "wheel_inv S L w"
  shows "\<exists>r. wheel_next_deadline S L w = Some r \<and> (r = None \<longleftrightarrow> registered_in w = {}) \<and>
           (\<forall>d. r = Some d \<longrightarrow> d \<in> deadline_at (mem w) ` registered_in w \<and>
                Min (deadline_at (mem w) ` registered_in w) \<le> d)"
  using next_deadline_ok[OF assms] pending_card(2)[OF assms] by (fastforce intro: Min_le)

theorem wheel_next_deadline_registered_witness: "wheel_next_deadline 8 4 demo_wheel = Some None"
  using wheel_next_deadline_registered[OF demo_inv] by (auto simp: demo_unregistered)

text \<open>
  \<open>next_deadline\<close> is not the earliest deadline.  It looks at the head of each slot list
  only, and a coarse slot holds several deadlines: with the deadlines 65 and 70 inserted in
  this order it returns 70, so a driver that sleeps until then wakes the first timer late.
\<close>

theorem wheel_next_deadline_misses_minimum:
  "\<exists>w1 w2. inner_insert 8 4 1 demo_wheel = Some w1 \<and> inner_insert 8 4 2 w1 = Some w2 \<and>
     registered_in w2 = {1, 2} \<and> deadline_at (mem w2) 1 = 65 \<and>
     wheel_next_deadline 8 4 w2 = Some (Some 70)"
  by (simp add: demo_mem_def demo_wheel_def wheel_eval wheel_next_deadline_def upt_rec
      registered_in_def deadline_at_def) auto

text \<open>
  The chosen slot exists.  For every wheel \<open>new\<close> accepts and every deadline, the level
  and the slot that \<open>choose_slot\<close> computes index the \<open>heads\<close> array within its bounds, and
  the entry's level resolution is at most its distance.
\<close>

theorem choose_slot_in_range:
  assumes "dims_ok S L" "choose_slot S L now d = Some (l, s)"
  shows "l < L \<and> s < S \<and> (l \<noteq> 0 \<longrightarrow> now div S ^ l < d div S ^ l)"
proof (cases "d \<le> now")
  case True
  then show ?thesis
    using assms by (auto simp: choose_slot_def bind_Some_iff dims_ok_def)
next
  case False
  then show ?thesis
    using assms future_slot_spec[OF assms(1), of now d l s] by (auto simp: choose_slot_def Let_def)
qed

theorem choose_slot_in_range_witness: "choose_slot 8 4 0 70 = Some (2, 1) \<and> (2::nat) < 4 \<and> (1::nat) < 8"
proof -
  have c: "choose_slot 8 4 0 70 = Some (2, 1)" by (simp add: wheel_eval)
  show ?thesis using choose_slot_in_range[OF demo_dims c] c by simp
qed

text \<open>
  A wheel with one level fires early.  \<open>TimerWheel::new\<close> accepts \<open>LEVELS == 1\<close>, but a
  deadline further away than \<open>SLOTS\<close> then shares its slot with nearer ticks and the drain
  does not look at it: with two slots, the entry due at tick 65 is woken and deregistered by
  the first tick.
\<close>

theorem wheel_single_level_fires_early:
  "\<exists>w0 w1 w2. wheel_new 2 1 demo_mem = Some w0 \<and> inner_insert 2 1 1 w0 = Some w1 \<and>
     deadline_at (mem w1) 1 = 65 \<and> wheel_tick 2 1 w1 = Some w2 \<and>
     current_tick w2 = 1 \<and> woken w2 = [6] \<and> registered_in w2 = {}"
  by (simp add: wheel_new_def demo_mem_def wheel_eval registered_in_def deadline_at_def)

end
