(* ===== verification/Wheel_Programs.thy ===== *)
theory Wheel_Programs
  imports Wheel_Properties "HOL-Library.Multiset"
begin

text \<open>
  The timer wheel as its callers see it: programs of operations.  A program may tick, jump the
  clock, arm entries, cancel any of the armed ones and replace their wakers, in any order; the
  theory shows that whatever it does, the wheel of intrusive lists is a plain table of deadlines
  and wakers.
\<close>

section \<open>Programs on the wheel\<close>

text \<open>
  The operations under the wheel's lock.  \<open>Do_Insert\<close> is what the owner of an entry does: it
  stores a fresh entry with its deadline and waker at its address and inserts it.
\<close>

datatype wheel_op =
    Do_Tick
  | Do_Advance nat
  | Do_Insert addr nat "waker option"
  | Do_Remove addr
  | Do_Waker addr "waker option"

fun op_addrs :: "wheel_op \<Rightarrow> addr set" where
  "op_addrs (Do_Insert a d k) = {a}"
| "op_addrs (Do_Remove a) = {a}"
| "op_addrs (Do_Waker a k) = {a}"
| "op_addrs _ = {}"

fun wheel_do :: "nat \<Rightarrow> nat \<Rightarrow> wheel_op \<Rightarrow> wheel \<Rightarrow> wheel option" where
  "wheel_do S L Do_Tick w = wheel_tick S L w"
| "wheel_do S L (Do_Advance t) w = wheel_advance_to S L t w"
| "wheel_do S L (Do_Insert a d k) w = inner_insert S L a (put_entry a ((timer_entry_new d)\<lparr>waker := k\<rparr>) w)"
| "wheel_do S L (Do_Remove a) w = inner_remove a w"
| "wheel_do S L (Do_Waker a k) w = do { e \<leftarrow> mem w a; Some (put_entry a (e\<lparr>waker := k\<rparr>) w) }"

fun wheel_run :: "nat \<Rightarrow> nat \<Rightarrow> wheel_op list \<Rightarrow> wheel \<Rightarrow> wheel option" where
  "wheel_run S L [] w = Some w"
| "wheel_run S L (x # xs) w = do { w1 \<leftarrow> wheel_do S L x w; wheel_run S L xs w1 }"

section \<open>Programs on the table\<close>

text \<open>
  The specification: a clock, the armed deadlines and wakers, and the wakers called so far.  Moving
  the clock to \<open>t\<close> takes out everything due by then and calls its wakers, at once.  A program is
  within the contract (the \<open>SAFETY\<close> comment of \<open>insert\<close>, and no overflow of the clock) when it
  arms only entries that are not armed and stays below \<^const>\<open>u64_max\<close>.
\<close>

type_synonym table_state = "timer_table \<times> waker multiset"

definition due_by :: "nat \<Rightarrow> timer_table \<Rightarrow> waker multiset" where
  "due_by t T = image_mset (\<lambda>a. the (snd (the (table T a))))
     (mset_set {a. \<exists>d k. table T a = Some (d, Some k) \<and> d \<le> t})"

definition table_until :: "nat \<Rightarrow> timer_table \<Rightarrow> timer_table" where
  "table_until t T = \<lparr>clock = t,
     table = (\<lambda>a. case table T a of None \<Rightarrow> None | Some (d, k) \<Rightarrow> if d \<le> t then None else Some (d, k))\<rparr>"

definition move_clock :: "nat \<Rightarrow> table_state \<Rightarrow> table_state" where
  "move_clock t = (\<lambda>(T, ks). (table_until t T, ks + due_by t T))"

fun table_do :: "wheel_op \<Rightarrow> table_state \<Rightarrow> table_state option" where
  "table_do Do_Tick (T, ks) = (if clock T < u64_max then Some (move_clock (Suc (clock T)) (T, ks)) else None)"
| "table_do (Do_Advance t) (T, ks) =
     (if u64_max < t then None else Some (if clock T < t then move_clock t (T, ks) else (T, ks)))"
| "table_do (Do_Insert a d k) (T, ks) =
     (if table T a = None \<and> clock T < u64_max then Some (table_insert a d k T, ks) else None)"
| "table_do (Do_Remove a) (T, ks) = Some (table_remove a T, ks)"
| "table_do (Do_Waker a k) (T, ks) =
     Some (T\<lparr>table := (table T)(a := map_option (\<lambda>(d, _). (d, k)) (table T a))\<rparr>, ks)"

fun table_run :: "wheel_op list \<Rightarrow> table_state \<Rightarrow> table_state option" where
  "table_run [] T = Some T"
| "table_run (x # xs) T = do { T1 \<leftarrow> table_do x T; table_run xs T1 }"

section \<open>The relation between them\<close>

definition stands_for :: "nat \<Rightarrow> nat \<Rightarrow> addr set \<Rightarrow> wheel \<Rightarrow> table_state \<Rightarrow> bool" where
  "stands_for S L A w T \<longleftrightarrow> wheel_inv S L w \<and> table_of w = fst T \<and> mset (woken w) = snd T \<and> A \<subseteq> dom (mem w)"

lemma stands_forD:
  assumes "stands_for S L A w T"
  shows "wheel_inv S L w" "table_of w = fst T" "mset (woken w) = snd T" "a \<in> A \<Longrightarrow> \<exists>e. mem w a = Some e"
    "clock (fst T) = current_tick w" "registered_in w = dom (table (fst T))"
proof -
  show "wheel_inv S L w" "mset (woken w) = snd T" "a \<in> A \<Longrightarrow> \<exists>e. mem w a = Some e" and t: "table_of w = fst T"
    using assms by (auto simp: stands_for_def)
  show "clock (fst T) = current_tick w" unfolding t[symmetric] by (simp add: table_of_def)
  show "registered_in w = dom (table (fst T))" unfolding t[symmetric] by (rule registered_in_table)
qed

lemma stands_forI:
  assumes "wheel_inv S L w" "table_of w = fst T" "mset (woken w) = snd T" "\<And>a. a \<in> A \<Longrightarrow> mem w a \<noteq> None"
  shows "stands_for S L A w T"
  using assms by (auto simp: stands_for_def)

lemma in_mset_setD: "x \<in># mset_set X \<Longrightarrow> x \<in> X"
  by (cases "finite X") auto

text \<open>What is due by \<open>t\<close> is what the wheel's account of a tick lists.\<close>

lemma mset_wakers_of:
  assumes "distinct as"
  shows "mset (wakers_of m as) =
     image_mset (\<lambda>a. the (snd (the (payload m a)))) (mset_set {a \<in> set as. \<exists>d k. payload m a = Some (d, Some k)})"
  using assms
proof (induction as)
  case (Cons a as)
  have "{x \<in> set (a # as). \<exists>d k. payload m x = Some (d, Some k)} =
      (if \<exists>d k. payload m a = Some (d, Some k) then insert a {x \<in> set as. \<exists>d k. payload m x = Some (d, Some k)}
       else {x \<in> set as. \<exists>d k. payload m x = Some (d, Some k)})" by auto
  moreover have "wakers_of m (a # as) =
      (case payload m a of Some (d, Some k) \<Rightarrow> [k] | _ \<Rightarrow> []) @ wakers_of m as"
    by (auto simp: wakers_of_def payload_def split: option.split)
  ultimately show ?case using Cons by (auto split: option.split)
qed (simp add: wakers_of_def)

lemma finite_due:
  assumes "wheel_inv S L w"
  shows "finite {a. \<exists>d k. table (table_of w) a = Some (d, Some k) \<and> P d}"
  using pending_card(2)[OF assms] unfolding registered_in_table by (rule rev_finite_subset) auto

lemma table_tick_until: "table_tick T = table_until (Suc (clock T)) T"
  by (simp add: table_tick_def table_until_def)

lemma tick_stands:
  assumes st: "stands_for S L A w T" and t: "current_tick w < u64_max"
  shows "\<exists>w'. advance_one S L w = Some w' \<and> stands_for S L A w' (move_clock (Suc (current_tick w)) T)"
proof -
  note D = stands_forD[OF st]
  obtain w' as where w': "advance_one S L w = Some w'" "wheel_inv S L w'"
      "set as = {a \<in> registered_in w. deadline_at (mem w) a \<le> Suc (current_tick w)}" "distinct as"
      "woken w' = woken w @ wakers_of (mem w) as"
      "payload (mem w') = (\<lambda>a. if a \<in> set as
         then map_option (\<lambda>(d, _). (d, None)) (payload (mem w) a) else payload (mem w) a)"
    using tick_fires[OF D(1) t] by blast
  let ?due = "{a. \<exists>d k. table (fst T) a = Some (d, Some k) \<and> d \<le> Suc (current_tick w)}"
  have "{a \<in> set as. \<exists>d k. payload (mem w) a = Some (d, Some k)} = ?due"
    unfolding w'(3) D(2)[symmetric] by (auto simp: table_of_def deadline_at_payload split: if_splits)
  moreover have "payload (mem w) a = table (fst T) a" if "a \<in> ?due" for a
    using that unfolding D(2)[symmetric] by (auto simp: table_of_def split: if_splits)
  ultimately have "mset (wakers_of (mem w) as) = due_by (Suc (current_tick w)) (fst T)"
    using mset_wakers_of[OF w'(4), of "mem w"] finite_due[OF D(1), of "\<lambda>d. d \<le> Suc (current_tick w)"] D(2)
    by (auto simp: due_by_def intro!: image_mset_cong)
  moreover have "mem w' a \<noteq> None" if "a \<in> A" for a
  proof -
    have "payload (mem w') a \<noteq> None" using D(4)[OF that] by (auto simp: w'(6) payload_def)
    then show ?thesis by (auto simp: payload_def)
  qed
  moreover have "table_of w' = table_until (Suc (current_tick w)) (fst T)"
    using table_of_tick[OF D(1) t] w'(1) D(2,5) by (simp add: wheel_tick_def table_tick_until)
  ultimately show ?thesis
    using w'(1,2,5) D(3) by (auto intro!: stands_forI simp: move_clock_def split: prod.split)
qed

text \<open>Moving the clock step by step is moving it at once.\<close>

lemma move_clock_twice:
  assumes "t \<le> t'" "finite {a. \<exists>d k. table (fst T) a = Some (d, Some k) \<and> d \<le> t'}"
  shows "move_clock t' (move_clock t T) = move_clock t' T"
proof -
  let ?due = "\<lambda>P T. {a. \<exists>d k. table T a = Some (d, Some k) \<and> P d}"
  obtain T0 ks where T: "T = (T0, ks)" by fastforce
  have tab: "table_until t' (table_until t T0) = table_until t' T0"
    using assms(1) by (auto simp: table_until_def fun_eq_iff split: option.split)
  have until: "table (table_until t T0) a = Some (d, k) \<longleftrightarrow> table T0 a = Some (d, k) \<and> t < d" for a d k
    by (auto simp: table_until_def split: option.split)
  have "?due (\<lambda>d. d \<le> t') T0 = ?due (\<lambda>d. d \<le> t) T0 \<union> ?due (\<lambda>d. t < d \<and> d \<le> t') T0"
    using assms(1) by fastforce
  moreover have "?due (\<lambda>d. d \<le> t) T0 \<inter> ?due (\<lambda>d. t < d \<and> d \<le> t') T0 = {}" by auto
  moreover have "?due (\<lambda>d. d \<le> t') (table_until t T0) = ?due (\<lambda>d. t < d \<and> d \<le> t') T0"
    by (auto simp: until)
  ultimately have "mset_set (?due (\<lambda>d. d \<le> t') T0) =
      mset_set (?due (\<lambda>d. d \<le> t) T0) + mset_set (?due (\<lambda>d. d \<le> t') (table_until t T0))"
    using assms(2) by (simp add: T mset_set_Union)
  moreover have "image_mset (\<lambda>a. the (snd (the (table (table_until t T0) a)))) (mset_set (?due (\<lambda>d. d \<le> t') (table_until t T0))) =
      image_mset (\<lambda>a. the (snd (the (table T0 a)))) (mset_set (?due (\<lambda>d. d \<le> t') (table_until t T0)))"
    by (rule image_mset_cong) (auto simp: until until[THEN iffD2, OF conjI] dest!: in_mset_setD)
  ultimately show ?thesis by (simp add: move_clock_def T tab due_by_def)
qed

lemma ticks_stand:
  assumes "stands_for S L A w T" "current_tick w + n \<le> u64_max" "0 < n"
  shows "\<exists>w'. iterate_opt n (advance_one S L) w = Some w' \<and> stands_for S L A w' (move_clock (current_tick w + n) T)"
  using assms
proof (induction n arbitrary: w T)
  case (Suc n)
  let ?T1 = "move_clock (Suc (current_tick w)) T"
  obtain w1 where w1: "advance_one S L w = Some w1" "stands_for S L A w1 ?T1"
    using tick_stands[OF Suc.prems(1)] Suc.prems(2) by auto
  have t1: "current_tick w1 = Suc (current_tick w)"
    using stands_forD(5)[OF w1(2)] by (simp add: move_clock_def table_until_def split: prod.splits)
  show ?case
  proof (cases n)
    case (Suc m)
    obtain w' where w': "iterate_opt n (advance_one S L) w1 = Some w'"
        "stands_for S L A w' (move_clock (current_tick w1 + n) ?T1)"
      using Suc.IH[OF w1(2)] Suc.prems(2) t1 Suc by auto
    have "move_clock (current_tick w1 + n) ?T1 = move_clock (current_tick w + Suc n) T"
      using move_clock_twice[of "Suc (current_tick w)" "current_tick w + Suc n" T]
        finite_due[OF stands_forD(1)[OF Suc.prems(1)]] stands_forD(2)[OF Suc.prems(1)] t1 by simp
    then show ?thesis using w1(1) w' by auto
  qed (use w1 in simp)
qed simp

section \<open>One operation\<close>

lemma op_stands:
  assumes st: "stands_for S L A w T" and T: "table_do x T = Some T'" and x: "op_addrs x \<subseteq> A"
  shows "\<exists>w'. wheel_do S L x w = Some w' \<and> stands_for S L A w' T'"
proof (cases x)
  case Do_Tick
  then show ?thesis
    using tick_stands[OF st] T stands_forD(5)[OF st] by (cases T) (auto simp: wheel_tick_def split: if_splits)
next
  case (Do_Advance t)
  note D = stands_forD[OF st]
  have t: "t \<le> u64_max" and T': "T' = (if current_tick w < t then move_clock t T else T)"
    using T Do_Advance D(5) by (cases T; auto split: if_splits)+
  show ?thesis
  proof (cases "current_tick w < t")
    case True
    then show ?thesis
      using ticks_stand[OF st, of "t - current_tick w"] t T' Do_Advance wheel_advance_to_iterate[OF D(1) t] by auto
  qed (use st T' Do_Advance wheel_advance_to_iterate[OF D(1) t] in simp)
next
  case (Do_Insert a d k)
  note D = stands_forD[OF st]
  let ?e = "(timer_entry_new d)\<lparr>waker := k\<rparr>"
  have a: "a \<notin> registered_in w" "current_tick w < u64_max" "T' = (table_insert a d k (fst T), snd T)"
    using T Do_Insert D(5,6) by (cases T; auto split: if_splits)+
  have un: "\<not> is_registered ?e" by (simp add: timer_entry_new_def is_registered_def)
  note w1 = put_entry_ok[OF D(1) a(1) un]
  have f1: "current_tick (put_entry a ?e w) = current_tick w" "woken (put_entry a ?e w) = woken w"
    "mem (put_entry a ?e w) a = Some ?e" by (simp_all add: put_entry_def)
  have tab: "table_of (put_entry a ?e w) = table_of w"
    using a(1) w1(2) f1(1) by (auto simp: table_of_def payload_def put_entry_def fun_eq_iff)
  obtain w' where w': "inner_insert S L a (put_entry a ?e w) = Some w'" "wheel_inv S L w'" "woken w' = woken w"
      "payload (mem w') = payload (mem (put_entry a ?e w))"
    using insert_ok[OF w1(1) _ f1(3) un] a(2) f1(1,2) by auto
  have "table_of w' = table_insert a d k (fst T)"
    using table_of_insert[OF w1(1) _ f1(3) un] w'(1) a(2) f1(1) tab D(2) by (auto simp: timer_entry_new_def)
  moreover have "mem w' b \<noteq> None" if "b \<in> A" for b
    using payload_dom[OF w'(4), of b] D(4)[OF that] by (auto simp: put_entry_def)
  ultimately show ?thesis
    using w' D(3) Do_Insert a(3) by (auto intro!: stands_forI)
next
  case (Do_Remove a)
  note D = stands_forD[OF st]
  obtain e where e: "mem w a = Some e" using D(4)[of a] x Do_Remove by auto
  obtain w' where w': "inner_remove a w = Some w'" "wheel_inv S L w'" "woken w' = woken w"
      "payload (mem w') = payload (mem w)"
    using remove_ok[OF D(1) e] by blast
  moreover have "mem w' b \<noteq> None" if "b \<in> A" for b
    using payload_dom[OF w'(4), of b] D(4)[OF that] by auto
  moreover have "table_of w' = table_remove a (fst T)" using table_of_remove[OF D(1) e] w'(1) D(2) by auto
  ultimately show ?thesis using T Do_Remove D(3) by (cases T) (auto intro!: stands_forI)
next
  case (Do_Waker a k)
  note D = stands_forD[OF st]
  obtain e where e: "mem w a = Some e" using D(4)[of a] x Do_Waker by auto
  note w' = set_waker_ok[OF D(1) e, of k]
  have "table_of (put_entry a (e\<lparr>waker := k\<rparr>) w) =
      (fst T)\<lparr>table := (table (fst T))(a := map_option (\<lambda>(d, _). (d, k)) (table (fst T) a))\<rparr>"
    unfolding D(2)[symmetric] using e w'(2) by (auto simp: table_of_def payload_def put_entry_def fun_eq_iff)
  moreover have "mem (put_entry a (e\<lparr>waker := k\<rparr>) w) b \<noteq> None" if "b \<in> A" for b
    using D(4)[OF that] by (auto simp: put_entry_def)
  moreover have "woken (put_entry a (e\<lparr>waker := k\<rparr>) w) = woken w" by (simp add: put_entry_def)
  ultimately show ?thesis
    using T Do_Waker D(3) e w'(1) by (cases T) (auto intro!: stands_forI)
qed

lemma run_stands:
  assumes "stands_for S L A w T" "table_run xs T = Some T'" "\<forall>x \<in> set xs. op_addrs x \<subseteq> A"
  shows "\<exists>w'. wheel_run S L xs w = Some w' \<and> stands_for S L A w' T'"
  using assms
proof (induction xs arbitrary: w T)
  case (Cons x xs)
  obtain T1 where T1: "table_do x T = Some T1" "table_run xs T1 = Some T'"
    using Cons.prems(2) by (auto split: bind_splits)
  obtain w1 where "wheel_do S L x w = Some w1" "stands_for S L A w1 T1"
    using op_stands[OF Cons.prems(1) T1(1)] Cons.prems(3) by auto
  then show ?case using Cons.IH[OF _ T1(2)] Cons.prems(3) by auto
qed simp

section \<open>Property\<close>

text \<open>
  C1: the wheel implements a timer table.  Start a wheel of at least two levels over any memory in
  which nothing is registered, and run any program of ticks, jumps of the clock, insertions,
  removals of any armed (or idle) entry and replacements of wakers that the table accepts.  Then the
  wheel returns from every operation, without a panic, a dangling pointer or an underflow, is
  well-formed, holds exactly the table's clock, deadlines and wakers, has called exactly the wakers the
  table lists as due, each as often, and its \<open>len()\<close> is the number of entries in the table: the
  levels, slots, cascades and intrusive pointers are not observable.
\<close>

theorem wheel_refines_timer_table:
  assumes "dims_ok S L" "2 \<le> L" "wheel_new S L m = Some w" "\<And>a e. m a = Some e \<Longrightarrow> \<not> is_registered e"
    and "\<And>x. x \<in> set xs \<Longrightarrow> op_addrs x \<subseteq> dom m"
    and "table_run xs (\<lparr>clock = 0, table = Map.empty\<rparr>, {#}) = Some (T, ks)"
  shows "\<exists>w'. wheel_run S L xs w = Some w' \<and> wheel_inv S L w' \<and> table_of w' = T \<and> mset (woken w') = ks \<and>
           wheel_len w' = card (dom (table T))"
proof -
  note w = wheel_inv_new[OF assms(1-4)]
  have "stands_for S L (dom m) w (\<lparr>clock = 0, table = Map.empty\<rparr>, {#})"
    using w by (auto intro!: stands_forI simp: table_of_def)
  from run_stands[OF this assms(6)] assms(5) obtain w' where
    w': "wheel_run S L xs w = Some w'" "stands_for S L (dom m) w' (T, ks)" by blast
  note D = stands_forD[OF w'(2)]
  have "wheel_len w' = card (dom (table T))"
    using pending_card(1)[OF D(1)] D(6) by (simp add: wheel_len_def)
  then show ?thesis using w'(1) D(1-3) by auto
qed

text \<open>
  Three entries in one slot of the second level; the middle one of the list is cancelled, another's waker is
  replaced, and the clock jumps to the deadline of the third.
\<close>

theorem wheel_refines_timer_table_witness:
  "\<exists>w'. wheel_run 8 4 [Do_Insert 0 20 (Some 5), Do_Insert 1 20 (Some 6), Do_Insert 2 21 (Some 7), Do_Remove 1,
       Do_Waker 2 (Some 9), Do_Tick, Do_Advance 20] demo_wheel = Some w' \<and> wheel_inv 8 4 w' \<and>
     table_of w' = \<lparr>clock = 20, table = [2 \<mapsto> (21, Some 9)]\<rparr> \<and> mset (woken w') = {#5#} \<and> wheel_len w' = 1"
proof -
  let ?xs = "[Do_Insert 0 20 (Some 5), Do_Insert 1 20 (Some 6), Do_Insert 2 21 (Some 7), Do_Remove 1,
       Do_Waker 2 (Some 9), Do_Tick, Do_Advance 20]"
  let ?T = "\<lparr>clock = 20, table = [2 \<mapsto> (21, Some 9)]\<rparr> :: timer_table"
  let ?T1 = "\<lparr>clock = 0, table = [0 \<mapsto> (20, Some 5), 2 \<mapsto> (21, Some 9)]\<rparr> :: timer_table"
  have armed: "table_run ?xs (\<lparr>clock = 0, table = Map.empty\<rparr>, {#}) =
      table_run [Do_Tick, Do_Advance 20] (?T1, {#})"
    by (simp add: table_insert_def table_remove_def u64_max_def fun_upd_twist)
  have due: "{a. \<exists>d k. table ?T1 a = Some (d, Some k) \<and> d \<le> 20} = {0}" by auto
  have "table_run [Do_Tick, Do_Advance 20] (?T1, {#}) = Some (move_clock 20 (move_clock 1 (?T1, {#})))"
    by (simp add: u64_max_def move_clock_def table_until_def)
  also have "move_clock 20 (move_clock 1 (?T1, {#})) = move_clock 20 (?T1, {#})"
    using due by (intro move_clock_twice) simp_all
  also have "\<dots> = (?T, {#5#})"
    by (simp only: move_clock_def prod.case due due_by_def) (auto simp: table_until_def fun_eq_iff)
  finally have T: "table_run ?xs (\<lparr>clock = 0, table = Map.empty\<rparr>, {#}) = Some (?T, {#5#})"
    unfolding armed .
  have "\<And>x. x \<in> set ?xs \<Longrightarrow> op_addrs x \<subseteq> dom demo_mem" by (auto simp: demo_mem_def)
  from wheel_refines_timer_table[OF demo_dims _ demo_new demo_mem_unregistered this T]
  show ?thesis by auto
qed

end
