(* ===== verification/Timer_Futures.thy ===== *)
theory Timer_Futures
  imports Wheel_Service
begin

text \<open>
  The futures built on the wheel: \<open>Sleep\<close> (\<open>sleep.rs\<close>), \<open>Timeout\<close> (\<open>timeout.rs\<close>), \<open>Interval\<close>
  (\<open>interval.rs\<close>), the functions and the loop of the std driver (\<open>driver.rs\<close>) and the
  \<open>retry\<close> combinator (\<open>retry.rs\<close>).  Each operation takes and returns the wheel it shares;
  an operation holds the wheel's lock from its first to its last access, so it is one step.
  \<open>None\<close> is a panic (or an access through a dangling pointer, which is shown not to happen).
\<close>

section \<open>Sleep\<close>

text \<open>
  The future is the address its pinned entry lives at and the flag it keeps about the
  registration.  \<open>Timeout\<close> has the same two fields beside its inner future.
\<close>

record sleep =
  entry_at :: addr
  registered_flag :: bool

definition sleep_new :: "addr \<Rightarrow> nat \<Rightarrow> wheel \<Rightarrow> sleep \<times> wheel" where
  "sleep_new a d w = (\<lparr>entry_at = a, registered_flag = False\<rparr>, put_entry a (timer_entry_new d) w)"

definition sleep_deadline :: "'x sleep_scheme \<Rightarrow> wheel \<Rightarrow> nat option" where
  "sleep_deadline s w = map_option deadline (mem w (entry_at s))"

definition sleep_reset :: "nat \<Rightarrow> sleep \<Rightarrow> wheel \<Rightarrow> (sleep \<times> wheel) option" where
  "sleep_reset d s w = do {
     w1 \<leftarrow> inner_remove (entry_at s) w;
     Some (s\<lparr>registered_flag := False\<rparr>, put_entry (entry_at s) (timer_entry_new d) w1) }"

text \<open>The part of \<open>poll\<close> from the deadline test on, which \<open>Sleep\<close> and \<open>Timeout\<close> share.\<close>

definition store_waker :: "waker \<Rightarrow> addr \<Rightarrow> timer_entry \<Rightarrow> wheel \<Rightarrow> wheel" where
  "store_waker k a e w =
     (if (case waker e of None \<Rightarrow> True | Some k' \<Rightarrow> k' \<noteq> k)
      then put_entry a (e\<lparr>waker := Some k\<rparr>) w else w)"

definition expire :: "'x sleep_scheme \<Rightarrow> wheel \<Rightarrow> ('x sleep_scheme \<times> wheel) option" where
  "expire s w = do {
     w1 \<leftarrow> inner_remove (entry_at s) w;
     Some (s\<lparr>registered_flag := False\<rparr>, w1) }"

definition poll_deadline ::
  "nat \<Rightarrow> nat \<Rightarrow> waker \<Rightarrow> 'x sleep_scheme \<Rightarrow> wheel \<Rightarrow> (unit poll \<times> 'x sleep_scheme \<times> wheel) option" where
  "poll_deadline S L k s w = do {
     e \<leftarrow> mem w (entry_at s);
     if deadline e \<le> current_tick w
     then do { (s1, w1) \<leftarrow> expire s w; Some (Ready (), s1, w1) }
     else do {
       let w1 = store_waker k (entry_at s) e w;
       if registered_flag s then Some (Pending, s, w1)
       else do {
         w2 \<leftarrow> inner_insert S L (entry_at s) w1;
         Some (Pending, s\<lparr>registered_flag := True\<rparr>, w2) } } }"

definition sleep_poll :: "nat \<Rightarrow> nat \<Rightarrow> waker \<Rightarrow> sleep \<Rightarrow> wheel \<Rightarrow> (unit poll \<times> sleep \<times> wheel) option" where
  "sleep_poll S L k s w = poll_deadline S L k s w"

definition sleep_drop :: "sleep \<Rightarrow> wheel \<Rightarrow> wheel option" where
  "sleep_drop s w = map_option snd (expire s w)"

section \<open>Timeout\<close>

text \<open>
  The inner future is polled through \<open>poll_inner\<close>, which sees the wheel: a wrapped future
  may itself use timers.
\<close>

datatype timed_out = Timed_Out

record 'f timeout = sleep +
  future :: 'f

type_synonym ('f, 'v) poll_fn = "waker \<Rightarrow> 'f \<Rightarrow> wheel \<Rightarrow> ('v poll \<times> 'f \<times> wheel) option"

definition timeout_new :: "addr \<Rightarrow> 'f \<Rightarrow> nat \<Rightarrow> wheel \<Rightarrow> 'f timeout \<times> wheel" where
  "timeout_new a f d w =
     (\<lparr>entry_at = a, registered_flag = False, future = f\<rparr>, put_entry a (timer_entry_new d) w)"

definition timeout_poll ::
  "nat \<Rightarrow> nat \<Rightarrow> ('f, 'v) poll_fn \<Rightarrow> waker \<Rightarrow> 'f timeout \<Rightarrow> wheel \<Rightarrow>
   ((timed_out + 'v) poll \<times> 'f timeout \<times> wheel) option" where
  "timeout_poll S L poll_inner k t w = do {
     (r, f, w1) \<leftarrow> poll_inner k (future t) w;
     let t1 = t\<lparr>future := f\<rparr>;
     case r of
       Ready v \<Rightarrow> do { (t2, w2) \<leftarrow> expire t1 w1; Some (Ready (Inr v), t2, w2) }
     | Pending \<Rightarrow> do {
         (r2, t2, w2) \<leftarrow> poll_deadline S L k t1 w1;
         Some (case r2 of Ready _ \<Rightarrow> Ready (Inl Timed_Out) | Pending \<Rightarrow> Pending, t2, w2) } }"

definition timeout_drop :: "'f timeout \<Rightarrow> wheel \<Rightarrow> wheel option" where
  "timeout_drop t w = map_option snd (expire t w)"

section \<open>Interval\<close>

datatype missed_tick_behavior = Burst | Delay | Skip

fun next_deadline :: "missed_tick_behavior \<Rightarrow> nat \<Rightarrow> nat \<Rightarrow> nat \<Rightarrow> nat option" where
  "next_deadline Burst old p now = Some (saturating_add_u64 old p)"
| "next_deadline Delay old p now = Some (saturating_add_u64 now p)"
| "next_deadline Skip old p now = do {
     aligned \<leftarrow> checked_add_u64 (now div p * p) p;
     Some (max aligned (saturating_add_u64 old p)) }"

record interval =
  tick_sleep :: sleep
  period :: nat
  behavior :: missed_tick_behavior

definition interval_new :: "addr \<Rightarrow> nat \<Rightarrow> wheel \<Rightarrow> (interval \<times> wheel) option" where
  "interval_new a p w =
     (if p = 0 then None
      else do {
        d \<leftarrow> checked_add_u64 (wheel_now w) p;
        let (s, w1) = sleep_new a d w;
        Some (\<lparr>tick_sleep = s, period = p, behavior = Skip\<rparr>, w1) })"

definition with_missed_tick_behavior :: "missed_tick_behavior \<Rightarrow> interval \<Rightarrow> interval" where
  "with_missed_tick_behavior b i = i\<lparr>behavior := b\<rparr>"

definition interval_next_deadline :: "interval \<Rightarrow> wheel \<Rightarrow> nat option" where
  "interval_next_deadline i w = sleep_deadline (tick_sleep i) w"

definition poll_tick :: "nat \<Rightarrow> nat \<Rightarrow> waker \<Rightarrow> interval \<Rightarrow> wheel \<Rightarrow> (unit poll \<times> interval \<times> wheel) option" where
  "poll_tick S L k i w = do {
     (r, s, w1) \<leftarrow> sleep_poll S L k (tick_sleep i) w;
     case r of
       Pending \<Rightarrow> Some (Pending, i\<lparr>tick_sleep := s\<rparr>, w1)
     | Ready _ \<Rightarrow> do {
         old \<leftarrow> sleep_deadline s w1;
         d \<leftarrow> next_deadline (behavior i) old (period i) (wheel_now w1);
         (s1, w2) \<leftarrow> sleep_reset d s w1;
         Some (Ready (), i\<lparr>tick_sleep := s1\<rparr>, w2) } }"

section \<open>The std driver\<close>

text \<open>
  Durations are in milliseconds, which is what \<open>as_millis\<close> gives; \<open>as u64\<close> truncates.
  \<open>driver_iteration\<close> is one round of \<open>driver_loop\<close> at the clock reading \<open>real\<close>: the wheel is
  brought up to date and the number of milliseconds the thread then waits is computed; a
  registration interrupts the wait.
\<close>

definition tick_ms :: nat where
  "tick_ms = 1"

definition ticks_for :: "nat \<Rightarrow> nat" where
  "ticks_for ms = ms mod 2 ^ 64 div tick_ms"

definition driver_sleep :: "addr \<Rightarrow> nat \<Rightarrow> wheel \<Rightarrow> (sleep \<times> wheel) option" where
  "driver_sleep a ms w = do {
     d \<leftarrow> checked_add_u64 (wheel_now w) (ticks_for ms);
     Some (sleep_new a d w) }"

definition driver_timeout :: "addr \<Rightarrow> nat \<Rightarrow> 'f \<Rightarrow> wheel \<Rightarrow> ('f timeout \<times> wheel) option" where
  "driver_timeout a ms f w = do {
     d \<leftarrow> checked_add_u64 (wheel_now w) (ticks_for ms);
     Some (timeout_new a f d w) }"

definition driver_iteration :: "nat \<Rightarrow> nat \<Rightarrow> nat \<Rightarrow> wheel \<Rightarrow> (nat \<times> wheel) option" where
  "driver_iteration S L real w = do {
     w1 \<leftarrow> wheel_advance_to S L real w;
     nd \<leftarrow> wheel_next_deadline S L w1;
     Some (min (case nd of Some d \<Rightarrow> d - wheel_now w1 | None \<Rightarrow> 100) 100, w1) }"

definition driver_interval :: "addr \<Rightarrow> nat \<Rightarrow> wheel \<Rightarrow> (interval \<times> wheel) option" where
  "driver_interval a ms w = interval_new a (max (ticks_for ms) 1) w"

section \<open>Retry\<close>

text \<open>
  \<open>op n\<close> is what the \<open>n\<close>-th call (from 1) of the retried operation resolves to; the delay
  curve is a parameter (it is computed in floating point).  Returned beside the result: the
  number of calls and the delays slept.
\<close>

function retry_loop :: "nat \<Rightarrow> (nat \<Rightarrow> 'd) \<Rightarrow> (nat \<Rightarrow> 'e + 'a) \<Rightarrow> nat \<Rightarrow> 'd list \<Rightarrow> ('e + 'a) \<times> nat \<times> 'd list" where
  "retry_loop max_attempts delay op attempt slept =
     (case op (attempt + 1) of
        Inr v \<Rightarrow> (Inr v, attempt + 1, slept)
      | Inl e \<Rightarrow>
          if max_attempts \<le> attempt + 1 then (Inl e, attempt + 1, slept)
          else retry_loop max_attempts delay op (attempt + 1) (slept @ [delay (attempt + 1)]))"
  by pat_completeness auto
termination by (relation "measure (\<lambda>(m, _, _, attempt, _). m - attempt)") auto

declare retry_loop.simps [simp del]

definition retry :: "nat \<Rightarrow> (nat \<Rightarrow> 'd) \<Rightarrow> (nat \<Rightarrow> 'e + 'a) \<Rightarrow> ('e + 'a) \<times> nat \<times> 'd list" where
  "retry max_attempts delay op = retry_loop max_attempts delay op 0 []"

text \<open>\<open>RetryPolicy::new\<close> never asks for fewer than one attempt.\<close>

definition retry_policy_attempts :: "nat \<Rightarrow> nat" where
  "retry_policy_attempts n = max n 1"

section \<open>The wheel seen by its futures\<close>

lemma store_waker_ok:
  assumes "wheel_inv S L w" "mem w a = Some e"
  shows "wheel_inv S L (store_waker k a e w)"
    "registered_in (store_waker k a e w) = registered_in w"
    "current_tick (store_waker k a e w) = current_tick w"
    "woken (store_waker k a e w) = woken w"
    "mem (store_waker k a e w) = (mem w)(a \<mapsto> e\<lparr>waker := Some k\<rparr>)"
proof -
  have "mem (store_waker k a e w) = (mem w)(a \<mapsto> e\<lparr>waker := Some k\<rparr>)"
    using assms(2) by (cases e) (auto simp: store_waker_def split: option.splits)
  then show "wheel_inv S L (store_waker k a e w)"
    "registered_in (store_waker k a e w) = registered_in w"
    "current_tick (store_waker k a e w) = current_tick w"
    "woken (store_waker k a e w) = woken w"
    "mem (store_waker k a e w) = (mem w)(a \<mapsto> e\<lparr>waker := Some k\<rparr>)"
    using set_waker_ok[OF assms, of "Some k"] assms(1) by (auto simp: store_waker_def)
qed

text \<open>
  What holds between the operations of a timer future: its flag says whether it registered,
  and an entry the wheel has let go of is one whose deadline has come.
\<close>

definition timer_inv :: "nat \<Rightarrow> nat \<Rightarrow> 'x sleep_scheme \<Rightarrow> wheel \<Rightarrow> bool" where
  "timer_inv S L s w \<longleftrightarrow>
     wheel_inv S L w \<and> mem w (entry_at s) \<noteq> None \<and>
     deadline_at (mem w) (entry_at s) \<le> u64_max \<and>
     (entry_at s \<in> registered_in w \<longrightarrow> registered_flag s) \<and>
     (registered_flag s \<longrightarrow> entry_at s \<in> registered_in w \<or>
                            deadline_at (mem w) (entry_at s) \<le> current_tick w)"

lemma timer_invE:
  assumes "timer_inv S L s w"
  obtains e where "wheel_inv S L w" "mem w (entry_at s) = Some e"
    "deadline_at (mem w) (entry_at s) = deadline e" "deadline e \<le> u64_max"
    "is_registered e = (entry_at s \<in> registered_in w)"
    "entry_at s \<in> registered_in w \<Longrightarrow> registered_flag s"
    "registered_flag s \<Longrightarrow> current_tick w < deadline e \<Longrightarrow> entry_at s \<in> registered_in w"
  using assms by (fastforce simp: timer_inv_def deadline_at_def registered_in_def)

lemma expire_ok:
  assumes inv: "wheel_inv S L w" and a: "mem w (entry_at s) \<noteq> None"
  shows "\<exists>w'. expire s w = Some (s\<lparr>registered_flag := False\<rparr>, w') \<and> wheel_inv S L w' \<and>
           entry_at s \<notin> registered_in w' \<and> table_of w' = table_remove (entry_at s) (table_of w) \<and>
           current_tick w' = current_tick w \<and> woken w' = woken w \<and> payload (mem w') = payload (mem w)"
proof -
  obtain e where e: "mem w (entry_at s) = Some e" using a by auto
  show ?thesis
    using remove_ok[OF inv e] table_of_remove[OF inv e] by (auto simp: expire_def)
qed

lemma poll_deadline_ok:
  fixes s :: "'x sleep_scheme"
  assumes inv: "timer_inv S L s w"
  defines "d \<equiv> deadline_at (mem w) (entry_at s)"
  shows "\<exists>w'. poll_deadline S L k s w =
             Some (if d \<le> current_tick w then Ready () else Pending,
                   s\<lparr>registered_flag := \<not> d \<le> current_tick w\<rparr>, w') \<and>
           timer_inv S L (s\<lparr>registered_flag := \<not> d \<le> current_tick w\<rparr>) w' \<and>
           table_of w' = (if d \<le> current_tick w then table_remove (entry_at s) (table_of w)
                          else table_insert (entry_at s) d (Some k) (table_of w)) \<and>
           woken w' = woken w \<and> deadline_at (mem w') = deadline_at (mem w)"
proof -
  obtain e where e: "wheel_inv S L w" "mem w (entry_at s) = Some e" "d = deadline e" "d \<le> u64_max"
      "is_registered e = (entry_at s \<in> registered_in w)"
      "entry_at s \<in> registered_in w \<Longrightarrow> registered_flag s"
      "registered_flag s \<Longrightarrow> current_tick w < deadline e \<Longrightarrow> entry_at s \<in> registered_in w"
    using timer_invE[OF inv] unfolding d_def by metis
  show ?thesis
  proof (cases "d \<le> current_tick w")
    case True
    obtain w' where w': "expire s w = Some (s\<lparr>registered_flag := False\<rparr>, w')" "wheel_inv S L w'"
        "entry_at s \<notin> registered_in w'" "table_of w' = table_remove (entry_at s) (table_of w)"
        "current_tick w' = current_tick w" "woken w' = woken w" "payload (mem w') = payload (mem w)"
      using expire_ok[OF e(1)] e(2) by fastforce
    note dl = payload_deadline_at[OF w'(7)]
    have "timer_inv S L (s\<lparr>registered_flag := False\<rparr>) w'"
      using w'(2,3) dl e(2,4) payload_dom[OF w'(7), of "entry_at s"]
      by (simp add: timer_inv_def d_def)
    then show ?thesis using True e(2,3) w' dl by (simp add: poll_deadline_def)
  next
    case False
    let ?w1 = "store_waker k (entry_at s) e w"
    note w1 = store_waker_ok[OF e(1,2), of k]
    have dl1: "deadline_at (mem ?w1) = deadline_at (mem w)"
      using e(2) by (auto simp: w1(5) deadline_at_def fun_eq_iff)
    show ?thesis
    proof (cases "registered_flag s")
      case True
      then have reg: "entry_at s \<in> registered_in w" using e(3,7) False by simp
      have "timer_inv S L s ?w1"
        using w1 reg dl1 e(4) True by (simp add: timer_inv_def d_def)
      moreover have "table_of ?w1 = table_insert (entry_at s) d (Some k) (table_of w)"
        using reg e(2,3) by (auto simp: table_of_def table_insert_def w1 payload_def fun_eq_iff)
      moreover have s: "s\<lparr>registered_flag := \<not> d \<le> current_tick w\<rparr> = s" using True False by simp
      moreover have "poll_deadline S L k s w = Some (Pending, s, ?w1)"
        using False True e(2,3) by (simp add: poll_deadline_def)
      ultimately show ?thesis using False w1(4) dl1 unfolding s by (intro exI[of _ ?w1]) simp
    next
      case flag: False
      then have reg: "entry_at s \<notin> registered_in w" using e(6) by blast
      let ?e = "e\<lparr>waker := Some k\<rparr>"
      have m1: "mem ?w1 (entry_at s) = Some ?e" "\<not> is_registered ?e"
        using reg e(5) by (simp_all add: w1(5) is_registered_def)
      have t1: "current_tick ?w1 < u64_max" using False e(4) w1(3) by simp
      obtain w' where w': "inner_insert S L (entry_at s) ?w1 = Some w'" "wheel_inv S L w'"
          "registered_in w' = insert (entry_at s) (registered_in ?w1)"
          "current_tick w' = current_tick ?w1" "woken w' = woken ?w1" "payload (mem w') = payload (mem ?w1)"
        using insert_ok[OF w1(1) t1 m1] by blast
      note dl = payload_deadline_at[OF w'(6)]
      have "table_of w' = table_insert (entry_at s) d (Some k) (table_of ?w1)"
        using table_of_insert[OF w1(1) t1 m1] w'(1) e(3) by simp
      moreover have "table_of ?w1 = table_of w"
        using reg by (auto simp: table_of_def w1 payload_def fun_eq_iff)
      moreover have "timer_inv S L (s\<lparr>registered_flag := True\<rparr>) w'"
        using w'(2,3) m1(1) payload_dom[OF w'(6), of "entry_at s"] dl dl1 e(4)
        by (simp add: timer_inv_def d_def)
      ultimately show ?thesis
        using False flag e(2,3) w'(1,5) w1(4) dl dl1 by (simp add: poll_deadline_def)
    qed
  qed
qed


section \<open>Many ticks\<close>

lemma set_wakers_of:
  "set (wakers_of m as) = {k. \<exists>a \<in> set as. \<exists>d. payload m a = Some (d, Some k)}"
  by (force simp: wakers_of_def payload_def split: option.splits)

lemma tick_table:
  assumes "wheel_inv S L w" "current_tick w < u64_max"
  shows "\<exists>w' log. advance_one S L w = Some w' \<and> wheel_inv S L w' \<and>
           table_of w' = table_tick (table_of w) \<and> woken w' = woken w @ log \<and>
           set log = {k. \<exists>a d. table (table_of w) a = Some (d, Some k) \<and> d \<le> Suc (current_tick w)}"
proof -
  obtain w' as where w': "advance_one S L w = Some w'" "woken w' = woken w @ wakers_of (mem w) as"
      "set as = {a \<in> registered_in w. deadline_at (mem w) a \<le> Suc (current_tick w)}"
    using tick_fires[OF assms] by blast
  have "set (wakers_of (mem w) as) =
      {k. \<exists>a d. table (table_of w) a = Some (d, Some k) \<and> d \<le> Suc (current_tick w)}"
    unfolding set_wakers_of w'(3) by (force simp: table_of_def deadline_at_payload split: if_splits)
  then show ?thesis using w'(1,2) table_of_tick[OF assms] by (auto simp: wheel_tick_def)
qed

lemma clock_table_of [simp]: "clock (table_of w) = current_tick w"
  by (simp add: table_of_def)

lemma table_table_tick:
  "table (table_tick T) a = Some (d, k) \<longleftrightarrow> table T a = Some (d, k) \<and> Suc (clock T) < d"
  by (auto simp: table_tick_def split: option.splits if_splits)

lemma ticks_table:
  assumes "wheel_inv S L w" "current_tick w + n \<le> u64_max"
  shows "\<exists>w' log. wheel_tick_n S L n w = Some w' \<and> wheel_inv S L w' \<and>
           table_of w' = (table_tick ^^ n) (table_of w) \<and> woken w' = woken w @ log \<and>
           set log = {k. 0 < n \<and> (\<exists>a d. table (table_of w) a = Some (d, Some k) \<and> d \<le> current_tick w + n)}"
  using assms
proof (induction n arbitrary: w)
  case (Suc n)
  obtain w1 log1 where w1: "advance_one S L w = Some w1" "wheel_inv S L w1"
      "table_of w1 = table_tick (table_of w)" "woken w1 = woken w @ log1"
      "set log1 = {k. \<exists>a d. table (table_of w) a = Some (d, Some k) \<and> d \<le> Suc (current_tick w)}"
    using tick_table[OF Suc.prems(1)] Suc.prems(2) by auto
  have t1: "current_tick w1 = Suc (current_tick w)"
    using arg_cong[OF w1(3), of clock] by (simp add: table_tick_def)
  obtain w' log2 where w': "wheel_tick_n S L n w1 = Some w'" "wheel_inv S L w'"
      "table_of w' = (table_tick ^^ n) (table_of w1)" "woken w' = woken w1 @ log2"
      "set log2 = {k. 0 < n \<and> (\<exists>a d. table (table_of w1) a = Some (d, Some k) \<and> d \<le> current_tick w1 + n)}"
    using Suc.IH[OF w1(2)] Suc.prems(2) t1 by auto
  have "set (log1 @ log2) =
      {k. \<exists>a d. table (table_of w) a = Some (d, Some k) \<and> d \<le> current_tick w + Suc n}" (is "_ = ?R")
  proof (intro set_eqI iffI)
    fix k assume "k \<in> set (log1 @ log2)"
    then show "k \<in> ?R" unfolding set_append w1(5) w'(5) w1(3) table_table_tick t1 by fastforce
  next
    fix k assume "k \<in> ?R"
    then obtain a d where d: "table (table_of w) a = Some (d, Some k)" "d \<le> current_tick w + Suc n" by blast
    show "k \<in> set (log1 @ log2)"
    proof (cases "d \<le> Suc (current_tick w)")
      case True
      with d(1) show ?thesis unfolding set_append w1(5) by blast
    next
      case False
      with d have "k \<in> set log2" unfolding w'(5) w1(3) table_table_tick t1 by (auto simp: not_le)
      then show ?thesis by simp
    qed
  qed
  moreover have "woken w' = woken w @ (log1 @ log2)" using w'(4) w1(4) by simp
  ultimately show ?case
    using w1(1) w'(1,2,3) w1(3)
    by (intro exI[of _ w'] exI[of _ "log1 @ log2"]) (simp add: funpow_swap1)
qed (simp add: table_of_def)

lemma ticks_payload:
  assumes "wheel_inv S L w" "current_tick w + n \<le> u64_max" "wheel_tick_n S L n w = Some w'"
  shows "(mem w' a = None) = (mem w a = None)" "deadline_at (mem w') a = deadline_at (mem w) a"
proof -
  have "(mem w' a = None) = (mem w a = None) \<and> deadline_at (mem w') a = deadline_at (mem w) a"
    using assms
  proof (induction n arbitrary: w)
    case (Suc n)
    obtain w1 as where w1: "advance_one S L w = Some w1" "wheel_inv S L w1"
        "current_tick w1 = Suc (current_tick w)"
        "payload (mem w1) = (\<lambda>a. if a \<in> set as
           then map_option (\<lambda>(d, _). (d, None)) (payload (mem w) a) else payload (mem w) a)"
      using tick_fires[OF Suc.prems(1)] Suc.prems(2) by auto
    have "(payload (mem w1) a = None) = (payload (mem w) a = None)"
      unfolding w1(4) by simp
    then have "(mem w1 a = None) = (mem w a = None)" by (simp add: payload_def)
    moreover have "deadline_at (mem w1) a = deadline_at (mem w) a"
      unfolding deadline_at_payload w1(4) by (auto split: option.split)
    ultimately show ?case
      using Suc.IH[OF w1(2)] Suc.prems(2,3) w1(1,3) by simp
  qed simp
  then show "(mem w' a = None) = (mem w a = None)" "deadline_at (mem w') a = deadline_at (mem w) a"
    by simp_all
qed

text \<open>Ticking the wheel does not break a future that waits in it.\<close>

lemma timer_inv_ticks:
  assumes "timer_inv S L s w" "current_tick w + n \<le> u64_max"
  shows "\<exists>w'. wheel_tick_n S L n w = Some w' \<and> timer_inv S L s w' \<and>
           current_tick w' = current_tick w + n \<and>
           deadline_at (mem w') (entry_at s) = deadline_at (mem w) (entry_at s)"
proof -
  have inv: "wheel_inv S L w" using assms(1) by (simp add: timer_inv_def)
  obtain w' where w': "wheel_tick_n S L n w = Some w'" "wheel_inv S L w'"
      "current_tick w' = current_tick w + n"
      "registered_in w' = {a \<in> registered_in w. n = 0 \<or> current_tick w + n < deadline_at (mem w) a}"
    using wheel_timers.ticks_ok[OF inv assms(2)] by (auto simp: wheel_tick_n_iterate)
  note pl = ticks_payload[OF inv assms(2) w'(1), of "entry_at s"]
  have "timer_inv S L s w'"
    using assms(1) w'(2) pl unfolding timer_inv_def w'(3,4) by auto
  then show ?thesis using w'(1,3) pl(2) by blast
qed

section \<open>Freeing an entry\<close>

lemma wheel_inv_free:
  assumes inv: "wheel_inv S L w" and a: "a \<notin> registered_in w"
  shows "wheel_inv S L (w\<lparr>mem := (mem w)(a := None)\<rparr>)"
proof -
  obtain sl where sl: "dims_ok S L" "2 \<le> L" "wheel_rel S L sl {} w" "registered_in w = registered sl"
    "all_slots (placed S (current_tick w)) (deadline_at (mem w)) sl"
    using wheel_invE[OF inv] by blast
  let ?w = "w\<lparr>mem := (mem w)(a := None)\<rparr>"
  have ne: "b \<noteq> a" if "b \<in> set (sl l s)" for b l s
    using a sl(4) in_registered[of b sl l s] that by auto
  have "chain (mem ?w) p x (sl l s) = chain (mem w) p x (sl l s)" for p x l s
    using ne by (intro chain_frame) simp
  then have rel: "wheel_rel S L sl {} ?w" using sl(3) unfolding wheel_rel_def by auto
  have "all_slots (placed S (current_tick ?w)) (deadline_at (mem ?w)) sl"
  proof (rule all_slotsI)
    fix l s b assume "b \<in> set (sl l s)"
    then show "placed S (current_tick ?w) l s (deadline_at (mem ?w) b)"
      using all_slotsD[OF sl(5)] ne by (simp add: deadline_at_def)
  qed
  then show ?thesis using wheel_invI[OF sl(1,2) rel] by simp
qed

section \<open>Starting a timer\<close>

lemma timer_inv_new:
  assumes "wheel_inv S L w" "a \<notin> registered_in w" "d \<le> u64_max" "sleep_new a d w = (s, w')"
  shows "timer_inv S L s w'" "entry_at s = a" "deadline_at (mem w') a = d" "current_tick w' = current_tick w"
    "woken w' = woken w" "registered_in w' = registered_in w"
proof -
  have w': "w' = put_entry a (timer_entry_new d) w" and s: "s = \<lparr>entry_at = a, registered_flag = False\<rparr>"
    using assms(4) by (simp_all add: sleep_new_def)
  have un: "\<not> is_registered (timer_entry_new d)" by (simp add: timer_entry_new_def is_registered_def)
  note ok = put_entry_ok[OF assms(1,2) un]
  show "deadline_at (mem w') a = d"
    unfolding w' by (simp add: deadline_at_def timer_entry_new_def)
  then show "timer_inv S L s w'"
    using ok assms(2,3) unfolding timer_inv_def w' s by simp
  show "registered_in w' = registered_in w" unfolding w' by (rule ok(2))
  show "entry_at s = a" "current_tick w' = current_tick w" "woken w' = woken w"
    by (simp_all add: w' s)
qed

lemma reset_ok:
  assumes inv: "wheel_inv S L w" and a: "mem w (entry_at s) \<noteq> None" and d: "d \<le> u64_max"
  shows "\<exists>w'. sleep_reset d s w = Some (s\<lparr>registered_flag := False\<rparr>, w') \<and>
           timer_inv S L (s\<lparr>registered_flag := False\<rparr>) w' \<and>
           registered_in w' = registered_in w - {entry_at s} \<and>
           current_tick w' = current_tick w \<and> woken w' = woken w \<and>
           deadline_at (mem w') (entry_at s) = d"
proof -
  obtain e where e: "mem w (entry_at s) = Some e" using a by auto
  obtain w1 where w1: "inner_remove (entry_at s) w = Some w1" "wheel_inv S L w1"
      "registered_in w1 = registered_in w - {entry_at s}" "current_tick w1 = current_tick w"
      "woken w1 = woken w"
    using remove_ok[OF inv e] by blast
  show ?thesis
    using w1 d put_entry_ok[OF w1(2), of "entry_at s" "timer_entry_new d"]
    by (auto simp: sleep_reset_def timer_inv_def deadline_at_def timer_entry_new_def is_registered_def)
qed

section \<open>Missed ticks\<close>

lemma skip_aligned:
  fixes p now :: nat
  assumes "0 < p"
  shows "now < now div p * p + p" "(now div p * p + p) mod p = 0" "now div p * p + p \<le> now + p"
  using dividend_less_div_times[of p now] div_times_less_eq_dividend[of now p] assms
  by (simp_all add: add.commute)

lemma multiple_gap:
  assumes "m mod p = 0" "now < m" "0 < (p::nat)"
  shows "now div p * p + p \<le> m"
proof -
  obtain q where q: "m = q * p" using assms(1) by (metis dvd_div_mult_self mod_eq_0_iff_dvd)
  then have "now div p < q" using assms(2,3) by (metis div_less_iff_less_mult)
  then have "Suc (now div p) * p \<le> q * p" by (intro mult_le_mono1) simp
  then show ?thesis unfolding q by simp
qed

section \<open>Retrying\<close>

lemma retry_loop_spec:
  assumes "retry_loop m delay op n slept = (r, calls, slept')"
  shows "n < calls \<and> calls \<le> max m (Suc n) \<and> r = op calls \<and>
         (\<forall>i. n < i \<and> i < calls \<longrightarrow> isl (op i)) \<and>
         (isl r \<longrightarrow> calls = max m (Suc n)) \<and>
         slept' = slept @ map delay [Suc n..<calls]"
  using assms
proof (induction m delay op n slept rule: retry_loop.induct)
  case (1 m delay op n slept)
  show ?case
  proof (cases "op (Suc n)")
    case (Inr v)
    then show ?thesis
      using "1.prems" by (subst (asm) retry_loop.simps) (auto simp: isl_def)
  next
    case e: (Inl e)
    show ?thesis
    proof (cases "m \<le> Suc n")
      case True
      then show ?thesis
        using "1.prems" e by (subst (asm) retry_loop.simps) auto
    next
      case False
      then have eq: "retry_loop m delay op (Suc n) (slept @ [delay (Suc n)]) = (r, calls, slept')"
        using "1.prems" e by (subst (asm) retry_loop.simps) simp
      have mx: "max m (Suc (Suc n)) = m" using False by simp
      have IH: "Suc n < calls" "calls \<le> m" "r = op calls"
          "\<forall>i. Suc n < i \<and> i < calls \<longrightarrow> isl (op i)" "isl r \<longrightarrow> calls = m"
          "slept' = (slept @ [delay (Suc n)]) @ map delay [Suc (Suc n)..<calls]"
        using "1.IH"[of e, simplified, OF e False eq] mx by (metis append.assoc append_Cons append_Nil)+
      have "isl (op i)" if "n < i" "i < calls" for i
        using IH(4) that e by (cases "i = Suc n") auto
      moreover have "[Suc n..<calls] = Suc n # [Suc (Suc n)..<calls]"
        using IH(1) by (simp add: upt_conv_Cons)
      moreover have "max m (Suc n) = m" using False by simp
      ultimately show ?thesis using IH by (metis Suc_lessD append.assoc append_Cons append_Nil list.map(2))
    qed
  qed
qed

section \<open>Timeout\<close>

lemma timeout_poll_ok:
  assumes "poll_inner k (future t) w = Some (r, f', w1)" "timer_inv S L t w1"
  shows "\<exists>t2 w2. timeout_poll S L poll_inner k t w =
             Some (case r of Ready v \<Rightarrow> Ready (Inr v)
                   | Pending \<Rightarrow> if deadline_at (mem w1) (entry_at t) \<le> current_tick w1
                               then Ready (Inl Timed_Out) else Pending, t2, w2) \<and>
           future t2 = f' \<and> entry_at t2 = entry_at t \<and> timer_inv S L t2 w2 \<and>
           table_of w2 = (if r = Pending \<and> current_tick w1 < deadline_at (mem w1) (entry_at t)
              then table_insert (entry_at t) (deadline_at (mem w1) (entry_at t)) (Some k) (table_of w1)
              else table_remove (entry_at t) (table_of w1))"
proof -
  let ?t = "t\<lparr>future := f'\<rparr>"
  have inv: "timer_inv S L ?t w1" using assms(2) by (simp add: timer_inv_def)
  show ?thesis
  proof (cases r)
    case (Ready v)
    have "wheel_inv S L w1" "mem w1 (entry_at ?t) \<noteq> None" using inv by (auto simp: timer_inv_def)
    from expire_ok[OF this] obtain w2 where w2: "expire ?t w1 = Some (?t\<lparr>registered_flag := False\<rparr>, w2)"
        "wheel_inv S L w2" "entry_at t \<notin> registered_in w2"
        "table_of w2 = table_remove (entry_at t) (table_of w1)" "payload (mem w2) = payload (mem w1)" by auto
    have "timer_inv S L (?t\<lparr>registered_flag := False\<rparr>) w2"
      using w2(2,3) inv payload_deadline_at[OF w2(5)] payload_dom[OF w2(5), of "entry_at t"]
      by (simp add: timer_inv_def)
    then show ?thesis using Ready w2 assms(1) by (simp add: timeout_poll_def)
  next
    case Pending
    let ?d = "deadline_at (mem w1) (entry_at t)"
    obtain w2 where w2: "poll_deadline S L k ?t w1 =
          Some (if ?d \<le> current_tick w1 then Ready () else Pending,
                ?t\<lparr>registered_flag := \<not> ?d \<le> current_tick w1\<rparr>, w2)"
        "timer_inv S L (?t\<lparr>registered_flag := \<not> ?d \<le> current_tick w1\<rparr>) w2"
        "table_of w2 = (if ?d \<le> current_tick w1 then table_remove (entry_at t) (table_of w1)
           else table_insert (entry_at t) ?d (Some k) (table_of w1))"
      using poll_deadline_ok[OF inv, of k] by auto
    show ?thesis
    proof (cases "?d \<le> current_tick w1")
      case True
      then show ?thesis
        using Pending w2 assms(1)
        by (intro exI[of _ "?t\<lparr>registered_flag := False\<rparr>"] exI[of _ w2]) (simp add: timeout_poll_def)
    next
      case False
      then show ?thesis
        using Pending w2 assms(1)
        by (intro exI[of _ "?t\<lparr>registered_flag := True\<rparr>"] exI[of _ w2]) (simp add: timeout_poll_def)
    qed
  qed
qed

end
