(* ===== verification/Timer_Properties.thy ===== *)
theory Timer_Properties
  imports Timer_Futures Wheel_Properties
begin

text \<open>
  The properties of the futures built on the timer wheel, of the std driver and of \<open>retry\<close>.
\<close>

section \<open>Sleep\<close>

lemma sleep_poll_cases:
  assumes "timer_inv S L s w"
  shows "current_tick w < deadline_at (mem w) (entry_at s) \<Longrightarrow>
      \<exists>s' w'. sleep_poll S L k s w = Some (Pending, s', w') \<and> timer_inv S L s' w' \<and>
        entry_at s' = entry_at s \<and> current_tick w' = current_tick w \<and> woken w' = woken w \<and>
        deadline_at (mem w') = deadline_at (mem w) \<and>
        table_of w' = table_insert (entry_at s) (deadline_at (mem w) (entry_at s)) (Some k) (table_of w)"
    and "deadline_at (mem w) (entry_at s) \<le> current_tick w \<Longrightarrow>
      \<exists>s' w'. sleep_poll S L k s w = Some (Ready (), s', w') \<and> timer_inv S L s' w' \<and>
        entry_at s' = entry_at s \<and> current_tick w' = current_tick w \<and> woken w' = woken w \<and>
        table_of w' = table_remove (entry_at s) (table_of w)"
proof -
  obtain w' where w': "sleep_poll S L k s w =
        Some (if deadline_at (mem w) (entry_at s) \<le> current_tick w then Ready () else Pending,
              s\<lparr>registered_flag := \<not> deadline_at (mem w) (entry_at s) \<le> current_tick w\<rparr>, w')"
      "timer_inv S L (s\<lparr>registered_flag := \<not> deadline_at (mem w) (entry_at s) \<le> current_tick w\<rparr>) w'"
      "table_of w' = (if deadline_at (mem w) (entry_at s) \<le> current_tick w
          then table_remove (entry_at s) (table_of w)
          else table_insert (entry_at s) (deadline_at (mem w) (entry_at s)) (Some k) (table_of w))"
      "woken w' = woken w" "deadline_at (mem w') = deadline_at (mem w)"
    using poll_deadline_ok[OF assms, of k] unfolding sleep_poll_def by blast
  have t: "current_tick w' = current_tick w"
    using arg_cong[OF w'(3), of clock] by (simp add: table_remove_def table_insert_def split: if_splits)
  { assume "current_tick w < deadline_at (mem w) (entry_at s)"
    then show "\<exists>s' w'. sleep_poll S L k s w = Some (Pending, s', w') \<and> timer_inv S L s' w' \<and>
        entry_at s' = entry_at s \<and> current_tick w' = current_tick w \<and> woken w' = woken w \<and>
        deadline_at (mem w') = deadline_at (mem w) \<and>
        table_of w' = table_insert (entry_at s) (deadline_at (mem w) (entry_at s)) (Some k) (table_of w)"
      using w' t by (auto simp: not_le[symmetric]) }
  { assume "deadline_at (mem w) (entry_at s) \<le> current_tick w"
    then show "\<exists>s' w'. sleep_poll S L k s w = Some (Ready (), s', w') \<and> timer_inv S L s' w' \<and>
        entry_at s' = entry_at s \<and> current_tick w' = current_tick w \<and> woken w' = woken w \<and>
        table_of w' = table_remove (entry_at s) (table_of w)"
      using w' t by auto }
qed

lemma sleep_pending_before:
  assumes "timer_inv S L s w" "current_tick w + n < deadline_at (mem w) (entry_at s)"
  shows "\<exists>w2 s3 w3. wheel_tick_n S L n w = Some w2 \<and> sleep_poll S L k s w2 = Some (Pending, s3, w3)"
proof -
  have "current_tick w + n \<le> u64_max" using assms by (simp add: timer_inv_def)
  then obtain w2 where w2: "wheel_tick_n S L n w = Some w2" "timer_inv S L s w2"
      "current_tick w2 = current_tick w + n"
      "deadline_at (mem w2) (entry_at s) = deadline_at (mem w) (entry_at s)"
    using timer_inv_ticks[OF assms(1)] by blast
  have "current_tick w2 < deadline_at (mem w2) (entry_at s)" using w2(3,4) assms(2) by simp
  from sleep_poll_cases(1)[OF w2(2) this, of k] w2(1) show ?thesis by blast
qed

lemma table_removed: "table_of w = table_remove a T \<Longrightarrow> a \<notin> registered_in w"
proof
  assume t: "table_of w = table_remove a T" and r: "a \<in> registered_in w"
  then obtain e where "mem w a = Some e" using registered_in_allocated by blast
  then have "table (table_of w) a \<noteq> None" using r by (simp add: table_of_def payload_def)
  then show False unfolding t by (simp add: table_remove_def)
qed

text \<open>
  C17: a sleep resolves on time.  Polled before its deadline it is pending and registered;
  at every later tick before the deadline a poll (with whatever waker) is still pending; the
  ticks that bring the clock to the deadline call the waker of the last poll, and the next
  poll is ready and leaves nothing registered.
\<close>

theorem sleep_resolves_on_time:
  assumes "timer_inv S L s w" "d = deadline_at (mem w) (entry_at s)" "current_tick w < d"
  shows "\<exists>s1 w1. sleep_poll S L k s w = Some (Pending, s1, w1) \<and> entry_at s \<in> registered_in w1 \<and>
           (\<forall>n k'. current_tick w + n < d \<longrightarrow>
              (\<exists>w2 s3 w3. wheel_tick_n S L n w1 = Some w2 \<and>
                 sleep_poll S L k' s1 w2 = Some (Pending, s3, w3))) \<and>
           (\<exists>w2 fired s3 w3. wheel_tick_n S L (d - current_tick w) w1 = Some w2 \<and>
              woken w2 = woken w @ fired \<and> k \<in> set fired \<and>
              sleep_poll S L k s1 w2 = Some (Ready (), s3, w3) \<and> entry_at s \<notin> registered_in w3)"
proof -
  obtain s1 w1 where w1: "sleep_poll S L k s w = Some (Pending, s1, w1)" "timer_inv S L s1 w1"
      "entry_at s1 = entry_at s" "current_tick w1 = current_tick w" "woken w1 = woken w"
      "deadline_at (mem w1) = deadline_at (mem w)"
      "table_of w1 = table_insert (entry_at s) d (Some k) (table_of w)"
    using sleep_poll_cases(1)[OF assms(1), of k] assms(2,3) by auto
  have d: "d \<le> u64_max" and inv: "wheel_inv S L w1"
    using assms(1,2) w1(2) by (auto simp: timer_inv_def)
  have tab: "table (table_of w1) (entry_at s) = Some (d, Some k)"
    unfolding w1(7) by (simp add: table_insert_def)
  then have reg: "entry_at s \<in> registered_in w1" by (simp add: table_of_def split: if_splits)
  have early: "\<exists>w2 s3 w3. wheel_tick_n S L n w1 = Some w2 \<and>
      sleep_poll S L k' s1 w2 = Some (Pending, s3, w3)" if "current_tick w + n < d" for n k'
    using sleep_pending_before[OF w1(2)] that w1(3,4,6) assms(2) by simp
  let ?n = "d - current_tick w"
  have n: "current_tick w1 + ?n = d" using assms(3) w1(4) by simp
  obtain w2 where w2: "wheel_tick_n S L ?n w1 = Some w2" "timer_inv S L s1 w2"
      "current_tick w2 = d" "deadline_at (mem w2) (entry_at s1) = deadline_at (mem w1) (entry_at s1)"
    using timer_inv_ticks[OF w1(2), of ?n] n d by auto
  obtain fired where fired: "woken w2 = woken w1 @ fired" "set fired =
      {k. 0 < ?n \<and> (\<exists>a da. table (table_of w1) a = Some (da, Some k) \<and> da \<le> current_tick w1 + ?n)}"
    using ticks_table[OF inv, of ?n] n d w2(1) by auto
  have "k \<in> set fired" unfolding fired(2) using tab n assms(3) by auto
  moreover obtain s3 w3 where w3: "sleep_poll S L k s1 w2 = Some (Ready (), s3, w3)"
      "table_of w3 = table_remove (entry_at s1) (table_of w2)" "timer_inv S L s3 w3"
    using sleep_poll_cases(2)[OF w2(2), of k] w2(3,4) w1(3,6) assms(2) by auto
  moreover have "entry_at s \<notin> registered_in w3" using table_removed[OF w3(2)] w1(3) by simp
  ultimately show ?thesis using w1(1,5) reg early w2(1) fired(1) by (metis (no_types, lifting))
qed

lemma demo_sleep:
  assumes "a \<notin> registered_in demo_wheel" "d \<le> u64_max"
  shows "timer_inv 8 4 (fst (sleep_new a d demo_wheel)) (snd (sleep_new a d demo_wheel))"
    "entry_at (fst (sleep_new a d demo_wheel)) = a"
    "deadline_at (mem (snd (sleep_new a d demo_wheel))) a = d"
    "current_tick (snd (sleep_new a d demo_wheel)) = 0"
  using timer_inv_new[OF demo_inv assms, of "fst (sleep_new a d demo_wheel)" "snd (sleep_new a d demo_wheel)"]
  by simp_all

theorem sleep_resolves_on_time_witness:
  "\<exists>s1 w1 w2 fired. sleep_poll 8 4 9 (fst (sleep_new 3 20 demo_wheel)) (snd (sleep_new 3 20 demo_wheel)) =
       Some (Pending, s1, w1) \<and>
     wheel_tick_n 8 4 20 w1 = Some w2 \<and> woken w2 = fired \<and> 9 \<in> set fired"
proof -
  have "3 \<notin> registered_in demo_wheel" by (simp add: demo_unregistered)
  note s = demo_sleep[OF this, of 20]
  have "woken (snd (sleep_new 3 20 demo_wheel)) = []" by (simp add: sleep_new_def)
  then show ?thesis
    using sleep_resolves_on_time[of 8 4 _ _ 20 9, OF s(1)] s(2-4) by (fastforce simp: u64_max_def)
qed

text \<open>
  Dropping a sleep leaves nothing behind.  The drop returns, removes the entry and
  nothing else from the wheel's table, and the memory of the future may then be freed: the
  wheel without that memory is still well-formed, so no later operation meets a dangling
  pointer.
\<close>

theorem sleep_drop_frees:
  assumes "timer_inv S L s w"
  shows "\<exists>w'. sleep_drop s w = Some w' \<and> table_of w' = table_remove (entry_at s) (table_of w) \<and>
           woken w' = woken w \<and> wheel_inv S L (w'\<lparr>mem := (mem w')(entry_at s := None)\<rparr>)"
proof -
  have inv: "wheel_inv S L w" and a: "mem w (entry_at s) \<noteq> None"
    using assms by (auto simp: timer_inv_def)
  then show ?thesis
    using expire_ok[OF inv a] wheel_inv_free unfolding sleep_drop_def by fastforce
qed

theorem sleep_drop_frees_witness:
  "\<exists>w1 s1 w'. sleep_poll 8 4 9 (fst (sleep_new 3 20 demo_wheel)) (snd (sleep_new 3 20 demo_wheel)) =
       Some (Pending, s1, w1) \<and> table (table_of w1) 3 = Some (20, Some 9) \<and>
     sleep_drop s1 w1 = Some w' \<and> table (table_of w') 3 = None"
proof -
  have "3 \<notin> registered_in demo_wheel" by (simp add: demo_unregistered)
  note s = demo_sleep[OF this, of 20]
  obtain s1 w1 where w1: "sleep_poll 8 4 9 (fst (sleep_new 3 20 demo_wheel)) (snd (sleep_new 3 20 demo_wheel)) =
       Some (Pending, s1, w1)" "timer_inv 8 4 s1 w1" "entry_at s1 = 3"
      "table_of w1 = table_insert 3 20 (Some 9) (table_of (snd (sleep_new 3 20 demo_wheel)))"
    using sleep_poll_cases(1)[OF s(1), of 9] s(2-4) by (auto simp: u64_max_def)
  from sleep_drop_frees[OF w1(2)] show ?thesis
    using w1(1,3,4) by (auto simp: table_insert_def table_remove_def)
qed

section \<open>Timeout\<close>

text \<open>
  a timeout resolves with the inner future's value whenever that is ready, otherwise
  with \<open>TimedOut\<close> exactly from the deadline on, and is otherwise pending with its deadline
  registered under the caller's waker; once it resolves its entry is out of the wheel.  The
  poll of the inner future is arbitrary, as long as it returns and leaves the entry of the
  timeout itself alone.
\<close>

theorem timeout_poll_resolves:
  assumes "poll_inner k (future t) w = Some (r, f', w1)" "timer_inv S L t w1"
  shows "\<exists>t2 w2. timeout_poll S L poll_inner k t w =
             Some (case r of Ready v \<Rightarrow> Ready (Inr v)
                   | Pending \<Rightarrow> if deadline_at (mem w1) (entry_at t) \<le> current_tick w1
                               then Ready (Inl Timed_Out) else Pending, t2, w2) \<and>
           future t2 = f' \<and> timer_inv S L t2 w2 \<and>
           table_of w2 = (if r = Pending \<and> current_tick w1 < deadline_at (mem w1) (entry_at t)
              then table_insert (entry_at t) (deadline_at (mem w1) (entry_at t)) (Some k) (table_of w1)
              else table_remove (entry_at t) (table_of w1))"
  using timeout_poll_ok[where poll_inner = poll_inner and k = k and t = t and w = w, OF assms] by blast

theorem timeout_poll_resolves_witness:
  "\<exists>t2 w2. timeout_poll 8 4 (\<lambda>k f w. Some ((Pending :: nat poll), f, w)) 9
       (fst (timeout_new 3 () 20 demo_wheel)) (snd (timeout_new 3 () 20 demo_wheel)) =
       Some (Pending, t2, w2) \<and> table (table_of w2) 3 = Some (20, Some 9)"
proof -
  have "3 \<notin> registered_in demo_wheel" by (simp add: demo_unregistered)
  note s = demo_sleep[OF this, of 20]
  have "timer_inv 8 4 (fst (timeout_new 3 () 20 demo_wheel)) (snd (timeout_new 3 () 20 demo_wheel))"
    using s(1) by (simp add: timer_inv_def timeout_new_def sleep_new_def u64_max_def)
  from timeout_poll_resolves[where poll_inner = "\<lambda>k f w. Some ((Pending :: nat poll), f, w)" and k = 9
      and r = Pending, OF _ this]
  show ?thesis
    using s(3,4) by (fastforce simp: timeout_new_def sleep_new_def table_insert_def u64_max_def)
qed


section \<open>Interval\<close>

lemma next_deadline_cases:
  assumes "0 < p" "d \<le> now" "now + p \<le> u64_max"
  shows "\<exists>d'. next_deadline b d p now = Some d' \<and> d' \<le> now + p \<and> (d = now \<longrightarrow> d' = d + p) \<and>
    (case b of
       Burst \<Rightarrow> d' = d + p
     | Delay \<Rightarrow> d' = now + p
     | Skip \<Rightarrow> now < d' \<and> (d mod p = 0 \<longrightarrow>
         d' mod p = 0 \<and> (\<forall>m. m mod p = 0 \<and> now < m \<longrightarrow> d' \<le> m)))"
proof (cases b)
  case Skip
  let ?al = "now div p * p + p"
  note al = skip_aligned[OF assms(1), of now]
  have nd: "next_deadline b d p now = Some (max ?al (d + p))"
    using le_trans[OF al(3) assms(3)] assms
    by (simp add: Skip saturating_add_u64_def checked_add_u64_def min_absorb1)
  have "d + p \<le> ?al" if grid: "d mod p = 0"
  proof -
    have "d \<le> now div p * p"
      using grid div_le_mono[OF assms(2), of p] by (metis add.right_neutral div_mult_mod_eq mult_le_mono1)
    then show ?thesis by simp
  qed
  then have "max ?al (d + p) mod p = 0 \<and> (\<forall>m. m mod p = 0 \<and> now < m \<longrightarrow> max ?al (d + p) \<le> m)"
    if "d mod p = 0" using that al(2) multiple_gap[of _ p now] assms(1) by (simp add: max_absorb1)
  then show ?thesis using nd Skip al assms(2) by auto
qed (use assms in \<open>simp_all add: saturating_add_u64_def min_absorb1\<close>)



text \<open>
  The Skip policy leaves the grid.  It is documented to move to the first multiple of
  the period strictly after now, but an interval created at a tick that is no multiple keeps
  its own phase: with period 3 and the deadline 4 polled at tick 4, the next deadline is 7,
  not 6 (while a missed tick moves the same interval to the grid, from 4 at tick 8 to 9).
\<close>

theorem skip_not_on_grid:
  "next_deadline Skip 4 3 4 = Some 7 \<and> (6::nat) mod 3 = 0 \<and> (4::nat) < 6 \<and>
   next_deadline Skip 4 3 8 = Some 9"
  by (simp add: arith_defs u64_max_def)

section \<open>The std driver\<close>

text \<open>
  The \<open>sleep\<close> of the std driver can return at once.  It is documented to wait for at least
  the given duration, but the deadline counts from the wheel's clock, which is as old as the
  driver's last iteration (up to 100 ms).  Here the driver has gone to wait for 100 ms at
  time 0; a task asks for 50 ms at time 60; its first poll registers it, which interrupts the
  wait, and the driver's iteration at the same time 60 wakes it: no time has passed and the
  sleep is ready.
\<close>

theorem driver_sleep_returns_early:
  "\<exists>w0 w1 s w2 s1 w3 cap w4 s2 w5. wheel_new 256 4 Map.empty = Some w0 \<and>
     driver_iteration 256 4 0 w0 = Some (100, w1) \<and>
     driver_sleep 0 50 w1 = Some (s, w2) \<and>
     sleep_poll 256 4 k s w2 = Some (Pending, s1, w3) \<and>
     driver_iteration 256 4 60 w3 = Some (cap, w4) \<and> k \<in> set (woken w4) \<and>
     sleep_poll 256 4 k s1 w4 = Some (Ready (), s2, w5)"
proof -
  let ?w0 = "\<lparr>heads = (\<lambda>_ _. None), current_tick = 0, pending = 0, mem = Map.empty, woken = []\<rparr>"
  have new: "wheel_new 256 4 Map.empty = Some ?w0" by (simp add: wheel_new_def)
  have dims: "dims_ok 256 4" by (simp add: dims_ok_def u64_max_def)
  have inv0: "wheel_inv 256 4 ?w0" "registered_in ?w0 = {}"
    using wheel_inv_new(1,2)[OF dims _ new] by simp_all
  have it0: "driver_iteration 256 4 0 ?w0 = Some (100, ?w0)"
    using next_deadline_ok[OF inv0(1)] inv0(2)
    by (auto simp: driver_iteration_def wheel_advance_to.simps[of 256 4 0 ?w0])
  let ?s = "fst (sleep_new 0 50 ?w0)" and ?w2 = "snd (sleep_new 0 50 ?w0)"
  have sl: "driver_sleep 0 50 ?w0 = Some (?s, ?w2)"
    by (simp add: driver_sleep_def ticks_for_def tick_ms_def wheel_now_def checked_add_u64_def u64_max_def)
  have "0 \<notin> registered_in ?w0" using inv0(2) by simp
  note s = timer_inv_new[OF inv0(1) this, of 50 ?s ?w2]
  have s2: "timer_inv 256 4 ?s ?w2" "entry_at ?s = 0" "deadline_at (mem ?w2) 0 = 50" "current_tick ?w2 = 0"
    using s by (simp_all add: u64_max_def)
  obtain s1 w3 where w3: "sleep_poll 256 4 k ?s ?w2 = Some (Pending, s1, w3)" "timer_inv 256 4 s1 w3"
      "entry_at s1 = 0" "current_tick w3 = 0" "deadline_at (mem w3) 0 = 50"
      "table_of w3 = table_insert 0 50 (Some k) (table_of ?w2)"
    using sleep_poll_cases(1)[OF s2(1), of k] s2(2-4) by auto
  have inv3: "wheel_inv 256 4 w3" using w3(2) by (simp add: timer_inv_def)
  have b: "current_tick w3 + 60 \<le> u64_max" using w3(4) by (simp add: u64_max_def)
  obtain w4 where w4: "wheel_tick_n 256 4 60 w3 = Some w4" "timer_inv 256 4 s1 w4"
      "current_tick w4 = 60" "deadline_at (mem w4) 0 = 50"
    using timer_inv_ticks[OF w3(2) b] w3(3-5) by auto
  obtain log where log: "woken w4 = woken w3 @ log" "set log = {k. 0 < (60::nat) \<and>
      (\<exists>a d. table (table_of w3) a = Some (d, Some k) \<and> d \<le> current_tick w3 + 60)}"
    using ticks_table[OF inv3 b] w4(1) by auto
  have adv: "wheel_advance_to 256 4 60 w3 = Some w4"
    using wheel_advance_to_iterate[OF inv3, of 60] w4(1) w3(4)
    by (simp add: wheel_tick_n_iterate u64_max_def)
  have "wheel_inv 256 4 w4" using w4(2) by (simp add: timer_inv_def)
  from next_deadline_ok[OF this] obtain cap where it: "driver_iteration 256 4 60 w3 = Some (cap, w4)"
    using adv by (auto simp: driver_iteration_def)
  have "table (table_of w3) 0 = Some (50, Some k)" unfolding w3(6) by (simp add: table_insert_def)
  then have "k \<in> set log" unfolding log(2) by force
  moreover obtain s2 w5 where "sleep_poll 256 4 k s1 w4 = Some (Ready (), s2, w5)"
    using sleep_poll_cases(2)[OF w4(2), of k] w3(3) w4(3,4) by auto
  ultimately show ?thesis using new it0 sl w3(1) it log(1) by (metis Un_iff set_append)
qed

section \<open>Retry\<close>

text \<open>
  \<open>retry\<close> returns the first success, or the error of the last attempt.  It calls the
  operation at most as often as the policy says (and at least once, even for a policy with
  zero attempts), every call but the last has failed, an error comes back only when all
  attempts are used up, and between consecutive calls it slept the policy's delay.
\<close>

theorem retry_first_success:
  "\<exists>r calls slept. retry n delay op = (r, calls, slept) \<and>
     1 \<le> calls \<and> calls \<le> max n 1 \<and> r = op calls \<and>
     (\<forall>i \<in> {1..<calls}. isl (op i)) \<and> (isl r \<longrightarrow> calls = max n 1) \<and>
     slept = map delay [1..<calls]"
proof -
  obtain r calls slept where r: "retry n delay op = (r, calls, slept)" by (metis prod_cases3)
  note spec = retry_loop_spec[OF r[unfolded retry_def], unfolded append_Nil One_nat_def[symmetric]]
  have "\<forall>i \<in> {1..<calls}. isl (op i)"
  proof
    fix i assume "i \<in> {1..<calls}"
    then have "0 < i" "i < calls" by simp_all
    then show "isl (op i)" using spec by blast
  qed
  moreover have "1 \<le> calls" using spec by linarith
  ultimately show ?thesis using r spec by blast
qed

theorem retry_first_success_witness:
  "\<exists>calls slept. retry 3 id (\<lambda>i. if i = 2 then Inr True else Inl i) = (Inr True, calls, slept) \<and> calls \<le> 3"
proof -
  let ?op = "\<lambda>i::nat. if i = 2 then Inr True else Inl i"
  obtain r calls slept where r: "retry 3 id ?op = (r, calls, slept)" "1 \<le> calls" "calls \<le> max 3 1"
      "r = ?op calls" "\<forall>i \<in> {1..<calls}. isl (?op i)" "isl r \<longrightarrow> calls = max 3 1"
    using retry_first_success[of 3 id ?op] by blast
  have "\<not> isl r"
  proof
    assume "isl r"
    then have "calls = 3" using r(6) by simp
    then have "2 \<in> {1..<calls}" by simp
    from r(5)[rule_format, OF this] show False by simp
  qed
  then have "r = Inr True" using r(4) by (simp split: if_splits)
  then show ?thesis using r(1,3) by auto
qed

end
