(* ===== verification/Retry_Policy.thy ===== *)
theory Retry_Policy
  imports Timer_Futures "HOL-Library.Word"
begin

text \<open>
  The policy of \<open>retry\<close> (\<open>retry.rs\<close>) and its delay curve.  The curve is computed in \<open>f64\<close>, whose rounding
  is not modelled: the operations that the code uses are a parameter, and what is shown holds for any that
  keep a stated law.  Durations are in nanoseconds.
\<close>

section \<open>The policy\<close>

record 'f f64_ops =
  powi_f64 :: "'f \<Rightarrow> int \<Rightarrow> 'f"
  times_f64 :: "'f \<Rightarrow> 'f \<Rightarrow> 'f"
  min_f64 :: "'f \<Rightarrow> 'f \<Rightarrow> 'f"
  max_f64 :: "'f \<Rightarrow> 'f \<Rightarrow> 'f"
  lit_f64 :: "nat \<Rightarrow> 'f"
  as_secs_f64 :: "nat \<Rightarrow> 'f"
  from_secs_f64 :: "'f \<Rightarrow> nat option"

text \<open>\<open>Duration::from_secs_f64\<close> panics, with \<open>None\<close>, on what is no duration.\<close>

record 'f retry_policy =
  max_attempts :: nat
  initial_delay :: nat
  max_delay :: nat
  multiplier :: 'f

definition retry_policy_default :: "'f f64_ops \<Rightarrow> 'f retry_policy" where
  "retry_policy_default F =
     \<lparr>max_attempts = 3, initial_delay = 10 * 10 ^ 6, max_delay = 10 ^ 9, multiplier = lit_f64 F 2\<rparr>"

definition retry_policy_new :: "'f f64_ops \<Rightarrow> nat \<Rightarrow> 'f retry_policy" where
  "retry_policy_new F n = (retry_policy_default F)\<lparr>max_attempts := retry_policy_attempts n\<rparr>"

definition with_initial_delay :: "nat \<Rightarrow> 'f retry_policy \<Rightarrow> 'f retry_policy" where
  "with_initial_delay d p = p\<lparr>initial_delay := d\<rparr>"

definition with_max_delay :: "nat \<Rightarrow> 'f retry_policy \<Rightarrow> 'f retry_policy" where
  "with_max_delay d p = p\<lparr>max_delay := d\<rparr>"

definition with_multiplier :: "'f \<Rightarrow> 'f retry_policy \<Rightarrow> 'f retry_policy" where
  "with_multiplier m p = p\<lparr>multiplier := m\<rparr>"

text \<open>The exponent is a \<open>u32\<close> cast to \<open>i32\<close>.\<close>

definition delay_for :: "'f f64_ops \<Rightarrow> 'f retry_policy \<Rightarrow> nat \<Rightarrow> nat option" where
  "delay_for F p attempt =
     (let factor = powi_f64 F (multiplier p) (sint (word_of_nat (attempt - 1) :: 32 word));
          d = times_f64 F (as_secs_f64 F (initial_delay p)) factor;
          d1 = min_f64 F d (as_secs_f64 F (max_delay p))
      in from_secs_f64 F (max_f64 F d1 (lit_f64 F 0)))"

text \<open>The combinator with the curve of a policy; \<open>None\<close> is the panic of a delay.\<close>

definition retry_with ::
  "'f f64_ops \<Rightarrow> 'f retry_policy \<Rightarrow> (nat \<Rightarrow> 'e + 'a) \<Rightarrow> (('e + 'a) \<times> nat \<times> nat list) option" where
  "retry_with F p op =
     (case retry (max_attempts p) (delay_for F p) op of (r, calls, slept) \<Rightarrow>
        if None \<in> set slept then None else Some (r, calls, map the slept))"

section \<open>What is slept\<close>

lemma retry_delays_from_curve:
  "retry_loop m delay op n slept = (r, calls, slept1) \<Longrightarrow> set slept1 \<subseteq> set slept \<union> range delay"
proof (induction m delay op n slept rule: retry_loop.induct)
  case (1 m delay op n slept)
  show ?case
  proof (cases "\<exists>e. op (n + 1) = Inl e \<and> n + 1 < m")
    case True
    then obtain e where e: "op (n + 1) = Inl e" "\<not> m \<le> n + 1" by auto
    have "retry_loop m delay op (n + 1) (slept @ [delay (n + 1)]) = (r, calls, slept1)"
      using "1.prems" e by (subst (asm) retry_loop.simps) simp
    from "1.IH"[OF e this] show ?thesis by auto
  next
    case False
    then show ?thesis using "1.prems" by (subst (asm) retry_loop.simps) (auto split: sum.splits if_splits)
  qed
qed

text \<open>
  If the conversion of a value that was cut to \<open>[0, max]\<close> gives at most \<open>max\<close>, no delay is longer than the
  policy's maximum, whatever the multiplier.
\<close>

lemma delays_capped:
  assumes "\<And>x d n. from_secs_f64 F (max_f64 F (min_f64 F x (as_secs_f64 F d)) (lit_f64 F 0)) = Some n \<Longrightarrow> n \<le> d"
    and "retry_with F p op = Some (r, calls, slept)"
  shows "\<forall>d \<in> set slept. d \<le> max_delay p"
proof -
  obtain s where s: "retry (max_attempts p) (delay_for F p) op = (r, calls, s)" "None \<notin> set s" "slept = map the s"
    using assms(2) by (auto simp: retry_with_def split: prod.splits if_splits)
  have "set s \<subseteq> range (delay_for F p)" using retry_delays_from_curve[OF s(1)[unfolded retry_def]] by simp
  then have "the x \<le> max_delay p" if "x \<in> set s" for x
    using that s(2) assms(1) by (cases x) (auto simp: delay_for_def Let_def)
  then show ?thesis using s(3) by auto
qed

end
