(* ===== verification/Clocks.thy ===== *)
theory Clocks
  imports Wheel_Properties
begin

text \<open>
  The tick sources of \<open>crates/tpt-async-timer/src/clock.rs\<close> and the loop that they are for: read the
  clock, advance the wheel to the reading.  A clock is read in some environment, which is the time in
  nanoseconds for \<open>StdClock\<close> and the counter of the hardware for \<open>FugitTimer\<close>.
\<close>

section \<open>The clocks\<close>

text \<open>\<open>elapsed()\<close> is zero for a time before the start; \<open>as u64\<close> truncates the \<open>u128\<close> milliseconds.\<close>

definition std_now_ticks :: "nat \<Rightarrow> nat \<Rightarrow> nat" where
  "std_now_ticks start now = (now - start) div 1000000 mod 2 ^ 64"

definition fixed_now_ticks :: "64 word \<Rightarrow> nat" where
  "fixed_now_ticks c = unat c"

text \<open>The instant of a \<open>fugit\<close> timer is a \<open>u32\<close> count of ticks.\<close>

definition fugit_now_ticks :: "32 word \<Rightarrow> nat" where
  "fugit_now_ticks instant = unat instant"

definition ref_now_ticks :: "('c \<Rightarrow> nat) \<Rightarrow> 'c \<Rightarrow> nat" where
  "ref_now_ticks now_ticks c = now_ticks c"

section \<open>Driving the wheel\<close>

text \<open>One iteration per reading.\<close>

fun drive_wheel :: "nat \<Rightarrow> nat \<Rightarrow> nat list \<Rightarrow> wheel \<Rightarrow> wheel option" where
  "drive_wheel S L [] w = Some w"
| "drive_wheel S L (t # ts) w = do { w1 \<leftarrow> wheel_advance_to S L t w; drive_wheel S L ts w1 }"

text \<open>An advance to a reading, which may also be behind the wheel.\<close>

lemma advance_to_reading:
  assumes "wheel_inv S L w" "t \<le> u64_max"
  shows "\<exists>w1. wheel_advance_to S L t w = Some w1 \<and> wheel_inv S L w1 \<and> current_tick w1 = max t (current_tick w) \<and>
    deadline_at (mem w1) = deadline_at (mem w) \<and>
    registered_in w1 = {a \<in> registered_in w. t \<le> current_tick w \<or> t < deadline_at (mem w) a}"
proof (cases "current_tick w < t")
  case True
  then show ?thesis
    using wheel_timers.ticks_ok[OF assms(1), of "t - current_tick w"] assms(2)
      wheel_advance_to_iterate[OF assms] by (auto simp: max_absorb1)
next
  case False
  then show ?thesis using assms(1) by (subst wheel_advance_to.simps) (auto simp: max_absorb2)
qed

lemma drive_wheel_max:
  assumes "wheel_inv S L w" "\<forall>t \<in> set ts. t \<le> u64_max"
  shows "\<exists>w1. drive_wheel S L ts w = Some w1 \<and> wheel_inv S L w1 \<and>
    current_tick w1 = fold max ts (current_tick w) \<and> deadline_at (mem w1) = deadline_at (mem w) \<and>
    registered_in w1 = {a \<in> registered_in w. \<forall>t \<in> set ts. t \<le> current_tick w \<or> t < deadline_at (mem w) a}"
  using assms
proof (induction ts arbitrary: w)
  case (Cons t ts)
  obtain w1 where w1: "wheel_advance_to S L t w = Some w1" "wheel_inv S L w1" "current_tick w1 = max t (current_tick w)"
      "deadline_at (mem w1) = deadline_at (mem w)"
      "registered_in w1 = {a \<in> registered_in w. t \<le> current_tick w \<or> t < deadline_at (mem w) a}"
    using advance_to_reading[OF Cons.prems(1), of t] Cons.prems(2) by auto
  obtain w2 where w2: "drive_wheel S L ts w1 = Some w2" "wheel_inv S L w2" "current_tick w2 = fold max ts (current_tick w1)"
      "deadline_at (mem w2) = deadline_at (mem w1)"
      "registered_in w2 = {a \<in> registered_in w1. \<forall>t \<in> set ts. t \<le> current_tick w1 \<or> t < deadline_at (mem w1) a}"
    using Cons.IH[OF w1(2)] Cons.prems(2) by auto
  have "registered_in w2 =
      {a \<in> registered_in w. \<forall>t \<in> set (t # ts). t \<le> current_tick w \<or> t < deadline_at (mem w) a}"
    unfolding w2(5) w1(3,4,5) by (auto simp: max_def split: if_splits)
  then show ?case using w1(1,3,4) w2 by simp
qed auto

lemma fold_max_start: "a \<le> fold max ts (a :: nat)"
  by (induction ts arbitrary: a) (auto intro: le_trans[OF max.cobounded2])

lemma fold_max_ge: "t \<in> set ts \<Longrightarrow> t \<le> fold max ts (a :: nat)"
  by (induction ts arbitrary: a) (auto intro: le_trans[OF max.cobounded1 fold_max_start])

section \<open>Monotone clocks\<close>

locale monotone_clock =
  fixes now_ticks :: "'env \<Rightarrow> nat"
    and later :: "'env \<Rightarrow> 'env \<Rightarrow> bool"
  assumes later_trans: "later a b \<Longrightarrow> later b c \<Longrightarrow> later a c"
    and reads_later: "later a b \<Longrightarrow> now_ticks a \<le> now_ticks b"
    and reads_u64: "now_ticks a \<le> u64_max"
begin

lemma fold_max_readings:
  "sorted_wrt later (e # es) \<Longrightarrow> fold max (map now_ticks (e # es)) 0 = now_ticks (last (e # es))"
proof (induction es rule: rev_induct)
  case (snoc x es)
  have "later (last (e # es)) x" using snoc.prems by (cases es rule: rev_cases) (auto simp: sorted_wrt_append)
  moreover have "sorted_wrt later (e # es)" using snoc.prems by (auto simp: sorted_wrt_append)
  ultimately show ?case using snoc.IH reads_later by (simp add: max_absorb1)
qed simp

text \<open>
  After any number of readings the wheel is at the last one, what is due has fired, and nothing else.
\<close>

lemma drive_to_last:
  assumes "wheel_inv S L w" "current_tick w \<le> now_ticks e" "sorted_wrt later (e # es)"
  shows "\<exists>w1. drive_wheel S L (map now_ticks (e # es)) w = Some w1 \<and> wheel_inv S L w1 \<and>
    current_tick w1 = now_ticks (last (e # es)) \<and>
    registered_in w1 = {a \<in> registered_in w. now_ticks (last (e # es)) \<le> current_tick w \<or>
      now_ticks (last (e # es)) < deadline_at (mem w) a}"
proof -
  let ?ts = "map now_ticks (e # es)" and ?l = "now_ticks (last (e # es))"
  have "\<forall>t \<in> set ?ts. t \<le> u64_max" using reads_u64 by auto
  from drive_wheel_max[OF assms(1) this] obtain w1 where w1: "drive_wheel S L ?ts w = Some w1" "wheel_inv S L w1"
      "current_tick w1 = fold max ?ts (current_tick w)"
      "registered_in w1 = {a \<in> registered_in w. \<forall>t \<in> set ?ts. t \<le> current_tick w \<or> t < deadline_at (mem w) a}"
    by blast
  have top: "t \<le> ?l" if "t \<in> set ?ts" for t
    using fold_max_ge[OF that, of 0] fold_max_readings[OF assms(3)] by simp
  have last: "?l \<in> set ?ts" by simp
  have "fold max ?ts (current_tick w) = ?l"
    using fold_max_readings[OF assms(3)] assms(2) by (simp add: max_absorb1)
  moreover have "(\<forall>t \<in> set ?ts. t \<le> current_tick w \<or> t < deadline_at (mem w) a) \<longleftrightarrow>
      ?l \<le> current_tick w \<or> ?l < deadline_at (mem w) a" for a
    using top last by (meson le_trans le_less_trans)
  ultimately show ?thesis using w1 by auto
qed

end

text \<open>\<open>StdClock\<close> is one for 584 million years.\<close>

definition std_later :: "nat \<Rightarrow> nat \<Rightarrow> nat \<Rightarrow> bool" where
  "std_later start a b \<longleftrightarrow> a \<le> b \<and> (b - start) div 1000000 \<le> u64_max"

interpretation std_clock: monotone_clock "std_now_ticks start" "std_later start" for start
proof
  fix a b c
  show "std_later start a b \<Longrightarrow> std_later start b c \<Longrightarrow> std_later start a c" by (simp add: std_later_def)
  show "std_now_ticks start a \<le> u64_max"
    using mod_less_divisor[of "2 ^ 64" "(a - start) div 1000000"] by (simp add: std_now_ticks_def u64_max_def)
  show "std_now_ticks start a \<le> std_now_ticks start b" if "std_later start a b"
  proof -
    have le: "(a - start) div 1000000 \<le> (b - start) div 1000000"
      using that by (intro div_le_mono diff_le_mono) (simp add: std_later_def)
    moreover have "(b - start) div 1000000 < 2 ^ 64" using that by (simp add: std_later_def u64_max_def)
    ultimately show ?thesis by (simp add: std_now_ticks_def)
  qed
qed

text \<open>A \<open>fugit\<close> timer is one between two wraps of its counter.\<close>

interpretation fugit_clock: monotone_clock fugit_now_ticks "(\<le>)"
proof
  fix a b c :: "32 word"
  show "a \<le> b \<Longrightarrow> b \<le> c \<Longrightarrow> a \<le> c" by (rule order_trans)
  show "a \<le> b \<Longrightarrow> fugit_now_ticks a \<le> fugit_now_ticks b" by (simp add: fugit_now_ticks_def word_le_nat_alt)
  show "fugit_now_ticks a \<le> u64_max" using unsigned_less[of a, where ?'a = nat] by (simp add: fugit_now_ticks_def u64_max_def)
qed

section \<open>What becomes of a counter that wraps\<close>

text \<open>
  Whatever a \<open>FugitTimer\<close> reads, for however long, the wheel never gets past \<open>2 ^ 32 - 1\<close>, and a timer that
  is due later never fires: once the counter has wrapped, its readings are behind the wheel.
\<close>

lemma fugit_never_past_wrap:
  assumes "wheel_inv S L w" "current_tick w < 2 ^ 32" "a \<in> registered_in w" "2 ^ 32 \<le> deadline_at (mem w) a"
  shows "\<exists>w1. drive_wheel S L (map fugit_now_ticks cs) w = Some w1 \<and> current_tick w1 < 2 ^ 32 \<and> a \<in> registered_in w1"
proof -
  have lt: "fugit_now_ticks c < 2 ^ 32" for c using unsigned_less[of c] by (simp add: fugit_now_ticks_def)
  have below: "fold max (map fugit_now_ticks cs) t < 2 ^ 32" if "t < 2 ^ 32" for t
    using that lt by (induction cs arbitrary: t) auto
  have "\<forall>t \<in> set (map fugit_now_ticks cs). t \<le> u64_max" using fugit_clock.reads_u64 by auto
  from drive_wheel_max[OF assms(1) this] obtain w1 where
    w1: "drive_wheel S L (map fugit_now_ticks cs) w = Some w1" "current_tick w1 = fold max (map fugit_now_ticks cs) (current_tick w)"
      "registered_in w1 = {a \<in> registered_in w. \<forall>t \<in> set (map fugit_now_ticks cs).
         t \<le> current_tick w \<or> t < deadline_at (mem w) a}" by blast
  have "t < deadline_at (mem w) a" if "t \<in> set (map fugit_now_ticks cs)" for t
    using that lt assms(4) by (auto intro: less_le_trans)
  then show ?thesis using w1 below[OF assms(2)] assms(3) by auto
qed

section \<open>Property\<close>

text \<open>
  C37: A wheel that is advanced to the readings of a \<open>StdClock\<close>, at whatever times they are taken, is at the
  last reading afterwards, and a registered timer has fired exactly if its deadline, in milliseconds since
  the start of the clock, had come by then.
\<close>
theorem clock_fires_due:
  assumes "wheel_inv S L w" "a \<in> registered_in w" "current_tick w < (e - start) div 1000000"
    and "sorted_wrt (std_later start) (e # es)"
    and "(e - start) div 1000000 \<le> u64_max"
  shows "\<exists>w1. drive_wheel S L (map (std_now_ticks start) (e # es)) w = Some w1 \<and>
    wheel_now w1 = (last (e # es) - start) div 1000000 \<and>
    (a \<in> registered_in w1 \<longleftrightarrow> (last (e # es) - start) div 1000000 < deadline_at (mem w) a)"
proof -
  have reads: "std_now_ticks start x = (x - start) div 1000000" if "x \<in> set (e # es)" for x
    using that assms(4,5) by (auto simp: std_now_ticks_def std_later_def u64_max_def)
  have last: "last (e # es) \<in> set (e # es)" by (rule last_in_set) simp
  have "std_now_ticks start e \<le> std_now_ticks start (last (e # es))"
    using assms(4) std_clock.reads_later by (cases es rule: rev_cases) auto
  then have l: "current_tick w < std_now_ticks start (last (e # es))" using assms(3) reads[of e] by simp
  have "current_tick w \<le> std_now_ticks start e" using assms(3) reads[of e] by simp
  from std_clock.drive_to_last[OF assms(1) this assms(4)] show ?thesis
    using l assms(2) reads[OF last] by (auto simp: wheel_now_def)
qed

theorem clock_fires_due_witness:
  "\<exists>w0 w1. inner_insert 8 4 0 demo_wheel = Some w0 \<and>
     drive_wheel 8 4 (map (std_now_ticks 500) [7000000, 19000000, 20000499]) w0 = Some w1 \<and>
     wheel_now w1 = 19 \<and> 0 \<in> registered_in w1"
proof -
  have un: "\<not> is_registered ((timer_entry_new 20)\<lparr>waker := Some 5\<rparr>)"
    by (rule demo_mem_unregistered[OF demo_mem_0])
  obtain w0 where w0: "inner_insert 8 4 0 demo_wheel = Some w0" "wheel_inv 8 4 w0" "0 \<in> registered_in w0"
      "current_tick w0 = 0" "payload (mem w0) = payload (mem demo_wheel)"
    using insert_ok[OF demo_inv _ _ un, of 0] by (auto simp: u64_max_def demo_mem_0)
  have d: "deadline_at (mem w0) 0 = 20"
    using payload_deadline_at[OF w0(5)] by (simp add: deadline_at_def demo_mem_0 timer_entry_new_def)
  from clock_fires_due[OF w0(2,3), of 7000000 500 "[19000000, 20000499]"] show ?thesis
    using w0(1,4) d by (auto simp: std_later_def u64_max_def)
qed

end
