(* ===== verification/Superloop.thy ===== *)
theory Superloop
  imports Timer_Futures
begin

text \<open>
  The wheel without an executor: the super-loop of \<open>examples/embedded/src/main.rs\<close>, which ticks the wheel
  once a millisecond and polls two \<open>Sleep\<close> futures by hand, re-arming each when it is ready.
\<close>

section \<open>Two timers on one wheel\<close>

text \<open>A poll or a reset of one future leaves another one's entry alone.\<close>

lemma poll_deadline_allocated:
  assumes "timer_inv S L s w" "poll_deadline S L k s w = Some (r, s1, w1)"
  shows "(mem w1 b = None) = (mem w b = None)"
proof -
  obtain e where e: "wheel_inv S L w" "mem w (entry_at s) = Some e" "deadline e \<le> u64_max"
      "is_registered e = (entry_at s \<in> registered_in w)" "entry_at s \<in> registered_in w \<Longrightarrow> registered_flag s"
    using timer_invE[OF assms(1)] by metis
  show ?thesis
  proof (cases "deadline e \<le> current_tick w")
    case True
    have "payload (mem w1) = payload (mem w)"
      using expire_ok[OF e(1)] assms(2) e(2) True by (fastforce simp: poll_deadline_def)
    then show ?thesis by (rule payload_dom)
  next
    case False
    let ?w = "store_waker k (entry_at s) e w" and ?e = "e\<lparr>waker := Some k\<rparr>"
    note sw = store_waker_ok[OF e(1,2), of k]
    have m: "(mem ?w b = None) = (mem w b = None)" using e(2) by (simp add: sw(5))
    show ?thesis
    proof (cases "registered_flag s")
      case True
      then have "w1 = ?w" using assms(2) e(2) False by (auto simp: poll_deadline_def)
      then show ?thesis using m by simp
    next
      case flag: False
      have "mem ?w (entry_at s) = Some ?e" "\<not> is_registered ?e" "current_tick ?w < u64_max"
        using e flag False by (auto simp: sw is_registered_def)
      then have "payload (mem w1) = payload (mem ?w)"
        using insert_ok[OF sw(1), of "entry_at s" ?e] assms(2) e(2) False flag by (fastforce simp: poll_deadline_def)
      then show ?thesis using payload_dom m by metis
    qed
  qed
qed

lemma poll_keeps_other:
  assumes "timer_inv S L s w" "timer_inv S L s2 w" "entry_at s2 \<noteq> entry_at s"
    and "poll_deadline S L k s w = Some (r, s1, w1)"
  shows "timer_inv S L s2 w1 \<and> deadline_at (mem w1) = deadline_at (mem w) \<and> current_tick w1 = current_tick w"
proof -
  let ?d = "deadline_at (mem w) (entry_at s)"
  have w1: "timer_inv S L s1 w1" "deadline_at (mem w1) = deadline_at (mem w)"
    "table_of w1 = (if ?d \<le> current_tick w then table_remove (entry_at s) (table_of w)
       else table_insert (entry_at s) ?d (Some k) (table_of w))"
    using poll_deadline_ok[OF assms(1), of k] assms(4) by auto
  have t: "current_tick w1 = current_tick w"
    using w1(3) by (metis clock_table_of table_insert_def table_remove_def timer_table.select_convs(1)
        timer_table.surjective timer_table.update_convs(2))
  have "(entry_at s2 \<in> registered_in w1) = (entry_at s2 \<in> registered_in w)"
    using assms(3) unfolding registered_in_table w1(3) by (auto simp: table_remove_def table_insert_def)
  then show ?thesis
    using assms(2) w1 t poll_deadline_allocated[OF assms(1,4), of "entry_at s2"] by (simp add: timer_inv_def)
qed

lemma reset_keeps_other:
  assumes "wheel_inv S L w" "mem w (entry_at s) \<noteq> None" "timer_inv S L s2 w" "entry_at s2 \<noteq> entry_at s"
    and "sleep_reset d s w = Some (s1, w1)"
  shows "timer_inv S L s2 w1 \<and> deadline_at (mem w1) (entry_at s2) = deadline_at (mem w) (entry_at s2)"
proof -
  obtain e where e: "mem w (entry_at s) = Some e" using assms(2) by auto
  obtain w2 where w2: "inner_remove (entry_at s) w = Some w2" "wheel_inv S L w2"
      "registered_in w2 = registered_in w - {entry_at s}" "current_tick w2 = current_tick w"
      "payload (mem w2) = payload (mem w)"
    using remove_ok[OF assms(1) e] by blast
  have w1: "w1 = put_entry (entry_at s) (timer_entry_new d) w2" using assms(5) w2(1) by (simp add: sleep_reset_def)
  have un: "\<not> is_registered (timer_entry_new d)" by (simp add: timer_entry_new_def is_registered_def)
  have "entry_at s \<notin> registered_in w2" using w2(3) by blast
  note ok = put_entry_ok[OF w2(2) this un]
  have m: "mem w1 (entry_at s2) = mem w2 (entry_at s2)" using assms(4) by (simp add: w1)
  then have d: "deadline_at (mem w1) (entry_at s2) = deadline_at (mem w) (entry_at s2)"
    using payload_deadline_at[OF w2(5)] unfolding deadline_at_def fun_eq_iff by simp
  have "(mem w1 (entry_at s2) = None) = (mem w (entry_at s2) = None)" using m payload_dom[OF w2(5)] by simp
  then show ?thesis using assms(3,4) d ok w2(3,4) unfolding timer_inv_def w1 by auto
qed

section \<open>The loop\<close>

text \<open>
  A wheel of 32 slots and 4 levels, the two futures pinned in the frame of \<open>main\<close>, and the counter of
  \<open>board_toggle\<close>, a \<open>u32\<close> that wraps.  The waker is the no-op one.
\<close>

record superloop =
  sl_wheel :: wheel
  fast :: sleep
  slow :: sleep
  count :: "32 word"

definition idle_waker :: waker where
  "idle_waker = 0"

definition board_toggle :: "32 word \<Rightarrow> 32 word" where
  "board_toggle c = c + 1"

definition superloop_start :: "superloop option" where
  "superloop_start = do {
     w \<leftarrow> wheel_new 32 4 Map.empty;
     d1 \<leftarrow> checked_add_u64 (wheel_now w) 100;
     let (f, w1) = sleep_new 0 d1 w;
     d2 \<leftarrow> checked_add_u64 (wheel_now w1) 500;
     let (s, w2) = sleep_new 1 d2 w1;
     Some \<lparr>sl_wheel = w2, fast = f, slow = s, count = 0\<rparr> }"

text \<open>One \<open>if\<close> of the loop: the poll, and the reset when it is ready.\<close>

definition beat :: "nat \<Rightarrow> sleep \<Rightarrow> wheel \<Rightarrow> (bool \<times> sleep \<times> wheel) option" where
  "beat every s w = do {
     (r, s1, w1) \<leftarrow> sleep_poll 32 4 idle_waker s w;
     case r of
       Pending \<Rightarrow> Some (False, s1, w1)
     | Ready _ \<Rightarrow> do {
         d \<leftarrow> checked_add_u64 (wheel_now w1) every;
         (s2, w2) \<leftarrow> sleep_reset d s1 w1;
         Some (True, s2, w2) } }"

definition superloop_turn :: "superloop \<Rightarrow> superloop option" where
  "superloop_turn r = do {
     w \<leftarrow> wheel_tick 32 4 (sl_wheel r);
     (b1, f, w1) \<leftarrow> beat 100 (fast r) w;
     let c = (if b1 then board_toggle (count r) else count r);
     (b2, s, w2) \<leftarrow> beat 500 (slow r) w1;
     Some \<lparr>sl_wheel = w2, fast = f, slow = s, count = (if b2 then board_toggle (board_toggle c) else c)\<rparr> }"

section \<open>Lemmas\<close>

lemma beat_ok:
  assumes s: "timer_inv 32 4 s w" and o2: "timer_inv 32 4 s2 w" "entry_at s2 \<noteq> entry_at s"
    and p: "current_tick w + every \<le> u64_max"
  defines "d \<equiv> deadline_at (mem w) (entry_at s)"
  shows "\<exists>s1 w1. beat every s w = Some (d \<le> current_tick w, s1, w1) \<and> timer_inv 32 4 s1 w1 \<and>
    entry_at s1 = entry_at s \<and> current_tick w1 = current_tick w \<and>
    deadline_at (mem w1) (entry_at s) = (if d \<le> current_tick w then current_tick w + every else d) \<and>
    timer_inv 32 4 s2 w1 \<and> deadline_at (mem w1) (entry_at s2) = deadline_at (mem w) (entry_at s2)"
proof -
  let ?f = "\<not> d \<le> current_tick w"
  obtain w1 where w1: "poll_deadline 32 4 idle_waker s w =
      Some (if d \<le> current_tick w then Ready () else Pending, s\<lparr>registered_flag := ?f\<rparr>, w1)"
      "timer_inv 32 4 (s\<lparr>registered_flag := ?f\<rparr>) w1"
    using poll_deadline_ok[OF s, of idle_waker] unfolding d_def by blast
  have ot: "timer_inv 32 4 s2 w1" "deadline_at (mem w1) = deadline_at (mem w)" "current_tick w1 = current_tick w"
    using poll_keeps_other[OF s o2 w1(1)] by blast+
  show ?thesis
  proof (cases "d \<le> current_tick w")
    case False
    then show ?thesis using w1 ot by (simp add: beat_def sleep_poll_def d_def)
  next
    case True
    let ?s = "s\<lparr>registered_flag := False\<rparr>"
    have inv: "timer_inv 32 4 ?s w1" using w1(2) True by simp
    then have i: "wheel_inv 32 4 w1" "mem w1 (entry_at ?s) \<noteq> None" by (simp_all add: timer_inv_def)
    obtain w2 where w2: "sleep_reset (current_tick w1 + every) ?s w1 = Some (?s\<lparr>registered_flag := False\<rparr>, w2)"
        "timer_inv 32 4 (?s\<lparr>registered_flag := False\<rparr>) w2" "current_tick w2 = current_tick w1"
        "deadline_at (mem w2) (entry_at ?s) = current_tick w1 + every"
      using reset_ok[OF i, of "current_tick w1 + every"] p ot(3) by auto
    have "timer_inv 32 4 s2 w2 \<and> deadline_at (mem w2) (entry_at s2) = deadline_at (mem w1) (entry_at s2)"
      using reset_keeps_other[OF i ot(1) _ w2(1)] o2(2) by simp
    moreover have "beat every s w = Some (True, ?s, w2)"
      using w1(1) w2(1) True p ot(3) by (simp add: beat_def sleep_poll_def wheel_now_def checked_add_u64_def)
    ultimately show ?thesis using True w2 ot by simp
  qed
qed

definition superloop_inv :: "nat \<Rightarrow> superloop \<Rightarrow> bool" where
  "superloop_inv n r \<longleftrightarrow>
     timer_inv 32 4 (fast r) (sl_wheel r) \<and> timer_inv 32 4 (slow r) (sl_wheel r) \<and>
     entry_at (fast r) = 0 \<and> entry_at (slow r) = 1 \<and> current_tick (sl_wheel r) = n \<and>
     deadline_at (mem (sl_wheel r)) 0 = 100 * (n div 100 + 1) \<and>
     deadline_at (mem (sl_wheel r)) 1 = 500 * (n div 500 + 1) \<and>
     count r = of_nat (n div 100 + 2 * (n div 500))"

lemma superloop_started: "\<exists>r. superloop_start = Some r \<and> superloop_inv 0 r"
proof -
  obtain w where w: "wheel_new 32 4 Map.empty = Some w" by (simp add: wheel_new_def)
  have "dims_ok 32 4" by (simp add: dims_ok_def u64_max_def)
  note n = wheel_inv_new[OF this _ w]
  have inv: "wheel_inv 32 4 w" "registered_in w = {}" "current_tick w = 0" using n by simp_all
  obtain f w1 where f: "sleep_new 0 100 w = (f, w1)" by fastforce
  note f1 = timer_inv_new[OF inv(1) _ _ f]
  obtain s w2 where s: "sleep_new 1 500 w1 = (s, w2)" by fastforce
  have i1: "wheel_inv 32 4 w1" "registered_in w1 = {}" using f1 inv(2) by (simp_all add: timer_inv_def u64_max_def)
  note s1 = timer_inv_new[OF i1(1) _ _ s]
  have m: "mem w2 0 = mem w1 0" using s by (auto simp: sleep_new_def)
  have "timer_inv 32 4 f w2"
    using f1 s1 m inv(2) i1(2) by (simp add: timer_inv_def deadline_at_def u64_max_def)
  moreover have "deadline_at (mem w2) 0 = 100" using f1(3) m inv(2) by (simp add: deadline_at_def u64_max_def)
  ultimately show ?thesis
    using f1 s1 w f s inv i1(2)
    by (simp add: superloop_start_def superloop_inv_def wheel_now_def checked_add_u64_def u64_max_def)
qed

lemma superloop_turn_ok:
  assumes "superloop_inv n r" "n + 501 \<le> u64_max"
  shows "\<exists>r1. superloop_turn r = Some r1 \<and> superloop_inv (Suc n) r1"
proof -
  let ?w = "sl_wheel r"
  have inv: "timer_inv 32 4 (fast r) ?w" "timer_inv 32 4 (slow r) ?w" "entry_at (fast r) = 0" "entry_at (slow r) = 1"
    "current_tick ?w = n" "deadline_at (mem ?w) 0 = 100 * (n div 100 + 1)"
    "deadline_at (mem ?w) 1 = 500 * (n div 500 + 1)" "count r = of_nat (n div 100 + 2 * (n div 500))"
    using assms(1) by (simp_all add: superloop_inv_def)
  obtain w where w: "wheel_tick_n 32 4 1 ?w = Some w" "timer_inv 32 4 (fast r) w" "current_tick w = Suc n"
      "deadline_at (mem w) 0 = 100 * (n div 100 + 1)"
    using timer_inv_ticks[OF inv(1), of 1] inv(3,5,6) assms(2) by auto
  then have w': "timer_inv 32 4 (slow r) w" "deadline_at (mem w) 1 = 500 * (n div 500 + 1)"
    using timer_inv_ticks[OF inv(2), of 1] inv(4,5,7) assms(2) by auto
  have t: "wheel_tick 32 4 ?w = Some w" using w(1) by (auto simp: wheel_tick_def split: Option.bind_splits)
  obtain f w1 where f: "beat 100 (fast r) w = Some (100 * (n div 100 + 1) \<le> Suc n, f, w1)" "timer_inv 32 4 f w1"
      "entry_at f = 0" "current_tick w1 = Suc n"
      "deadline_at (mem w1) 0 = (if 100 * (n div 100 + 1) \<le> Suc n then Suc n + 100 else 100 * (n div 100 + 1))"
      "timer_inv 32 4 (slow r) w1" "deadline_at (mem w1) 1 = 500 * (n div 500 + 1)"
    using beat_ok[OF w(2) w'(1), of 100] inv(3,4) w w' assms(2) by auto
  obtain s w2 where s: "beat 500 (slow r) w1 = Some (500 * (n div 500 + 1) \<le> Suc n, s, w2)" "timer_inv 32 4 s w2"
      "entry_at s = 1" "current_tick w2 = Suc n"
      "deadline_at (mem w2) 1 = (if 500 * (n div 500 + 1) \<le> Suc n then Suc n + 500 else 500 * (n div 500 + 1))"
      "timer_inv 32 4 f w2" "deadline_at (mem w2) 0 = deadline_at (mem w1) 0"
    using beat_ok[OF f(6) f(2), of 500] inv(4) f assms(2) by auto
  have beat: "(p * (n div p + 1) \<le> Suc n) = (Suc n mod p = 0)" "Suc n div p = (if Suc n mod p = 0 then n div p + 1 else n div p)"
      "Suc n mod p = 0 \<Longrightarrow> Suc n = p * (n div p + 1)" if "0 < p" for p
  proof -
    show d: "Suc n div p = (if Suc n mod p = 0 then n div p + 1 else n div p)" by (simp add: div_Suc)
    have "n < p * (n div p + 1)" using that by (simp add: dividend_less_times_div)
    moreover show "Suc n = p * (n div p + 1)" if "Suc n mod p = 0"
      using d that by (metis add.right_neutral mult_div_mod_eq)
    ultimately show "(p * (n div p + 1) \<le> Suc n) = (Suc n mod p = 0)"
      by (metis Suc_leI dual_order.antisym le_refl mod_mult_self1_is_0)
  qed
  note b1 = beat[of 100] and b2 = beat[of 500]
  have d1: "deadline_at (mem w1) 0 = 100 * (Suc n div 100 + 1)" using f(5) b1 by (simp split: if_splits)
  have d2: "deadline_at (mem w2) 1 = 500 * (Suc n div 500 + 1)" using s(5) b2 by (simp split: if_splits)
  have c: "(if Suc n mod 500 = 0 then board_toggle (board_toggle c) else c) = of_nat (Suc n div 100 + 2 * (Suc n div 500))"
    if "c = (if Suc n mod 100 = 0 then board_toggle (count r) else count r)" for c
    using b1(2) b2(2) inv(8) that by (simp add: board_toggle_def)
  let ?r1 = "\<lparr>sl_wheel = w2, fast = f, slow = s, count = of_nat (Suc n div 100 + 2 * (Suc n div 500))\<rparr>"
  have "superloop_turn r = Some ?r1"
    using t f(1) s(1) b1(1) b2(1) c by (simp add: superloop_turn_def Let_def)
  moreover have "superloop_inv (Suc n) ?r1"
    using f s d1 d2 by (simp add: superloop_inv_def)
  ultimately show ?thesis by blast
qed

lemma superloop_turns:
  assumes "superloop_inv k r" "k + n + 500 \<le> u64_max"
  shows "\<exists>r1. iterate_opt n superloop_turn r = Some r1 \<and> superloop_inv (k + n) r1"
  using assms
proof (induction n arbitrary: k r)
  case (Suc n)
  obtain r1 where r1: "superloop_turn r = Some r1" "superloop_inv (Suc k) r1"
    using superloop_turn_ok[OF Suc.prems(1)] Suc.prems(2) by auto
  then show ?case using Suc.IH[OF r1(2)] Suc.prems(2) by simp
qed simp

section \<open>Property\<close>

text \<open>
  C12: The embedded heartbeat keeps time.  After \<open>n\<close> turns of the loop, as long as the clock has room, it
  has not panicked and the counter shows one beat for every 100 turns and two for every 500, modulo
  \<open>2 ^ 32\<close>: both timers fire at each of their deadlines, none early, late or twice, although they share
  the wheel, cascade through its levels, and are taken out and put back from inside the loop.
\<close>
theorem heartbeat_keeps_time:
  assumes "n + 500 \<le> u64_max"
  shows "\<exists>r0 r. superloop_start = Some r0 \<and> iterate_opt n superloop_turn r0 = Some r \<and>
    wheel_now (sl_wheel r) = n \<and> count r = of_nat (n div 100 + 2 * (n div 500))"
proof -
  obtain r0 where r0: "superloop_start = Some r0" "superloop_inv 0 r0" using superloop_started by blast
  then show ?thesis
    using superloop_turns[OF r0(2), of n] assms by (auto simp: superloop_inv_def wheel_now_def)
qed

theorem heartbeat_keeps_time_witness:
  "\<exists>r0 r. superloop_start = Some r0 \<and> iterate_opt 1234567 superloop_turn r0 = Some r \<and> count r = 17283"
  using heartbeat_keeps_time[of 1234567] by (auto simp: u64_max_def)

end
