(* ===== verification/Bytes.thy ===== *)
theory Bytes
  imports Prelude
begin

unbundle bit_operations_syntax

text \<open>
  Byte sequences as the network code handles them: a \<open>u8\<close> is a word of eight bits, a slice
  or a \<open>Vec<u8>\<close> is a list of bytes, a Rust \<open>String\<close> is the list of its UTF-8 bytes.  A slice
  \<open>&buf[i..j]\<close> is \<open>take (j - i) (drop i buf)\<close>, used only where the code has checked the
  bounds.
\<close>

type_synonym byte = "8 word"

section \<open>Big-endian integers\<close>

text \<open>\<open>to_be_bytes\<close> of an \<open>n\<close>-byte integer, and \<open>from_be_bytes\<close>.\<close>

primrec to_be_bytes :: "nat \<Rightarrow> nat \<Rightarrow> byte list" where
  "to_be_bytes 0 v = []"
| "to_be_bytes (Suc n) v = to_be_bytes n (v div 256) @ [word_of_nat v]"

definition from_be_bytes :: "byte list \<Rightarrow> nat" where
  "from_be_bytes bs = foldl (\<lambda>acc b. acc * 256 + unat b) 0 bs"

lemma length_to_be_bytes [simp]: "length (to_be_bytes n v) = n"
  by (induction n arbitrary: v) auto

lemma from_be_bytes_snoc: "from_be_bytes (bs @ [b]) = from_be_bytes bs * 256 + unat b"
  by (simp add: from_be_bytes_def)

lemma from_to_be_bytes: "v < 256 ^ n \<Longrightarrow> from_be_bytes (to_be_bytes n v) = v"
proof (induction n arbitrary: v)
  case (Suc n)
  then have "v div 256 < 256 ^ n" by (simp add: less_mult_imp_div_less mult.commute)
  then show ?case
    using Suc.IH[of "v div 256"]
    by (simp add: from_be_bytes_snoc unat_of_nat)
qed (simp add: from_be_bytes_def)

lemma from_be_bytes_bound: "from_be_bytes bs < 256 ^ length bs"
proof (induction bs rule: rev_induct)
  case (snoc b bs)
  have "unat b < 256" using unsigned_less[of b, where ?'a = nat] by simp
  then have "from_be_bytes bs * 256 + unat b < Suc (from_be_bytes bs) * 256" by simp
  also have "\<dots> \<le> 256 ^ length bs * 256" using snoc by (intro mult_le_mono1) simp
  finally show ?case by (simp add: from_be_bytes_snoc mult.commute)
qed (simp add: from_be_bytes_def)

lemma to_be_bytes_2: "to_be_bytes 2 v = [word_of_nat (v div 256), word_of_nat v]"
  by (simp add: numeral_2_eq_2)

lemma to_from_be_bytes: "to_be_bytes (length bs) (from_be_bytes bs) = bs"
proof (induction bs rule: rev_induct)
  case (snoc b bs)
  let ?v = "from_be_bytes bs * 256 + unat b"
  have "unat b < 256" using unsigned_less[of b, where ?'a = nat] by simp
  then have "?v div 256 = from_be_bytes bs" by simp
  moreover have "(word_of_nat ?v :: byte) = word_of_nat (from_be_bytes bs) * 256 + b" by simp
  moreover have "word_of_nat (from_be_bytes bs) * (256::byte) = word_of_nat (from_be_bytes bs) * 0"
    by (rule arg_cong) simp
  ultimately show ?case using snoc by (simp add: from_be_bytes_snoc)
qed simp

section \<open>ASCII\<close>

text \<open>A byte-string literal.\<close>

definition ascii :: "string \<Rightarrow> byte list" where
  "ascii s = map of_char s"

definition crlf :: "byte list" where
  "crlf = [13, 10]"

text \<open>\<open>u8::to_ascii_lowercase\<close> and \<open>eq_ignore_ascii_case\<close>.\<close>

definition to_ascii_lowercase :: "byte \<Rightarrow> byte" where
  "to_ascii_lowercase b = (if 65 \<le> b \<and> b \<le> 90 then b + 32 else b)"

definition eq_ignore_ascii_case :: "byte list \<Rightarrow> byte list \<Rightarrow> bool" where
  "eq_ignore_ascii_case xs ys \<longleftrightarrow> map to_ascii_lowercase xs = map to_ascii_lowercase ys"

lemma eq_ignore_ascii_case_refl [simp]: "eq_ignore_ascii_case xs xs"
  by (simp add: eq_ignore_ascii_case_def)

section \<open>UTF-8\<close>

text \<open>\<open>core::str::from_utf8\<close>: which byte sequences are well-formed UTF-8.\<close>

definition utf8_cont :: "byte \<Rightarrow> bool" where
  "utf8_cont b \<longleftrightarrow> 0x80 \<le> b \<and> b \<le> 0xBF"

fun utf8_valid :: "byte list \<Rightarrow> bool" where
  "utf8_valid [] = True"
| "utf8_valid (a # r) =
     (if a \<le> 0x7F then utf8_valid r
      else if 0xC2 \<le> a \<and> a \<le> 0xDF then
        (case r of b # r1 \<Rightarrow> utf8_cont b \<and> utf8_valid r1 | _ \<Rightarrow> False)
      else if 0xE0 \<le> a \<and> a \<le> 0xEF then
        (case r of b # c # r2 \<Rightarrow>
           utf8_cont b \<and> (a = 0xE0 \<longrightarrow> 0xA0 \<le> b) \<and> (a = 0xED \<longrightarrow> b \<le> 0x9F) \<and>
           utf8_cont c \<and> utf8_valid r2
         | _ \<Rightarrow> False)
      else if 0xF0 \<le> a \<and> a \<le> 0xF4 then
        (case r of b # c # d # r3 \<Rightarrow>
           utf8_cont b \<and> (a = 0xF0 \<longrightarrow> 0x90 \<le> b) \<and> (a = 0xF4 \<longrightarrow> b \<le> 0x8F) \<and>
           utf8_cont c \<and> utf8_cont d \<and> utf8_valid r3
         | _ \<Rightarrow> False)
      else False)"

lemma utf8_valid_ascii: "(\<And>b. b \<in> set bs \<Longrightarrow> b \<le> 0x7F) \<Longrightarrow> utf8_valid bs"
  by (induction bs) auto

end
