(* ===== verification/Wheel_Model.thy ===== *)
theory Wheel_Model
  imports Timer_Futures Bytes
begin

text \<open>
  The fuzz target \<open>fuzz/fuzz_targets/timer_wheel_tick.rs\<close>: a wheel with eight slots in each of four
  levels and a pool of sixteen entries are driven by the bytes of the input, beside a model that only
  knows which entries are registered and when each is due.  After every operation the target asserts
  that the wheel and the model have the same number of registered entries.  \<open>None\<close> is a panic: a failed
  assertion, an overflow, or an access of the wheel outside the pool.
\<close>

section \<open>The target\<close>

definition POOL :: nat where
  "POOL = 16"

record fuzz_state =
  fz_wheel :: wheel
  fz_registered :: "nat \<Rightarrow> bool"
  fz_due :: "nat \<Rightarrow> nat"

text \<open>The entry \<open>pool[slot]\<close> is at the address \<open>slot\<close>.\<close>

definition fuzz_start :: "fuzz_state option" where
  "fuzz_start = do {
     w \<leftarrow> wheel_new 8 4 (\<lambda>a. if a < POOL then Some (timer_entry_new 0) else None);
     Some \<lparr>fz_wheel = w, fz_registered = (\<lambda>_. False), fz_due = (\<lambda>_. 0)\<rparr> }"

definition fire_due :: "fuzz_state \<Rightarrow> fuzz_state" where
  "fire_due f = f\<lparr>fz_registered := (\<lambda>slot.
     fz_registered f slot \<and> \<not> (slot < POOL \<and> fz_due f slot \<le> wheel_now (fz_wheel f)))\<rparr>"

definition fuzz_tick :: "fuzz_state \<Rightarrow> fuzz_state option" where
  "fuzz_tick f = do { w \<leftarrow> wheel_tick 8 4 (fz_wheel f); Some (fire_due (f\<lparr>fz_wheel := w\<rparr>)) }"

definition fuzz_insert :: "nat \<Rightarrow> nat \<Rightarrow> fuzz_state \<Rightarrow> fuzz_state option" where
  "fuzz_insert slot arg f =
     (if fz_registered f slot then Some f
      else do {
        d \<leftarrow> checked_add_u64 (wheel_now (fz_wheel f)) (arg * 7);
        next_tick \<leftarrow> checked_add_u64 (wheel_now (fz_wheel f)) 1;
        w \<leftarrow> inner_insert 8 4 slot (put_entry slot (timer_entry_new d) (fz_wheel f));
        Some (f\<lparr>fz_wheel := w, fz_due := (fz_due f)(slot := max d next_tick),
          fz_registered := (fz_registered f)(slot := True)\<rparr>) })"

definition fuzz_remove :: "nat \<Rightarrow> fuzz_state \<Rightarrow> fuzz_state option" where
  "fuzz_remove slot f =
     (if fz_registered f slot
      then do {
        w \<leftarrow> inner_remove slot (fz_wheel f);
        Some (f\<lparr>fz_wheel := w, fz_registered := (fz_registered f)(slot := False)\<rparr>) }
      else Some f)"

definition fuzz_advance :: "nat \<Rightarrow> fuzz_state \<Rightarrow> fuzz_state option" where
  "fuzz_advance arg f = do {
     target \<leftarrow> checked_add_u64 (wheel_now (fz_wheel f)) arg;
     w \<leftarrow> wheel_advance_to 8 4 target (fz_wheel f);
     Some (fire_due (f\<lparr>fz_wheel := w\<rparr>)) }"

definition fuzz_len_agrees :: "fuzz_state \<Rightarrow> bool" where
  "fuzz_len_agrees f \<longleftrightarrow> wheel_len (fz_wheel f) = length (filter (fz_registered f) [0..<POOL])"

definition fuzz_op :: "byte \<Rightarrow> byte \<Rightarrow> fuzz_state \<Rightarrow> fuzz_state option" where
  "fuzz_op op0 op1 f = do {
     let slot = unat op1 mod POOL;
     let arg = unat op1;
     let kind = unat op0 mod 4;
     f1 \<leftarrow> (if kind = 0 then fuzz_tick f
           else if kind = 1 then fuzz_insert slot arg f
           else if kind = 2 then fuzz_remove slot f
           else fuzz_advance arg f);
     if fuzz_len_agrees f1 then Some f1 else None }"

text \<open>\<open>chunks_exact(2)\<close> leaves out an odd last byte.\<close>

fun fuzz_ops :: "byte list \<Rightarrow> fuzz_state \<Rightarrow> fuzz_state option" where
  "fuzz_ops (op0 # op1 # data) f = do { f1 \<leftarrow> fuzz_op op0 op1 f; fuzz_ops data f1 }"
| "fuzz_ops _ f = Some f"

text \<open>The last loop takes the entries that are still registered out of the wheel.\<close>

fun fuzz_cleanup :: "nat list \<Rightarrow> fuzz_state \<Rightarrow> fuzz_state option" where
  "fuzz_cleanup [] f = Some f"
| "fuzz_cleanup (slot # slots) f =
     (if fz_registered f slot
      then do { w \<leftarrow> inner_remove slot (fz_wheel f); fuzz_cleanup slots (f\<lparr>fz_wheel := w\<rparr>) }
      else fuzz_cleanup slots f)"

definition fuzz_timer_wheel :: "byte list \<Rightarrow> fuzz_state option" where
  "fuzz_timer_wheel data = do { f \<leftarrow> fuzz_start; f1 \<leftarrow> fuzz_ops data f; fuzz_cleanup [0..<POOL] f1 }"

section \<open>The invariant\<close>

text \<open>
  The model's flags are the entries in the wheel, and a registered entry is due at its deadline, or
  at a tick after its insertion if that was later.
\<close>

definition fuzz_inv :: "fuzz_state \<Rightarrow> bool" where
  "fuzz_inv f \<longleftrightarrow>
     wheel_inv 8 4 (fz_wheel f) \<and>
     (\<forall>a < POOL. mem (fz_wheel f) a \<noteq> None) \<and>
     (\<forall>a. a \<in> registered_in (fz_wheel f) \<longleftrightarrow> a < POOL \<and> fz_registered f a) \<and>
     (\<forall>a < POOL. fz_registered f a \<longrightarrow>
        current_tick (fz_wheel f) < fz_due f a \<and>
        (\<exists>t \<le> current_tick (fz_wheel f). fz_due f a = max (deadline_at (mem (fz_wheel f)) a) (t + 1)))"

lemma fuzz_invD:
  assumes "fuzz_inv f"
  shows "wheel_inv 8 4 (fz_wheel f)" "a < POOL \<Longrightarrow> mem (fz_wheel f) a \<noteq> None"
    "a \<in> registered_in (fz_wheel f) \<longleftrightarrow> a < POOL \<and> fz_registered f a"
    "a < POOL \<Longrightarrow> fz_registered f a \<Longrightarrow> current_tick (fz_wheel f) < fz_due f a"
    "a < POOL \<Longrightarrow> fz_registered f a \<Longrightarrow>
       \<exists>t \<le> current_tick (fz_wheel f). fz_due f a = max (deadline_at (mem (fz_wheel f)) a) (t + 1)"
  using assms by (auto simp: fuzz_inv_def)

text \<open>The assertion of the target follows.\<close>

lemma fuzz_inv_agrees:
  assumes "fuzz_inv f"
  shows "fuzz_len_agrees f"
proof -
  have "registered_in (fz_wheel f) = set (filter (fz_registered f) [0..<POOL])"
    using fuzz_invD(3)[OF assms] by auto
  then have "card (registered_in (fz_wheel f)) = length (filter (fz_registered f) [0..<POOL])"
    using distinct_card[of "filter (fz_registered f) [0..<POOL]"] by simp
  then show ?thesis
    using pending_card(1)[OF fuzz_invD(1)[OF assms]] by (simp add: fuzz_len_agrees_def wheel_len_def)
qed

text \<open>
  Both the tick and the jump are a number of ticks; the wheel's own account of what it fires is the
  model's \<open>fire_due\<close>.
\<close>

lemma fuzz_ticks:
  assumes inv: "fuzz_inv f" and n: "current_tick (fz_wheel f) + n \<le> u64_max"
    and w: "iterate_opt n (advance_one 8 4) (fz_wheel f) = Some w"
  shows "fuzz_inv (fire_due (f\<lparr>fz_wheel := w\<rparr>)) \<and> current_tick w = current_tick (fz_wheel f) + n"
proof -
  note D = fuzz_invD[OF inv]
  let ?w0 = "fz_wheel f"
  have w1: "wheel_inv 8 4 w" "current_tick w = current_tick ?w0 + n" "deadline_at (mem w) = deadline_at (mem ?w0)"
    "registered_in w = {a \<in> registered_in ?w0. n = 0 \<or> current_tick ?w0 + n < deadline_at (mem ?w0) a}"
    using wheel_timers.ticks_ok[OF D(1) n] w by auto
  have alloc: "mem w a \<noteq> None" if "a < POOL" for a
    using ticks_payload(1)[OF D(1) n, of w a] w D(2)[OF that] by (simp add: wheel_tick_n_iterate)
  have kept: "a \<in> registered_in w \<longleftrightarrow> a < POOL \<and> fz_registered f a \<and> \<not> fz_due f a \<le> current_tick w" for a
  proof (cases "a < POOL \<and> fz_registered f a")
    case True
    then obtain t where "t \<le> current_tick ?w0" "fz_due f a = max (deadline_at (mem ?w0) a) (t + 1)"
      "current_tick ?w0 < fz_due f a" using D(4,5)[of a] by blast
    then show ?thesis using True D(3)[of a] by (auto simp: w1(2,4))
  qed (use D(3)[of a] in \<open>auto simp: w1(4)\<close>)
  have "\<exists>t \<le> current_tick w. fz_due f a = max (deadline_at (mem w) a) (t + 1)"
    if "a < POOL" "fz_registered f a" for a
    using D(5)[OF that] w1(2,3) by (metis trans_le_add1)
  then show ?thesis
    using w1(1,2) alloc kept by (auto simp: fuzz_inv_def fire_due_def wheel_now_def)
qed

section \<open>The operations\<close>

text \<open>Every operation moves the clock by at most 255, so an overflow needs an absurdly long input.\<close>

definition op_ok :: "fuzz_state \<Rightarrow> fuzz_state option \<Rightarrow> bool" where
  "op_ok f r \<longleftrightarrow> (\<exists>f1. r = Some f1 \<and> fuzz_inv f1 \<and>
     current_tick (fz_wheel f1) \<le> current_tick (fz_wheel f) + 255)"

lemma fuzz_tick_ok:
  assumes "fuzz_inv f" "current_tick (fz_wheel f) < u64_max"
  shows "op_ok f (fuzz_tick f)"
proof -
  obtain w where "advance_one 8 4 (fz_wheel f) = Some w"
    using wheel_timers.tick_ok[OF fuzz_invD(1)[OF assms(1)] assms(2)] by blast
  then show ?thesis
    using fuzz_ticks[OF assms(1), of 1 w] assms(2) by (auto simp: op_ok_def fuzz_tick_def wheel_tick_def fire_due_def)
qed

lemma fuzz_advance_ok:
  assumes "fuzz_inv f" "current_tick (fz_wheel f) + 255 \<le> u64_max" "arg \<le> 255"
  shows "op_ok f (fuzz_advance arg f)"
proof -
  note inv = fuzz_invD(1)[OF assms(1)]
  have n: "current_tick (fz_wheel f) + arg \<le> u64_max" using assms(2,3) by simp
  obtain w where "iterate_opt arg (advance_one 8 4) (fz_wheel f) = Some w"
    using wheel_timers.ticks_ok[OF inv n] by blast
  then show ?thesis
    using fuzz_ticks[OF assms(1) n] wheel_advance_to_iterate[OF inv n] assms(3) n
    by (auto simp: op_ok_def fuzz_advance_def wheel_now_def fire_due_def checked_add_u64_def)
qed

lemma fuzz_insert_ok:
  assumes inv: "fuzz_inv f" and t: "current_tick (fz_wheel f) + 1785 \<le> u64_max" "arg \<le> 255" and slot: "slot < POOL"
  shows "op_ok f (fuzz_insert slot arg f)"
proof (cases "fz_registered f slot")
  case True
  then show ?thesis using inv by (simp add: op_ok_def fuzz_insert_def)
next
  case False
  note D = fuzz_invD[OF inv]
  let ?w0 = "fz_wheel f" let ?d = "current_tick ?w0 + arg * 7"
  let ?w1 = "put_entry slot (timer_entry_new ?d) ?w0"
  have un: "slot \<notin> registered_in ?w0" "\<not> is_registered (timer_entry_new ?d)"
    using D(3) False by (simp_all add: timer_entry_new_def is_registered_def)
  note w1 = put_entry_ok[OF D(1) un]
  have m1: "mem ?w1 slot = Some (timer_entry_new ?d)" "current_tick ?w1 < u64_max"
    using t by (simp_all add: put_entry_def)
  obtain w where w: "inner_insert 8 4 slot ?w1 = Some w" "wheel_inv 8 4 w"
    "registered_in w = insert slot (registered_in ?w0)" "current_tick w = current_tick ?w0"
    "payload (mem w) = payload (mem ?w1)"
    using insert_ok[OF w1(1) m1(2,1) un(2)] w1(2) by auto
  have dl: "deadline_at (mem w) a = (if a = slot then ?d else deadline_at (mem ?w0) a)" for a
    using payload_deadline_at[OF w(5)] by (simp add: deadline_at_def timer_entry_new_def put_entry_def)
  have al: "mem w a \<noteq> None" if "a < POOL" for a
    using payload_dom[OF w(5), of a] D(2)[OF that] by (auto simp: put_entry_def)
  let ?f1 = "f\<lparr>fz_wheel := w, fz_due := (fz_due f)(slot := max ?d (current_tick ?w0 + 1)),
          fz_registered := (fz_registered f)(slot := True)\<rparr>"
  have "fuzz_inv ?f1"
    using w(2,3,4) D slot al by (auto simp: fuzz_inv_def dl)
  moreover have "fuzz_insert slot arg f = Some ?f1"
    using False w(1) t by (simp add: fuzz_insert_def wheel_now_def checked_add_u64_def)
  ultimately show ?thesis using w(4) by (simp add: op_ok_def)
qed

lemma fuzz_remove_ok:
  assumes inv: "fuzz_inv f" and slot: "slot < POOL"
  shows "op_ok f (fuzz_remove slot f)"
proof (cases "fz_registered f slot")
  case False
  then show ?thesis using inv by (simp add: op_ok_def fuzz_remove_def)
next
  case True
  note D = fuzz_invD[OF inv]
  obtain e where "mem (fz_wheel f) slot = Some e" using D(2)[OF slot] by blast
  from remove_ok[OF D(1) this] obtain w where w: "inner_remove slot (fz_wheel f) = Some w" "wheel_inv 8 4 w"
    "registered_in w = registered_in (fz_wheel f) - {slot}" "current_tick w = current_tick (fz_wheel f)"
    "payload (mem w) = payload (mem (fz_wheel f))" by blast
  have "fuzz_inv (f\<lparr>fz_wheel := w, fz_registered := (fz_registered f)(slot := False)\<rparr>)"
    using w(2-4) D payload_deadline_at[OF w(5)] payload_dom[OF w(5)] by (auto simp: fuzz_inv_def)
  then show ?thesis using True w(1,4) by (simp add: op_ok_def fuzz_remove_def)
qed

lemma fuzz_op_ok:
  assumes "fuzz_inv f" "current_tick (fz_wheel f) + 1785 \<le> u64_max"
  shows "op_ok f (fuzz_op op0 op1 f)"
proof -
  have b: "unat op1 \<le> 255" using unsigned_less[of op1, where ?'a = nat] by simp
  have s: "unat op1 mod POOL < POOL" by (simp add: POOL_def)
  let ?k = "unat op0 mod 4"
  have "op_ok f (if ?k = 0 then fuzz_tick f else if ?k = 1 then fuzz_insert (unat op1 mod POOL) (unat op1) f
      else if ?k = 2 then fuzz_remove (unat op1 mod POOL) f else fuzz_advance (unat op1) f)"
    using fuzz_tick_ok[OF assms(1)] fuzz_insert_ok[OF assms b s] fuzz_remove_ok[OF assms(1) s]
      fuzz_advance_ok[OF assms(1) _ b] assms(2) by simp
  then show ?thesis using fuzz_inv_agrees by (auto simp: op_ok_def fuzz_op_def Let_def)
qed

lemma fuzz_ops_ok:
  "fuzz_inv f \<Longrightarrow> current_tick (fz_wheel f) + 255 * length data + 1785 \<le> u64_max \<Longrightarrow>
     \<exists>f1. fuzz_ops data f = Some f1 \<and> fuzz_inv f1"
proof (induction data f rule: fuzz_ops.induct)
  case (1 op0 op1 data f)
  have "current_tick (fz_wheel f) + 1785 \<le> u64_max" using "1.prems"(2) by simp
  from fuzz_op_ok[OF "1.prems"(1) this, of op0 op1] obtain f1 where
    f1: "fuzz_op op0 op1 f = Some f1" "fuzz_inv f1" "current_tick (fz_wheel f1) \<le> current_tick (fz_wheel f) + 255"
    by (auto simp: op_ok_def)
  then show ?case using "1.IH"[OF f1(1,2)] "1.prems"(2) by simp
qed auto

lemma fuzz_cleanup_ok:
  "wheel_inv 8 4 (fz_wheel f) \<Longrightarrow> \<forall>a \<in> set slots. mem (fz_wheel f) a \<noteq> None \<Longrightarrow>
     \<exists>f1. fuzz_cleanup slots f = Some f1 \<and> wheel_inv 8 4 (fz_wheel f1) \<and>
       registered_in (fz_wheel f1) = registered_in (fz_wheel f) - {a \<in> set slots. fz_registered f a}"
proof (induction slots f rule: fuzz_cleanup.induct)
  case (2 slot slots f)
  show ?case
  proof (cases "fz_registered f slot")
    case True
    obtain e where "mem (fz_wheel f) slot = Some e" using "2.prems"(2) by auto
    from remove_ok[OF "2.prems"(1) this] obtain w where w: "inner_remove slot (fz_wheel f) = Some w" "wheel_inv 8 4 w"
      "registered_in w = registered_in (fz_wheel f) - {slot}" "payload (mem w) = payload (mem (fz_wheel f))" by blast
    then show ?thesis
      using "2.IH"(1)[OF True, of w] "2.prems"(2) payload_dom[OF w(4)] True by (auto simp: set_eq_iff)
  qed (use 2 in auto)
qed auto

lemma fuzz_start_ok: "\<exists>f. fuzz_start = Some f \<and> fuzz_inv f \<and> current_tick (fz_wheel f) = 0"
proof -
  let ?m = "\<lambda>a. if a < POOL then Some (timer_entry_new 0) else None"
  obtain w where new: "wheel_new 8 4 ?m = Some w" by (simp add: wheel_new_def)
  have dims: "dims_ok 8 4" "(2::nat) \<le> 4" by (simp_all add: dims_ok_def u64_max_def)
  have un: "\<And>a e. ?m a = Some e \<Longrightarrow> \<not> is_registered e"
    by (auto simp: timer_entry_new_def is_registered_def split: if_splits)
  have "wheel_inv 8 4 w" "registered_in w = {}" "mem w = ?m" "current_tick w = 0"
    using wheel_inv_new[OF dims new] un by blast+
  then show ?thesis using new by (simp add: fuzz_start_def fuzz_inv_def)
qed

section \<open>Property\<close>

text \<open>
  C4: The fuzz target accepts every input: on no sequence of bytes does an operation of the wheel panic,
  overflow or leave the pool, nor does the wheel ever disagree with the model, and after the last loop
  the wheel is empty.  The bound on the length only keeps the 64-bit clock from overflowing.
\<close>

theorem fuzz_target_accepts:
  assumes "length data \<le> 2 ^ 48"
  shows "\<exists>f. fuzz_timer_wheel data = Some f \<and> wheel_is_empty (fz_wheel f)"
proof -
  obtain f where f: "fuzz_start = Some f" "fuzz_inv f" "current_tick (fz_wheel f) = 0" using fuzz_start_ok by blast
  have "current_tick (fz_wheel f) + 255 * length data + 1785 \<le> u64_max"
    using assms f(3) by (simp add: u64_max_def)
  from fuzz_ops_ok[OF f(2) this] obtain f1 where f1: "fuzz_ops data f = Some f1" "fuzz_inv f1" by blast
  note D = fuzz_invD[OF f1(2)]
  obtain f2 where f2: "fuzz_cleanup [0..<POOL] f1 = Some f2" "wheel_inv 8 4 (fz_wheel f2)"
    "registered_in (fz_wheel f2) = registered_in (fz_wheel f1) - {a \<in> set [0..<POOL]. fz_registered f1 a}"
    using fuzz_cleanup_ok[of f1 "[0..<POOL]"] D(1,2) by auto
  then have "registered_in (fz_wheel f2) = {}" using D(3) by auto
  then have "wheel_is_empty (fz_wheel f2)"
    using pending_card(1)[OF f2(2)] by (simp add: wheel_is_empty_def wheel_len_def)
  then show ?thesis using f1(1) f2(1) by (intro exI[of _ f2]) (simp add: fuzz_timer_wheel_def f(1))
qed

theorem fuzz_target_accepts_witness:
  "\<exists>f. fuzz_timer_wheel [1, 3, 1, 20, 0, 0, 2, 4, 3, 200] = Some f \<and> wheel_is_empty (fz_wheel f)"
  by (rule fuzz_target_accepts) simp

end
