(* ===== verification/Driver_Thread.thy ===== *)
theory Driver_Thread
  imports Timer_Futures
begin

text \<open>
  The thread of the std driver (\<open>crates/tpt-async-timer/src/driver.rs\<close>) against the clock and the
  tasks that use its wheel.  \<open>Timer_Futures\<close> has one round of \<open>driver_loop\<close> as a function; here the
  round is broken up where other threads may come in between: the locks of the wheel and of the
  counter \<open>REGISTRATIONS\<close>, whose mutex the wait on the condition variable releases.

  Time is counted in milliseconds.  The thread needs some time for its own work and to be scheduled:
  it spends at most \<open>lag\<close> of them between the end of one wait and the beginning of the next, and a
  wait whose time is over ends.  The step relation says nothing else about speed.
\<close>

section \<open>The thread\<close>

datatype driver_at = At_Advance | At_Next_Deadline | At_Lock nat | At_Wait nat

record driver_run =
  dr_wheel :: wheel
  real_ms :: nat
  dr_at :: driver_at
  spent_ms :: nat
  registrations :: nat
  since_tick :: "addr \<Rightarrow> nat"

definition cap_ms :: "nat option \<Rightarrow> nat \<Rightarrow> nat" where
  "cap_ms nd now = min (case nd of Some d \<Rightarrow> d - now | None \<Rightarrow> 100) 100"

text \<open>The thread has just been spawned, on an empty wheel, and its clock starts at 0.\<close>

definition driver_start :: "wheel \<Rightarrow> driver_run" where
  "driver_start w = \<lparr>dr_wheel = w, real_ms = 0, dr_at = At_Advance, spent_ms = 0, registrations = 0,
     since_tick = (\<lambda>_. 0)\<rparr>"

definition woken_up :: "driver_run \<Rightarrow> driver_run" where
  "woken_up r =
     (case dr_at r of At_Wait until \<Rightarrow> r\<lparr>dr_at := At_Advance, spent_ms := 0\<rparr> | _ \<Rightarrow> r)"

text \<open>
  The first four rules are one round of the thread, then come the clock, the notification of
  \<open>on_registration\<close> (by any timer of any wheel of the process; a spurious wakeup is the same without
  the count), and what the owners of entries do under the lock of the wheel.  \<open>since_tick\<close> records
  the tick at which an entry was registered.
\<close>

inductive driver_step :: "nat \<Rightarrow> nat \<Rightarrow> nat \<Rightarrow> driver_run \<Rightarrow> driver_run \<Rightarrow> bool" for S L lag where
  ds_advance: "dr_at r = At_Advance \<Longrightarrow> wheel_advance_to S L (real_ms r) (dr_wheel r) = Some w \<Longrightarrow>
     driver_step S L lag r (r\<lparr>dr_wheel := w, dr_at := At_Next_Deadline\<rparr>)"
| ds_next_deadline: "dr_at r = At_Next_Deadline \<Longrightarrow> wheel_next_deadline S L (dr_wheel r) = Some nd \<Longrightarrow>
     driver_step S L lag r (r\<lparr>dr_at := At_Lock (cap_ms nd (wheel_now (dr_wheel r)))\<rparr>)"
| ds_wait: "dr_at r = At_Lock cap \<Longrightarrow> driver_step S L lag r (r\<lparr>dr_at := At_Wait (real_ms r + cap)\<rparr>)"
| ds_wake: "dr_at r = At_Wait until \<Longrightarrow> driver_step S L lag r (woken_up r)"
| ds_time_waiting: "dr_at r = At_Wait until \<Longrightarrow> real_ms r < until \<Longrightarrow> real_ms r + 1 < u64_max \<Longrightarrow>
     driver_step S L lag r (r\<lparr>real_ms := real_ms r + 1\<rparr>)"
| ds_time_working: "\<forall>until. dr_at r \<noteq> At_Wait until \<Longrightarrow> spent_ms r < lag \<Longrightarrow> real_ms r + 1 < u64_max \<Longrightarrow>
     driver_step S L lag r (r\<lparr>real_ms := real_ms r + 1, spent_ms := spent_ms r + 1\<rparr>)"
| ds_notify: "driver_step S L lag r ((woken_up r)\<lparr>registrations := registrations r + 1\<rparr>)"
| ds_store: "a \<notin> registered_in (dr_wheel r) \<Longrightarrow> \<not> is_registered e \<Longrightarrow>
     driver_step S L lag r (r\<lparr>dr_wheel := put_entry a e (dr_wheel r)\<rparr>)"
| ds_waker: "mem (dr_wheel r) a = Some e \<Longrightarrow>
     driver_step S L lag r (r\<lparr>dr_wheel := put_entry a (e\<lparr>waker := k\<rparr>) (dr_wheel r)\<rparr>)"
| ds_insert: "mem (dr_wheel r) a = Some e \<Longrightarrow> \<not> is_registered e \<Longrightarrow>
     inner_insert S L a (dr_wheel r) = Some w \<Longrightarrow>
     driver_step S L lag r
       (r\<lparr>dr_wheel := w, since_tick := (since_tick r)(a := wheel_now (dr_wheel r))\<rparr>)"
| ds_remove: "mem (dr_wheel r) a = Some e \<Longrightarrow> inner_remove a (dr_wheel r) = Some w \<Longrightarrow>
     driver_step S L lag r (r\<lparr>dr_wheel := w\<rparr>)"

inductive driver_reach :: "nat \<Rightarrow> nat \<Rightarrow> nat \<Rightarrow> driver_run \<Rightarrow> bool" for S L lag where
  dr_start: "wheel_new S L m = Some w \<Longrightarrow> (\<And>a e. m a = Some e \<Longrightarrow> \<not> is_registered e) \<Longrightarrow>
     driver_reach S L lag (driver_start w)"
| dr_step: "driver_reach S L lag r \<Longrightarrow> driver_step S L lag r r1 \<Longrightarrow> driver_reach S L lag r1"

text \<open>The four rules of a round are the round of the sequential model.\<close>

lemma driver_round:
  assumes "driver_iteration S L real w = Some (cap, w1)"
  shows "\<exists>nd. wheel_advance_to S L real w = Some w1 \<and> wheel_next_deadline S L w1 = Some nd \<and>
    cap = cap_ms nd (wheel_now w1)"
  using assms by (auto simp: driver_iteration_def cap_ms_def bind_Some_iff)

section \<open>Invariants\<close>

text \<open>How far the wheel's clock may be behind, by where the thread is.\<close>

definition timing :: "nat \<Rightarrow> driver_run \<Rightarrow> bool" where
  "timing lag r \<longleftrightarrow>
     current_tick (dr_wheel r) \<le> real_ms r \<and> real_ms r < u64_max \<and> spent_ms r \<le> lag \<and>
     (case dr_at r of
        At_Advance \<Rightarrow> real_ms r \<le> current_tick (dr_wheel r) + lag + 100 + spent_ms r
      | At_Next_Deadline \<Rightarrow> real_ms r \<le> current_tick (dr_wheel r) + spent_ms r
      | At_Lock cap \<Rightarrow> cap \<le> 100 \<and> real_ms r \<le> current_tick (dr_wheel r) + spent_ms r
      | At_Wait until \<Rightarrow> real_ms r \<le> until \<and> until \<le> current_tick (dr_wheel r) + lag + 100)"

definition not_overdue :: "driver_run \<Rightarrow> bool" where
  "not_overdue r \<longleftrightarrow> (\<forall>a \<in> registered_in (dr_wheel r).
     current_tick (dr_wheel r) < max (deadline_at (mem (dr_wheel r)) a) (since_tick r a + 1))"

definition driver_inv :: "nat \<Rightarrow> nat \<Rightarrow> nat \<Rightarrow> driver_run \<Rightarrow> bool" where
  "driver_inv S L lag r \<longleftrightarrow> wheel_inv S L (dr_wheel r) \<and> timing lag r \<and> not_overdue r"

lemma woken_up_simps [simp]:
  "dr_wheel (woken_up r) = dr_wheel r" "real_ms (woken_up r) = real_ms r"
  "since_tick (woken_up r) = since_tick r"
  by (simp_all add: woken_up_def split: driver_at.splits)

lemma timing_woken: "timing lag r \<Longrightarrow> timing lag (woken_up r)"
  by (auto simp: timing_def woken_up_def split: driver_at.splits)

lemma timing_wheel:
  "timing lag r \<Longrightarrow> current_tick w = current_tick (dr_wheel r) \<Longrightarrow> timing lag (r\<lparr>dr_wheel := w\<rparr>)"
  by (simp add: timing_def split: driver_at.splits)

lemma advance_to_keeps:
  assumes "wheel_inv S L w" "target < u64_max" "current_tick w \<le> target"
  shows "\<exists>w1. wheel_advance_to S L target w = Some w1 \<and> wheel_inv S L w1 \<and> current_tick w1 = target \<and>
    deadline_at (mem w1) = deadline_at (mem w) \<and>
    registered_in w1 = {a \<in> registered_in w. target = current_tick w \<or> target < deadline_at (mem w) a}"
  using wheel_timers.ticks_ok[OF assms(1), of "target - current_tick w"] assms(2,3)
    wheel_advance_to_iterate[OF assms(1), of target] by auto

lemma driver_inv_start:
  assumes "dims_ok S L" "2 \<le> L" "wheel_new S L m = Some w" "\<And>a e. m a = Some e \<Longrightarrow> \<not> is_registered e"
  shows "driver_inv S L lag (driver_start w)"
proof -
  note n = wheel_inv_new[OF assms(1-3)]
  have "wheel_inv S L w" "registered_in w = {}" "current_tick w = 0" using n assms(4) by blast+
  then show ?thesis
    by (simp add: driver_inv_def timing_def not_overdue_def driver_start_def u64_max_def)
qed

text \<open>The owners' steps leave the clocks alone.\<close>

lemma owner_keeps:
  assumes "driver_inv S L lag r" "wheel_inv S L w" "current_tick w = current_tick (dr_wheel r)"
    "\<And>a. a \<in> registered_in w \<Longrightarrow> a \<in> registered_in (dr_wheel r) \<and>
       deadline_at (mem w) a = deadline_at (mem (dr_wheel r)) a"
  shows "driver_inv S L lag (r\<lparr>dr_wheel := w\<rparr>)"
  using assms timing_wheel[of lag r w] by (auto simp: driver_inv_def not_overdue_def)

lemma driver_step_inv:
  assumes "driver_step S L lag r r1" "driver_inv S L lag r"
  shows "driver_inv S L lag r1"
proof -
  have w: "wheel_inv S L (dr_wheel r)" and t: "timing lag r" and o: "not_overdue r"
    using assms(2) by (simp_all add: driver_inv_def)
  show ?thesis
    using assms(1)
  proof cases
    case (ds_advance w1)
    obtain w2 where "wheel_advance_to S L (real_ms r) (dr_wheel r) = Some w2" "wheel_inv S L w2"
      "current_tick w2 = real_ms r" "deadline_at (mem w2) = deadline_at (mem (dr_wheel r))"
      "registered_in w2 = {a \<in> registered_in (dr_wheel r).
         real_ms r = current_tick (dr_wheel r) \<or> real_ms r < deadline_at (mem (dr_wheel r)) a}"
      using advance_to_keeps[OF w, of "real_ms r"] t by (auto simp: timing_def)
    then show ?thesis
      using ds_advance t o by (auto simp: driver_inv_def timing_def not_overdue_def)
  next
    case (ds_next_deadline nd)
    then show ?thesis using w t o by (simp add: driver_inv_def timing_def not_overdue_def cap_ms_def)
  next
    case (ds_wait cap)
    then show ?thesis using w t o by (simp add: driver_inv_def timing_def not_overdue_def)
  next
    case (ds_wake until)
    then show ?thesis using w o timing_woken[OF t] by (simp add: driver_inv_def not_overdue_def)
  next
    case (ds_time_waiting until)
    then show ?thesis using w t o by (simp add: driver_inv_def timing_def not_overdue_def)
  next
    case ds_time_working
    then show ?thesis
      using w t o by (simp add: driver_inv_def timing_def not_overdue_def split: driver_at.splits)
  next
    case ds_notify
    then show ?thesis
      using w o timing_woken[OF t] by (simp add: driver_inv_def not_overdue_def timing_def split: driver_at.splits)
  next
    case (ds_store a e)
    then show ?thesis
      using put_entry_ok[OF w] by (auto intro!: owner_keeps[OF assms(2)] simp: put_entry_def deadline_at_def)
  next
    case (ds_waker a e k)
    then show ?thesis
      using set_waker_ok[OF w] by (auto intro!: owner_keeps[OF assms(2)] simp: put_entry_def deadline_at_def)
  next
    case (ds_insert a e w1)
    have "current_tick (dr_wheel r) < u64_max" using t by (simp add: timing_def)
    from insert_ok[OF w this ds_insert(2,3)] ds_insert(4) have ok: "wheel_inv S L w1"
      "registered_in w1 = insert a (registered_in (dr_wheel r))"
      "current_tick w1 = current_tick (dr_wheel r)" "deadline_at (mem w1) = deadline_at (mem (dr_wheel r))"
      using payload_deadline_at[of "mem w1" "mem (dr_wheel r)"] by auto
    then show ?thesis
      using ds_insert(1) timing_wheel[OF t] o
      by (auto simp: driver_inv_def not_overdue_def timing_def wheel_now_def split: driver_at.splits)
  next
    case (ds_remove a e w1)
    from remove_ok[OF w ds_remove(2)] ds_remove(3) have ok: "wheel_inv S L w1"
      "registered_in w1 = registered_in (dr_wheel r) - {a}"
      "current_tick w1 = current_tick (dr_wheel r)" "deadline_at (mem w1) = deadline_at (mem (dr_wheel r))"
      using payload_deadline_at[of "mem w1" "mem (dr_wheel r)"] by auto
    show ?thesis unfolding ds_remove(1) by (rule owner_keeps[OF assms(2) ok(1,3)]) (simp add: ok)
  qed
qed

lemma driver_reach_inv:
  "driver_reach S L lag r \<Longrightarrow> dims_ok S L \<Longrightarrow> 2 \<le> L \<Longrightarrow> driver_inv S L lag r"
proof (induction rule: driver_reach.induct)
  case (dr_start m w)
  then show ?case by (intro driver_inv_start) auto
next
  case (dr_step r r1)
  then show ?case using driver_step_inv by blast
qed

section \<open>Properties\<close>

text \<open>
  C27: However registrations, drops, notifications and spurious wakeups interleave with the driver
  thread, the clock of the wheel is never ahead of real time and never more than 100 ms plus twice
  the thread's own lag behind it; a timer that is still registered is less than 100 ms plus twice the
  lag past its deadline, or past the tick after the one it was registered at, when that is later; and the
  thread can always go on: its accesses to the wheel return.
\<close>

theorem driver_keeps_up:
  assumes "driver_reach S L lag r" "dims_ok S L" "2 \<le> L"
  shows "current_tick (dr_wheel r) \<le> real_ms r \<and> real_ms r \<le> current_tick (dr_wheel r) + 100 + 2 * lag \<and>
    (\<forall>a \<in> registered_in (dr_wheel r).
       real_ms r < max (deadline_at (mem (dr_wheel r)) a) (since_tick r a + 1) + 100 + 2 * lag) \<and>
    (\<exists>w. wheel_advance_to S L (real_ms r) (dr_wheel r) = Some w) \<and>
    (\<exists>nd. wheel_next_deadline S L (dr_wheel r) = Some nd)"
proof -
  note inv = driver_reach_inv[OF assms, unfolded driver_inv_def]
  have t: "current_tick (dr_wheel r) \<le> real_ms r" "real_ms r < u64_max"
    "real_ms r \<le> current_tick (dr_wheel r) + 100 + 2 * lag"
    using inv by (auto simp: timing_def split: driver_at.splits)
  moreover have "real_ms r < max (deadline_at (mem (dr_wheel r)) a) (since_tick r a + 1) + 100 + 2 * lag"
    if "a \<in> registered_in (dr_wheel r)" for a
    using inv that t(3) unfolding not_overdue_def by fastforce
  ultimately show ?thesis
    using advance_to_keeps[of S L "dr_wheel r" "real_ms r"] next_deadline_ok[of S L "dr_wheel r"] inv by auto
qed

section \<open>A registration that is not noticed\<close>

lemma waiting_passes_time:
  "driver_reach S L lag r \<Longrightarrow> dr_at r = At_Wait until \<Longrightarrow> real_ms r + n \<le> until \<Longrightarrow> until < u64_max \<Longrightarrow>
     driver_reach S L lag (r\<lparr>real_ms := real_ms r + n\<rparr>)"
proof (induction n)
  case (Suc n)
  let ?r = "r\<lparr>real_ms := real_ms r + n\<rparr>"
  have "driver_step S L lag ?r (?r\<lparr>real_ms := real_ms ?r + 1\<rparr>)"
    using Suc.prems by (intro ds_time_waiting[of _ until]) simp_all
  then show ?case using dr_step[OF Suc.IH] Suc.prems by simp
qed simp

text \<open>The thread is on its first round, and a timer of 50 ms comes when it has decided to wait.\<close>

lemma late_registration:
  "\<exists>r. driver_reach 256 4 lag r \<and> dr_at r = At_Wait 100 \<and> real_ms r = 0 \<and> registrations r = 1 \<and>
     0 \<in> registered_in (dr_wheel r) \<and> deadline_at (mem (dr_wheel r)) 0 = 50"
proof -
  obtain w0 where new: "wheel_new 256 4 Map.empty = Some w0" by (simp add: wheel_new_def)
  have dims: "dims_ok 256 4" by (simp add: dims_ok_def u64_max_def)
  have w0: "wheel_inv 256 4 w0" "registered_in w0 = {}" "current_tick w0 = 0"
    using wheel_inv_new[OF dims _ new] by simp_all
  let ?e = "timer_entry_new 50"
  let ?w1 = "put_entry 0 ?e w0"
  have w1: "wheel_inv 256 4 ?w1" "registered_in ?w1 = {}" "mem ?w1 0 = Some ?e" "\<not> is_registered ?e"
    "current_tick ?w1 = 0"
    using put_entry_ok[OF w0(1), of 0 ?e] w0(2,3)
    by (simp_all add: is_registered_def timer_entry_new_def put_entry_def)
  have "current_tick ?w1 < u64_max" using w1(5) by (simp add: u64_max_def)
  from insert_ok[OF w1(1) this w1(3,4)] obtain w2 where w2: "inner_insert 256 4 0 ?w1 = Some w2"
    "registered_in w2 = {0}" "payload (mem w2) = payload (mem ?w1)" using w1(2) by auto
  have d: "deadline_at (mem w2) 0 = 50"
    using payload_deadline_at[OF w2(3)] w1(3) by (simp add: deadline_at_def timer_entry_new_def)
  let ?r0 = "driver_start w0"
  let ?r1 = "?r0\<lparr>dr_at := At_Lock 100\<rparr>"
  let ?r2 = "?r1\<lparr>dr_wheel := w2, since_tick := (since_tick ?r1)(0 := 0)\<rparr>"
  let ?r3 = "(woken_up ?r2)\<lparr>registrations := registrations ?r2 + 1\<rparr>"
  have s0: "driver_reach 256 4 lag ?r0" using new by (intro dr_start[of _ _ Map.empty]) simp_all
  have s1: "driver_step 256 4 lag ?r0 (?r0\<lparr>dr_wheel := w0, dr_at := At_Next_Deadline\<rparr>)"
    by (intro ds_advance) (simp_all add: driver_start_def wheel_advance_to.simps[of 256 4 0 w0])
  have s2: "driver_step 256 4 lag (?r0\<lparr>dr_wheel := w0, dr_at := At_Next_Deadline\<rparr>) ?r1"
    using next_deadline_ok[OF w0(1)] w0(2)
      ds_next_deadline[of "?r0\<lparr>dr_wheel := w0, dr_at := At_Next_Deadline\<rparr>" 256 4 None lag]
    by (auto simp: driver_start_def cap_ms_def)
  have s3: "driver_step 256 4 lag ?r1 (?r1\<lparr>dr_wheel := ?w1\<rparr>)"
    using ds_store[of 0 ?r1 ?e 256 4 lag] w0(2) w1(4) by (simp add: driver_start_def)
  have s4: "driver_step 256 4 lag (?r1\<lparr>dr_wheel := ?w1\<rparr>) ?r2"
    using ds_insert[of "?r1\<lparr>dr_wheel := ?w1\<rparr>" 0 ?e 256 4 w2 lag] w1(3-5) w2(1) by (simp add: wheel_now_def)
  have s5: "driver_step 256 4 lag ?r2 ?r3" by (rule ds_notify)
  have s6: "driver_step 256 4 lag ?r3 (?r3\<lparr>dr_at := At_Wait (real_ms ?r3 + 100)\<rparr>)"
    by (intro ds_wait) (simp add: woken_up_def)
  note reach = dr_step[OF dr_step[OF dr_step[OF dr_step[OF dr_step[OF dr_step[OF s0 s1] s2] s3] s4] s5] s6]
  show ?thesis
    using reach w2(2) d by (intro exI[of _ "?r3\<lparr>dr_at := At_Wait (real_ms ?r3 + 100)\<rparr>"]) (simp add: driver_start_def woken_up_def)
qed

theorem driver_keeps_up_witness:
  "\<exists>r. driver_reach 256 4 3 r \<and> 0 \<in> registered_in (dr_wheel r) \<and> real_ms r < 50 + 106"
proof -
  have dims: "dims_ok 256 4" "(2::nat) \<le> 4" by (simp_all add: dims_ok_def u64_max_def)
  obtain r where r: "driver_reach 256 4 3 r" "0 \<in> registered_in (dr_wheel r)" "real_ms r = 0"
    using late_registration by blast
  from driver_keeps_up[OF r(1) dims] r show ?thesis by auto
qed

text \<open>
  A registration is not always noticed when it comes: here the thread, which needs no time at all, has
  read that there is no deadline and waits for 100 ms, when a timer of 50 ms is registered and its
  notification is given just before the wait begins.  After 100 ms the timer is still registered.
\<close>

theorem driver_misses_registration:
  "\<exists>r. driver_reach 256 4 0 r \<and> dr_at r = At_Wait 100 \<and> real_ms r = 100 \<and> registrations r = 1 \<and>
     0 \<in> registered_in (dr_wheel r) \<and> deadline_at (mem (dr_wheel r)) 0 = 50"
proof -
  obtain r where r: "driver_reach 256 4 0 r" "dr_at r = At_Wait 100" "real_ms r = 0" "registrations r = 1"
    "0 \<in> registered_in (dr_wheel r)" "deadline_at (mem (dr_wheel r)) 0 = 50"
    using late_registration by blast
  from waiting_passes_time[OF r(1,2), of 100] r show ?thesis
    by (intro exI[of _ "r\<lparr>real_ms := real_ms r + 100\<rparr>"]) (simp add: u64_max_def)
qed

end
