(* ===== verification/Core_Utils.thy ===== *)
theory Core_Utils
  imports Wheel_Properties
begin

text \<open>
  Small parts: the transition function that the \<open>state_machine!\<close> macro writes
  (\<open>crates/tpt-async-core/src/state_machine.rs\<close>) and the \<open>TestDriver\<close> of
  \<open>crates/tpt-async-test/src/lib.rs\<close>, a timer wheel advanced by hand.
\<close>

section \<open>State machines\<close>

text \<open>The rows of the macro's table, in order: the arms of the \<open>match\<close>, before the catch-all.\<close>

fun transition :: "('s \<times> 'e \<times> 's) list \<Rightarrow> 's \<Rightarrow> 'e \<Rightarrow> 's option" where
  "transition [] s e = None"
| "transition ((f, on, t) # rows) s e = (if s = f \<and> e = on then Some t else transition rows s e)"

lemma transition_row: "transition rows s e = Some t \<Longrightarrow> (s, e, t) \<in> set rows"
  by (induction rows s e rule: transition.induct) (auto split: if_splits)

lemma transition_none: "transition rows s e = None \<longleftrightarrow> (\<forall>t. (s, e, t) \<notin> set rows)"
  by (induction rows s e rule: transition.induct) auto

text \<open>A table without two rows for one state and event means what its rows say, in any order.\<close>

lemma transition_table:
  assumes "distinct (map (\<lambda>(f, on, t). (f, on)) rows)"
  shows "transition rows s e = Some t \<longleftrightarrow> (s, e, t) \<in> set rows"
  using assms by (induction rows s e rule: transition.induct) force+

text \<open>
  An invocation of the macro: the declared states and events, and the rows.  What it writes compiles if the
  variants of each enum are distinct and the rows name declared ones; the constants list the variants in
  the order of their declaration.
\<close>

record ('s, 'e) machine_decl =
  decl_states :: "'s list"
  decl_events :: "'e list"
  decl_rows :: "('s \<times> 'e \<times> 's) list"

definition machine_compiles :: "('s, 'e) machine_decl \<Rightarrow> bool" where
  "machine_compiles d \<longleftrightarrow> distinct (decl_states d) \<and> distinct (decl_events d) \<and>
     list_all (\<lambda>(f, on, t). f \<in> set (decl_states d) \<and> on \<in> set (decl_events d) \<and> t \<in> set (decl_states d)) (decl_rows d)"

definition all_states :: "('s, 'e) machine_decl \<Rightarrow> 's list" where
  "all_states d = decl_states d"

definition all_events :: "('s, 'e) machine_decl \<Rightarrow> 'e list" where
  "all_events d = decl_events d"

text \<open>Any run of events from a declared state, as long as each has a transition, stays among the declared states.\<close>

fun run_events :: "('s, 'e) machine_decl \<Rightarrow> 's \<Rightarrow> 'e list \<Rightarrow> 's option" where
  "run_events d s [] = Some s"
| "run_events d s (e # es) = do { s1 \<leftarrow> transition (decl_rows d) s e; run_events d s1 es }"

lemma run_events_declared:
  assumes "machine_compiles d" "s \<in> set (all_states d)" "run_events d s es = Some t"
  shows "t \<in> set (all_states d)"
  using assms(2,3)
proof (induction es arbitrary: s)
  case (Cons e es)
  obtain s1 where s1: "transition (decl_rows d) s e = Some s1" "run_events d s1 es = Some t"
    using Cons.prems(2) by (auto split: Option.bind_splits)
  have "s1 \<in> set (all_states d)"
    using transition_row[OF s1(1)] assms(1) by (auto simp: machine_compiles_def all_states_def list_all_iff)
  then show ?case using Cons.IH s1(2) by blast
qed simp

section \<open>The test driver\<close>

definition test_driver_new :: "nat \<Rightarrow> nat \<Rightarrow> (addr \<rightharpoonup> timer_entry) \<Rightarrow> wheel option" where
  "test_driver_new S L m = wheel_new S L m"

definition test_with_wheel :: "wheel \<Rightarrow> wheel" where
  "test_with_wheel w = w"

definition test_now :: "wheel \<Rightarrow> nat" where
  "test_now d = wheel_now d"

definition test_advance :: "nat \<Rightarrow> nat \<Rightarrow> nat \<Rightarrow> wheel \<Rightarrow> wheel option" where
  "test_advance S L ticks d = wheel_tick_n S L ticks d"

definition test_advance_until :: "nat \<Rightarrow> nat \<Rightarrow> nat \<Rightarrow> wheel \<Rightarrow> wheel option" where
  "test_advance_until S L target d = wheel_advance_to S L target d"

text \<open>Both ways of advancing meet at the same wheel.\<close>

lemma test_advance_until_ticks:
  assumes "wheel_inv S L d" "test_now d + n \<le> u64_max"
  shows "test_advance_until S L (test_now d + n) d = test_advance S L n d"
  using wheel_advance_to_iterate[OF assms(1), of "test_now d + n"] assms(2)
  by (simp add: test_advance_until_def test_advance_def wheel_tick_n_iterate test_now_def wheel_now_def)

end
