(* ===== verification/Wakers.thy ===== *)
theory Wakers
  imports Prelude
begin

text \<open>
  The wakers of \<open>crates/tpt-async-core/src/waker.rs\<close>: the no-op waker, the waker of a function pointer,
  and \<open>waker_with\<close>, whose body with the closure is counted by an \<open>Arc\<close> and also holds the table of
  functions through which the waker is used.  A body is an address in \<open>strong\<close>, which gives its
  reference count while it is allocated.  \<open>None\<close> is an access to a body that has been freed.  The
  closure is the caller's: what is known of a call is that it happened, and whether it panicked, as
  the operation says.  \<open>Arc\<close> aborts the program before its count could overflow.
\<close>

section \<open>Raw wakers\<close>

datatype waker_vtable = Noop_Vtable | Fn_Vtable | Body_Vtable nat

text \<open>The table of a \<open>waker_with\<close> lies in the body, at its address; the data of \<open>waker_fn\<close> is the function.\<close>

record raw_waker =
  rw_data :: nat
  rw_vtable :: waker_vtable

datatype waker_call = Fn_Call nat | Body_Call nat

record waker_heap =
  strong :: "nat \<Rightarrow> nat option"
  fresh_body :: nat
  waker_calls :: "waker_call list"

definition noop_waker :: raw_waker where
  "noop_waker = \<lparr>rw_data = 0, rw_vtable = Noop_Vtable\<rparr>"

definition waker_fn :: "nat \<Rightarrow> raw_waker" where
  "waker_fn f = \<lparr>rw_data = f, rw_vtable = Fn_Vtable\<rparr>"

text \<open>\<open>Arc::new\<close>, and \<open>Arc::into_raw\<close>, which passes the one reference on.\<close>

definition waker_with :: "waker_heap \<Rightarrow> raw_waker \<times> waker_heap" where
  "waker_with h =
     (\<lparr>rw_data = fresh_body h, rw_vtable = Body_Vtable (fresh_body h)\<rparr>,
      h\<lparr>strong := (strong h)(fresh_body h \<mapsto> 1), fresh_body := fresh_body h + 1\<rparr>)"

definition call_closure :: "waker_call \<Rightarrow> waker_heap \<Rightarrow> waker_heap" where
  "call_closure c h = h\<lparr>waker_calls := waker_calls h @ [c]\<rparr>"

text \<open>Dropping an \<open>Arc\<close>: the last reference frees the body.\<close>

definition arc_drop :: "nat \<Rightarrow> waker_heap \<Rightarrow> waker_heap option" where
  "arc_drop a h = do {
     n \<leftarrow> strong h a;
     Some (h\<lparr>strong := (strong h)(a := (if n = 1 then None else Some (n - 1)))\<rparr>) }"

text \<open>
  A call of the closure in \<open>wake_owned\<close> ends with the drop of \<open>arc\<close>, whether it returns or unwinds.  In
  \<open>wake_by_ref\<close> it is \<open>forget\<close> that keeps the count, and a panic unwinds past it: \<open>arc\<close> is dropped.
\<close>

definition wake_owned :: "nat \<Rightarrow> waker_heap \<Rightarrow> waker_heap option" where
  "wake_owned a h = do {
     n \<leftarrow> strong h a;
     arc_drop a (call_closure (Body_Call a) h) }"

definition body_wake_by_ref :: "bool \<Rightarrow> nat \<Rightarrow> waker_heap \<Rightarrow> waker_heap option" where
  "body_wake_by_ref panics a h = do {
     n \<leftarrow> strong h a;
     let h1 = call_closure (Body_Call a) h;
     if panics then arc_drop a h1 else Some h1 }"

definition clone_waker :: "nat \<Rightarrow> waker_heap \<Rightarrow> (raw_waker \<times> waker_heap) option" where
  "clone_waker a h = do {
     n \<leftarrow> strong h a;
     Some (\<lparr>rw_data = a, rw_vtable = Body_Vtable a\<rparr>, h\<lparr>strong := (strong h)(a \<mapsto> n + 1)\<rparr>) }"

definition drop_waker :: "nat \<Rightarrow> waker_heap \<Rightarrow> waker_heap option" where
  "drop_waker a h = arc_drop a h"

text \<open>
  The operations of \<open>Waker\<close>, which look the function up in the table and apply it to the data.
  Reading a table inside a body is an access to the body.
\<close>

definition table_readable :: "raw_waker \<Rightarrow> waker_heap \<Rightarrow> bool" where
  "table_readable w h \<longleftrightarrow>
     (case rw_vtable w of Body_Vtable a \<Rightarrow> strong h a \<noteq> None | Noop_Vtable \<Rightarrow> True | Fn_Vtable \<Rightarrow> True)"

definition raw_clone :: "raw_waker \<Rightarrow> waker_heap \<Rightarrow> (raw_waker \<times> waker_heap) option" where
  "raw_clone w h =
     (if \<not> table_readable w h then None
      else case rw_vtable w of
        Noop_Vtable \<Rightarrow> Some (noop_waker, h)
      | Fn_Vtable \<Rightarrow> Some (\<lparr>rw_data = rw_data w, rw_vtable = Fn_Vtable\<rparr>, h)
      | Body_Vtable _ \<Rightarrow> clone_waker (rw_data w) h)"

definition raw_wake :: "raw_waker \<Rightarrow> waker_heap \<Rightarrow> waker_heap option" where
  "raw_wake w h =
     (if \<not> table_readable w h then None
      else case rw_vtable w of
        Noop_Vtable \<Rightarrow> Some h
      | Fn_Vtable \<Rightarrow> Some (call_closure (Fn_Call (rw_data w)) h)
      | Body_Vtable _ \<Rightarrow> wake_owned (rw_data w) h)"

definition raw_wake_by_ref :: "bool \<Rightarrow> raw_waker \<Rightarrow> waker_heap \<Rightarrow> waker_heap option" where
  "raw_wake_by_ref panics w h =
     (if \<not> table_readable w h then None
      else case rw_vtable w of
        Noop_Vtable \<Rightarrow> Some h
      | Fn_Vtable \<Rightarrow> Some (call_closure (Fn_Call (rw_data w)) h)
      | Body_Vtable _ \<Rightarrow> body_wake_by_ref panics (rw_data w) h)"

definition raw_drop :: "raw_waker \<Rightarrow> waker_heap \<Rightarrow> waker_heap option" where
  "raw_drop w h =
     (if \<not> table_readable w h then None
      else case rw_vtable w of
        Noop_Vtable \<Rightarrow> Some h
      | Fn_Vtable \<Rightarrow> Some h
      | Body_Vtable _ \<Rightarrow> drop_waker (rw_data w) h)"

section \<open>Programs over wakers\<close>

text \<open>
  A program holds wakers and uses them one operation at a time; the wakers are numbered in the order
  of \<open>owned\<close>, and an operation on a number that is not there does not occur.  \<open>wake\<close> and \<open>drop\<close> take
  the waker, which the program then no longer has.
\<close>

datatype waker_op =
    New_Noop | New_Fn nat | New_With | Wk_Clone nat | Wk_Wake nat | Wk_Wake_By_Ref bool nat | Wk_Drop nat

record waker_program =
  wk_heap :: waker_heap
  owned :: "raw_waker list"

definition no_wakers :: waker_program where
  "no_wakers = \<lparr>wk_heap = \<lparr>strong = (\<lambda>_. None), fresh_body = 0, waker_calls = []\<rparr>, owned = []\<rparr>"

definition without :: "nat \<Rightarrow> 'a list \<Rightarrow> 'a list" where
  "without i xs = take i xs @ drop (Suc i) xs"

fun waker_step :: "waker_op \<Rightarrow> waker_program \<Rightarrow> waker_program option" where
  "waker_step New_Noop p = Some (p\<lparr>owned := owned p @ [noop_waker]\<rparr>)"
| "waker_step (New_Fn f) p = Some (p\<lparr>owned := owned p @ [waker_fn f]\<rparr>)"
| "waker_step New_With p =
     (case waker_with (wk_heap p) of (w, h) \<Rightarrow> Some \<lparr>wk_heap = h, owned = owned p @ [w]\<rparr>)"
| "waker_step (Wk_Clone i) p =
     (if length (owned p) \<le> i then Some p
      else do { (w, h) \<leftarrow> raw_clone (owned p ! i) (wk_heap p); Some \<lparr>wk_heap = h, owned = owned p @ [w]\<rparr> })"
| "waker_step (Wk_Wake i) p =
     (if length (owned p) \<le> i then Some p
      else do { h \<leftarrow> raw_wake (owned p ! i) (wk_heap p); Some \<lparr>wk_heap = h, owned = without i (owned p)\<rparr> })"
| "waker_step (Wk_Wake_By_Ref panics i) p =
     (if length (owned p) \<le> i then Some p
      else do { h \<leftarrow> raw_wake_by_ref panics (owned p ! i) (wk_heap p); Some (p\<lparr>wk_heap := h\<rparr>) })"
| "waker_step (Wk_Drop i) p =
     (if length (owned p) \<le> i then Some p
      else do { h \<leftarrow> raw_drop (owned p ! i) (wk_heap p); Some \<lparr>wk_heap = h, owned = without i (owned p)\<rparr> })"

fun waker_steps :: "waker_op list \<Rightarrow> waker_program \<Rightarrow> waker_program option" where
  "waker_steps [] p = Some p"
| "waker_steps (op # ops) p = do { p1 \<leftarrow> waker_step op p; waker_steps ops p1 }"

section \<open>Specification\<close>

text \<open>
  A waker is the name of the closure that it calls, and nothing is counted: a clone calls what its
  original calls, a wake calls it once.
\<close>

record waker_spec =
  sp_fresh :: nat
  sp_wakers :: "waker_call option list"
  sp_calls :: "waker_call list"

definition sp_call :: "nat \<Rightarrow> waker_spec \<Rightarrow> waker_spec" where
  "sp_call i s = s\<lparr>sp_calls := sp_calls s @ (case sp_wakers s ! i of None \<Rightarrow> [] | Some c \<Rightarrow> [c])\<rparr>"

fun spec_step :: "waker_op \<Rightarrow> waker_spec \<Rightarrow> waker_spec" where
  "spec_step New_Noop s = s\<lparr>sp_wakers := sp_wakers s @ [None]\<rparr>"
| "spec_step (New_Fn f) s = s\<lparr>sp_wakers := sp_wakers s @ [Some (Fn_Call f)]\<rparr>"
| "spec_step New_With s =
     s\<lparr>sp_wakers := sp_wakers s @ [Some (Body_Call (sp_fresh s))], sp_fresh := sp_fresh s + 1\<rparr>"
| "spec_step (Wk_Clone i) s =
     (if length (sp_wakers s) \<le> i then s else s\<lparr>sp_wakers := sp_wakers s @ [sp_wakers s ! i]\<rparr>)"
| "spec_step (Wk_Wake i) s =
     (if length (sp_wakers s) \<le> i then s
      else (sp_call i s)\<lparr>sp_wakers := without i (sp_wakers s)\<rparr>)"
| "spec_step (Wk_Wake_By_Ref panics i) s = (if length (sp_wakers s) \<le> i then s else sp_call i s)"
| "spec_step (Wk_Drop i) s =
     (if length (sp_wakers s) \<le> i then s else s\<lparr>sp_wakers := without i (sp_wakers s)\<rparr>)"

definition spec_start :: waker_spec where
  "spec_start = \<lparr>sp_fresh = 0, sp_wakers = [], sp_calls = []\<rparr>"

text \<open>What a waker calls, the number of wakers that own a body, and the relation of the two levels.\<close>

fun target_of :: "raw_waker \<Rightarrow> waker_call option" where
  "target_of w =
     (case rw_vtable w of
        Noop_Vtable \<Rightarrow> None
      | Fn_Vtable \<Rightarrow> Some (Fn_Call (rw_data w))
      | Body_Vtable a \<Rightarrow> Some (Body_Call (rw_data w)))"

definition owners :: "nat \<Rightarrow> raw_waker list \<Rightarrow> nat" where
  "owners a ws = count_list (map rw_vtable ws) (Body_Vtable a)"

definition counted :: "waker_program \<Rightarrow> bool" where
  "counted p \<longleftrightarrow>
     (\<forall>a. strong (wk_heap p) a = (if owners a (owned p) = 0 then None else Some (owners a (owned p))))"

definition waker_ok :: "nat \<Rightarrow> raw_waker \<Rightarrow> bool" where
  "waker_ok n w \<longleftrightarrow> (\<forall>a. rw_vtable w = Body_Vtable a \<longrightarrow> rw_data w = a \<and> a < n)"

definition waker_sim :: "waker_program \<Rightarrow> waker_spec \<Rightarrow> bool" where
  "waker_sim p s \<longleftrightarrow>
     counted p \<and> (\<forall>w \<in> set (owned p). waker_ok (fresh_body (wk_heap p)) w) \<and>
     sp_fresh s = fresh_body (wk_heap p) \<and> sp_wakers s = map target_of (owned p) \<and>
     sp_calls s = waker_calls (wk_heap p)"

section \<open>Counting\<close>

lemma map_without: "map f (without i xs) = without i (map f xs)"
  by (simp add: without_def take_map drop_map)

lemma set_without: "x \<in> set (without i xs) \<Longrightarrow> x \<in> set xs"
  by (auto simp: without_def dest: in_set_takeD in_set_dropD)

lemma count_without:
  "i < length xs \<Longrightarrow> count_list xs y = count_list (without i xs) y + (if xs ! i = y then 1 else 0)"
  by (subst id_take_nth_drop[of i xs]) (simp_all add: without_def)

lemma owners_without:
  "i < length ws \<Longrightarrow>
     owners a (without i ws) = owners a ws - (if rw_vtable (ws ! i) = Body_Vtable a then 1 else 0)"
  using count_without[of i "map rw_vtable ws" "Body_Vtable a"] by (simp add: owners_def map_without)

lemma owners_append: "owners a (ws @ [w]) = owners a ws + (if rw_vtable w = Body_Vtable a then 1 else 0)"
  by (simp add: owners_def)

lemma owners_pos: "i < length ws \<Longrightarrow> rw_vtable (ws ! i) = Body_Vtable a \<Longrightarrow> 0 < owners a ws"
  by (metis owners_def count_list_0_iff bot_nat_0.not_eq_extremum length_map nth_map nth_mem)

lemma owners_fresh:
  "\<forall>w \<in> set ws. waker_ok n w \<Longrightarrow> n \<le> a \<Longrightarrow> owners a ws = 0"
  by (auto simp: owners_def waker_ok_def count_list_0_iff dest!: sym[of "Body_Vtable a"])

lemmas raw_defs = raw_clone_def raw_wake_def raw_wake_by_ref_def raw_drop_def clone_waker_def
  wake_owned_def body_wake_by_ref_def drop_waker_def arc_drop_def table_readable_def call_closure_def
  noop_waker_def waker_fn_def waker_with_def

text \<open>A waker of the program has a body with its count, or none at all.\<close>

lemma owned_cases:
  assumes "waker_sim p s" "i < length (owned p)"
  obtains
    (Noop) "rw_vtable (owned p ! i) = Noop_Vtable"
  | (Fn) "rw_vtable (owned p ! i) = Fn_Vtable"
  | (Body) a where "rw_vtable (owned p ! i) = Body_Vtable a" "rw_data (owned p ! i) = a"
      "strong (wk_heap p) a = Some (owners a (owned p))" "0 < owners a (owned p)"
      "a < fresh_body (wk_heap p)"
proof (cases "rw_vtable (owned p ! i)")
  case (Body_Vtable a)
  then have "0 < owners a (owned p)" using owners_pos assms(2) by blast
  moreover have "waker_ok (fresh_body (wk_heap p)) (owned p ! i)"
    using assms by (auto simp: waker_sim_def)
  ultimately show ?thesis
    using Body assms(1) Body_Vtable by (simp add: waker_sim_def counted_def waker_ok_def)
qed (use Noop Fn in auto)

section \<open>Simulation\<close>

fun panics_by_ref :: "waker_op \<Rightarrow> bool" where
  "panics_by_ref (Wk_Wake_By_Ref panics i) = panics"
| "panics_by_ref _ = False"

lemma simI:
  assumes "waker_sim p s"
    "\<And>a. strong h a = (if owners a ws = 0 then None else Some (owners a ws))"
    "\<And>w. w \<in> set ws \<Longrightarrow> waker_ok (fresh_body h) w"
    "sp_fresh s1 = fresh_body h" "sp_wakers s1 = map target_of ws" "sp_calls s1 = waker_calls h"
  shows "waker_sim \<lparr>wk_heap = h, owned = ws\<rparr> s1"
  using assms by (simp add: waker_sim_def counted_def)

text \<open>What the three uses of an owned waker do to the counts and to the log.\<close>

lemma raw_wake_ok:
  assumes "waker_sim p s" "i < length (owned p)"
  shows "\<exists>h. raw_wake (owned p ! i) (wk_heap p) = Some h \<and> fresh_body h = fresh_body (wk_heap p) \<and>
    waker_calls h = waker_calls (wk_heap p) @ (case target_of (owned p ! i) of None \<Rightarrow> [] | Some c \<Rightarrow> [c]) \<and>
    (\<forall>a. strong h a = (let n = owners a (without i (owned p)) in if n = 0 then None else Some n))"
  using owned_cases[OF assms]
  by cases (use assms in \<open>auto simp: raw_defs waker_sim_def counted_def owners_without Let_def\<close>)

lemma raw_drop_ok:
  assumes "waker_sim p s" "i < length (owned p)"
  shows "\<exists>h. raw_drop (owned p ! i) (wk_heap p) = Some h \<and> fresh_body h = fresh_body (wk_heap p) \<and>
    waker_calls h = waker_calls (wk_heap p) \<and>
    (\<forall>a. strong h a = (let n = owners a (without i (owned p)) in if n = 0 then None else Some n))"
  using owned_cases[OF assms]
  by cases (use assms in \<open>auto simp: raw_defs waker_sim_def counted_def owners_without Let_def\<close>)

lemma raw_wake_by_ref_ok:
  assumes "waker_sim p s" "i < length (owned p)"
  shows "raw_wake_by_ref False (owned p ! i) (wk_heap p) = Some ((wk_heap p)\<lparr>waker_calls :=
    waker_calls (wk_heap p) @ (case target_of (owned p ! i) of None \<Rightarrow> [] | Some c \<Rightarrow> [c])\<rparr>)"
  using owned_cases[OF assms] by cases (auto simp: raw_defs)

lemma raw_clone_ok:
  assumes "waker_sim p s" "i < length (owned p)"
  shows "\<exists>w h. raw_clone (owned p ! i) (wk_heap p) = Some (w, h) \<and> fresh_body h = fresh_body (wk_heap p) \<and>
    waker_calls h = waker_calls (wk_heap p) \<and> target_of w = target_of (owned p ! i) \<and>
    waker_ok (fresh_body h) w \<and>
    (\<forall>a. strong h a = (let n = owners a (owned p @ [w]) in if n = 0 then None else Some n))"
  using owned_cases[OF assms]
  by cases (use assms in \<open>auto simp: raw_defs waker_sim_def counted_def owners_append waker_ok_def Let_def\<close>)

lemma waker_step_sim:
  assumes sim: "waker_sim p s" and np: "\<not> panics_by_ref op"
  shows "\<exists>p1. waker_step op p = Some p1 \<and> waker_sim p1 (spec_step op s)"
proof -
  note sim_unfold = sim[unfolded waker_sim_def counted_def]
  have len: "length (sp_wakers s) = length (owned p)"
    and nth: "i < length (owned p) \<Longrightarrow> sp_wakers s ! i = target_of (owned p ! i)" for i
    using sim_unfold by simp_all
  show ?thesis
  proof (cases op)
    case New_Noop
    then show ?thesis
      using sim_unfold by (auto simp: waker_sim_def counted_def owners_append raw_defs waker_ok_def)
  next
    case (New_Fn f)
    then show ?thesis
      using sim_unfold by (auto simp: waker_sim_def counted_def owners_append raw_defs waker_ok_def)
  next
    case New_With
    have "owners (fresh_body (wk_heap p)) (owned p) = 0"
      using sim_unfold owners_fresh[of "owned p"] by blast
    then show ?thesis
      using New_With sim_unfold
      by (auto simp: waker_sim_def counted_def owners_append raw_defs waker_ok_def)
  next
    case (Wk_Clone i)
    show ?thesis
    proof (cases "length (owned p) \<le> i")
      case False
      then obtain w h where "raw_clone (owned p ! i) (wk_heap p) = Some (w, h)"
        "fresh_body h = fresh_body (wk_heap p)" "waker_calls h = waker_calls (wk_heap p)"
        "target_of w = target_of (owned p ! i)" "waker_ok (fresh_body h) w"
        "\<forall>a. strong h a = (let n = owners a (owned p @ [w]) in if n = 0 then None else Some n)"
        using raw_clone_ok[OF sim, of i] by auto
      then show ?thesis
        using Wk_Clone False len nth[of i] sim_unfold by (auto intro!: simI[OF sim] simp: Let_def)
    qed (use Wk_Clone sim len in auto)
  next
    case (Wk_Wake i)
    show ?thesis
    proof (cases "length (owned p) \<le> i")
      case False
      then obtain h where "raw_wake (owned p ! i) (wk_heap p) = Some h"
        "fresh_body h = fresh_body (wk_heap p)"
        "waker_calls h = waker_calls (wk_heap p) @ (case target_of (owned p ! i) of None \<Rightarrow> [] | Some c \<Rightarrow> [c])"
        "\<forall>a. strong h a = (let n = owners a (without i (owned p)) in if n = 0 then None else Some n)"
        using raw_wake_ok[OF sim, of i] by auto
      then show ?thesis
        using Wk_Wake False len nth[of i] sim_unfold
        by (auto intro!: simI[OF sim] dest!: set_without simp: Let_def sp_call_def map_without)
    qed (use Wk_Wake sim len in auto)
  next
    case (Wk_Wake_By_Ref panics i)
    then show ?thesis
      using np raw_wake_by_ref_ok[OF sim, of i] sim len nth[of i]
      by (auto simp: waker_sim_def counted_def sp_call_def)
  next
    case (Wk_Drop i)
    show ?thesis
    proof (cases "length (owned p) \<le> i")
      case False
      then obtain h where "raw_drop (owned p ! i) (wk_heap p) = Some h"
        "fresh_body h = fresh_body (wk_heap p)" "waker_calls h = waker_calls (wk_heap p)"
        "\<forall>a. strong h a = (let n = owners a (without i (owned p)) in if n = 0 then None else Some n)"
        using raw_drop_ok[OF sim, of i] by auto
      then show ?thesis
        using Wk_Drop False len sim_unfold
        by (auto intro!: simI[OF sim] dest!: set_without simp: Let_def map_without)
    qed (use Wk_Drop sim len in auto)
  qed
qed

lemma waker_steps_sim:
  "waker_sim p s \<Longrightarrow> \<forall>op \<in> set ops. \<not> panics_by_ref op \<Longrightarrow>
     \<exists>p1. waker_steps ops p = Some p1 \<and> waker_sim p1 (fold spec_step ops s)"
proof (induction ops arbitrary: p s)
  case (Cons op ops)
  then obtain p1 where "waker_step op p = Some p1" "waker_sim p1 (spec_step op s)"
    using waker_step_sim[of p s op] by auto
  then show ?case using Cons by auto
qed simp

lemma no_wakers_sim: "waker_sim no_wakers spec_start"
  by (simp add: waker_sim_def counted_def no_wakers_def spec_start_def owners_def)

section \<open>Properties\<close>

text \<open>
  C25: In every program over wakers in which no closure panics while it is called by reference, no
  operation touches a freed body; a body's count is the number of wakers that own it, so it is freed
  with its last owner and not before; and the closures called, in order, are those of a reading in
  which a clone is the same waker again and each wake is one call.
\<close>

theorem waker_counts_owners:
  assumes "\<forall>op \<in> set ops. \<not> panics_by_ref op"
  shows "\<exists>p. waker_steps ops no_wakers = Some p \<and>
    (\<forall>a. strong (wk_heap p) a = (if owners a (owned p) = 0 then None else Some (owners a (owned p)))) \<and>
    map target_of (owned p) = sp_wakers (fold spec_step ops spec_start) \<and>
    waker_calls (wk_heap p) = sp_calls (fold spec_step ops spec_start)"
  using waker_steps_sim[OF no_wakers_sim assms] by (auto simp: waker_sim_def counted_def)

definition demo_waker_ops :: "waker_op list" where
  "demo_waker_ops = [New_With, Wk_Clone 0, New_Fn 9, Wk_Wake_By_Ref False 1, Wk_Wake 0, Wk_Wake 1, Wk_Drop 0]"

theorem waker_counts_owners_witness:
  "\<exists>p. waker_steps demo_waker_ops no_wakers = Some p \<and> strong (wk_heap p) 0 = None \<and>
     waker_calls (wk_heap p) = [Body_Call 0, Body_Call 0, Fn_Call 9]"
proof -
  have "\<forall>op \<in> set demo_waker_ops. \<not> panics_by_ref op" by (simp add: demo_waker_ops_def)
  from waker_counts_owners[OF this] obtain p where p: "waker_steps demo_waker_ops no_wakers = Some p"
    "\<forall>a. strong (wk_heap p) a = (if owners a (owned p) = 0 then None else Some (owners a (owned p)))"
    "map target_of (owned p) = sp_wakers (fold spec_step demo_waker_ops spec_start)"
    "waker_calls (wk_heap p) = sp_calls (fold spec_step demo_waker_ops spec_start)" by blast
  have "fold spec_step demo_waker_ops spec_start =
      \<lparr>sp_fresh = 1, sp_wakers = [], sp_calls = [Body_Call 0, Body_Call 0, Fn_Call 9]\<rparr>"
    by (simp add: demo_waker_ops_def spec_start_def sp_call_def without_def)
  then show ?thesis using p by (auto simp: owners_def)
qed

text \<open>
  When the closure of a waker that is the only owner of its body panics under \<open>wake_by_ref\<close>, the
  unwinding drops the reference that the waker still counts on: the body is freed while the waker
  lives, and every later use of the waker, its drop included, accesses freed memory.
\<close>

theorem waker_panic_dangles:
  assumes "waker_steps ops no_wakers = Some p" "\<forall>op \<in> set ops. \<not> panics_by_ref op"
    "i < length (owned p)" "rw_vtable (owned p ! i) = Body_Vtable a" "owners a (owned p) = 1"
  shows "\<exists>p1. waker_step (Wk_Wake_By_Ref True i) p = Some p1 \<and> owned p1 = owned p \<and>
    strong (wk_heap p1) a = None \<and> waker_step (Wk_Clone i) p1 = None \<and> waker_step (Wk_Wake i) p1 = None \<and>
    waker_step (Wk_Wake_By_Ref b i) p1 = None \<and> waker_step (Wk_Drop i) p1 = None"
proof -
  obtain s where "waker_sim p s" using waker_steps_sim[OF no_wakers_sim assms(2)] assms(1) by auto
  from owned_cases[OF this assms(3)] show ?thesis
    by cases (use assms(3-5) in \<open>auto simp: raw_defs\<close>)
qed

theorem waker_panic_dangles_witness:
  "\<exists>p p1. waker_steps [New_With] no_wakers = Some p \<and> waker_step (Wk_Wake_By_Ref True 0) p = Some p1 \<and>
     waker_step (Wk_Drop 0) p1 = None"
proof -
  obtain p where p: "waker_steps [New_With] no_wakers = Some p" "length (owned p) = 1"
    "rw_vtable (owned p ! 0) = Body_Vtable 0" "owners 0 (owned p) = 1"
    by (simp add: waker_with_def no_wakers_def owners_def)
  then have "\<exists>p1. waker_step (Wk_Wake_By_Ref True 0) p = Some p1 \<and> owned p1 = owned p \<and>
      strong (wk_heap p1) 0 = None \<and> waker_step (Wk_Clone 0) p1 = None \<and> waker_step (Wk_Wake 0) p1 = None \<and>
      waker_step (Wk_Wake_By_Ref False 0) p1 = None \<and> waker_step (Wk_Drop 0) p1 = None"
    by (intro waker_panic_dangles[of "[New_With]"]) simp_all
  then show ?thesis using p(1) by blast
qed

end
