(* ===== verification/Io_Core.thy ===== *)
theory Io_Core
  imports Bytes
begin

text \<open>
  The types of \<open>crates/tpt-async-io\<close> that all streams share: \<open>IoError\<close> and \<open>ReadBuf\<close> (\<open>read.rs\<close>,
  \<open>read_buf.rs\<close>).
\<close>

section \<open>Errors\<close>

datatype io_error_kind =
    Unexpected_Eof | Write_Zero | Would_Block | Broken_Pipe | Connection_Reset
  | Connection_Aborted | Io_Timed_Out | Other_Kind

datatype io_error = Io_Error io_error_kind string

definition unexpected_eof :: io_error where
  "unexpected_eof = Io_Error Unexpected_Eof ''unexpected end of stream''"

definition write_zero :: io_error where
  "write_zero = Io_Error Write_Zero ''write returned 0 bytes''"

section \<open>ReadBuf\<close>

record read_buf =
  storage :: "byte list"
  filled_len :: nat

definition rb_new :: "byte list \<Rightarrow> read_buf" where
  "rb_new s = \<lparr>storage = s, filled_len = 0\<rparr>"

definition rb_clear :: "read_buf \<Rightarrow> read_buf" where
  "rb_clear rb = rb\<lparr>filled_len := 0\<rparr>"

definition rb_filled :: "read_buf \<Rightarrow> byte list" where
  "rb_filled rb = take (filled_len rb) (storage rb)"

definition rb_unfilled :: "read_buf \<Rightarrow> byte list" where
  "rb_unfilled rb = drop (filled_len rb) (storage rb)"

definition rb_capacity :: "read_buf \<Rightarrow> nat" where
  "rb_capacity rb = length (storage rb)"

definition rb_remaining :: "read_buf \<Rightarrow> nat" where
  "rb_remaining rb = length (storage rb) - filled_len rb"

definition rb_advance :: "nat \<Rightarrow> read_buf \<Rightarrow> read_buf option" where
  "rb_advance n rb =
     (if filled_len rb + n \<le> length (storage rb) then Some (rb\<lparr>filled_len := filled_len rb + n\<rparr>) else None)"

definition rb_put_slice :: "byte list \<Rightarrow> read_buf \<Rightarrow> read_buf option" where
  "rb_put_slice bs rb =
     (if length bs \<le> rb_remaining rb
      then Some \<lparr>storage = take (filled_len rb) (storage rb) @ bs @ drop (filled_len rb + length bs) (storage rb),
                 filled_len = filled_len rb + length bs\<rparr>
      else None)"

definition rb_ok :: "read_buf \<Rightarrow> bool" where
  "rb_ok rb \<longleftrightarrow> filled_len rb \<le> length (storage rb)"

lemma rb_new_ok [simp]: "rb_ok (rb_new s)" "rb_filled (rb_new s) = []" "rb_remaining (rb_new s) = length s"
  by (simp_all add: rb_ok_def rb_new_def rb_filled_def rb_remaining_def)

lemma rb_put_slice_ok:
  assumes "rb_ok rb" "rb_put_slice bs rb = Some rb'"
  shows "rb_ok rb'" "rb_filled rb' = rb_filled rb @ bs" "rb_capacity rb' = rb_capacity rb"
    "rb_remaining rb' = rb_remaining rb - length bs"
  using assms
  by (auto simp: rb_put_slice_def rb_ok_def rb_filled_def rb_capacity_def rb_remaining_def split: if_splits)

end
