(* ===== verification/Async_Traits.thy ===== *)
theory Async_Traits
  imports Io_Core
begin

text \<open>
  The futures of \<open>AsyncReadExt\<close> and \<open>AsyncWriteExt\<close> over any reader and writer, as the code has them
  (\<open>read.rs\<close> and \<open>write.rs\<close> of \<open>tpt-async-io\<close>): the stream is a state with its \<open>poll_read\<close> or
  \<open>poll_write\<close>, which may panic (\<open>None\<close>).  The locales state the contract of the two traits, as far
  as the futures rely on it; the transports of \<open>Transport\<close> and the in-memory pipe of \<open>Fake_Io\<close> keep it.
\<close>

section \<open>The futures\<close>

type_synonym 's reader = "nat \<Rightarrow> 's \<Rightarrow> ((io_error + byte list) poll \<times> 's) option"
type_synonym 's writer = "byte list \<Rightarrow> 's \<Rightarrow> ((io_error + nat) poll \<times> 's) option"

text \<open>\<open>Read\<close>: one \<open>poll_read\<close>; the result is the number of bytes, which are in the caller's buffer.\<close>

definition read_of :: "'s reader \<Rightarrow> nat \<Rightarrow> 's \<Rightarrow> ((io_error + nat) poll \<times> byte list \<times> 's) option" where
  "read_of rd cap s = do {
     (p, s1) \<leftarrow> rd cap s;
     Some (case p of
         Pending \<Rightarrow> (Pending, [], s1)
       | Ready (Inl e) \<Rightarrow> (Ready (Inl e), [], s1)
       | Ready (Inr bs) \<Rightarrow> (Ready (Inr (length bs)), bs, s1)) }"

partial_function (option) read_exact_of ::
  "'s reader \<Rightarrow> nat \<Rightarrow> byte list \<Rightarrow> 's \<Rightarrow> ((io_error + unit) poll \<times> byte list \<times> 's) option" where
  "read_exact_of rd want got s =
     (if want \<le> length got then Some (Ready (Inr ()), got, s)
      else case rd (want - length got) s of
        None \<Rightarrow> None
      | Some (Pending, s1) \<Rightarrow> Some (Pending, got, s1)
      | Some (Ready (Inl e), s1) \<Rightarrow> Some (Ready (Inl e), got, s1)
      | Some (Ready (Inr bs), s1) \<Rightarrow>
          if bs = [] then Some (Ready (Inl unexpected_eof), got, s1)
          else read_exact_of rd want (got @ bs) s1)"

definition read_to_end_chunk :: nat where
  "read_to_end_chunk = 4096"

partial_function (option) read_to_end_of ::
  "'s reader \<Rightarrow> byte list \<Rightarrow> 's \<Rightarrow> ((io_error + unit) poll \<times> byte list \<times> 's) option" where
  "read_to_end_of rd out s =
     (case rd read_to_end_chunk s of
        None \<Rightarrow> None
      | Some (Pending, s1) \<Rightarrow> Some (Pending, out, s1)
      | Some (Ready (Inl e), s1) \<Rightarrow> Some (Ready (Inl e), out, s1)
      | Some (Ready (Inr bs), s1) \<Rightarrow>
          if bs = [] then Some (Ready (Inr ()), out, s1) else read_to_end_of rd (out @ bs) s1)"

text \<open>\<open>WriteAll\<close>; a writer that claims more than it was given makes the slice panic.\<close>

partial_function (option) write_all_of ::
  "'s writer \<Rightarrow> byte list \<Rightarrow> 's \<Rightarrow> ((io_error + unit) poll \<times> byte list \<times> 's) option" where
  "write_all_of wr buf s =
     (if buf = [] then Some (Ready (Inr ()), buf, s)
      else case wr buf s of
        None \<Rightarrow> None
      | Some (Pending, s1) \<Rightarrow> Some (Pending, buf, s1)
      | Some (Ready (Inl e), s1) \<Rightarrow> Some (Ready (Inl e), buf, s1)
      | Some (Ready (Inr n), s1) \<Rightarrow>
          if n = 0 then Some (Ready (Inl write_zero), buf, s1)
          else if length buf < n then None
          else write_all_of wr (drop n buf) s1)"

section \<open>The contract of a reader\<close>

text \<open>
  \<open>unread\<close> is what reads of the stream are still to deliver, before an error or its end, if nothing
  else happens to it.
\<close>

locale async_read =
  fixes rd :: "nat \<Rightarrow> 's \<Rightarrow> ((io_error + byte list) poll \<times> 's) option"
    and unread :: "'s \<Rightarrow> byte list"
  assumes rd_returns: "0 < cap \<Longrightarrow> rd cap s \<noteq> None"
    and rd_pending: "0 < cap \<Longrightarrow> rd cap s = Some (Pending, s1) \<Longrightarrow> unread s1 = unread s"
    and rd_error: "0 < cap \<Longrightarrow> rd cap s = Some (Ready (Inl e), s1) \<Longrightarrow> unread s = []"
    and rd_end: "0 < cap \<Longrightarrow> rd cap s = Some (Ready (Inr []), s1) \<Longrightarrow> unread s = []"
    and rd_bytes: "0 < cap \<Longrightarrow> rd cap s = Some (Ready (Inr bs), s1) \<Longrightarrow> bs \<noteq> [] \<Longrightarrow>
      length bs \<le> cap \<and> unread s = bs @ unread s1"
begin

text \<open>
  A poll of \<open>ReadExact\<close> returns; what it has put into the buffer is what the stream has lost, whether
  it is then finished or still pending, and it fails only if the stream does not have enough.
\<close>

lemma read_exact_of_spec:
  "length got \<le> want \<Longrightarrow> \<exists>p ds s1. read_exact_of rd want got s = Some (p, got @ ds, s1) \<and>
     length (got @ ds) \<le> want \<and>
     (case p of
        Pending \<Rightarrow> length (got @ ds) < want \<and> unread s = ds @ unread s1 \<and>
          (\<exists>cap > 0. \<exists>s2. rd cap s2 = Some (Pending, s1))
      | Ready (Inr _) \<Rightarrow> length (got @ ds) = want \<and> unread s = ds @ unread s1
      | Ready (Inl _) \<Rightarrow> length (got @ ds) < want \<and> unread s = ds)"
proof (induction "want - length got" arbitrary: got s rule: less_induct)
  case less
  show ?case
  proof (cases "want \<le> length got")
    case False
    then have pos: "0 < want - length got" by simp
    obtain q s2 where q: "rd (want - length got) s = Some (q, s2)" using rd_returns[OF pos] by fastforce
    show ?thesis
    proof (cases "\<exists>bs. q = Ready (Inr bs) \<and> bs \<noteq> []")
      case True
      then obtain bs where bs: "q = Ready (Inr bs)" "bs \<noteq> []" by blast
      note b = rd_bytes[OF pos q[unfolded bs(1)] bs(2)]
      have eq: "read_exact_of rd want got s = read_exact_of rd want (got @ bs) s2"
        using False q bs by (subst read_exact_of.simps) simp
      have "want - length (got @ bs) < want - length got" "length (got @ bs) \<le> want"
        using bs(2) b False by (auto simp flip: length_greater_0_conv)
      from less.hyps[OF this] obtain p ds s1 where
        "read_exact_of rd want (got @ bs) s2 = Some (p, (got @ bs) @ ds, s1)"
        "length ((got @ bs) @ ds) \<le> want"
        "case p of Pending \<Rightarrow> length ((got @ bs) @ ds) < want \<and> unread s2 = ds @ unread s1 \<and>
            (\<exists>cap > 0. \<exists>s2. rd cap s2 = Some (Pending, s1))
          | Ready (Inr _) \<Rightarrow> length ((got @ bs) @ ds) = want \<and> unread s2 = ds @ unread s1
          | Ready (Inl _) \<Rightarrow> length ((got @ bs) @ ds) < want \<and> unread s2 = ds" by blast
      then show ?thesis
        using b unfolding eq
        by (intro exI[of _ p] exI[of _ "bs @ ds"] exI[of _ s1]) (auto split: poll.splits sum.splits)
    next
      case stop: False
      then consider "q = Pending" | e where "q = Ready (Inl e)" | "q = Ready (Inr [])"
        by (cases q; auto) (metis old.sum.exhaust)
      then have "\<exists>p. read_exact_of rd want got s = Some (p, got, s2) \<and>
        (case p of Pending \<Rightarrow> unread s = unread s2 \<and> (\<exists>cap > 0. \<exists>s1. rd cap s1 = Some (Pending, s2))
         | Ready (Inr _) \<Rightarrow> False | Ready (Inl _) \<Rightarrow> unread s = [])"
      proof cases
        case 1
        have "\<exists>cap > 0. \<exists>s1. rd cap s1 = Some (Pending, s2)" using pos q 1 by blast
        then show ?thesis using False q 1 rd_pending[OF pos, of s s2] by (subst read_exact_of.simps) simp
      next
        case 2
        then show ?thesis using False q rd_error[OF pos, of s] by (subst read_exact_of.simps) simp
      next
        case 3
        then show ?thesis using False q rd_end[OF pos, of s] by (subst read_exact_of.simps) simp
      qed
      then obtain p where "read_exact_of rd want got s = Some (p, got, s2)"
        "case p of Pending \<Rightarrow> unread s = unread s2 \<and> (\<exists>cap > 0. \<exists>s1. rd cap s1 = Some (Pending, s2))
         | Ready (Inr _) \<Rightarrow> False | Ready (Inl _) \<Rightarrow> unread s = []"
        by blast
      then show ?thesis
        using False by (intro exI[of _ p] exI[of _ "[]"] exI[of _ s2]) (auto split: poll.splits sum.splits)
    qed
  qed (use less.prems in \<open>simp add: read_exact_of.simps\<close>)
qed

lemma read_to_end_of_spec:
  "\<exists>p ds s1. read_to_end_of rd out s = Some (p, out @ ds, s1) \<and>
     (if p = Pending then unread s = ds @ unread s1 else unread s = ds)"
proof (induction "length (unread s)" arbitrary: out s rule: less_induct)
  case less
  have pos: "0 < read_to_end_chunk" by (simp add: read_to_end_chunk_def)
  obtain q s2 where q: "rd read_to_end_chunk s = Some (q, s2)" using rd_returns[OF pos] by fastforce
  show ?case
  proof (cases "\<exists>bs. q = Ready (Inr bs) \<and> bs \<noteq> []")
    case True
    then obtain bs where bs: "q = Ready (Inr bs)" "bs \<noteq> []" by blast
    note b = rd_bytes[OF pos q[unfolded bs(1)] bs(2)]
    have eq: "read_to_end_of rd out s = read_to_end_of rd (out @ bs) s2"
      using q bs by (subst read_to_end_of.simps) simp
    have "length (unread s2) < length (unread s)" using b bs(2) by simp
    from less.hyps[OF this] obtain p ds s1 where
      "read_to_end_of rd (out @ bs) s2 = Some (p, (out @ bs) @ ds, s1)"
      "if p = Pending then unread s2 = ds @ unread s1 else unread s2 = ds" by blast
    then show ?thesis
      using b unfolding eq by (intro exI[of _ p] exI[of _ "bs @ ds"] exI[of _ s1]) auto
  next
    case False
    then show ?thesis
      using q rd_pending[OF pos] rd_error[OF pos] rd_end[OF pos]
      by (subst read_to_end_of.simps) (auto split: poll.splits sum.splits)
  qed
qed

end

section \<open>The contract of a writer\<close>

text \<open>\<open>taken\<close> is what the writer has taken over so far.\<close>

locale async_write =
  fixes wr :: "byte list \<Rightarrow> 's \<Rightarrow> ((io_error + nat) poll \<times> 's) option"
    and taken :: "'s \<Rightarrow> byte list"
  assumes wr_returns: "wr bs s \<noteq> None"
    and wr_refused: "wr bs s = Some (p, s1) \<Longrightarrow> p = Pending \<or> (\<exists>e. p = Ready (Inl e)) \<Longrightarrow> taken s1 = taken s"
    and wr_takes: "wr bs s = Some (Ready (Inr n), s1) \<Longrightarrow> n \<le> length bs \<and> taken s1 = taken s @ take n bs"
begin

lemma write_all_of_spec:
  "\<exists>p sent rest s1. write_all_of wr buf s = Some (p, rest, s1) \<and> buf = sent @ rest \<and>
     taken s1 = taken s @ sent \<and> (p = Ready (Inr ()) \<longleftrightarrow> rest = [])"
proof (induction "length buf" arbitrary: buf s rule: less_induct)
  case less
  show ?case
  proof (cases "buf = []")
    case False
    obtain q s2 where q: "wr buf s = Some (q, s2)" using wr_returns by fastforce
    show ?thesis
    proof (cases "\<exists>n. q = Ready (Inr n)")
      case True
      then obtain n where n: "q = Ready (Inr n)" by blast
      note t = wr_takes[OF q[unfolded n]]
      show ?thesis
      proof (cases "n = 0")
        case True
        then show ?thesis using False q n t by (subst write_all_of.simps) simp
      next
        case pos: False
        have eq: "write_all_of wr buf s = write_all_of wr (drop n buf) s2"
          using False q n t pos by (subst write_all_of.simps) simp
        have "length (drop n buf) < length buf" using pos False by simp
        from less.hyps[OF this] obtain p sent rest s1 where
          "write_all_of wr (drop n buf) s2 = Some (p, rest, s1)" "drop n buf = sent @ rest"
          "taken s1 = taken s2 @ sent" "p = Ready (Inr ()) \<longleftrightarrow> rest = []" by blast
        moreover from this(2) have "buf = (take n buf @ sent) @ rest"
          by (metis append_assoc append_take_drop_id)
        ultimately show ?thesis
          using t unfolding eq by (intro exI[of _ p] exI[of _ "take n buf @ sent"] exI[of _ rest] exI[of _ s1]) auto
      qed
    next
      case stop: False
      then show ?thesis
        using False q wr_refused[OF q]
        by (subst write_all_of.simps) (cases q; auto split: sum.splits)
    qed
  qed (simp add: write_all_of.simps)
qed

end

section \<open>The contract of a pipe\<close>

text \<open>
  A pipe: what a writer has handed over is what a reader of the other end gets, and the reader is
  kept waiting only when there is nothing.
\<close>

locale async_pipe = w: async_write wr buffered + r: async_read rd buffered
  for wr :: "byte list \<Rightarrow> 's \<Rightarrow> ((io_error + nat) poll \<times> 's) option"
    and rd :: "nat \<Rightarrow> 's \<Rightarrow> ((io_error + byte list) poll \<times> 's) option"
    and buffered :: "'s \<Rightarrow> byte list" +
  assumes waits_empty: "0 < cap \<Longrightarrow> rd cap s = Some (Pending, s1) \<Longrightarrow> buffered s = []"
begin

lemma read_exact_available:
  assumes "want \<le> length (buffered s)"
  shows "\<exists>s1. read_exact_of rd want [] s = Some (Ready (Inr ()), take want (buffered s), s1) \<and>
    buffered s1 = drop want (buffered s)"
proof -
  obtain p ds s1 where p: "read_exact_of rd want [] s = Some (p, ds, s1)" "length ds \<le> want"
    "case p of
        Pending \<Rightarrow> length ds < want \<and> buffered s = ds @ buffered s1 \<and>
          (\<exists>cap > 0. \<exists>s2. rd cap s2 = Some (Pending, s1))
      | Ready (Inr _) \<Rightarrow> length ds = want \<and> buffered s = ds @ buffered s1
      | Ready (Inl _) \<Rightarrow> length ds < want \<and> buffered s = ds"
    using r.read_exact_of_spec[of "[]" want s, unfolded append_Nil] by auto
  have "p \<noteq> Pending" using p(3) waits_empty r.rd_pending assms by fastforce
  then have "p = Ready (Inr ()) \<and> length ds = want \<and> buffered s = ds @ buffered s1"
    using p(3) assms by (auto split: poll.splits sum.splits)
  then show ?thesis using p(1) by auto
qed

text \<open>What \<open>write_all\<close> has delivered is read back behind what was in the pipe before.\<close>

lemma write_then_read:
  assumes "write_all_of wr bs s = Some (Ready (Inr ()), rest, s1)"
  shows "\<exists>s2. read_exact_of rd (length (buffered s) + length bs) [] s1 = Some (Ready (Inr ()), buffered s @ bs, s2) \<and>
    buffered s2 = []"
proof -
  have "buffered s1 = buffered s @ bs" using w.write_all_of_spec[of bs s] assms by auto
  then show ?thesis using read_exact_available[of "length (buffered s) + length bs" s1] by simp
qed

end

end
