(* ===== verification/Transport.thy ===== *)
theory Transport
  imports Async_Traits
begin

text \<open>
  The streams under the protocols: the traits \<open>AsyncRead\<close> and \<open>AsyncWrite\<close> over an arbitrary peer, and
  the futures of \<open>AsyncReadExt\<close> and \<open>AsyncWriteExt\<close> on it, awaited to their end.  A transport is the peer: a script of what its polls will answer (any chunking, any stalls, errors,
  end of stream), a script of how writes are accepted, the bytes handed over by them, and
  whether flushing fails.
  All theorems quantify over the scripts.
\<close>

section \<open>Transports\<close>

text \<open>
  What one poll of a reader answers: nothing yet, some bytes, or an error; after the script
  the stream has ended.  A chunk of no bytes is an end-of-stream answer in the middle.
\<close>

datatype read_event = Idle | Chunk "byte list" | Read_Error io_error

datatype write_event = Busy | Accept nat | Write_Error io_error

record transport =
  incoming :: "read_event list"
  accepting :: "write_event list"
  outgoing :: "byte list"
  flush_error :: "io_error option"

text \<open>\<open>poll_read\<close> with a fresh \<open>ReadBuf\<close> of capacity \<open>cap\<close>: what \<open>filled()\<close> is afterwards.\<close>

fun tr_poll_read :: "nat \<Rightarrow> transport \<Rightarrow> (io_error + byte list) poll \<times> transport" where
  "tr_poll_read cap t =
     (case incoming t of
        [] \<Rightarrow> (Ready (Inr []), t)
      | Idle # r \<Rightarrow> (Pending, t\<lparr>incoming := r\<rparr>)
      | Read_Error e # r \<Rightarrow> (Ready (Inl e), t\<lparr>incoming := r\<rparr>)
      | Chunk bs # r \<Rightarrow>
          if length bs \<le> cap then (Ready (Inr bs), t\<lparr>incoming := r\<rparr>)
          else (Ready (Inr (take cap bs)), t\<lparr>incoming := Chunk (drop cap bs) # r\<rparr>))"

declare tr_poll_read.simps [simp del]

text \<open>\<open>poll_write\<close>: how many bytes were taken.  After the script every write is taken whole.\<close>

fun tr_poll_write :: "byte list \<Rightarrow> transport \<Rightarrow> (io_error + nat) poll \<times> transport" where
  "tr_poll_write bs t =
     (case accepting t of
        [] \<Rightarrow> (Ready (Inr (length bs)), t\<lparr>outgoing := outgoing t @ bs\<rparr>)
      | Busy # r \<Rightarrow> (Pending, t\<lparr>accepting := r\<rparr>)
      | Write_Error e # r \<Rightarrow> (Ready (Inl e), t\<lparr>accepting := r\<rparr>)
      | Accept n # r \<Rightarrow>
          (Ready (Inr (min n (length bs))), t\<lparr>accepting := r, outgoing := outgoing t @ take n bs\<rparr>))"

declare tr_poll_write.simps [simp del]

text \<open>The bytes a script still delivers before its first error or end of stream.\<close>

fun pending_bytes :: "read_event list \<Rightarrow> byte list" where
  "pending_bytes [] = []"
| "pending_bytes (Idle # r) = pending_bytes r"
| "pending_bytes (Read_Error e # r) = []"
| "pending_bytes (Chunk bs # r) = (if bs = [] then [] else bs @ pending_bytes r)"

text \<open>The size of a script, which every poll that is not at the end decreases.\<close>

fun script_size :: "read_event list \<Rightarrow> nat" where
  "script_size [] = 0"
| "script_size (Chunk bs # r) = 1 + length bs + script_size r"
| "script_size (_ # r) = 1 + script_size r"

section \<open>The reading futures\<close>

text \<open>
  \<open>ReadExact\<close>: \<open>got\<close> is \<open>buf[..pos]\<close> and \<open>want\<close> is \<open>buf.len()\<close>.  A poll runs the loop until
  the reader is pending, fails, ends, or the buffer is full.
\<close>

function read_exact_poll ::
  "nat \<Rightarrow> byte list \<Rightarrow> transport \<Rightarrow> (io_error + unit) poll \<times> byte list \<times> transport" where
  "read_exact_poll want got t =
     (if want \<le> length got then (Ready (Inr ()), got, t)
      else case tr_poll_read (want - length got) t of
        (Pending, t1) \<Rightarrow> (Pending, got, t1)
      | (Ready (Inl e), t1) \<Rightarrow> (Ready (Inl e), got, t1)
      | (Ready (Inr bs), t1) \<Rightarrow>
          if bs = [] then (Ready (Inl unexpected_eof), got, t1)
          else read_exact_poll want (got @ bs) t1)"
  by pat_completeness auto
termination
  by (relation "measure (\<lambda>(want, got, t). want - length got)") (auto simp flip: length_greater_0_conv)

declare read_exact_poll.simps [simp del]

lemma tr_poll_read_size:
  assumes "tr_poll_read cap t = (Ready (Inr bs), t1)" "bs \<noteq> []"
  shows "script_size (incoming t1) < script_size (incoming t)"
  using assms
  by (auto simp: tr_poll_read.simps split: list.splits read_event.splits if_splits)

text \<open>\<open>ReadToEnd\<close> with its 4096-byte steps; \<open>out\<close> is the caller's vector.\<close>

function read_to_end_poll ::
  "byte list \<Rightarrow> transport \<Rightarrow> (io_error + unit) poll \<times> byte list \<times> transport" where
  "read_to_end_poll out t =
     (case tr_poll_read read_to_end_chunk t of
        (Pending, t1) \<Rightarrow> (Pending, out, t1)
      | (Ready (Inl e), t1) \<Rightarrow> (Ready (Inl e), out, t1)
      | (Ready (Inr bs), t1) \<Rightarrow>
          if bs = [] then (Ready (Inr ()), out, t1)
          else read_to_end_poll (out @ bs) t1)"
  by pat_completeness auto
termination
  by (relation "measure (\<lambda>(out, t). script_size (incoming t))") (auto intro: tr_poll_read_size[OF sym])

declare read_to_end_poll.simps [simp del]

section \<open>The writing future\<close>

text \<open>\<open>WriteAll\<close>: a poll writes until the sink is pending, fails, takes nothing, or all is written.\<close>

function write_all_poll ::
  "byte list \<Rightarrow> transport \<Rightarrow> (io_error + unit) poll \<times> byte list \<times> transport" where
  "write_all_poll buf t =
     (if buf = [] then (Ready (Inr ()), buf, t)
      else case tr_poll_write buf t of
        (Pending, t1) \<Rightarrow> (Pending, buf, t1)
      | (Ready (Inl e), t1) \<Rightarrow> (Ready (Inl e), buf, t1)
      | (Ready (Inr n), t1) \<Rightarrow>
          if n = 0 then (Ready (Inl write_zero), buf, t1)
          else write_all_poll (drop n buf) t1)"
  by pat_completeness auto
termination
  by (relation "measure (\<lambda>(buf, t). length buf)") auto

declare write_all_poll.simps [simp del]


section \<open>Awaiting\<close>

text \<open>
  \<open>.await\<close>: a future is polled again each time it was pending, until it is ready.  A
  pending poll uses up a stall of the script, so awaiting ends.
\<close>

lemma tr_poll_read_pending:
  "tr_poll_read cap t = (Pending, t1) \<Longrightarrow> incoming t = Idle # incoming t1 \<and> outgoing t1 = outgoing t \<and>
     accepting t1 = accepting t"
  by (auto simp: tr_poll_read.simps split: list.splits read_event.splits if_splits)

lemma tr_poll_write_pending:
  "tr_poll_write bs t = (Pending, t1) \<Longrightarrow> accepting t = Busy # accepting t1 \<and> outgoing t1 = outgoing t \<and>
     incoming t1 = incoming t"
  by (auto simp: tr_poll_write.simps split: list.splits write_event.splits)

function tr_read :: "nat \<Rightarrow> transport \<Rightarrow> (io_error + byte list) \<times> transport" where
  "tr_read cap t =
     (case tr_poll_read cap t of
        (Pending, t1) \<Rightarrow> tr_read cap t1
      | (Ready r, t1) \<Rightarrow> (r, t1))"
  by pat_completeness auto
termination
  by (relation "measure (\<lambda>(cap, t). length (incoming t))") (auto dest!: sym[THEN tr_poll_read_pending])

declare tr_read.simps [simp del]

lemma read_exact_poll_size:
  "read_exact_poll want got t = (p, got1, t1) \<Longrightarrow>
     script_size (incoming t1) \<le> script_size (incoming t) \<and>
     (p = Pending \<longrightarrow> script_size (incoming t1) < script_size (incoming t))"
proof (induction want got t rule: read_exact_poll.induct)
  case (1 want got t)
  show ?case
  proof (cases "want \<le> length got")
    case True
    then show ?thesis using "1.prems" by (auto simp: read_exact_poll.simps)
  next
    case False
    obtain q t2 where q: "tr_poll_read (want - length got) t = (q, t2)" by fastforce
    have le: "script_size (incoming t2) \<le> script_size (incoming t)"
      using q by (auto simp: tr_poll_read.simps split: list.splits read_event.splits if_splits)
    show ?thesis
    proof (cases q)
      case Pending
      then have "incoming t = Idle # incoming t2" using tr_poll_read_pending q by blast
      then show ?thesis using "1.prems" False q Pending by (subst (asm) read_exact_poll.simps) auto
    next
      case (Ready r)
      have eq: "read_exact_poll want got t = (case r of
          Inl e \<Rightarrow> (Ready (Inl e), got, t2)
        | Inr bs \<Rightarrow> if bs = [] then (Ready (Inl unexpected_eof), got, t2) else read_exact_poll want (got @ bs) t2)"
        using False q Ready by (subst read_exact_poll.simps) simp
      show ?thesis
        using "1.IH"[OF False q[symmetric] Ready] "1.prems" le unfolding eq
        by (auto split: sum.splits if_splits)
    qed
  qed
qed


function await_read_exact :: "nat \<Rightarrow> byte list \<Rightarrow> transport \<Rightarrow> (io_error + unit) \<times> byte list \<times> transport" where
  "await_read_exact want got t =
     (case read_exact_poll want got t of
        (Pending, got1, t1) \<Rightarrow> await_read_exact want got1 t1
      | (Ready r, got1, t1) \<Rightarrow> (r, got1, t1))"
  by pat_completeness auto
termination
  by (relation "measure (\<lambda>(want, got, t). script_size (incoming t))")
     (auto dest!: sym[THEN read_exact_poll_size])

declare await_read_exact.simps [simp del]

lemma write_all_poll_written:
  "write_all_poll buf t = (p, rest, t1) \<Longrightarrow>
     \<exists>sent. buf = sent @ rest \<and> outgoing t1 = outgoing t @ sent \<and> incoming t1 = incoming t \<and>
       length (accepting t1) \<le> length (accepting t) \<and>
       (p = Pending \<longrightarrow> length (accepting t1) < length (accepting t)) \<and>
       (p = Ready (Inr ()) \<longleftrightarrow> rest = [])"
proof (induction buf t arbitrary: rest t1 rule: write_all_poll.induct)
  case (1 buf t)
  show ?case
  proof (cases "buf = []")
    case True
    then show ?thesis using "1.prems" by (auto simp: write_all_poll.simps)
  next
    case False
    obtain q t2 where q: "tr_poll_write buf t = (q, t2)" by fastforce
    show ?thesis
    proof (cases q)
      case Pending
      then have "accepting t = Busy # accepting t2" "outgoing t2 = outgoing t" "incoming t2 = incoming t"
        using tr_poll_write_pending q by blast+
      then show ?thesis using "1.prems" False q Pending by (subst (asm) write_all_poll.simps) auto
    next
      case ready: (Ready r)
      show ?thesis
      proof (cases r)
        case (Inl e)
        then have "accepting t = Write_Error e # accepting t2" "outgoing t2 = outgoing t" "incoming t2 = incoming t"
          using q ready by (auto simp: tr_poll_write.simps split: list.splits write_event.splits)
        then show ?thesis using "1.prems" False q ready Inl by (subst (asm) write_all_poll.simps) auto
      next
        case (Inr n)
        have w: "outgoing t2 = outgoing t @ take n buf" "incoming t2 = incoming t"
            "length (accepting t2) \<le> length (accepting t)"
          using q ready Inr
          by (auto simp: tr_poll_write.simps take_all_iff min_def split: list.splits write_event.splits if_splits)
        show ?thesis
        proof (cases "n = 0")
          case True
          then show ?thesis using "1.prems" False q ready Inr w by (subst (asm) write_all_poll.simps) auto
        next
          case n: False
          then have eq: "write_all_poll (drop n buf) t2 = (p, rest, t1)"
            using "1.prems" False q ready Inr by (subst (asm) write_all_poll.simps) simp
          obtain dn where "drop n buf = dn @ rest" "outgoing t1 = outgoing t2 @ dn" "incoming t1 = incoming t2"
              "length (accepting t1) \<le> length (accepting t2)"
              "p = Pending \<longrightarrow> length (accepting t1) < length (accepting t2)"
              "p = Ready (Inr ()) \<longleftrightarrow> rest = []"
            using "1.IH"[OF False q[symmetric] ready Inr n eq] by blast
          moreover from this(1) have "buf = (take n buf @ dn) @ rest"
            by (metis append_assoc append_take_drop_id)
          ultimately show ?thesis
            using w by (intro exI[of _ "take n buf @ dn"]) auto
        qed
      qed
    qed
  qed
qed

function await_write_all :: "byte list \<Rightarrow> transport \<Rightarrow> (io_error + unit) \<times> byte list \<times> transport" where
  "await_write_all buf t =
     (case write_all_poll buf t of
        (Pending, rest, t1) \<Rightarrow> await_write_all rest t1
      | (Ready r, rest, t1) \<Rightarrow> (r, rest, t1))"
  by pat_completeness auto
termination
  by (relation "measure (\<lambda>(buf, t). length (accepting t))")
     (auto dest!: sym[THEN write_all_poll_written])

declare await_write_all.simps [simp del]

text \<open>\<open>io.flush().await\<close> and \<open>io.write_all(bytes).await\<close>.\<close>

definition tr_flush :: "transport \<Rightarrow> io_error + unit" where
  "tr_flush t = (case flush_error t of None \<Rightarrow> Inr () | Some e \<Rightarrow> Inl e)"

definition tr_write_all :: "byte list \<Rightarrow> transport \<Rightarrow> (io_error + unit) \<times> transport" where
  "tr_write_all bs t = (case await_write_all bs t of (r, _, t1) \<Rightarrow> (r, t1))"

lemma await_write_all_written:
  "await_write_all buf t = (r, rest, t1) \<Longrightarrow>
     \<exists>sent. buf = sent @ rest \<and> outgoing t1 = outgoing t @ sent \<and> incoming t1 = incoming t \<and>
       (r = Inr () \<longleftrightarrow> rest = [])"
proof (induction buf t arbitrary: rest t1 rule: await_write_all.induct)
  case (1 buf t)
  obtain p rest2 t2 where p: "write_all_poll buf t = (p, rest2, t2)" by (metis prod_cases3)
  obtain dn where dn: "buf = dn @ rest2" "outgoing t2 = outgoing t @ dn" "incoming t2 = incoming t"
      "p = Ready (Inr ()) \<longleftrightarrow> rest2 = []"
    using write_all_poll_written[OF p] by blast
  show ?case
  proof (cases p)
    case Pending
    then have "await_write_all rest2 t2 = (r, rest, t1)"
      using "1.prems" p by (subst (asm) await_write_all.simps) simp
    from "1.IH"[OF p[symmetric] Pending refl this] obtain dn2 where
      "rest2 = dn2 @ rest" "outgoing t1 = outgoing t2 @ dn2" "incoming t1 = incoming t2" "r = Inr () \<longleftrightarrow> rest = []"
      by blast
    then show ?thesis using dn by (intro exI[of _ "dn @ dn2"]) simp
  next
    case (Ready x)
    then have "await_write_all buf t = (x, rest2, t2)"
      using p by (subst await_write_all.simps) simp
    then show ?thesis using "1.prems" dn Ready by auto
  qed
qed


section \<open>What the readers deliver\<close>

lemma tr_poll_read_frame:
  "tr_poll_read cap t = (p, t1) \<Longrightarrow>
     outgoing t1 = outgoing t \<and> accepting t1 = accepting t \<and> flush_error t1 = flush_error t"
  by (auto simp: tr_poll_read.simps split: list.splits read_event.splits if_splits)

lemma tr_poll_read_bytes:
  assumes "tr_poll_read cap t = (p, t1)" "0 < cap"
  shows "case p of
      Pending \<Rightarrow> pending_bytes (incoming t) = pending_bytes (incoming t1)
    | Ready (Inl e) \<Rightarrow> pending_bytes (incoming t) = []
    | Ready (Inr bs) \<Rightarrow> length bs \<le> cap \<and>
        pending_bytes (incoming t) = (if bs = [] then [] else bs @ pending_bytes (incoming t1))"
  using assms
  by (auto simp: tr_poll_read.simps min_def split: list.splits read_event.splits if_splits)

section \<open>The contracts\<close>

definition tr_reader :: "transport reader" where
  "tr_reader cap t = Some (tr_poll_read cap t)"

definition tr_writer :: "transport writer" where
  "tr_writer bs t = Some (tr_poll_write bs t)"

interpretation tr_read_end: async_read tr_reader "\<lambda>t. pending_bytes (incoming t)"
  by unfold_locales (auto simp: tr_reader_def dest!: tr_poll_read_bytes split: if_splits)

interpretation tr_write_end: async_write tr_writer outgoing
  by unfold_locales
    (auto simp: tr_writer_def tr_poll_write.simps take_all_iff min_def split: list.splits write_event.splits if_splits)

text \<open>The futures that the protocols use, over transports, are the general ones.\<close>

lemma read_exact_of_tr: "read_exact_of tr_reader want got t = Some (read_exact_poll want got t)"
proof (induction want got t rule: read_exact_poll.induct)
  case (1 want got t)
  show ?case
    using "1.IH" by (subst read_exact_of.simps, subst read_exact_poll.simps)
      (auto simp: tr_reader_def[of "want - length got" t] split: prod.splits poll.splits sum.splits)
qed

lemma read_to_end_of_tr: "read_to_end_of tr_reader out t = Some (read_to_end_poll out t)"
proof (induction out t rule: read_to_end_poll.induct)
  case (1 out t)
  show ?case
    using "1.IH" by (subst read_to_end_of.simps, subst read_to_end_poll.simps)
      (auto simp: tr_reader_def[of read_to_end_chunk t] split: prod.splits poll.splits sum.splits)
qed

lemma read_exact_poll_bytes:
  "read_exact_poll want got t = (p, got1, t1) \<Longrightarrow> length got \<le> want \<Longrightarrow>
     \<exists>ds. got1 = got @ ds \<and> length got1 \<le> want \<and>
       (case p of
          Pending \<Rightarrow> pending_bytes (incoming t) = ds @ pending_bytes (incoming t1)
        | Ready (Inr _) \<Rightarrow> length got1 = want \<and> pending_bytes (incoming t) = ds @ pending_bytes (incoming t1)
        | Ready (Inl _) \<Rightarrow> length got1 < want \<and> pending_bytes (incoming t) = ds)"
proof -
  assume "read_exact_poll want got t = (p, got1, t1)" "length got \<le> want"
  with tr_read_end.read_exact_of_spec[of got want t] read_exact_of_tr[of want got t] obtain ds where
    "got1 = got @ ds" "length (got @ ds) \<le> want"
    "case p of
       Pending \<Rightarrow> length (got @ ds) < want \<and> pending_bytes (incoming t) = ds @ pending_bytes (incoming t1) \<and>
         (\<exists>cap > 0. \<exists>t2. tr_reader cap t2 = Some (Pending, t1))
     | Ready (Inr _) \<Rightarrow> length (got @ ds) = want \<and> pending_bytes (incoming t) = ds @ pending_bytes (incoming t1)
     | Ready (Inl _) \<Rightarrow> length (got @ ds) < want \<and> pending_bytes (incoming t) = ds"
    by auto
  then show ?thesis by (intro exI[of _ ds]) (simp split: poll.splits sum.splits)
qed

lemma await_read_exact_bytes:
  "await_read_exact want got t = (r, got1, t1) \<Longrightarrow> length got \<le> want \<Longrightarrow>
     \<exists>ds. got1 = got @ ds \<and>
       (case r of
          Inr _ \<Rightarrow> length got1 = want \<and> pending_bytes (incoming t) = ds @ pending_bytes (incoming t1)
        | Inl _ \<Rightarrow> length got1 < want \<and> pending_bytes (incoming t) = ds)"
proof (induction want got t rule: await_read_exact.induct)
  case (1 want got t)
  obtain p got2 t2 where p: "read_exact_poll want got t = (p, got2, t2)" by (metis prod_cases3)
  obtain ds where ds: "got2 = got @ ds" "length got2 \<le> want"
      "case p of
          Pending \<Rightarrow> pending_bytes (incoming t) = ds @ pending_bytes (incoming t2)
        | Ready (Inr _) \<Rightarrow> length got2 = want \<and> pending_bytes (incoming t) = ds @ pending_bytes (incoming t2)
        | Ready (Inl _) \<Rightarrow> length got2 < want \<and> pending_bytes (incoming t) = ds"
    using read_exact_poll_bytes[OF p "1.prems"(2)] by blast
  show ?case
  proof (cases p)
    case Pending
    then have "await_read_exact want got2 t2 = (r, got1, t1)"
      using "1.prems" p by (subst (asm) await_read_exact.simps) simp
    from "1.IH"[OF p[symmetric] Pending refl this ds(2)] obtain ds2 where
      "got1 = got2 @ ds2" "case r of
          Inr _ \<Rightarrow> length got1 = want \<and> pending_bytes (incoming t2) = ds2 @ pending_bytes (incoming t1)
        | Inl _ \<Rightarrow> length got1 < want \<and> pending_bytes (incoming t2) = ds2" by blast
    then show ?thesis using ds Pending by (intro exI[of _ "ds @ ds2"]) (auto split: sum.splits)
  next
    case (Ready x)
    then have "await_read_exact want got t = (x, got2, t2)"
      using p by (subst await_read_exact.simps) simp
    then show ?thesis using "1.prems" ds Ready by auto
  qed
qed

lemma tr_read_bytes:
  "tr_read cap t = (r, t1) \<Longrightarrow> 0 < cap \<Longrightarrow>
     outgoing t1 = outgoing t \<and> accepting t1 = accepting t \<and> flush_error t1 = flush_error t \<and>
     (case r of
        Inl e \<Rightarrow> pending_bytes (incoming t) = []
      | Inr bs \<Rightarrow> length bs \<le> cap \<and>
          pending_bytes (incoming t) = (if bs = [] then [] else bs @ pending_bytes (incoming t1)))"
proof (induction cap t rule: tr_read.induct)
  case (1 cap t)
  obtain p t2 where p: "tr_poll_read cap t = (p, t2)" by fastforce
  note b = tr_poll_read_bytes[OF p "1.prems"(2)] tr_poll_read_frame[OF p]
  show ?case
  proof (cases p)
    case Pending
    then have "tr_read cap t2 = (r, t1)" using "1.prems"(1) p by (subst (asm) tr_read.simps) simp
    from "1.IH"[OF p[symmetric] Pending this "1.prems"(2)] b Pending show ?thesis
      by (auto split: sum.splits)
  next
    case (Ready x)
    then have "tr_read cap t = (x, t2)" using p by (subst tr_read.simps) simp
    then show ?thesis using "1.prems"(1) b Ready by (auto split: sum.splits)
  qed
qed

lemma tr_read_size:
  "tr_read cap t = (Inr bs, t1) \<Longrightarrow> bs \<noteq> [] \<Longrightarrow> script_size (incoming t1) < script_size (incoming t)"
proof (induction cap t rule: tr_read.induct)
  case (1 cap t)
  obtain p t2 where p: "tr_poll_read cap t = (p, t2)" by fastforce
  show ?case
  proof (cases p)
    case Pending
    then have "tr_read cap t2 = (Inr bs, t1)" using "1.prems"(1) p by (subst (asm) tr_read.simps) simp
    from "1.IH"[OF p[symmetric] Pending this "1.prems"(2)] show ?thesis
      using tr_poll_read_pending p Pending by fastforce
  next
    case (Ready x)
    then have "tr_read cap t = (x, t2)" using p by (subst tr_read.simps) simp
    then show ?thesis using "1.prems" p Ready tr_poll_read_size by auto
  qed
qed


lemma tr_write_all_sent:
  assumes "tr_write_all bs t = (r, t1)"
  shows "\<exists>sent rest. bs = sent @ rest \<and> outgoing t1 = outgoing t @ sent \<and> incoming t1 = incoming t \<and>
           (r = Inr () \<longleftrightarrow> rest = [])"
proof -
  obtain x rest t2 where x: "await_write_all bs t = (x, rest, t2)" by (metis prod_cases3)
  moreover have "r = x" "t1 = t2" using assms x by (simp_all add: tr_write_all_def)
  ultimately show ?thesis using await_write_all_written[OF x] by blast
qed

end
