(* ===== verification/Fake_Io.thy ===== *)
theory Fake_Io
  imports Transport
begin

text \<open>
  The in-memory transports of \<open>crates/tpt-async-test/src/lib.rs\<close>: \<open>io_pair\<close> makes two connected
  ends, each with a queue that it writes and its peer reads.  The first half are the operations of
  \<open>FakeIo\<close> as whole calls; the two ends may be used from different threads, so the second half is
  the step relation in which their atomic actions interleave.
\<close>

section \<open>The pair\<close>

datatype fake_end = End_A | End_B

fun other_end :: "fake_end \<Rightarrow> fake_end" where
  "other_end End_A = End_B"
| "other_end End_B = End_A"

lemma other_end_simps [simp]: "other_end (other_end e) = e" "other_end e \<noteq> e" "e \<noteq> other_end e"
  by (cases e; simp)+

lemma other_end_cases: "d = e \<or> d = other_end e"
  by (cases d; cases e) simp_all

text \<open>A waker is named by a number, and \<open>wake_log\<close> lists those that were called.\<close>

record byte_queue =
  q_bytes :: "byte list"
  q_reader :: "nat option"

text \<open>\<open>queue_of e\<close> is the queue that end \<open>e\<close> writes, \<open>closed_of e\<close> its \<open>write_closed\<close>.\<close>

record fake_state =
  queue_of :: "fake_end \<Rightarrow> byte_queue"
  closed_of :: "fake_end \<Rightarrow> bool"
  wake_log :: "nat list"

definition fake_pair :: fake_state where
  "fake_pair = \<lparr>queue_of = (\<lambda>_. \<lparr>q_bytes = [], q_reader = None\<rparr>), closed_of = (\<lambda>_. False), wake_log = []\<rparr>"

definition set_queue :: "fake_end \<Rightarrow> byte_queue \<Rightarrow> fake_state \<Rightarrow> fake_state" where
  "set_queue e q s = s\<lparr>queue_of := (queue_of s)(e := q)\<rparr>"

definition wake_reader :: "fake_end \<Rightarrow> fake_state \<Rightarrow> fake_state" where
  "wake_reader e s =
     (case q_reader (queue_of s e) of
        None \<Rightarrow> s
      | Some w \<Rightarrow> (set_queue e ((queue_of s e)\<lparr>q_reader := None\<rparr>) s)\<lparr>wake_log := wake_log s @ [w]\<rparr>)"

definition fake_pending_bytes :: "fake_end \<Rightarrow> fake_state \<Rightarrow> nat" where
  "fake_pending_bytes e s = length (q_bytes (queue_of s (other_end e)))"

definition peer_gone :: "fake_end \<Rightarrow> fake_state \<Rightarrow> bool" where
  "peer_gone e s \<longleftrightarrow> closed_of s (other_end e)"

definition close_end :: "fake_end \<Rightarrow> fake_state \<Rightarrow> fake_state" where
  "close_end e s = s\<lparr>closed_of := (closed_of s)(e := True)\<rparr>"

definition fake_shutdown :: "fake_end \<Rightarrow> fake_state \<Rightarrow> fake_state" where
  "fake_shutdown e s = wake_reader e (close_end e s)"

definition fake_drop :: "fake_end \<Rightarrow> fake_state \<Rightarrow> fake_state" where
  "fake_drop e s = wake_reader e (close_end e s)"

definition fake_poll_shutdown :: "fake_end \<Rightarrow> fake_state \<Rightarrow> (io_error + unit) poll \<times> fake_state" where
  "fake_poll_shutdown e s = (Ready (Inr ()), wake_reader e (close_end e s))"

text \<open>One byte to the front of the unfilled part; \<open>None\<close> is the panic of the index or of \<open>advance\<close>.\<close>

definition rb_push :: "byte \<Rightarrow> read_buf \<Rightarrow> read_buf option" where
  "rb_push b rb =
     (if rb_unfilled rb = [] then None else rb_advance 1 (rb\<lparr>storage := (storage rb)[filled_len rb := b]\<rparr>))"

fun move_bytes :: "nat \<Rightarrow> byte list \<Rightarrow> read_buf \<Rightarrow> (byte list \<times> read_buf) option" where
  "move_bytes 0 q rb = Some (q, rb)"
| "move_bytes (Suc n) [] rb = move_bytes n [] rb"
| "move_bytes (Suc n) (b # q) rb = (case rb_push b rb of None \<Rightarrow> None | Some rb1 \<Rightarrow> move_bytes n q rb1)"

definition fake_poll_read ::
  "nat \<Rightarrow> fake_end \<Rightarrow> read_buf \<Rightarrow> fake_state \<Rightarrow> ((io_error + unit) poll \<times> read_buf \<times> fake_state) option" where
  "fake_poll_read w e rb s =
     (if rb_remaining rb = 0 then Some (Ready (Inr ()), rb, s)
      else
        let p = other_end e; queue = queue_of s p; n = min (length (q_bytes queue)) (rb_remaining rb) in
        if n = 0 then
          if closed_of s p then Some (Ready (Inr ()), rb, s)
          else Some (Pending, rb, set_queue p (queue\<lparr>q_reader := Some w\<rparr>) s)
        else
          (case move_bytes n (q_bytes queue) rb of
             None \<Rightarrow> None
           | Some (rest, rb1) \<Rightarrow> Some (Ready (Inr ()), rb1, set_queue p (queue\<lparr>q_bytes := rest\<rparr>) s)))"

text \<open>The critical section of a write.\<close>

definition push_bytes :: "fake_end \<Rightarrow> byte list \<Rightarrow> fake_state \<Rightarrow> fake_state" where
  "push_bytes e bs s = wake_reader e (set_queue e ((queue_of s e)\<lparr>q_bytes := q_bytes (queue_of s e) @ bs\<rparr>) s)"

definition fake_poll_write :: "fake_end \<Rightarrow> byte list \<Rightarrow> fake_state \<Rightarrow> (io_error + nat) poll \<times> fake_state" where
  "fake_poll_write e bs s =
     (if peer_gone e s then (Ready (Inl (Io_Error Broken_Pipe ''fake io: peer has shut down'')), s)
      else if bs = [] then (Ready (Inr 0), s)
      else (Ready (Inr (length bs)), push_bytes e bs s))"

definition fake_poll_flush :: "fake_end \<Rightarrow> fake_state \<Rightarrow> (io_error + unit) poll \<times> fake_state" where
  "fake_poll_flush e s = (Ready (Inr ()), s)"

section \<open>Reading\<close>

lemma rb_push_put: "rb_ok rb \<Longrightarrow> rb_push b rb = rb_put_slice [b] rb"
  by (auto simp: rb_push_def rb_put_slice_def rb_ok_def rb_unfilled_def rb_advance_def rb_remaining_def upd_conv_take_nth_drop)

lemma move_bytes_spec:
  "n \<le> length q \<Longrightarrow> n \<le> rb_remaining rb \<Longrightarrow> rb_ok rb \<Longrightarrow>
     \<exists>rb1. move_bytes n q rb = Some (drop n q, rb1) \<and> rb_ok rb1 \<and> rb_filled rb1 = rb_filled rb @ take n q \<and>
       rb_capacity rb1 = rb_capacity rb"
proof (induction n q rb rule: move_bytes.induct)
  case (3 n b q rb)
  then have "length [b] \<le> rb_remaining rb" by simp
  then obtain rb1 where r: "rb_put_slice [b] rb = Some rb1" by (simp add: rb_put_slice_def)
  note ok = rb_put_slice_ok[OF "3.prems"(3) r]
  have p: "rb_push b rb = Some rb1" using r "3.prems"(3) by (simp add: rb_push_put)
  have "n \<le> length q" "n \<le> rb_remaining rb1" using "3.prems" ok(4) by simp_all
  from "3.IH"[OF p this ok(1)] show ?case using p ok by auto
qed auto

text \<open>A read never panics, and gives what there is, as far as the buffer has room.\<close>

lemma fake_poll_read_spec:
  assumes "rb_ok rb"
  shows "\<exists>p rb1 s1. fake_poll_read w e rb s = Some (p, rb1, s1) \<and> rb_ok rb1 \<and>
    (let q = q_bytes (queue_of s (other_end e)); n = min (length q) (rb_remaining rb) in
       rb_filled rb1 = rb_filled rb @ take n q \<and> q_bytes (queue_of s1 (other_end e)) = drop n q \<and>
       (p = Pending \<longleftrightarrow> rb_remaining rb \<noteq> 0 \<and> q = [] \<and> \<not> closed_of s (other_end e)))"
proof (cases "rb_remaining rb = 0")
  case True
  then show ?thesis using assms by (simp add: fake_poll_read_def)
next
  case False
  let ?q = "q_bytes (queue_of s (other_end e))"
  let ?n = "min (length ?q) (rb_remaining rb)"
  have "?n \<le> length ?q" "?n \<le> rb_remaining rb" by simp_all
  from move_bytes_spec[OF this assms] obtain rb1 where
    "move_bytes ?n ?q rb = Some (drop ?n ?q, rb1)" "rb_ok rb1" "rb_filled rb1 = rb_filled rb @ take ?n ?q"
    by blast
  then show ?thesis
    using False assms
    by (cases "?q = []") (auto simp: fake_poll_read_def set_queue_def Let_def)
qed

section \<open>Interleavings\<close>

text \<open>
  What each end is in the middle of: a write that has found its peer there, or a shutdown that has
  stored its flag.  \<open>sent e\<close> are the bytes that \<open>e\<close>'s writes have taken, \<open>received e\<close> those of them
  that the other end has read, \<open>parked e\<close> whether the last poll of a read of \<open>e\<close> was pending, and
  \<open>saw_eof e\<close> whether a read of \<open>e\<close> with room has come back empty.
\<close>

datatype fake_action = Fk_Idle | Fk_Writing "byte list" | Fk_Closing

record fake_run =
  fake :: fake_state
  doing :: "fake_end \<Rightarrow> fake_action"
  sent :: "fake_end \<Rightarrow> byte list"
  received :: "fake_end \<Rightarrow> byte list"
  parked :: "fake_end \<Rightarrow> (nat \<times> nat) option"
  saw_eof :: "fake_end \<Rightarrow> bool"

definition fake_start :: fake_run where
  "fake_start = \<lparr>fake = fake_pair, doing = (\<lambda>_. Fk_Idle), sent = (\<lambda>_. []), received = (\<lambda>_. []),
     parked = (\<lambda>_. None), saw_eof = (\<lambda>_. False)\<rparr>"

text \<open>After a shutdown no more writes may be issued, as the trait demands of its callers.\<close>

inductive fake_step :: "fake_run \<Rightarrow> fake_run \<Rightarrow> bool" where
  write_load: "doing r e = Fk_Idle \<Longrightarrow> \<not> closed_of (fake r) e \<Longrightarrow> \<not> peer_gone e (fake r) \<Longrightarrow> bs \<noteq> [] \<Longrightarrow>
     fake_step r (r\<lparr>doing := (doing r)(e := Fk_Writing bs)\<rparr>)"
| write_push: "doing r e = Fk_Writing bs \<Longrightarrow>
     fake_step r (r\<lparr>fake := push_bytes e bs (fake r), doing := (doing r)(e := Fk_Idle), sent := (sent r)(e := sent r e @ bs)\<rparr>)"
| close_store: "doing r e = Fk_Idle \<Longrightarrow>
     fake_step r (r\<lparr>fake := close_end e (fake r), doing := (doing r)(e := Fk_Closing)\<rparr>)"
| close_wake: "doing r e = Fk_Closing \<Longrightarrow>
     fake_step r (r\<lparr>fake := wake_reader e (fake r), doing := (doing r)(e := Fk_Idle)\<rparr>)"
| read: "doing r e = Fk_Idle \<Longrightarrow> 0 < length buf \<Longrightarrow>
     fake_poll_read w e (rb_new buf) (fake r) = Some (p, rb, s) \<Longrightarrow>
     fake_step r (r\<lparr>fake := s, received := (received r)(other_end e := received r (other_end e) @ rb_filled rb),
       parked := (parked r)(e := (if p = Pending then Some (w, length (wake_log s)) else None)),
       saw_eof := (saw_eof r)(e := saw_eof r e \<or> p \<noteq> Pending \<and> rb_filled rb = [])\<rparr>)"

inductive fake_reach :: "fake_run \<Rightarrow> bool" where
  start: "fake_reach fake_start"
| step: "fake_reach r \<Longrightarrow> fake_step r r1 \<Longrightarrow> fake_reach r1"

text \<open>The bytes on their way: nothing is lost, duplicated or reordered.\<close>

definition flow_inv :: "fake_run \<Rightarrow> bool" where
  "flow_inv r \<longleftrightarrow> (\<forall>e. received r e @ q_bytes (queue_of (fake r) e) = sent r e)"

definition eof_inv :: "fake_run \<Rightarrow> bool" where
  "eof_inv r \<longleftrightarrow> (\<forall>e. (\<forall>bs. doing r e = Fk_Writing bs \<longrightarrow> \<not> closed_of (fake r) e) \<and>
     (doing r e = Fk_Closing \<longrightarrow> closed_of (fake r) e) \<and>
     (saw_eof r (other_end e) \<longrightarrow> closed_of (fake r) e \<and> q_bytes (queue_of (fake r) e) = []))"

text \<open>A reader whose waker is still registered has nothing to read, unless a shutdown is about to call it.\<close>

definition parked_inv :: "fake_run \<Rightarrow> bool" where
  "parked_inv r \<longleftrightarrow> (\<forall>e. q_reader (queue_of (fake r) e) \<noteq> None \<longrightarrow>
     q_bytes (queue_of (fake r) e) = [] \<and> (closed_of (fake r) e \<longrightarrow> doing r e = Fk_Closing))"

text \<open>The waker of a pending read is registered, or has been called since.\<close>

definition called_inv :: "fake_run \<Rightarrow> bool" where
  "called_inv r \<longleftrightarrow> (\<forall>e w n. parked r e = Some (w, n) \<longrightarrow>
     n \<le> length (wake_log (fake r)) \<and>
     (q_reader (queue_of (fake r) (other_end e)) = Some w \<or> w \<in> set (drop n (wake_log (fake r)))))"

lemma fake_inv_start: "flow_inv fake_start \<and> eof_inv fake_start \<and> parked_inv fake_start \<and> called_inv fake_start"
  by (simp add: flow_inv_def eof_inv_def parked_inv_def called_inv_def fake_start_def fake_pair_def)

lemma wake_reader_fields [simp]:
  "q_bytes (queue_of (wake_reader e s) d) = q_bytes (queue_of s d)"
  "q_reader (queue_of (wake_reader e s) d) = (if d = e then None else q_reader (queue_of s d))"
  "closed_of (wake_reader e s) = closed_of s"
  by (auto simp: wake_reader_def set_queue_def split: option.splits)

lemma push_bytes_fields [simp]:
  "q_bytes (queue_of (push_bytes e bs s) d) = (if d = e then q_bytes (queue_of s d) @ bs else q_bytes (queue_of s d))"
  "q_reader (queue_of (push_bytes e bs s) d) = (if d = e then None else q_reader (queue_of s d))"
  "closed_of (push_bytes e bs s) = closed_of s"
  by (simp_all add: push_bytes_def set_queue_def)

lemma close_end_fields [simp]:
  "queue_of (close_end e s) = queue_of s" "closed_of (close_end e s) = (closed_of s)(e := True)"
  by (simp_all add: close_end_def)

text \<open>What a read with a fresh buffer of some room does.\<close>

lemma fake_poll_read_fresh:
  assumes "fake_poll_read w e (rb_new buf) s = Some (p, rb, s1)" "0 < length buf"
  shows "rb_filled rb @ q_bytes (queue_of s1 (other_end e)) = q_bytes (queue_of s (other_end e))"
    "queue_of s1 e = queue_of s e" "closed_of s1 = closed_of s"
    "p = Pending \<Longrightarrow> q_reader (queue_of s1 (other_end e)) = Some w \<and> q_bytes (queue_of s (other_end e)) = [] \<and>
       \<not> closed_of s (other_end e)"
    "p \<noteq> Pending \<Longrightarrow> q_reader (queue_of s1 (other_end e)) = q_reader (queue_of s (other_end e))"
    "p \<noteq> Pending \<Longrightarrow> rb_filled rb = [] \<Longrightarrow> closed_of s (other_end e) \<and> q_bytes (queue_of s (other_end e)) = []"
proof -
  have ok: "rb_ok (rb_new buf)" by simp
  note spec = fake_poll_read_spec[OF ok, of w e s]
  show "rb_filled rb @ q_bytes (queue_of s1 (other_end e)) = q_bytes (queue_of s (other_end e))"
    using spec assms(1) by (auto simp: Let_def)
  show "queue_of s1 e = queue_of s e" "closed_of s1 = closed_of s"
    "p = Pending \<Longrightarrow> q_reader (queue_of s1 (other_end e)) = Some w \<and> q_bytes (queue_of s (other_end e)) = [] \<and>
       \<not> closed_of s (other_end e)"
    "p \<noteq> Pending \<Longrightarrow> q_reader (queue_of s1 (other_end e)) = q_reader (queue_of s (other_end e))"
    using assms by (auto simp: fake_poll_read_def set_queue_def Let_def min_def split: if_splits option.splits)
  assume "p \<noteq> Pending" "rb_filled rb = []"
  then show "closed_of s (other_end e) \<and> q_bytes (queue_of s (other_end e)) = []"
    using spec assms by (auto simp: Let_def min_def split: if_splits)
qed

lemma fake_endsI: "P e \<Longrightarrow> P (other_end e) \<Longrightarrow> \<forall>d. P d"
  using other_end_cases by metis

lemma flow_inv_step:
  assumes "fake_step r r1" "flow_inv r"
  shows "flow_inv r1"
  using assms(1)
proof (cases rule: fake_step.cases)
  case (read e buf w p rb s)
  note f = fake_poll_read_fresh[OF read(4,3)]
  show ?thesis
    using assms(2) unfolding flow_inv_def using read(1) f(1,2) by (intro fake_endsI[of _ e]) auto
qed (use assms(2) in \<open>auto simp: flow_inv_def\<close>)

lemma eof_inv_step:
  assumes "fake_step r r1" "eof_inv r"
  shows "eof_inv r1"
  using assms(1)
proof (cases rule: fake_step.cases)
  case (read e buf w p rb s)
  note f = fake_poll_read_fresh[OF read(4,3)]
  note inv = assms(2)
  show ?thesis unfolding eof_inv_def
  proof (rule fake_endsI[of _ "other_end e"])
    show "(\<forall>bs. doing r1 (other_end e) = Fk_Writing bs \<longrightarrow> \<not> closed_of (fake r1) (other_end e)) \<and>
        (doing r1 (other_end e) = Fk_Closing \<longrightarrow> closed_of (fake r1) (other_end e)) \<and>
        (saw_eof r1 (other_end (other_end e)) \<longrightarrow>
           closed_of (fake r1) (other_end e) \<and> q_bytes (queue_of (fake r1) (other_end e)) = [])"
      using inv read(1) f(1,3,6) unfolding eof_inv_def by auto
  qed (use inv read(1) f(2,3) in \<open>auto simp: eof_inv_def\<close>)
qed (use assms(2) in \<open>auto simp: eof_inv_def\<close>)

lemma parked_inv_step:
  assumes "fake_step r r1" "parked_inv r"
  shows "parked_inv r1"
  using assms(1)
proof (cases rule: fake_step.cases)
  case (read e buf w p rb s)
  note f = fake_poll_read_fresh[OF read(4,3)]
  note inv = assms(2)
  show ?thesis unfolding parked_inv_def
  proof (rule fake_endsI[of _ "other_end e"])
    show "q_reader (queue_of (fake r1) (other_end e)) \<noteq> None \<longrightarrow>
        q_bytes (queue_of (fake r1) (other_end e)) = [] \<and> (closed_of (fake r1) (other_end e) \<longrightarrow> doing r1 (other_end e) = Fk_Closing)"
      using inv read(1) f(1,3,4,5) unfolding parked_inv_def by (cases "p = Pending") auto
  qed (use inv read(1) f(2,3) in \<open>auto simp: parked_inv_def\<close>)
qed (use assms(2) in \<open>auto simp: parked_inv_def\<close>)

lemma wake_reader_log:
  "wake_log (wake_reader e s) = wake_log s @ (case q_reader (queue_of s e) of None \<Rightarrow> [] | Some w \<Rightarrow> [w])"
  by (simp add: wake_reader_def set_queue_def split: option.splits)

lemma push_bytes_log:
  "wake_log (push_bytes e bs s) = wake_log s @ (case q_reader (queue_of s e) of None \<Rightarrow> [] | Some w \<Rightarrow> [w])"
  by (simp add: push_bytes_def wake_reader_log) (simp add: set_queue_def)

lemma called_inv_wake:
  assumes "called_inv r" "parked r1 = parked r" "\<And>d. q_reader (queue_of (fake r1) d) = (if d = e then None else q_reader (queue_of (fake r) d))"
    "wake_log (fake r1) = wake_log (fake r) @ (case q_reader (queue_of (fake r) e) of None \<Rightarrow> [] | Some w \<Rightarrow> [w])"
  shows "called_inv r1"
  unfolding called_inv_def
proof (intro allI impI)
  fix d w n
  assume "parked r1 d = Some (w, n)"
  then have "n \<le> length (wake_log (fake r)) \<and>
      (q_reader (queue_of (fake r) (other_end d)) = Some w \<or> w \<in> set (drop n (wake_log (fake r))))"
    using assms(1,2) by (simp add: called_inv_def)
  then show "n \<le> length (wake_log (fake r1)) \<and>
      (q_reader (queue_of (fake r1) (other_end d)) = Some w \<or> w \<in> set (drop n (wake_log (fake r1))))"
    using assms(3,4) by (cases "other_end d = e") (auto split: option.splits)
qed

lemma called_inv_step:
  assumes "fake_step r r1" "called_inv r"
  shows "called_inv r1"
  using assms(1)
proof (cases rule: fake_step.cases)
  case (write_push e bs)
  show ?thesis by (rule called_inv_wake[OF assms(2), of _ e]) (use write_push(1) in \<open>simp_all add: push_bytes_log\<close>)
next
  case (close_wake e)
  show ?thesis by (rule called_inv_wake[OF assms(2), of _ e]) (use close_wake(1) in \<open>simp_all add: wake_reader_log\<close>)
next
  case (read e buf w p rb s)
  note f = fake_poll_read_fresh[OF read(4,3)]
  have log: "wake_log s = wake_log (fake r)"
    using read(4) by (auto simp: fake_poll_read_def set_queue_def Let_def split: if_splits option.splits)
  show ?thesis unfolding called_inv_def
  proof (rule fake_endsI[of _ e])
    show "\<forall>w n. parked r1 e = Some (w, n) \<longrightarrow> n \<le> length (wake_log (fake r1)) \<and>
        (q_reader (queue_of (fake r1) (other_end e)) = Some w \<or> w \<in> set (drop n (wake_log (fake r1))))"
      using read(1) f(4) by auto
  qed (use spec[OF assms(2)[unfolded called_inv_def], of "other_end e"] read(1) f(2) log in auto)
qed (use assms(2) in \<open>auto simp: called_inv_def close_end_def\<close>)

lemma fake_reach_inv: "fake_reach r \<Longrightarrow> flow_inv r \<and> eof_inv r \<and> parked_inv r \<and> called_inv r"
proof (induction rule: fake_reach.induct)
  case start
  show ?case by (rule fake_inv_start)
next
  case (step r r1)
  then show ?case using flow_inv_step eof_inv_step parked_inv_step called_inv_step by metis
qed

end
