(* ===== verification/Fake_Pipe.thy ===== *)
theory Fake_Pipe
  imports Fake_Io
begin

text \<open>
  The in-memory transports of \<open>Fake_Io\<close> keep the contracts of \<open>Async_Traits\<close>, so the futures of the
  I/O traits work over them.
\<close>

section \<open>The two ends as streams\<close>

text \<open>One end reading into a fresh buffer of \<open>cap\<close> bytes with the waker \<open>w\<close>, and one end writing.\<close>

definition fake_reader :: "nat \<Rightarrow> fake_end \<Rightarrow> fake_state reader" where
  "fake_reader w e cap s = do {
     (p, rb, s1) \<leftarrow> fake_poll_read w e (rb_new (replicate cap 0)) s;
     Some (case p of
         Pending \<Rightarrow> Pending
       | Ready (Inl err) \<Rightarrow> Ready (Inl err)
       | Ready (Inr _) \<Rightarrow> Ready (Inr (rb_filled rb)), s1) }"

definition fake_writer :: "fake_end \<Rightarrow> fake_state writer" where
  "fake_writer e bs s = Some (fake_poll_write e bs s)"

lemma fake_poll_read_no_error:
  "fake_poll_read w e rb s = Some (p, rb1, s1) \<Longrightarrow> p = Pending \<or> p = Ready (Inr ())"
  by (auto simp: fake_poll_read_def Let_def split: if_splits option.splits)

lemma fake_reader_cases:
  assumes "0 < cap"
  shows "\<exists>s1. fake_reader w e cap s = Some
      (if q_bytes (queue_of s (other_end e)) = [] \<and> \<not> closed_of s (other_end e) then Pending
       else Ready (Inr (take cap (q_bytes (queue_of s (other_end e))))), s1) \<and>
    q_bytes (queue_of s1 (other_end e)) = drop cap (q_bytes (queue_of s (other_end e)))"
proof -
  let ?q = "q_bytes (queue_of s (other_end e))"
  obtain p rb1 s1 where r: "fake_poll_read w e (rb_new (replicate cap 0)) s = Some (p, rb1, s1)"
    "rb_filled rb1 = take cap ?q" "q_bytes (queue_of s1 (other_end e)) = drop cap ?q"
    "p = Pending \<longleftrightarrow> ?q = [] \<and> \<not> closed_of s (other_end e)"
    using fake_poll_read_spec[of "rb_new (replicate cap 0)" w e s] assms
    by (auto simp: Let_def min_def split: if_splits)
  then show ?thesis using fake_poll_read_no_error[OF r(1)] by (auto simp: fake_reader_def)
qed

text \<open>What \<open>e\<close> writes is what its peer reads, so the queue of \<open>e\<close> is both \<open>taken\<close> and \<open>unread\<close>.\<close>

lemma fake_writer_law:
  "fake_writer e bs s = Some (p, s1) \<Longrightarrow>
     (if peer_gone e s then (\<exists>err. p = Ready (Inl err)) \<and> s1 = s
      else p = Ready (Inr (length bs)) \<and> q_bytes (queue_of s1 e) = q_bytes (queue_of s e) @ bs)"
  by (auto simp: fake_writer_def fake_poll_write_def push_bytes_def wake_reader_def set_queue_def
      split: if_splits option.splits)

interpretation fake_pipe: async_pipe "fake_writer e" "fake_reader w (other_end e)" "\<lambda>s. q_bytes (queue_of s e)"
  for e w
proof (unfold_locales, goal_cases)
  case (1 bs s)
  then show ?case by (simp add: fake_writer_def)
next
  case (2 bs s p s1)
  then show ?case using fake_writer_law[OF 2(1)] by (auto split: if_splits)
next
  case (3 bs s n s1)
  then show ?case using fake_writer_law[OF 3] by (auto split: if_splits)
next
  case (4 cap s)
  then show ?case using fake_reader_cases[of cap w "other_end e" s] by auto
next
  case (5 cap s s1)
  then show ?case using fake_reader_cases[of cap w "other_end e" s] by (auto split: if_splits)
next
  case (6 cap s err s1)
  then show ?case using fake_reader_cases[of cap w "other_end e" s] by (auto split: if_splits)
next
  case (7 cap s s1)
  then show ?case using fake_reader_cases[of cap w "other_end e" s] by (auto split: if_splits)
next
  case (8 cap s bs s1)
  then show ?case using fake_reader_cases[of cap w "other_end e" s] by (auto split: if_splits)
next
  case (9 cap s s1)
  then show ?case using fake_reader_cases[of cap w "other_end e" s] by (auto split: if_splits)
qed

lemma write_all_of_fake:
  assumes "\<not> peer_gone e s"
  shows "\<exists>s1. write_all_of (fake_writer e) bs s = Some (Ready (Inr ()), [], s1)"
proof (cases "bs = []")
  case False
  obtain q s2 where w: "fake_writer e bs s = Some (q, s2)" by (fastforce simp: fake_writer_def)
  then have "q = Ready (Inr (length bs))" using fake_writer_law assms by auto
  then show ?thesis using w False by (subst write_all_of.simps) (simp add: write_all_of.simps)
qed (simp add: write_all_of.simps)

text \<open>After a shutdown of its peer a reader is never kept waiting.\<close>

lemma fake_shutdown_queue:
  "queue_of (snd (fake_poll_shutdown e s)) d = (queue_of s d)\<lparr>q_reader := (if d = e then None else q_reader (queue_of s d))\<rparr>"
  "closed_of (snd (fake_poll_shutdown e s)) e"
  by (auto simp: fake_poll_shutdown_def close_end_def wake_reader_def set_queue_def split: option.splits)

lemma fake_reader_closed:
  "fake_reader w e cap s = Some (p, s1) \<Longrightarrow> closed_of s (other_end e) \<Longrightarrow> 0 < cap \<Longrightarrow>
     (\<exists>bs. p = Ready (Inr bs)) \<and> closed_of s1 (other_end e)"
  using fake_reader_cases[of cap w e s]
  by (auto simp: fake_reader_def fake_poll_read_def set_queue_def Let_def split: if_splits option.splits)

lemma read_to_end_of_closed:
  "closed_of s (other_end e) \<Longrightarrow>
     \<exists>s1. read_to_end_of (fake_reader w e) out s = Some (Ready (Inr ()), out @ q_bytes (queue_of s (other_end e)), s1)"
proof (induction "length (q_bytes (queue_of s (other_end e)))" arbitrary: out s rule: less_induct)
  case less
  have pos: "0 < read_to_end_chunk" by (simp add: read_to_end_chunk_def)
  let ?q = "q_bytes (queue_of s (other_end e))"
  obtain s1 where r: "fake_reader w e read_to_end_chunk s = Some (Ready (Inr (take read_to_end_chunk ?q)), s1)"
    "q_bytes (queue_of s1 (other_end e)) = drop read_to_end_chunk ?q"
    using fake_reader_cases[OF pos, of w e s] less.prems by auto
  show ?case
  proof (cases "?q = []")
    case True
    then show ?thesis using r pos by (subst read_to_end_of.simps) simp
  next
    case False
    have "length (q_bytes (queue_of s1 (other_end e))) < length ?q" using r(2) False pos by simp
    moreover have "closed_of s1 (other_end e)" using fake_reader_closed[OF r(1) less.prems pos] by simp
    ultimately show ?thesis
      using less.hyps[of s1 "out @ take read_to_end_chunk ?q"] r False pos
      by (subst read_to_end_of.simps) simp
  qed
qed

text \<open>
  C26: A message that is written with \<open>write_all\<close> into one end of the in-memory pipe is read back by
  \<open>read_exact\<close> at the other, behind what was in the pipe before and without waiting; and if the writer
  then shuts its end down, \<open>read_to_end\<close> returns with all of it.
\<close>

theorem pipe_carries_message:
  assumes "\<not> peer_gone e s"
  shows "\<exists>s1 s2 s3. write_all_of (fake_writer e) bs s = Some (Ready (Inr ()), [], s1) \<and>
    read_exact_of (fake_reader w (other_end e)) (length (q_bytes (queue_of s e)) + length bs) [] s1 =
      Some (Ready (Inr ()), q_bytes (queue_of s e) @ bs, s2) \<and> q_bytes (queue_of s2 e) = [] \<and>
    read_to_end_of (fake_reader w (other_end e)) out (snd (fake_poll_shutdown e s1)) =
      Some (Ready (Inr ()), out @ q_bytes (queue_of s e) @ bs, s3)"
proof -
  obtain s1 where s1: "write_all_of (fake_writer e) bs s = Some (Ready (Inr ()), [], s1)"
    using write_all_of_fake[OF assms] by blast
  have q: "q_bytes (queue_of s1 e) = q_bytes (queue_of s e) @ bs"
    using fake_pipe.w.write_all_of_spec[of e bs s] s1 by auto
  have "closed_of (snd (fake_poll_shutdown e s1)) (other_end (other_end e))"
    by (simp add: fake_shutdown_queue)
  from read_to_end_of_closed[OF this, of w out] obtain s3 where
    "read_to_end_of (fake_reader w (other_end e)) out (snd (fake_poll_shutdown e s1)) =
      Some (Ready (Inr ()), out @ q_bytes (queue_of s e) @ bs, s3)"
    using q by (auto simp: fake_shutdown_queue)
  then show ?thesis using s1 fake_pipe.write_then_read[OF s1, of w] by blast
qed

theorem pipe_carries_message_witness:
  "\<exists>s1 s2. write_all_of (fake_writer End_A) [1, 2, 3] fake_pair = Some (Ready (Inr ()), [], s1) \<and>
     read_exact_of (fake_reader 7 End_B) 3 [] s1 = Some (Ready (Inr ()), [1, 2, 3], s2)"
proof -
  have "\<not> peer_gone End_A fake_pair" by (simp add: peer_gone_def fake_pair_def)
  from pipe_carries_message[OF this, of "[1, 2, 3]" 7 "[]"] show ?thesis
    by (auto simp: fake_pair_def numeral_3_eq_3)
qed

end
