(* ===== verification/Io_Adapters.thy ===== *)
theory Io_Adapters
  imports Transport
begin

text \<open>
  The adapters of \<open>crates/tpt-async-io/src/adapters\<close> and the remaining helpers of \<open>read.rs\<close> and
  \<open>write.rs\<close>.  The adapted stream is a parameter with a state: for a given room an inner read gives
  an error or the bytes it put into the slice, and a write how much it took.  \<open>None\<close> is the panic
  of \<open>advance\<close>, on an inner stream that claims more than its room.
\<close>

section \<open>Errors\<close>

text \<open>\<open>IoError\<close> without \<open>std\<close>: its constructor, its kind and \<open>Display\<close>, which shows the kind by \<open>Debug\<close>.\<close>

definition io_error_new :: "io_error_kind \<Rightarrow> string \<Rightarrow> io_error" where
  "io_error_new k m = Io_Error k m"

fun io_error_kind_of :: "io_error \<Rightarrow> io_error_kind" where
  "io_error_kind_of (Io_Error k m) = k"

fun kind_text :: "io_error_kind \<Rightarrow> string" where
  "kind_text Unexpected_Eof = ''UnexpectedEof''"
| "kind_text Write_Zero = ''WriteZero''"
| "kind_text Would_Block = ''WouldBlock''"
| "kind_text Broken_Pipe = ''BrokenPipe''"
| "kind_text Connection_Reset = ''ConnectionReset''"
| "kind_text Connection_Aborted = ''ConnectionAborted''"
| "kind_text Io_Timed_Out = ''TimedOut''"
| "kind_text Other_Kind = ''Other''"

fun io_error_text :: "io_error \<Rightarrow> string" where
  "io_error_text (Io_Error k m) =
     (if m = [] then ''I/O error: '' @ kind_text k else ''I/O error: '' @ m @ '' ('' @ kind_text k @ '')'')"

lemma std_errors_made: "unexpected_eof = io_error_new Unexpected_Eof ''unexpected end of stream''"
    "write_zero = io_error_new Write_Zero ''write returned 0 bytes''"
  by (simp_all add: unexpected_eof_def write_zero_def io_error_new_def)

section \<open>Filling\<close>

text \<open>The bytes that an inner read has put into the unfilled part, and \<open>advance\<close>.\<close>

definition fill_ready :: "byte list \<Rightarrow> read_buf \<Rightarrow> ((io_error + unit) poll \<times> read_buf) option" where
  "fill_ready bs rb = (case rb_put_slice bs rb of None \<Rightarrow> None | Some rb1 \<Rightarrow> Some (Ready (Inr ()), rb1))"

lemma fill_ready_filled:
  assumes "rb_ok rb" "fill_ready bs rb = Some (p, rb1)"
  shows "p = Ready (Inr ()) \<and> rb_ok rb1 \<and> rb_filled rb1 = rb_filled rb @ bs"
  using assms rb_put_slice_ok[OF assms(1), of bs] by (auto simp: fill_ready_def split: option.splits)

section \<open>std::io\<close>

fun would_block :: "io_error \<Rightarrow> bool" where
  "would_block (Io_Error k m) = (k = Would_Block)"

definition std_poll_read ::
  "(nat \<Rightarrow> 's \<Rightarrow> (io_error + byte list) \<times> 's) \<Rightarrow> read_buf \<Rightarrow> 's \<Rightarrow> ((io_error + unit) poll \<times> read_buf) option \<times> 's" where
  "std_poll_read inner rb s =
     (case inner (rb_remaining rb) s of
        (Inr bs, s1) \<Rightarrow> (fill_ready bs rb, s1)
      | (Inl e, s1) \<Rightarrow> (Some (if would_block e then Pending else Ready (Inl e), rb), s1))"

definition std_poll_write ::
  "(byte list \<Rightarrow> 's \<Rightarrow> (io_error + nat) \<times> 's) \<Rightarrow> byte list \<Rightarrow> 's \<Rightarrow> (io_error + nat) poll \<times> 's" where
  "std_poll_write inner bs s =
     (case inner bs s of
        (Inr n, s1) \<Rightarrow> (Ready (Inr n), s1)
      | (Inl e, s1) \<Rightarrow> (if would_block e then Pending else Ready (Inl e), s1))"

definition std_poll_flush :: "('s \<Rightarrow> (io_error + unit) \<times> 's) \<Rightarrow> 's \<Rightarrow> (io_error + unit) poll \<times> 's" where
  "std_poll_flush inner s =
     (case inner s of
        (Inr u, s1) \<Rightarrow> (Ready (Inr ()), s1)
      | (Inl e, s1) \<Rightarrow> (if would_block e then Pending else Ready (Inl e), s1))"

definition std_poll_shutdown :: "('s \<Rightarrow> (io_error + unit) \<times> 's) \<Rightarrow> 's \<Rightarrow> (io_error + unit) poll \<times> 's" where
  "std_poll_shutdown inner s = std_poll_flush inner s"

section \<open>tokio and async-std\<close>

definition tokio_poll_read ::
  "(nat \<Rightarrow> 's \<Rightarrow> (io_error + byte list) poll \<times> 's) \<Rightarrow> read_buf \<Rightarrow> 's \<Rightarrow>
   ((io_error + unit) poll \<times> read_buf) option \<times> 's" where
  "tokio_poll_read inner rb s =
     (case inner (rb_remaining rb) s of
        (Pending, s1) \<Rightarrow> (Some (Pending, rb), s1)
      | (Ready (Inl e), s1) \<Rightarrow> (Some (Ready (Inl e), rb), s1)
      | (Ready (Inr bs), s1) \<Rightarrow> (fill_ready bs rb, s1))"

definition async_std_poll_read ::
  "(nat \<Rightarrow> 's \<Rightarrow> (io_error + byte list) poll \<times> 's) \<Rightarrow> read_buf \<Rightarrow> 's \<Rightarrow>
   ((io_error + unit) poll \<times> read_buf) option \<times> 's" where
  "async_std_poll_read inner rb s =
     (case inner (rb_remaining rb) s of
        (Pending, s1) \<Rightarrow> (Some (Pending, rb), s1)
      | (Ready (Inr bs), s1) \<Rightarrow> (if bs = [] then Some (Ready (Inr ()), rb) else fill_ready bs rb, s1)
      | (Ready (Inl e), s1) \<Rightarrow> (Some (Ready (Inl e), rb), s1))"

section \<open>embedded-io\<close>

definition hal_error :: io_error where
  "hal_error = Io_Error Other_Kind ''embedded-io error''"

text \<open>Each poll makes a new future of the inner stream and polls it once; \<open>'h\<close> is the HAL's error.\<close>

definition embedded_poll_read ::
  "(nat \<Rightarrow> 's \<Rightarrow> ('h + byte list) poll \<times> 's) \<Rightarrow> read_buf \<Rightarrow> 's \<Rightarrow> ((io_error + unit) poll \<times> read_buf) option \<times> 's" where
  "embedded_poll_read inner rb s =
     (if rb_remaining rb = 0 then (Some (Ready (Inr ()), rb), s)
      else
        (case inner (rb_remaining rb) s of
           (Ready (Inr bs), s1) \<Rightarrow> (if bs = [] then Some (Ready (Inr ()), rb) else fill_ready bs rb, s1)
         | (Ready (Inl e), s1) \<Rightarrow> (Some (Ready (Inl hal_error), rb), s1)
         | (Pending, s1) \<Rightarrow> (Some (Pending, rb), s1)))"

definition embedded_poll_write ::
  "(byte list \<Rightarrow> 's \<Rightarrow> ('h + nat) poll \<times> 's) \<Rightarrow> byte list \<Rightarrow> 's \<Rightarrow> (io_error + nat) poll \<times> 's" where
  "embedded_poll_write inner bs s =
     (if bs = [] then (Ready (Inr 0), s)
      else
        (case inner bs s of
           (Ready (Inr n), s1) \<Rightarrow> (Ready (Inr n), s1)
         | (Ready (Inl e), s1) \<Rightarrow> (Ready (Inl hal_error), s1)
         | (Pending, s1) \<Rightarrow> (Pending, s1)))"

definition embedded_poll_flush :: "('s \<Rightarrow> ('h + unit) poll \<times> 's) \<Rightarrow> 's \<Rightarrow> (io_error + unit) poll \<times> 's" where
  "embedded_poll_flush inner s =
     (case inner s of
        (Ready (Inr u), s1) \<Rightarrow> (Ready (Inr ()), s1)
      | (Ready (Inl e), s1) \<Rightarrow> (Ready (Inl hal_error), s1)
      | (Pending, s1) \<Rightarrow> (Pending, s1))"

definition embedded_poll_shutdown :: "('s \<Rightarrow> ('h + unit) poll \<times> 's) \<Rightarrow> 's \<Rightarrow> (io_error + unit) poll \<times> 's" where
  "embedded_poll_shutdown flush s =
     (case flush s of
        (Ready (Inr u), s1) \<Rightarrow> (Ready (Inr ()), s1)
      | (Ready (Inl e), s1) \<Rightarrow> (Ready (Inl hal_error), s1)
      | (Pending, s1) \<Rightarrow> (Pending, s1))"

section \<open>Writes that are forwarded\<close>

text \<open>
  The writers over tokio and async-std only convert the error, which for \<open>std::io::Error\<close> is wrapping
  it; \<open>TokioCompat\<close> has the same polls as \<open>TokioReader\<close> and \<open>TokioWriter\<close>.
\<close>

definition map_err :: "('e \<Rightarrow> 'f) \<Rightarrow> ('e + 'r) poll \<Rightarrow> ('f + 'r) poll" where
  "map_err f p =
     (case p of
        Pending \<Rightarrow> Pending
      | Ready (Inl e) \<Rightarrow> Ready (Inl (f e))
      | Ready (Inr r) \<Rightarrow> Ready (Inr r))"

definition io_error_from :: "io_error \<Rightarrow> io_error" where
  "io_error_from e = e"

definition tokio_poll_write ::
  "(byte list \<Rightarrow> 's \<Rightarrow> (io_error + nat) poll \<times> 's) \<Rightarrow> byte list \<Rightarrow> 's \<Rightarrow> (io_error + nat) poll \<times> 's" where
  "tokio_poll_write inner bs s = (case inner bs s of (p, s1) \<Rightarrow> (map_err io_error_from p, s1))"

definition tokio_poll_flush :: "('s \<Rightarrow> (io_error + unit) poll \<times> 's) \<Rightarrow> 's \<Rightarrow> (io_error + unit) poll \<times> 's" where
  "tokio_poll_flush inner s = (case inner s of (p, s1) \<Rightarrow> (map_err io_error_from p, s1))"

definition tokio_poll_shutdown :: "('s \<Rightarrow> (io_error + unit) poll \<times> 's) \<Rightarrow> 's \<Rightarrow> (io_error + unit) poll \<times> 's" where
  "tokio_poll_shutdown inner s = (case inner s of (p, s1) \<Rightarrow> (map_err io_error_from p, s1))"

definition compat_poll_read ::
  "(nat \<Rightarrow> 's \<Rightarrow> (io_error + byte list) poll \<times> 's) \<Rightarrow> read_buf \<Rightarrow> 's \<Rightarrow>
   ((io_error + unit) poll \<times> read_buf) option \<times> 's" where
  "compat_poll_read inner rb s =
     (case inner (rb_remaining rb) s of
        (Pending, s1) \<Rightarrow> (Some (Pending, rb), s1)
      | (Ready (Inl e), s1) \<Rightarrow> (Some (Ready (Inl (io_error_from e)), rb), s1)
      | (Ready (Inr bs), s1) \<Rightarrow> (fill_ready bs rb, s1))"

definition compat_poll_write ::
  "(byte list \<Rightarrow> 's \<Rightarrow> (io_error + nat) poll \<times> 's) \<Rightarrow> byte list \<Rightarrow> 's \<Rightarrow> (io_error + nat) poll \<times> 's" where
  "compat_poll_write inner bs s = (case inner bs s of (p, s1) \<Rightarrow> (map_err io_error_from p, s1))"

definition compat_poll_flush :: "('s \<Rightarrow> (io_error + unit) poll \<times> 's) \<Rightarrow> 's \<Rightarrow> (io_error + unit) poll \<times> 's" where
  "compat_poll_flush inner s = (case inner s of (p, s1) \<Rightarrow> (map_err io_error_from p, s1))"

definition compat_poll_shutdown :: "('s \<Rightarrow> (io_error + unit) poll \<times> 's) \<Rightarrow> 's \<Rightarrow> (io_error + unit) poll \<times> 's" where
  "compat_poll_shutdown inner s = (case inner s of (p, s1) \<Rightarrow> (map_err io_error_from p, s1))"

definition async_std_poll_write ::
  "(byte list \<Rightarrow> 's \<Rightarrow> (io_error + nat) poll \<times> 's) \<Rightarrow> byte list \<Rightarrow> 's \<Rightarrow> (io_error + nat) poll \<times> 's" where
  "async_std_poll_write inner bs s = (case inner bs s of (p, s1) \<Rightarrow> (map_err io_error_from p, s1))"

definition async_std_poll_flush :: "('s \<Rightarrow> (io_error + unit) poll \<times> 's) \<Rightarrow> 's \<Rightarrow> (io_error + unit) poll \<times> 's" where
  "async_std_poll_flush inner s = (case inner s of (p, s1) \<Rightarrow> (map_err io_error_from p, s1))"

text \<open>async-std has \<open>poll_close\<close> for the shutdown.\<close>

definition async_std_poll_shutdown :: "('s \<Rightarrow> (io_error + unit) poll \<times> 's) \<Rightarrow> 's \<Rightarrow> (io_error + unit) poll \<times> 's" where
  "async_std_poll_shutdown close s = (case close s of (p, s1) \<Rightarrow> (map_err io_error_from p, s1))"

section \<open>Gathering writes\<close>

text \<open>
  A tokio stream gathers the slices itself; \<open>StdWriter\<close> takes the fallback of the trait over its own
  \<open>poll_write\<close>.
\<close>

definition tokio_poll_write_vectored ::
  "(byte list list \<Rightarrow> 's \<Rightarrow> (io_error + nat) poll \<times> 's) \<Rightarrow> byte list list \<Rightarrow> 's \<Rightarrow> (io_error + nat) poll \<times> 's" where
  "tokio_poll_write_vectored inner bufs s = (case inner bufs s of (p, s1) \<Rightarrow> (map_err io_error_from p, s1))"

definition compat_poll_write_vectored ::
  "(byte list list \<Rightarrow> 's \<Rightarrow> (io_error + nat) poll \<times> 's) \<Rightarrow> byte list list \<Rightarrow> 's \<Rightarrow> (io_error + nat) poll \<times> 's" where
  "compat_poll_write_vectored inner bufs s = (case inner bufs s of (p, s1) \<Rightarrow> (map_err io_error_from p, s1))"

fun first_slice_write ::
  "(byte list \<Rightarrow> 's \<Rightarrow> (io_error + nat) poll \<times> 's) \<Rightarrow> byte list list \<Rightarrow> 's \<Rightarrow> (io_error + nat) poll \<times> 's" where
  "first_slice_write pw [] s = (Ready (Inr 0), s)"
| "first_slice_write pw (bs # bufs) s = (if bs \<noteq> [] then pw bs s else first_slice_write pw bufs s)"

definition std_poll_write_vectored ::
  "(byte list \<Rightarrow> 's \<Rightarrow> (io_error + nat) \<times> 's) \<Rightarrow> byte list list \<Rightarrow> 's \<Rightarrow> (io_error + nat) poll \<times> 's" where
  "std_poll_write_vectored inner bufs s = first_slice_write (std_poll_write inner) bufs s"

datatype adapter = Std_Writer | Tokio_Writer | Tokio_Compat

fun is_write_vectored :: "adapter \<Rightarrow> bool" where
  "is_write_vectored Std_Writer = False"
| "is_write_vectored Tokio_Writer = True"
| "is_write_vectored Tokio_Compat = True"

section \<open>Helpers of the traits\<close>

text \<open>\<open>Read\<close>: the count of a read into a fresh buffer.\<close>

definition read_poll :: "nat \<Rightarrow> transport \<Rightarrow> (io_error + nat) poll \<times> transport" where
  "read_poll cap t =
     (case tr_poll_read cap t of
        (Pending, t1) \<Rightarrow> (Pending, t1)
      | (Ready (Inl e), t1) \<Rightarrow> (Ready (Inl e), t1)
      | (Ready (Inr bs), t1) \<Rightarrow> (Ready (Inr (length bs)), t1))"

text \<open>\<open>Flush\<close> and \<open>Shutdown\<close> poll the writer; a \<open>&mut\<close> reader or writer is the one it refers to.\<close>

definition flush_of :: "('s \<Rightarrow> (io_error + unit) poll \<times> 's) \<Rightarrow> 's \<Rightarrow> (io_error + unit) poll \<times> 's" where
  "flush_of poll_flush s = poll_flush s"

definition shutdown_of :: "('s \<Rightarrow> (io_error + unit) poll \<times> 's) \<Rightarrow> 's \<Rightarrow> (io_error + unit) poll \<times> 's" where
  "shutdown_of poll_shutdown s = poll_shutdown s"

definition ref_poll_read :: "'s reader \<Rightarrow> 's reader" where
  "ref_poll_read poll_read cap s = poll_read cap s"

definition ref_poll_write :: "'s writer \<Rightarrow> 's writer" where
  "ref_poll_write poll_write bs s = poll_write bs s"

definition ref_poll_flush :: "('s \<Rightarrow> (io_error + unit) poll \<times> 's) \<Rightarrow> 's \<Rightarrow> (io_error + unit) poll \<times> 's" where
  "ref_poll_flush poll_flush s = poll_flush s"

definition ref_poll_shutdown :: "('s \<Rightarrow> (io_error + unit) poll \<times> 's) \<Rightarrow> 's \<Rightarrow> (io_error + unit) poll \<times> 's" where
  "ref_poll_shutdown poll_shutdown s = poll_shutdown s"

fun write_vectored_fallback :: "byte list list \<Rightarrow> transport \<Rightarrow> (io_error + nat) poll \<times> transport" where
  "write_vectored_fallback [] t = (Ready (Inr 0), t)"
| "write_vectored_fallback (bs # bufs) t = (if bs \<noteq> [] then tr_poll_write bs t else write_vectored_fallback bufs t)"

section \<open>What the adapters keep\<close>

text \<open>A read that returns has appended what the inner stream gave, and nothing when it is pending or fails.\<close>

definition appends :: "read_buf \<Rightarrow> byte list \<Rightarrow> ((io_error + unit) poll \<times> read_buf) option \<Rightarrow> bool" where
  "appends rb bs res \<longleftrightarrow> (\<exists>p rb1. res = Some (p, rb1) \<and> rb_ok rb1 \<and> rb_filled rb1 = rb_filled rb @ bs)"

lemma fill_ready_appends:
  assumes "rb_ok rb" "length bs \<le> rb_remaining rb"
  shows "appends rb bs (fill_ready bs rb)"
proof -
  obtain rb1 where r: "rb_put_slice bs rb = Some rb1" using assms(2) by (simp add: rb_put_slice_def)
  show ?thesis using rb_put_slice_ok(1,2)[OF assms(1) r] r by (simp add: appends_def fill_ready_def)
qed

lemma unfilled_appends: "rb_ok rb \<Longrightarrow> appends rb [] (Some (p, rb))"
  by (simp add: appends_def)

lemma std_poll_read_appends:
  assumes "rb_ok rb" "inner (rb_remaining rb) s = (r, s1)" "\<And>bs. r = Inr bs \<Longrightarrow> length bs \<le> rb_remaining rb"
  shows "appends rb (case r of Inr bs \<Rightarrow> bs | Inl e \<Rightarrow> []) (fst (std_poll_read inner rb s))"
  using assms by (cases r) (simp_all add: std_poll_read_def fill_ready_appends unfilled_appends)

lemma tokio_poll_read_appends:
  assumes "rb_ok rb" "inner (rb_remaining rb) s = (p, s1)" "\<And>bs. p = Ready (Inr bs) \<Longrightarrow> length bs \<le> rb_remaining rb"
  shows "appends rb (case p of Ready (Inr bs) \<Rightarrow> bs | _ \<Rightarrow> []) (fst (tokio_poll_read inner rb s))"
    "async_std_poll_read inner rb s = tokio_poll_read inner rb s"
proof -
  show "appends rb (case p of Ready (Inr bs) \<Rightarrow> bs | _ \<Rightarrow> []) (fst (tokio_poll_read inner rb s))"
    using assms by (cases p) (auto simp: tokio_poll_read_def fill_ready_appends unfilled_appends split: sum.splits)
  have "fill_ready [] rb = Some (Ready (Inr ()), rb)"
    by (cases rb) (simp add: fill_ready_def rb_put_slice_def)
  then show "async_std_poll_read inner rb s = tokio_poll_read inner rb s"
    by (auto simp: async_std_poll_read_def tokio_poll_read_def split: prod.splits poll.splits sum.splits)
qed

lemma write_vectored_first:
  "write_vectored_fallback bufs t = (case find (\<lambda>bs. bs \<noteq> []) bufs of None \<Rightarrow> (Ready (Inr 0), t) | Some bs \<Rightarrow> tr_poll_write bs t)"
  by (induction bufs) auto

end
