(* ===== verification/Tls_Stream.thy ===== *)
theory Tls_Stream
  imports Transport
begin

text \<open>
  The TLS stream of \<open>crates/tpt-net-tls\<close> (\<open>stream.rs\<close>, \<open>acceptor.rs\<close>, \<open>connector.rs\<close>, \<open>error.rs\<close>,
  \<open>pinning.rs\<close>): buffers and loops between a transport and a rustls connection.  The connection is a
  parameter, a record of the operations that the code calls.
\<close>

section \<open>The rustls connection\<close>

text \<open>
  \<open>write_tls\<close> gives the records it appended to the vector, \<open>reader_read\<close> the plaintext it put into
  a buffer with that much room (or the error, \<open>WouldBlock\<close> when there is none), \<open>writer_write\<close> how
  much of the plaintext it accepted, which may be less than all of it.
\<close>

record 'c rustls =
  wants_write :: "'c \<Rightarrow> bool"
  wants_read :: "'c \<Rightarrow> bool"
  is_handshaking :: "'c \<Rightarrow> bool"
  write_tls :: "'c \<Rightarrow> (io_error + byte list) \<times> 'c"
  read_tls :: "byte list \<Rightarrow> 'c \<Rightarrow> (io_error + nat) \<times> 'c"
  process_new_packets :: "'c \<Rightarrow> (string + unit) \<times> 'c"
  reader_read :: "nat \<Rightarrow> 'c \<Rightarrow> (io_error + byte list) \<times> 'c"
  writer_write :: "byte list \<Rightarrow> 'c \<Rightarrow> (io_error + nat) \<times> 'c"
  send_close_notify :: "'c \<Rightarrow> 'c"

section \<open>Errors\<close>

text \<open>
  With \<open>std\<close> an \<open>IoError\<close> wraps a \<open>std::io::Error\<close>, which has kinds that \<open>io_error\<close> lacks;
  \<open>InvalidData\<close> is the one that this crate makes.
\<close>

datatype std_io_error = Io_Kind io_error | Invalid_Data string

datatype tls_error = Tls_Rustls string | Tls_Io io_error | Tls_Timed_Out | Tls_Root_Store_Empty | Tls_Pem std_io_error

fun tls_error_text :: "tls_error \<Rightarrow> string" where
  "tls_error_text Tls_Timed_Out = ''TLS operation timed out''"
| "tls_error_text Tls_Root_Store_Empty =
     ''trust store is empty: enable the webpki-roots or native-certs feature, or supply roots manually''"
| "tls_error_text (Tls_Rustls e) = ''TLS error: '' @ e"
| "tls_error_text (Tls_Io (Io_Error k m)) = ''I/O error: '' @ m"
| "tls_error_text (Tls_Pem (Io_Kind (Io_Error k m))) = ''PEM parse error: '' @ m"
| "tls_error_text (Tls_Pem (Invalid_Data m)) = ''PEM parse error: '' @ m"

fun into_io :: "tls_error \<Rightarrow> std_io_error" where
  "into_io (Tls_Io e) = Io_Kind e"
| "into_io (Tls_Rustls e) = Invalid_Data e"
| "into_io (Tls_Pem e) = e"
| "into_io e = Io_Kind (Io_Error Other_Kind (tls_error_text e))"

section \<open>The stream\<close>

record 'c tls_stream =
  tls_io :: transport
  tls_conn :: 'c
  tls_read_buf :: "byte list"
  tls_write_buf :: "byte list"
  tls_write_pos :: nat

definition tls_new :: "transport \<Rightarrow> 'c \<Rightarrow> 'c tls_stream" where
  "tls_new t c = \<lparr>tls_io = t, tls_conn = c, tls_read_buf = [], tls_write_buf = [], tls_write_pos = 0\<rparr>"

definition pull_tls_records :: "'c rustls \<Rightarrow> 'c tls_stream \<Rightarrow> (tls_error + unit) \<times> 'c tls_stream" where
  "pull_tls_records R s =
     (case write_tls R (tls_conn s) of
        (Inl e, c) \<Rightarrow> (Inl (Tls_Io e), s\<lparr>tls_conn := c\<rparr>)
      | (Inr bs, c) \<Rightarrow> (Inr (), s\<lparr>tls_conn := c, tls_write_buf := tls_write_buf s @ bs\<rparr>))"

function poll_flush_write_buf :: "'c tls_stream \<Rightarrow> (tls_error + unit) poll \<times> 'c tls_stream" where
  "poll_flush_write_buf s =
     (if tls_write_pos s < length (tls_write_buf s) then
        case tr_poll_write (drop (tls_write_pos s) (tls_write_buf s)) (tls_io s) of
          (Pending, t) \<Rightarrow> (Pending, s\<lparr>tls_io := t\<rparr>)
        | (Ready (Inl e), t) \<Rightarrow> (Ready (Inl (Tls_Io e)), s\<lparr>tls_io := t\<rparr>)
        | (Ready (Inr n), t) \<Rightarrow>
            if n = 0 then (Ready (Inl (Tls_Io write_zero)), s\<lparr>tls_io := t\<rparr>)
            else poll_flush_write_buf (s\<lparr>tls_io := t, tls_write_pos := tls_write_pos s + n\<rparr>)
      else (Ready (Inr ()), s\<lparr>tls_write_buf := [], tls_write_pos := 0\<rparr>))"
  by pat_completeness auto
termination
  by (relation "measure (\<lambda>s. length (tls_write_buf s) - tls_write_pos s)") auto

declare poll_flush_write_buf.simps [simp del]

definition poll_drive_pending_writes :: "'c rustls \<Rightarrow> 'c tls_stream \<Rightarrow> (tls_error + unit) poll \<times> 'c tls_stream" where
  "poll_drive_pending_writes R s =
     (case (if wants_write R (tls_conn s) then pull_tls_records R s else (Inr (), s)) of
        (Inl e, s1) \<Rightarrow> (Ready (Inl e), s1)
      | (Inr u, s1) \<Rightarrow>
          if length (tls_write_buf s1) \<le> tls_write_pos s1 then (Ready (Inr ()), s1)
          else poll_flush_write_buf s1)"

definition feed_incoming_to_rustls :: "'c rustls \<Rightarrow> 'c tls_stream \<Rightarrow> (tls_error + nat) \<times> 'c tls_stream" where
  "feed_incoming_to_rustls R s =
     (if tls_read_buf s = [] then (Inr 0, s)
      else
        case read_tls R (tls_read_buf s) (tls_conn s) of
          (Inl e, c) \<Rightarrow> (Inl (Tls_Io e), s\<lparr>tls_conn := c\<rparr>)
        | (Inr consumed, c) \<Rightarrow>
            let s1 = s\<lparr>tls_conn := c, tls_read_buf := drop consumed (tls_read_buf s)\<rparr> in
            (case process_new_packets R c of
               (Inl e, c1) \<Rightarrow> (Inl (Tls_Rustls e), s1\<lparr>tls_conn := c1\<rparr>)
             | (Inr u, c1) \<Rightarrow> (Inr consumed, s1\<lparr>tls_conn := c1\<rparr>)))"

section \<open>The handshake\<close>

lemma tr_poll_write_accepting:
  "tr_poll_write bs t = (p, t1) \<Longrightarrow> length (accepting t1) \<le> length (accepting t) \<and>
     (p = Pending \<longrightarrow> length (accepting t1) < length (accepting t))"
  by (auto simp: tr_poll_write.simps split: list.splits write_event.splits)

text \<open>The loop of its writes, each one awaited: \<open>rest\<close> is what is not yet written.\<close>

function send_flight :: "byte list \<Rightarrow> transport \<Rightarrow> (tls_error + unit) \<times> transport" where
  "send_flight rest t =
     (if rest = [] then (Inr (), t)
      else case tr_poll_write rest t of
        (Pending, t1) \<Rightarrow> send_flight rest t1
      | (Ready (Inl e), t1) \<Rightarrow> (Inl (Tls_Io e), t1)
      | (Ready (Inr n), t1) \<Rightarrow> if n = 0 then (Inl (Tls_Io write_zero), t1) else send_flight (drop n rest) t1)"
  by pat_completeness auto
termination
proof (relation "measures [\<lambda>(rest, t). length rest, \<lambda>(rest, t). length (accepting t)]")
  fix rest t x y
  assume "(x :: (io_error + nat) poll, y) = tr_poll_write rest t" "x = Pending"
  then show "((rest, y), rest, t) \<in> measures [\<lambda>(rest, t). length rest, \<lambda>(rest, t). length (accepting t)]"
    using tr_poll_write_accepting[of rest t x y] by simp
qed auto

declare send_flight.simps [simp del]

definition handshake_send :: "'c tls_stream \<Rightarrow> (tls_error + bool) \<times> 'c tls_stream" where
  "handshake_send s =
     (if tls_write_buf s = [] then (Inr False, s)
      else
        case send_flight (drop (tls_write_pos s) (tls_write_buf s)) (tls_io s) of
          (Inl e, t) \<Rightarrow> (Inl e, s\<lparr>tls_io := t\<rparr>)
        | (Inr u, t) \<Rightarrow>
            let s1 = s\<lparr>tls_io := t, tls_write_buf := [], tls_write_pos := 0\<rparr> in
            (case tr_flush t of
               Inl e \<Rightarrow> (Inl (Tls_Io e), s1)
             | Inr v \<Rightarrow> (Inr True, s1)))"

definition handshake_eof :: io_error where
  "handshake_eof = Io_Error Unexpected_Eof ''peer closed connection during TLS handshake''"

text \<open>The first two stages of a round: what was buffered is processed, what rustls wants to send is sent.\<close>

definition handshake_stages :: "'c rustls \<Rightarrow> 'c tls_stream \<Rightarrow> (tls_error + bool) \<times> 'c tls_stream" where
  "handshake_stages R s =
     (case feed_incoming_to_rustls R s of
        (Inl e, s1) \<Rightarrow> (Inl e, s1)
      | (Inr consumed, s1) \<Rightarrow>
          (case (if wants_write R (tls_conn s1) then pull_tls_records R s1 else (Inr (), s1)) of
             (Inl e, s2) \<Rightarrow> (Inl e, s2)
           | (Inr u, s2) \<Rightarrow>
               (case handshake_send s2 of
                  (Inl e, s3) \<Rightarrow> (Inl e, s3)
                | (Inr sent, s3) \<Rightarrow> (Inr (0 < consumed \<or> sent), s3))))"

definition handshake_fetch :: "'c rustls \<Rightarrow> 'c tls_stream \<Rightarrow> (tls_error + unit) \<times> 'c tls_stream" where
  "handshake_fetch R s =
     (case tr_read 4096 (tls_io s) of
        (Inl e, t) \<Rightarrow> (Inl (Tls_Io e), s\<lparr>tls_io := t\<rparr>)
      | (Inr bs, t) \<Rightarrow>
          if bs = [] then (Inl (Tls_Io handshake_eof), s\<lparr>tls_io := t\<rparr>)
          else
            (case feed_incoming_to_rustls R (s\<lparr>tls_io := t, tls_read_buf := tls_read_buf s @ bs\<rparr>) of
               (Inl e, s1) \<Rightarrow> (Inl e, s1)
             | (Inr n, s1) \<Rightarrow> (Inr (), s1)))"

text \<open>\<open>None\<close> is a handshake that never returns: rustls may ask for nothing and go on for ever.\<close>

partial_function (option) tls_handshake :: "'c rustls \<Rightarrow> 'c tls_stream \<Rightarrow> ((tls_error + unit) \<times> 'c tls_stream) option" where
  "tls_handshake R s =
     (case handshake_stages R s of
        (Inl e, s1) \<Rightarrow> Some (Inl e, s1)
      | (Inr progress, s1) \<Rightarrow>
          if \<not> is_handshaking R (tls_conn s1) \<and> \<not> wants_write R (tls_conn s1) \<and>
             length (tls_write_buf s1) \<le> tls_write_pos s1
          then Some (Inr (), s1)
          else if wants_read R (tls_conn s1) \<or> \<not> progress then
            (case handshake_fetch R s1 of
               (Inl e, s2) \<Rightarrow> Some (Inl e, s2)
             | (Inr u, s2) \<Rightarrow> tls_handshake R s2)
          else tls_handshake R s1)"

text \<open>\<open>TlsAcceptor::accept\<close> and \<open>TlsConnector::connect\<close>; the new connection is rustls's.\<close>

definition tls_accept ::
  "'c rustls \<Rightarrow> (string + 'c) \<Rightarrow> transport \<Rightarrow> (tls_error + 'c tls_stream) option" where
  "tls_accept R new_conn t =
     (case new_conn of
        Inl e \<Rightarrow> Some (Inl (Tls_Rustls e))
      | Inr c \<Rightarrow>
          (case tls_handshake R (tls_new t c) of
             None \<Rightarrow> None
           | Some (Inl e, s) \<Rightarrow> Some (Inl e)
           | Some (Inr u, s) \<Rightarrow> Some (Inr s)))"

definition tls_connect ::
  "'c rustls \<Rightarrow> (string + 'c) \<Rightarrow> transport \<Rightarrow> (tls_error + 'c tls_stream) option" where
  "tls_connect R new_conn t =
     (case new_conn of
        Inl e \<Rightarrow> Some (Inl (Tls_Rustls e))
      | Inr c \<Rightarrow>
          (case tls_handshake R (tls_new t c) of
             None \<Rightarrow> None
           | Some (Inl e, s) \<Rightarrow> Some (Inl e)
           | Some (Inr u, s) \<Rightarrow> Some (Inr s)))"

section \<open>Plaintext\<close>

definition transport_eof :: io_error where
  "transport_eof = Io_Error Unexpected_Eof ''TLS peer closed the transport unexpectedly''"

text \<open>A poll of a read with \<open>cap\<close> bytes of room: the bytes put into the buffer.\<close>

partial_function (option) tls_poll_read ::
  "'c rustls \<Rightarrow> nat \<Rightarrow> 'c tls_stream \<Rightarrow> ((std_io_error + byte list) poll \<times> 'c tls_stream) option" where
  "tls_poll_read R cap s =
     (case poll_drive_pending_writes R s of
        (Pending, s1) \<Rightarrow> Some (Pending, s1)
      | (Ready (Inl e), s1) \<Rightarrow> Some (Ready (Inl (into_io e)), s1)
      | (Ready (Inr u), s1) \<Rightarrow>
          (case reader_read R cap (tls_conn s1) of
             (Inr bs, c) \<Rightarrow> Some (Ready (Inr bs), s1\<lparr>tls_conn := c\<rparr>)
           | (Inl (Io_Error k m), c) \<Rightarrow>
               if k \<noteq> Would_Block then Some (Ready (Inl (Io_Kind (Io_Error k m))), s1\<lparr>tls_conn := c\<rparr>)
               else if tls_read_buf s1 \<noteq> [] then
                 (case feed_incoming_to_rustls R (s1\<lparr>tls_conn := c\<rparr>) of
                    (Inl e, s2) \<Rightarrow> Some (Ready (Inl (into_io e)), s2)
                  | (Inr n, s2) \<Rightarrow> tls_poll_read R cap s2)
               else
                 (case tr_poll_read 4096 (tls_io s1) of
                    (Pending, t) \<Rightarrow> Some (Pending, s1\<lparr>tls_conn := c, tls_io := t\<rparr>)
                  | (Ready (Inl e), t) \<Rightarrow> Some (Ready (Inl (Io_Kind e)), s1\<lparr>tls_conn := c, tls_io := t\<rparr>)
                  | (Ready (Inr bs), t) \<Rightarrow>
                      if bs = [] then Some (Ready (Inl (Io_Kind transport_eof)), s1\<lparr>tls_conn := c, tls_io := t\<rparr>)
                      else tls_poll_read R cap (s1\<lparr>tls_conn := c, tls_io := t, tls_read_buf := tls_read_buf s1 @ bs\<rparr>))))"

definition tls_poll_write ::
  "'c rustls \<Rightarrow> byte list \<Rightarrow> 'c tls_stream \<Rightarrow> (std_io_error + nat) poll \<times> 'c tls_stream" where
  "tls_poll_write R bs s =
     (case poll_flush_write_buf s of
        (Pending, s1) \<Rightarrow> (Pending, s1)
      | (Ready (Inl e), s1) \<Rightarrow> (Ready (Inl (into_io e)), s1)
      | (Ready (Inr u), s1) \<Rightarrow>
          (case writer_write R bs (tls_conn s1) of
             (Inl e, c) \<Rightarrow> (Ready (Inl (Io_Kind e)), s1\<lparr>tls_conn := c\<rparr>)
           | (Inr n, c) \<Rightarrow>
               if n = 0 then (Ready (Inl (Io_Kind write_zero)), s1\<lparr>tls_conn := c\<rparr>)
               else
                 (case pull_tls_records R (s1\<lparr>tls_conn := c\<rparr>) of
                    (Inl e, s2) \<Rightarrow> (Ready (Inl (into_io e)), s2)
                  | (Inr v, s2) \<Rightarrow>
                      (case poll_flush_write_buf s2 of
                         (Pending, s3) \<Rightarrow> (Ready (Inr (length bs)), s3)
                       | (Ready (Inr x), s3) \<Rightarrow> (Ready (Inr (length bs)), s3)
                       | (Ready (Inl e), s3) \<Rightarrow> (Ready (Inl (into_io e)), s3)))))"

definition tls_poll_flush :: "'c tls_stream \<Rightarrow> (std_io_error + unit) poll \<times> 'c tls_stream" where
  "tls_poll_flush s =
     (case poll_flush_write_buf s of
        (Pending, s1) \<Rightarrow> (Pending, s1)
      | (Ready (Inl e), s1) \<Rightarrow> (Ready (Inl (into_io e)), s1)
      | (Ready (Inr u), s1) \<Rightarrow>
          (Ready (case tr_flush (tls_io s1) of Inl e \<Rightarrow> Inl (Io_Kind e) | Inr v \<Rightarrow> Inr ()), s1))"

text \<open>The transport's own shutdown is a parameter.\<close>

definition tls_poll_shutdown ::
  "'c rustls \<Rightarrow> (transport \<Rightarrow> (io_error + unit) poll \<times> transport) \<Rightarrow> 'c tls_stream \<Rightarrow>
   (std_io_error + unit) poll \<times> 'c tls_stream" where
  "tls_poll_shutdown R io_shutdown s =
     (case pull_tls_records R (s\<lparr>tls_conn := send_close_notify R (tls_conn s)\<rparr>) of
        (Inl e, s1) \<Rightarrow> (Ready (Inl (into_io e)), s1)
      | (Inr u, s1) \<Rightarrow>
          (case poll_flush_write_buf s1 of
             (Pending, s2) \<Rightarrow> (Pending, s2)
           | (Ready (Inl e), s2) \<Rightarrow> (Ready (Inl (into_io e)), s2)
           | (Ready (Inr v), s2) \<Rightarrow>
               (case io_shutdown (tls_io s2) of
                  (Pending, t) \<Rightarrow> (Pending, s2\<lparr>tls_io := t\<rparr>)
                | (Ready (Inl e), t) \<Rightarrow> (Ready (Inl (Io_Kind e)), s2\<lparr>tls_io := t\<rparr>)
                | (Ready (Inr w), t) \<Rightarrow> (Ready (Inr ()), s2\<lparr>tls_io := t\<rparr>))))"

section \<open>Certificate pinning\<close>

text \<open>A verifier gives an error or accepts; the hash and the fallback are parameters.\<close>

type_synonym 'cert verifier = "'cert \<Rightarrow> string + unit"

record 'cert pinned_verifier =
  pins :: "byte list list"
  fallback :: "'cert verifier"

definition no_fallback :: "'cert verifier" where
  "no_fallback cert = Inl ''certificate not pinned and no fallback verifier configured''"

definition pinned_new :: "byte list list \<Rightarrow> 'cert pinned_verifier" where
  "pinned_new ps = \<lparr>pins = ps, fallback = no_fallback\<rparr>"

definition with_fallback :: "byte list list \<Rightarrow> 'cert verifier \<Rightarrow> 'cert pinned_verifier" where
  "with_fallback ps f = \<lparr>pins = ps, fallback = f\<rparr>"

definition pin_for_cert :: "('cert \<Rightarrow> byte list) \<Rightarrow> 'cert \<Rightarrow> byte list" where
  "pin_for_cert sha256 cert = sha256 cert"

definition matches_pin :: "('cert \<Rightarrow> byte list) \<Rightarrow> 'cert pinned_verifier \<Rightarrow> 'cert \<Rightarrow> bool" where
  "matches_pin sha256 v cert \<longleftrightarrow> sha256 cert \<in> set (pins v)"

definition verify_server_cert :: "('cert \<Rightarrow> byte list) \<Rightarrow> 'cert pinned_verifier \<Rightarrow> 'cert verifier" where
  "verify_server_cert sha256 v cert = (if matches_pin sha256 v cert then Inr () else fallback v cert)"

definition pinned_connector :: "byte list list \<Rightarrow> 'cert pinned_verifier" where
  "pinned_connector ps = pinned_new ps"

text \<open>
  Signatures are checked by the provider's algorithms, with or without a fallback; \<open>'sig\<close> is the signed
  structure and \<open>'scheme\<close> a signature scheme.
\<close>

record ('cert, 'sig, 'scheme) crypto_provider =
  tls12_signature :: "byte list \<Rightarrow> 'cert \<Rightarrow> 'sig \<Rightarrow> string + unit"
  tls13_signature :: "byte list \<Rightarrow> 'cert \<Rightarrow> 'sig \<Rightarrow> string + unit"
  supported_schemes :: "'scheme list"

definition verify_tls12_signature ::
  "('cert, 'sig, 'scheme) crypto_provider \<Rightarrow> byte list \<Rightarrow> 'cert \<Rightarrow> 'sig \<Rightarrow> string + unit" where
  "verify_tls12_signature P message cert s = tls12_signature P message cert s"

definition verify_tls13_signature ::
  "('cert, 'sig, 'scheme) crypto_provider \<Rightarrow> byte list \<Rightarrow> 'cert \<Rightarrow> 'sig \<Rightarrow> string + unit" where
  "verify_tls13_signature P message cert s = tls13_signature P message cert s"

definition supported_verify_schemes :: "('cert, 'sig, 'scheme) crypto_provider \<Rightarrow> 'scheme list" where
  "supported_verify_schemes P = supported_schemes P"

end
