(* ===== verification/Tls_Flow.thy ===== *)
theory Tls_Flow
  imports Tls_Stream
begin

text \<open>
  What the loops of the TLS stream promise whatever rustls does: the records that it makes reach the
  transport once and in order, a finished handshake has sent them all, and a read comes to an end.
\<close>

section \<open>The records on their way\<close>

text \<open>
  \<open>made c\<close> are the bytes that the connection has handed out with \<open>write_tls\<close>; only that call adds
  to them.
\<close>

definition records_law :: "'c rustls \<Rightarrow> ('c \<Rightarrow> byte list) \<Rightarrow> bool" where
  "records_law R made \<longleftrightarrow>
     (\<forall>c. made (snd (write_tls R c)) = made c @ (case fst (write_tls R c) of Inl e \<Rightarrow> [] | Inr bs \<Rightarrow> bs)) \<and>
     (\<forall>c bs. made (snd (read_tls R bs c)) = made c) \<and> (\<forall>c. made (snd (process_new_packets R c)) = made c) \<and>
     (\<forall>c n. made (snd (reader_read R n c)) = made c) \<and> (\<forall>c bs. made (snd (writer_write R bs c)) = made c) \<and>
     (\<forall>c. made (send_close_notify R c) = made c)"

lemma records_lawD:
  assumes "records_law R made"
  shows "write_tls R c = (Inl e, c1) \<Longrightarrow> made c1 = made c"
    "write_tls R c = (Inr bs, c1) \<Longrightarrow> made c1 = made c @ bs"
    "read_tls R b c = (r1, c1) \<Longrightarrow> made c1 = made c"
    "process_new_packets R c = (r2, c1) \<Longrightarrow> made c1 = made c"
    "reader_read R n c = (r3, c1) \<Longrightarrow> made c1 = made c"
    "writer_write R b c = (r4, c1) \<Longrightarrow> made c1 = made c"
    "made (send_close_notify R c) = made c"
  using assms unfolding records_law_def
  by (metis fst_conv snd_conv sum.case append_Nil2)+

definition tls_flow :: "byte list \<Rightarrow> ('c \<Rightarrow> byte list) \<Rightarrow> 'c tls_stream \<Rightarrow> bool" where
  "tls_flow out0 made s \<longleftrightarrow> tls_write_pos s \<le> length (tls_write_buf s) \<and>
     outgoing (tls_io s) @ drop (tls_write_pos s) (tls_write_buf s) = out0 @ made (tls_conn s)"

lemma tls_flow_new: "tls_flow (outgoing t) (\<lambda>c. drop n (made c)) (tls_new t c) \<longleftrightarrow> length (made c) \<le> n"
  by (simp add: tls_flow_def tls_new_def)

lemma tr_poll_read_outgoing: "tr_poll_read cap t = (p, t1) \<Longrightarrow> outgoing t1 = outgoing t"
  by (auto simp: tr_poll_read.simps split: list.splits read_event.splits if_splits)

lemma tr_read_outgoing: "tr_read cap t = (p, t1) \<Longrightarrow> outgoing t1 = outgoing t"
proof (induction cap t rule: tr_read.induct)
  case (1 cap t)
  obtain q t2 where q: "tr_poll_read cap t = (q, t2)" by fastforce
  then show ?case
    using "1.prems" "1.IH"[OF q[symmetric]] tr_poll_read_outgoing[OF q]
    by (cases q) (simp_all add: tr_read.simps[of cap t])
qed

text \<open>A write takes a prefix, in order, and leaves the reading side alone.\<close>

lemma tr_poll_write_takes:
  assumes "tr_poll_write bs t = (p, t1)"
  shows "outgoing t1 = outgoing t @ (case p of Ready (Inr n) \<Rightarrow> take n bs | _ \<Rightarrow> [])"
    "p = Ready (Inr n) \<Longrightarrow> n \<le> length bs" "incoming t1 = incoming t"
  using assms by (auto simp: tr_poll_write.simps min_def split: list.splits write_event.splits)

lemma pull_tls_records_flow:
  assumes "records_law R made" "tls_flow out0 made s" "pull_tls_records R s = (r, s1)"
  shows "tls_flow out0 made s1"
  using assms(2,3) records_lawD(1,2)[OF assms(1)]
  by (auto simp: pull_tls_records_def tls_flow_def split: prod.splits sum.splits)

lemma poll_flush_write_buf_flow:
  "poll_flush_write_buf s = (p, s1) \<Longrightarrow> tls_flow out0 made s \<Longrightarrow>
     tls_flow out0 made s1 \<and> tls_conn s1 = tls_conn s \<and> tls_read_buf s1 = tls_read_buf s \<and>
     incoming (tls_io s1) = incoming (tls_io s) \<and>
     (p = Ready (Inr ()) \<longrightarrow> tls_write_buf s1 = [] \<and> tls_write_pos s1 = 0)"
proof (induction s rule: poll_flush_write_buf.induct)
  case (1 s)
  show ?case
  proof (cases "tls_write_pos s < length (tls_write_buf s)")
    case False
    then show ?thesis using "1.prems" by (auto simp: poll_flush_write_buf.simps[of s] tls_flow_def)
  next
    case True
    obtain q t where q: "tr_poll_write (drop (tls_write_pos s) (tls_write_buf s)) (tls_io s) = (q, t)" by fastforce
    note w = tr_poll_write_takes[OF q]
    show ?thesis
    proof (cases "\<exists>n. q = Ready (Inr n) \<and> n \<noteq> 0")
      case False
      have o: "outgoing t = outgoing (tls_io s)"
        using w(1) False by (cases q) (auto split: sum.splits)
      have "s1 = s\<lparr>tls_io := t\<rparr> \<and> p \<noteq> Ready (Inr ())"
        using "1.prems"(1) True q False by (auto simp: poll_flush_write_buf.simps[of s] split: poll.splits sum.splits)
      then show ?thesis using "1.prems"(2) o w(3) by (simp add: tls_flow_def)
    next
      case n: True
      then obtain n where n: "q = Ready (Inr n)" "n \<noteq> 0" by blast
      let ?s = "s\<lparr>tls_io := t, tls_write_pos := tls_write_pos s + n\<rparr>"
      have eq: "poll_flush_write_buf ?s = (p, s1)"
        using "1.prems"(1) True q n by (simp add: poll_flush_write_buf.simps[of s])
      have "n \<le> length (tls_write_buf s) - tls_write_pos s" using w(2)[OF n(1)] by simp
      moreover have "outgoing t @ drop n (drop (tls_write_pos s) (tls_write_buf s)) =
          outgoing (tls_io s) @ drop (tls_write_pos s) (tls_write_buf s)"
        using w(1) n(1) by (simp del: drop_drop)
      ultimately have "tls_flow out0 made ?s"
        using "1.prems"(2) True by (simp add: tls_flow_def add.commute)
      from "1.IH"[OF True q[symmetric] n(1) refl n(2) eq this] w(3) show ?thesis by simp
    qed
  qed
qed

lemma poll_drive_flow:
  assumes "records_law R made" "tls_flow out0 made s" "poll_drive_pending_writes R s = (p, s1)"
  shows "tls_flow out0 made s1" "tls_read_buf s1 = tls_read_buf s" "incoming (tls_io s1) = incoming (tls_io s)"
proof -
  obtain r s2 where d: "(if wants_write R (tls_conn s) then pull_tls_records R s else (Inr (), s)) = (r, s2)" by fastforce
  have f2: "tls_flow out0 made s2"
    using d pull_tls_records_flow[OF assms(1,2)] assms(2) by (auto split: if_splits)
  have k: "tls_read_buf s2 = tls_read_buf s" "tls_io s2 = tls_io s"
    using d by (auto simp: pull_tls_records_def split: if_splits prod.splits sum.splits)
  have e: "(case r of Inl e \<Rightarrow> (Ready (Inl e), s2)
      | Inr u \<Rightarrow> if length (tls_write_buf s2) \<le> tls_write_pos s2 then (Ready (Inr ()), s2) else poll_flush_write_buf s2) = (p, s1)"
    using assms(3) d by (simp add: poll_drive_pending_writes_def)
  have "s1 = s2 \<or> poll_flush_write_buf s2 = (p, s1)" using e by (auto split: sum.splits if_splits)
  then show "tls_flow out0 made s1" "tls_read_buf s1 = tls_read_buf s" "incoming (tls_io s1) = incoming (tls_io s)"
    using poll_flush_write_buf_flow[of s2 p s1 out0 made] f2 k by auto
qed

lemma feed_incoming_keeps:
  assumes "records_law R made" "feed_incoming_to_rustls R s = (r, s1)"
  shows "tls_io s1 = tls_io s" "tls_write_buf s1 = tls_write_buf s" "tls_write_pos s1 = tls_write_pos s"
    "made (tls_conn s1) = made (tls_conn s)"
  using assms(2) records_lawD(3,4)[OF assms(1)]
  by (auto simp: feed_incoming_to_rustls_def Let_def split: if_splits prod.splits sum.splits)

lemma feed_incoming_flow:
  assumes "records_law R made" "tls_flow out0 made s" "feed_incoming_to_rustls R s = (r, s1)"
  shows "tls_flow out0 made s1"
  using assms(2) feed_incoming_keeps[OF assms(1,3)] by (simp add: tls_flow_def)

section \<open>The handshake\<close>

lemma send_flight_written:
  "send_flight rest t = (r, t1) \<Longrightarrow>
     \<exists>sent left. rest = sent @ left \<and> outgoing t1 = outgoing t @ sent \<and> (r = Inr () \<longrightarrow> left = [])"
proof (induction rest t rule: send_flight.induct)
  case (1 rest t)
  show ?case
  proof (cases "rest = []")
    case True
    then show ?thesis using "1.prems" by (simp add: send_flight.simps)
  next
    case False
    obtain q t2 where q: "tr_poll_write rest t = (q, t2)" by fastforce
    note w = tr_poll_write_takes[OF q]
    show ?thesis
    proof (cases q)
      case Pending
      then show ?thesis
        using "1.IH"(1)[OF False q[symmetric]] "1.prems" False q w(1) by (simp add: send_flight.simps[of rest t])
    next
      case (Ready x)
      show ?thesis
      proof (cases "\<exists>n. x = Inr n \<and> n \<noteq> 0")
        case False
        then have "r \<noteq> Inr () \<and> outgoing t1 = outgoing t"
          using "1.prems" \<open>rest \<noteq> []\<close> q Ready w(1)
          by (auto simp: send_flight.simps[of rest t] split: sum.splits)
        then show ?thesis by auto
      next
        case True
        then obtain n where n: "x = Inr n" "n \<noteq> 0" by blast
        have eq: "send_flight (drop n rest) t2 = (r, t1)"
          using "1.prems" False q Ready n by (simp add: send_flight.simps[of rest t])
        from "1.IH"(2)[OF False q[symmetric] Ready n(1) n(2) eq] obtain sent left where
          "drop n rest = sent @ left" "outgoing t1 = outgoing t2 @ sent" "r = Inr () \<longrightarrow> left = []" by blast
        moreover from this(1) have "rest = (take n rest @ sent) @ left" by (metis append.assoc append_take_drop_id)
        ultimately show ?thesis
          using w(1) Ready n by (intro exI[of _ "take n rest @ sent"] exI[of _ left]) simp
      qed
    qed
  qed
qed

text \<open>
  The flow when a failed flight may have left part of itself on the wire: what was sent is a prefix
  of what was made.
\<close>

definition tls_sent_prefix :: "byte list \<Rightarrow> ('c \<Rightarrow> byte list) \<Rightarrow> 'c tls_stream \<Rightarrow> bool" where
  "tls_sent_prefix out0 made s \<longleftrightarrow> (\<exists>rest. outgoing (tls_io s) @ rest = out0 @ made (tls_conn s))"

lemma tls_flow_prefix: "tls_flow out0 made s \<Longrightarrow> tls_sent_prefix out0 made s"
  by (auto simp: tls_flow_def tls_sent_prefix_def)

lemma handshake_send_flow:
  assumes "tls_flow out0 made s" "handshake_send s = (r, s1)"
  shows "tls_sent_prefix out0 made s1" "r = Inr b \<Longrightarrow> tls_flow out0 made s1 \<and> tls_write_buf s1 = []"
    "tls_conn s1 = tls_conn s"
proof -
  show "tls_conn s1 = tls_conn s"
    using assms(2) by (auto simp: handshake_send_def Let_def split: if_splits prod.splits sum.splits)
  have "tls_sent_prefix out0 made s1 \<and> (r = Inr b \<longrightarrow> tls_flow out0 made s1 \<and> tls_write_buf s1 = [])"
  proof (cases "tls_write_buf s = []")
    case True
    then have "s1 = s" using assms(2) by (simp add: handshake_send_def)
    then show ?thesis using True assms(1) tls_flow_prefix by auto
  next
    case False
    obtain q t where q: "send_flight (drop (tls_write_pos s) (tls_write_buf s)) (tls_io s) = (q, t)" by fastforce
    obtain sent left where sl: "drop (tls_write_pos s) (tls_write_buf s) = sent @ left"
        "outgoing t = outgoing (tls_io s) @ sent" "q = Inr () \<longrightarrow> left = []"
      using send_flight_written[OF q] by blast
    have pre: "outgoing t @ left = out0 @ made (tls_conn s)" using assms(1) sl(1,2) by (simp add: tls_flow_def)
    have s1: "tls_io s1 = t" "tls_conn s1 = tls_conn s"
      using assms(2) q False by (auto simp: handshake_send_def Let_def split: sum.splits)
    then have "tls_sent_prefix out0 made s1" using pre by (auto simp: tls_sent_prefix_def)
    moreover have "q = Inr () \<and> tls_write_buf s1 = [] \<and> tls_write_pos s1 = 0" if "r = Inr b"
      using that assms(2) q False by (auto simp: handshake_send_def Let_def split: sum.splits)
    ultimately show ?thesis using pre sl(3) s1 by (auto simp: tls_flow_def)
  qed
  then show "tls_sent_prefix out0 made s1" "r = Inr b \<Longrightarrow> tls_flow out0 made s1 \<and> tls_write_buf s1 = []" by auto
qed

lemma handshake_stages_flow:
  assumes "records_law R made" "tls_flow out0 made s" "handshake_stages R s = (r, s1)"
  shows "tls_sent_prefix out0 made s1" "r = Inr b \<Longrightarrow> tls_flow out0 made s1 \<and> tls_write_buf s1 = []"
proof -
  obtain r1 s2 where f: "feed_incoming_to_rustls R s = (r1, s2)" by fastforce
  have fl2: "tls_flow out0 made s2" by (rule feed_incoming_flow[OF assms(1,2) f])
  obtain r2 s3 where p: "(if wants_write R (tls_conn s2) then pull_tls_records R s2 else (Inr (), s2)) = (r2, s3)"
    by fastforce
  have fl3: "tls_flow out0 made s3" using p pull_tls_records_flow[OF assms(1) fl2] fl2 by (auto split: if_splits)
  obtain r3 s4 where h: "handshake_send s3 = (r3, s4)" by fastforce
  note hs = handshake_send_flow[OF fl3 h]
  have eq: "handshake_stages R s = (case r1 of Inl e \<Rightarrow> (Inl e, s2) | Inr consumed \<Rightarrow> (case r2 of Inl e \<Rightarrow> (Inl e, s3)
      | Inr u \<Rightarrow> (case r3 of Inl e \<Rightarrow> (Inl e, s4) | Inr sent \<Rightarrow> (Inr (0 < consumed \<or> sent), s4))))"
    by (simp only: handshake_stages_def f p h prod.case)
  show "tls_sent_prefix out0 made s1"
    using assms(3) fl2 fl3 hs(1) tls_flow_prefix unfolding eq by (auto split: sum.splits)
  show "r = Inr b \<Longrightarrow> tls_flow out0 made s1 \<and> tls_write_buf s1 = []"
    using assms(3) hs(2) unfolding eq by (auto split: sum.splits)
qed

lemma handshake_fetch_flow:
  assumes "records_law R made" "tls_flow out0 made s" "handshake_fetch R s = (r, s1)"
  shows "tls_flow out0 made s1"
proof -
  obtain q t where q: "tr_read 4096 (tls_io s) = (q, t)" by fastforce
  have o: "outgoing t = outgoing (tls_io s)" by (rule tr_read_outgoing[OF q])
  have fl: "tls_flow out0 made (s\<lparr>tls_io := t, tls_read_buf := b\<rparr>)" "tls_flow out0 made (s\<lparr>tls_io := t\<rparr>)" for b
    using assms(2) o by (simp_all add: tls_flow_def)
  show ?thesis
  proof (cases q)
    case (Inl e)
    then show ?thesis using assms(3) q fl(2) by (simp add: handshake_fetch_def)
  next
    case (Inr bs)
    obtain r2 s2 where f: "feed_incoming_to_rustls R (s\<lparr>tls_io := t, tls_read_buf := tls_read_buf s @ bs\<rparr>) = (r2, s2)"
      by fastforce
    have "s1 = s\<lparr>tls_io := t\<rparr> \<or> s1 = s2"
      using assms(3) q Inr f by (auto simp: handshake_fetch_def split: if_splits sum.splits)
    then show ?thesis using feed_incoming_flow[OF assms(1) fl(1) f] fl(2) by auto
  qed
qed

text \<open>A handshake that succeeds is complete, and all that rustls made has reached the transport.\<close>

definition handshake_done :: "'c rustls \<Rightarrow> byte list \<Rightarrow> ('c \<Rightarrow> byte list) \<Rightarrow> 'c tls_stream \<Rightarrow> bool" where
  "handshake_done R out0 made s \<longleftrightarrow> \<not> is_handshaking R (tls_conn s) \<and> \<not> wants_write R (tls_conn s) \<and>
     tls_write_buf s = [] \<and> outgoing (tls_io s) = out0 @ made (tls_conn s)"

lemma tls_handshake_spec:
  assumes "records_law R made"
  shows "tls_handshake R s = Some res \<Longrightarrow> tls_flow out0 made s \<longrightarrow>
    (case res of (Inl e, s1) \<Rightarrow> tls_sent_prefix out0 made s1 | (Inr u, s1) \<Rightarrow> handshake_done R out0 made s1)"
proof -
  have "records_law R made \<longrightarrow> tls_flow out0 made s \<longrightarrow>
      (case res of (Inl e, s1) \<Rightarrow> tls_sent_prefix out0 made s1 | (Inr u, s1) \<Rightarrow> handshake_done R out0 made s1)"
    if "tls_handshake R s = Some res"
  proof (rule tls_handshake.raw_induct[of "\<lambda>R s res. records_law R made \<longrightarrow> tls_flow out0 made s \<longrightarrow>
      (case res of (Inl e, s1) \<Rightarrow> tls_sent_prefix out0 made s1 | (Inr u, s1) \<Rightarrow> handshake_done R out0 made s1)", OF _ that])
    fix self :: "'a rustls \<Rightarrow> 'a tls_stream \<Rightarrow> ((tls_error + unit) \<times> 'a tls_stream) option" and R s res
    assume ih: "\<And>R s res. self R s = Some res \<Longrightarrow> records_law R made \<longrightarrow> tls_flow out0 made s \<longrightarrow>
          (case res of (Inl e, s1) \<Rightarrow> tls_sent_prefix out0 made s1 | (Inr u, s1) \<Rightarrow> handshake_done R out0 made s1)"
      and eq: "(case handshake_stages R s of
        (Inl e, s1) \<Rightarrow> Some (Inl e, s1)
      | (Inr progress, s1) \<Rightarrow>
          if \<not> is_handshaking R (tls_conn s1) \<and> \<not> wants_write R (tls_conn s1) \<and>
             length (tls_write_buf s1) \<le> tls_write_pos s1
          then Some (Inr (), s1)
          else if wants_read R (tls_conn s1) \<or> \<not> progress then
            (case handshake_fetch R s1 of
               (Inl e, s2) \<Rightarrow> Some (Inl e, s2)
             | (Inr u, s2) \<Rightarrow> self R s2)
          else self R s1) = Some res"
    show "records_law R made \<longrightarrow> tls_flow out0 made s \<longrightarrow>
        (case res of (Inl e, s1) \<Rightarrow> tls_sent_prefix out0 made s1 | (Inr u, s1) \<Rightarrow> handshake_done R out0 made s1)"
    proof (intro impI)
      assume law: "records_law R made" and fl: "tls_flow out0 made s"
      obtain r s1 where st: "handshake_stages R s = (r, s1)" by fastforce
      note stf = handshake_stages_flow[OF law fl st]
      show "case res of (Inl e, s1) \<Rightarrow> tls_sent_prefix out0 made s1 | (Inr u, s1) \<Rightarrow> handshake_done R out0 made s1"
      proof (cases r)
        case (Inl e)
        then show ?thesis using eq st stf(1) by auto
      next
        case (Inr progress)
        note fl1 = stf(2)[OF Inr]
        show ?thesis
        proof (cases "\<not> is_handshaking R (tls_conn s1) \<and> \<not> wants_write R (tls_conn s1) \<and>
            length (tls_write_buf s1) \<le> tls_write_pos s1")
          case True
          then have "res = (Inr (), s1)" using eq st Inr by simp
          then show ?thesis using True fl1 by (auto simp: handshake_done_def tls_flow_def)
        next
          case False
          show ?thesis
          proof (cases "wants_read R (tls_conn s1) \<or> \<not> progress")
            case True
            obtain r2 s2 where ft: "handshake_fetch R s1 = (r2, s2)" by fastforce
            have fl2: "tls_flow out0 made s2" using handshake_fetch_flow[OF law _ ft] fl1 by blast
            show ?thesis
            proof (cases r2)
              case (Inl e)
              then have "res = (Inl e, s2)" using eq st Inr False True ft by auto
              then show ?thesis using tls_flow_prefix[OF fl2] by simp
            next
              case (Inr u)
              then have "self R s2 = Some res" using eq st \<open>r = Inr progress\<close> False True ft by auto
              then show ?thesis using ih law fl2 by blast
            qed
          next
            case no_fetch: False
            then have "self R s1 = Some res" using eq st Inr False by auto
            then show ?thesis using ih law fl1 by blast
          qed
        qed
      qed
    qed
  qed
  then show "tls_handshake R s = Some res \<Longrightarrow> tls_flow out0 made s \<longrightarrow>
    (case res of (Inl e, s1) \<Rightarrow> tls_sent_prefix out0 made s1 | (Inr u, s1) \<Rightarrow> handshake_done R out0 made s1)"
    using assms by blast
qed

section \<open>Plaintext\<close>

lemma tls_flow_conn: "made c = made (tls_conn s) \<Longrightarrow> tls_flow out0 made (s\<lparr>tls_conn := c\<rparr>) = tls_flow out0 made s"
  by (simp add: tls_flow_def)

lemma tls_poll_write_flow:
  assumes "records_law R made" "tls_flow out0 made s"
  shows "tls_flow out0 made (snd (tls_poll_write R bs s))"
proof -
  obtain p s1 where p: "poll_flush_write_buf s = (p, s1)" by fastforce
  have fl1: "tls_flow out0 made s1" using poll_flush_write_buf_flow[OF p assms(2)] by blast
  show ?thesis
  proof (cases "p = Ready (Inr ())")
    case False
    then have "snd (tls_poll_write R bs s) = s1" using p by (auto simp: tls_poll_write_def split: poll.splits sum.splits)
    then show ?thesis using fl1 by simp
  next
    case True
    obtain w c where w: "writer_write R bs (tls_conn s1) = (w, c)" by fastforce
    have flc: "tls_flow out0 made (s1\<lparr>tls_conn := c\<rparr>)"
      using fl1 records_lawD(6)[OF assms(1) w] by (simp add: tls_flow_conn)
    obtain r s2 where pl: "pull_tls_records R (s1\<lparr>tls_conn := c\<rparr>) = (r, s2)" by fastforce
    have fl2: "tls_flow out0 made s2" by (rule pull_tls_records_flow[OF assms(1) flc pl])
    obtain q s3 where q: "poll_flush_write_buf s2 = (q, s3)" by fastforce
    have fl3: "tls_flow out0 made s3" using poll_flush_write_buf_flow[OF q fl2] by blast
    have "snd (tls_poll_write R bs s) \<in> {s1\<lparr>tls_conn := c\<rparr>, s2, s3}"
      using p True w pl q by (auto simp: tls_poll_write_def split: poll.splits sum.splits)
    then show ?thesis using flc fl2 fl3 by auto
  qed
qed

lemma tls_poll_flush_flow:
  assumes "tls_flow out0 made s" "tls_poll_flush s = (p, s1)"
  shows "tls_flow out0 made s1 \<and> (p = Ready (Inr ()) \<longrightarrow> outgoing (tls_io s1) = out0 @ made (tls_conn s1))"
proof -
  obtain q s2 where q: "poll_flush_write_buf s = (q, s2)" by fastforce
  note f = poll_flush_write_buf_flow[OF q assms(1)]
  have "s1 = s2 \<and> (p = Ready (Inr ()) \<longrightarrow> q = Ready (Inr ()))"
    using assms(2) q by (auto simp: tls_poll_flush_def split: poll.splits sum.splits)
  then show ?thesis using f by (auto simp: tls_flow_def)
qed

lemma tls_poll_shutdown_flow:
  assumes "records_law R made" "tls_flow out0 made s" "\<And>t. outgoing (snd (sd t)) = outgoing t"
  shows "tls_flow out0 made (snd (tls_poll_shutdown R sd s))"
proof -
  have fl0: "tls_flow out0 made (s\<lparr>tls_conn := send_close_notify R (tls_conn s)\<rparr>)"
    using assms(2) records_lawD(7)[OF assms(1)] by (simp add: tls_flow_conn)
  obtain r s1 where r: "pull_tls_records R (s\<lparr>tls_conn := send_close_notify R (tls_conn s)\<rparr>) = (r, s1)" by fastforce
  have fl1: "tls_flow out0 made s1" by (rule pull_tls_records_flow[OF assms(1) fl0 r])
  obtain q s2 where q: "poll_flush_write_buf s1 = (q, s2)" by fastforce
  have fl2: "tls_flow out0 made s2" using poll_flush_write_buf_flow[OF q fl1] by blast
  obtain p t where t: "sd (tls_io s2) = (p, t)" by fastforce
  have "outgoing t = outgoing (tls_io s2)" using assms(3)[of "tls_io s2"] t by simp
  then have fl3: "tls_flow out0 made (s2\<lparr>tls_io := t\<rparr>)" using fl2 by (simp add: tls_flow_def)
  have "snd (tls_poll_shutdown R sd s) \<in> {s1, s2, s2\<lparr>tls_io := t\<rparr>}"
    using r q t by (auto simp: tls_poll_shutdown_def split: poll.splits sum.splits)
  then show ?thesis using fl1 fl2 fl3 by auto
qed

text \<open>One round of a read: it is over, or goes on with a new state.\<close>

definition read_round ::
  "'c rustls \<Rightarrow> nat \<Rightarrow> 'c tls_stream \<Rightarrow> ((std_io_error + byte list) poll \<times> 'c tls_stream) + 'c tls_stream" where
  "read_round R cap s =
     (case poll_drive_pending_writes R s of
        (Pending, s1) \<Rightarrow> Inl (Pending, s1)
      | (Ready (Inl e), s1) \<Rightarrow> Inl (Ready (Inl (into_io e)), s1)
      | (Ready (Inr u), s1) \<Rightarrow>
          (case reader_read R cap (tls_conn s1) of
             (Inr bs, c) \<Rightarrow> Inl (Ready (Inr bs), s1\<lparr>tls_conn := c\<rparr>)
           | (Inl (Io_Error k m), c) \<Rightarrow>
               if k \<noteq> Would_Block then Inl (Ready (Inl (Io_Kind (Io_Error k m))), s1\<lparr>tls_conn := c\<rparr>)
               else if tls_read_buf s1 \<noteq> [] then
                 (case feed_incoming_to_rustls R (s1\<lparr>tls_conn := c\<rparr>) of
                    (Inl e, s2) \<Rightarrow> Inl (Ready (Inl (into_io e)), s2)
                  | (Inr n, s2) \<Rightarrow> Inr s2)
               else
                 (case tr_poll_read 4096 (tls_io s1) of
                    (Pending, t) \<Rightarrow> Inl (Pending, s1\<lparr>tls_conn := c, tls_io := t\<rparr>)
                  | (Ready (Inl e), t) \<Rightarrow> Inl (Ready (Inl (Io_Kind e)), s1\<lparr>tls_conn := c, tls_io := t\<rparr>)
                  | (Ready (Inr bs), t) \<Rightarrow>
                      if bs = [] then Inl (Ready (Inl (Io_Kind transport_eof)), s1\<lparr>tls_conn := c, tls_io := t\<rparr>)
                      else Inr (s1\<lparr>tls_conn := c, tls_io := t, tls_read_buf := tls_read_buf s1 @ bs\<rparr>))))"

lemma tls_poll_read_round:
  "tls_poll_read R cap s = (case read_round R cap s of Inl res \<Rightarrow> Some res | Inr s1 \<Rightarrow> tls_poll_read R cap s1)"
  by (subst tls_poll_read.simps) (simp add: read_round_def split: prod.splits poll.splits sum.splits io_error.splits)

text \<open>
  What the documentation of rustls says of the two calls, with \<open>closed\<close> for a connection on which the
  peer's \<open>close_notify\<close> has been received: given bytes, \<open>read_tls\<close> answers \<open>Ok(0)\<close> only on such a
  connection, and on such a connection the reader answers \<open>Ok(0)\<close> once the plaintext is used up, never
  \<open>WouldBlock\<close>.
\<close>

definition read_progress :: "'c rustls \<Rightarrow> ('c \<Rightarrow> bool) \<Rightarrow> bool" where
  "read_progress R closed \<longleftrightarrow>
     (\<forall>bs c. bs \<noteq> [] \<longrightarrow> fst (read_tls R bs c) = Inr 0 \<longrightarrow> closed c) \<and>
     (\<forall>cap c c1 m. reader_read R cap c = (Inl (Io_Error Would_Block m), c1) \<longrightarrow> \<not> closed c1)"

lemma read_progressD:
  assumes "read_progress R closed"
  shows "read_tls R bs c = (Inr n, c1) \<Longrightarrow> bs \<noteq> [] \<Longrightarrow> \<not> closed c \<Longrightarrow> 0 < n"
    "reader_read R cap c = (Inl (Io_Error Would_Block m), c1) \<Longrightarrow> \<not> closed c1"
  using assms unfolding read_progress_def by (metis fst_conv gr0I, blast)

definition read_work :: "'c tls_stream \<Rightarrow> nat" where
  "read_work s = 2 * script_size (incoming (tls_io s)) + length (tls_read_buf s)"

lemma tr_poll_read_work:
  "tr_poll_read cap t = (Ready (Inr bs), t1) \<Longrightarrow> bs \<noteq> [] \<Longrightarrow> script_size (incoming t1) + length bs \<le> script_size (incoming t)"
  by (auto simp: tr_poll_read.simps split: list.splits read_event.splits if_splits)

lemma feed_incoming_work:
  assumes "feed_incoming_to_rustls R s = (Inr n, s1)" "read_progress R closed" "tls_read_buf s \<noteq> []"
    and "\<not> closed (tls_conn s)"
  shows "read_work s1 < read_work s"
proof -
  obtain c where r: "read_tls R (tls_read_buf s) (tls_conn s) = (Inr n, c)"
    using assms(1,3) by (auto simp: feed_incoming_to_rustls_def Let_def split: prod.splits sum.splits)
  have "tls_read_buf s1 = drop n (tls_read_buf s)" "tls_io s1 = tls_io s"
    using assms(1,3) r by (auto simp: feed_incoming_to_rustls_def Let_def split: prod.splits sum.splits)
  moreover have "n \<noteq> 0" using read_progressD(1)[OF assms(2) r assms(3,4)] by simp
  ultimately show ?thesis using assms(3) by (simp add: read_work_def)
qed

lemma pull_tls_records_keeps: "pull_tls_records R s = (r, s1) \<Longrightarrow> tls_read_buf s1 = tls_read_buf s \<and> tls_io s1 = tls_io s"
  by (auto simp: pull_tls_records_def split: prod.splits sum.splits)

lemma poll_flush_write_buf_keeps:
  "poll_flush_write_buf s = (p, s1) \<Longrightarrow> tls_read_buf s1 = tls_read_buf s \<and> incoming (tls_io s1) = incoming (tls_io s)"
proof (induction s rule: poll_flush_write_buf.induct)
  case (1 s)
  show ?case
  proof (cases "tls_write_pos s < length (tls_write_buf s)")
    case True
    obtain q t where q: "tr_poll_write (drop (tls_write_pos s) (tls_write_buf s)) (tls_io s) = (q, t)" by fastforce
    have i: "incoming t = incoming (tls_io s)" by (rule tr_poll_write_takes(3)[OF q])
    show ?thesis
    proof (cases "\<exists>n. q = Ready (Inr n) \<and> n \<noteq> 0")
      case n: True
      then obtain n where n: "q = Ready (Inr n)" "n \<noteq> 0" by blast
      have "poll_flush_write_buf (s\<lparr>tls_io := t, tls_write_pos := tls_write_pos s + n\<rparr>) = (p, s1)"
        using "1.prems"(1) True q n by (simp add: poll_flush_write_buf.simps[of s])
      from "1.IH"[OF True q[symmetric] n(1) refl n(2) this] i show ?thesis by simp
    next
      case False
      then have "s1 = s\<lparr>tls_io := t\<rparr>"
        using "1.prems" True q by (auto simp: poll_flush_write_buf.simps[of s] split: poll.splits sum.splits)
      then show ?thesis using i by simp
    qed
  qed (use "1.prems" in \<open>auto simp: poll_flush_write_buf.simps[of s]\<close>)
qed

lemma poll_drive_keeps:
  "poll_drive_pending_writes R s = (p, s1) \<Longrightarrow>
     tls_read_buf s1 = tls_read_buf s \<and> incoming (tls_io s1) = incoming (tls_io s)"
  by (auto simp: poll_drive_pending_writes_def dest!: pull_tls_records_keeps poll_flush_write_buf_keeps
      split: if_splits prod.splits sum.splits)

lemma read_round_work:
  assumes "read_round R cap s = Inr s1" "read_progress R closed"
  shows "read_work s1 < read_work s"
proof -
  obtain s2 where d: "poll_drive_pending_writes R s = (Ready (Inr ()), s2)"
    using assms(1) by (auto simp: read_round_def split: prod.splits poll.splits sum.splits)
  have w: "read_work s2 = read_work s" using poll_drive_keeps[OF d] by (simp add: read_work_def)
  obtain k m c where r: "reader_read R cap (tls_conn s2) = (Inl (Io_Error k m), c)" "k = Would_Block"
    using assms(1) d by (auto simp: read_round_def split: prod.splits sum.splits io_error.splits if_splits)
  have wc: "read_work (s2\<lparr>tls_conn := c\<rparr>) = read_work s2" by (simp add: read_work_def)
  show ?thesis
  proof (cases "tls_read_buf s2 = []")
    case False
    obtain n where "feed_incoming_to_rustls R (s2\<lparr>tls_conn := c\<rparr>) = (Inr n, s1)"
      using assms(1) d r False by (auto simp: read_round_def split: prod.splits sum.splits)
    from feed_incoming_work[OF this assms(2)] read_progressD(2)[OF assms(2)] r False w wc show ?thesis by simp
  next
    case True
    obtain bs t where b: "tr_poll_read 4096 (tls_io s2) = (Ready (Inr bs), t)" "bs \<noteq> []"
        "s1 = s2\<lparr>tls_conn := c, tls_io := t, tls_read_buf := tls_read_buf s2 @ bs\<rparr>"
      using assms(1) d r True by (auto simp: read_round_def split: prod.splits poll.splits sum.splits if_splits)
    have "script_size (incoming t) + length bs \<le> script_size (incoming (tls_io s2))"
      by (rule tr_poll_read_work[OF b(1,2)])
    then show ?thesis unfolding w[symmetric] using b(2,3) True by (cases bs) (simp_all add: read_work_def)
  qed
qed

lemma tls_poll_read_terminates: "read_progress R closed \<Longrightarrow> \<exists>res. tls_poll_read R cap s = Some res"
proof (induction "read_work s" arbitrary: s rule: less_induct)
  case less
  show ?case
    using less read_round_work[of R cap s _ closed] by (subst tls_poll_read_round) (auto split: sum.splits)
qed

lemma read_round_flow:
  assumes "records_law R made" "tls_flow out0 made s"
  shows "case read_round R cap s of Inl (p, s1) \<Rightarrow> tls_flow out0 made s1 | Inr s1 \<Rightarrow> tls_flow out0 made s1"
proof -
  obtain p s1 where d: "poll_drive_pending_writes R s = (p, s1)" by fastforce
  have fl1: "tls_flow out0 made s1" by (rule poll_drive_flow(1)[OF assms d])
  obtain r c where r: "reader_read R cap (tls_conn s1) = (r, c)" by fastforce
  have flc: "tls_flow out0 made (s1\<lparr>tls_conn := c\<rparr>)"
    using fl1 records_lawD(5)[OF assms(1) r] by (simp add: tls_flow_conn)
  obtain f s2 where f: "feed_incoming_to_rustls R (s1\<lparr>tls_conn := c\<rparr>) = (f, s2)" by fastforce
  have fl2: "tls_flow out0 made s2" by (rule feed_incoming_flow[OF assms(1) flc f])
  obtain q t where q: "tr_poll_read 4096 (tls_io s1) = (q, t)" by fastforce
  have flt: "tls_flow out0 made (s1\<lparr>tls_conn := c, tls_io := t\<rparr>)"
      "tls_flow out0 made (s1\<lparr>tls_conn := c, tls_io := t, tls_read_buf := b\<rparr>)" for b
    using flc tr_poll_read_outgoing[OF q] by (simp_all add: tls_flow_def)
  show ?thesis
    using d r f q fl1 flc fl2 flt by (simp add: read_round_def split: poll.splits sum.splits io_error.splits)
qed

lemma tls_poll_read_flow:
  assumes "records_law R made" "read_progress R closed"
  shows "tls_flow out0 made s \<Longrightarrow> tls_poll_read R cap s = Some (p, s1) \<Longrightarrow> tls_flow out0 made s1"
proof (induction "read_work s" arbitrary: s rule: less_induct)
  case less
  show ?case
  proof (cases "read_round R cap s")
    case (Inl res)
    then show ?thesis
      using less.prems(2) read_round_flow[OF assms(1) less.prems(1), of cap] by (subst (asm) tls_poll_read_round) auto
  next
    case (Inr s2)
    have "tls_poll_read R cap s2 = Some (p, s1)" using less.prems(2) Inr by (subst (asm) tls_poll_read_round) simp
    moreover have "tls_flow out0 made s2" using read_round_flow[OF assms(1) less.prems(1), of cap] Inr by simp
    ultimately show ?thesis using less.hyps[OF read_round_work[OF Inr assms(2)]] by blast
  qed
qed

end
