(* ===== verification/Tls_Properties.thy ===== *)
theory Tls_Properties
  imports Tls_Flow
begin

text \<open>
  The properties of the TLS stream.  The witnesses use a connection that passes plaintext through
  as its records, accepts at most a given number of bytes at a time and takes a zero byte from the peer
  for its \<open>close_notify\<close>.
\<close>

section \<open>A connection to apply them to\<close>

record plain_conn =
  pc_queue :: "byte list"
  pc_made :: "byte list"
  pc_plain :: "byte list"
  pc_in :: "byte list"
  pc_closed :: bool
  pc_fed :: "byte list"
  pc_given :: "byte list"

definition plain_rustls :: "nat \<Rightarrow> plain_conn rustls" where
  "plain_rustls limit =
     \<lparr>wants_write = (\<lambda>c. pc_queue c \<noteq> []), wants_read = (\<lambda>c. True), is_handshaking = (\<lambda>c. False),
      write_tls = (\<lambda>c. (Inr (pc_queue c), c\<lparr>pc_queue := [], pc_made := pc_made c @ pc_queue c\<rparr>)),
      read_tls = (\<lambda>bs c. if pc_closed c then (Inr 0, c) else (Inr (length bs), c\<lparr>pc_in := pc_in c @ bs, pc_fed := pc_fed c @ bs\<rparr>)),
      process_new_packets = (\<lambda>c. (Inr (), c\<lparr>pc_in := [], pc_plain := pc_plain c @ takeWhile (\<lambda>b. b \<noteq> 0) (pc_in c),
        pc_closed := (pc_closed c \<or> 0 \<in> set (pc_in c))\<rparr>)),
      reader_read = (\<lambda>n c. if pc_plain c = [] then (if pc_closed c then Inr [] else Inl (Io_Error Would_Block ''''), c)
        else (Inr (take n (pc_plain c)), c\<lparr>pc_plain := drop n (pc_plain c), pc_given := pc_given c @ take n (pc_plain c)\<rparr>)),
      writer_write = (\<lambda>bs c. (Inr (min limit (length bs)), c\<lparr>pc_queue := pc_queue c @ take limit bs\<rparr>)),
      send_close_notify = (\<lambda>c. c)\<rparr>"

definition plain_start :: plain_conn where
  "plain_start = \<lparr>pc_queue = [22], pc_made = [], pc_plain = [], pc_in = [], pc_closed = False, pc_fed = [], pc_given = []\<rparr>"

definition quiet_transport :: transport where
  "quiet_transport = \<lparr>incoming = [Idle, Chunk [7, 8]], accepting = [], outgoing = [], flush_error = None\<rparr>"

lemma plain_records_law: "records_law (plain_rustls n) pc_made"
  by (simp add: records_law_def plain_rustls_def)

lemma plain_read_progress: "read_progress (plain_rustls n) pc_closed"
  by (auto simp: read_progress_def plain_rustls_def split: if_splits)

lemma plain_start_flow: "tls_flow [] pc_made (tls_new quiet_transport plain_start)"
  by (simp add: tls_flow_def tls_new_def quiet_transport_def plain_start_def)

section \<open>Properties\<close>

text \<open>
  C15: The ciphertext that rustls makes reaches the transport once and in order: what has been
  written followed by what is still buffered is, after any write, read, flush or shutdown and
  whatever the transport accepts, exactly the records handed out so far; a flush that succeeds
  leaves nothing buffered; and a read returns, whatever arrives, a close by the peer included.
\<close>
theorem tls_ciphertext_in_order:
  assumes "records_law R made" "read_progress R closed" "tls_flow out0 made s" "\<And>t. outgoing (snd (sd t)) = outgoing t"
  shows "tls_flow out0 made (snd (tls_poll_write R bs s)) \<and>
    tls_flow out0 made (snd (tls_poll_flush s)) \<and>
    (fst (tls_poll_flush s) = Ready (Inr ()) \<longrightarrow>
       outgoing (tls_io (snd (tls_poll_flush s))) = out0 @ made (tls_conn (snd (tls_poll_flush s)))) \<and>
    tls_flow out0 made (snd (tls_poll_shutdown R sd s)) \<and>
    (\<exists>p s1. tls_poll_read R cap s = Some (p, s1) \<and> tls_flow out0 made s1)"
proof -
  obtain p s1 where f: "tls_poll_flush s = (p, s1)" by fastforce
  obtain q s2 where r: "tls_poll_read R cap s = Some (q, s2)" using tls_poll_read_terminates[OF assms(2)] by fastforce
  have fr: "tls_flow out0 made s2" by (rule tls_poll_read_flow[OF assms(1,2,3) r])
  show ?thesis
    using tls_poll_write_flow[OF assms(1,3), of bs] tls_poll_flush_flow[OF assms(3) f] f r fr
      tls_poll_shutdown_flow[OF assms(1,3,4)]
    by simp
qed

theorem tls_ciphertext_in_order_witness:
  "tls_flow [] pc_made (snd (tls_poll_write (plain_rustls 4) [1, 2] (tls_new quiet_transport plain_start))) \<and>
   (\<exists>p s1. tls_poll_read (plain_rustls 4) 9 (tls_new quiet_transport plain_start) = Some (p, s1) \<and> tls_flow [] pc_made s1)"
  using tls_ciphertext_in_order[OF plain_records_law plain_read_progress plain_start_flow,
      where sd = "\<lambda>t. (Pending, t)" and bs = "[1, 2]" and cap = 9] by simp

text \<open>
  C33: A TLS accept (or connect) that succeeds has a connection that is done with its handshake and
  wants to write nothing, and every record of the handshake has reached the transport.
\<close>
theorem tls_accept_complete:
  assumes "records_law R made" "made c = []" "tls_accept R (Inr c) t = Some (Inr s)"
  shows "\<not> is_handshaking R (tls_conn s) \<and> \<not> wants_write R (tls_conn s) \<and>
    outgoing (tls_io s) = outgoing t @ made (tls_conn s) \<and> tls_connect R (Inr c) t = Some (Inr s)"
proof -
  have h: "tls_handshake R (tls_new t c) = Some (Inr (), s)"
    using assms(3) by (auto simp: tls_accept_def split: option.splits prod.splits sum.splits)
  have "tls_flow (outgoing t) made (tls_new t c)" using assms(2) by (simp add: tls_flow_def tls_new_def)
  then have "handshake_done R (outgoing t) made s" using tls_handshake_spec[OF assms(1) h] by simp
  then show ?thesis using h by (simp add: handshake_done_def tls_connect_def)
qed

lemma plain_accept:
  "tls_accept (plain_rustls 4) (Inr plain_start) quiet_transport =
     Some (Inr \<lparr>tls_io = quiet_transport\<lparr>outgoing := [22]\<rparr>, tls_conn = plain_start\<lparr>pc_queue := [], pc_made := [22]\<rparr>,
       tls_read_buf = [], tls_write_buf = [], tls_write_pos = 0\<rparr>)"
  by (simp add: tls_accept_def tls_handshake.simps handshake_stages_def feed_incoming_to_rustls_def handshake_send_def
      pull_tls_records_def send_flight.simps tr_poll_write.simps tr_flush_def tls_new_def quiet_transport_def
      plain_start_def plain_rustls_def Let_def)

theorem tls_accept_complete_witness:
  "\<exists>s. tls_accept (plain_rustls 4) (Inr plain_start) quiet_transport = Some (Inr s) \<and>
     pc_queue (tls_conn s) = [] \<and> outgoing (tls_io s) = pc_made (tls_conn s)"
proof -
  have "pc_made plain_start = []" by (simp add: plain_start_def)
  from tls_accept_complete[OF plain_records_law this plain_accept]
  show ?thesis unfolding plain_accept by (auto simp: plain_rustls_def quiet_transport_def)
qed

text \<open>
  \<open>poll_write\<close> reports the whole buffer as written however little of it rustls accepted, so
  the caller drops the rest: with rustls's buffer limit the tail of a long write is never sent.
\<close>
theorem tls_write_overreports:
  assumes "poll_flush_write_buf s = (Ready (Inr ()), s1)" "writer_write R bs (tls_conn s1) = (Inr n, c)"
    and "n < length bs" "tls_poll_write R bs s = (Ready (Inr m), s2)"
  shows "m = length bs \<and> n < m"
proof -
  have "m = length bs"
    using assms by (auto simp: tls_poll_write_def split: prod.splits poll.splits sum.splits if_splits)
  then show ?thesis using assms(3) by simp
qed

theorem tls_write_overreports_witness:
  "\<exists>s. tls_poll_write (plain_rustls 4) [1, 2, 3, 4, 5, 6] (tls_new quiet_transport (plain_start\<lparr>pc_queue := []\<rparr>)) =
     (Ready (Inr 6), s) \<and> outgoing (tls_io s) = [1, 2, 3, 4] \<and> pc_queue (tls_conn s) = [] \<and> (4::nat) < 6"
proof -
  let ?s = "tls_new quiet_transport (plain_start\<lparr>pc_queue := []\<rparr>)"
  have f: "poll_flush_write_buf ?s = (Ready (Inr ()), ?s)"
    by (simp add: poll_flush_write_buf.simps tls_new_def)
  let ?c = "plain_start\<lparr>pc_queue := [1, 2, 3, 4]\<rparr>"
  have w: "writer_write (plain_rustls 4) [1, 2, 3, 4, 5, 6] (tls_conn ?s) = (Inr 4, ?c)"
    by (simp add: plain_rustls_def tls_new_def plain_start_def)
  have n: "4 < length [1, 2, 3, 4, 5, 6 :: byte]" by simp
  obtain m s2 where p: "tls_poll_write (plain_rustls 4) [1, 2, 3, 4, 5, 6] ?s = (Ready (Inr m), s2)"
      "outgoing (tls_io s2) = [1, 2, 3, 4]" "pc_queue (tls_conn s2) = []"
    using w by (simp add: tls_poll_write_def f) (simp add: pull_tls_records_def poll_flush_write_buf.simps
        tr_poll_write.simps tls_new_def quiet_transport_def plain_rustls_def)
  from tls_write_overreports[OF f w n p(1)] p show ?thesis by auto
qed

text \<open>
  A read waits for the pending ciphertext to drain before it looks at the plaintext: two peers that
  both write more than their transports hold never read from each other.
\<close>

lemma tls_read_waits_for_write:
  assumes "poll_drive_pending_writes R s = (Pending, s1)"
  shows "tls_poll_read R cap s = Some (Pending, s1)"
  using assms by (subst tls_poll_read.simps) simp

text \<open>A pinned connector accepts exactly the certificates whose digest is pinned.\<close>

lemma pinned_connector_exact:
  "verify_server_cert sha256 (pinned_connector ps) cert = Inr () \<longleftrightarrow> pin_for_cert sha256 cert \<in> set ps"
  by (auto simp: verify_server_cert_def pinned_connector_def pinned_new_def matches_pin_def no_fallback_def pin_for_cert_def)

text \<open>A pin does not keep the fallback from accepting another certificate of the same server.\<close>

lemma fallback_overrides_pins:
  "fallback v cert = Inr () \<Longrightarrow> verify_server_cert sha256 v cert = Inr ()"
  by (simp add: verify_server_cert_def)

lemma with_fallback_accepts:
  "verify_server_cert sha256 (with_fallback ps f) cert = Inr () \<longleftrightarrow> pin_for_cert sha256 cert \<in> set ps \<or> f cert = Inr ()"
  by (auto simp: verify_server_cert_def with_fallback_def matches_pin_def pin_for_cert_def)

end
