(* ===== verification/Any_Stream.thy ===== *)
theory Any_Stream
  imports Fake_Pipe Io_Adapters Tls_Properties
begin

text \<open>
  Why the protocols are modelled on scripted transports: the answers that any client gets from any stream, poll
  by poll, are those of some script.  That they are the right answers is not the point here; it is what the
  results on the streams themselves say.  A client of a stream is a strategy: what it does next (a read with a buffer,
  a write of some bytes, nothing any more) depends on the answers so far.  A stream may change between the
  polls, as its peer acts.  The instances are the TLS stream, which so carries HTTP and WebSocket, the
  in-memory pipe with any actions of its peer.
\<close>

section \<open>Clients and their conversations\<close>

datatype io_request = Want_Read nat | Want_Write "byte list"

datatype io_answer = Has_Read "(io_error + byte list) poll" | Has_Written "byte list" "(io_error + nat) poll"

type_synonym strategy = "io_answer list \<Rightarrow> io_request option"

primrec conversation ::
  "'s reader \<Rightarrow> 's writer \<Rightarrow> strategy \<Rightarrow> nat \<Rightarrow> io_answer list \<Rightarrow> 's \<Rightarrow> (io_answer list \<times> 's) option" where
  "conversation rd wr client 0 seen s = Some (seen, s)"
| "conversation rd wr client (Suc n) seen s =
     (case client seen of
        None \<Rightarrow> Some (seen, s)
      | Some (Want_Read cap) \<Rightarrow> do {
          (p, s1) \<leftarrow> rd cap s;
          conversation rd wr client n (seen @ [Has_Read p]) s1 }
      | Some (Want_Write bs) \<Rightarrow> do {
          (p, s1) \<leftarrow> wr bs s;
          conversation rd wr client n (seen @ [Has_Written bs p]) s1 })"

text \<open>The bytes that the writes among the answers have handed over.\<close>

fun accepted :: "io_answer \<Rightarrow> byte list" where
  "accepted (Has_Written bs (Ready (Inr n))) = take n bs"
| "accepted a = []"

definition accepted_bytes :: "io_answer list \<Rightarrow> byte list" where
  "accepted_bytes as = concat (map accepted as)"

section \<open>Streams\<close>

text \<open>All that is asked of a stream: a read fits the buffer, and a write takes no more than there is.\<close>

locale answering_stream =
  fixes rd :: "nat \<Rightarrow> 's \<Rightarrow> ((io_error + byte list) poll \<times> 's) option"
    and wr :: "byte list \<Rightarrow> 's \<Rightarrow> ((io_error + nat) poll \<times> 's) option"
  assumes read_fits: "rd cap s = Some (Ready (Inr bs), s1) \<Longrightarrow> length bs \<le> cap"
    and write_fits: "wr bs s = Some (Ready (Inr n), s1) \<Longrightarrow> n \<le> length bs"

text \<open>The events of a script that give one answer.\<close>

fun read_event_of :: "(io_error + byte list) poll \<Rightarrow> read_event" where
  "read_event_of Pending = Idle"
| "read_event_of (Ready (Inl e)) = Read_Error e"
| "read_event_of (Ready (Inr bs)) = Chunk bs"

fun write_event_of :: "(io_error + nat) poll \<Rightarrow> write_event" where
  "write_event_of Pending = Busy"
| "write_event_of (Ready (Inl e)) = Write_Error e"
| "write_event_of (Ready (Inr n)) = Accept n"

lemma scripted_read:
  assumes "\<And>bs. p = Ready (Inr bs) \<Longrightarrow> length bs \<le> cap"
  shows "tr_poll_read cap (t\<lparr>incoming := read_event_of p # script\<rparr>) = (p, t\<lparr>incoming := script\<rparr>)"
  using assms by (cases p rule: read_event_of.cases) (simp_all add: tr_poll_read.simps)

lemma scripted_write:
  assumes "\<And>n. p = Ready (Inr n) \<Longrightarrow> n \<le> length bs"
  shows "tr_poll_write bs (t\<lparr>accepting := write_event_of p # script\<rparr>) =
    (p, t\<lparr>accepting := script, outgoing := outgoing t @ accepted (Has_Written bs p)\<rparr>)"
  using assms by (cases p rule: write_event_of.cases) (simp_all add: tr_poll_write.simps)

context answering_stream begin

text \<open>A conversation of a client with the stream is one with a transport that has the answers as its scripts.\<close>

lemma scripted:
  assumes "conversation rd wr client n seen s = Some (seen1, s1)"
  shows "\<exists>inc acc. \<forall>out. \<exists>t1. conversation tr_reader tr_writer client n seen
      \<lparr>incoming = inc, accepting = acc, outgoing = out, flush_error = None\<rparr> = Some (seen1, t1) \<and>
    (\<exists>new. seen1 = seen @ new \<and> outgoing t1 = out @ accepted_bytes new)"
  using assms
proof (induction n arbitrary: seen s)
  case 0
  then show ?case by (simp add: accepted_bytes_def)
next
  case (Suc n)
  show ?case
  proof (cases "client seen")
    case None
    then show ?thesis using Suc.prems by (simp add: accepted_bytes_def)
  next
    case (Some q)
    show ?thesis
    proof (cases q)
      case (Want_Read cap)
      then obtain p s2 where p: "rd cap s = Some (p, s2)" "conversation rd wr client n (seen @ [Has_Read p]) s2 = Some (seen1, s1)"
        using Suc.prems Some by (auto split: bind_splits)
      obtain inc acc where ia: "\<forall>out. \<exists>t1. conversation tr_reader tr_writer client n (seen @ [Has_Read p])
            \<lparr>incoming = inc, accepting = acc, outgoing = out, flush_error = None\<rparr> = Some (seen1, t1) \<and>
          (\<exists>new. seen1 = (seen @ [Has_Read p]) @ new \<and> outgoing t1 = out @ accepted_bytes new)"
        using Suc.IH[OF p(2)] by blast
      have fits: "length bs \<le> cap" if "p = Ready (Inr bs)" for bs using p(1) that by (intro read_fits) simp
      have "tr_poll_read cap \<lparr>incoming = read_event_of p # inc, accepting = acc, outgoing = out, flush_error = None\<rparr> =
          (p, \<lparr>incoming = inc, accepting = acc, outgoing = out, flush_error = None\<rparr>)" for out
        using scripted_read[where script = inc and t = "\<lparr>incoming = [], accepting = acc, outgoing = out, flush_error = None\<rparr>",
          OF fits] by simp
      then have step: "conversation tr_reader tr_writer client (Suc n) seen
            \<lparr>incoming = read_event_of p # inc, accepting = acc, outgoing = out, flush_error = None\<rparr> =
          conversation tr_reader tr_writer client n (seen @ [Has_Read p])
            \<lparr>incoming = inc, accepting = acc, outgoing = out, flush_error = None\<rparr>" for out
        using Some Want_Read by (simp add: tr_reader_def)
      show ?thesis
      proof (rule exI[of _ "read_event_of p # inc"], rule exI[of _ acc], rule allI)
        fix out
        from ia obtain t1 new where t1: "conversation tr_reader tr_writer client n (seen @ [Has_Read p])
            \<lparr>incoming = inc, accepting = acc, outgoing = out, flush_error = None\<rparr> = Some (seen1, t1)"
            "seen1 = (seen @ [Has_Read p]) @ new" "outgoing t1 = out @ accepted_bytes new" by blast
        show "\<exists>t1. conversation tr_reader tr_writer client (Suc n) seen
              \<lparr>incoming = read_event_of p # inc, accepting = acc, outgoing = out, flush_error = None\<rparr> = Some (seen1, t1) \<and>
            (\<exists>new. seen1 = seen @ new \<and> outgoing t1 = out @ accepted_bytes new)"
          unfolding step using t1
          by (intro exI[of _ t1] conjI exI[of _ "Has_Read p # new"]) (simp_all add: accepted_bytes_def)
      qed
    next
      case (Want_Write bs)
      then obtain p s2 where p: "wr bs s = Some (p, s2)"
          "conversation rd wr client n (seen @ [Has_Written bs p]) s2 = Some (seen1, s1)"
        using Suc.prems Some by (auto split: bind_splits)
      obtain inc acc where ia: "\<forall>out. \<exists>t1. conversation tr_reader tr_writer client n (seen @ [Has_Written bs p])
            \<lparr>incoming = inc, accepting = acc, outgoing = out, flush_error = None\<rparr> = Some (seen1, t1) \<and>
          (\<exists>new. seen1 = (seen @ [Has_Written bs p]) @ new \<and> outgoing t1 = out @ accepted_bytes new)"
        using Suc.IH[OF p(2)] by blast
      have fits: "k \<le> length bs" if "p = Ready (Inr k)" for k using p(1) that by (intro write_fits) simp
      have "tr_poll_write bs \<lparr>incoming = inc, accepting = write_event_of p # acc, outgoing = out, flush_error = None\<rparr> =
          (p, \<lparr>incoming = inc, accepting = acc, outgoing = out @ accepted (Has_Written bs p), flush_error = None\<rparr>)" for out
        using scripted_write[where script = acc and t = "\<lparr>incoming = inc, accepting = [], outgoing = out, flush_error = None\<rparr>",
          OF fits] by simp
      then have step: "conversation tr_reader tr_writer client (Suc n) seen
            \<lparr>incoming = inc, accepting = write_event_of p # acc, outgoing = out, flush_error = None\<rparr> =
          conversation tr_reader tr_writer client n (seen @ [Has_Written bs p])
            \<lparr>incoming = inc, accepting = acc, outgoing = out @ accepted (Has_Written bs p), flush_error = None\<rparr>" for out
        using Some Want_Write by (simp add: tr_writer_def)
      show ?thesis
      proof (rule exI[of _ inc], rule exI[of _ "write_event_of p # acc"], rule allI)
        fix out
        from ia obtain t1 new where t1: "conversation tr_reader tr_writer client n (seen @ [Has_Written bs p])
            \<lparr>incoming = inc, accepting = acc, outgoing = out @ accepted (Has_Written bs p), flush_error = None\<rparr> = Some (seen1, t1)"
            "seen1 = (seen @ [Has_Written bs p]) @ new" "outgoing t1 = (out @ accepted (Has_Written bs p)) @ accepted_bytes new" by blast
        show "\<exists>t1. conversation tr_reader tr_writer client (Suc n) seen
              \<lparr>incoming = inc, accepting = write_event_of p # acc, outgoing = out, flush_error = None\<rparr> = Some (seen1, t1) \<and>
            (\<exists>new. seen1 = seen @ new \<and> outgoing t1 = out @ accepted_bytes new)"
          unfolding step using t1
          by (intro exI[of _ t1] conjI exI[of _ "Has_Written bs p # new"]) (simp_all add: accepted_bytes_def)
      qed
    qed
  qed
qed

end

text \<open>A stream whose peer acts before each poll, whatever it does.\<close>

fun amid :: "('q \<Rightarrow> 's \<Rightarrow> ('r \<times> 's) option) \<Rightarrow> 'q \<Rightarrow> 's \<times> ('s \<Rightarrow> 's) list \<Rightarrow> ('r \<times> 's \<times> ('s \<Rightarrow> 's) list) option" where
  "amid poll q (s, []) = (case poll q s of None \<Rightarrow> None | Some (r, s1) \<Rightarrow> Some (r, s1, []))"
| "amid poll q (s, f # fs) = (case poll q (f s) of None \<Rightarrow> None | Some (r, s1) \<Rightarrow> Some (r, s1, fs))"

lemma amid_answers: "amid poll q sf = Some (r, sf1) \<Longrightarrow> \<exists>s s1. poll q s = Some (r, s1)"
  by (cases sf; cases "snd sf") (auto split: option.splits)

lemma answering_amid:
  assumes "answering_stream rd wr"
  shows "answering_stream (amid rd) (amid wr)"
  by unfold_locales
     (auto dest!: amid_answers intro: answering_stream.read_fits[OF assms] answering_stream.write_fits[OF assms])

section \<open>The TLS stream\<close>

text \<open>
  As the protocols poll it; \<open>conv\<close> is what their \<open>IoError\<close> keeps of an error.  rustls fills a buffer at most
  up to its end.
\<close>

definition tls_reader :: "(std_io_error \<Rightarrow> io_error) \<Rightarrow> 'c rustls \<Rightarrow> 'c tls_stream reader" where
  "tls_reader conv R cap s =
     (case tls_poll_read R cap s of None \<Rightarrow> None | Some (p, s1) \<Rightarrow> Some (map_err conv p, s1))"

definition tls_writer :: "(std_io_error \<Rightarrow> io_error) \<Rightarrow> 'c rustls \<Rightarrow> 'c tls_stream writer" where
  "tls_writer conv R bs s = (case tls_poll_write R bs s of (p, s1) \<Rightarrow> Some (map_err conv p, s1))"

definition reader_fits :: "'c rustls \<Rightarrow> bool" where
  "reader_fits R \<longleftrightarrow> (\<forall>cap c bs c1. reader_read R cap c = (Inr bs, c1) \<longrightarrow> length bs \<le> cap)"

lemma reader_fitsD: "reader_read R cap c = (Inr bs, c1) \<Longrightarrow> reader_fits R \<Longrightarrow> length bs \<le> cap"
  unfolding reader_fits_def by blast

lemma tls_poll_read_fits:
  assumes "tls_poll_read R cap s = Some y"
  shows "reader_fits R \<longrightarrow> (\<forall>bs. fst y = Ready (Inr bs) \<longrightarrow> length bs \<le> cap)"
proof (rule tls_poll_read.raw_induct[OF _ assms], goal_cases)
  case (1 rec R cap s y)
  note again = 1(1)[THEN mp, THEN spec, THEN mp]
  from 1(2) show ?case
    by (auto split: prod.splits poll.splits sum.splits io_error.splits if_splits dest: reader_fitsD again)
qed

lemma tls_poll_write_whole: "tls_poll_write R bs s = (Ready (Inr n), s1) \<Longrightarrow> n = length bs"
  by (auto simp: tls_poll_write_def split: prod.splits poll.splits sum.splits if_splits)

lemma tls_answering:
  assumes "reader_fits R"
  shows "answering_stream (tls_reader conv R) (tls_writer conv R)"
proof
  fix cap s bs s1
  assume "tls_reader conv R cap s = Some (Ready (Inr bs), s1)"
  then obtain y where "tls_poll_read R cap s = Some y" "fst y = Ready (Inr bs)"
    by (auto simp: tls_reader_def map_err_def split: option.splits prod.splits poll.splits sum.splits)
  then show "length bs \<le> cap" using tls_poll_read_fits assms by blast
next
  fix bs s n s1
  assume "tls_writer conv R bs s = Some (Ready (Inr n), s1)"
  then show "n \<le> length bs"
    by (auto simp: tls_writer_def map_err_def dest: tls_poll_write_whole split: prod.splits poll.splits sum.splits)
qed

text \<open>With the law of progress every conversation with it goes on for as long as the client wants.\<close>

lemma tls_converses:
  assumes "read_progress R closed"
  shows "\<exists>seen1 s1. conversation (tls_reader conv R) (tls_writer conv R) client n seen s = Some (seen1, s1)"
proof (induction n arbitrary: seen s)
  case (Suc n)
  show ?case
  proof (cases "client seen")
    case (Some q)
    show ?thesis
    proof (cases q)
      case (Want_Read cap)
      then show ?thesis using Some Suc.IH tls_poll_read_terminates[OF assms, of cap s] by (auto simp: tls_reader_def)
    next
      case (Want_Write bs)
      obtain p s1 where "tls_poll_write R bs s = (p, s1)" by fastforce
      then show ?thesis using Some Suc.IH Want_Write by (simp add: tls_writer_def)
    qed
  qed simp
qed simp

text \<open>
  The answers of a TLS stream to any client, poll by poll, are those of some transport, and that transport is
  handed the plaintext that the writes report as taken.  A result on a protocol over all scripts therefore
  covers whatever answers TLS gives it, stalls and errors of the records' traffic included.
\<close>

theorem tls_seen_as_transport:
  assumes "reader_fits R" "read_progress R closed"
  shows "\<exists>seen s1 t t1. conversation (tls_reader conv R) (tls_writer conv R) client n [] s = Some (seen, s1) \<and>
    conversation tr_reader tr_writer client n [] t = Some (seen, t1) \<and>
    outgoing t = [] \<and> outgoing t1 = accepted_bytes seen"
proof -
  obtain seen s1 where c: "conversation (tls_reader conv R) (tls_writer conv R) client n [] s = Some (seen, s1)"
    using tls_converses[OF assms(2)] by blast
  from answering_stream.scripted[OF tls_answering[OF assms(1)] c]
  obtain inc acc where "\<forall>out. \<exists>t1. conversation tr_reader tr_writer client n []
      \<lparr>incoming = inc, accepting = acc, outgoing = out, flush_error = None\<rparr> = Some (seen, t1) \<and>
    (\<exists>new. seen = [] @ new \<and> outgoing t1 = out @ accepted_bytes new)" by blast
  then obtain t1 where "conversation tr_reader tr_writer client n []
      \<lparr>incoming = inc, accepting = acc, outgoing = [], flush_error = None\<rparr> = Some (seen, t1)"
    "outgoing t1 = accepted_bytes seen" by fastforce
  then show ?thesis using c by fastforce
qed

text \<open>A client that writes two bytes and then reads.\<close>

definition demo_client :: strategy where
  "demo_client seen = (if seen = [] then Some (Want_Write [1, 2]) else if length seen < 4 then Some (Want_Read 9) else None)"

definition demo_conv :: "std_io_error \<Rightarrow> io_error" where
  "demo_conv e = (case e of Io_Kind x \<Rightarrow> x | Invalid_Data m \<Rightarrow> Io_Error Other_Kind m)"

theorem tls_seen_as_transport_witness:
  "\<exists>seen s1 t t1. conversation (tls_reader demo_conv (plain_rustls 4)) (tls_writer demo_conv (plain_rustls 4)) demo_client 9 []
       (tls_new quiet_transport plain_start) = Some (seen, s1) \<and>
     conversation tr_reader tr_writer demo_client 9 [] t = Some (seen, t1) \<and>
     outgoing t = [] \<and> outgoing t1 = accepted_bytes seen"
proof -
  have "reader_fits (plain_rustls 4)" by (auto simp: reader_fits_def plain_rustls_def split: if_splits)
  from tls_seen_as_transport[OF this plain_read_progress] show ?thesis .
qed

section \<open>The pipe\<close>

lemma fake_reader_none: "fake_reader w e 0 s = Some (Ready (Inr []), s)"
  by (simp add: fake_reader_def fake_poll_read_def rb_new_def rb_remaining_def rb_filled_def)

interpretation fake_answers: answering_stream "fake_reader w (other_end e)" "fake_writer f" for w e f
proof
  show "length bs \<le> cap" if "fake_reader w (other_end e) cap s = Some (Ready (Inr bs), s1)" for cap s bs s1
    using that fake_pipe.r.rd_bytes[of cap w e s bs s1] by (cases "cap = 0"; cases "bs = []") (auto simp: fake_reader_none)
  show "n \<le> length bs" if "fake_writer f bs s = Some (Ready (Inr n), s1)" for bs s n s1
    using that fake_pipe.w.wr_takes by blast
qed

text \<open>The same for an end of the pipe, whatever the other end does between the polls.\<close>

lemma fake_seen_as_transport:
  assumes "conversation (amid (fake_reader w (other_end e))) (amid (fake_writer f)) client n [] s = Some (seen, s1)"
  shows "\<exists>t t1. conversation tr_reader tr_writer client n [] t = Some (seen, t1) \<and>
    outgoing t = [] \<and> outgoing t1 = accepted_bytes seen"
proof -
  have "answering_stream (amid (fake_reader w (other_end e))) (amid (fake_writer f))"
    by (rule answering_amid) (rule fake_answers.answering_stream_axioms)
  from answering_stream.scripted[OF this assms] show ?thesis by fastforce
qed

end
