(* ===== verification/Task_State.thy ===== *)
theory Task_State
  imports Prelude
begin

text \<open>
  The state a task shares with its \<open>JoinHandle\<close> (\<open>crates/tpt-async-core/src/task.rs\<close>).  The
  operations are first the sequences of atomic actions they are in the code (a store or load of
  the flag, one critical section of a lock); the two ends may run on different threads, so the
  second half is the step relation in which their actions interleave.  Stores are sequentially
  consistent here; the code's acquire and release orderings on the one flag give the order of
  result and flag that the proofs use.
\<close>

section \<open>The shared state\<close>

datatype task_flag = Flag_Pending | Flag_Ready | Flag_Cancelled

text \<open>
  A waker is named by a number.  \<open>woken\<close> is the log of the wakers that were called, and
  \<open>notified\<close> whether the waker registered last has been called since.
\<close>

record 'a shared_state =
  flags :: task_flag
  task_result :: "'a option"
  waker_slot :: "nat option"
  woken :: "nat list"
  notified :: bool

definition shared_new :: "'a shared_state" where
  "shared_new = \<lparr>flags = Flag_Pending, task_result = None, waker_slot = None, woken = [], notified = False\<rparr>"

definition store_result :: "'a \<Rightarrow> 'a shared_state \<Rightarrow> 'a shared_state" where
  "store_result v s = s\<lparr>task_result := Some v\<rparr>"

definition store_flag :: "task_flag \<Rightarrow> 'a shared_state \<Rightarrow> 'a shared_state" where
  "store_flag f s = s\<lparr>flags := f\<rparr>"

definition wake_waiter :: "'a shared_state \<Rightarrow> 'a shared_state" where
  "wake_waiter s =
     (case waker_slot s of
        None \<Rightarrow> s
      | Some w \<Rightarrow> s\<lparr>waker_slot := None, woken := woken s @ [w], notified := True\<rparr>)"

definition register_waker :: "nat \<Rightarrow> 'a shared_state \<Rightarrow> 'a shared_state" where
  "register_waker w s = s\<lparr>waker_slot := Some w, notified := False\<rparr>"

definition shared_complete :: "'a \<Rightarrow> 'a shared_state \<Rightarrow> 'a shared_state" where
  "shared_complete v s = wake_waiter (store_flag Flag_Ready (store_result v s))"

definition shared_cancel :: "'a shared_state \<Rightarrow> 'a shared_state" where
  "shared_cancel s = wake_waiter (store_flag Flag_Cancelled s)"

section \<open>Handle, completer, task\<close>

definition is_finished :: "'a shared_state \<Rightarrow> bool" where
  "is_finished s \<longleftrightarrow> flags s \<noteq> Flag_Pending"

datatype 'a join_result = Joined 'a | Was_Cancelled

text \<open>\<open>None\<close> is the panic of a poll that finds the result gone.\<close>

definition take_result :: "'a shared_state \<Rightarrow> ('a join_result poll \<times> 'a shared_state) option" where
  "take_result s =
     (case task_result s of
        Some v \<Rightarrow> Some (Ready (Joined v), s\<lparr>task_result := None\<rparr>)
      | None \<Rightarrow> None)"

definition join_poll :: "nat \<Rightarrow> 'a shared_state \<Rightarrow> ('a join_result poll \<times> 'a shared_state) option" where
  "join_poll w s =
     (case flags s of
        Flag_Ready \<Rightarrow> take_result s
      | Flag_Cancelled \<Rightarrow> Some (Ready Was_Cancelled, s)
      | Flag_Pending \<Rightarrow>
          let s1 = register_waker w s in
          (case flags s1 of
             Flag_Ready \<Rightarrow> take_result s1
           | Flag_Cancelled \<Rightarrow> Some (Ready Was_Cancelled, s1)
           | Flag_Pending \<Rightarrow> Some (Pending, s1)))"

definition completer_drop :: "'a shared_state \<Rightarrow> 'a shared_state" where
  "completer_drop s = (if flags s = Flag_Pending then shared_cancel s else s)"

text \<open>\<open>complete\<close> consumes the completer, which is then dropped.\<close>

definition completer_complete :: "'a \<Rightarrow> 'a shared_state \<Rightarrow> 'a shared_state" where
  "completer_complete v s = completer_drop (shared_complete v s)"

definition task_drop :: "'a shared_state \<Rightarrow> 'a shared_state" where
  "task_drop s = (if \<not> is_finished s then shared_cancel s else s)"

section \<open>Interleavings\<close>

text \<open>Where the thread of the completer is.\<close>

datatype producer =
    Pr_Start | Pr_Result_Stored | Pr_Flag_Stored | Pr_Completed
  | Pr_Cancelling | Pr_Cancel_Stored | Pr_Done

text \<open>
  Where the owner of the handle is: between polls, at the points of a poll between its atomic
  actions, or inside its own \<open>cancel\<close>.  A handle is borrowed exclusively by a poll, so its owner
  does not cancel during one.
\<close>

datatype 'a consumer =
    Co_Idle
  | Co_Saw_Pending nat
  | Co_Registered nat
  | Co_Taking
  | Co_Waiting nat
  | Co_Cancelling "nat option"
  | Co_Resolved "'a join_result"
  | Co_Panicked

record 'a task_run =
  shared :: "'a shared_state"
  producer :: producer
  consumer :: "'a consumer"

definition run_start :: "'a task_run" where
  "run_start = \<lparr>shared = shared_new, producer = Pr_Start, consumer = Co_Idle\<rparr>"

text \<open>The handle is not inside a call: before its first poll, or after one that was pending.\<close>

fun between_polls :: "'a consumer \<Rightarrow> bool" where
  "between_polls Co_Idle = True"
| "between_polls (Co_Waiting w) = True"
| "between_polls _ = False"

fun waits_with :: "'a consumer \<Rightarrow> nat option" where
  "waits_with (Co_Waiting w) = Some w"
| "waits_with _ = None"

text \<open>After a load of the flag in a poll.\<close>

definition after_load :: "task_flag \<Rightarrow> 'a consumer \<Rightarrow> 'a consumer" where
  "after_load f still_pending =
     (case f of Flag_Ready \<Rightarrow> Co_Taking | Flag_Cancelled \<Rightarrow> Co_Resolved Was_Cancelled | Flag_Pending \<Rightarrow> still_pending)"

text \<open>The completer will deliver \<open>v\<close>, or be dropped.\<close>

inductive task_step :: "'a \<Rightarrow> 'a task_run \<Rightarrow> 'a task_run \<Rightarrow> bool" for v where
  complete_result: "producer r = Pr_Start \<Longrightarrow>
     task_step v r (r\<lparr>shared := store_result v (shared r), producer := Pr_Result_Stored\<rparr>)"
| complete_flag: "producer r = Pr_Result_Stored \<Longrightarrow>
     task_step v r (r\<lparr>shared := store_flag Flag_Ready (shared r), producer := Pr_Flag_Stored\<rparr>)"
| complete_wake: "producer r = Pr_Flag_Stored \<Longrightarrow>
     task_step v r (r\<lparr>shared := wake_waiter (shared r), producer := Pr_Completed\<rparr>)"
| drop_check: "producer r \<in> {Pr_Start, Pr_Completed} \<Longrightarrow>
     task_step v r (r\<lparr>producer := (if flags (shared r) = Flag_Pending then Pr_Cancelling else Pr_Done)\<rparr>)"
| drop_flag: "producer r = Pr_Cancelling \<Longrightarrow>
     task_step v r (r\<lparr>shared := store_flag Flag_Cancelled (shared r), producer := Pr_Cancel_Stored\<rparr>)"
| drop_wake: "producer r = Pr_Cancel_Stored \<Longrightarrow>
     task_step v r (r\<lparr>shared := wake_waiter (shared r), producer := Pr_Done\<rparr>)"
| poll_load: "between_polls (consumer r) \<Longrightarrow>
     task_step v r (r\<lparr>consumer := after_load (flags (shared r)) (Co_Saw_Pending w)\<rparr>)"
| poll_register: "consumer r = Co_Saw_Pending w \<Longrightarrow>
     task_step v r (r\<lparr>shared := register_waker w (shared r), consumer := Co_Registered w\<rparr>)"
| poll_reload: "consumer r = Co_Registered w \<Longrightarrow>
     task_step v r (r\<lparr>consumer := after_load (flags (shared r)) (Co_Waiting w)\<rparr>)"
| poll_take: "consumer r = Co_Taking \<Longrightarrow>
     task_step v r (case take_result (shared r) of
        Some (Ready x, s) \<Rightarrow> r\<lparr>shared := s, consumer := Co_Resolved x\<rparr>
      | _ \<Rightarrow> r\<lparr>consumer := Co_Panicked\<rparr>)"
| cancel_flag: "between_polls (consumer r) \<Longrightarrow>
     task_step v r (r\<lparr>shared := store_flag Flag_Cancelled (shared r), consumer := Co_Cancelling (waits_with (consumer r))\<rparr>)"
| cancel_wake: "consumer r = Co_Cancelling ow \<Longrightarrow>
     task_step v r (r\<lparr>shared := wake_waiter (shared r),
       consumer := (case ow of Some w \<Rightarrow> Co_Waiting w | None \<Rightarrow> Co_Idle)\<rparr>)"

inductive task_reach :: "'a \<Rightarrow> 'a task_run \<Rightarrow> bool" for v where
  start: "task_reach v run_start"
| step: "task_reach v r \<Longrightarrow> task_step v r r1 \<Longrightarrow> task_reach v r1"

section \<open>The invariant\<close>

lemma store_result_fields [simp]:
  "flags (store_result v s) = flags s" "task_result (store_result v s) = Some v"
  "waker_slot (store_result v s) = waker_slot s" "notified (store_result v s) = notified s"
  by (simp_all add: store_result_def)

lemma store_flag_fields [simp]:
  "flags (store_flag f s) = f" "task_result (store_flag f s) = task_result s"
  "waker_slot (store_flag f s) = waker_slot s" "notified (store_flag f s) = notified s"
  by (simp_all add: store_flag_def)

lemma wake_waiter_fields [simp]:
  "flags (wake_waiter s) = flags s" "task_result (wake_waiter s) = task_result s"
  "waker_slot (wake_waiter s) = None" "notified (wake_waiter s) \<longleftrightarrow> notified s \<or> waker_slot s \<noteq> None"
  by (auto simp: wake_waiter_def split: option.splits)

lemma register_waker_fields [simp]:
  "flags (register_waker w s) = flags s" "task_result (register_waker w s) = task_result s"
  "waker_slot (register_waker w s) = Some w" "\<not> notified (register_waker w s)"
  by (simp_all add: register_waker_def)

text \<open>The flag leaves \<open>PENDING\<close> before the waker is taken.\<close>

definition flag_inv :: "'a task_run \<Rightarrow> bool" where
  "flag_inv r \<longleftrightarrow>
     (producer r \<in> {Pr_Flag_Stored, Pr_Completed, Pr_Cancel_Stored, Pr_Done} \<longrightarrow> flags (shared r) \<noteq> Flag_Pending)"

text \<open>While nobody has taken the result, \<open>READY\<close> means that it is there.\<close>

definition result_inv :: "'a \<Rightarrow> 'a task_run \<Rightarrow> bool" where
  "result_inv v r \<longleftrightarrow>
     (case consumer r of
        Co_Resolved x \<Rightarrow> x = Was_Cancelled \<or> x = Joined v
      | Co_Panicked \<Rightarrow> False
      | Co_Taking \<Rightarrow> task_result (shared r) = Some v
      | _ \<Rightarrow> flags (shared r) = Flag_Ready \<or> producer r = Pr_Result_Stored \<longrightarrow> task_result (shared r) = Some v) \<and>
     (task_result (shared r) = None \<or> task_result (shared r) = Some v)"

text \<open>The waker of a waiting handle is registered, or has been called; and if the flag has changed, it is still to come.\<close>

definition waker_inv :: "'a task_run \<Rightarrow> bool" where
  "waker_inv r \<longleftrightarrow>
     (case consumer r of
        Co_Registered w \<Rightarrow> waker_slot (shared r) = Some w \<or> notified (shared r)
      | Co_Waiting w \<Rightarrow> notified (shared r) \<or>
          waker_slot (shared r) = Some w \<and>
          (flags (shared r) = Flag_Pending \<or> producer r \<in> {Pr_Flag_Stored, Pr_Cancel_Stored})
      | Co_Cancelling (Some w) \<Rightarrow> waker_slot (shared r) = Some w \<or> notified (shared r)
      | _ \<Rightarrow> True)"

lemma task_inv_start: "flag_inv run_start \<and> result_inv v run_start \<and> waker_inv run_start"
  by (simp add: flag_inv_def result_inv_def waker_inv_def run_start_def shared_new_def)

lemma flag_inv_step: "task_step v r r1 \<Longrightarrow> flag_inv r \<Longrightarrow> flag_inv r1"
  by (erule task_step.cases)
     (auto simp: flag_inv_def take_result_def split: option.splits poll.splits)

lemma result_inv_step: "task_step v r r1 \<Longrightarrow> flag_inv r \<Longrightarrow> result_inv v r \<Longrightarrow> result_inv v r1"
  by (erule task_step.cases)
     (auto simp: flag_inv_def result_inv_def take_result_def after_load_def
        split: option.splits consumer.splits task_flag.splits)

lemma waker_inv_step: "task_step v r r1 \<Longrightarrow> flag_inv r \<Longrightarrow> waker_inv r \<Longrightarrow> waker_inv r1"
  by (erule task_step.cases)
     (auto simp: flag_inv_def waker_inv_def take_result_def after_load_def
        split: option.splits consumer.splits task_flag.splits)

lemma task_reach_inv: "task_reach v r \<Longrightarrow> flag_inv r \<and> result_inv v r \<and> waker_inv r"
proof (induction rule: task_reach.induct)
  case start
  show ?case by (rule task_inv_start)
next
  case (step r r1)
  then show ?case using flag_inv_step result_inv_step waker_inv_step by metis
qed

section \<open>Whole calls\<close>

text \<open>The operations of the first half are the uninterrupted runs of the steps.\<close>

inductive_cases task_stepE: "task_step v r r1"

lemma complete_runs:
  assumes "producer r = Pr_Start"
  shows "(task_step v)\<^sup>*\<^sup>* r (r\<lparr>shared := shared_complete v (shared r), producer := Pr_Completed\<rparr>)"
proof -
  let ?r1 = "r\<lparr>shared := store_result v (shared r), producer := Pr_Result_Stored\<rparr>"
  let ?r2 = "?r1\<lparr>shared := store_flag Flag_Ready (shared ?r1), producer := Pr_Flag_Stored\<rparr>"
  have "task_step v r ?r1" by (rule complete_result[OF assms])
  moreover have "task_step v ?r1 ?r2" by (rule complete_flag) simp
  moreover have "task_step v ?r2 (?r2\<lparr>shared := wake_waiter (shared ?r2), producer := Pr_Completed\<rparr>)"
    by (rule complete_wake) simp
  ultimately have "(task_step v)\<^sup>*\<^sup>* r (?r2\<lparr>shared := wake_waiter (shared ?r2), producer := Pr_Completed\<rparr>)"
    by (meson converse_rtranclp_into_rtranclp rtranclp.rtrancl_refl)
  then show ?thesis by (simp add: shared_complete_def)
qed

lemma poll_runs:
  assumes "between_polls (consumer r)" "join_poll w (shared r) = Some (p, s)"
  shows "(task_step v)\<^sup>*\<^sup>* r (r\<lparr>shared := s, consumer := (case p of Pending \<Rightarrow> Co_Waiting w | Ready x \<Rightarrow> Co_Resolved x)\<rparr>)"
proof -
  have load: "task_step v r (r\<lparr>consumer := after_load (flags (shared r)) (Co_Saw_Pending w)\<rparr>)"
    by (rule poll_load[OF assms(1)])
  show ?thesis
  proof (cases "flags (shared r)")
    case Flag_Pending
    let ?r1 = "r\<lparr>consumer := Co_Saw_Pending w\<rparr>"
    let ?r2 = "?r1\<lparr>shared := register_waker w (shared ?r1), consumer := Co_Registered w\<rparr>"
    have "task_step v ?r1 ?r2" by (rule poll_register) simp
    moreover have "task_step v ?r2 (?r2\<lparr>consumer := after_load (flags (shared ?r2)) (Co_Waiting w)\<rparr>)"
      by (rule poll_reload) simp
    moreover have "p = Pending" "s = register_waker w (shared r)"
      using assms(2) Flag_Pending by (auto simp: join_poll_def Let_def)
    ultimately show ?thesis
      using load Flag_Pending by (simp add: after_load_def)
  next
    case Flag_Cancelled
    then have "p = Ready Was_Cancelled" "s = shared r" using assms(2) by (auto simp: join_poll_def)
    then show ?thesis using load Flag_Cancelled by (auto simp: after_load_def)
  next
    case Flag_Ready
    then obtain x where x: "task_result (shared r) = Some x" "p = Ready (Joined x)" "s = (shared r)\<lparr>task_result := None\<rparr>"
      using assms(2) by (auto simp: join_poll_def take_result_def split: option.splits)
    let ?r1 = "r\<lparr>consumer := Co_Taking\<rparr>"
    have "task_step v ?r1 (case take_result (shared ?r1) of
        Some (Ready x, s) \<Rightarrow> ?r1\<lparr>shared := s, consumer := Co_Resolved x\<rparr> | _ \<Rightarrow> ?r1\<lparr>consumer := Co_Panicked\<rparr>)"
      by (rule poll_take) simp
    then have "task_step v ?r1 (r\<lparr>shared := s, consumer := Co_Resolved (Joined x)\<rparr>)"
      using x by (simp add: take_result_def)
    then show ?thesis
      using load Flag_Ready x(2) by (simp add: after_load_def)
  qed
qed

end
