(* ===== verification/Executor.thy ===== *)
theory Executor
  imports Prelude
begin

text \<open>
  The single-threaded executor \<open>LocalExecutor\<close> (\<open>crates/tpt-async-executor/src/lib.rs\<close>).  A task's
  future is the caller's code: a poll of it is a parameter that gives what the poll did to the
  executor, in order, and what is left of the future (\<open>None\<close> when it is ready), over a world
  \<open>'w\<close> that all futures share.  Wakers of other threads act while a poll runs (they are then
  among its actions) or while the executor is parked.
\<close>

section \<open>State\<close>

text \<open>
  \<open>task_done\<close> and \<open>task_queued\<close> are the flags of each task's \<open>TaskState\<close>, which its wakers
  share.  Ids count up from 1; \<open>next_id\<close> wraps only after \<open>2 ^ 64\<close> spawns, which is not modelled.
\<close>

record 'b executor =
  run_queue :: "nat list"
  next_id :: nat
  registry :: "nat \<rightharpoonup> 'b"
  task_done :: "nat \<Rightarrow> bool"
  task_queued :: "nat \<Rightarrow> bool"
  main_notified :: bool

definition executor_new :: "'b executor" where
  "executor_new = \<lparr>run_queue = [], next_id = 1, registry = Map.empty, task_done = (\<lambda>_. False),
     task_queued = (\<lambda>_. False), main_notified = False\<rparr>"

definition allocate_id :: "'b executor \<Rightarrow> nat \<times> 'b executor" where
  "allocate_id e = (next_id e, e\<lparr>next_id := next_id e + 1\<rparr>)"

section \<open>Waking and spawning\<close>

datatype executor_target = Main_Target | Task_Target nat

fun wake_target :: "executor_target \<Rightarrow> 'b executor \<Rightarrow> 'b executor" where
  "wake_target Main_Target e = e"
| "wake_target (Task_Target i) e =
     (if task_done e i then e
      else if task_queued e i then e
      else e\<lparr>task_queued := (task_queued e)(i := True), run_queue := run_queue e @ [i]\<rparr>)"

text \<open>The waker of the main future sets its flag first.\<close>

definition wake_main :: "'b executor \<Rightarrow> 'b executor" where
  "wake_main e = wake_target Main_Target (e\<lparr>main_notified := True\<rparr>)"

definition enqueue :: "'b \<Rightarrow> 'b executor \<Rightarrow> nat \<times> 'b executor" where
  "enqueue body e =
     (case allocate_id e of
        (i, e1) \<Rightarrow>
          (i, e1\<lparr>task_done := (task_done e1)(i := False), task_queued := (task_queued e1)(i := True),
                registry := (registry e1)(i \<mapsto> body), run_queue := run_queue e1 @ [i]\<rparr>))"

text \<open>
  What a poll does to the executor.  A waker exists only for a task that has been spawned, so an
  action that names no such task is none.
\<close>

datatype 'b task_action = Wake_Task nat | Wake_Main | Spawn_Task 'b

fun apply_action :: "'b task_action \<Rightarrow> 'b executor \<Rightarrow> 'b executor" where
  "apply_action (Wake_Task i) e = (if 1 \<le> i \<and> i < next_id e then wake_target (Task_Target i) e else e)"
| "apply_action Wake_Main e = wake_main e"
| "apply_action (Spawn_Task b) e = snd (enqueue b e)"

definition apply_actions :: "'b task_action list \<Rightarrow> 'b executor \<Rightarrow> 'b executor" where
  "apply_actions acts e = fold apply_action acts e"

section \<open>Polling tasks\<close>

type_synonym ('b, 'w) poll_fn = "'b \<Rightarrow> 'w \<Rightarrow> 'b task_action list \<times> 'b option \<times> 'w"

definition poll_task :: "('b, 'w) poll_fn \<Rightarrow> nat \<Rightarrow> 'b executor \<times> 'w \<Rightarrow> 'b executor \<times> 'w" where
  "poll_task poll i ew =
     (case ew of (e, w) \<Rightarrow>
        (case registry e i of
           None \<Rightarrow> (e, w)
         | Some body \<Rightarrow>
             let e1 = e\<lparr>registry := (registry e)(i := None), task_queued := (task_queued e)(i := False)\<rparr> in
             (case poll body w of
                (acts, None, w1) \<Rightarrow>
                  let e2 = apply_actions acts e1 in (e2\<lparr>task_done := (task_done e2)(i := True)\<rparr>, w1)
              | (acts, Some body1, w1) \<Rightarrow>
                  let e2 = apply_actions acts e1 in (e2\<lparr>registry := (registry e2)(i \<mapsto> body1)\<rparr>, w1))))"

text \<open>The loop may never end, when tasks keep waking: \<open>None\<close> is not returning.\<close>

partial_function (option) poll_scheduled_tasks ::
  "('b, 'w) poll_fn \<Rightarrow> 'b executor \<times> 'w \<Rightarrow> ('b executor \<times> 'w) option" where
  "poll_scheduled_tasks poll ew =
     (case run_queue (fst ew) of
        [] \<Rightarrow> Some ew
      | i # q \<Rightarrow> poll_scheduled_tasks poll (poll_task poll i ((fst ew)\<lparr>run_queue := q\<rparr>, snd ew)))"

definition run_until_stalled :: "('b, 'w) poll_fn \<Rightarrow> 'b executor \<times> 'w \<Rightarrow> ('b executor \<times> 'w) option" where
  "run_until_stalled poll ew = poll_scheduled_tasks poll ew"

section \<open>block_on\<close>

text \<open>
  While the executor is parked other threads wake what they wake: \<open>ext\<close> is what happens in each
  wait; after it nothing happens any more and the wait only times out, again and again.
\<close>

fun park :: "'b task_action list list \<Rightarrow> 'b executor \<Rightarrow> 'b task_action list list \<times> 'b executor" where
  "park [] e = ([], e)"
| "park (es # ext) e = (ext, apply_actions es e)"

text \<open>One iteration up to the parking: the result of the main future, or what is left of it.\<close>

definition poll_main ::
  "('m \<Rightarrow> 'w \<Rightarrow> 'b task_action list \<times> ('m + 'v) \<times> 'w) \<Rightarrow> 'm \<Rightarrow> 'b executor \<times> 'w \<Rightarrow> ('m + 'v) \<times> 'b executor \<times> 'w" where
  "poll_main pollm m ew =
     (case ew of (e, w) \<Rightarrow>
        if main_notified e then
          (case pollm m w of (acts, r, w1) \<Rightarrow> (r, apply_actions acts (e\<lparr>main_notified := False\<rparr>), w1))
        else (Inl m, e, w))"

partial_function (option) block_on_loop ::
  "('b, 'w) poll_fn \<Rightarrow> ('m \<Rightarrow> 'w \<Rightarrow> 'b task_action list \<times> ('m + 'v) \<times> 'w) \<Rightarrow> 'b task_action list list \<Rightarrow>
   'm \<Rightarrow> 'b executor \<times> 'w \<Rightarrow> ('v \<times> 'b executor \<times> 'w) option" where
  "block_on_loop poll pollm ext m ew =
     (case poll_main pollm m ew of
        (Inr v, ew1) \<Rightarrow> Some (v, ew1)
      | (Inl m1, ew1) \<Rightarrow>
          (case poll_scheduled_tasks poll ew1 of
             None \<Rightarrow> None
           | Some (e2, w2) \<Rightarrow>
               if main_notified e2 \<or> run_queue e2 \<noteq> [] then block_on_loop poll pollm ext m1 (e2, w2)
               else (case park ext e2 of (ext1, e3) \<Rightarrow> block_on_loop poll pollm ext1 m1 (e3, w2))))"

definition block_on ::
  "('b, 'w) poll_fn \<Rightarrow> ('m \<Rightarrow> 'w \<Rightarrow> 'b task_action list \<times> ('m + 'v) \<times> 'w) \<Rightarrow> 'b task_action list list \<Rightarrow>
   'm \<Rightarrow> 'b executor \<times> 'w \<Rightarrow> ('v \<times> 'b executor \<times> 'w) option" where
  "block_on poll pollm ext m ew = block_on_loop poll pollm ext m ((fst ew)\<lparr>main_notified := True\<rparr>, snd ew)"

section \<open>Invariant\<close>

text \<open>
  The queue holds a task's id at most once, and exactly while its flag says so; wakers exist
  for allocated ids only.
\<close>

definition exec_ok :: "'b executor \<Rightarrow> bool" where
  "exec_ok e \<longleftrightarrow> distinct (run_queue e) \<and>
     (\<forall>i \<in> set (run_queue e). task_queued e i) \<and>
     (\<forall>i. task_queued e i \<longrightarrow> i < next_id e) \<and>
     (\<forall>i \<in> dom (registry e). i < next_id e \<and> \<not> task_done e i \<and> (task_queued e i \<longrightarrow> i \<in> set (run_queue e)))"

lemma exec_okI:
  assumes "distinct (run_queue e)" "\<And>i. i \<in> set (run_queue e) \<Longrightarrow> task_queued e i"
    "\<And>i. task_queued e i \<Longrightarrow> i < next_id e"
    "\<And>i b. registry e i = Some b \<Longrightarrow> i < next_id e"
    "\<And>i b. registry e i = Some b \<Longrightarrow> \<not> task_done e i"
    "\<And>i b. registry e i = Some b \<Longrightarrow> task_queued e i \<Longrightarrow> i \<in> set (run_queue e)"
  shows "exec_ok e"
  using assms unfolding exec_ok_def by blast

lemma exec_okD:
  assumes "exec_ok e"
  shows "distinct (run_queue e)" "\<And>i. i \<in> set (run_queue e) \<Longrightarrow> task_queued e i"
    "\<And>i. task_queued e i \<Longrightarrow> i < next_id e"
    "\<And>i b. registry e i = Some b \<Longrightarrow> i < next_id e"
    "\<And>i b. registry e i = Some b \<Longrightarrow> \<not> task_done e i"
    "\<And>i b. registry e i = Some b \<Longrightarrow> task_queued e i \<Longrightarrow> i \<in> set (run_queue e)"
  using assms unfolding exec_ok_def by blast+

lemma executor_new_ok: "exec_ok executor_new"
  by (rule exec_okI) (simp_all add: executor_new_def)

text \<open>The invariant while a task is being polled: that task is out of the registry.\<close>

definition polling_ok :: "nat \<Rightarrow> 'b executor \<Rightarrow> bool" where
  "polling_ok i e \<longleftrightarrow> exec_ok e \<and> registry e i = None \<and> i < next_id e \<and> \<not> task_done e i \<and>
     (task_queued e i \<longrightarrow> i \<in> set (run_queue e))"

lemma wake_task_ok:
  assumes "exec_ok e" "j < next_id e"
  shows "exec_ok (wake_target (Task_Target j) e)"
proof (cases "task_done e j \<or> task_queued e j")
  case True
  then show ?thesis using assms(1) by auto
next
  case False
  then have eq: "wake_target (Task_Target j) e = e\<lparr>task_queued := (task_queued e)(j := True), run_queue := run_queue e @ [j]\<rparr>"
    by simp
  have "j \<notin> set (run_queue e)" using False exec_okD(2)[OF assms(1)] by blast
  then show ?thesis
    unfolding eq using exec_okD[OF assms(1)] assms(2) by (intro exec_okI) (auto split: if_splits)
qed

lemma enqueue_ok:
  assumes "exec_ok e"
  shows "exec_ok (snd (enqueue b e))"
proof -
  have fresh: "next_id e \<notin> set (run_queue e)" "\<And>i. i \<in> set (run_queue e) \<Longrightarrow> i < next_id e"
    using exec_okD(2,3)[OF assms] by auto
  moreover have "task_queued e i \<Longrightarrow> i < Suc (next_id e)" "registry e i = Some c \<Longrightarrow> i < Suc (next_id e)" for i c
    using exec_okD(3,4)[OF assms] less_SucI by blast+
  ultimately show ?thesis
    using exec_okD(1,2,5,6)[OF assms]
    by (intro exec_okI) (auto simp: enqueue_def allocate_id_def split: if_splits)
qed

lemma wake_main_ok: "exec_ok e \<Longrightarrow> exec_ok (wake_main e)"
  by (rule exec_okI) (auto simp: wake_main_def dest: exec_okD)

lemma apply_action_ok: "exec_ok e \<Longrightarrow> exec_ok (apply_action a e)"
  by (cases a) (auto simp del: wake_target.simps intro: wake_task_ok enqueue_ok wake_main_ok)

lemma apply_action_polling:
  assumes "polling_ok i e"
  shows "polling_ok i (apply_action a e)"
proof -
  have "exec_ok (apply_action a e)" using assms by (intro apply_action_ok) (simp add: polling_ok_def)
  moreover have "registry (apply_action a e) i = None \<and> i < next_id (apply_action a e) \<and> \<not> task_done (apply_action a e) i \<and>
      (task_queued (apply_action a e) i \<longrightarrow> i \<in> set (run_queue (apply_action a e)))"
    using assms unfolding polling_ok_def
    by (cases a) (simp_all add: wake_main_def enqueue_def allocate_id_def)
  ultimately show ?thesis by (simp add: polling_ok_def)
qed

lemma apply_actions_ok: "exec_ok e \<Longrightarrow> exec_ok (apply_actions acts e)"
  unfolding apply_actions_def by (induction acts arbitrary: e) (auto intro: apply_action_ok)

lemma apply_actions_polling: "polling_ok i e \<Longrightarrow> polling_ok i (apply_actions acts e)"
  unfolding apply_actions_def by (induction acts arbitrary: e) (auto intro: apply_action_polling)

lemma popped_ok:
  assumes "exec_ok e" "run_queue e = i # q" "registry e i = Some b"
  shows "polling_ok i (e\<lparr>run_queue := q, registry := (registry e)(i := None), task_queued := (task_queued e)(i := False)\<rparr>)"
proof -
  have d: "i \<notin> set q" "distinct q" using exec_okD(1)[OF assms(1)] assms(2) by auto
  have "exec_ok (e\<lparr>run_queue := q, registry := (registry e)(i := None), task_queued := (task_queued e)(i := False)\<rparr>)"
    using d exec_okD[OF assms(1)] assms(2) by (intro exec_okI) (fastforce split: if_splits)+
  then show ?thesis using exec_okD(4,5)[OF assms(1,3)] by (simp add: polling_ok_def)
qed

lemma poll_back_ok:
  assumes "polling_ok i e"
  shows "exec_ok (e\<lparr>registry := (registry e)(i \<mapsto> b)\<rparr>)" "exec_ok (e\<lparr>task_done := (task_done e)(i := True)\<rparr>)"
proof -
  have e: "exec_ok e" and i: "i < next_id e" "\<not> task_done e i" "task_queued e i \<longrightarrow> i \<in> set (run_queue e)"
      "registry e i = None"
    using assms by (simp_all add: polling_ok_def)
  show "exec_ok (e\<lparr>registry := (registry e)(i \<mapsto> b)\<rparr>)"
    using exec_okD[OF e] i by (intro exec_okI) (auto split: if_splits)
  show "exec_ok (e\<lparr>task_done := (task_done e)(i := True)\<rparr>)"
    using exec_okD[OF e] i by (intro exec_okI) (auto split: if_splits)
qed

lemma poll_task_ok:
  assumes "exec_ok e" "run_queue e = i # q"
  shows "exec_ok (fst (poll_task poll i (e\<lparr>run_queue := q\<rparr>, w)))"
proof (cases "registry e i")
  case None
  have "exec_ok (e\<lparr>run_queue := q\<rparr>)"
    using exec_okD[OF assms(1)] assms(2) None by (intro exec_okI) fastforce+
  then show ?thesis using None by (simp add: poll_task_def)
next
  case (Some b)
  obtain acts r w1 where p: "poll b w = (acts, r, w1)" by (metis prod_cases3)
  let ?e1 = "e\<lparr>run_queue := q, registry := (registry e)(i := None), task_queued := (task_queued e)(i := False)\<rparr>"
  have "polling_ok i (apply_actions acts ?e1)"
    by (rule apply_actions_polling[OF popped_ok[OF assms Some]])
  from poll_back_ok[OF this] show ?thesis
    using Some p by (cases r) (simp_all add: poll_task_def Let_def)
qed

lemma poll_scheduled_ok:
  "poll_scheduled_tasks poll ew = Some ew1 \<Longrightarrow> exec_ok (fst ew) \<longrightarrow> exec_ok (fst ew1) \<and> run_queue (fst ew1) = []"
proof (rule poll_scheduled_tasks.raw_induct[of
      "\<lambda>poll ew ew1. exec_ok (fst ew) \<longrightarrow> exec_ok (fst ew1) \<and> run_queue (fst ew1) = []"])
  fix self :: "('a, 'b) poll_fn \<Rightarrow> 'a executor \<times> 'b \<Rightarrow> ('a executor \<times> 'b) option" and poll ew r
  assume ih: "\<And>poll ew r. self poll ew = Some r \<Longrightarrow> exec_ok (fst ew) \<longrightarrow> exec_ok (fst r) \<and> run_queue (fst r) = []"
    and eq: "(case run_queue (fst ew) of [] \<Rightarrow> Some ew
      | i # q \<Rightarrow> self poll (poll_task poll i ((fst ew)\<lparr>run_queue := q\<rparr>, snd ew))) = Some r"
  show "exec_ok (fst ew) \<longrightarrow> exec_ok (fst r) \<and> run_queue (fst r) = []"
  proof (cases "run_queue (fst ew)")
    case Nil
    then show ?thesis using eq by simp
  next
    case (Cons i q)
    then show ?thesis
      using ih[of poll "poll_task poll i ((fst ew)\<lparr>run_queue := q\<rparr>, snd ew)" r] eq
        poll_task_ok[of "fst ew" i q poll "snd ew"] by simp
  qed
qed

section \<open>Ending\<close>

text \<open>
  Tasks whose polls are paid for: \<open>cost b\<close> bounds what a future \<open>b\<close> still does, a wake costing 1
  and a spawn 1 and the cost of the new future.
\<close>

fun action_cost :: "('b \<Rightarrow> nat) \<Rightarrow> 'b task_action \<Rightarrow> nat" where
  "action_cost cost (Wake_Task i) = 1"
| "action_cost cost Wake_Main = 0"
| "action_cost cost (Spawn_Task b) = 1 + cost b"

definition bounded_work :: "('b \<Rightarrow> nat) \<Rightarrow> ('b, 'w) poll_fn \<Rightarrow> bool" where
  "bounded_work cost poll \<longleftrightarrow>
     (\<forall>b w. case poll b w of (acts, r, w1) \<Rightarrow>
        sum_list (map (action_cost cost) acts) + (case r of None \<Rightarrow> 0 | Some b1 \<Rightarrow> cost b1) \<le> cost b)"

definition work_left :: "('b \<Rightarrow> nat) \<Rightarrow> 'b executor \<Rightarrow> nat" where
  "work_left cost e = length (run_queue e) + (\<Sum>i<next_id e. case registry e i of None \<Rightarrow> 0 | Some b \<Rightarrow> cost b)"

lemma registry_sum_upd:
  fixes m :: "nat \<rightharpoonup> 'b"
  assumes "i < n" "m i = None"
  shows "(\<Sum>j<n. case (m(i \<mapsto> b)) j of None \<Rightarrow> 0 | Some b \<Rightarrow> cost b) =
    (\<Sum>j<n. case m j of None \<Rightarrow> 0 | Some b \<Rightarrow> cost b) + (cost b :: nat)"
proof -
  have fin: "finite {..<n}" "i \<in> {..<n}" using assms(1) by simp_all
  have rest: "(\<Sum>j\<in>{..<n} - {i}. case (m(i \<mapsto> b)) j of None \<Rightarrow> 0 | Some b \<Rightarrow> cost b) =
      (\<Sum>j\<in>{..<n} - {i}. case m j of None \<Rightarrow> 0 | Some b \<Rightarrow> cost b)"
    by (rule sum.cong) auto
  show ?thesis
    using sum.remove[OF fin, of "\<lambda>j. case (m(i \<mapsto> b)) j of None \<Rightarrow> 0 | Some b \<Rightarrow> cost b"]
      sum.remove[OF fin, of "\<lambda>j. case m j of None \<Rightarrow> 0 | Some b \<Rightarrow> cost b"] rest assms(2)
    by simp
qed

lemma apply_action_work:
  assumes "exec_ok e"
  shows "work_left cost (apply_action a e) \<le> work_left cost e + action_cost cost a"
proof (cases a)
  case (Spawn_Task b)
  have none: "registry e (next_id e) = None" using exec_okD(4)[OF assms] by (metis less_irrefl not_None_eq)
  have "(\<Sum>i<next_id e. case ((registry e)(next_id e \<mapsto> b)) i of None \<Rightarrow> 0 | Some b \<Rightarrow> cost b) =
      (\<Sum>i<next_id e. case registry e i of None \<Rightarrow> 0 | Some b \<Rightarrow> cost b)"
    by (rule sum.cong) auto
  then show ?thesis using Spawn_Task by (simp add: work_left_def enqueue_def allocate_id_def)
qed (auto simp: work_left_def wake_main_def)

lemma apply_actions_work:
  "exec_ok e \<Longrightarrow> work_left cost (apply_actions acts e) \<le> work_left cost e + sum_list (map (action_cost cost) acts)"
proof (induction acts arbitrary: e)
  case (Cons a acts)
  have "work_left cost (apply_actions acts (apply_action a e)) \<le>
      work_left cost (apply_action a e) + sum_list (map (action_cost cost) acts)"
    by (rule Cons.IH[OF apply_action_ok[OF Cons.prems]])
  also have "\<dots> \<le> work_left cost e + action_cost cost a + sum_list (map (action_cost cost) acts)"
    using apply_action_work[OF Cons.prems] by simp
  finally show ?case by (simp add: apply_actions_def)
qed (simp add: apply_actions_def)

lemma poll_task_work:
  assumes "exec_ok e" "run_queue e = i # q" "bounded_work cost poll"
  shows "work_left cost (fst (poll_task poll i (e\<lparr>run_queue := q\<rparr>, w))) < work_left cost e"
proof (cases "registry e i")
  case None
  then show ?thesis using assms(2) by (simp add: poll_task_def work_left_def)
next
  case (Some b)
  obtain acts r w1 where p: "poll b w = (acts, r, w1)" by (metis prod_cases3)
  let ?e1 = "e\<lparr>run_queue := q, registry := (registry e)(i := None), task_queued := (task_queued e)(i := False)\<rparr>"
  let ?e2 = "apply_actions acts ?e1"
  have pol: "polling_ok i ?e1" by (rule popped_ok[OF assms(1,2) Some])
  have pol2: "polling_ok i ?e2" by (rule apply_actions_polling[OF pol])
  have "i < next_id e" by (rule exec_okD(4)[OF assms(1) Some])
  from registry_sum_upd[OF this, where m = "(registry e)(i := None)" and b = b and cost = cost] Some
  have e: "work_left cost e = work_left cost ?e1 + 1 + cost b"
    using assms(2) by (simp add: work_left_def fun_upd_idem)
  have "exec_ok ?e1" using pol by (simp add: polling_ok_def)
  then have "work_left cost ?e2 \<le> work_left cost ?e1 + sum_list (map (action_cost cost) acts)"
    by (rule apply_actions_work)
  moreover have "sum_list (map (action_cost cost) acts) + (case r of None \<Rightarrow> 0 | Some b1 \<Rightarrow> cost b1) \<le> cost b"
    using assms(3) p unfolding bounded_work_def by (metis (mono_tags, lifting) case_prod_conv)
  ultimately have le: "work_left cost ?e2 + (case r of None \<Rightarrow> 0 | Some b1 \<Rightarrow> cost b1) < work_left cost e"
    using e by simp
  show ?thesis
  proof (cases r)
    case None
    then show ?thesis using le Some p by (simp add: poll_task_def work_left_def Let_def)
  next
    case (Some b1)
    then have "work_left cost (?e2\<lparr>registry := (registry ?e2)(i \<mapsto> b1)\<rparr>) = work_left cost ?e2 + cost b1"
      using registry_sum_upd[where i = i and n = "next_id ?e2" and m = "registry ?e2" and b = b1 and cost = cost] pol2
      by (simp add: polling_ok_def work_left_def)
    then show ?thesis using le Some p \<open>registry e i = Some b\<close> by (simp add: poll_task_def Let_def)
  qed
qed

lemma poll_scheduled_returns:
  "bounded_work cost poll \<Longrightarrow> exec_ok (fst ew) \<Longrightarrow> \<exists>ew1. poll_scheduled_tasks poll ew = Some ew1"
proof (induction "work_left cost (fst ew)" arbitrary: ew rule: less_induct)
  case less
  show ?case
  proof (cases "run_queue (fst ew)")
    case Nil
    then show ?thesis by (subst poll_scheduled_tasks.simps) simp
  next
    case (Cons i q)
    let ?ew1 = "poll_task poll i ((fst ew)\<lparr>run_queue := q\<rparr>, snd ew)"
    have "\<exists>ew2. poll_scheduled_tasks poll ?ew1 = Some ew2"
      by (rule less.hyps[OF poll_task_work[OF less.prems(2) Cons less.prems(1)] less.prems(1)
            poll_task_ok[OF less.prems(2) Cons]])
    then show ?thesis using Cons by (subst poll_scheduled_tasks.simps) simp
  qed
qed

end
