(* ===== verification/Executor_Threads.thy ===== *)
theory Executor_Threads
  imports Executor "HOL-Library.Multiset"
begin

text \<open>
  The executor's wakers run on any thread: the atomic actions of \<open>Inner::wake_target\<close> (the load of
  \<open>done\<close>, the swap of \<open>queued\<close>, the push under the queue's lock) interleave with those of the
  executor thread (\<open>poll_scheduled_tasks\<close> and \<open>poll_task\<close>: the pop under the lock, the store of
  \<open>queued\<close> before the poll, the store of \<open>done\<close> after it, spawning).
\<close>

section \<open>Runs\<close>

text \<open>
  \<open>waking\<close> and \<open>pushing\<close> are the wake calls between two of their actions, \<open>popped\<close> an id that the
  executor has taken off the queue, \<open>running\<close> the task it is polling.  \<open>owed\<close> is the set of the
  tasks whose waker has been called since their last poll began.
\<close>

record 'b exec_run =
  ex :: "'b executor"
  waking :: "nat list"
  pushing :: "nat list"
  popped :: "nat option"
  running :: "nat option"
  owed :: "nat set"

definition exec_start :: "'b exec_run" where
  "exec_start = \<lparr>ex = executor_new, waking = [], pushing = [], popped = None, running = None, owed = {}\<rparr>"

inductive exec_step :: "'b exec_run \<Rightarrow> 'b exec_run \<Rightarrow> bool" where
  wake_load: "1 \<le> i \<Longrightarrow> i < next_id (ex r) \<Longrightarrow> \<not> task_done (ex r) i \<Longrightarrow>
     exec_step r (r\<lparr>waking := i # waking r, owed := insert i (owed r)\<rparr>)"
| wake_swap_queued: "i \<in> set (waking r) \<Longrightarrow> task_queued (ex r) i \<Longrightarrow>
     exec_step r (r\<lparr>waking := remove1 i (waking r)\<rparr>)"
| wake_swap: "i \<in> set (waking r) \<Longrightarrow> \<not> task_queued (ex r) i \<Longrightarrow>
     exec_step r (r\<lparr>waking := remove1 i (waking r), pushing := i # pushing r,
       ex := (ex r)\<lparr>task_queued := (task_queued (ex r))(i := True)\<rparr>\<rparr>)"
| wake_push: "i \<in> set (pushing r) \<Longrightarrow>
     exec_step r (r\<lparr>pushing := remove1 i (pushing r), ex := (ex r)\<lparr>run_queue := run_queue (ex r) @ [i]\<rparr>\<rparr>)"
| spawn: "popped r = None \<Longrightarrow> exec_step r (r\<lparr>ex := snd (enqueue b (ex r))\<rparr>)"
| pop: "popped r = None \<Longrightarrow> running r = None \<Longrightarrow> run_queue (ex r) = i # q \<Longrightarrow>
     exec_step r (r\<lparr>popped := Some i, ex := (ex r)\<lparr>run_queue := q\<rparr>\<rparr>)"
| poll_gone: "popped r = Some i \<Longrightarrow> registry (ex r) i = None \<Longrightarrow> exec_step r (r\<lparr>popped := None\<rparr>)"
| poll_begin: "popped r = Some i \<Longrightarrow> registry (ex r) i = Some b \<Longrightarrow>
     exec_step r (r\<lparr>popped := None, running := Some i, owed := owed r - {i},
       ex := (ex r)\<lparr>registry := (registry (ex r))(i := None), task_queued := (task_queued (ex r))(i := False)\<rparr>\<rparr>)"
| poll_pending: "running r = Some i \<Longrightarrow> popped r = None \<Longrightarrow>
     exec_step r (r\<lparr>running := None, ex := (ex r)\<lparr>registry := (registry (ex r))(i \<mapsto> b)\<rparr>\<rparr>)"
| poll_ready: "running r = Some i \<Longrightarrow> popped r = None \<Longrightarrow>
     exec_step r (r\<lparr>running := None, ex := (ex r)\<lparr>task_done := (task_done (ex r))(i := True)\<rparr>\<rparr>)"
| main_flag: "exec_step r (r\<lparr>ex := (ex r)\<lparr>main_notified := f\<rparr>\<rparr>)"

inductive exec_reach :: "'b exec_run \<Rightarrow> bool" where
  start: "exec_reach exec_start"
| step: "exec_reach r \<Longrightarrow> exec_step r r1 \<Longrightarrow> exec_reach r1"

section \<open>Invariants\<close>

text \<open>All the ids that are scheduled, wherever they are.\<close>

definition scheduled :: "'b exec_run \<Rightarrow> nat multiset" where
  "scheduled r = mset (run_queue (ex r)) + mset (pushing r) + (case popped r of Some i \<Rightarrow> {#i#} | None \<Rightarrow> {#})"

definition alive :: "'b exec_run \<Rightarrow> nat \<Rightarrow> bool" where
  "alive r i \<longleftrightarrow> i \<in> dom (registry (ex r)) \<or> running r = Some i"

text \<open>Ids in use are below the next one.\<close>

definition ids_inv :: "'b exec_run \<Rightarrow> bool" where
  "ids_inv r \<longleftrightarrow> 1 \<le> next_id (ex r) \<and>
     (\<forall>i. i \<in># scheduled r \<or> task_queued (ex r) i \<or> alive r i \<or> i \<in> set (waking r) \<or> task_done (ex r) i \<longrightarrow> i < next_id (ex r))"

text \<open>An id is scheduled at most once, and then its flag is set.\<close>

definition once_inv :: "'b exec_run \<Rightarrow> bool" where
  "once_inv r \<longleftrightarrow> (\<forall>i. count (scheduled r) i \<le> (if task_queued (ex r) i then 1 else 0))"

text \<open>A live task whose flag is set is scheduled; the executor polls one task at a time.\<close>

definition live_inv :: "'b exec_run \<Rightarrow> bool" where
  "live_inv r \<longleftrightarrow> (popped r = None \<or> running r = None) \<and>
     (\<forall>i. running r = Some i \<longrightarrow> registry (ex r) i = None) \<and>
     (\<forall>i. alive r i \<longrightarrow> \<not> task_done (ex r) i \<and> (task_queued (ex r) i \<longrightarrow> i \<in># scheduled r)) \<and>
     (\<forall>i. 1 \<le> i \<and> i < next_id (ex r) \<and> \<not> task_done (ex r) i \<longrightarrow> alive r i)"

text \<open>A task that is owed a poll is being woken, or its flag is set.\<close>

definition owed_inv :: "'b exec_run \<Rightarrow> bool" where
  "owed_inv r \<longleftrightarrow> (\<forall>i \<in> owed r. 1 \<le> i \<and> i < next_id (ex r) \<and>
     (task_done (ex r) i \<or> i \<in> set (waking r) \<or> task_queued (ex r) i))"

lemmas run_defs = scheduled_def alive_def enqueue_def allocate_id_def

lemma invs_start: "ids_inv exec_start \<and> once_inv exec_start \<and> live_inv exec_start \<and> owed_inv exec_start"
  by (auto simp: ids_inv_def once_inv_def live_inv_def owed_inv_def run_defs exec_start_def executor_new_def)

lemma ids_inv_step: "exec_step r r1 \<Longrightarrow> ids_inv r \<Longrightarrow> ids_inv r1"
  by (erule exec_step.cases)
     (auto simp: ids_inv_def run_defs less_Suc_eq dest: notin_set_remove1 in_diffD split: if_splits option.splits)

lemma owed_inv_step:
  assumes "exec_step r r1" "owed_inv r"
  shows "owed_inv r1"
  using assms
proof (cases rule: exec_step.cases)
  case (wake_swap_queued i)
  have "j \<in> set (remove1 i (waking r))" if "j \<in> set (waking r)" "\<not> task_queued (ex r) j" for j
    using that wake_swap_queued(3) by (metis in_set_remove1)
  then show ?thesis using assms(2) wake_swap_queued by (auto simp: owed_inv_def)
qed (auto simp: owed_inv_def run_defs less_Suc_eq in_set_remove1 split: if_splits)

text \<open>The moves of an id between the places where it can be scheduled.\<close>

lemma scheduled_push:
  "i \<in> set (pushing r) \<Longrightarrow>
     scheduled (r\<lparr>pushing := remove1 i (pushing r), ex := (ex r)\<lparr>run_queue := run_queue (ex r) @ [i]\<rparr>\<rparr>) = scheduled r"
  by (simp add: scheduled_def)

lemma scheduled_pop:
  "popped r = None \<Longrightarrow> run_queue (ex r) = i # q \<Longrightarrow>
     scheduled (r\<lparr>popped := Some i, ex := (ex r)\<lparr>run_queue := q\<rparr>\<rparr>) = scheduled r"
  by (simp add: scheduled_def)

lemma scheduled_popped: "popped r = Some i \<Longrightarrow> scheduled r = add_mset i (scheduled (r\<lparr>popped := None\<rparr>))"
  by (simp add: scheduled_def)

lemma scheduled_fields [simp]:
  "scheduled (r\<lparr>waking := ws\<rparr>) = scheduled r" "scheduled (r\<lparr>owed := os\<rparr>) = scheduled r"
  "scheduled (r\<lparr>running := rn\<rparr>) = scheduled r"
  "scheduled (r\<lparr>ex := (ex r)\<lparr>task_queued := tq\<rparr>\<rparr>) = scheduled r"
  "scheduled (r\<lparr>ex := (ex r)\<lparr>task_done := td\<rparr>\<rparr>) = scheduled r"
  "scheduled (r\<lparr>ex := (ex r)\<lparr>registry := rg\<rparr>\<rparr>) = scheduled r"
  "scheduled (r\<lparr>ex := (ex r)\<lparr>registry := rg, task_queued := tq\<rparr>\<rparr>) = scheduled r"
  "scheduled (r\<lparr>pushing := i # pushing r, ex := (ex r)\<lparr>task_queued := tq\<rparr>\<rparr>) = add_mset i (scheduled r)"
  by (simp_all add: scheduled_def)

lemma once_invI:
  "(\<And>j. count (scheduled r) j \<le> 1) \<Longrightarrow> (\<And>j. \<not> task_queued (ex r) j \<Longrightarrow> count (scheduled r) j = 0) \<Longrightarrow> once_inv r"
  by (simp add: once_inv_def)

lemma once_invD:
  assumes "once_inv r"
  shows "count (scheduled r) j \<le> 1" "\<not> task_queued (ex r) j \<Longrightarrow> count (scheduled r) j = 0"
proof -
  have "count (scheduled r) j \<le> (if task_queued (ex r) j then 1 else 0)" using assms by (simp add: once_inv_def)
  then show "count (scheduled r) j \<le> 1" "\<not> task_queued (ex r) j \<Longrightarrow> count (scheduled r) j = 0"
    by (auto split: if_splits)
qed

lemma once_inv_step:
  assumes "exec_step r r1" "ids_inv r" "once_inv r"
  shows "once_inv r1"
  using assms(1)
proof (cases rule: exec_step.cases)
  case (wake_swap i)
  have "scheduled r1 = add_mset i (scheduled r)" using wake_swap(1) by (simp add: scheduled_def)
  moreover have "count (scheduled r) i = 0" by (rule once_invD(2)[OF assms(3) wake_swap(3)])
  ultimately show ?thesis
    using once_invD[OF assms(3)] wake_swap(1) by (intro once_invI) (auto split: if_splits)
next
  case (wake_push i)
  have "scheduled r1 = scheduled r" unfolding wake_push(1) by (rule scheduled_push[OF wake_push(2)])
  then show ?thesis using assms(3) wake_push(1) by (simp add: once_inv_def)
next
  case (spawn b)
  have "scheduled r1 = add_mset (next_id (ex r)) (scheduled r)"
    using spawn by (simp add: scheduled_def enqueue_def allocate_id_def)
  moreover have "next_id (ex r) \<notin># scheduled r" using assms(2) unfolding ids_inv_def by (metis less_irrefl)
  then have "count (scheduled r) (next_id (ex r)) = 0" by (simp add: not_in_iff)
  ultimately show ?thesis
    using once_invD[OF assms(3)] spawn(1)
    by (intro once_invI) (auto simp: enqueue_def allocate_id_def split: if_splits)
next
  case (pop i q)
  have "scheduled r1 = scheduled r" unfolding pop(1) by (rule scheduled_pop[OF pop(2,4)])
  then show ?thesis using assms(3) pop(1) by (simp add: once_inv_def)
next
  case (poll_gone i)
  have le: "count (scheduled r1) j \<le> count (scheduled r) j" for j
    unfolding poll_gone(1) scheduled_popped[OF poll_gone(2)] by simp
  show ?thesis unfolding once_inv_def
  proof
    fix j
    have "count (scheduled r) j \<le> (if task_queued (ex r) j then 1 else 0)" using assms(3) by (simp add: once_inv_def)
    then show "count (scheduled r1) j \<le> (if task_queued (ex r1) j then 1 else 0)"
      using le[of j] poll_gone(1) by simp
  qed
next
  case (poll_begin i b)
  have "scheduled r1 = scheduled (r\<lparr>popped := None\<rparr>)"
    unfolding poll_begin(1) by (simp add: scheduled_def)
  then have s: "scheduled r = add_mset i (scheduled r1)" using scheduled_popped[OF poll_begin(2)] by simp
  show ?thesis unfolding once_inv_def
  proof
    fix j
    have "count (scheduled r) j \<le> (if task_queued (ex r) j then 1 else 0)" using assms(3) by (simp add: once_inv_def)
    then show "count (scheduled r1) j \<le> (if task_queued (ex r1) j then 1 else 0)"
      unfolding s poll_begin(1) by (auto split: if_splits)
  qed
qed (use assms(3) in \<open>simp_all add: once_inv_def scheduled_def\<close>)

lemma live_invI:
  assumes "popped r = None \<or> running r = None" "\<And>i. running r = Some i \<Longrightarrow> registry (ex r) i = None"
    "\<And>i. alive r i \<Longrightarrow> \<not> task_done (ex r) i"
    "\<And>i. alive r i \<Longrightarrow> task_queued (ex r) i \<Longrightarrow> i \<in># scheduled r"
    "\<And>i. 1 \<le> i \<Longrightarrow> i < next_id (ex r) \<Longrightarrow> \<not> task_done (ex r) i \<Longrightarrow> alive r i"
  shows "live_inv r"
  using assms unfolding live_inv_def by blast

lemma live_invD:
  assumes "live_inv r"
  shows "popped r = None \<or> running r = None" "\<And>i. running r = Some i \<Longrightarrow> registry (ex r) i = None"
    "\<And>i. alive r i \<Longrightarrow> \<not> task_done (ex r) i"
    "\<And>i. alive r i \<Longrightarrow> task_queued (ex r) i \<Longrightarrow> i \<in># scheduled r"
    "\<And>i. 1 \<le> i \<Longrightarrow> i < next_id (ex r) \<Longrightarrow> \<not> task_done (ex r) i \<Longrightarrow> alive r i"
  using assms unfolding live_inv_def by auto

text \<open>Steps that move no task in or out of the registry, and schedule no less.\<close>

lemma live_inv_keep:
  assumes "live_inv r" "popped r1 = None \<or> running r1 = None" "running r1 = running r"
    "registry (ex r1) = registry (ex r)" "task_done (ex r1) = task_done (ex r)" "next_id (ex r1) = next_id (ex r)"
    "\<And>j. task_queued (ex r1) j \<Longrightarrow> j \<in># scheduled r1 \<or> task_queued (ex r) j \<and> scheduled r \<subseteq># scheduled r1"
  shows "live_inv r1"
proof -
  have al: "alive r1 j = alive r j" for j using assms(3,4) by (simp add: alive_def)
  show ?thesis
  proof (rule live_invI)
    fix j
    assume "alive r1 j" "task_queued (ex r1) j"
    then show "j \<in># scheduled r1"
      using assms(7)[of j] live_invD(4)[OF assms(1), of j] al by (auto dest: mset_subset_eqD)
  qed (use live_invD[OF assms(1)] assms(2-6) al in auto)
qed

lemma live_inv_spawn:
  assumes "popped r = None" "r1 = r\<lparr>ex := snd (enqueue b (ex r))\<rparr>" "ids_inv r" "live_inv r"
  shows "live_inv r1"
proof -
  note live = live_invD[OF assms(4)]
  have fresh: "\<not> alive r (next_id (ex r))" "\<not> task_done (ex r) (next_id (ex r))"
    using assms(3) unfolding ids_inv_def by (metis less_irrefl)+
  note spawn = assms(2,1)
  let ?n = "next_id (ex r)"
  have s: "scheduled r1 = add_mset ?n (scheduled r)"
    using spawn by (simp add: scheduled_def enqueue_def allocate_id_def)
  have al: "alive r1 j \<longleftrightarrow> j = ?n \<or> alive r j" for j
    using spawn by (auto simp: alive_def enqueue_def allocate_id_def)
  have fl: "task_done (ex r1) = (task_done (ex r))(?n := False)" "task_queued (ex r1) = (task_queued (ex r))(?n := True)"
      "next_id (ex r1) = Suc ?n" "running r1 = running r" "popped r1 = None"
      "registry (ex r1) = (registry (ex r))(?n \<mapsto> b)"
    using spawn by (simp_all add: enqueue_def allocate_id_def)
  show ?thesis
  proof (rule live_invI)
    fix j
    assume "running r1 = Some j"
    then have "running r = Some j" using fl by simp
    moreover from this have "j \<noteq> ?n" using fresh(1) by (auto simp: alive_def)
    ultimately show "registry (ex r1) j = None" using fl live(2) by simp
  next
    fix j
    assume "1 \<le> j" "j < next_id (ex r1)" "\<not> task_done (ex r1) j"
    then show "alive r1 j" using fl al live(5)[of j] by (auto simp: less_Suc_eq split: if_splits)
  qed (use live fl al s fresh in \<open>auto split: if_splits\<close>)
qed

lemma live_inv_poll_gone:
  assumes "popped r = Some i" "registry (ex r) i = None" "r1 = r\<lparr>popped := None\<rparr>" "ids_inv r" "live_inv r"
  shows "live_inv r1"
proof -
  note live = live_invD[OF assms(5)]
  note poll_gone = assms(3,1,2)
  have "running r = None" using live(1) poll_gone(2) by simp
  then have na: "\<not> alive r i" using poll_gone(3) by (auto simp: alive_def)
  have al: "alive r1 j = alive r j" for j using poll_gone(1) by (simp add: alive_def)
  show ?thesis
  proof (rule live_invI)
    fix j
    assume j: "alive r1 j" "task_queued (ex r1) j"
    then have "j \<in># scheduled r" using live(4) al poll_gone(1) by simp
    moreover have "j \<noteq> i" using j(1) al na by metis
    ultimately show "j \<in># scheduled r1" using scheduled_popped[OF poll_gone(2)] poll_gone(1) by simp
  qed (use live al poll_gone(1) in simp_all)
qed

lemma live_inv_poll_begin:
  assumes "popped r = Some i" "registry (ex r) i = Some b" "r1 = r\<lparr>popped := None, running := Some i, owed := owed r - {i},
       ex := (ex r)\<lparr>registry := (registry (ex r))(i := None), task_queued := (task_queued (ex r))(i := False)\<rparr>\<rparr>" "ids_inv r" "live_inv r"
  shows "live_inv r1"
proof -
  note live = live_invD[OF assms(5)]
  note poll_begin = assms(3,1,2)
  have "scheduled r1 = scheduled (r\<lparr>popped := None\<rparr>)"
    unfolding poll_begin(1) by (simp add: scheduled_def)
  then have s: "scheduled r = add_mset i (scheduled r1)" using scheduled_popped[OF poll_begin(2)] by simp
  have run: "running r = None" using live(1) poll_begin(2) by simp
  have al: "alive r1 j = alive r j" for j using poll_begin(1,3) run by (auto simp: alive_def)
  show ?thesis
  proof (rule live_invI)
    fix j
    assume j: "alive r1 j" "task_queued (ex r1) j"
    then have "j \<noteq> i" "task_queued (ex r) j" using poll_begin(1) by (auto split: if_splits)
    then have "j \<in># scheduled r" using live(4)[of j] al j(1) by simp
    then show "j \<in># scheduled r1" using s \<open>j \<noteq> i\<close> by simp
  qed (use live al poll_begin(1) in simp_all)
qed

lemma live_inv_step:
  assumes "exec_step r r1" "ids_inv r" "live_inv r"
  shows "live_inv r1"
proof -
  note live = live_invD[OF assms(3)]
  show ?thesis
    using assms(1)
  proof (cases rule: exec_step.cases)
    case (wake_load i)
    then show ?thesis using live(1) by (intro live_inv_keep[OF assms(3)]) simp_all
  next
    case (wake_swap_queued i)
    then show ?thesis using live(1) by (intro live_inv_keep[OF assms(3)]) simp_all
  next
    case (wake_swap i)
    have "scheduled r1 = add_mset i (scheduled r)" using wake_swap(1) by (simp add: scheduled_def)
    then show ?thesis
      using live(1) wake_swap(1) by (intro live_inv_keep[OF assms(3)]) (simp_all split: if_splits)
  next
    case (wake_push i)
    have "scheduled r1 = scheduled r" unfolding wake_push(1) by (rule scheduled_push[OF wake_push(2)])
    then show ?thesis using live(1) wake_push(1) by (intro live_inv_keep[OF assms(3)]) simp_all
  next
    case (spawn b)
    show ?thesis by (rule live_inv_spawn[OF spawn(2,1) assms(2,3)])
  next
    case (pop i q)
    have "scheduled r1 = scheduled r" unfolding pop(1) by (rule scheduled_pop[OF pop(2,4)])
    then show ?thesis using pop by (intro live_inv_keep[OF assms(3)]) simp_all
  next
    case (poll_gone i)
    show ?thesis by (rule live_inv_poll_gone[OF poll_gone(2,3,1) assms(2,3)])
  next
    case (poll_begin i b)
    show ?thesis by (rule live_inv_poll_begin[OF poll_begin(2,3,1) assms(2,3)])
  next
    case (poll_pending i b)
    have s: "scheduled r1 = scheduled r" using poll_pending(1) by (simp add: scheduled_def)
    have al: "alive r1 j = alive r j" for j using poll_pending(1,2) by (auto simp: alive_def)
    show ?thesis by (rule live_invI) (use live al s poll_pending(1) in simp_all)
  next
    case (poll_ready i)
    have s: "scheduled r1 = scheduled r" using poll_ready(1) by (simp add: scheduled_def)
    have al: "alive r1 j \<longleftrightarrow> j \<noteq> i \<and> alive r j" for j
      using poll_ready(1,2) live(2)[OF poll_ready(2)] by (auto simp: alive_def)
    show ?thesis by (rule live_invI) (use live al s poll_ready(1) in \<open>auto split: if_splits\<close>)
  next
    case (main_flag f)
    have "scheduled r1 = scheduled r" using main_flag by (simp add: scheduled_def)
    then show ?thesis using live(1) main_flag by (intro live_inv_keep[OF assms(3)]) simp_all
  qed
qed

lemma exec_reach_invs: "exec_reach r \<Longrightarrow> ids_inv r \<and> once_inv r \<and> live_inv r \<and> owed_inv r"
proof (induction rule: exec_reach.induct)
  case start
  show ?case by (rule invs_start)
next
  case (step r r1)
  then show ?case using ids_inv_step once_inv_step live_inv_step owed_inv_step by metis
qed

section \<open>Calls of the single thread\<close>

text \<open>Every call of the executor's own operations is a run of the steps.\<close>

lemma wake_runs:
  assumes "1 \<le> i" "i < next_id (ex r)"
  shows "exec_step\<^sup>*\<^sup>* r (r\<lparr>owed := (if task_done (ex r) i then owed r else insert i (owed r)),
    ex := wake_target (Task_Target i) (ex r)\<rparr>)"
proof (cases "task_done (ex r) i")
  case False
  let ?r1 = "r\<lparr>waking := i # waking r, owed := insert i (owed r)\<rparr>"
  have load: "exec_step r ?r1" by (rule wake_load[OF assms False])
  show ?thesis
  proof (cases "task_queued (ex r) i")
    case True
    have "exec_step ?r1 (?r1\<lparr>waking := remove1 i (waking ?r1)\<rparr>)"
      by (rule wake_swap_queued) (simp_all add: True)
    then show ?thesis using load False True by simp
  next
    case unqueued: False
    let ?r2 = "?r1\<lparr>waking := remove1 i (waking ?r1), pushing := i # pushing ?r1,
       ex := (ex ?r1)\<lparr>task_queued := (task_queued (ex ?r1))(i := True)\<rparr>\<rparr>"
    have "exec_step ?r1 ?r2" by (rule wake_swap) (simp_all add: unqueued)
    moreover have "exec_step ?r2 (?r2\<lparr>pushing := remove1 i (pushing ?r2), ex := (ex ?r2)\<lparr>run_queue := run_queue (ex ?r2) @ [i]\<rparr>\<rparr>)"
      by (rule wake_push) simp
    ultimately have "exec_step\<^sup>*\<^sup>* r (?r2\<lparr>pushing := remove1 i (pushing ?r2), ex := (ex ?r2)\<lparr>run_queue := run_queue (ex ?r2) @ [i]\<rparr>\<rparr>)"
      using load by (meson converse_rtranclp_into_rtranclp rtranclp.rtrancl_refl)
    then show ?thesis using False unqueued by simp
  qed
qed simp

text \<open>The marks of a state that a call does not touch.\<close>

definition same_marks :: "'b exec_run \<Rightarrow> 'b exec_run \<Rightarrow> bool" where
  "same_marks r r1 \<longleftrightarrow> waking r1 = waking r \<and> pushing r1 = pushing r \<and> popped r1 = popped r \<and> running r1 = running r"

lemma action_runs:
  assumes "popped r = None"
  shows "\<exists>r1. exec_step\<^sup>*\<^sup>* r r1 \<and> same_marks r r1 \<and> ex r1 = apply_action a (ex r)"
proof (cases a)
  case (Wake_Task i)
  show ?thesis
  proof (cases "1 \<le> i \<and> i < next_id (ex r)")
    case True
    then show ?thesis
      using wake_runs[of i r] Wake_Task
      by (intro exI[of _ "r\<lparr>owed := _, ex := wake_target (Task_Target i) (ex r)\<rparr>"])
        (auto simp: same_marks_def simp del: wake_target.simps)
  qed (use Wake_Task in \<open>auto simp: same_marks_def intro!: exI[of _ r]\<close>)
next
  case Wake_Main
  then show ?thesis
    using r_into_rtranclp[of exec_step, OF main_flag[of r True]]
    by (auto simp: same_marks_def wake_main_def
        intro!: exI[of _ "r\<lparr>ex := (ex r)\<lparr>main_notified := True\<rparr>\<rparr>"])
next
  case (Spawn_Task b)
  then show ?thesis
    using r_into_rtranclp[of exec_step, OF spawn[OF assms, of b]]
    by (auto simp: same_marks_def intro!: exI[of _ "r\<lparr>ex := snd (enqueue b (ex r))\<rparr>"])
qed

lemma actions_run:
  "popped r = None \<Longrightarrow> \<exists>r1. exec_step\<^sup>*\<^sup>* r r1 \<and> same_marks r r1 \<and> ex r1 = apply_actions acts (ex r)"
proof (induction acts arbitrary: r)
  case Nil
  then show ?case by (intro exI[of _ r]) (simp add: same_marks_def apply_actions_def)
next
  case (Cons a acts)
  obtain r1 where r1: "exec_step\<^sup>*\<^sup>* r r1" "same_marks r r1" "ex r1 = apply_action a (ex r)"
    using action_runs[OF Cons.prems] by blast
  then have "popped r1 = None" using Cons.prems by (simp add: same_marks_def)
  from Cons.IH[OF this] obtain r2 where r2: "exec_step\<^sup>*\<^sup>* r1 r2" "same_marks r1 r2" "ex r2 = apply_actions acts (ex r1)"
    by blast
  have "exec_step\<^sup>*\<^sup>* r r2" using r1(1) r2(1) by (rule rtranclp_trans)
  then show ?case using r1 r2 by (intro exI[of _ r2]) (simp add: same_marks_def apply_actions_def)
qed

lemma poll_task_runs:
  assumes "popped r = None" "running r = None" "run_queue (ex r) = i # q"
  shows "\<exists>r1. exec_step\<^sup>*\<^sup>* r r1 \<and> same_marks r r1 \<and> ex r1 = fst (poll_task poll i ((ex r)\<lparr>run_queue := q\<rparr>, w))"
proof -
  let ?r1 = "r\<lparr>popped := Some i, ex := (ex r)\<lparr>run_queue := q\<rparr>\<rparr>"
  have r1: "exec_step r ?r1" by (rule pop[OF assms])
  show ?thesis
  proof (cases "registry (ex r) i")
    case None
    have "exec_step ?r1 (?r1\<lparr>popped := None\<rparr>)" by (rule poll_gone[of _ i]) (simp_all add: None)
    with r1 have "exec_step\<^sup>*\<^sup>* r (?r1\<lparr>popped := None\<rparr>)" by simp
    then show ?thesis
      using None assms by (intro exI[of _ "?r1\<lparr>popped := None\<rparr>"]) (simp add: same_marks_def poll_task_def)
  next
    case (Some b)
    let ?r2 = "?r1\<lparr>popped := None, running := Some i, owed := owed ?r1 - {i},
       ex := (ex ?r1)\<lparr>registry := (registry (ex ?r1))(i := None), task_queued := (task_queued (ex ?r1))(i := False)\<rparr>\<rparr>"
    have "exec_step ?r1 ?r2" by (rule poll_begin) (simp_all add: Some)
    with r1 have r2: "exec_step\<^sup>*\<^sup>* r ?r2" by simp
    obtain acts res w1 where p: "poll b w = (acts, res, w1)" by (metis prod_cases3)
    have "popped ?r2 = None" by simp
    from actions_run[OF this] obtain r3 where r3: "exec_step\<^sup>*\<^sup>* ?r2 r3" "same_marks ?r2 r3" "ex r3 = apply_actions acts (ex ?r2)"
      by blast
    have mk: "running r3 = Some i" "popped r3 = None" using r3(2) by (simp_all add: same_marks_def)
    let ?r4 = "case res of None \<Rightarrow> r3\<lparr>running := None, ex := (ex r3)\<lparr>task_done := (task_done (ex r3))(i := True)\<rparr>\<rparr>
      | Some b1 \<Rightarrow> r3\<lparr>running := None, ex := (ex r3)\<lparr>registry := (registry (ex r3))(i \<mapsto> b1)\<rparr>\<rparr>"
    have "exec_step r3 ?r4" using poll_ready[OF mk] poll_pending[OF mk] by (cases res) simp_all
    with r2 r3(1) have "exec_step\<^sup>*\<^sup>* r ?r4" by simp
    then show ?thesis
      using r3(2,3) Some p assms
      by (intro exI[of _ ?r4]) (cases res; simp add: same_marks_def poll_task_def Let_def)
  qed
qed

lemma exec_reach_steps: "exec_step\<^sup>*\<^sup>* r r1 \<Longrightarrow> exec_reach r \<Longrightarrow> exec_reach r1"
  by (induction rule: rtranclp_induct) (auto intro: exec_reach.step)

lemma poll_scheduled_runs:
  "poll_scheduled_tasks poll ew = Some ew1 \<Longrightarrow>
     \<forall>r. ex r = fst ew \<and> popped r = None \<and> running r = None \<longrightarrow>
       (\<exists>r1. exec_step\<^sup>*\<^sup>* r r1 \<and> same_marks r r1 \<and> ex r1 = fst ew1)"
proof (rule poll_scheduled_tasks.raw_induct[of
      "\<lambda>poll ew ew1. \<forall>r. ex r = fst ew \<and> popped r = None \<and> running r = None \<longrightarrow>
         (\<exists>r1. exec_step\<^sup>*\<^sup>* r r1 \<and> same_marks r r1 \<and> ex r1 = fst ew1)"])
  fix self :: "('a, 'b) poll_fn \<Rightarrow> 'a executor \<times> 'b \<Rightarrow> ('a executor \<times> 'b) option" and poll ew res
  assume ih: "\<And>poll ew res. self poll ew = Some res \<Longrightarrow>
        \<forall>r. ex r = fst ew \<and> popped r = None \<and> running r = None \<longrightarrow>
          (\<exists>r1. exec_step\<^sup>*\<^sup>* r r1 \<and> same_marks r r1 \<and> ex r1 = fst res)"
    and eq: "(case run_queue (fst ew) of [] \<Rightarrow> Some ew
      | i # q \<Rightarrow> self poll (poll_task poll i ((fst ew)\<lparr>run_queue := q\<rparr>, snd ew))) = Some res"
  show "\<forall>r. ex r = fst ew \<and> popped r = None \<and> running r = None \<longrightarrow>
      (\<exists>r1. exec_step\<^sup>*\<^sup>* r r1 \<and> same_marks r r1 \<and> ex r1 = fst res)"
  proof (intro allI impI)
    fix r :: "'a exec_run"
    assume r: "ex r = fst ew \<and> popped r = None \<and> running r = None"
    show "\<exists>r1. exec_step\<^sup>*\<^sup>* r r1 \<and> same_marks r r1 \<and> ex r1 = fst res"
    proof (cases "run_queue (fst ew)")
      case Nil
      then show ?thesis using eq r by (intro exI[of _ r]) (simp add: same_marks_def)
    next
      case (Cons i q)
      obtain r1 where r1: "exec_step\<^sup>*\<^sup>* r r1" "same_marks r r1"
          "ex r1 = fst (poll_task poll i ((ex r)\<lparr>run_queue := q\<rparr>, snd ew))"
        using poll_task_runs[of r i q poll "snd ew"] r Cons by auto
      have "self poll (poll_task poll i ((fst ew)\<lparr>run_queue := q\<rparr>, snd ew)) = Some res" using eq Cons by simp
      from ih[OF this] r1 r obtain r2 where r2: "exec_step\<^sup>*\<^sup>* r1 r2" "same_marks r1 r2" "ex r2 = fst res"
        unfolding same_marks_def by metis
      have "exec_step\<^sup>*\<^sup>* r r2" using r1(1) r2(1) by (rule rtranclp_trans)
      then show ?thesis using r1(2) r2(2,3) by (intro exI[of _ r2]) (simp add: same_marks_def)
    qed
  qed
qed

end
