(* ===== verification/Async_Properties.thy ===== *)
theory Async_Properties
  imports Task_State Executor_Threads Fake_Io
begin

text \<open>
  The properties of tasks and their handles, of the executor and of the in-memory transports, over
  all interleavings of the threads involved.
\<close>

section \<open>Tasks\<close>

text \<open>
  C9: However the thread that completes (or drops) a task and the owner of its handle interleave, a
  poll never panics, a resolved handle has the delivered value or reports a cancellation, and a
  handle that waits while the task is over has been notified: its waker was registered in time.
\<close>
theorem join_no_lost_wakeup:
  assumes "task_reach v r"
  shows "consumer r \<noteq> Co_Panicked \<and>
    (\<forall>x. consumer r = Co_Resolved x \<longrightarrow> x = Joined v \<or> x = Was_Cancelled) \<and>
    (\<forall>w. consumer r = Co_Waiting w \<and> producer r \<in> {Pr_Completed, Pr_Done} \<longrightarrow> notified (shared r))"
  using task_reach_inv[OF assms] by (auto simp: flag_inv_def result_inv_def waker_inv_def)

text \<open>The poll registers its waker between the stores of the flag and of the result.\<close>

lemma demo_task_reach:
  fixes v :: 'a
  shows "\<exists>r. task_reach v r \<and> consumer r = Co_Waiting 7 \<and> producer r = Pr_Done"
proof -
  let ?r0 = "run_start :: 'a task_run"
  let ?r1 = "?r0\<lparr>consumer := after_load (flags (shared ?r0)) (Co_Saw_Pending 7)\<rparr>"
  let ?r2 = "?r1\<lparr>shared := store_result v (shared ?r1), producer := Pr_Result_Stored\<rparr>"
  let ?r3 = "?r2\<lparr>shared := register_waker 7 (shared ?r2), consumer := Co_Registered 7\<rparr>"
  let ?r4 = "?r3\<lparr>consumer := after_load (flags (shared ?r3)) (Co_Waiting 7)\<rparr>"
  let ?r5 = "?r4\<lparr>shared := store_flag Flag_Ready (shared ?r4), producer := Pr_Flag_Stored\<rparr>"
  let ?r6 = "?r5\<lparr>shared := wake_waiter (shared ?r5), producer := Pr_Completed\<rparr>"
  let ?r7 = "?r6\<lparr>producer := (if flags (shared ?r6) = Flag_Pending then Pr_Cancelling else Pr_Done)\<rparr>"
  note simps = run_start_def shared_new_def after_load_def
  have "task_reach v ?r0" by (rule task_reach.start)
  then have "task_reach v ?r1" by (rule task_reach.step[OF _ poll_load]) (simp add: run_start_def)
  then have "task_reach v ?r2" by (rule task_reach.step[OF _ complete_result]) (simp add: run_start_def)
  then have "task_reach v ?r3" by (rule task_reach.step[OF _ poll_register]) (simp add: simps)
  then have "task_reach v ?r4" by (rule task_reach.step[OF _ poll_reload]) simp
  then have "task_reach v ?r5" by (rule task_reach.step[OF _ complete_flag]) simp
  then have "task_reach v ?r6" by (rule task_reach.step[OF _ complete_wake]) simp
  then have "task_reach v ?r7" by (rule task_reach.step[OF _ drop_check]) simp
  then show ?thesis by (rule exI[of _ ?r7, OF conjI]) (simp add: simps)
qed

theorem join_no_lost_wakeup_witness:
  "\<exists>r. task_reach (5 :: nat) r \<and> consumer r = Co_Waiting 7 \<and> producer r = Pr_Done \<and> notified (shared r)"
proof -
  obtain r where r: "task_reach (5 :: nat) r" "consumer r = Co_Waiting 7" "producer r = Pr_Done"
    using demo_task_reach[of "5 :: nat"] by (elim exE conjE) (rule that)
  from join_no_lost_wakeup[OF r(1)] r(2,3) have "notified (shared r)" by simp
  with r show ?thesis by (intro exI[of _ r] conjI)
qed

text \<open>
  A completion overwrites a cancellation: after \<open>cancel\<close> the handle of a task that later
  completes resolves to the value, though the cancelled handle is to report the cancellation and the
  result is to be discarded.
\<close>
theorem completion_overrides_cancel:
  "join_poll w (shared_cancel shared_new) = Some (Ready Was_Cancelled, shared_cancel shared_new) \<and>
   (\<exists>s. join_poll w (completer_complete v (shared_cancel shared_new)) = Some (Ready (Joined v), s))"
proof -
  let ?s = "\<lparr>flags = Flag_Cancelled, task_result = None, waker_slot = None, woken = [], notified = False\<rparr>"
  have c: "shared_cancel shared_new = ?s"
    by (simp add: shared_cancel_def shared_new_def store_flag_def wake_waiter_def)
  have "completer_complete v ?s = ?s\<lparr>flags := Flag_Ready, task_result := Some v\<rparr>"
    by (simp add: completer_complete_def completer_drop_def shared_complete_def store_flag_def store_result_def
        wake_waiter_def)
  then show ?thesis unfolding c by (simp add: join_poll_def take_result_def)
qed

section \<open>The executor\<close>

text \<open>
  C7: A task whose waker has been called since its last poll began, from any thread and at any
  point of the executor's work, is on its way to another poll until it is done: the call has still
  to push it, or it is queued or just taken off the queue, in one place only; so an executor that is
  idle with an empty queue owes no task a poll.
\<close>
theorem executor_no_lost_wakeup:
  assumes "exec_reach r" "i \<in> owed r" "\<not> task_done (ex r) i"
  shows "(i \<in> set (waking r) \<or> i \<in># scheduled r) \<and> count (scheduled r) i \<le> 1 \<and>
    (popped r = None \<and> run_queue (ex r) = [] \<longrightarrow> i \<in> set (waking r) \<or> i \<in> set (pushing r))"
proof -
  have inv: "once_inv r" "live_inv r" "owed_inv r" using exec_reach_invs[OF assms(1)] by simp_all
  have i: "1 \<le> i" "i < next_id (ex r)" "i \<in> set (waking r) \<or> task_queued (ex r) i"
    using inv(3) assms(2,3) by (auto simp: owed_inv_def)
  have "i \<in> set (waking r) \<or> i \<in># scheduled r"
    using i(3) live_invD(4)[OF inv(2) live_invD(5)[OF inv(2) i(1,2) assms(3)]] by blast
  moreover have "count (scheduled r) i \<le> 1" by (rule once_invD(1)[OF inv(1)])
  ultimately show ?thesis by (auto simp: scheduled_def)
qed

text \<open>A task is spawned and taken off the queue, and its waker is called while it is polled.\<close>

lemma demo_exec_reach:
  "\<exists>r :: nat exec_run. exec_reach r \<and> 1 \<in> owed r \<and> \<not> task_done (ex r) 1 \<and> waking r = [] \<and> running r = Some 1"
proof -
  let ?r0 = "exec_start :: nat exec_run"
  let ?r1 = "?r0\<lparr>ex := snd (enqueue 0 (ex ?r0))\<rparr>"
  let ?r2 = "?r1\<lparr>popped := Some 1, ex := (ex ?r1)\<lparr>run_queue := []\<rparr>\<rparr>"
  let ?r3 = "?r2\<lparr>popped := None, running := Some 1, owed := owed ?r2 - {1},
       ex := (ex ?r2)\<lparr>registry := (registry (ex ?r2))(1 := None), task_queued := (task_queued (ex ?r2))(1 := False)\<rparr>\<rparr>"
  let ?r4 = "?r3\<lparr>owed := (if task_done (ex ?r3) 1 then owed ?r3 else insert 1 (owed ?r3)),
    ex := wake_target (Task_Target 1) (ex ?r3)\<rparr>"
  note simps = exec_start_def executor_new_def enqueue_def allocate_id_def
  have "exec_reach ?r0" by (rule exec_reach.start)
  then have "exec_reach ?r1" by (rule exec_reach.step[OF _ spawn]) (simp add: exec_start_def)
  then have "exec_reach ?r2" by (rule exec_reach.step[OF _ pop]) (simp_all add: simps)
  then have "exec_reach ?r3" by (rule exec_reach.step[OF _ poll_begin[where b = 0]]) (simp_all add: simps)
  moreover have "exec_step\<^sup>*\<^sup>* ?r3 ?r4" by (rule wake_runs) (simp_all add: simps)
  ultimately have "exec_reach ?r4" using exec_reach_steps by blast
  then show ?thesis by (rule exI[of _ ?r4, OF conjI]) (simp add: simps)
qed

theorem executor_no_lost_wakeup_witness:
  "\<exists>r :: nat exec_run. exec_reach r \<and> running r = Some 1 \<and> 1 \<in># scheduled r"
proof -
  obtain r :: "nat exec_run" where r: "exec_reach r" "1 \<in> owed r" "\<not> task_done (ex r) 1" "waking r = []" "running r = Some 1"
    using demo_exec_reach by blast
  from executor_no_lost_wakeup[OF r(1-3)] r show ?thesis by auto
qed

text \<open>
  C23: When the futures have only a bounded amount of work, \<open>run_until_stalled\<close> returns, with an
  empty queue and no registered task marked as queued, so that each task left can be woken again;
  and its run is one of the interleavings of the threads.
\<close>
theorem run_until_stalled_returns:
  assumes "bounded_work cost poll" "exec_ok e"
  shows "\<exists>e1 w1. run_until_stalled poll (e, w) = Some (e1, w1) \<and> exec_ok e1 \<and> run_queue e1 = [] \<and>
    (\<forall>i \<in> dom (registry e1). \<not> task_done e1 i \<and> \<not> task_queued e1 i) \<and>
    (\<forall>r. ex r = e \<and> popped r = None \<and> running r = None \<longrightarrow> (\<exists>r1. exec_step\<^sup>*\<^sup>* r r1 \<and> ex r1 = e1))"
proof -
  have "exec_ok (fst (e, w))" using assms(2) by simp
  then obtain e1 w1 where e1: "poll_scheduled_tasks poll (e, w) = Some (e1, w1)"
    using poll_scheduled_returns[OF assms(1), of "(e, w)"] by auto
  have ok: "exec_ok e1" "run_queue e1 = []" using poll_scheduled_ok[OF e1] assms(2) by simp_all
  have "\<not> task_done e1 i \<and> \<not> task_queued e1 i" if "registry e1 i = Some b" for i b
    using exec_okD(5,6)[OF ok(1) that] ok(2) by auto
  moreover have "\<forall>r. ex r = e \<and> popped r = None \<and> running r = None \<longrightarrow> (\<exists>r1. exec_step\<^sup>*\<^sup>* r r1 \<and> ex r1 = e1)"
    using poll_scheduled_runs[OF e1] by fastforce
  ultimately show ?thesis using e1 ok by (auto simp: run_until_stalled_def)
qed

text \<open>Futures that wake themselves a number of times: the task's id and how often still.\<close>

definition countdown :: "(nat \<times> nat, nat) poll_fn" where
  "countdown b w = (case b of (i, n) \<Rightarrow>
     if n = 0 then ([], None, w + 1) else ([Wake_Task i], Some (i, n - 1), w + 1))"

theorem run_until_stalled_returns_witness:
  "\<exists>e1 w1. run_until_stalled countdown (snd (enqueue (1, 2) executor_new), 0) = Some (e1, w1) \<and> run_queue e1 = []"
proof -
  have "bounded_work snd countdown" by (simp add: bounded_work_def countdown_def split_beta)
  from run_until_stalled_returns[OF this enqueue_ok[OF executor_new_ok], of "(1, 2)" 0] show ?thesis by blast
qed

text \<open>
  A task still queued when \<open>block_on\<close> returns stays registered and queued: nothing drops it.
\<close>

lemma block_on_keeps_queued_tasks:
  "\<exists>e. block_on poll (\<lambda>m w. ([Spawn_Task b], Inr v, w)) ext m (executor_new, w) = Some (v, e, w) \<and>
     run_queue e = [1] \<and> registry e 1 = Some b"
  by (simp add: block_on_def block_on_loop.simps poll_main_def apply_actions_def enqueue_def allocate_id_def executor_new_def)

section \<open>In-memory transports\<close>

text \<open>
  C24: Between the two ends of \<open>io_pair\<close>, used from any threads, no byte is lost, duplicated or
  reordered; a reader that has seen the end of the stream has received all of it; and a pending
  reader's waker has been called once there are bytes for it or the peer's shutdown is over.
\<close>
theorem fake_io_pipe:
  assumes "fake_reach r"
  shows "received r e @ q_bytes (queue_of (fake r) e) = sent r e \<and>
    (saw_eof r (other_end e) \<longrightarrow> closed_of (fake r) e \<and> received r e = sent r e) \<and>
    (\<forall>w n. parked r (other_end e) = Some (w, n) \<and>
       (q_bytes (queue_of (fake r) e) \<noteq> [] \<or> closed_of (fake r) e \<and> doing r e \<noteq> Fk_Closing) \<longrightarrow>
       w \<in> set (drop n (wake_log (fake r))))"
proof -
  have inv: "flow_inv r" "eof_inv r" "parked_inv r" "called_inv r" using fake_reach_inv[OF assms] by simp_all
  have flow: "received r e @ q_bytes (queue_of (fake r) e) = sent r e" using inv(1) by (simp add: flow_inv_def)
  have eof: "saw_eof r (other_end e) \<longrightarrow> closed_of (fake r) e \<and> q_bytes (queue_of (fake r) e) = []"
    using inv(2) by (simp add: eof_inv_def)
  have free: "q_reader (queue_of (fake r) e) = None"
    if "q_bytes (queue_of (fake r) e) \<noteq> [] \<or> closed_of (fake r) e \<and> doing r e \<noteq> Fk_Closing"
    using inv(3) that by (auto simp: parked_inv_def)
  have called: "q_reader (queue_of (fake r) e) = Some w \<or> w \<in> set (drop n (wake_log (fake r)))"
    if "parked r (other_end e) = Some (w, n)" for w n
    using inv(4) that unfolding called_inv_def by (metis other_end_simps(1))
  show ?thesis using flow eof free called by fastforce
qed

lemma demo_fake_reach:
  "\<exists>r. fake_reach r \<and> parked r End_B = Some (5, 0) \<and> q_bytes (queue_of (fake r) End_A) = [1]"
proof -
  let ?r0 = "fake_start"
  obtain p rb s where rd: "fake_poll_read 5 End_B (rb_new [0]) (fake ?r0) = Some (p, rb, s)"
      "p = Pending" "queue_of s End_A = \<lparr>q_bytes = [], q_reader = Some 5\<rparr>" "wake_log s = []"
      "closed_of s = (\<lambda>_. False)"
    by (simp add: fake_poll_read_def fake_start_def fake_pair_def set_queue_def Let_def)
  let ?r1 = "?r0\<lparr>fake := s, received := (received ?r0)(other_end End_B := received ?r0 (other_end End_B) @ rb_filled rb),
       parked := (parked ?r0)(End_B := (if p = Pending then Some (5, length (wake_log s)) else None)),
       saw_eof := (saw_eof ?r0)(End_B := saw_eof ?r0 End_B \<or> p \<noteq> Pending \<and> rb_filled rb = [])\<rparr>"
  let ?r2 = "?r1\<lparr>doing := (doing ?r1)(End_A := Fk_Writing [1])\<rparr>"
  let ?r3 = "?r2\<lparr>fake := push_bytes End_A [1] (fake ?r2), doing := (doing ?r2)(End_A := Fk_Idle),
       sent := (sent ?r2)(End_A := sent ?r2 End_A @ [1])\<rparr>"
  have "fake_reach ?r0" by (rule fake_reach.start)
  then have "fake_reach ?r1" by (rule fake_reach.step[OF _ read[OF _ _ rd(1)]]) (simp_all add: fake_start_def)
  then have "fake_reach ?r2"
    by (rule fake_reach.step[OF _ write_load]) (simp_all add: fake_start_def peer_gone_def rd(5))
  then have "fake_reach ?r3" by (rule fake_reach.step[OF _ write_push]) simp
  then show ?thesis by (rule exI[of _ ?r3, OF conjI]) (simp add: rd)
qed

theorem fake_io_pipe_witness:
  "\<exists>r. fake_reach r \<and> received r End_A @ [1] = sent r End_A \<and> 5 \<in> set (wake_log (fake r))"
proof -
  obtain r where r: "fake_reach r" "parked r End_B = Some (5, 0)" "q_bytes (queue_of (fake r) End_A) = [1]"
    using demo_fake_reach by blast
  show ?thesis using fake_io_pipe[OF r(1), of End_A] r by auto
qed

end
