(* ===== verification/Spawned_Tasks.thy ===== *)
theory Spawned_Tasks
  imports Executor Task_State
begin

text \<open>
  Where the executor meets the task handles (\<open>spawn_erased\<close> and the spawn traits of
  \<open>crates/tpt-async-executor/src/lib.rs\<close> over \<open>Completer\<close> and \<open>JoinHandle\<close> of
  \<open>crates/tpt-async-core/src/task.rs\<close>).  A poll of the caller's future is a program of calls to this
  interface, each continued with what the call returned; the rest of the model is the code's.
\<close>

section \<open>Programs of a poll\<close>

text \<open>
  A poll ends by being pending, with what is left of the future, by being ready with the output, or by
  a panic.  Before it may spawn a future, poll a handle, cancel through a handle or drop a \<open>Task\<close>, call
  a waker, and use memory that the futures share (\<open>'u\<close>).  Locals of a future that finishes are dropped
  before its output is delivered, so a \<open>Task\<close> among them is dropped by the program.
\<close>

datatype spawn_error = Spawn_Error

datatype ('f, 'v, 'u) poll_prog =
    Pend 'f
  | Finish 'v
  | Panic
  | Do_Spawn 'f "spawn_error + nat \<Rightarrow> ('f, 'v, 'u) poll_prog"
  | Do_Poll nat "'v join_result poll \<Rightarrow> ('f, 'v, 'u) poll_prog"
  | Do_Cancel nat "('f, 'v, 'u) poll_prog"
  | Do_Drop_Task nat "('f, 'v, 'u) poll_prog"
  | Do_Wake nat "('f, 'v, 'u) poll_prog"
  | Do_Shared "'u \<Rightarrow> 'u" "'u \<Rightarrow> ('f, 'v, 'u) poll_prog"

text \<open>What a future does when it is polled with a waker.\<close>

type_synonym ('f, 'v, 'u) user_future = "nat \<Rightarrow> 'f \<Rightarrow> ('f, 'v, 'u) poll_prog"

section \<open>Handles\<close>

text \<open>
  The shared states that have been allocated, by number.  A spawn allocates one shared state and one
  task id, so both are the same number as long as futures are spawned by \<open>spawn_erased\<close> alone, which
  \<open>spawned_inv\<close> below states.  A waker is named by the id of its task, the main future's by 0, an id
  that is never allocated.

  No operation reads the last four fields.  \<open>outputs\<close> is what each task completed with, \<open>joined\<close> what
  polls of handles have returned, \<open>waits i\<close> the handles that were pending in the last poll of the task
  \<open>i\<close> and where no other task has registered since, and \<open>panicked\<close> says that a poll has panicked:  the
  panic would unwind the executor's loop, which the model does not follow any further.
\<close>

record ('v, 'u) spawn_world =
  handles :: "nat \<Rightarrow> 'v shared_state"
  next_handle :: nat
  user_state :: 'u
  outputs :: "nat \<Rightarrow> 'v option"
  joined :: "(nat \<times> 'v) set"
  waits :: "nat \<Rightarrow> nat set"
  panicked :: bool

definition spawn_world_new :: "'u \<Rightarrow> ('v, 'u) spawn_world" where
  "spawn_world_new u = \<lparr>handles = (\<lambda>_. shared_new), next_handle = 1, user_state = u,
     outputs = (\<lambda>_. None), joined = {}, waits = (\<lambda>_. {}), panicked = False\<rparr>"

definition completer_new :: "('v, 'u) spawn_world \<Rightarrow> nat \<times> ('v, 'u) spawn_world" where
  "completer_new w =
     (next_handle w, w\<lparr>next_handle := next_handle w + 1, handles := (handles w)(next_handle w := shared_new)\<rparr>)"

text \<open>No program has a handle that has not been allocated, so a call that names one is none.\<close>

definition allocated :: "nat \<Rightarrow> ('v, 'u) spawn_world \<Rightarrow> bool" where
  "allocated h w \<longleftrightarrow> 1 \<le> h \<and> h < next_handle w"

definition waker_action :: "nat \<Rightarrow> 'b task_action" where
  "waker_action k = (if k = 0 then Wake_Main else Wake_Task k)"

text \<open>The wakers that an operation on a shared state has called.\<close>

definition wakes_between :: "'v shared_state \<Rightarrow> 'v shared_state \<Rightarrow> 'b task_action list" where
  "wakes_between s s1 = map waker_action (drop (length (woken s)) (woken s1))"

definition on_handle ::
  "nat \<Rightarrow> ('v shared_state \<Rightarrow> 'v shared_state) \<Rightarrow> ('v, 'u) spawn_world \<Rightarrow> 'b task_action list \<times> ('v, 'u) spawn_world" where
  "on_handle h op w =
     (if allocated h w
      then (wakes_between (handles w h) (op (handles w h)), w\<lparr>handles := (handles w)(h := op (handles w h))\<rparr>)
      else ([], w))"

section \<open>Spawning\<close>

text \<open>The task's body is the future with the completer that it owns.\<close>

definition spawn_erased ::
  "'f \<Rightarrow> ('v, 'u) spawn_world \<Rightarrow> nat \<times> (nat \<times> 'f) task_action list \<times> ('v, 'u) spawn_world" where
  "spawn_erased f w = (case completer_new w of (h, w1) \<Rightarrow> (h, [Spawn_Task (h, f)], w1))"

definition spawn ::
  "'f \<Rightarrow> ('v, 'u) spawn_world \<Rightarrow> (spawn_error + nat) \<times> (nat \<times> 'f) task_action list \<times> ('v, 'u) spawn_world" where
  "spawn f w = (case spawn_erased f w of (h, acts, w1) \<Rightarrow> (Inr h, acts, w1))"

definition spawn_local ::
  "'f \<Rightarrow> ('v, 'u) spawn_world \<Rightarrow> (spawn_error + nat) \<times> (nat \<times> 'f) task_action list \<times> ('v, 'u) spawn_world" where
  "spawn_local f w = (case spawn_erased f w of (h, acts, w1) \<Rightarrow> (Inr h, acts, w1))"

text \<open>\<open>Task\<close> is the handle in another type.\<close>

definition spawn_task_erased ::
  "'f \<Rightarrow> ('v, 'u) spawn_world \<Rightarrow> nat \<times> (nat \<times> 'f) task_action list \<times> ('v, 'u) spawn_world" where
  "spawn_task_erased f w = spawn_erased f w"

definition spawn_task ::
  "'f \<Rightarrow> ('v, 'u) spawn_world \<Rightarrow> nat \<times> (nat \<times> 'f) task_action list \<times> ('v, 'u) spawn_world" where
  "spawn_task f w = spawn_task_erased f w"

definition spawn_task_local ::
  "'f \<Rightarrow> ('v, 'u) spawn_world \<Rightarrow> nat \<times> (nat \<times> 'f) task_action list \<times> ('v, 'u) spawn_world" where
  "spawn_task_local f w = spawn_task_erased f w"

text \<open>
  The five ways to spawn do the same, so a program has one: \<open>spawn_local\<close> differs in the bounds of its
  type, and a \<open>Task\<close> is dropped by \<open>Do_Drop_Task\<close>.
\<close>

section \<open>Polls\<close>

definition note_poll :: "nat \<Rightarrow> nat \<Rightarrow> 'v join_result poll \<Rightarrow> ('v, 'u) spawn_world \<Rightarrow> ('v, 'u) spawn_world" where
  "note_poll k h r w =
     (case r of
        Pending \<Rightarrow> w\<lparr>waits := (\<lambda>i. if i = k then insert h (waits w i) else waits w i - {h})\<rparr>
      | Ready (Joined v) \<Rightarrow> w\<lparr>joined := insert (h, v) (joined w)\<rparr>
      | Ready Was_Cancelled \<Rightarrow> w)"

definition handle_poll ::
  "nat \<Rightarrow> nat \<Rightarrow> ('v, 'u) spawn_world \<Rightarrow> ('v join_result poll \<times> ('v, 'u) spawn_world) option" where
  "handle_poll k h w =
     (case if allocated h w then join_poll k (handles w h) else None of
        None \<Rightarrow> None
      | Some (r, s) \<Rightarrow> Some (r, note_poll k h r (w\<lparr>handles := (handles w)(h := s)\<rparr>)))"

text \<open>
  A poll with waker \<open>k\<close>: what it did to the executor, what became of the future (\<open>None\<close> after a panic)
  and the world.
\<close>

primrec run_prog ::
  "nat \<Rightarrow> ('f, 'v, 'u) poll_prog \<Rightarrow> ('v, 'u) spawn_world \<Rightarrow>
     (nat \<times> 'f) task_action list \<times> ('f + 'v) option \<times> ('v, 'u) spawn_world" where
  "run_prog k (Pend f) w = ([], Some (Inl f), w)"
| "run_prog k (Finish v) w = ([], Some (Inr v), w)"
| "run_prog k Panic w = ([], None, w)"
| "run_prog k (Do_Spawn f g) w =
     (case spawn f w of (h, acts, w1) \<Rightarrow>
        (case run_prog k (g h) w1 of (acts1, r) \<Rightarrow> (acts @ acts1, r)))"
| "run_prog k (Do_Poll h g) w =
     (case handle_poll k h w of
        None \<Rightarrow> ([], None, w)
      | Some (r, w1) \<Rightarrow> run_prog k (g r) w1)"
| "run_prog k (Do_Cancel h p) w =
     (case on_handle h shared_cancel w of (acts, w1) \<Rightarrow>
        (case run_prog k p w1 of (acts1, r) \<Rightarrow> (acts @ acts1, r)))"
| "run_prog k (Do_Drop_Task h p) w =
     (case on_handle h task_drop w of (acts, w1) \<Rightarrow>
        (case run_prog k p w1 of (acts1, r) \<Rightarrow> (acts @ acts1, r)))"
| "run_prog k (Do_Wake j p) w =
     (case run_prog k p w of (acts1, r) \<Rightarrow> (waker_action j # acts1, r))"
| "run_prog k (Do_Shared f g) w = run_prog k (g (user_state w)) (w\<lparr>user_state := f (user_state w)\<rparr>)"

definition note_output :: "nat \<Rightarrow> 'v \<Rightarrow> ('v, 'u) spawn_world \<Rightarrow> ('v, 'u) spawn_world" where
  "note_output h v w = w\<lparr>outputs := (outputs w)(h \<mapsto> v)\<rparr>"

definition begin_poll :: "nat \<Rightarrow> ('v, 'u) spawn_world \<Rightarrow> ('v, 'u) spawn_world" where
  "begin_poll k w = w\<lparr>waits := (waits w)(k := {})\<rparr>"

text \<open>The body that \<open>spawn_erased\<close> builds: \<open>completer.complete(future.await)\<close>.\<close>

definition spawned_poll ::
  "('f, 'v, 'u) user_future \<Rightarrow> (nat \<times> 'f, ('v, 'u) spawn_world) poll_fn" where
  "spawned_poll user body w =
     (case body of (h, f) \<Rightarrow>
        (case run_prog h (user h f) (begin_poll h w) of
           (acts, Some (Inl f1), w1) \<Rightarrow> (acts, Some (h, f1), w1)
         | (acts, Some (Inr v), w1) \<Rightarrow>
             (case on_handle h (completer_complete v) w1 of
                (wakes, w2) \<Rightarrow> (acts @ wakes, None, note_output h v w2))
         | (acts, None, w1) \<Rightarrow>
             (case on_handle h completer_drop w1 of
                (wakes, w2) \<Rightarrow> (acts @ wakes, None, w2\<lparr>panicked := True\<rparr>))))"

text \<open>The main future of \<open>block_on\<close>; \<open>None\<close> is its panic.\<close>

definition main_poll ::
  "('f, 'v, 'u) user_future \<Rightarrow> 'f \<Rightarrow> ('v, 'u) spawn_world \<Rightarrow>
     (nat \<times> 'f) task_action list \<times> ('f + 'v option) \<times> ('v, 'u) spawn_world" where
  "main_poll user f w =
     (case run_prog 0 (user 0 f) (begin_poll 0 w) of
        (acts, Some (Inl f1), w1) \<Rightarrow> (acts, Inl f1, w1)
      | (acts, Some (Inr v), w1) \<Rightarrow> (acts, Inr (Some v), w1)
      | (acts, None, w1) \<Rightarrow> (acts, Inr None, w1\<lparr>panicked := True\<rparr>))"

section \<open>Wakers that are called\<close>

text \<open>A task that is going to be polled again, or is finished; the main future is 0.\<close>

definition roused :: "'b executor \<Rightarrow> nat \<Rightarrow> bool" where
  "roused e i \<longleftrightarrow> (if i = 0 then main_notified e else task_queued e i \<or> task_done e i)"

lemma roused_apply_action: "roused e i \<Longrightarrow> roused (apply_action a e) i"
  by (cases a) (auto simp: roused_def wake_main_def enqueue_def allocate_id_def)

lemma roused_apply_actions: "roused e i \<Longrightarrow> roused (apply_actions acts e) i"
  unfolding apply_actions_def by (induction acts arbitrary: e) (auto intro: roused_apply_action)

lemma waker_action_rouses: "k < next_id e \<Longrightarrow> roused (apply_action (waker_action k) e) k"
  by (auto simp: roused_def waker_action_def wake_main_def)

lemma waker_action_fields [simp]:
  "registry (apply_action (waker_action k) e) = registry e"
  "next_id (apply_action (waker_action k) e) = next_id e"
  "task_done (apply_action (waker_action k) e) = task_done e"
  by (simp_all add: waker_action_def wake_main_def)

lemma waker_actions_fields [simp]:
  "registry (apply_actions (map waker_action ks) e) = registry e"
  "next_id (apply_actions (map waker_action ks) e) = next_id e"
  "task_done (apply_actions (map waker_action ks) e) = task_done e"
  by (induction ks arbitrary: e) (simp_all add: apply_actions_def)

lemma apply_actions_append [simp]: "apply_actions (a @ b) e = apply_actions b (apply_actions a e)"
  by (simp add: apply_actions_def)

lemma apply_actions_simps [simp]:
  "apply_actions [] e = e" "apply_actions (a # acts) e = apply_actions acts (apply_action a e)"
  by (simp_all add: apply_actions_def)

text \<open>What every operation that ends a task's waiting does: it changes nothing, or it sets the flag and wakes.\<close>

definition settles :: "'v shared_state \<Rightarrow> 'v shared_state \<Rightarrow> bool" where
  "settles s s1 \<longleftrightarrow> s1 = s \<or>
     flags s1 \<noteq> Flag_Pending \<and> waker_slot s1 = None \<and>
     woken s1 = woken s @ (case waker_slot s of None \<Rightarrow> [] | Some k \<Rightarrow> [k])"

lemmas shared_ops = shared_complete_def shared_cancel_def wake_waiter_def store_flag_def store_result_def

lemma settles_ops:
  "settles s (shared_cancel s)" "settles s (completer_drop s)" "settles s (task_drop s)"
  "settles s (completer_complete v s)"
  by (auto simp: settles_def shared_ops completer_drop_def task_drop_def completer_complete_def split: option.splits)

lemma task_result_ops:
  "task_result (shared_cancel s) = task_result s" "task_result (completer_drop s) = task_result s"
  "task_result (task_drop s) = task_result s" "task_result (completer_complete v s) = Some v"
  by (auto simp: shared_cancel_def shared_complete_def completer_drop_def task_drop_def completer_complete_def)

lemma completer_complete_flags: "flags (completer_complete v s) = Flag_Ready"
  by (simp add: completer_complete_def completer_drop_def shared_complete_def)

lemma settles_rouses:
  assumes "settles s s1" "\<And>k. waker_slot s = Some k \<Longrightarrow> k < next_id e" "waker_slot s = Some i"
  shows "waker_slot s1 = Some i \<or> roused (apply_actions (wakes_between s s1) e) i"
  using assms waker_action_rouses[of i e] by (auto simp: settles_def wakes_between_def)

section \<open>The invariant\<close>

text \<open>
  On handles: a registered waker is one of a pending task; a result that has been stored or handed out
  is what the task completed with; and whoever waits for a handle is registered with it or will be
  polled again.
\<close>

definition join_inv :: "'b executor \<Rightarrow> ('v, 'u) spawn_world \<Rightarrow> bool" where
  "join_inv e w \<longleftrightarrow> next_handle w = next_id e \<and> 1 \<le> next_id e \<and>
     (\<forall>h k. waker_slot (handles w h) = Some k \<longrightarrow> flags (handles w h) = Flag_Pending \<and> k < next_id e) \<and>
     (\<forall>h v. task_result (handles w h) = Some v \<longrightarrow> outputs w h = Some v) \<and>
     (\<forall>h v. outputs w h = Some v \<longrightarrow> flags (handles w h) \<noteq> Flag_Pending \<and> h < next_id e) \<and>
     (\<forall>h v. (h, v) \<in> joined w \<longrightarrow> outputs w h = Some v) \<and>
     (\<forall>i h. h \<in> waits w i \<longrightarrow> 1 \<le> h \<and> h < next_id e \<and> (waker_slot (handles w h) = Some i \<or> roused e i))"

lemma join_invI:
  assumes "next_handle w = next_id e" "1 \<le> next_id e"
    "\<And>h k. waker_slot (handles w h) = Some k \<Longrightarrow> flags (handles w h) = Flag_Pending"
    "\<And>h k. waker_slot (handles w h) = Some k \<Longrightarrow> k < next_id e"
    "\<And>h v. task_result (handles w h) = Some v \<Longrightarrow> outputs w h = Some v"
    "\<And>h v. outputs w h = Some v \<Longrightarrow> flags (handles w h) \<noteq> Flag_Pending"
    "\<And>h v. outputs w h = Some v \<Longrightarrow> h < next_id e"
    "\<And>h v. (h, v) \<in> joined w \<Longrightarrow> outputs w h = Some v"
    "\<And>i h. h \<in> waits w i \<Longrightarrow> 1 \<le> h \<and> h < next_id e"
    "\<And>i h. h \<in> waits w i \<Longrightarrow> waker_slot (handles w h) = Some i \<or> roused e i"
  shows "join_inv e w"
  unfolding join_inv_def using assms by blast

lemma join_invD:
  assumes "join_inv e w"
  shows "next_handle w = next_id e" "1 \<le> next_id e"
    "\<And>h k. waker_slot (handles w h) = Some k \<Longrightarrow> flags (handles w h) = Flag_Pending"
    "\<And>h k. waker_slot (handles w h) = Some k \<Longrightarrow> k < next_id e"
    "\<And>h v. task_result (handles w h) = Some v \<Longrightarrow> outputs w h = Some v"
    "\<And>h v. outputs w h = Some v \<Longrightarrow> flags (handles w h) \<noteq> Flag_Pending"
    "\<And>h v. outputs w h = Some v \<Longrightarrow> h < next_id e"
    "\<And>h v. (h, v) \<in> joined w \<Longrightarrow> outputs w h = Some v"
    "\<And>i h. h \<in> waits w i \<Longrightarrow> 1 \<le> h \<and> h < next_id e"
    "\<And>i h. h \<in> waits w i \<Longrightarrow> waker_slot (handles w h) = Some i \<or> roused e i"
  using assms unfolding join_inv_def by blast+

text \<open>
  On tasks, while the task \<open>pol\<close> is polled (0 for none): it is out of the registry, and the tasks
  without an output are those in the registry and \<open>pol\<close>.
\<close>

definition own_inv :: "nat \<Rightarrow> (nat \<times> 'f) executor \<Rightarrow> ('v, 'u) spawn_world \<Rightarrow> bool" where
  "own_inv pol e w \<longleftrightarrow> exec_ok e \<and> (pol \<noteq> 0 \<longrightarrow> polling_ok pol e) \<and>
     (\<forall>h b. registry e h = Some b \<longrightarrow> fst b = h \<and> h \<noteq> 0 \<and> outputs w h = None) \<and>
     (pol \<noteq> 0 \<longrightarrow> outputs w pol = None) \<and>
     (panicked w \<or> (\<forall>h. 1 \<le> h \<and> h < next_id e \<and> outputs w h = None \<longrightarrow> registry e h \<noteq> None \<or> h = pol))"

lemma own_invD:
  assumes "own_inv pol e w"
  shows "exec_ok e" "pol \<noteq> 0 \<Longrightarrow> polling_ok pol e" "\<And>h b. registry e h = Some b \<Longrightarrow> fst b = h"
    "\<And>h b. registry e h = Some b \<Longrightarrow> h \<noteq> 0" "\<And>h b. registry e h = Some b \<Longrightarrow> outputs w h = None"
    "pol \<noteq> 0 \<Longrightarrow> outputs w pol = None"
    "\<And>h. \<not> panicked w \<Longrightarrow> 1 \<le> h \<Longrightarrow> h < next_id e \<Longrightarrow> outputs w h = None \<Longrightarrow> registry e h \<noteq> None \<or> h = pol"
  using assms unfolding own_inv_def by blast+

definition spawned_inv :: "nat \<Rightarrow> (nat \<times> 'f) executor \<Rightarrow> ('v, 'u) spawn_world \<Rightarrow> bool" where
  "spawned_inv pol e w \<longleftrightarrow> join_inv e w \<and> own_inv pol e w"

lemma spawned_inv_start: "spawned_inv 0 executor_new (spawn_world_new u)"
  by (simp add: spawned_inv_def own_inv_def executor_new_ok)
     (auto simp: join_inv_def spawn_world_new_def executor_new_def shared_new_def)

lemma join_inv_handle:
  assumes inv: "join_inv e w" and s: "settles (handles w h) s1"
    and out: "outs = outputs w \<and> task_result s1 = task_result (handles w h) \<or>
      outs = (outputs w)(h \<mapsto> v) \<and> outputs w h = None \<and> task_result s1 = Some v \<and> flags s1 \<noteq> Flag_Pending \<and> h < next_id e"
  shows "join_inv (apply_actions (wakes_between (handles w h) s1) e)
    (w\<lparr>handles := (handles w)(h := s1), outputs := outs\<rparr>)" (is "join_inv ?e ?w")
proof -
  note D = join_invD[OF inv]
  have [simp]: "next_id ?e = next_id e" by (simp add: wakes_between_def)
  have slot: "waker_slot s1 = Some k \<Longrightarrow> s1 = handles w h" for k using s by (auto simp: settles_def)
  have flag: "flags (handles w h) \<noteq> Flag_Pending \<Longrightarrow> flags s1 \<noteq> Flag_Pending" using s by (auto simp: settles_def)
  have mono: "outputs w a = Some b \<Longrightarrow> outs a = Some b" for a b using out by (auto split: if_splits)
  have new: "outs a = Some b \<Longrightarrow> outputs w a = Some b \<or> a = h \<and> flags s1 \<noteq> Flag_Pending \<and> h < next_id e" for a b
    using out by (auto split: if_splits)
  have res: "task_result s1 = Some b \<Longrightarrow> outs h = Some b" for b using out D(5)[of h b] by auto
  show ?thesis
  proof (rule join_invI)
    fix i a assume a: "a \<in> waits ?w i"
    show "waker_slot (handles ?w a) = Some i \<or> roused ?e i"
      using D(10)[of a i] a settles_rouses[OF s, of e i] D(4)[of h] roused_apply_actions[of e i] by fastforce
  next
    fix a k assume "waker_slot (handles ?w a) = Some k"
    then show "flags (handles ?w a) = Flag_Pending" "k < next_id ?e"
      using slot[of k] D(3,4)[of a k] by (auto split: if_splits)
  next
    fix a b assume "task_result (handles ?w a) = Some b"
    then show "outputs ?w a = Some b" using res[of b] D(5)[of a b] mono by (auto split: if_splits)
  next
    fix a b assume "outputs ?w a = Some b"
    then show "flags (handles ?w a) \<noteq> Flag_Pending" "a < next_id ?e"
      using new[of a b] D(6,7)[of a b] flag by auto
  next
    fix a b assume "(a, b) \<in> joined ?w"
    then show "outputs ?w a = Some b" using D(8)[of a b] mono by simp
  qed (use D(1,2,9) in auto)
qed

section \<open>The operations keep it\<close>

lemma join_inv_roused:
  assumes "join_inv e w" "next_id e1 = next_id e" "\<And>i. roused e i \<Longrightarrow> roused e1 i"
  shows "join_inv e1 w"
  using join_invD[OF assms(1)] assms(2,3) by (intro join_invI) fastforce+

lemma join_inv_begin:
  assumes "join_inv e w" "next_id e1 = next_id e" "\<And>i. i \<noteq> k \<Longrightarrow> roused e i \<Longrightarrow> roused e1 i"
  shows "join_inv e1 (begin_poll k w)"
  using join_invD[OF assms(1)] assms(2,3) unfolding begin_poll_def by (intro join_invI) (fastforce split: if_splits)+

lemma join_inv_waker: "join_inv e w \<Longrightarrow> join_inv (apply_action (waker_action j) e) w"
  by (erule join_inv_roused) (simp_all add: roused_apply_action)

lemma own_inv_waker: "own_inv pol e w \<Longrightarrow> own_inv pol (apply_action (waker_action j) e) w"
  unfolding own_inv_def using apply_action_ok[of e "waker_action j"] apply_action_polling[of pol e "waker_action j"] by simp

lemma own_inv_wakers: "own_inv pol e w \<Longrightarrow> own_inv pol (apply_actions (map waker_action ks) e) w"
  by (induction ks arbitrary: e) (simp_all add: own_inv_waker)

lemma own_inv_handles: "own_inv pol e (w\<lparr>handles := hs\<rparr>) \<longleftrightarrow> own_inv pol e w"
  by (simp add: own_inv_def)

lemma spawned_inv_on_handle:
  assumes "spawned_inv pol e w" "on_handle h op w = (acts, w1)"
    "settles (handles w h) (op (handles w h))" "task_result (op (handles w h)) = task_result (handles w h)"
  shows "spawned_inv pol (apply_actions acts e) w1"
proof (cases "allocated h w")
  case True
  then have w1: "acts = wakes_between (handles w h) (op (handles w h))"
    "w1 = w\<lparr>handles := (handles w)(h := op (handles w h)), outputs := outputs w\<rparr>"
    using assms(2) by (auto simp: on_handle_def)
  have "join_inv e w" "own_inv pol e w" using assms(1) by (simp_all add: spawned_inv_def)
  then show ?thesis
    unfolding spawned_inv_def w1
    using join_inv_handle[OF _ assms(3), of e "outputs w"] assms(4) own_inv_wakers[of pol e w]
    by (simp add: wakes_between_def own_inv_def)
qed (use assms(1,2) in \<open>auto simp: on_handle_def\<close>)

lemma run_on_handle:
  assumes "spawned_inv pol e w" "on_handle h op w = (acts, w1)" "op = shared_cancel \<or> op = task_drop"
  shows "spawned_inv pol (apply_actions acts e) w1 \<and> panicked w1 = panicked w \<and> next_id (apply_actions acts e) = next_id e"
proof -
  have "settles (handles w h) (op (handles w h))" "task_result (op (handles w h)) = task_result (handles w h)"
    using assms(3) settles_ops(1,3) task_result_ops(1,3) by auto
  then show ?thesis
    using spawned_inv_on_handle[OF assms(1,2)] assms(2) by (auto simp: on_handle_def wakes_between_def split: if_splits)
qed

lemma spawned_inv_spawn:
  assumes "spawned_inv pol e w" "spawn f w = (r, acts, w1)"
  shows "spawned_inv pol (apply_actions acts e) w1" "r = Inr (next_id e)" "acts = [Spawn_Task (next_id e, f)]"
proof -
  have J: "join_inv e w" and O: "own_inv pol e w" using assms(1) by (simp_all add: spawned_inv_def)
  note D = join_invD[OF J]
  have eq: "r = Inr (next_id e)" "acts = [Spawn_Task (next_id e, f)]"
    "w1 = w\<lparr>next_handle := next_id e + 1, handles := (handles w)(next_id e := shared_new)\<rparr>"
    using assms(2) D(1) by (simp_all add: spawn_def spawn_erased_def completer_new_def)
  let ?e = "apply_action (Spawn_Task (next_id e, f)) e"
  have fresh: "outputs w (next_id e) = None" using D(7) by (metis less_irrefl not_None_eq)
  have ro: "\<And>i. roused e i \<Longrightarrow> roused ?e i" by (rule roused_apply_action)
  have n: "next_id ?e = Suc (next_id e)" by (simp add: enqueue_def allocate_id_def)
  have "join_inv ?e w1"
    unfolding eq(3)
  proof (rule join_invI; (unfold n)?)
    fix i h assume a: "h \<in> waits (w\<lparr>next_handle := next_id e + 1, handles := (handles w)(next_id e := shared_new)\<rparr>) i"
    then show "1 \<le> h \<and> h < Suc (next_id e)" "waker_slot (handles (w\<lparr>next_handle := next_id e + 1,
        handles := (handles w)(next_id e := shared_new)\<rparr>) h) = Some i \<or> roused ?e i"
      using D(9)[of h i] D(10)[of h i] ro[of i] by auto
  qed (use D fresh in \<open>auto simp: shared_new_def less_SucI split: if_splits\<close>)
  moreover have "own_inv pol ?e w1"
    using O apply_action_ok[of e "Spawn_Task (next_id e, f)"] apply_action_polling[of pol e "Spawn_Task (next_id e, f)"]
      fresh D(2) unfolding own_inv_def eq(3) by (auto simp: enqueue_def allocate_id_def less_Suc_eq)
  ultimately show "spawned_inv pol (apply_actions acts e) w1" by (simp add: spawned_inv_def eq(2))
  show "r = Inr (next_id e)" "acts = [Spawn_Task (next_id e, f)]" by (rule eq)+
qed

lemma handle_poll_result:
  assumes "handle_poll k h w = Some (r, w1)"
  shows "allocated h w \<and>
    (r = Pending \<and> flags (handles w h) = Flag_Pending \<and> w1 = note_poll k h r (w\<lparr>handles := (handles w)(h := register_waker k (handles w h))\<rparr>) \<or>
     r = Ready Was_Cancelled \<and> flags (handles w h) = Flag_Cancelled \<and> w1 = w \<or>
     (\<exists>v. r = Ready (Joined v) \<and> flags (handles w h) = Flag_Ready \<and> task_result (handles w h) = Some v \<and>
        w1 = note_poll k h r (w\<lparr>handles := (handles w)(h := (handles w h)\<lparr>task_result := None\<rparr>)\<rparr>)))"
  using assms
  by (auto simp: handle_poll_def join_poll_def take_result_def Let_def note_poll_def
      split: if_splits option.splits task_flag.splits)

lemma spawned_inv_handle_poll:
  assumes "spawned_inv pol e w" "handle_poll k h w = Some (r, w1)" "k < next_id e"
  shows "spawned_inv pol e w1"
proof -
  have J: "join_inv e w" and O: "own_inv pol e w" using assms(1) by (simp_all add: spawned_inv_def)
  note D = join_invD[OF J]
  have h: "1 \<le> h" "h < next_id e" using handle_poll_result[OF assms(2)] D(1) by (simp_all add: allocated_def)
  from handle_poll_result[OF assms(2)] consider
    (pend) "r = Pending" "flags (handles w h) = Flag_Pending"
      "w1 = note_poll k h r (w\<lparr>handles := (handles w)(h := register_waker k (handles w h))\<rparr>)"
  | (gone) "w1 = w"
  | (val) v where "r = Ready (Joined v)" "flags (handles w h) = Flag_Ready" "task_result (handles w h) = Some v"
      "w1 = note_poll k h r (w\<lparr>handles := (handles w)(h := (handles w h)\<lparr>task_result := None\<rparr>)\<rparr>)"
    by blast
  then show ?thesis
  proof cases
    case pend
    have out: "flags (handles w h) = Flag_Pending" "outputs w h = None" "task_result (handles w h) = None"
      using pend(2) D(5,6)[of h] by (simp, metis option.exhaust, metis option.exhaust)
    have "join_inv e w1"
      unfolding join_inv_def pend(3) pend(1) note_poll_def
      using D out h assms(3) by (auto split: if_splits)
    then show ?thesis using O by (simp add: spawned_inv_def own_inv_def pend note_poll_def)
  next
    case gone
    then show ?thesis using assms(1) by simp
  next
    case val
    have out: "waker_slot (handles w h) = None" "outputs w h = Some v"
      using val(2) D(3)[of h] D(5)[OF val(3)] by (cases "waker_slot (handles w h)"; auto)+
    then have ro: "h \<in> waits w i \<Longrightarrow> roused e i" for i using D(10)[of h i] by simp
    have "join_inv e w1"
      unfolding join_inv_def val(4) val(1) note_poll_def using D val(2,3) out ro by (auto split: if_splits)
    then show ?thesis using O by (simp add: spawned_inv_def own_inv_def val note_poll_def)
  qed
qed

lemma run_prog_inv:
  assumes "run_prog k p w = (acts, r, w1)" "spawned_inv pol e w" "k < next_id e"
  shows "spawned_inv pol (apply_actions acts e) w1 \<and> panicked w1 = panicked w \<and> k < next_id (apply_actions acts e)"
  using assms
proof (induction p arbitrary: w e acts)
  case (Do_Spawn f g)
  obtain h a w2 where sp: "spawn f w = (h, a, w2)" by (metis prod_cases3)
  then obtain a1 where a1: "run_prog k (g h) w2 = (a1, r, w1)" "acts = a @ a1"
    using Do_Spawn.prems(1) by (auto split: prod.splits)
  note sp1 = spawned_inv_spawn[OF Do_Spawn.prems(2) sp]
  have "panicked w2 = panicked w" using sp by (auto simp: spawn_def spawn_erased_def completer_new_def)
  moreover have "k < next_id (apply_actions a e)"
    using Do_Spawn.prems(3) by (simp add: sp1(3) enqueue_def allocate_id_def)
  ultimately show ?case using Do_Spawn.IH[OF _ a1(1) sp1(1)] by (auto simp: a1(2))
next
  case (Do_Poll h g)
  show ?case
  proof (cases "handle_poll k h w")
    case None
    then show ?thesis using Do_Poll.prems by simp
  next
    case (Some rw)
    obtain r1 w2 where rw: "handle_poll k h w = Some (r1, w2)" using Some by (cases rw) simp
    have "panicked w2 = panicked w" using handle_poll_result[OF rw] by (auto simp: note_poll_def)
    then show ?thesis
      using Do_Poll.IH[OF _ _ spawned_inv_handle_poll[OF Do_Poll.prems(2) rw Do_Poll.prems(3)] Do_Poll.prems(3)]
        Do_Poll.prems(1) rw by (auto)
  qed
next
  case (Do_Cancel h p)
  then show ?case
    by (auto split: prod.splits dest!: run_on_handle[OF Do_Cancel.prems(2)])
next
  case (Do_Drop_Task h p)
  then show ?case
    by (auto split: prod.splits dest!: run_on_handle[OF Do_Drop_Task.prems(2)])
next
  case (Do_Wake j p)
  obtain a1 where a1: "run_prog k p w = (a1, r, w1)" "acts = waker_action j # a1"
    using Do_Wake.prems(1) by (auto split: prod.splits)
  have "spawned_inv pol (apply_action (waker_action j) e) w"
    using Do_Wake.prems(2) unfolding spawned_inv_def by (blast intro: join_inv_waker own_inv_waker)
  from Do_Wake.IH[OF a1(1) this] show ?case using Do_Wake.prems(3) by (simp add: a1(2))
next
  case (Do_Shared f g)
  have "spawned_inv pol e (w\<lparr>user_state := f (user_state w)\<rparr>)"
    using Do_Shared.prems(2) by (simp add: spawned_inv_def join_inv_def own_inv_def)
  from Do_Shared.IH[OF _ _ this Do_Shared.prems(3)] show ?case using Do_Shared.prems(1) by auto
qed auto

text \<open>A poll of a task and of the main future.\<close>

lemma polled_inv:
  assumes inv: "spawned_inv 0 e w" and q: "run_queue e = i # q" and b: "registry e i = Some b"
  shows "fst b = i" "i \<noteq> 0" "i < next_id e"
    "spawned_inv i (e\<lparr>run_queue := q, registry := (registry e)(i := None), task_queued := (task_queued e)(i := False)\<rparr>)
       (begin_poll i w)" (is "spawned_inv i ?e ?w")
proof -
  have J: "join_inv e w" and O: "own_inv 0 e w" using inv by (simp_all add: spawned_inv_def)
  show i: "fst b = i" "i \<noteq> 0" "i < next_id e"
    using own_invD(3,4)[OF O b] exec_okD(4)[OF own_invD(1)[OF O] b] by simp_all
  have "join_inv ?e ?w" by (rule join_inv_begin[OF J]) (auto simp: roused_def split: if_splits)
  moreover have "polling_ok i ?e" using popped_ok[OF _ q b] O by (simp add: own_inv_def)
  ultimately show "spawned_inv i ?e ?w"
    using own_invD(3-5,7)[OF O] own_invD(5)[OF O b]
    by (auto simp: spawned_inv_def own_inv_def begin_poll_def polling_ok_def)
qed

text \<open>The panic flag is never taken back.\<close>

lemma poll_task_inv:
  assumes inv: "spawned_inv 0 e w" and q: "run_queue e = i # q"
    and r: "poll_task (spawned_poll user) i (e\<lparr>run_queue := q\<rparr>, w) = (e1, w1)"
  shows "spawned_inv 0 e1 w1 \<and> (panicked w \<longrightarrow> panicked w1)"
proof (cases "registry e i")
  case None
  have "exec_ok (fst (poll_task (spawned_poll user) i (e\<lparr>run_queue := q\<rparr>, w)))"
    using poll_task_ok[OF _ q, of "spawned_poll user" w] inv by (simp add: spawned_inv_def own_inv_def)
  then have "exec_ok (e\<lparr>run_queue := q\<rparr>)" using None by (simp add: poll_task_def)
  moreover have "e1 = e\<lparr>run_queue := q\<rparr>" "w1 = w" using r None by (simp_all add: poll_task_def)
  moreover have "join_inv (e\<lparr>run_queue := q\<rparr>) w"
    by (rule join_inv_roused[where e = e]) (use inv in \<open>auto simp: spawned_inv_def roused_def\<close>)
  ultimately show ?thesis using inv by (simp add: spawned_inv_def own_inv_def)
next
  case (Some b)
  note P = polled_inv[OF inv q Some]
  let ?e = "e\<lparr>run_queue := q, registry := (registry e)(i := None), task_queued := (task_queued e)(i := False)\<rparr>"
  obtain f where b: "b = (i, f)" using P(1) by (cases b) simp
  obtain acts res w2 where run: "run_prog i (user i f) (begin_poll i w) = (acts, res, w2)" by (metis prod_cases3)
  have lt: "i < next_id ?e" using P(3) by simp
  note R = run_prog_inv[OF run P(4) lt]
  let ?e2 = "apply_actions acts ?e"
  have J: "join_inv ?e2 w2" and O: "own_inv i ?e2 w2" and pan: "panicked w2 = panicked w"
    using R by (simp_all add: spawned_inv_def begin_poll_def)
  have pol: "polling_ok i ?e2" "exec_ok ?e2" "outputs w2 i = None" using own_invD(1,2,6)[OF O] P(2) by simp_all
  have i2: "i < next_id ?e2" "next_handle w2 = next_id ?e2" using R join_invD(1)[OF J] by simp_all
  then have al: "allocated i w2" using P(2) by (simp add: allocated_def)
  consider (pend) f1 where "res = Some (Inl f1)" | (fin) v where "res = Some (Inr v)" | (panic) "res = None"
    by (cases res) (auto simp: sum.exhaust_sel, metis sum.exhaust)
  then show ?thesis
  proof cases
    case pend
    have eq: "e1 = ?e2\<lparr>registry := (registry ?e2)(i \<mapsto> (i, f1))\<rparr>" "w1 = w2"
      using r Some b run pend by (simp_all add: poll_task_def spawned_poll_def Let_def)
    have "join_inv e1 w2" by (rule join_inv_roused[OF J]) (auto simp: eq roused_def)
    moreover have "exec_ok e1" unfolding eq by (rule poll_back_ok(1)[OF pol(1)])
    ultimately show ?thesis using O P(2) pol(3) pan by (auto simp: spawned_inv_def own_inv_def eq)
  next
    case fin
    let ?s = "completer_complete v (handles w2 i)"
    let ?wakes = "wakes_between (handles w2 i) ?s :: (nat \<times> 'a) task_action list"
    let ?e3 = "apply_actions ?wakes ?e2"
    have eq: "e1 = ?e3\<lparr>task_done := (task_done ?e3)(i := True)\<rparr>"
      "w1 = w2\<lparr>handles := (handles w2)(i := ?s), outputs := (outputs w2)(i \<mapsto> v)\<rparr>"
      using r Some b run fin al
      by (simp_all add: poll_task_def spawned_poll_def Let_def on_handle_def note_output_def)
    have "join_inv ?e3 w1" unfolding eq
      by (rule join_inv_handle[where v = v, OF J settles_ops(4)])
         (use pol(3) i2(1) in \<open>simp add: task_result_ops completer_complete_flags\<close>)
    then have "join_inv e1 w1" by (rule join_inv_roused) (auto simp: eq roused_def)
    moreover have "own_inv i ?e3 w2" using own_inv_wakers[OF O] by (simp add: wakes_between_def)
    then have "exec_ok e1" "own_inv i ?e3 w2" unfolding eq own_inv_def using P(2) poll_back_ok(2)[of i ?e3] by auto
    ultimately show ?thesis using P(2) pan by (auto simp: spawned_inv_def own_inv_def eq polling_ok_def)
  next
    case panic
    let ?s = "completer_drop (handles w2 i)"
    let ?wakes = "wakes_between (handles w2 i) ?s :: (nat \<times> 'a) task_action list"
    let ?e3 = "apply_actions ?wakes ?e2"
    have eq: "e1 = ?e3\<lparr>task_done := (task_done ?e3)(i := True)\<rparr>"
      "w1 = w2\<lparr>handles := (handles w2)(i := ?s), outputs := outputs w2, panicked := True\<rparr>"
      using r Some b run panic al
      by (simp_all add: poll_task_def spawned_poll_def Let_def on_handle_def)
    have "join_inv ?e3 (w2\<lparr>handles := (handles w2)(i := ?s), outputs := outputs w2\<rparr>)"
      by (rule join_inv_handle[OF J settles_ops(2)]) (simp add: task_result_ops)
    then have "join_inv ?e3 w1" by (simp add: eq join_inv_def)
    then have "join_inv e1 w1" by (rule join_inv_roused) (auto simp: eq roused_def)
    moreover have "own_inv i ?e3 w2" using own_inv_wakers[OF O] by (simp add: wakes_between_def)
    then have "exec_ok e1" "own_inv i ?e3 w2" unfolding eq own_inv_def using P(2) poll_back_ok(2)[of i ?e3] by auto
    ultimately show ?thesis using P(2) by (auto simp: spawned_inv_def own_inv_def eq polling_ok_def)
  qed
qed

lemma main_begin_inv:
  assumes "spawned_inv 0 e w"
  shows "spawned_inv 0 (e\<lparr>main_notified := False\<rparr>) (begin_poll 0 w)"
proof -
  have J: "join_inv e w" and O: "own_inv 0 e w" using assms by (simp_all add: spawned_inv_def)
  have "join_inv (e\<lparr>main_notified := False\<rparr>) (begin_poll 0 w)" by (rule join_inv_begin[OF J]) (auto simp: roused_def)
  moreover have "own_inv 0 (e\<lparr>main_notified := False\<rparr>) (begin_poll 0 w)"
    using O by (auto simp: own_inv_def begin_poll_def exec_ok_def)
  ultimately show ?thesis by (simp add: spawned_inv_def)
qed

lemma main_poll_inv:
  assumes inv: "spawned_inv 0 e w" and m: "main_poll user f w = (acts, r, w1)"
  shows "spawned_inv 0 (apply_actions acts (e\<lparr>main_notified := False\<rparr>)) w1"
proof -
  let ?e = "e\<lparr>main_notified := False\<rparr>"
  obtain a res w2 where run: "run_prog 0 (user 0 f) (begin_poll 0 w) = (a, res, w2)" by (metis prod_cases3)
  have "spawned_inv 0 (apply_actions a ?e) w2"
    using run_prog_inv[OF run main_begin_inv[OF inv]] join_invD(2)[of e w] inv by (simp add: spawned_inv_def)
  then have "spawned_inv 0 (apply_actions a ?e) w2 \<and> spawned_inv 0 (apply_actions a ?e) (w2\<lparr>panicked := True\<rparr>)"
    by (simp add: spawned_inv_def join_inv_def own_inv_def)
  then show ?thesis using m run by (auto simp: main_poll_def split: option.splits sum.splits)
qed

section \<open>Reachable states\<close>

lemma poll_scheduled_inv:
  "poll_scheduled_tasks poll ew = Some ew1 \<Longrightarrow>
     poll = spawned_poll user \<longrightarrow> spawned_inv 0 (fst ew) (snd ew) \<longrightarrow>
     spawned_inv 0 (fst ew1) (snd ew1) \<and> (panicked (snd ew) \<longrightarrow> panicked (snd ew1))"
proof (rule poll_scheduled_tasks.raw_induct[of "\<lambda>poll ew ew1. poll = spawned_poll user \<longrightarrow>
     spawned_inv 0 (fst ew) (snd ew) \<longrightarrow> spawned_inv 0 (fst ew1) (snd ew1) \<and> (panicked (snd ew) \<longrightarrow> panicked (snd ew1))"])
  fix self poll ew r
  assume ih: "\<And>poll ew r. self poll ew = Some r \<Longrightarrow> poll = spawned_poll user \<longrightarrow> spawned_inv 0 (fst ew) (snd ew) \<longrightarrow>
      spawned_inv 0 (fst r) (snd r) \<and> (panicked (snd ew) \<longrightarrow> panicked (snd r))"
    and eq: "(case run_queue (fst ew) of [] \<Rightarrow> Some ew
      | i # q \<Rightarrow> self poll (poll_task poll i ((fst ew)\<lparr>run_queue := q\<rparr>, snd ew))) = Some r"
  show "poll = spawned_poll user \<longrightarrow> spawned_inv 0 (fst ew) (snd ew) \<longrightarrow>
      spawned_inv 0 (fst r) (snd r) \<and> (panicked (snd ew) \<longrightarrow> panicked (snd r))"
  proof (cases "run_queue (fst ew)")
    case Nil
    then show ?thesis using eq by simp
  next
    case (Cons i q)
    let ?n = "poll_task poll i ((fst ew)\<lparr>run_queue := q\<rparr>, snd ew)"
    show ?thesis
      using ih[of poll ?n r] eq Cons poll_task_inv[OF _ Cons, of "snd ew" user "fst ?n" "snd ?n"] by auto
  qed
qed (assumption)

text \<open>
  The executor and its handles from the start on: polls of the main future (of \<open>block_on\<close>, or of any
  code on the executor's thread between runs), runs of the queue, and wakers called from outside.
\<close>

inductive spawn_reach ::
  "('f, 'v, 'u) user_future \<Rightarrow> (nat \<times> 'f) executor \<Rightarrow> ('v, 'u) spawn_world \<Rightarrow> bool" for user where
  start: "spawn_reach user executor_new (spawn_world_new u)"
| main: "spawn_reach user e w \<Longrightarrow> main_poll user f w = (acts, r, w1) \<Longrightarrow>
     spawn_reach user (apply_actions acts (e\<lparr>main_notified := False\<rparr>)) w1"
| tasks: "spawn_reach user e w \<Longrightarrow> run_until_stalled (spawned_poll user) (e, w) = Some (e1, w1) \<Longrightarrow>
     spawn_reach user e1 w1"
| outside: "spawn_reach user e w \<Longrightarrow> spawn_reach user (apply_actions (map waker_action ks) e) w"

lemma spawn_reach_inv: "spawn_reach user e w \<Longrightarrow> spawned_inv 0 e w"
proof (induction rule: spawn_reach.induct)
  case start
  show ?case by (rule spawned_inv_start)
next
  case (main e w f acts r w1)
  then show ?case by (rule_tac main_poll_inv)
next
  case (tasks e w e1 w1)
  then show ?case
    using poll_scheduled_inv[of "spawned_poll user" "(e, w)" "(e1, w1)" user] by (simp add: run_until_stalled_def)
next
  case (outside e w ks)
  have "join_inv (apply_actions (map waker_action ks) e) w"
    by (rule join_inv_roused[where e = e])
       (use outside.IH in \<open>auto simp: spawned_inv_def intro: roused_apply_actions\<close>)
  then show ?case using own_inv_wakers outside.IH unfolding spawned_inv_def by blast
qed

section \<open>Property\<close>

text \<open>
  C8: Whatever the futures do with their handles and wakers, a handle only ever yields the value its
  task completed with; and when the executor has run out of work, no task, nor the main future, is left
  waiting for a task that has finished or was cancelled: its waker is registered with the handle, and
  the awaited task is still there to call it.
\<close>

theorem joins_never_stranded:
  assumes "spawn_reach user e w" "\<not> panicked w"
  shows "((h, v) \<in> joined w \<longrightarrow> outputs w h = Some v) \<and>
    (run_queue e = [] \<and> (i = 0 \<and> \<not> main_notified e \<or> registry e i \<noteq> None) \<and> h \<in> waits w i \<longrightarrow>
      \<not> is_finished (handles w h) \<and> waker_slot (handles w h) = Some i \<and> registry e h \<noteq> None)"
proof -
  have J: "join_inv e w" and O: "own_inv 0 e w"
    using spawn_reach_inv[OF assms(1)] by (simp_all add: spawned_inv_def)
  note D = join_invD[OF J] and E = exec_okD[OF own_invD(1)[OF O]]
  have "\<not> is_finished (handles w h) \<and> waker_slot (handles w h) = Some i \<and> registry e h \<noteq> None"
    if q: "run_queue e = []" and i: "i = 0 \<and> \<not> main_notified e \<or> registry e i \<noteq> None" and h: "h \<in> waits w i"
  proof -
    have "\<not> roused e i" using i E(5,6)[of i] own_invD(4)[OF O, of i] q by (auto simp: roused_def)
    then have s: "waker_slot (handles w h) = Some i" using D(10)[OF h] by simp
    have f: "flags (handles w h) = Flag_Pending" by (rule D(3)[OF s])
    have "outputs w h = None" using D(6)[of h] f by (cases "outputs w h") auto
    then have "registry e h \<noteq> None" using own_invD(7)[OF O assms(2), of h] D(9)[OF h] by auto
    then show ?thesis using s f by (simp add: is_finished_def)
  qed
  then show ?thesis using D(8) by blast
qed

text \<open>The main future spawns a task that stays pending, and waits for it.\<close>

definition demo_waiter :: "(bool, nat, unit) user_future" where
  "demo_waiter k f =
     (if f then Do_Spawn False (\<lambda>r. case r of Inr h \<Rightarrow> Do_Poll h (\<lambda>_. Pend True) | Inl _ \<Rightarrow> Panic) else Pend False)"

theorem joins_never_stranded_witness:
  "\<exists>e w. spawn_reach demo_waiter e w \<and> run_queue e = [] \<and> 1 \<in> waits w 0 \<and> registry e 1 \<noteq> None"
proof -
  let ?e0 = "executor_new :: (nat \<times> bool) executor" and ?w0 = "spawn_world_new () :: (nat, unit) spawn_world"
  obtain acts r w1 where m: "main_poll demo_waiter True ?w0 = (acts, r, w1)" by (metis prod_cases3)
  let ?e1 = "apply_actions acts (?e0\<lparr>main_notified := False\<rparr>)"
  have w1: "acts = [Spawn_Task (1, False)]" "1 \<in> waits w1 0" "\<not> panicked w1"
    using m by (auto simp: main_poll_def demo_waiter_def spawn_def spawn_erased_def completer_new_def spawn_world_new_def
        begin_poll_def handle_poll_def allocated_def join_poll_def shared_new_def Let_def register_waker_def note_poll_def)
  have e1: "run_queue ?e1 = [1]" "registry ?e1 1 = Some (1, False)" "main_notified ?e1 = False"
    by (simp_all add: w1(1) enqueue_def allocate_id_def executor_new_def)
  let ?p = "poll_task (spawned_poll demo_waiter) 1 (?e1\<lparr>run_queue := []\<rparr>, w1)"
  have p: "run_queue (fst ?p) = []" "\<not> main_notified (fst ?p)" "waits (snd ?p) 0 = waits w1 0" "\<not> panicked (snd ?p)"
    using e1 w1(3) by (simp_all add: poll_task_def spawned_poll_def demo_waiter_def begin_poll_def Let_def)
  have "run_until_stalled (spawned_poll demo_waiter) (?e1, w1) = Some (fst ?p, snd ?p)"
    using e1(1) p(1) by (simp add: run_until_stalled_def poll_scheduled_tasks.simps)
  then have re: "spawn_reach demo_waiter (fst ?p) (snd ?p)"
    using spawn_reach.tasks[OF spawn_reach.main[OF spawn_reach.start m]] by blast
  show ?thesis
    using re p w1(2) joins_never_stranded[OF re p(4), where i = 0 and h = 1]
    by (intro exI[of _ "fst ?p"] exI[of _ "snd ?p"]) simp
qed

end
