(* ===== verification/Fork_Join.thy ===== *)
theory Fork_Join
  imports Spawned_Tasks
begin

text \<open>
  Fork-join programs on the executor: async blocks that spawn further blocks, await their handles in
  any order and yield.  Run by \<open>block_on\<close> they all end, with the value that a sequential evaluation
  gives.  This exercises \<open>LocalExecutor\<close>, \<open>spawn_erased\<close>, \<open>Completer\<close> and \<open>JoinHandle\<close> together.
\<close>

section \<open>Programs\<close>

text \<open>
  \<open>Join n k\<close> awaits, and thereby consumes, the \<open>n\<close>th of the handles that the block still has.
\<close>

datatype 'v fj = Ret 'v | Fork "'v fj" "'v fj" | Join nat "'v \<Rightarrow> 'v fj" | Yield "'v fj"

definition remove_nth :: "nat \<Rightarrow> 'a list \<Rightarrow> 'a list" where
  "remove_nth n xs = take n xs @ drop (Suc n) xs"

text \<open>The sequential meaning, where the list has the values of the tasks that are not joined yet.\<close>

primrec fj_eval :: "'v fj \<Rightarrow> 'v list \<Rightarrow> 'v" where
  "fj_eval (Ret v) vs = v"
| "fj_eval (Fork c k) vs = fj_eval k (vs @ [fj_eval c []])"
| "fj_eval (Join n k) vs = fj_eval (k (vs ! n)) (remove_nth n vs)"
| "fj_eval (Yield k) vs = fj_eval k vs"

text \<open>No join of a handle that the block does not have, which the borrow checker excludes.\<close>

primrec fj_ok :: "'v fj \<Rightarrow> 'v list \<Rightarrow> bool" where
  "fj_ok (Ret v) vs \<longleftrightarrow> True"
| "fj_ok (Fork c k) vs \<longleftrightarrow> fj_ok c [] \<and> fj_ok k (vs @ [fj_eval c []])"
| "fj_ok (Join n k) vs \<longleftrightarrow> n < length vs \<and> fj_ok (k (vs ! n)) (remove_nth n vs)"
| "fj_ok (Yield k) vs \<longleftrightarrow> fj_ok k vs"

text \<open>The async block as a future: the rest of its program and the handles it has.\<close>

primrec fj_prog :: "nat \<Rightarrow> 'v fj \<Rightarrow> nat list \<Rightarrow> ('v fj \<times> nat list, 'v, 'u) poll_prog" where
  "fj_prog i (Ret v) env = Finish v"
| "fj_prog i (Fork c k) env =
     Do_Spawn (c, []) (\<lambda>r. case r of Inl x \<Rightarrow> Panic | Inr h \<Rightarrow> fj_prog i k (env @ [h]))"
| "fj_prog i (Join n k) env =
     (if n < length env
      then Do_Poll (env ! n) (\<lambda>r. case r of
             Pending \<Rightarrow> Pend (Join n k, env)
           | Ready j \<Rightarrow> (case j of Joined v \<Rightarrow> fj_prog i (k v) (remove_nth n env) | Was_Cancelled \<Rightarrow> Panic))
      else Panic)"
| "fj_prog i (Yield k) env = Do_Wake i (Pend (k, env))"

definition fj_user :: "('v fj \<times> nat list, 'v, 'u) user_future" where
  "fj_user i f = fj_prog i (fst f) (snd f)"

section \<open>Configurations\<close>

text \<open>
  The programs of all unfinished tasks, with the main future's as 0.  A value is foreseen for every
  task: what the evaluation of its program gives.
\<close>

type_synonym 'v fj_config = "nat \<rightharpoonup> 'v fj \<times> nat list"

definition fj_config_of :: "(nat \<times> 'v fj \<times> nat list) executor \<Rightarrow> ('v fj \<times> nat list) option \<Rightarrow> 'v fj_config" where
  "fj_config_of e m = (\<lambda>j. if j = 0 then m else map_option snd (registry e j))"

text \<open>
  Each unjoined handle belongs to one task, older than the task it stands for; its own task is still
  unfinished, or its result is waiting in it.
\<close>

definition fj_task :: "(nat \<Rightarrow> 'v) \<Rightarrow> nat \<Rightarrow> ('v, 'u) spawn_world \<Rightarrow> nat \<Rightarrow> 'v fj \<Rightarrow> nat list \<Rightarrow> bool" where
  "fj_task V n w i p env \<longleftrightarrow> i < n \<and> fj_ok p (map V env) \<and> fj_eval p (map V env) = V i \<and> distinct env \<and>
     (\<forall>h \<in> set env. i < h \<and> h < n) \<and> (i \<noteq> 0 \<longrightarrow> flags (handles w i) = Flag_Pending)"

definition fj_inv :: "'v fj_config \<Rightarrow> (nat \<Rightarrow> 'v) \<Rightarrow> nat \<Rightarrow> ('v, 'u) spawn_world \<Rightarrow> bool" where
  "fj_inv cfg V n w \<longleftrightarrow>
     (\<forall>i p env. cfg i = Some (p, env) \<longrightarrow> fj_task V n w i p env) \<and>
     (\<forall>i j p q a b h. cfg i = Some (p, a) \<and> cfg j = Some (q, b) \<and> h \<in> set a \<and> h \<in> set b \<longrightarrow> i = j) \<and>
     (\<forall>i p env h. cfg i = Some (p, env) \<and> h \<in> set env \<longrightarrow>
        cfg h \<noteq> None \<or> flags (handles w h) = Flag_Ready \<and> task_result (handles w h) = Some (V h))"

lemma fj_invI:
  assumes "\<And>i p env. cfg i = Some (p, env) \<Longrightarrow> fj_task V n w i p env"
    "\<And>i j p q a b h. cfg i = Some (p, a) \<Longrightarrow> cfg j = Some (q, b) \<Longrightarrow> h \<in> set a \<Longrightarrow> h \<in> set b \<Longrightarrow> i = j"
    "\<And>i p env h. cfg i = Some (p, env) \<Longrightarrow> h \<in> set env \<Longrightarrow> cfg h = None \<Longrightarrow>
       flags (handles w h) = Flag_Ready \<and> task_result (handles w h) = Some (V h)"
  shows "fj_inv cfg V n w"
  using assms unfolding fj_inv_def by blast

lemma fj_invD:
  assumes "fj_inv cfg V n w"
  shows "\<And>i p env. cfg i = Some (p, env) \<Longrightarrow> fj_task V n w i p env"
    "\<And>i j p q a b h. cfg i = Some (p, a) \<Longrightarrow> cfg j = Some (q, b) \<Longrightarrow> h \<in> set a \<Longrightarrow> h \<in> set b \<Longrightarrow> i = j"
    "\<And>i p env h. cfg i = Some (p, env) \<Longrightarrow> h \<in> set env \<Longrightarrow> cfg h = None \<Longrightarrow>
       flags (handles w h) = Flag_Ready \<and> task_result (handles w h) = Some (V h)"
  using assms unfolding fj_inv_def by blast+

lemma fj_taskD:
  assumes "fj_task V n w i p env"
  shows "i < n" "fj_ok p (map V env)" "fj_eval p (map V env) = V i" "distinct env"
    "\<And>h. h \<in> set env \<Longrightarrow> i < h" "\<And>h. h \<in> set env \<Longrightarrow> h < n" "i \<noteq> 0 \<Longrightarrow> flags (handles w i) = Flag_Pending"
  using assms unfolding fj_task_def by blast+

text \<open>A task that waits for the handle it joins next.\<close>

definition fj_stuck :: "'v fj_config \<Rightarrow> ('v, 'u) spawn_world \<Rightarrow> nat \<Rightarrow> bool" where
  "fj_stuck cfg w i \<longleftrightarrow> (\<exists>n k env. cfg i = Some (Join n k, env) \<and> n < length env \<and> env ! n \<in> waits w i)"

definition fj_live :: "'v fj_config \<Rightarrow> 'b executor \<Rightarrow> ('v, 'u) spawn_world \<Rightarrow> bool" where
  "fj_live cfg e w \<longleftrightarrow> (\<forall>j. cfg j \<noteq> None \<longrightarrow> roused e j \<or> fj_stuck cfg w j)"

lemma fj_live_upd:
  assumes "fj_live cfg e w" "\<And>j. j \<noteq> i \<Longrightarrow> roused e j \<Longrightarrow> roused e1 j"
    "roused e1 i \<or> fj_stuck (cfg(i \<mapsto> x)) w i"
  shows "fj_live (cfg(i \<mapsto> x)) e1 w"
  unfolding fj_live_def
proof (intro allI impI)
  fix j assume j: "(cfg(i \<mapsto> x)) j \<noteq> None"
  show "roused e1 j \<or> fj_stuck (cfg(i \<mapsto> x)) w j"
  proof (cases "j = i")
    case False
    then show ?thesis using assms(1) assms(2)[OF False] j by (auto simp: fj_live_def fj_stuck_def)
  qed (use assms(3) in simp)
qed

lemma fj_live_begin:
  assumes "fj_live full e w" "cfg i = None" "\<And>j. j \<noteq> i \<Longrightarrow> cfg j = full j" "\<And>j. j \<noteq> i \<Longrightarrow> roused e j \<Longrightarrow> roused e1 j"
  shows "fj_live cfg e1 (begin_poll i w)"
  unfolding fj_live_def
proof (intro allI impI)
  fix j assume j: "cfg j \<noteq> None"
  then have ji: "j \<noteq> i" using assms(2) by auto
  then have "roused e j \<or> fj_stuck full w j" using assms(1,3) j by (simp add: fj_live_def)
  then show "roused e1 j \<or> fj_stuck cfg (begin_poll i w) j"
    using ji assms(3,4)[OF ji] by (auto simp: fj_stuck_def begin_poll_def)
qed

section \<open>The steps of a program\<close>

lemma remove_nth_map: "remove_nth n (map f xs) = map f (remove_nth n xs)"
  by (simp add: remove_nth_def take_map drop_map)

lemma remove_nth_set:
  assumes "n < length xs" "distinct xs"
  shows "set (remove_nth n xs) = set xs - {xs ! n}" "distinct (remove_nth n xs)"
proof -
  have eq: "xs = take n xs @ xs ! n # drop (Suc n) xs" using assms(1) by (rule id_take_nth_drop)
  then have d: "distinct (take n xs @ xs ! n # drop (Suc n) xs)" using assms(2) by simp
  then show "distinct (remove_nth n xs)" by (simp add: remove_nth_def)
  have "set xs = insert (xs ! n) (set (remove_nth n xs))" by (subst eq) (simp add: remove_nth_def)
  moreover have "xs ! n \<notin> set (remove_nth n xs)" using d by (simp add: remove_nth_def)
  ultimately show "set (remove_nth n xs) = set xs - {xs ! n}" by blast
qed

lemma map_fresh: "\<forall>h \<in> set env. h < (n :: nat) \<Longrightarrow> map (V(n := x)) env = map V env"
  by auto

text \<open>Only flags and results matter, not wakers.\<close>

lemma fj_inv_same:
  assumes "fj_inv cfg V n w" "\<And>h. flags (handles w1 h) = flags (handles w h)"
    "\<And>h. task_result (handles w1 h) = task_result (handles w h)"
  shows "fj_inv cfg V n w1"
  using assms unfolding fj_inv_def fj_task_def by simp

lemma fj_fork:
  assumes inv: "fj_inv cfg V n w" and i: "cfg i = Some (Fork c k, env)"
    and w1: "\<And>h. h \<noteq> n \<Longrightarrow> handles w1 h = handles w h" "handles w1 n = shared_new" and n: "1 \<le> n"
  shows "fj_inv (cfg(n \<mapsto> (c, []), i \<mapsto> (k, env @ [n]))) (V(n := fj_eval c [])) (Suc n) w1" (is "fj_inv ?c ?V _ _")
proof -
  note D = fj_invD[OF inv]
  note T = fj_taskD[OF D(1)[OF i]]
  have lt: "cfg j = Some (p, a) \<Longrightarrow> j < n \<and> (\<forall>h \<in> set a. h < n)" for j p a
    using fj_taskD(1,6)[OF D(1)[of j p a]] by blast
  have none: "cfg n = None" using lt[of n] by (cases "cfg n") auto
  have V: "map ?V a = map V a" "j < n" if "cfg j = Some (p, a)" for j p a
    using map_fresh[of a n V "fj_eval c []"] lt[OF that] by simp_all
  show ?thesis
  proof (rule fj_invI)
    fix j p a assume j: "?c j = Some (p, a)"
    consider "j = i" | "j = n" "j \<noteq> i" | "j \<noteq> i" "j \<noteq> n" by blast
    then show "fj_task ?V (Suc n) w1 j p a"
    proof cases
      case 1
      then have "p = k" "a = env @ [n]" using j by simp_all
      then show ?thesis
        using 1 T V(1)[OF i] V(2)[OF i] w1(1)[of i] lt[OF i] by (auto simp: fj_task_def less_SucI)
    next
      case 2
      then have "p = c" "a = []" using j by simp_all
      then show ?thesis using 2 T(2) w1(2) by (simp add: fj_task_def shared_new_def)
    next
      case 3
      then have j: "cfg j = Some (p, a)" using j by simp
      then show ?thesis
        using fj_taskD[OF D(1)[OF j]] V(2)[OF j] w1(1)[of j] by (simp add: fj_task_def V(1)[OF j] less_SucI)
    qed
  next
    fix j1 j2 p q a b h assume j: "?c j1 = Some (p, a)" "?c j2 = Some (q, b)" "h \<in> set a" "h \<in> set b"
    have old: "(\<exists>p a. cfg j = Some (p, a) \<and> h \<in> set a) \<or> j = i \<and> h = n" if "?c j = Some (p, a)" "h \<in> set a" for j p a h
      using that i by (auto split: if_splits)
    from old[OF j(1,3)] old[OF j(2,4)] show "j1 = j2" using D(2) lt by (metis less_irrefl)
  next
    fix j p a h assume j: "?c j = Some (p, a)" "h \<in> set a" "?c h = None"
    then have h: "h \<noteq> n" "cfg h = None" by (auto split: if_splits)
    then obtain p1 a1 where "cfg j = Some (p1, a1)" "h \<in> set a1"
      using j(1,2) i by (auto split: if_splits)
    from D(3)[OF this h(2)] show "flags (handles w1 h) = Flag_Ready \<and> task_result (handles w1 h) = Some (?V h)"
      using w1(1)[OF h(1)] h(1) by simp
  qed
qed

text \<open>A handle that is ready yields the foreseen value and is consumed.\<close>

lemma fj_joined:
  assumes inv: "fj_inv cfg V nx w" and i: "cfg i = Some (Join n k, env)" and n: "n < length env"
    and v: "flags (handles w (env ! n)) = Flag_Ready" "task_result (handles w (env ! n)) = Some v"
    and w1: "\<And>h. flags (handles w1 h) = flags (handles w h)"
      "\<And>h. h \<noteq> env ! n \<Longrightarrow> task_result (handles w1 h) = task_result (handles w h)"
  shows "v = V (env ! n)" "fj_inv (cfg(i \<mapsto> (k v, remove_nth n env))) V nx w1" (is "fj_inv ?c _ _ _")
proof -
  note D = fj_invD[OF inv]
  note T = fj_taskD[OF D(1)[OF i]]
  let ?h = "env ! n"
  have h: "?h \<in> set env" using n by simp
  have none: "cfg ?h = None"
  proof (rule ccontr)
    assume "cfg ?h \<noteq> None"
    then obtain p a where "cfg ?h = Some (p, a)" by auto
    from fj_taskD(7)[OF D(1)[OF this]] v(1) T(5)[OF h] show False by simp
  qed
  show veq: "v = V ?h" using D(3)[OF i h none] v(2) by simp
  note R = remove_nth_set[OF n T(4)]
  have sub: "\<exists>p1 a1. cfg j = Some (p1, a1) \<and> h \<in> set a1 \<and> h \<noteq> ?h" if "?c j = Some (p, a)" "h \<in> set a" for j p a h
  proof (cases "j = i")
    case True
    then show ?thesis using that i R(1) by auto
  next
    case False
    then have "cfg j = Some (p, a)" using that(1) by simp
    then show ?thesis using that(2) D(2)[OF _ i _ h] False by blast
  qed
  show "fj_inv ?c V nx w1"
  proof (rule fj_invI)
    fix j p a assume j: "?c j = Some (p, a)"
    show "fj_task V nx w1 j p a"
    proof (cases "j = i")
      case True
      then have "p = k v" "a = remove_nth n env" using j by simp_all
      then show ?thesis
        using T n veq R w1(1) True by (simp add: fj_task_def remove_nth_map)
    next
      case False
      then have "fj_task V nx w j p a" using D(1) j by simp
      then show ?thesis using w1(1) by (simp add: fj_task_def)
    qed
  next
    fix j1 j2 p q a b h assume j: "?c j1 = Some (p, a)" "?c j2 = Some (q, b)" "h \<in> set a" "h \<in> set b"
    show "j1 = j2" using sub[OF j(1,3)] sub[OF j(2,4)] D(2) by blast
  next
    fix j p a h assume j: "?c j = Some (p, a)" "h \<in> set a" "?c h = None"
    obtain p1 a1 where o: "cfg j = Some (p1, a1)" "h \<in> set a1" "h \<noteq> ?h" using sub[OF j(1,2)] by blast
    have "cfg h = None" using j(3) by (auto split: if_splits)
    from D(3)[OF o(1,2) this] show "flags (handles w1 h) = Flag_Ready \<and> task_result (handles w1 h) = Some (V h)"
      using w1 o(3) by simp
  qed
qed

text \<open>A task that returns leaves its result to its owner.\<close>

lemma fj_returned:
  assumes inv: "fj_inv cfg V n w" and i: "cfg i = Some (Ret v, env)" "i \<noteq> 0"
    and w1: "\<And>h. h \<noteq> i \<Longrightarrow> flags (handles w1 h) = flags (handles w h) \<and> task_result (handles w1 h) = task_result (handles w h)"
      "flags (handles w1 i) = Flag_Ready" "task_result (handles w1 i) = Some v"
  shows "fj_inv (cfg(i := None)) V n w1"
proof -
  note D = fj_invD[OF inv]
  have v: "v = V i" using fj_taskD(3)[OF D(1)[OF i(1)]] by simp
  show ?thesis
  proof (rule fj_invI)
    fix j p a assume "(cfg(i := None)) j = Some (p, a)"
    then have "j \<noteq> i" "fj_task V n w j p a" using D(1) by (auto split: if_splits)
    then show "fj_task V n w1 j p a" using w1(1)[of j] by (simp add: fj_task_def)
  next
    fix j1 j2 p q a b h assume "(cfg(i := None)) j1 = Some (p, a)" "(cfg(i := None)) j2 = Some (q, b)" "h \<in> set a" "h \<in> set b"
    then show "j1 = j2" using D(2)[of j1 p a j2 q b h] by (simp split: if_splits)
  next
    fix j p a h assume "(cfg(i := None)) j = Some (p, a)" "h \<in> set a" "(cfg(i := None)) h = None"
    then show "flags (handles w1 h) = Flag_Ready \<and> task_result (handles w1 h) = Some (V h)"
      using D(3)[of j p a h] w1 v by (cases "h = i") (auto split: if_splits)
  qed
qed

section \<open>The work that is left\<close>

text \<open>A spawn and a wake each cost one poll.\<close>

primrec fj_cost :: "'v fj \<Rightarrow> 'v list \<Rightarrow> nat" where
  "fj_cost (Ret v) vs = 1"
| "fj_cost (Fork c k) vs = 1 + fj_cost c [] + fj_cost k (vs @ [fj_eval c []])"
| "fj_cost (Join n k) vs = fj_cost (k (vs ! n)) (remove_nth n vs)"
| "fj_cost (Yield k) vs = 1 + fj_cost k vs"

definition fj_weight :: "(nat \<Rightarrow> 'v) \<Rightarrow> ('v fj \<times> nat list) option \<Rightarrow> nat" where
  "fj_weight V x = (case x of None \<Rightarrow> 0 | Some (p, env) \<Rightarrow> fj_cost p (map V env))"

definition fj_work :: "'v fj_config \<Rightarrow> (nat \<Rightarrow> 'v) \<Rightarrow> 'b executor \<Rightarrow> nat" where
  "fj_work cfg V e = length (run_queue e) + (if main_notified e then 1 else 0) + (\<Sum>j<next_id e. fj_weight V (cfg j))"

lemma weight_sum_upd:
  assumes "i < (n :: nat)"
  shows "(\<Sum>j<n. fj_weight V ((cfg(i := x)) j)) + fj_weight V (cfg i) = (\<Sum>j<n. fj_weight V (cfg j)) + fj_weight V x"
proof -
  have fin: "finite {..<n}" "i \<in> {..<n}" using assms by simp_all
  have rest: "(\<Sum>j\<in>{..<n} - {i}. fj_weight V ((cfg(i := x)) j)) = (\<Sum>j\<in>{..<n} - {i}. fj_weight V (cfg j))"
    by (rule sum.cong) auto
  show ?thesis
    using sum.remove[OF fin, of "\<lambda>j. fj_weight V ((cfg(i := x)) j)"] sum.remove[OF fin, of "\<lambda>j. fj_weight V (cfg j)"] rest
    by simp
qed

lemma fj_work_upd:
  assumes "i < next_id e"
  shows "fj_work (cfg(i := x)) V e + fj_weight V (cfg i) = fj_work cfg V e + fj_weight V x"
  using weight_sum_upd[OF assms, of V cfg x] by (simp add: fj_work_def)

lemma waker_action_work: "fj_work cfg V (apply_action (waker_action k) e) \<le> fj_work cfg V e + 1"
  by (auto simp: fj_work_def waker_action_def wake_main_def)

lemma waker_actions_work: "fj_work cfg V (apply_actions (map waker_action ks) e) \<le> fj_work cfg V e + length ks"
proof (induction ks arbitrary: e)
  case (Cons k ks)
  show ?case
    using Cons.IH[of "apply_action (waker_action k) e"] waker_action_work[of cfg V k e] by simp
qed simp

section \<open>A poll of a program\<close>

lemma fj_config_waker [simp]:
  "fj_config_of (apply_action (waker_action k) e) m = fj_config_of e m"
  "fj_config_of (apply_actions (map waker_action ks) e) m = fj_config_of e m"
  by (simp_all add: fj_config_of_def fun_eq_iff)

lemma fj_config_spawn:
  "1 \<le> next_id e \<Longrightarrow>
     fj_config_of (apply_action (Spawn_Task (next_id e, b)) e) m = (fj_config_of e m)(next_id e \<mapsto> b)"
  by (auto simp: fj_config_of_def enqueue_def allocate_id_def)

lemma fj_live_mono:
  assumes "fj_live cfg e w" "\<And>j. roused e j \<Longrightarrow> roused e1 j"
  shows "fj_live cfg e1 w"
  using assms unfolding fj_live_def by blast

text \<open>
  What holds after a poll of \<open>i\<close> that began with \<open>e0\<close>, where \<open>B\<close> was the work left: \<open>x\<close> is what is left of
  the program.
\<close>

definition fj_after ::
  "nat \<Rightarrow> ('v fj \<times> nat list) option \<Rightarrow> (nat \<Rightarrow> 'v) \<Rightarrow> nat \<Rightarrow> nat \<Rightarrow> ((('v fj \<times> nat list) + 'v) option) \<Rightarrow>
     (nat \<times> 'v fj \<times> nat list) executor \<Rightarrow> ('v, 'u) spawn_world \<Rightarrow> bool" where
  "fj_after i m V n0 B r e w \<longleftrightarrow> (\<exists>V1 x.
     (\<forall>j < n0. V1 j = V j) \<and> n0 \<le> next_id e \<and> fj_config_of e m i = None \<and>
     fj_inv ((fj_config_of e m)(i \<mapsto> x)) V1 (next_id e) w \<and> fj_live (fj_config_of e m) e w \<and>
     fj_work ((fj_config_of e m)(i \<mapsto> x)) V1 e \<le> B \<and>
     (r = Some (Inl x) \<and> (roused e i \<or> fj_stuck ((fj_config_of e m)(i \<mapsto> x)) w i) \<or>
      (\<exists>v. r = Some (Inr v) \<and> fst x = Ret v)))"

lemma fj_afterI:
  assumes "\<And>j. j < n0 \<Longrightarrow> V1 j = V j" "n0 \<le> next_id e" "fj_config_of e m i = None"
    "fj_inv ((fj_config_of e m)(i \<mapsto> x)) V1 (next_id e) w" "fj_live (fj_config_of e m) e w"
    "fj_work ((fj_config_of e m)(i \<mapsto> x)) V1 e \<le> B"
    "r = Some (Inl x) \<and> (roused e i \<or> fj_stuck ((fj_config_of e m)(i \<mapsto> x)) w i) \<or>
     (\<exists>v. r = Some (Inr v) \<and> fst x = Ret v)"
  shows "fj_after i m V n0 B r e w"
  using assms unfolding fj_after_def by blast

lemma fj_after_weaken:
  assumes "fj_after i m V1 n1 B1 r e w" "\<And>j. j < n0 \<Longrightarrow> V1 j = V j" "n0 \<le> n1" "B1 \<le> B"
  shows "fj_after i m V n0 B r e w"
proof -
  obtain V2 x where x: "\<forall>j < n1. V2 j = V1 j" "n1 \<le> next_id e" "fj_config_of e m i = None"
     "fj_inv ((fj_config_of e m)(i \<mapsto> x)) V2 (next_id e) w" "fj_live (fj_config_of e m) e w"
     "fj_work ((fj_config_of e m)(i \<mapsto> x)) V2 e \<le> B1"
     "r = Some (Inl x) \<and> (roused e i \<or> fj_stuck ((fj_config_of e m)(i \<mapsto> x)) w i) \<or>
      (\<exists>v. r = Some (Inr v) \<and> fst x = Ret v)"
    using assms(1) unfolding fj_after_def by blast
  have "V2 j = V j" if "j < n0" for j using x(1) assms(2)[OF that] assms(3) that by simp
  then show ?thesis using x assms(3,4) by (intro fj_afterI[of n0 V2 V e m i x]) simp_all
qed

text \<open>A fork pays for the poll that it causes.\<close>

lemma fork_work:
  assumes inv: "fj_inv (cfg(i \<mapsto> (Fork c k, env))) V (next_id e) w" and i: "i < next_id e"
    and e1: "run_queue e1 = run_queue e @ [next_id e]" "next_id e1 = Suc (next_id e)" "main_notified e1 = main_notified e"
  shows "fj_work (cfg(next_id e \<mapsto> (c, []), i \<mapsto> (k, env @ [next_id e]))) (V(next_id e := fj_eval c [])) e1 \<le>
    fj_work (cfg(i \<mapsto> (Fork c k, env))) V e"
proof -
  let ?n = "next_id e" let ?V = "V(?n := fj_eval c [])"
  let ?cfg = "cfg(i \<mapsto> (Fork c k, env))" and ?cfg1 = "cfg(?n \<mapsto> (c, []), i \<mapsto> (k, env @ [?n]))"
  note D = fj_invD[OF inv]
  have same: "fj_weight ?V (?cfg j) = fj_weight V (?cfg j)" for j
  proof (cases "?cfg j")
    case (Some pa)
    obtain p a where pa: "pa = (p, a)" by (cases pa)
    have "\<forall>h \<in> set a. h < ?n" using fj_taskD(6)[OF D(1)[of j p a]] Some pa by blast
    then show ?thesis using map_fresh[of a ?n V "fj_eval c []"] Some pa by (simp only: fj_weight_def option.case prod.case)
  qed (simp add: fj_weight_def)
  have env: "map ?V env = map V env"
    using fj_taskD(6)[OF D(1)[of i "Fork c k" env]] by (intro map_fresh) simp
  have "(\<Sum>j<Suc ?n. fj_weight ?V (?cfg1 j)) = (\<Sum>j<?n. fj_weight ?V ((cfg(i \<mapsto> (k, env @ [?n]))) j)) + fj_cost c []"
    using i by (simp add: fj_weight_def, intro sum.cong) auto
  moreover have "(\<Sum>j<?n. fj_weight ?V ((cfg(i \<mapsto> (k, env @ [?n]))) j)) + fj_weight ?V (Some (Fork c k, env)) =
      (\<Sum>j<?n. fj_weight V (?cfg j)) + fj_weight ?V (Some (k, env @ [?n]))"
    using weight_sum_upd[OF i, of ?V ?cfg "Some (k, env @ [?n])"] by (simp only: same fun_upd_upd fun_upd_same)
  moreover have "fj_weight ?V (Some (Fork c k, env)) = 1 + fj_cost c [] + fj_weight ?V (Some (k, env @ [?n]))"
    by (simp add: fj_weight_def env del: map_eq_conv)
  ultimately show ?thesis by (simp add: fj_work_def e1 del: sum.lessThan_Suc)
qed

text \<open>A step that keeps handles and meaning keeps the invariant.\<close>

lemma fj_inv_program:
  assumes inv: "fj_inv (cfg(i \<mapsto> (p, env))) V n w"
    and same: "fj_eval q (map V env) = fj_eval p (map V env)" "fj_ok p (map V env) \<Longrightarrow> fj_ok q (map V env)"
  shows "fj_inv (cfg(i \<mapsto> (q, env))) V n w"
proof (rule fj_invI)
  fix j p1 a assume "(cfg(i \<mapsto> (q, env))) j = Some (p1, a)"
  then show "fj_task V n w j p1 a"
    using fj_invD(1)[OF inv, of i p env] fj_invD(1)[OF inv, of j p1 a] same by (auto simp: fj_task_def split: if_splits)
next
  fix j1 j2 p1 q1 a b h
  assume "(cfg(i \<mapsto> (q, env))) j1 = Some (p1, a)" "(cfg(i \<mapsto> (q, env))) j2 = Some (q1, b)" "h \<in> set a" "h \<in> set b"
  then show "j1 = j2" using fj_invD(2)[OF inv, of j1 _ a j2 _ b h] by (auto split: if_splits)
next
  fix j p1 a h assume "(cfg(i \<mapsto> (q, env))) j = Some (p1, a)" "h \<in> set a" "(cfg(i \<mapsto> (q, env))) h = None"
  then show "flags (handles w h) = Flag_Ready \<and> task_result (handles w h) = Some (V h)"
    using fj_invD(3)[OF inv, of j _ a h] by (auto split: if_splits)
qed

text \<open>A new task is scheduled; a task that registers with a handle takes it from nobody else.\<close>

lemma fj_live_fork:
  assumes live: "fj_live (fj_config_of e m) e w" and n: "1 \<le> next_id e" and w2: "waits w2 = waits w"
    and fresh: "fj_config_of e m (next_id e) = None"
  shows "fj_live ((fj_config_of e m)(next_id e \<mapsto> b)) (apply_action (Spawn_Task (next_id e, b)) e) w2"
  unfolding fj_live_def
proof (intro allI impI)
  let ?n = "next_id e" and ?e2 = "apply_action (Spawn_Task (next_id e, b)) e"
  fix j assume j: "((fj_config_of e m)(?n \<mapsto> b)) j \<noteq> None"
  show "roused ?e2 j \<or> fj_stuck ((fj_config_of e m)(?n \<mapsto> b)) w2 j"
  proof (cases "j = ?n")
    case True
    then show ?thesis using n by (simp add: roused_def enqueue_def allocate_id_def)
  next
    case False
    then have "roused e j \<or> fj_stuck (fj_config_of e m) w j" using j live by (simp add: fj_live_def)
    then show ?thesis using False roused_apply_action[of e j] by (auto simp: fj_stuck_def w2 simp del: apply_action.simps)
  qed
qed

lemma fj_live_wait:
  assumes live: "fj_live cfg e w" and inv: "fj_inv (cfg(i \<mapsto> (p, env))) V n w" and i: "cfg i = None" and h: "h \<in> set env"
    and waits: "\<And>j. j \<noteq> i \<Longrightarrow> waits w1 j = waits w j - {h}"
  shows "fj_live cfg e w1"
  unfolding fj_live_def
proof (intro allI impI)
  fix j assume j: "cfg j \<noteq> None"
  then have ji: "j \<noteq> i" using i by auto
  have "roused e j \<or> fj_stuck cfg w j" using j live by (simp add: fj_live_def)
  then show "roused e j \<or> fj_stuck cfg w1 j"
  proof
    assume "fj_stuck cfg w j"
    then obtain n1 k1 env1 where s: "cfg j = Some (Join n1 k1, env1)" "n1 < length env1" "env1 ! n1 \<in> waits w j"
      by (auto simp: fj_stuck_def)
    have "env1 ! n1 \<noteq> h"
      using fj_invD(2)[OF inv, of i p env j "Join n1 k1" env1 h] s(1,2) ji h by auto
    then show ?thesis using s ji by (auto simp: fj_stuck_def waits)
  qed simp
qed

lemma fj_work_program:
  assumes "i < next_id e"
  shows "fj_work (cfg(i := x)) V e + fj_weight V y = fj_work (cfg(i := y)) V e + fj_weight V x"
  using fj_work_upd[OF assms, of cfg x V] fj_work_upd[OF assms, of cfg y V] by simp

lemma fj_run_wait:
  assumes sp: "spawned_inv i e w" and cfg: "fj_config_of e m i = None"
    and inv: "fj_inv ((fj_config_of e m)(i \<mapsto> (Join n k, env))) V (next_id e) w"
    and live: "fj_live (fj_config_of e m) e w" and n: "n < length env"
    and h: "((fj_config_of e m)(i \<mapsto> (Join n k, env))) (env ! n) \<noteq> None" and al: "allocated (env ! n) w"
  shows "\<exists>w1. handle_poll i (env ! n) w = Some (Pending, w1) \<and>
    fj_after i m V (next_id e) (fj_work ((fj_config_of e m)(i \<mapsto> (Join n k, env))) V e) (Some (Inl (Join n k, env))) e w1"
proof -
  let ?h = "env ! n" and ?cfg = "fj_config_of e m" let ?full = "?cfg(i \<mapsto> (Join n k, env))"
  note D = fj_invD[OF inv]
  have hm: "?h \<in> set env" using n by simp
  obtain q b where "?full ?h = Some (q, b)" using h by (cases "?full ?h") auto
  from fj_taskD(7)[OF D(1)[OF this]] have fl: "flags (handles w ?h) = Flag_Pending"
    using fj_taskD(5)[OF D(1)[of i "Join n k" env] hm] by simp
  let ?w1 = "note_poll i ?h (Pending :: 'a join_result poll) (w\<lparr>handles := (handles w)(?h := register_waker i (handles w ?h))\<rparr>)"
  have hp: "handle_poll i ?h w = Some (Pending, ?w1)"
    using al fl by (simp add: handle_poll_def join_poll_def Let_def)
  have waits: "waits ?w1 j = (if j = i then insert ?h (waits w i) else waits w j - {?h})" for j
    by (simp add: note_poll_def)
  have "fj_inv ?full V (next_id e) ?w1"
    by (rule fj_inv_same[OF inv]) (simp_all add: note_poll_def)
  moreover have "fj_live ?cfg e ?w1" by (rule fj_live_wait[OF live inv cfg hm]) (simp add: waits)
  moreover have "fj_stuck ?full ?w1 i" using n by (simp add: fj_stuck_def waits)
  ultimately have "fj_after i m V (next_id e) (fj_work ?full V e) (Some (Inl (Join n k, env))) e ?w1"
    using cfg by (intro fj_afterI[where x = "(Join n k, env)" and ?V1.0 = V]) (simp_all del: fun_upd_apply)
  then show ?thesis using hp by blast
qed

lemma fj_run:
  assumes "run_prog i (fj_prog i p env) w = (acts, r, w1)" "spawned_inv i e w" "i < next_id e"
    "fj_config_of e m i = None" "fj_inv ((fj_config_of e m)(i \<mapsto> (p, env))) V (next_id e) w"
    "fj_live (fj_config_of e m) e w"
  shows "fj_after i m V (next_id e) (fj_work ((fj_config_of e m)(i \<mapsto> (p, env))) V e) r (apply_actions acts e) w1"
  using assms
proof (induction p arbitrary: env w e acts V)
  case (Ret v)
  then show ?case by (intro fj_afterI[where x = "(Ret v, env)" and ?V1.0 = V]) (simp_all del: fun_upd_apply)
next
  case (Fork c k)
  let ?n = "next_id e" let ?cfg = "fj_config_of e m"
  let ?r0 = "\<lambda>r. case r of Inl x \<Rightarrow> Panic | Inr h \<Rightarrow> fj_prog i k (env @ [h])"
  obtain h a w2 where sp: "spawn (c, [] :: nat list) w = (h, a, w2)" by (metis prod_cases3)
  note S = spawned_inv_spawn[OF Fork.prems(2) sp]
  let ?e2 = "apply_action (Spawn_Task (?n, c, [])) e" let ?V = "V(?n := fj_eval c [])"
  obtain a1 where a1: "run_prog i (fj_prog i k (env @ [?n])) w2 = (a1, r, w1)" "acts = a @ a1"
    using Fork.prems(1) sp S(2) by (auto split: prod.splits)
  have e2: "apply_actions a e = ?e2" "next_id ?e2 = Suc ?n" "run_queue ?e2 = run_queue e @ [?n]"
      "main_notified ?e2 = main_notified e"
    by (simp_all add: S(3) enqueue_def allocate_id_def)
  have n: "1 \<le> ?n" "next_handle w = ?n"
    using join_invD(1,2)[of e w] Fork.prems(2) by (simp_all add: spawned_inv_def)
  have c2: "fj_config_of ?e2 m = ?cfg(?n \<mapsto> (c, []))" by (rule fj_config_spawn[OF n(1)])
  have w2: "handles w2 = (handles w)(?n := shared_new)" "waits w2 = waits w"
    using sp n(2) by (auto simp: spawn_def spawn_erased_def completer_new_def)
  have fresh: "?cfg ?n = None"
    using fj_taskD(1)[OF fj_invD(1)[OF Fork.prems(5), of ?n]] Fork.prems(3) by (cases "?cfg ?n") fastforce+
  have inv: "fj_inv ((fj_config_of ?e2 m)(i \<mapsto> (k, env @ [?n]))) ?V (next_id ?e2) w2"
  proof -
    have "(?cfg(i \<mapsto> (Fork c k, env)))(?n \<mapsto> (c, []), i \<mapsto> (k, env @ [?n])) = ?cfg(?n \<mapsto> (c, []), i \<mapsto> (k, env @ [?n]))"
      by (simp add: fun_eq_iff)
    moreover have "fj_inv ((?cfg(i \<mapsto> (Fork c k, env)))(?n \<mapsto> (c, []), i \<mapsto> (k, env @ [?n]))) ?V (Suc ?n) w2"
      by (rule fj_fork[OF Fork.prems(5) _ _ _ n(1)]) (simp_all add: w2(1))
    ultimately show ?thesis by (simp only: c2 e2(2))
  qed
  have live: "fj_live (fj_config_of ?e2 m) ?e2 w2"
    unfolding c2 by (rule fj_live_fork[OF Fork.prems(6) n(1) w2(2) fresh])
  have "fj_config_of ?e2 m i = None" "i < next_id ?e2"
    unfolding c2 e2(2) using Fork.prems(3,4) by simp_all
  note IH = Fork.IH(2)[OF a1(1) S(1)[unfolded e2(1)] this(2,1) inv live]
  have acts: "apply_actions acts e = apply_actions a1 ?e2" unfolding a1(2) apply_actions_append e2(1) ..
  have "fj_work ((fj_config_of ?e2 m)(i \<mapsto> (k, env @ [?n]))) ?V ?e2 \<le> fj_work (?cfg(i \<mapsto> (Fork c k, env))) V e"
    unfolding c2 by (rule fork_work[OF Fork.prems(5,3) e2(3,2,4)])
  moreover have "\<And>j. j < ?n \<Longrightarrow> ?V j = V j" by simp
  moreover have "?n \<le> next_id ?e2" by (simp only: e2(2))
  ultimately show ?case unfolding acts using fj_after_weaken[OF IH] by blast
next
  case (Join n k)
  let ?h = "env ! n" let ?cfg = "fj_config_of e m" let ?full = "?cfg(i \<mapsto> (Join n k, env))"
  have i: "?full i = Some (Join n k, env)" by simp
  note D = fj_invD[OF Join.prems(5)]
  note T = fj_taskD[OF D(1)[OF i]]
  have n: "n < length env" using T(2) by simp
  then have h: "?h \<in> set env" by simp
  have al: "allocated ?h w"
    using T(5,6)[OF h] join_invD(1)[of e w] Join.prems(2) by (simp add: allocated_def spawned_inv_def)
  show ?case
  proof (cases "?full ?h")
    case (Some pa)
    then have "?full ?h \<noteq> None" by (simp del: fun_upd_apply)
    from fj_run_wait[OF Join.prems(2,4,5,6) n this al] obtain w2 where
      "handle_poll i ?h w = Some (Pending, w2)"
      "fj_after i m V (next_id e) (fj_work ?full V e) (Some (Inl (Join n k, env))) e w2" by blast
    moreover from this(1) have "acts = []" "r = Some (Inl (Join n k, env))" "w1 = w2"
      using Join.prems(1) n by simp_all
    ultimately show ?thesis by (simp only: apply_actions_simps)
  next
    case None
    have R: "flags (handles w ?h) = Flag_Ready" "task_result (handles w ?h) = Some (V ?h)"
      using D(3)[OF i h None] by simp_all
    let ?w2 = "note_poll i ?h (Ready (Joined (V ?h))) (w\<lparr>handles := (handles w)(?h := (handles w ?h)\<lparr>task_result := None\<rparr>)\<rparr>)"
    have hp: "handle_poll i ?h w = Some (Ready (Joined (V ?h)), ?w2)"
      using al R by (simp add: handle_poll_def join_poll_def take_result_def)
    then have run: "run_prog i (fj_prog i (k (V ?h)) (remove_nth n env)) ?w2 = (acts, r, w1)"
      using Join.prems(1) n by simp
    have w2: "waits ?w2 = waits w" "\<And>g. flags (handles ?w2 g) = flags (handles w g)"
        "\<And>g. g \<noteq> ?h \<Longrightarrow> task_result (handles ?w2 g) = task_result (handles w g)"
      by (simp_all add: note_poll_def)
    have inv: "fj_inv (?cfg(i \<mapsto> (k (V ?h), remove_nth n env))) V (next_id e) ?w2"
    proof -
      have "fj_inv (?full(i \<mapsto> (k (V ?h), remove_nth n env))) V (next_id e) ?w2"
        by (rule fj_joined(2)[OF Join.prems(5) i n R w2(2,3)])
      then show ?thesis by (simp only: fun_upd_upd)
    qed
    have "fj_live ?cfg e ?w2" using Join.prems(6) by (simp add: fj_live_def fj_stuck_def w2(1))
    note IH = Join.IH[OF _ run spawned_inv_handle_poll[OF Join.prems(2) hp Join.prems(3)] Join.prems(3,4) inv this]
    have "fj_weight V (Some (k (V ?h), remove_nth n env)) = fj_weight V (Some (Join n k, env))"
      using n by (simp add: fj_weight_def remove_nth_map)
    then have "fj_work (?cfg(i \<mapsto> (k (V ?h), remove_nth n env))) V e = fj_work ?full V e"
      using fj_work_program[OF Join.prems(3), of ?cfg "Some (Join n k, env)" V] by (metis add_right_cancel)
    then show ?thesis using IH by (simp del: fun_upd_apply)
  qed
next
  case (Yield k)
  let ?cfg = "fj_config_of e m" let ?e1 = "apply_action (waker_action i) e"
  have eq: "acts = [waker_action i]" "r = Some (Inl (k, env))" "w1 = w" using Yield.prems(1) by simp_all
  have "fj_inv (?cfg(i \<mapsto> (k, env))) V (next_id e) w" by (rule fj_inv_program[OF Yield.prems(5)]) simp_all
  moreover have "fj_live ?cfg ?e1 w" by (rule fj_live_mono[OF Yield.prems(6) roused_apply_action])
  moreover have "fj_work (?cfg(i \<mapsto> (k, env))) V ?e1 \<le> fj_work (?cfg(i \<mapsto> (Yield k, env))) V e"
    using fj_work_program[OF Yield.prems(3), of ?cfg "Some (k, env)" V "Some (Yield k, env)"]
      waker_action_work[of "?cfg(i \<mapsto> (k, env))" V i e] by (simp add: fj_weight_def)
  moreover have "roused ?e1 i" by (rule waker_action_rouses[OF Yield.prems(3)])
  ultimately show ?case
    using Yield.prems(4) by (intro fj_afterI[where x = "(k, env)" and ?V1.0 = V]) (simp_all add: eq del: fun_upd_apply)
qed

section \<open>The executor's loops\<close>

text \<open>Between polls; \<open>m\<close> is the main future.\<close>

definition fj_ready ::
  "('v fj \<times> nat list) option \<Rightarrow> (nat \<Rightarrow> 'v) \<Rightarrow> (nat \<times> 'v fj \<times> nat list) executor \<Rightarrow> ('v, 'u) spawn_world \<Rightarrow> bool" where
  "fj_ready m V e w \<longleftrightarrow> spawned_inv 0 e w \<and> fj_inv (fj_config_of e m) V (next_id e) w \<and> fj_live (fj_config_of e m) e w"

text \<open>A later state: the values foreseen before are kept, and the work does not grow.\<close>

definition fj_later ::
  "('v fj \<times> nat list) option \<Rightarrow> (nat \<Rightarrow> 'v) \<Rightarrow> nat \<Rightarrow> nat \<Rightarrow> (nat \<times> 'v fj \<times> nat list) executor \<Rightarrow> ('v, 'u) spawn_world \<Rightarrow> bool" where
  "fj_later m V n0 B e w \<longleftrightarrow> (\<exists>V1. (\<forall>j < n0. V1 j = V j) \<and> n0 \<le> next_id e \<and> fj_ready m V1 e w \<and>
     fj_work (fj_config_of e m) V1 e \<le> B)"

lemma fj_later_trans:
  assumes "\<And>j. j < n0 \<Longrightarrow> V1 j = V j" "n0 \<le> n1" "fj_later m V1 n1 B1 e w" "B1 \<le> B"
  shows "fj_later m V n0 B e w"
  using assms unfolding fj_later_def by (metis le_trans less_le_trans)

lemma fj_config_pending:
  "i \<noteq> 0 \<Longrightarrow> fj_config_of (e\<lparr>registry := (registry e)(i \<mapsto> (i, x))\<rparr>) m = (fj_config_of e m)(i \<mapsto> x)"
  by (auto simp: fj_config_of_def)

lemma fj_config_same: "registry e1 = registry e \<Longrightarrow> fj_config_of e1 m = fj_config_of e m"
  by (simp add: fj_config_of_def fun_eq_iff)

text \<open>A poll of a task that is pending again, and of one that returns.\<close>

lemma fj_poll_pending:
  assumes af: "fj_after i m V n0 B (Some (Inl x)) e w" and i: "i \<noteq> 0"
  shows "\<exists>V1. (\<forall>j < n0. V1 j = V j) \<and> n0 \<le> next_id e \<and>
    fj_inv (fj_config_of (e\<lparr>registry := (registry e)(i \<mapsto> (i, x))\<rparr>) m) V1 (next_id e) w \<and>
    fj_live (fj_config_of (e\<lparr>registry := (registry e)(i \<mapsto> (i, x))\<rparr>) m) (e\<lparr>registry := (registry e)(i \<mapsto> (i, x))\<rparr>) w \<and>
    fj_work (fj_config_of (e\<lparr>registry := (registry e)(i \<mapsto> (i, x))\<rparr>) m) V1 (e\<lparr>registry := (registry e)(i \<mapsto> (i, x))\<rparr>) \<le> B"
proof -
  obtain V1 where V1: "\<forall>j < n0. V1 j = V j" "n0 \<le> next_id e" "fj_config_of e m i = None"
     "fj_inv ((fj_config_of e m)(i \<mapsto> x)) V1 (next_id e) w" "fj_live (fj_config_of e m) e w"
     "fj_work ((fj_config_of e m)(i \<mapsto> x)) V1 e \<le> B"
     "roused e i \<or> fj_stuck ((fj_config_of e m)(i \<mapsto> x)) w i"
    using af unfolding fj_after_def by blast
  have "fj_live ((fj_config_of e m)(i \<mapsto> x)) (e\<lparr>registry := (registry e)(i \<mapsto> (i, x))\<rparr>) w"
    by (rule fj_live_upd[OF V1(5)]) (use V1(7) in \<open>auto simp: roused_def split: if_splits\<close>)
  then show ?thesis
    using V1 by (intro exI[of _ V1]) (simp add: fj_config_pending[OF i] fj_work_def del: fun_upd_apply)
qed

lemma completion_wakes_one:
  "length (drop (length (woken s)) (woken (completer_complete v s))) \<le> 1"
  using settles_ops(4)[of s v] by (auto simp: settles_def split: option.splits)

lemma fj_poll_returned:
  fixes w :: "('v, 'u) spawn_world" and v :: 'v
  assumes af: "fj_after i m V n0 B (Some (Inr v)) e w" and i: "i \<noteq> 0" "i < next_id e"
    and e1: "e1 = apply_actions (wakes_between (handles w i) (completer_complete v (handles w i))) e"
    and w1: "w1 = w\<lparr>handles := (handles w)(i := completer_complete v (handles w i)), outputs := outs\<rparr>"
  shows "\<exists>V1. (\<forall>j < n0. V1 j = V j) \<and> n0 \<le> next_id e1 \<and> fj_inv (fj_config_of e1 m) V1 (next_id e1) w1 \<and>
    fj_live (fj_config_of e1 m) e1 w1 \<and> fj_work (fj_config_of e1 m) V1 e1 \<le> B"
proof -
  let ?cfg = "fj_config_of e m"
  obtain V1 env where V1: "\<forall>j < n0. V1 j = V j" "n0 \<le> next_id e" "?cfg i = None"
     "fj_inv (?cfg(i \<mapsto> (Ret v, env))) V1 (next_id e) w" "fj_live ?cfg e w"
     "fj_work (?cfg(i \<mapsto> (Ret v, env))) V1 e \<le> B"
    using af unfolding fj_after_def by force
  have e1f: "fj_config_of e1 m = ?cfg" "next_id e1 = next_id e" by (simp_all add: e1 wakes_between_def)
  have gone: "(?cfg(i \<mapsto> (Ret v, env)))(i := None) = ?cfg" using V1(3) by (simp add: fun_eq_iff)
  have inv: "fj_inv ((?cfg(i \<mapsto> (Ret v, env)))(i := None)) V1 (next_id e) w1"
    by (rule fj_returned[OF V1(4) _ i(1)])
       (simp_all add: w1 completer_complete_flags task_result_ops)
  have "fj_live ?cfg e w1" using V1(5) by (simp add: fj_live_def fj_stuck_def w1)
  then have live: "fj_live ?cfg e1 w1" by (rule fj_live_mono) (simp add: e1 roused_apply_actions)
  have "fj_work ?cfg V1 e + 1 = fj_work (?cfg(i \<mapsto> (Ret v, env))) V1 e"
    using fj_work_upd[OF i(2), of ?cfg "Some (Ret v, env)" V1] V1(3) by (simp add: fj_weight_def)
  moreover have "fj_work ?cfg V1 e1 \<le> fj_work ?cfg V1 e + 1"
    using completion_wakes_one[of "handles w i" v]
      waker_actions_work[of ?cfg V1 "drop (length (woken (handles w i))) (woken (completer_complete v (handles w i)))" e]
    unfolding e1 wakes_between_def by linarith
  ultimately show ?thesis using V1(1,2,6) inv live unfolding gone e1f by (intro exI[of _ V1]) simp
qed

lemma fj_poll_task:
  fixes w :: "('v, 'u) spawn_world"
  assumes rd: "fj_ready m V e w" and q: "run_queue e = i # q"
    and r: "poll_task (spawned_poll fj_user) i (e\<lparr>run_queue := q\<rparr>, w) = (e1, w1)"
  shows "\<exists>B. fj_later m V (next_id e) B e1 w1 \<and> B < fj_work (fj_config_of e m) V e"
proof -
  have sp: "spawned_inv 0 e w" and inv: "fj_inv (fj_config_of e m) V (next_id e) w" and live: "fj_live (fj_config_of e m) e w"
    using rd by (simp_all add: fj_ready_def)
  have sp1: "spawned_inv 0 e1 w1" using poll_task_inv[OF sp q r] by simp
  show ?thesis
  proof (cases "registry e i")
    case None
    then have eq: "e1 = e\<lparr>run_queue := q\<rparr>" "w1 = w" using r by (simp_all add: poll_task_def)
    have c: "fj_config_of e1 m = fj_config_of e m" by (rule fj_config_same) (simp add: eq)
    have "fj_live (fj_config_of e m) e1 w1"
      using fj_live_mono[OF live, of e1] by (simp add: eq roused_def)
    then have "fj_later m V (next_id e) (fj_work (fj_config_of e m) V e1) e1 w1"
      using sp1 inv unfolding fj_later_def fj_ready_def c by (intro exI[of _ V]) (simp add: eq)
    moreover have "fj_work (fj_config_of e m) V e1 < fj_work (fj_config_of e m) V e"
      using q by (simp add: eq fj_work_def)
    ultimately show ?thesis by blast
  next
    case (Some b)
    note P = polled_inv[OF sp q Some]
    obtain p env where b: "b = (i, p, env)" using P(1) by (cases b) auto
    let ?e = "e\<lparr>run_queue := q, registry := (registry e)(i := None), task_queued := (task_queued e)(i := False)\<rparr>"
    let ?w = "begin_poll i w" and ?c = "fj_config_of (e\<lparr>run_queue := q, registry := (registry e)(i := None),
      task_queued := (task_queued e)(i := False)\<rparr>) m"
    have c: "?c(i \<mapsto> (p, env)) = fj_config_of e m" "?c i = None" "\<And>j. j \<noteq> i \<Longrightarrow> ?c j = fj_config_of e m j"
      using Some b P(2) by (auto simp: fj_config_of_def fun_eq_iff)
    have inv0: "fj_inv (?c(i \<mapsto> (p, env))) V (next_id ?e) ?w"
      unfolding c(1) using fj_inv_same[OF inv, of ?w] by (simp add: begin_poll_def)
    have live0: "fj_live ?c ?e ?w"
      by (rule fj_live_begin[where i = i, OF live]) (use c(2,3) in \<open>simp_all add: roused_def\<close>)
    obtain acts res w2 where run: "run_prog i (fj_prog i p env) ?w = (acts, res, w2)" by (metis prod_cases3)
    let ?B = "fj_work (fj_config_of e m) V ?e" and ?e2 = "apply_actions acts ?e"
    have lt: "i < next_id ?e" using P(3) by simp
    have af: "fj_after i m V (next_id e) ?B res ?e2 w2"
      using fj_run[OF run P(4) lt c(2) inv0 live0] unfolding c(1) by simp
    have i2: "i < next_id ?e2" "next_handle w2 = next_id ?e2"
      using run_prog_inv[OF run P(4) lt] join_invD(1)[of ?e2 w2] by (simp_all add: spawned_inv_def)
    have B: "?B < fj_work (fj_config_of e m) V e" using q by (simp add: fj_work_def)
    have user: "run_prog i (fj_user i (p, env)) ?w = (acts, res, w2)" using run by (simp add: fj_user_def)
    have "\<exists>V1. (\<forall>j < next_id e. V1 j = V j) \<and> next_id e \<le> next_id e1 \<and> fj_inv (fj_config_of e1 m) V1 (next_id e1) w1 \<and>
        fj_live (fj_config_of e1 m) e1 w1 \<and> fj_work (fj_config_of e1 m) V1 e1 \<le> ?B"
    proof -
      from af consider (pend) x where "res = Some (Inl x)" | (fin) v where "res = Some (Inr v)"
        unfolding fj_after_def by blast
      then show ?thesis
      proof cases
        case pend
        have "e1 = ?e2\<lparr>registry := (registry ?e2)(i \<mapsto> (i, x))\<rparr>" "w1 = w2"
          using r Some b user pend by (simp_all add: poll_task_def spawned_poll_def Let_def)
        then show ?thesis using fj_poll_pending[OF af[unfolded pend] P(2)] by simp
      next
        case fin
        let ?s = "completer_complete v (handles w2 i)"
        let ?e3 = "apply_actions (wakes_between (handles w2 i) ?s) ?e2"
        have eq: "e1 = ?e3\<lparr>task_done := (task_done ?e3)(i := True)\<rparr>"
            "w1 = w2\<lparr>handles := (handles w2)(i := ?s), outputs := (outputs w2)(i \<mapsto> v)\<rparr>"
          using r Some b user fin i2 P(2)
          by (simp_all add: poll_task_def spawned_poll_def Let_def on_handle_def note_output_def allocated_def)
        have c1: "fj_config_of e1 m = fj_config_of ?e3 m" "next_id e1 = next_id ?e3" "\<And>j. roused ?e3 j \<Longrightarrow> roused e1 j"
            "\<And>c V. fj_work c V e1 = fj_work c V ?e3"
          by (auto simp: eq(1) fj_config_of_def roused_def fj_work_def)
        from fj_poll_returned[OF af[unfolded fin] P(2) i2(1) refl eq(2)] show ?thesis
          unfolding c1(1,2,4) using fj_live_mono[OF _ c1(3)] by blast
      qed
    qed
    then show ?thesis using sp1 B unfolding fj_later_def fj_ready_def by blast
  qed
qed

lemma fj_scheduled:
  fixes w :: "('v, 'u) spawn_world"
  assumes "fj_ready m V e w"
  shows "\<exists>e1 w1. poll_scheduled_tasks (spawned_poll fj_user) (e, w) = Some (e1, w1) \<and> run_queue e1 = [] \<and>
    fj_later m V (next_id e) (fj_work (fj_config_of e m) V e) e1 w1"
  using assms
proof (induction "fj_work (fj_config_of e m) V e" arbitrary: V e w rule: less_induct)
  case less
  show ?case
  proof (cases "run_queue e")
    case Nil
    then have "poll_scheduled_tasks (spawned_poll fj_user) (e, w) = Some (e, w)"
      by (subst poll_scheduled_tasks.simps) simp
    moreover have "fj_later m V (next_id e) (fj_work (fj_config_of e m) V e) e w"
      using less.prems unfolding fj_later_def by blast
    ultimately show ?thesis using Nil by blast
  next
    case (Cons i q)
    obtain e1 w1 where r: "poll_task (spawned_poll fj_user) i (e\<lparr>run_queue := q\<rparr>, w) = (e1, w1)" by fastforce
    from fj_poll_task[OF less.prems Cons r] obtain B V1 where B: "B < fj_work (fj_config_of e m) V e"
      and V1: "\<forall>j < next_id e. V1 j = V j" "next_id e \<le> next_id e1" "fj_ready m V1 e1 w1" "fj_work (fj_config_of e1 m) V1 e1 \<le> B"
      unfolding fj_later_def by blast
    from less.hyps[OF _ V1(3)] B V1(4) obtain e2 w2 where e2:
      "poll_scheduled_tasks (spawned_poll fj_user) (e1, w1) = Some (e2, w2)" "run_queue e2 = []"
      "fj_later m V1 (next_id e1) (fj_work (fj_config_of e1 m) V1 e1) e2 w2" by fastforce
    have "poll_scheduled_tasks (spawned_poll fj_user) (e, w) = Some (e2, w2)"
      using Cons r e2(1) by (subst poll_scheduled_tasks.simps) simp
    moreover have "fj_later m V (next_id e) (fj_work (fj_config_of e m) V e) e2 w2"
      by (rule fj_later_trans[OF _ V1(2) e2(3)]) (use V1(1,4) B in auto)
    ultimately show ?thesis using e2(2) by blast
  qed
qed

text \<open>
  No deadlock: the youngest of the waiting tasks waits for a younger one, which therefore has finished
  and would have woken it.
\<close>

lemma fj_main_awake:
  assumes rd: "fj_ready (Some x) V e w" and q: "run_queue e = []"
  shows "main_notified e"
proof (rule ccontr)
  assume nm: "\<not> main_notified e"
  let ?cfg = "fj_config_of e (Some x)"
  have inv: "fj_inv ?cfg V (next_id e) w" and live: "fj_live ?cfg e w" and sp: "spawned_inv 0 e w"
    using rd by (simp_all add: fj_ready_def)
  have J: "join_inv e w" and X: "exec_ok e" using sp own_invD(1)[of 0 e w] by (simp_all add: spawned_inv_def)
  have asleep: "\<not> roused e j" if "?cfg j \<noteq> None" for j
    using that nm q exec_okD(5,6)[OF X, of j] by (auto simp: roused_def fj_config_of_def split: if_splits)
  have lt: "dom ?cfg \<subseteq> {..<next_id e}"
  proof
    fix j assume "j \<in> dom ?cfg"
    then obtain p a where "?cfg j = Some (p, a)" by auto
    from fj_taskD(1)[OF fj_invD(1)[OF inv this]] show "j \<in> {..<next_id e}" by simp
  qed
  then have fin: "finite (dom ?cfg)" by (rule finite_subset) simp
  have ne: "0 \<in> dom ?cfg" by (simp add: fj_config_of_def dom_def)
  let ?j = "Max (dom ?cfg)"
  have "?j \<in> dom ?cfg" using Max_in[OF fin] ne by blast
  then have j: "?cfg ?j \<noteq> None" by blast
  then have "fj_stuck ?cfg w ?j" using live asleep unfolding fj_live_def by blast
  then obtain n k env where s: "?cfg ?j = Some (Join n k, env)" "n < length env" "env ! n \<in> waits w ?j"
    unfolding fj_stuck_def by blast
  have h: "env ! n \<in> set env" using s(2) by simp
  have fl: "flags (handles w (env ! n)) = Flag_Pending"
    using join_invD(3,10)[OF J] s(3) asleep[OF j] by blast
  then have "?cfg (env ! n) \<noteq> None" using fj_invD(3)[OF inv s(1) h] by force
  then have "env ! n \<le> ?j" using Max_ge[OF fin] by blast
  moreover have "?j < env ! n" by (rule fj_taskD(5)[OF fj_invD(1)[OF inv s(1)] h])
  ultimately show False by simp
qed

text \<open>A poll of the main future, when its waker was called.\<close>

lemma fj_poll_main:
  fixes w :: "('v, 'u) spawn_world"
  assumes rd: "fj_ready (Some (p, env)) V e w" and nt: "main_notified e"
  shows "\<exists>r e1 w1. poll_main (main_poll fj_user) (p, env) (e, w) = (r, e1, w1) \<and>
    (r = Inr (Some (V 0)) \<or> (\<exists>x B. r = Inl x \<and> fj_later (Some x) V (next_id e) B e1 w1 \<and>
       B < fj_work (fj_config_of e (Some (p, env))) V e))"
proof -
  let ?e = "e\<lparr>main_notified := False\<rparr>" and ?w = "begin_poll 0 w"
  let ?c = "fj_config_of (e\<lparr>main_notified := False\<rparr>) None" and ?full = "fj_config_of e (Some (p, env))"
  have sp: "spawned_inv 0 e w" and inv: "fj_inv ?full V (next_id e) w" and live: "fj_live ?full e w"
    using rd by (simp_all add: fj_ready_def)
  have upd: "(fj_config_of e1 None)(0 \<mapsto> x) = fj_config_of e1 (Some x)" for e1 :: "(nat \<times> 'v fj \<times> nat list) executor" and x
    by (simp add: fj_config_of_def fun_eq_iff)
  have full: "fj_config_of ?e (Some (p, env)) = ?full" by (rule fj_config_same) simp
  obtain acts r w1 where run: "run_prog 0 (fj_prog 0 p env) ?w = (acts, r, w1)" by (metis prod_cases3)
  let ?e1 = "apply_actions acts ?e" and ?B = "fj_work ?full V ?e"
  have inv0: "fj_inv (?c(0 \<mapsto> (p, env))) V (next_id ?e) ?w"
    unfolding upd full using fj_inv_same[OF inv, of ?w] by (simp add: begin_poll_def)
  have c0: "?c 0 = None" by (simp add: fj_config_of_def)
  have live0: "fj_live ?c ?e ?w"
    by (rule fj_live_begin[where i = 0, OF live]) (simp_all add: roused_def fj_config_of_def)
  have lt: "0 < next_id ?e" using join_invD(2)[of e w] sp by (simp add: spawned_inv_def)
  have af: "fj_after 0 None V (next_id e) ?B r ?e1 w1"
    using fj_run[OF run main_begin_inv[OF sp] lt c0 inv0 live0] unfolding upd full by simp
  have sp1: "spawned_inv 0 ?e1 w1" using run_prog_inv[OF run main_begin_inv[OF sp] lt] by simp
  have user: "run_prog 0 (fj_user 0 (p, env)) ?w = (acts, r, w1)" using run by (simp add: fj_user_def)
  obtain V1 x where V1: "\<forall>j < next_id e. V1 j = V j" "next_id e \<le> next_id ?e1"
      "fj_inv (fj_config_of ?e1 (Some x)) V1 (next_id ?e1) w1" "fj_live (fj_config_of ?e1 None) ?e1 w1"
      "fj_work (fj_config_of ?e1 (Some x)) V1 ?e1 \<le> ?B"
      "r = Some (Inl x) \<and> (roused ?e1 0 \<or> fj_stuck (fj_config_of ?e1 (Some x)) w1 0) \<or>
       (\<exists>v. r = Some (Inr v) \<and> fst x = Ret v)"
    using af unfolding fj_after_def upd by blast
  have B: "?B < fj_work ?full V e" using nt by (simp add: fj_work_def)
  from V1(6) show ?thesis
  proof
    assume r: "r = Some (Inl x) \<and> (roused ?e1 0 \<or> fj_stuck (fj_config_of ?e1 (Some x)) w1 0)"
    have "fj_live (fj_config_of ?e1 (Some x)) ?e1 w1"
      using fj_live_upd[OF V1(4), of 0 ?e1 x] r unfolding upd by blast
    then have "fj_later (Some x) V (next_id e) ?B ?e1 w1"
      using V1 sp1 unfolding fj_later_def fj_ready_def by blast
    moreover have "poll_main (main_poll fj_user) (p, env) (e, w) = (Inl x, ?e1, w1)"
      using user r nt by (simp add: poll_main_def main_poll_def)
    ultimately show ?thesis using B by blast
  next
    assume "\<exists>v. r = Some (Inr v) \<and> fst x = Ret v"
    then obtain v env1 where r: "r = Some (Inr v)" "x = (Ret v, env1)" by (cases x) auto
    have "V1 0 = v" using fj_taskD(3)[OF fj_invD(1)[OF V1(3), of 0 "Ret v" env1]] r(2) by (simp add: fj_config_of_def)
    then have "v = V 0" using V1(1) lt by simp
    then show ?thesis using user r(1) nt by (simp add: poll_main_def main_poll_def)
  qed
qed

lemma fj_block_on_loop:
  fixes w :: "('v, 'u) spawn_world"
  assumes "fj_ready (Some (p, env)) V e w" "main_notified e"
  shows "\<exists>e1 w1. block_on_loop (spawned_poll fj_user) (main_poll fj_user) ext (p, env) (e, w) = Some (Some (V 0), e1, w1)"
  using assms
proof (induction "fj_work (fj_config_of e (Some (p, env))) V e" arbitrary: p env V e w rule: less_induct)
  case less
  obtain r e1 w1 where pm: "poll_main (main_poll fj_user) (p, env) (e, w) = (r, e1, w1)"
    and r: "r = Inr (Some (V 0)) \<or> (\<exists>x B. r = Inl x \<and> fj_later (Some x) V (next_id e) B e1 w1 \<and>
       B < fj_work (fj_config_of e (Some (p, env))) V e)"
    using fj_poll_main[OF less.prems] by blast
  from r show ?case
  proof
    assume "r = Inr (Some (V 0))"
    then show ?thesis using pm by (subst block_on_loop.simps) simp
  next
    assume "\<exists>x B. r = Inl x \<and> fj_later (Some x) V (next_id e) B e1 w1 \<and> B < fj_work (fj_config_of e (Some (p, env))) V e"
    then obtain p1 env1 B V1 where x: "r = Inl (p1, env1)" "B < fj_work (fj_config_of e (Some (p, env))) V e"
        "\<forall>j < next_id e. V1 j = V j" "next_id e \<le> next_id e1" "fj_ready (Some (p1, env1)) V1 e1 w1"
        "fj_work (fj_config_of e1 (Some (p1, env1))) V1 e1 \<le> B"
      unfolding fj_later_def by auto
    from fj_scheduled[OF x(5)] obtain e2 w2 V2 where sch:
        "poll_scheduled_tasks (spawned_poll fj_user) (e1, w1) = Some (e2, w2)" "run_queue e2 = []"
        "\<forall>j < next_id e1. V2 j = V1 j" "fj_ready (Some (p1, env1)) V2 e2 w2"
        "fj_work (fj_config_of e2 (Some (p1, env1))) V2 e2 \<le> fj_work (fj_config_of e1 (Some (p1, env1))) V1 e1"
      unfolding fj_later_def by blast
    have aw: "main_notified e2" by (rule fj_main_awake[OF sch(4,2)])
    have "0 < next_id e" using join_invD(2)[of e w] less.prems(1) by (simp add: fj_ready_def spawned_inv_def)
    then have "V2 0 = V 0" using sch(3) x(3,4) by simp
    with less.hyps[OF _ sch(4) aw] sch(5) x(2,6) obtain e3 w3 where
      "block_on_loop (spawned_poll fj_user) (main_poll fj_user) ext (p1, env1) (e2, w2) = Some (Some (V 0), e3, w3)"
      by fastforce
    then show ?thesis using pm x(1) sch(1) aw by (subst block_on_loop.simps) simp
  qed
qed

lemma fj_block_on:
  assumes "fj_ok p []"
  shows "\<exists>e w. block_on (spawned_poll fj_user) (main_poll fj_user) ext (p, []) (executor_new, spawn_world_new u) =
    Some (Some (fj_eval p []), e, w)"
proof -
  let ?e = "executor_new\<lparr>main_notified := True\<rparr> :: (nat \<times> 'a fj \<times> nat list) executor"
  let ?w = "spawn_world_new u" and ?V = "\<lambda>_ :: nat. fj_eval p []"
  have c: "fj_config_of ?e (Some (p, [])) = Map.empty(0 \<mapsto> (p, []))"
    by (auto simp: fj_config_of_def executor_new_def)
  have "spawned_inv 0 ?e ?w"
    using spawned_inv_start[where ?'a = "'a fj \<times> nat list" and u = u]
      join_inv_roused[of executor_new ?w ?e] by (auto simp: spawned_inv_def own_inv_def exec_ok_def roused_def)
  moreover have "fj_inv (fj_config_of ?e (Some (p, []))) ?V (next_id ?e) ?w"
    unfolding c using assms by (intro fj_invI) (auto simp: fj_task_def executor_new_def split: if_splits)
  moreover have "fj_live (fj_config_of ?e (Some (p, []))) ?e ?w"
    unfolding c by (simp add: fj_live_def roused_def)
  ultimately have "fj_ready (Some (p, [])) ?V ?e ?w" by (simp add: fj_ready_def)
  from fj_block_on_loop[OF this] show ?thesis by (simp add: block_on_def)
qed

section \<open>Property\<close>

text \<open>
  C2: A fork-join program run by \<open>block_on\<close> on a new executor always ends, without a panic, a deadlock or
  a wait for an outside wake-up, and gives the value of its sequential evaluation, whatever the order in
  which its tasks are polled, joined and woken.
\<close>

theorem block_on_evaluates:
  assumes "fj_ok p []"
  shows "\<exists>e w. block_on (spawned_poll fj_user) (main_poll fj_user) ext (p, []) (executor_new, spawn_world_new u) =
    Some (Some (fj_eval p []), e, w)"
  by (rule fj_block_on[OF assms])

text \<open>Two tasks that yield, joined in the reverse order of their spawns.\<close>

theorem block_on_evaluates_witness:
  "\<exists>e w. block_on (spawned_poll fj_user) (main_poll fj_user) []
     (Fork (Yield (Ret (2 :: int))) (Fork (Yield (Yield (Ret 5))) (Join 1 (\<lambda>a. Join 0 (\<lambda>b. Ret (a - b))))), [])
     (executor_new, spawn_world_new ()) = Some (Some 3, e, w)"
  using block_on_evaluates[of "Fork (Yield (Ret (2 :: int))) (Fork (Yield (Yield (Ret 5))) (Join 1 (\<lambda>a. Join 0 (\<lambda>b. Ret (a - b)))))" "[]" "()"]
  by (simp add: remove_nth_def)

end
