(* ===== verification/Entry_Macro.thy ===== *)
theory Entry_Macro
  imports Fork_Join
begin

text \<open>
  The attribute \<open>#[tpt_async::main]\<close> (\<open>crates/tpt-async-macros/src/lib.rs\<close>): what it makes of its
  arguments and of the item, and what the program that it writes does.  The tokens are syn's: an argument
  is its name with a value, an item the parts of a function that the macro looks at.
\<close>

section \<open>Arguments\<close>

text \<open>The value of an argument: a string literal, or anything else after \<open>=\<close>, or nothing.\<close>

datatype meta_value = Lit_Str string | Other_Tokens | No_Value

datatype macro_error =
    Bad_Executor | Unsupported_Argument | Syntax_Error
  | Needs_Async | Needs_Main

text \<open>\<open>LitStr::parse::<Path>\<close> is a parameter.\<close>

definition executor_arg :: "(string \<Rightarrow> 'p option) \<Rightarrow> meta_value \<Rightarrow> macro_error + 'p option" where
  "executor_arg parse_path v =
     (case v of
        Lit_Str s \<Rightarrow>
          if s = ''default'' then Inr None
          else (case parse_path s of None \<Rightarrow> Inl Bad_Executor | Some p \<Rightarrow> Inr (Some p))
      | Other_Tokens \<Rightarrow> Inl Syntax_Error
      | No_Value \<Rightarrow> Inl Syntax_Error)"

text \<open>The arguments in turn; the last \<open>executor\<close> counts.\<close>

fun parse_args ::
  "(string \<Rightarrow> 'p option) \<Rightarrow> (string \<times> meta_value) list \<Rightarrow> 'p option \<Rightarrow> macro_error + 'p option" where
  "parse_args parse_path [] executor = Inr executor"
| "parse_args parse_path ((name, v) # args) executor =
     (if name = ''executor'' then
        (case executor_arg parse_path v of
           Inl e \<Rightarrow> Inl e
         | Inr executor1 \<Rightarrow> parse_args parse_path args executor1)
      else Inl Unsupported_Argument)"

section \<open>Expansion\<close>

record ('a, 'vis, 'ty, 'b) item_fn =
  fn_attrs :: "'a list"
  fn_vis :: 'vis
  fn_async :: bool
  fn_ident :: string
  fn_output :: "'ty option"
  fn_block :: 'b

text \<open>
  The function \<open>main\<close> that is written: \<open>runner(async body)\<close>, or \<open>LocalExecutor::new().block_on(async body)\<close>
  where \<open>mf_runner\<close> is \<open>None\<close>; \<open>mf_discards\<close> is the semicolon behind it.
\<close>

record ('a, 'vis, 'ty, 'p, 'b) main_fn =
  mf_attrs :: "'a list"
  mf_vis :: 'vis
  mf_output :: "'ty option"
  mf_runner :: "'p option"
  mf_body :: 'b
  mf_discards :: bool

definition expand_main ::
  "(string \<Rightarrow> 'p option) \<Rightarrow> (string \<times> meta_value) list \<Rightarrow> ('a, 'vis, 'ty, 'b) item_fn \<Rightarrow>
   macro_error + ('a, 'vis, 'ty, 'p, 'b) main_fn" where
  "expand_main parse_path args f =
     (case parse_args parse_path args None of
        Inl e \<Rightarrow> Inl e
      | Inr executor \<Rightarrow>
          if \<not> fn_async f then Inl Needs_Async
          else if fn_ident f \<noteq> ''main'' then Inl Needs_Main
          else
            let returns_value = fn_output f \<noteq> None
            in Inr \<lparr>mf_attrs = fn_attrs f, mf_vis = fn_vis f, mf_output = fn_output f, mf_runner = executor,
                   mf_body = fn_block f, mf_discards = \<not> returns_value\<rparr>)"

section \<open>The program\<close>

text \<open>
  A call of the written function, which gives a value unless it discards it; \<open>None\<close> is a panic or a
  program that does not end.  \<open>run_with\<close> is what a runner of the user's does.
\<close>

definition run_main ::
  "('p \<Rightarrow> 'b \<Rightarrow> 'v option) \<Rightarrow> ('b \<Rightarrow> 'v option) \<Rightarrow> ('a, 'vis, 'ty, 'p, 'b) main_fn \<Rightarrow> 'v option option" where
  "run_main run_with run_local m =
     map_option (\<lambda>v. if mf_discards m then None else Some v)
       (case mf_runner m of None \<Rightarrow> run_local (mf_body m) | Some p \<Rightarrow> run_with p (mf_body m))"

text \<open>A new executor that blocks on a program that forks and joins.\<close>

definition run_local_executor :: "'v fj \<Rightarrow> 'v option" where
  "run_local_executor p =
     (case block_on (spawned_poll fj_user) (main_poll fj_user) [] (p, []) (executor_new, spawn_world_new ()) of
        Some (Some v, e, w) \<Rightarrow> Some v
      | _ \<Rightarrow> None)"

section \<open>Lemmas\<close>

lemma parse_args_default:
  assumes "set args \<subseteq> {(''executor'', Lit_Str ''default'')}"
  shows "parse_args parse_path args None = Inr None"
  using assms by (induction args) (auto simp: executor_arg_def)

lemma expand_main_valid:
  assumes "parse_args parse_path args None = Inr executor" "fn_async f" "fn_ident f = ''main''"
  shows "\<exists>m. expand_main parse_path args f = Inr m \<and> mf_runner m = executor \<and> mf_body m = fn_block f \<and>
    mf_discards m = (fn_output f = None)"
  using assms by (simp add: expand_main_def)

lemma run_local_evaluates: "fj_ok p [] \<Longrightarrow> run_local_executor p = Some (fj_eval p [])"
  using fj_block_on[of p "[]" "()"] by (auto simp: run_local_executor_def)

section \<open>Property\<close>

text \<open>
  C36: An \<open>async fn main\<close> under the attribute, with no arguments or with \<open>executor = "default"\<close>, becomes a
  program that ends: it runs the body, and every task the body forks, to the value of their sequential
  evaluation, and gives that value exactly where the function declares a return type.
\<close>
theorem entry_point_evaluates:
  assumes "set args \<subseteq> {(''executor'', Lit_Str ''default'')}" "fn_async f" "fn_ident f = ''main''"
    and "fj_ok (fn_block f) []"
  shows "\<exists>m. expand_main parse_path args f = Inr m \<and>
    run_main run_with run_local_executor m =
      Some (if fn_output f = None then None else Some (fj_eval (fn_block f) []))"
proof -
  obtain m where m: "expand_main parse_path args f = Inr m" "mf_runner m = None" "mf_body m = fn_block f"
    "mf_discards m = (fn_output f = None)"
    using expand_main_valid[OF parse_args_default[OF assms(1)] assms(2,3)] by blast
  then have "run_main run_with run_local_executor m =
      Some (if fn_output f = None then None else Some (fj_eval (fn_block f) []))"
    using run_local_evaluates[OF assms(4)] by (simp add: run_main_def)
  then show ?thesis using m(1) by blast
qed

theorem entry_point_evaluates_witness:
  "\<exists>m. expand_main (\<lambda>_. Some ()) [(''executor'', Lit_Str ''default'')]
      \<lparr>fn_attrs = [] :: unit list, fn_vis = (), fn_async = True, fn_ident = ''main'', fn_output = Some (),
       fn_block = Fork (Yield (Ret (2 :: int))) (Join 0 (\<lambda>a. Ret (a + 1)))\<rparr> = Inr m \<and>
    run_main (\<lambda>_ _. None) run_local_executor m = Some (Some 3)"
  using entry_point_evaluates[of "[(''executor'', Lit_Str ''default'')]"
      "\<lparr>fn_attrs = [] :: unit list, fn_vis = (), fn_async = True, fn_ident = ''main'', fn_output = Some (),
        fn_block = Fork (Yield (Ret (2 :: int))) (Join 0 (\<lambda>a. Ret (a + 1)))\<rparr>"]
  by (simp add: remove_nth_def)

end
