(* ===== verification/Executor_Nested.thy ===== *)
theory Executor_Nested
  imports Executor
begin

text \<open>
  Polls that call \<open>run_until_stalled\<close> on the executor that is polling them (\<open>tpt-async-executor\<close>), and the
  variant of \<open>block_on\<close> where parking panics.  The nested calls make a stack: of polls, with what they are
  still to do, and of runs of the queue.
\<close>

section \<open>The stack machine\<close>

datatype 'b nested_action = Do "'b task_action" | Run_Stalled

type_synonym ('b, 'w) nested_poll = "'b \<Rightarrow> 'w \<Rightarrow> 'b nested_action list \<times> 'b option \<times> 'w"

datatype 'b nested_frame = Running | Polling nat "'b nested_action list" "'b option"

text \<open>One step of the topmost call: of the loop over the queue, or of a poll.\<close>

fun nested_step ::
  "('b, 'w) nested_poll \<Rightarrow> 'b nested_frame \<Rightarrow> 'b executor \<times> 'w \<Rightarrow> 'b nested_frame list \<times> 'b executor \<times> 'w" where
  "nested_step poll Running (e, w) =
     (case run_queue e of
        [] \<Rightarrow> ([], e, w)
      | i # q \<Rightarrow>
          (case registry e i of
             None \<Rightarrow> ([Running], e\<lparr>run_queue := q\<rparr>, w)
           | Some body \<Rightarrow>
               (case poll body w of (acts, res, w1) \<Rightarrow>
                  ([Polling i acts res, Running],
                   e\<lparr>run_queue := q, registry := (registry e)(i := None), task_queued := (task_queued e)(i := False)\<rparr>, w1))))"
| "nested_step poll (Polling i [] None) (e, w) = ([], e\<lparr>task_done := (task_done e)(i := True)\<rparr>, w)"
| "nested_step poll (Polling i [] (Some body)) (e, w) = ([], e\<lparr>registry := (registry e)(i \<mapsto> body)\<rparr>, w)"
| "nested_step poll (Polling i (Do a # acts) res) (e, w) = ([Polling i acts res], apply_action a e, w)"
| "nested_step poll (Polling i (Run_Stalled # acts) res) (e, w) = ([Running, Polling i acts res], e, w)"

partial_function (option) nested_run ::
  "('b, 'w) nested_poll \<Rightarrow> 'b nested_frame list \<Rightarrow> 'b executor \<times> 'w \<Rightarrow> ('b executor \<times> 'w) option" where
  "nested_run poll frames ew =
     (case frames of
        [] \<Rightarrow> Some ew
      | f # fs \<Rightarrow> (case nested_step poll f ew of (fs1, ew1) \<Rightarrow> nested_run poll (fs1 @ fs) ew1))"

definition nested_run_until_stalled :: "('b, 'w) nested_poll \<Rightarrow> 'b executor \<times> 'w \<Rightarrow> ('b executor \<times> 'w) option" where
  "nested_run_until_stalled poll ew = nested_run poll [Running] ew"

section \<open>Without nested calls\<close>

definition flat_poll :: "('b, 'w) poll_fn \<Rightarrow> ('b, 'w) nested_poll" where
  "flat_poll poll body w = (case poll body w of (acts, res, w1) \<Rightarrow> (map Do acts, res, w1))"

lemma nested_run_Nil [simp]: "nested_run poll [] ew = Some ew"
  by (simp add: nested_run.simps)

lemma nested_run_Cons:
  "nested_run poll (f # fs) ew = (case nested_step poll f ew of (fs1, ew1) \<Rightarrow> nested_run poll (fs1 @ fs) ew1)"
  by (subst nested_run.simps) simp

lemma nested_run_actions:
  "nested_run poll (Polling i (map Do acts) res # fs) (e, w) =
     nested_run poll (Polling i [] res # fs) (apply_actions acts e, w)"
  by (induction acts arbitrary: e) (simp_all add: nested_run_Cons apply_actions_def)

lemma nested_run_poll:
  assumes "run_queue e = i # q"
  shows "nested_run (flat_poll poll) (Running # fs) (e, w) =
    nested_run (flat_poll poll) (Running # fs) (poll_task poll i (e\<lparr>run_queue := q\<rparr>, w))"
proof (cases "registry e i")
  case None
  then show ?thesis using assms by (subst nested_run_Cons) (simp add: poll_task_def)
next
  case (Some body)
  obtain acts res w1 where p: "poll body w = (acts, res, w1)" by (metis prod_cases3)
  show ?thesis
    using assms Some p
    by (cases res; subst nested_run_Cons)
       (simp_all add: flat_poll_def nested_run_actions nested_run_Cons[of _ "Polling i [] _"] poll_task_def Let_def)
qed

text \<open>A run of polls that do not nest is the run of \<open>Executor\<close>, when that one returns.\<close>

lemma flat_run:
  assumes "poll_scheduled_tasks poll (e, w) = Some ew"
  shows "nested_run_until_stalled (flat_poll poll) (e, w) = Some ew"
proof -
  have "nested_run (flat_poll poll) [Running] a = Some r" if "poll_scheduled_tasks poll a = Some r" for a r
    using that
  proof (induction rule: poll_scheduled_tasks.raw_induct[rotated 1, consumes 1])
    case (1 rec poll a r)
    obtain e w where a: "a = (e, w)" by fastforce
    show ?case
    proof (cases "run_queue e")
      case Nil
      then show ?thesis using 1(2) a by (auto simp: nested_run_Cons)
    next
      case (Cons i q)
      have "nested_run (flat_poll poll) [Running] (poll_task poll i (e\<lparr>run_queue := q\<rparr>, w)) = Some r"
        using 1 Cons a by simp
      then show ?thesis using nested_run_poll[OF Cons, of poll "[]" w] a by simp
    qed
  qed
  then show ?thesis using assms by (simp add: nested_run_until_stalled_def)
qed

section \<open>A task that is lost\<close>

text \<open>
  A task that is woken while it is polled, by itself or by any thread, and then runs the executor before
  it returns pending: the nested run takes the task's id off the queue and finds nothing to poll.  The
  task stays, waiting, with its flag set and no place in the queue.
\<close>

definition stranded :: "nat \<Rightarrow> 'b executor \<Rightarrow> bool" where
  "stranded i e \<longleftrightarrow> registry e i \<noteq> None \<and> \<not> task_done e i \<and> task_queued e i \<and>
     i \<notin> set (run_queue e) \<and> i < next_id e"

lemma nested_run_strands:
  assumes "run_queue e = [i]" "registry e i = Some b" "\<not> task_done e i" "1 \<le> i" "i < next_id e"
    and "poll b w = ([Do (Wake_Task i), Run_Stalled], Some b1, w1)"
  shows "\<exists>e1. nested_run_until_stalled poll (e, w) = Some (e1, w1) \<and> registry e1 i = Some b1 \<and> stranded i e1 \<and>
    run_queue e1 = []"
  using assms
  by (simp add: nested_run_until_stalled_def nested_run_Cons stranded_def)

text \<open>No wake-up brings it back, from anywhere, and no further run of the executor.\<close>

lemma stranded_wake: "stranded i e \<Longrightarrow> stranded i (wake_target t e)"
  by (cases t) (auto simp: stranded_def)

lemma stranded_action: "stranded i e \<Longrightarrow> stranded i (apply_action a e)"
  by (cases a) (auto simp: stranded_wake wake_main_def enqueue_def allocate_id_def stranded_def)

fun polls_other :: "nat \<Rightarrow> 'b nested_frame \<Rightarrow> bool" where
  "polls_other i Running = True"
| "polls_other i (Polling j acts res) = (j \<noteq> i)"

lemma stranded_step:
  assumes "stranded i e" "polls_other i f" "nested_step poll f (e, w) = (fs, e1, w1)"
  shows "stranded i e1" "\<forall>g \<in> set fs. polls_other i g"
proof -
  have "stranded i e1 \<and> (\<forall>g \<in> set fs. polls_other i g)"
    using assms
    by (induction poll f "(e, w)" rule: nested_step.induct)
       (auto simp: stranded_action split: list.splits option.splits prod.splits, auto simp: stranded_def)
  then show "stranded i e1" "\<forall>g \<in> set fs. polls_other i g" by blast+
qed

lemma stranded_forever:
  assumes "stranded i e" "nested_run_until_stalled poll (e, w) = Some (e1, w1)"
  shows "stranded i e1"
proof -
  have "stranded i (fst a) \<longrightarrow> (\<forall>g \<in> set fs. polls_other i g) \<longrightarrow> stranded i (fst r)"
    if "nested_run poll fs a = Some r" for fs a r
    using that
  proof (induction rule: nested_run.raw_induct[rotated 1, consumes 1])
    case (1 rec poll fs a r)
    show ?case
    proof (cases fs)
      case Nil
      then show ?thesis using 1(2) by simp
    next
      case (Cons f fs1)
      obtain e w where a: "a = (e, w)" by fastforce
      obtain fs2 e2 w2 where st: "nested_step poll f (e, w) = (fs2, e2, w2)" by (metis prod_cases3)
      have "rec poll (fs2 @ fs1) (e2, w2) = Some r" using 1(2) Cons a st by simp
      from 1(1)[OF this] show ?thesis using stranded_step[OF _ _ st, of i] Cons a by auto
    qed
  qed
  then show ?thesis using assms by (fastforce simp: nested_run_until_stalled_def)
qed

section \<open>Without parking\<close>

text \<open>
  On WASM a stalled \<open>block_on\<close> panics instead of parking, with \<open>Inl ()\<close>; \<open>None\<close> is not returning.
\<close>

definition park_wasm :: "unit + 'r" where
  "park_wasm = Inl ()"

partial_function (option) block_on_wasm_loop ::
  "('b, 'w) poll_fn \<Rightarrow> ('m \<Rightarrow> 'w \<Rightarrow> 'b task_action list \<times> ('m + 'v) \<times> 'w) \<Rightarrow>
   'm \<Rightarrow> 'b executor \<times> 'w \<Rightarrow> (unit + 'v \<times> 'b executor \<times> 'w) option" where
  "block_on_wasm_loop poll pollm m ew =
     (case poll_main pollm m ew of
        (Inr v, ew1) \<Rightarrow> Some (Inr (v, ew1))
      | (Inl m1, ew1) \<Rightarrow>
          (case poll_scheduled_tasks poll ew1 of
             None \<Rightarrow> None
           | Some (e2, w2) \<Rightarrow>
               if main_notified e2 \<or> run_queue e2 \<noteq> [] then block_on_wasm_loop poll pollm m1 (e2, w2)
               else Some park_wasm))"

definition block_on_wasm ::
  "('b, 'w) poll_fn \<Rightarrow> ('m \<Rightarrow> 'w \<Rightarrow> 'b task_action list \<times> ('m + 'v) \<times> 'w) \<Rightarrow>
   'm \<Rightarrow> 'b executor \<times> 'w \<Rightarrow> (unit + 'v \<times> 'b executor \<times> 'w) option" where
  "block_on_wasm poll pollm m ew = block_on_wasm_loop poll pollm m ((fst ew)\<lparr>main_notified := True\<rparr>, snd ew)"

text \<open>Where it does not panic it gives what \<open>block_on\<close> gives elsewhere, which then never parks.\<close>

lemma block_on_wasm_same:
  assumes "block_on_wasm poll pollm m ew = Some (Inr r)"
  shows "block_on poll pollm ext m ew = Some r"
proof -
  have "x = Inr y \<longrightarrow> block_on_loop poll pollm ext m a = Some y" if "block_on_wasm_loop poll pollm m a = Some x" for m a x y
    using that
  proof (induction arbitrary: y rule: block_on_wasm_loop.raw_induct[rotated 1, consumes 1])
    case (1 rec poll pollm m a x)
    obtain q a1 where q: "poll_main pollm m a = (q, a1)" by (metis surj_pair)
    show ?case
    proof (cases q)
      case (Inr v)
      then show ?thesis using 1(2) q by (subst block_on_loop.simps) auto
    next
      case (Inl m1)
      obtain e2 w2 where p: "poll_scheduled_tasks poll a1 = Some (e2, w2)"
        using 1(2) q Inl by (auto split: option.splits)
      show ?thesis
      proof (cases "main_notified e2 \<or> run_queue e2 \<noteq> []")
        case True
        then have "rec poll pollm m1 (e2, w2) = Some x" using 1(2) q Inl p by auto
        from 1(1)[OF this] show ?thesis using True q Inl p by (subst block_on_loop.simps) auto
      next
        case False
        then show ?thesis using 1(2) q Inl p by (auto simp: park_wasm_def)
      qed
    qed
  qed
  then show ?thesis using assms by (auto simp: block_on_wasm_def block_on_def)
qed

end
