(* ===== verification/Adapter_Contracts.thy ===== *)
theory Adapter_Contracts
  imports Io_Adapters
begin

text \<open>
  The adapters under the contracts of the traits (\<open>Async_Traits\<close>).  What the foreign traits promise of
  a stream is stated as locales of their own, one for polled streams (tokio, async-std), one for calls
  that may block (\<open>std::io\<close>), the same for sinks; from them the adapted stream keeps the contract of this
  workspace, and so the futures \<open>read_exact\<close>, \<open>read_to_end\<close> and \<open>write_all\<close> work over it.  What
  \<open>unread\<close> counts are the bytes that come before the stream's end or its next error.

  The adapters for \<open>embedded-io-async\<close> poll a future of the inner stream once and drop it if it is
  pending.  That trait does not promise that such a future leaves the stream as it was, so nothing is
  stated here of what these adapters deliver, only of what they do to the buffer.
\<close>

section \<open>How a future calls an adapter\<close>

text \<open>The futures read into a fresh \<open>ReadBuf\<close> over a slice and look at what is filled afterwards.\<close>

definition reader_of ::
  "(read_buf \<Rightarrow> 's \<Rightarrow> ((io_error + unit) poll \<times> read_buf) option \<times> 's) \<Rightarrow> 's reader" where
  "reader_of pr cap s =
     (case pr (rb_new (replicate cap 0)) s of
        (None, s1) \<Rightarrow> None
      | (Some (Pending, rb), s1) \<Rightarrow> Some (Pending, s1)
      | (Some (Ready (Inl e), rb), s1) \<Rightarrow> Some (Ready (Inl e), s1)
      | (Some (Ready (Inr u), rb), s1) \<Rightarrow> Some (Ready (Inr (rb_filled rb)), s1))"

definition writer_of :: "(byte list \<Rightarrow> 's \<Rightarrow> (io_error + nat) poll \<times> 's) \<Rightarrow> 's writer" where
  "writer_of pw bs s = Some (pw bs s)"

lemma fill_fresh:
  "length bs \<le> cap \<Longrightarrow> \<exists>rb. fill_ready bs (rb_new (replicate cap 0)) = Some (Ready (Inr ()), rb) \<and> rb_filled rb = bs"
  by (auto simp: fill_ready_def rb_put_slice_def rb_new_def rb_filled_def rb_remaining_def)

section \<open>Polled streams\<close>

locale polled_stream =
  fixes inner :: "nat \<Rightarrow> 's \<Rightarrow> ('e + byte list) poll \<times> 's"
    and unread :: "'s \<Rightarrow> byte list"
  assumes inner_pending: "0 < cap \<Longrightarrow> inner cap s = (Pending, s1) \<Longrightarrow> unread s1 = unread s"
    and inner_error: "0 < cap \<Longrightarrow> inner cap s = (Ready (Inl e), s1) \<Longrightarrow> unread s = []"
    and inner_end: "0 < cap \<Longrightarrow> inner cap s = (Ready (Inr []), s1) \<Longrightarrow> unread s = []"
    and inner_room: "0 < cap \<Longrightarrow> inner cap s = (Ready (Inr bs), s1) \<Longrightarrow> length bs \<le> cap"
    and inner_bytes: "0 < cap \<Longrightarrow> inner cap s = (Ready (Inr bs), s1) \<Longrightarrow> bs \<noteq> [] \<Longrightarrow> unread s = bs @ unread s1"
begin

text \<open>An adapter whose poll is the inner one, with the error converted.\<close>

lemma adapted_reader:
  assumes "\<And>cap s. 0 < cap \<Longrightarrow> pr (rb_new (replicate cap 0)) s =
    (case inner cap s of
       (Pending, s1) \<Rightarrow> (Some (Pending, rb_new (replicate cap 0)), s1)
     | (Ready (Inl e), s1) \<Rightarrow> (Some (Ready (Inl (conv e)), rb_new (replicate cap 0)), s1)
     | (Ready (Inr bs), s1) \<Rightarrow> (fill_ready bs (rb_new (replicate cap 0)), s1))"
  shows "async_read (reader_of pr) unread"
proof -
  have rd: "reader_of pr cap s = (case inner cap s of
       (Pending, s1) \<Rightarrow> Some (Pending, s1)
     | (Ready (Inl e), s1) \<Rightarrow> Some (Ready (Inl (conv e)), s1)
     | (Ready (Inr bs), s1) \<Rightarrow> Some (Ready (Inr bs), s1))" if "0 < cap" for cap s
    using assms[OF that, of s] fill_fresh[OF inner_room[OF that]]
    by (fastforce simp: reader_of_def split: prod.splits poll.splits sum.splits)
  show ?thesis
    by unfold_locales
       (auto simp: rd dest: inner_pending inner_error inner_end inner_room inner_bytes
         split: prod.splits poll.splits sum.splits)
qed

end

section \<open>Calls that may block\<close>

text \<open>A call of \<open>std::io\<close> as a poll: \<open>WouldBlock\<close> is the pending answer.\<close>

definition poll_of_call ::
  "(nat \<Rightarrow> 's \<Rightarrow> (io_error + byte list) \<times> 's) \<Rightarrow> nat \<Rightarrow> 's \<Rightarrow> (io_error + byte list) poll \<times> 's" where
  "poll_of_call inner cap s =
     (case inner cap s of
        (Inr bs, s1) \<Rightarrow> (Ready (Inr bs), s1)
      | (Inl e, s1) \<Rightarrow> (if would_block e then Pending else Ready (Inl e), s1))"

locale blocking_stream =
  fixes call :: "nat \<Rightarrow> 's \<Rightarrow> (io_error + byte list) \<times> 's"
    and unread :: "'s \<Rightarrow> byte list"
  assumes call_blocked: "0 < cap \<Longrightarrow> call cap s = (Inl e, s1) \<Longrightarrow> would_block e \<Longrightarrow> unread s1 = unread s"
    and call_error: "0 < cap \<Longrightarrow> call cap s = (Inl e, s1) \<Longrightarrow> \<not> would_block e \<Longrightarrow> unread s = []"
    and call_end: "0 < cap \<Longrightarrow> call cap s = (Inr [], s1) \<Longrightarrow> unread s = []"
    and call_room: "0 < cap \<Longrightarrow> call cap s = (Inr bs, s1) \<Longrightarrow> length bs \<le> cap"
    and call_bytes: "0 < cap \<Longrightarrow> call cap s = (Inr bs, s1) \<Longrightarrow> bs \<noteq> [] \<Longrightarrow> unread s = bs @ unread s1"

sublocale blocking_stream \<subseteq> polled_stream "poll_of_call call" unread
  by unfold_locales
     (auto simp: poll_of_call_def split: prod.splits sum.splits if_splits
       dest: call_blocked call_error call_end call_room call_bytes)

section \<open>Sinks\<close>

locale polled_sink =
  fixes put :: "byte list \<Rightarrow> 's \<Rightarrow> ('e + nat) poll \<times> 's"
    and taken :: "'s \<Rightarrow> byte list"
  assumes put_pending: "put bs s = (Pending, s1) \<Longrightarrow> taken s1 = taken s"
    and put_error: "put bs s = (Ready (Inl e), s1) \<Longrightarrow> taken s1 = taken s"
    and put_takes: "put bs s = (Ready (Inr n), s1) \<Longrightarrow> n \<le> length bs \<and> taken s1 = taken s @ take n bs"
begin

lemma adapted_writer:
  assumes "\<And>bs s. pw bs s = (case put bs s of (p, s1) \<Rightarrow> (map_err conv p, s1)) \<or> bs = [] \<and> pw bs s = (Ready (Inr 0), s)"
  shows "async_write (writer_of pw) taken"
proof
  fix bs s p s1 n
  show "writer_of pw bs s \<noteq> None" by (simp add: writer_of_def)
  show "taken s1 = taken s"
    if "writer_of pw bs s = Some (p, s1)" "p = Pending \<or> (\<exists>e. p = Ready (Inl e))"
    using that assms[of bs s] put_pending[of bs s] put_error[of bs s]
    by (auto simp: writer_of_def map_err_def split: prod.splits poll.splits sum.splits)
  show "n \<le> length bs \<and> taken s1 = taken s @ take n bs" if "writer_of pw bs s = Some (Ready (Inr n), s1)"
    using that assms[of bs s] put_takes[of bs s]
    by (auto simp: writer_of_def map_err_def split: prod.splits poll.splits sum.splits)
qed

end

text \<open>Writing calls of \<open>std::io\<close>: after an error, \<open>WouldBlock\<close> included, nothing has been written.\<close>

definition poll_of_put ::
  "(byte list \<Rightarrow> 's \<Rightarrow> (io_error + nat) \<times> 's) \<Rightarrow> byte list \<Rightarrow> 's \<Rightarrow> (io_error + nat) poll \<times> 's" where
  "poll_of_put call bs s =
     (case call bs s of
        (Inr n, s1) \<Rightarrow> (Ready (Inr n), s1)
      | (Inl e, s1) \<Rightarrow> (if would_block e then Pending else Ready (Inl e), s1))"

locale blocking_sink =
  fixes put_call :: "byte list \<Rightarrow> 's \<Rightarrow> (io_error + nat) \<times> 's"
    and taken :: "'s \<Rightarrow> byte list"
  assumes put_call_error: "put_call bs s = (Inl e, s1) \<Longrightarrow> taken s1 = taken s"
    and put_call_takes: "put_call bs s = (Inr n, s1) \<Longrightarrow> n \<le> length bs \<and> taken s1 = taken s @ take n bs"

sublocale blocking_sink \<subseteq> polled_sink "poll_of_put put_call" taken
  by unfold_locales
     (auto simp: poll_of_put_def split: prod.splits sum.splits if_splits dest: put_call_error put_call_takes)

section \<open>The adapters keep the contracts\<close>

lemma fill_ready_nil: "fill_ready [] rb = Some (Ready (Inr ()), rb)"
  by (cases rb) (simp add: fill_ready_def rb_put_slice_def)

lemma tokio_reader:
  assumes "polled_stream inner unread"
  shows "async_read (reader_of (tokio_poll_read inner)) unread"
  by (rule polled_stream.adapted_reader[OF assms, where conv = "\<lambda>e. e"])
     (simp add: tokio_poll_read_def)

lemma tokio_reader_same: "async_std_poll_read inner = tokio_poll_read inner" "compat_poll_read inner = tokio_poll_read inner"
  by (auto simp: fun_eq_iff tokio_poll_read_appends(2) tokio_poll_read_def compat_poll_read_def io_error_from_def async_std_poll_read_def
    fill_ready_nil split: prod.splits poll.splits sum.splits)

lemma std_reader_same: "std_poll_read call = tokio_poll_read (poll_of_call call)"
  by (auto simp: fun_eq_iff std_poll_read_def tokio_poll_read_def poll_of_call_def split: prod.splits sum.splits)

context blocking_stream begin

lemma std_reader: "async_read (reader_of (std_poll_read call)) unread"
  unfolding std_reader_same by (rule tokio_reader[OF polled_stream_axioms])

end

lemma tokio_writer:
  assumes "polled_sink put taken"
  shows "async_write (writer_of (tokio_poll_write put)) taken"
  by (rule polled_sink.adapted_writer[OF assms, where conv = io_error_from]) (simp add: tokio_poll_write_def)

lemma tokio_writer_same: "async_std_poll_write = tokio_poll_write" "compat_poll_write = tokio_poll_write"
  by (auto simp: fun_eq_iff tokio_poll_write_def compat_poll_write_def async_std_poll_write_def)

lemma std_writer_same: "std_poll_write call = tokio_poll_write (poll_of_put call)"
  by (auto simp: fun_eq_iff std_poll_write_def tokio_poll_write_def poll_of_put_def map_err_def io_error_from_def
    split: prod.splits sum.splits)

section \<open>Transports behind the adapters\<close>

text \<open>The scripted peer is such a stream and such a sink.\<close>

interpretation tr_stream: polled_stream tr_poll_read "\<lambda>t. pending_bytes (incoming t)"
  by unfold_locales
     (auto simp: tr_poll_read.simps split: list.splits read_event.splits if_splits)

interpretation tr_sink: polled_sink tr_poll_write outgoing
  by unfold_locales (auto simp: tr_poll_write.simps min_def split: list.splits write_event.splits if_splits)

text \<open>A non-blocking descriptor over it: a call answers \<open>WouldBlock\<close> where a poll is pending.\<close>

definition nonblocking_read :: "nat \<Rightarrow> transport \<Rightarrow> (io_error + byte list) \<times> transport" where
  "nonblocking_read cap t =
     (case tr_poll_read cap t of
        (Pending, t1) \<Rightarrow> (Inl (Io_Error Would_Block []), t1)
      | (Ready r, t1) \<Rightarrow> (r, t1))"

text \<open>A \<open>WouldBlock\<close> error of the peer is no error for it either.\<close>

fun retryable :: "read_event \<Rightarrow> read_event" where
  "retryable (Read_Error e) = (if would_block e then Idle else Read_Error e)"
| "retryable ev = ev"

definition nonblocking_unread :: "transport \<Rightarrow> byte list" where
  "nonblocking_unread t = pending_bytes (map retryable (incoming t))"

interpretation nonblocking: blocking_stream nonblocking_read nonblocking_unread
  by unfold_locales
     (auto simp: nonblocking_read_def nonblocking_unread_def tr_poll_read.simps
       split: list.splits read_event.splits if_splits)

text \<open>A write on it that would wait has taken nothing either.\<close>

definition nonblocking_write :: "byte list \<Rightarrow> transport \<Rightarrow> (io_error + nat) \<times> transport" where
  "nonblocking_write bs t =
     (case tr_poll_write bs t of
        (Pending, t1) \<Rightarrow> (Inl (Io_Error Would_Block []), t1)
      | (Ready r, t1) \<Rightarrow> (r, t1))"

interpretation nonblocking_out: blocking_sink nonblocking_write outgoing
  by unfold_locales
     (auto simp: nonblocking_write_def tr_poll_write.simps min_def split: list.splits write_event.splits if_splits)

section \<open>All adapters\<close>

text \<open>The reading adapters over an inner stream; \<open>StdReader\<close> is over one that is polled by calls.\<close>

definition adapted_read ::
  "(nat \<Rightarrow> 's \<Rightarrow> (io_error + byte list) poll \<times> 's) \<Rightarrow>
   (read_buf \<Rightarrow> 's \<Rightarrow> ((io_error + unit) poll \<times> read_buf) option \<times> 's) \<Rightarrow> bool" where
  "adapted_read inner pr \<longleftrightarrow>
     pr = tokio_poll_read inner \<or> pr = compat_poll_read inner \<or> pr = async_std_poll_read inner \<or>
     pr = embedded_poll_read inner \<or> (\<exists>call. inner = poll_of_call call \<and> pr = std_poll_read call)"

lemma adapted_read_cases:
  assumes "adapted_read inner pr"
  obtains "pr = tokio_poll_read inner" | "pr = embedded_poll_read inner"
  using assms unfolding adapted_read_def tokio_reader_same std_reader_same by blast

text \<open>
  Those over tokio (both), async-std and \<open>std::io\<close>, reading and writing: the adapters whose foreign trait says
  what a pending or blocked operation has done.
\<close>

definition promised_read ::
  "(nat \<Rightarrow> 's \<Rightarrow> (io_error + byte list) poll \<times> 's) \<Rightarrow>
   (read_buf \<Rightarrow> 's \<Rightarrow> ((io_error + unit) poll \<times> read_buf) option \<times> 's) \<Rightarrow> bool" where
  "promised_read inner pr \<longleftrightarrow>
     pr = tokio_poll_read inner \<or> pr = compat_poll_read inner \<or> pr = async_std_poll_read inner \<or>
     (\<exists>call. inner = poll_of_call call \<and> pr = std_poll_read call)"

definition promised_write ::
  "(byte list \<Rightarrow> 's \<Rightarrow> (io_error + nat) poll \<times> 's) \<Rightarrow>
   (byte list \<Rightarrow> 's \<Rightarrow> (io_error + nat) poll \<times> 's) \<Rightarrow> bool" where
  "promised_write put pw \<longleftrightarrow>
     pw = tokio_poll_write put \<or> pw = compat_poll_write put \<or> pw = async_std_poll_write put \<or>
     (\<exists>call. put = poll_of_put call \<and> pw = std_poll_write call)"

lemma promised_reader_contract:
  assumes "polled_stream inner unread" "promised_read inner pr"
  shows "async_read (reader_of pr) unread"
  using assms(2) tokio_reader[OF assms(1)] unfolding promised_read_def tokio_reader_same std_reader_same by blast

lemma promised_writer_contract:
  assumes "polled_sink put taken" "promised_write put pw"
  shows "async_write (writer_of pw) taken"
  using assms(2) tokio_writer[OF assms(1)] unfolding promised_write_def tokio_writer_same std_writer_same by blast

lemma fill_ready_result:
  assumes "rb_ok rb" "length bs \<le> rb_remaining rb"
  shows "\<exists>rb1. fill_ready bs rb = Some (Ready (Inr ()), rb1) \<and> rb_ok rb1 \<and> rb_capacity rb1 = rb_capacity rb \<and>
    rb_filled rb1 = rb_filled rb @ bs"
proof -
  obtain rb1 where r: "rb_put_slice bs rb = Some rb1" using assms(2) by (simp add: rb_put_slice_def)
  then show ?thesis using rb_put_slice_ok[OF assms(1) r] by (simp add: fill_ready_def)
qed

text \<open>
  C39: Whatever an adapter is polled with, the caller's \<open>ReadBuf\<close> stays well formed: it keeps its
  capacity and what it already holds, a poll that is pending or fails adds nothing, and a poll that
  is ready adds exactly the bytes of one read of the inner stream, or nothing if there was no room.
  No adapter panics, as long as the inner stream does not claim more than its room.
\<close>
theorem adapters_keep_buffer:
  assumes "rb_ok rb" "adapted_read inner pr"
    and room: "\<And>bs s1. inner (rb_remaining rb) s = (Ready (Inr bs), s1) \<Longrightarrow> length bs \<le> rb_remaining rb"
  shows "\<exists>p bs rb1 s1. pr rb s = (Some (p, rb1), s1) \<and> rb_ok rb1 \<and> rb_capacity rb1 = rb_capacity rb \<and>
    rb_filled rb1 = rb_filled rb @ bs \<and>
    (if p = Ready (Inr ()) then inner (rb_remaining rb) s = (Ready (Inr bs), s1) \<or> rb_remaining rb = 0 \<and> bs = []
     else bs = [])"
proof -
  obtain q s1 where q: "inner (rb_remaining rb) s = (q, s1)" by fastforce
  have filled: "\<exists>rb1. fill_ready bs rb = Some (Ready (Inr ()), rb1) \<and> rb_ok rb1 \<and>
      rb_capacity rb1 = rb_capacity rb \<and> rb_filled rb1 = rb_filled rb @ bs" if "q = Ready (Inr bs)" for bs
    using fill_ready_result[OF assms(1)] room q that by simp
  consider "q = Pending" | e where "q = Ready (Inl e)" | bs where "q = Ready (Inr bs)"
    by (metis poll.exhaust sum.exhaust)
  then show ?thesis
  proof cases
    case 1
    have "\<exists>s1. pr rb s = (Some (Pending, rb), s1) \<or> rb_remaining rb = 0 \<and> pr rb s = (Some (Ready (Inr ()), rb), s1)"
      using assms(2) q 1 by (cases rule: adapted_read_cases) (simp_all add: tokio_poll_read_def embedded_poll_read_def)
    then show ?thesis using assms(1) by fastforce
  next
    case 2
    have "\<exists>f s1. pr rb s = (Some (Ready (Inl f), rb), s1) \<or> rb_remaining rb = 0 \<and> pr rb s = (Some (Ready (Inr ()), rb), s1)"
      using assms(2) q 2 by (cases rule: adapted_read_cases) (simp_all add: tokio_poll_read_def embedded_poll_read_def)
    then show ?thesis using assms(1) by fastforce
  next
    case 3
    have "pr rb s = (fill_ready bs rb, s1) \<or> rb_remaining rb = 0 \<and> pr rb s = (Some (Ready (Inr ()), rb), s)"
      using assms(2) q 3
      by (cases rule: adapted_read_cases) (simp_all add: tokio_poll_read_def embedded_poll_read_def fill_ready_nil)
    then show ?thesis using assms(1) filled[OF 3] q 3 by fastforce
  qed
qed

theorem adapters_keep_buffer_witness:
  "\<exists>p rb1 s1. tokio_poll_read tr_poll_read (rb_new [0, 0]) \<lparr>incoming = [Chunk [7]], accepting = [], outgoing = [],
     flush_error = None\<rparr> = (Some (p, rb1), s1) \<and> rb_ok rb1 \<and> rb_capacity rb1 = 2 \<and> rb_filled rb1 = [7]"
proof -
  let ?t = "\<lparr>incoming = [Chunk [7]], accepting = [], outgoing = [], flush_error = None\<rparr>"
  have a: "adapted_read tr_poll_read (tokio_poll_read tr_poll_read)" by (simp add: adapted_read_def)
  have run: "\<exists>p rb1 s1. tokio_poll_read tr_poll_read (rb_new [0, 0]) ?t = (Some (p, rb1), s1) \<and> rb_filled rb1 = [7]"
    by (simp add: tokio_poll_read_def tr_poll_read.simps fill_ready_def rb_put_slice_def rb_new_def rb_remaining_def
        rb_filled_def)
  have room: "\<And>bs s1. tr_poll_read (rb_remaining (rb_new [0, 0])) ?t = (Ready (Inr bs), s1) \<Longrightarrow>
      length bs \<le> rb_remaining (rb_new [0, 0])"
    by (auto simp: tr_poll_read.simps)
  have cap: "rb_capacity (rb_new [0, 0]) = 2" by (simp add: rb_capacity_def rb_new_def)
  show ?thesis using adapters_keep_buffer[OF rb_new_ok(1) a room] run cap by fastforce
qed

text \<open>
  C38: Over any stream and sink that keep the contract of their own library, read and written through the
  adapters for tokio (the two of them), async-std and \<open>std::io\<close>, \<open>read_exact\<close> and \<open>read_to_end\<close> give the
  stream's bytes in order, none lost or doubled however often they are pending, and fail only when the stream
  has no more; \<open>write_all\<close> hands over a prefix of its buffer and is done only with all of it.
\<close>
theorem adapted_streams_deliver:
  assumes "polled_stream inner unread" "promised_read inner pr" "polled_sink put taken" "promised_write put pw"
  shows "(\<exists>p ds s1. read_exact_of (reader_of pr) want [] s = Some (p, ds, s1) \<and> length ds \<le> want \<and>
      (case p of
         Pending \<Rightarrow> unread s = ds @ unread s1
       | Ready (Inr _) \<Rightarrow> length ds = want \<and> unread s = ds @ unread s1
       | Ready (Inl _) \<Rightarrow> length ds < want \<and> unread s = ds)) \<and>
    (\<exists>p ds s1. read_to_end_of (reader_of pr) out s = Some (p, out @ ds, s1) \<and>
      (if p = Pending then unread s = ds @ unread s1 else unread s = ds)) \<and>
    (\<exists>p sent rest s1. write_all_of (writer_of pw) buf w = Some (p, rest, s1) \<and> buf = sent @ rest \<and>
      taken s1 = taken w @ sent \<and> (p = Ready (Inr ()) \<longleftrightarrow> rest = []))"
proof -
  note r = promised_reader_contract[OF assms(1,2)]
  note w = promised_writer_contract[OF assms(3,4)]
  obtain p ds s1 where "read_exact_of (reader_of pr) want [] s = Some (p, ds, s1)" "length ds \<le> want"
    "case p of
       Pending \<Rightarrow> length ds < want \<and> unread s = ds @ unread s1 \<and>
         (\<exists>cap > 0. \<exists>s2. reader_of pr cap s2 = Some (Pending, s1))
     | Ready (Inr _) \<Rightarrow> length ds = want \<and> unread s = ds @ unread s1
     | Ready (Inl _) \<Rightarrow> length ds < want \<and> unread s = ds"
    using async_read.read_exact_of_spec[OF r, of "[]" want s, unfolded append_Nil] by auto
  then have "\<exists>p ds s1. read_exact_of (reader_of pr) want [] s = Some (p, ds, s1) \<and> length ds \<le> want \<and>
      (case p of
         Pending \<Rightarrow> unread s = ds @ unread s1
       | Ready (Inr _) \<Rightarrow> length ds = want \<and> unread s = ds @ unread s1
       | Ready (Inl _) \<Rightarrow> length ds < want \<and> unread s = ds)"
    by (intro exI[of _ p] exI[of _ ds] exI[of _ s1]) (auto split: poll.splits sum.splits)
  then show ?thesis using async_read.read_to_end_of_spec[OF r] async_write.write_all_of_spec[OF w] by blast
qed

text \<open>A non-blocking descriptor read and written with \<open>StdReader\<close> and \<open>StdWriter\<close>.\<close>

theorem adapted_streams_deliver_witness:
  "(\<exists>s1. read_exact_of (reader_of (std_poll_read nonblocking_read)) 3 []
     \<lparr>incoming = [Chunk [1, 2], Chunk [3, 4]], accepting = [], outgoing = [], flush_error = None\<rparr> =
       Some (Ready (Inr ()), [1, 2, 3], s1) \<and> nonblocking_unread s1 = [4]) \<and>
   (\<exists>p sent rest s1. write_all_of (writer_of (std_poll_write nonblocking_write)) [5, 6]
     \<lparr>incoming = [], accepting = [Accept 1, Busy], outgoing = [], flush_error = None\<rparr> = Some (p, rest, s1) \<and>
       [5, 6] = sent @ rest \<and> outgoing s1 = sent)"
proof -
  let ?t = "\<lparr>incoming = [Chunk [1, 2], Chunk [3, 4]], accepting = [], outgoing = [], flush_error = None\<rparr>"
  let ?w = "\<lparr>incoming = [], accepting = [Accept 1, Busy], outgoing = [], flush_error = None\<rparr>"
  have a: "promised_read (poll_of_call nonblocking_read) (std_poll_read nonblocking_read)"
    "promised_write (poll_of_put nonblocking_write) (std_poll_write nonblocking_write)"
    by (auto simp: promised_read_def promised_write_def)
  have run: "\<exists>p s1. read_exact_of (reader_of (std_poll_read nonblocking_read)) 3 [] ?t = Some (p, [1, 2, 3], s1) \<and>
    p = Ready (Inr ())"
    by (simp add: read_exact_of.simps reader_of_def std_poll_read_def nonblocking_read_def tr_poll_read.simps fill_ready_def
        rb_put_slice_def rb_new_def rb_remaining_def rb_filled_def numeral_eq_Suc)
  have "nonblocking_unread ?t = [1, 2, 3, 4]" by (simp add: nonblocking_unread_def)
  with adapted_streams_deliver[OF nonblocking.polled_stream_axioms a(1) nonblocking_out.polled_sink_axioms a(2), of 3 ?t _ "[5, 6]" ?w] run
  show ?thesis by fastforce
qed

end
