(* ===== verification/Tls_Inbound.thy ===== *)
theory Tls_Inbound
  imports Tls_Properties
begin

text \<open>
  The receiving side of the TLS stream: the bytes that come from the transport reach rustls in order, each
  once, from the first of the handshake to the last read, and what the reads return is the plaintext that
  rustls hands out.
\<close>

section \<open>The accounts of the connection\<close>

text \<open>
  \<open>fed c\<close> are the bytes the connection has taken from \<open>read_tls\<close>, \<open>given c\<close> the plaintext its reader has
  handed out.
\<close>

definition reads_law :: "'c rustls \<Rightarrow> ('c \<Rightarrow> byte list) \<Rightarrow> ('c \<Rightarrow> byte list) \<Rightarrow> bool" where
  "reads_law R fed given \<longleftrightarrow>
     (\<forall>bs c. fed (snd (read_tls R bs c)) = fed c @ (case fst (read_tls R bs c) of Inl e \<Rightarrow> [] | Inr n \<Rightarrow> take n bs) \<and>
       given (snd (read_tls R bs c)) = given c) \<and>
     (\<forall>n c. given (snd (reader_read R n c)) = given c @ (case fst (reader_read R n c) of Inl e \<Rightarrow> [] | Inr bs \<Rightarrow> bs) \<and>
       fed (snd (reader_read R n c)) = fed c) \<and>
     (\<forall>c. fed (snd (write_tls R c)) = fed c \<and> given (snd (write_tls R c)) = given c) \<and>
     (\<forall>c. fed (snd (process_new_packets R c)) = fed c \<and> given (snd (process_new_packets R c)) = given c) \<and>
     (\<forall>bs c. fed (snd (writer_write R bs c)) = fed c \<and> given (snd (writer_write R bs c)) = given c) \<and>
     (\<forall>c. fed (send_close_notify R c) = fed c \<and> given (send_close_notify R c) = given c)"

lemma reads_lawD:
  assumes "reads_law R fed given"
  shows "read_tls R b c = (Inl e, c1) \<Longrightarrow> fed c1 = fed c \<and> given c1 = given c"
    "read_tls R b c = (Inr n, c1) \<Longrightarrow> fed c1 = fed c @ take n b \<and> given c1 = given c"
    "reader_read R cap c = (Inl e, c1) \<Longrightarrow> fed c1 = fed c \<and> given c1 = given c"
    "reader_read R cap c = (Inr bs, c1) \<Longrightarrow> fed c1 = fed c \<and> given c1 = given c @ bs"
    "write_tls R c = (r1, c1) \<Longrightarrow> fed c1 = fed c \<and> given c1 = given c"
    "process_new_packets R c = (r2, c1) \<Longrightarrow> fed c1 = fed c \<and> given c1 = given c"
    "writer_write R b c = (r3, c1) \<Longrightarrow> fed c1 = fed c \<and> given c1 = given c"
    "fed (send_close_notify R c) = fed c \<and> given (send_close_notify R c) = given c"
  using assms unfolding reads_law_def by (metis fst_conv snd_conv sum.case append_Nil2)+

text \<open>All that the transport ever delivers, and where it is at present.\<close>

fun script_data :: "read_event list \<Rightarrow> byte list" where
  "script_data [] = []"
| "script_data (Chunk bs # r) = bs @ script_data r"
| "script_data (_ # r) = script_data r"

definition received :: "('c \<Rightarrow> byte list) \<Rightarrow> 'c tls_stream \<Rightarrow> byte list" where
  "received fed s = fed (tls_conn s) @ tls_read_buf s @ script_data (incoming (tls_io s))"

text \<open>A step that neither loses nor reorders what arrives and hands out \<open>bs\<close>.\<close>

definition hands_out ::
  "('c \<Rightarrow> byte list) \<Rightarrow> ('c \<Rightarrow> byte list) \<Rightarrow> 'c tls_stream \<Rightarrow> byte list \<Rightarrow> 'c tls_stream \<Rightarrow> bool" where
  "hands_out fed given s bs s1 \<longleftrightarrow> received fed s1 = received fed s \<and> given (tls_conn s1) = given (tls_conn s) @ bs"

lemma hands_out_trans: "hands_out fed given s a s1 \<Longrightarrow> hands_out fed given s1 b s2 \<Longrightarrow> hands_out fed given s (a @ b) s2"
  by (simp add: hands_out_def)

lemma hands_out_nil [simp]: "hands_out fed given s [] s"
  by (simp add: hands_out_def)

lemma hands_out_then: "hands_out fed given s [] s1 \<Longrightarrow> hands_out fed given s1 b s2 \<Longrightarrow> hands_out fed given s b s2"
  using hands_out_trans by fastforce

section \<open>The parts of the stream\<close>

lemma tr_poll_read_data:
  "tr_poll_read cap t = (p, t1) \<Longrightarrow>
     script_data (incoming t) = (case p of Ready (Inr bs) \<Rightarrow> bs | _ \<Rightarrow> []) @ script_data (incoming t1)"
  by (auto simp: tr_poll_read.simps split: list.splits read_event.splits if_splits)

lemma tr_read_data:
  "tr_read cap t = (r, t1) \<Longrightarrow>
     script_data (incoming t) = (case r of Inr bs \<Rightarrow> bs | Inl e \<Rightarrow> []) @ script_data (incoming t1)"
proof (induction cap t rule: tr_read.induct)
  case (1 cap t)
  obtain q t2 where q: "tr_poll_read cap t = (q, t2)" by fastforce
  then show ?case
    using "1.prems" "1.IH"[OF q[symmetric]] tr_poll_read_data[OF q]
    by (cases q) (auto simp: tr_read.simps[of cap t] split: sum.splits)
qed

lemma pull_hands_out:
  assumes "reads_law R fed given" "pull_tls_records R s = (r, s1)"
  shows "hands_out fed given s [] s1"
  using assms(2) reads_lawD(5)[OF assms(1)]
  by (auto simp: pull_tls_records_def hands_out_def received_def split: prod.splits sum.splits)

lemma flush_conn: "poll_flush_write_buf s = (p, s1) \<Longrightarrow> tls_conn s1 = tls_conn s"
proof (induction s rule: poll_flush_write_buf.induct)
  case (1 s)
  show ?case
  proof (cases "tls_write_pos s < length (tls_write_buf s)")
    case True
    obtain q t where q: "tr_poll_write (drop (tls_write_pos s) (tls_write_buf s)) (tls_io s) = (q, t)" by fastforce
    show ?thesis
      using "1.prems" "1.IH"[OF True q[symmetric]] True q
      by (auto simp: poll_flush_write_buf.simps[of s] split: poll.splits sum.splits if_splits)
  qed (use "1.prems" in \<open>auto simp: poll_flush_write_buf.simps[of s]\<close>)
qed

lemma flush_hands_out:
  assumes "poll_flush_write_buf s = (p, s1)"
  shows "hands_out fed given s [] s1"
  using flush_conn[OF assms] poll_flush_write_buf_keeps[OF assms] by (simp add: hands_out_def received_def)

lemma drive_hands_out:
  assumes "reads_law R fed given" "poll_drive_pending_writes R s = (p, s1)"
  shows "hands_out fed given s [] s1"
proof -
  obtain r s2 where d: "(if wants_write R (tls_conn s) then pull_tls_records R s else (Inr (), s)) = (r, s2)" by fastforce
  have "hands_out fed given s [] s2" using d pull_hands_out[OF assms(1)] by (auto split: if_splits)
  moreover have "s1 = s2 \<or> poll_flush_write_buf s2 = (p, s1)"
    using assms(2) d by (auto simp: poll_drive_pending_writes_def split: sum.splits if_splits)
  ultimately show ?thesis using flush_hands_out hands_out_then by metis
qed

lemma feed_hands_out:
  assumes "reads_law R fed given" "feed_incoming_to_rustls R s = (r, s1)"
  shows "hands_out fed given s [] s1"
  using assms(2) reads_lawD(1,2,6)[OF assms(1)]
  by (auto simp: feed_incoming_to_rustls_def Let_def hands_out_def received_def split: if_splits prod.splits sum.splits)

section \<open>The handshake\<close>

lemma send_flight_incoming: "send_flight rest t = (r, t1) \<Longrightarrow> incoming t1 = incoming t"
proof (induction rest t rule: send_flight.induct)
  case (1 rest t)
  show ?case
  proof (cases "rest = []")
    case False
    obtain q t2 where q: "tr_poll_write rest t = (q, t2)" by fastforce
    show ?thesis
      using "1.prems" "1.IH"[OF False q[symmetric]] False q tr_poll_write_takes(3)[OF q]
      by (auto simp: send_flight.simps[of rest t] split: poll.splits sum.splits if_splits)
  qed (use "1.prems" in \<open>auto simp: send_flight.simps\<close>)
qed

lemma handshake_send_hands_out:
  assumes "handshake_send s = (r, s1)"
  shows "hands_out fed given s [] s1"
proof -
  obtain q t where "send_flight (drop (tls_write_pos s) (tls_write_buf s)) (tls_io s) = (q, t)" by fastforce
  then show ?thesis
    using assms send_flight_incoming
    by (auto simp: handshake_send_def Let_def hands_out_def received_def split: if_splits sum.splits)
qed

lemma handshake_stages_hands_out:
  assumes "reads_law R fed given" "handshake_stages R s = (r, s1)"
  shows "hands_out fed given s [] s1"
proof -
  obtain r1 s2 where f: "feed_incoming_to_rustls R s = (r1, s2)" by fastforce
  obtain r2 s3 where p: "(if wants_write R (tls_conn s2) then pull_tls_records R s2 else (Inr (), s2)) = (r2, s3)"
    by fastforce
  obtain r3 s4 where h: "handshake_send s3 = (r3, s4)" by fastforce
  have eq: "handshake_stages R s = (case r1 of Inl e \<Rightarrow> (Inl e, s2) | Inr consumed \<Rightarrow> (case r2 of Inl e \<Rightarrow> (Inl e, s3)
      | Inr u \<Rightarrow> (case r3 of Inl e \<Rightarrow> (Inl e, s4) | Inr sent \<Rightarrow> (Inr (0 < consumed \<or> sent), s4))))"
    by (simp only: handshake_stages_def f p h prod.case)
  have h2: "hands_out fed given s [] s2" by (rule feed_hands_out[OF assms(1) f])
  have "hands_out fed given s2 [] s3" using p pull_hands_out[OF assms(1)] by (auto split: if_splits)
  then have h3: "hands_out fed given s [] s3" using h2 hands_out_then by blast
  have h4: "hands_out fed given s [] s4" using h3 handshake_send_hands_out[OF h] hands_out_then by blast
  show ?thesis using assms(2) h2 h3 h4 unfolding eq by (auto split: sum.splits)
qed

lemma appended_hands_out:
  assumes "script_data (incoming (tls_io s)) = bs @ script_data (incoming t)" "fed c = fed (tls_conn s)"
    "given c = given (tls_conn s)"
  shows "hands_out fed given s [] (s\<lparr>tls_conn := c, tls_io := t, tls_read_buf := tls_read_buf s @ bs\<rparr>)"
  using assms by (simp add: hands_out_def received_def)

lemma handshake_fetch_hands_out:
  assumes "reads_law R fed given" "handshake_fetch R s = (r, s1)"
  shows "hands_out fed given s [] s1"
proof -
  obtain q t where q: "tr_read 4096 (tls_io s) = (q, t)" by fastforce
  note d = tr_read_data[OF q]
  show ?thesis
  proof (cases "\<exists>bs. q = Inr bs \<and> bs \<noteq> []")
    case True
    then obtain bs where bs: "q = Inr bs" "bs \<noteq> []" by blast
    have "hands_out fed given s [] (s\<lparr>tls_io := t, tls_read_buf := tls_read_buf s @ bs\<rparr>)"
      using appended_hands_out[of s bs t fed "tls_conn s" given] d bs by simp
    moreover obtain r2 s2 where f: "feed_incoming_to_rustls R (s\<lparr>tls_io := t, tls_read_buf := tls_read_buf s @ bs\<rparr>) = (r2, s2)"
      by fastforce
    moreover have "s1 = s2" using assms(2) q bs f by (auto simp: handshake_fetch_def split: sum.splits)
    ultimately show ?thesis using feed_hands_out[OF assms(1)] hands_out_then by metis
  next
    case False
    then have "s1 = s\<lparr>tls_io := t\<rparr>" "script_data (incoming (tls_io s)) = script_data (incoming t)"
      using assms(2) q d by (auto simp: handshake_fetch_def split: sum.splits if_splits)
    then show ?thesis by (simp add: hands_out_def received_def)
  qed
qed

lemma tls_handshake_hands_out:
  assumes "tls_handshake R s = Some res"
  shows "reads_law R fed given \<longrightarrow> hands_out fed given s [] (snd res)"
proof (rule tls_handshake.raw_induct[OF _ assms], goal_cases)
  case (1 rec R s res)
  show ?case
  proof
    assume law: "reads_law R fed given"
    obtain r s1 where st: "handshake_stages R s = (r, s1)" by fastforce
    obtain q s2 where ft: "handshake_fetch R s1 = (q, s2)" by fastforce
    have h1: "hands_out fed given s [] s1" by (rule handshake_stages_hands_out[OF law st])
    have h2: "hands_out fed given s [] s2"
      using h1 handshake_fetch_hands_out[OF law ft] hands_out_then by blast
    have "snd res \<in> {s1, s2} \<or> rec R s1 = Some res \<or> rec R s2 = Some res"
      using 1(2) by (cases r; cases q) (auto simp: st ft split: if_splits)
    then show "hands_out fed given s [] (snd res)"
      using h1 h2 1(1)[of R _ res] law hands_out_then by blast
  qed
qed

section \<open>The polls\<close>

definition handed :: "(std_io_error + byte list) poll \<Rightarrow> byte list" where
  "handed p = (case p of Ready (Inr bs) \<Rightarrow> bs | _ \<Rightarrow> [])"

lemma read_round_hands_out:
  assumes law: "reads_law R fed given"
  shows "case read_round R cap s of Inl (p, s1) \<Rightarrow> hands_out fed given s (handed p) s1 | Inr s1 \<Rightarrow> hands_out fed given s [] s1"
proof -
  obtain p s1 where d: "poll_drive_pending_writes R s = (p, s1)" by fastforce
  have h1: "hands_out fed given s [] s1" by (rule drive_hands_out[OF law d])
  obtain r c where r: "reader_read R cap (tls_conn s1) = (r, c)" by fastforce
  have hc: "hands_out fed given s1 (case r of Inl e \<Rightarrow> [] | Inr bs \<Rightarrow> bs) (s1\<lparr>tls_conn := c\<rparr>)"
    using r reads_lawD(3,4)[OF law] by (cases r) (auto simp: hands_out_def received_def)
  obtain f s2 where f: "feed_incoming_to_rustls R (s1\<lparr>tls_conn := c\<rparr>) = (f, s2)" by fastforce
  have h2: "hands_out fed given (s1\<lparr>tls_conn := c\<rparr>) [] s2" by (rule feed_hands_out[OF law f])
  obtain q t where q: "tr_poll_read 4096 (tls_io s1) = (q, t)" by fastforce
  note dt = tr_poll_read_data[OF q]
  have ht: "hands_out fed given s1 [] (s1\<lparr>tls_conn := c, tls_io := t, tls_read_buf := tls_read_buf s1 @ bs\<rparr>)"
    if "q = Ready (Inr bs)" "r = Inl e" for bs e
    using reads_lawD(3)[OF law] r dt that by (intro appended_hands_out) auto
  have hn: "hands_out fed given s1 [] (s1\<lparr>tls_conn := c, tls_io := t\<rparr>)"
    if "\<And>bs. q = Ready (Inr bs) \<Longrightarrow> bs = []" "r = Inl e" for e
    using reads_lawD(3)[OF law] r dt that by (auto simp: hands_out_def received_def split: poll.splits sum.splits)
  have "case read_round R cap s of Inl (p, s') \<Rightarrow> hands_out fed given s1 (handed p) s' | Inr s' \<Rightarrow> hands_out fed given s1 [] s'"
    using d r f q hc hands_out_trans[OF hc h2] ht hn
    by (auto simp: read_round_def handed_def split: poll.splits sum.splits io_error.splits)
  then show ?thesis using h1 hands_out_then by (force split: sum.splits prod.splits)
qed

lemma tls_poll_read_hands_out:
  assumes law: "reads_law R fed given" and prog: "read_progress R closed"
  shows "tls_poll_read R cap s = Some (p, s1) \<Longrightarrow> hands_out fed given s (handed p) s1"
proof (induction "read_work s" arbitrary: s rule: less_induct)
  case less
  show ?case
  proof (cases "read_round R cap s")
    case (Inl res)
    then show ?thesis
      using less.prems read_round_hands_out[OF law, where cap = cap and s = s] by (subst (asm) tls_poll_read_round) auto
  next
    case (Inr s2)
    have "tls_poll_read R cap s2 = Some (p, s1)" using less.prems Inr by (subst (asm) tls_poll_read_round) simp
    moreover have "hands_out fed given s [] s2" using read_round_hands_out[OF law, where cap = cap and s = s] Inr by simp
    ultimately show ?thesis using less.hyps[OF read_round_work[OF Inr prog]] hands_out_then by blast
  qed
qed

lemma tls_poll_write_hands_out:
  assumes law: "reads_law R fed given"
  shows "hands_out fed given s [] (snd (tls_poll_write R bs s))"
proof -
  obtain p s1 where p: "poll_flush_write_buf s = (p, s1)" by fastforce
  obtain w c where w: "writer_write R bs (tls_conn s1) = (w, c)" by fastforce
  obtain r s2 where r: "pull_tls_records R (s1\<lparr>tls_conn := c\<rparr>) = (r, s2)" by fastforce
  obtain q s3 where q: "poll_flush_write_buf s2 = (q, s3)" by fastforce
  have h1: "hands_out fed given s [] s1" by (rule flush_hands_out[OF p])
  have "hands_out fed given s1 [] (s1\<lparr>tls_conn := c\<rparr>)"
    using reads_lawD(7)[OF law w] by (simp add: hands_out_def received_def)
  with h1 have hc: "hands_out fed given s [] (s1\<lparr>tls_conn := c\<rparr>)" by (rule hands_out_then)
  then have h2: "hands_out fed given s [] s2" using pull_hands_out[OF law r] hands_out_then by blast
  then have h3: "hands_out fed given s [] s3" using flush_hands_out[OF q] hands_out_then by blast
  have "snd (tls_poll_write R bs s) \<in> {s1, s1\<lparr>tls_conn := c\<rparr>, s2, s3}"
    using p w r q by (auto simp: tls_poll_write_def split: poll.splits sum.splits)
  then show ?thesis using h1 hc h2 h3 by auto
qed

lemma tls_poll_flush_hands_out: "hands_out fed given s [] (snd (tls_poll_flush s))"
proof -
  obtain p s1 where p: "poll_flush_write_buf s = (p, s1)" by fastforce
  then have "snd (tls_poll_flush s) = s1" by (auto simp: tls_poll_flush_def split: poll.splits sum.splits)
  then show ?thesis using flush_hands_out[OF p] by simp
qed

lemma tls_poll_shutdown_hands_out:
  assumes law: "reads_law R fed given" and sd: "\<And>t. incoming (snd (sd t)) = incoming t"
  shows "hands_out fed given s [] (snd (tls_poll_shutdown R sd s))"
proof -
  let ?s0 = "s\<lparr>tls_conn := send_close_notify R (tls_conn s)\<rparr>"
  obtain r s1 where r: "pull_tls_records R ?s0 = (r, s1)" by fastforce
  obtain q s2 where q: "poll_flush_write_buf s1 = (q, s2)" by fastforce
  obtain p t where t: "sd (tls_io s2) = (p, t)" by fastforce
  have "hands_out fed given s [] ?s0" using reads_lawD(8)[OF law] by (simp add: hands_out_def received_def)
  then have h1: "hands_out fed given s [] s1" using pull_hands_out[OF law r] hands_out_then by blast
  then have h2: "hands_out fed given s [] s2" using flush_hands_out[OF q] hands_out_then by blast
  have "hands_out fed given s2 [] (s2\<lparr>tls_io := t\<rparr>)"
    using sd[of "tls_io s2"] t by (simp add: hands_out_def received_def)
  with h2 have h3: "hands_out fed given s [] (s2\<lparr>tls_io := t\<rparr>)" by (rule hands_out_then)
  have "snd (tls_poll_shutdown R sd s) \<in> {s1, s2, s2\<lparr>tls_io := t\<rparr>}"
    using r q t by (auto simp: tls_poll_shutdown_def split: poll.splits sum.splits)
  then show ?thesis using h1 h2 h3 by auto
qed

section \<open>A client's calls\<close>

datatype tls_call = Tls_Read nat | Tls_Write "byte list" | Tls_Flush | Tls_Shutdown

text \<open>One poll of a call, with the plaintext it gave: none, unless it is a read that is ready.\<close>

fun tls_do ::
  "'c rustls \<Rightarrow> (transport \<Rightarrow> (io_error + unit) poll \<times> transport) \<Rightarrow> tls_call \<Rightarrow> 'c tls_stream \<Rightarrow>
   (byte list \<times> 'c tls_stream) option" where
  "tls_do R sd (Tls_Read cap) s = map_option (\<lambda>(p, s1). (handed p, s1)) (tls_poll_read R cap s)"
| "tls_do R sd (Tls_Write bs) s = Some ([], snd (tls_poll_write R bs s))"
| "tls_do R sd Tls_Flush s = Some ([], snd (tls_poll_flush s))"
| "tls_do R sd Tls_Shutdown s = Some ([], snd (tls_poll_shutdown R sd s))"

fun tls_calls ::
  "'c rustls \<Rightarrow> (transport \<Rightarrow> (io_error + unit) poll \<times> transport) \<Rightarrow> tls_call list \<Rightarrow> 'c tls_stream \<Rightarrow>
   (byte list \<times> 'c tls_stream) option" where
  "tls_calls R sd [] s = Some ([], s)"
| "tls_calls R sd (x # xs) s = do {
     (got, s1) \<leftarrow> tls_do R sd x s;
     (more_got, s2) \<leftarrow> tls_calls R sd xs s1;
     Some (got @ more_got, s2) }"

lemma tls_do_hands_out:
  assumes "reads_law R fed given" "read_progress R closed" "\<And>t. incoming (snd (sd t)) = incoming t"
  shows "\<exists>got s1. tls_do R sd x s = Some (got, s1) \<and> hands_out fed given s got s1"
proof (cases x)
  case (Tls_Read cap)
  obtain p s1 where r: "tls_poll_read R cap s = Some (p, s1)" using tls_poll_read_terminates[OF assms(2)] by fastforce
  then show ?thesis using Tls_Read tls_poll_read_hands_out[OF assms(1,2) r] by simp
next
  case Tls_Shutdown
  then show ?thesis using tls_poll_shutdown_hands_out[OF assms(1), of sd] assms(3) by simp
qed (use tls_poll_write_hands_out[OF assms(1)] tls_poll_flush_hands_out in simp_all)

lemma tls_calls_hand_out:
  assumes "reads_law R fed given" "read_progress R closed" "\<And>t. incoming (snd (sd t)) = incoming t"
  shows "\<exists>got s1. tls_calls R sd xs s = Some (got, s1) \<and> hands_out fed given s got s1"
proof (induction xs arbitrary: s)
  case (Cons x xs)
  obtain got s1 where x: "tls_do R sd x s = Some (got, s1)" "hands_out fed given s got s1"
    using tls_do_hands_out[OF assms(1,2), of sd x s] assms(3) by blast
  obtain rest s2 where xs: "tls_calls R sd xs s1 = Some (rest, s2)" "hands_out fed given s1 rest s2"
    using Cons by blast
  show ?case using x(1) xs(1) hands_out_trans[OF x(2) xs(2)] by simp
qed simp

section \<open>Property\<close>

text \<open>
  C16: Nothing that arrives on a TLS stream is lost, repeated or reordered on its way to rustls: after a
  handshake that succeeded and any calls of the client (reads with any buffers, writes, flushes, shutdowns),
  in any chunking and with any stalls and errors of the transport, the bytes rustls has taken, followed by
  those the stream still buffers and those still to come, are exactly what the transport delivers, the
  bytes that came with the end of the handshake included.  Every call returns, and what the reads gave is
  exactly the plaintext rustls handed out, in order.
\<close>

theorem tls_bytes_arrive_in_order:
  assumes "reads_law R fed given" "read_progress R closed" "\<And>t. incoming (snd (sd t)) = incoming t"
    and "tls_accept R (Inr c) t = Some (Inr s)"
  shows "\<exists>got s1. tls_calls R sd calls s = Some (got, s1) \<and>
    fed (tls_conn s1) @ tls_read_buf s1 @ script_data (incoming (tls_io s1)) = fed c @ script_data (incoming t) \<and>
    given (tls_conn s1) = given c @ got"
proof -
  have "tls_handshake R (tls_new t c) = Some (Inr (), s)"
    using assms(4) by (auto simp: tls_accept_def split: option.splits prod.splits sum.splits)
  from tls_handshake_hands_out[OF this] assms(1) have h: "hands_out fed given (tls_new t c) [] s" by simp
  obtain got s1 where s1: "tls_calls R sd calls s = Some (got, s1)" "hands_out fed given s got s1"
    using tls_calls_hand_out[OF assms(1,2), of sd calls s] assms(3) by blast
  have "hands_out fed given (tls_new t c) got s1" using h s1(2) by (rule hands_out_then)
  then show ?thesis using s1(1) by (simp add: hands_out_def received_def tls_new_def)
qed

lemma plain_reads_law: "reads_law (plain_rustls n) pc_fed pc_given"
  by (simp add: reads_law_def plain_rustls_def)

theorem tls_bytes_arrive_in_order_witness:
  "\<exists>s got s1. tls_accept (plain_rustls 4) (Inr plain_start) quiet_transport = Some (Inr s) \<and>
     tls_calls (plain_rustls 4) (\<lambda>t. (Ready (Inr ()), t)) [Tls_Read 1, Tls_Write [5], Tls_Read 1, Tls_Shutdown, Tls_Read 9] s =
       Some (got, s1) \<and>
     pc_fed (tls_conn s1) @ tls_read_buf s1 @ script_data (incoming (tls_io s1)) = [7, 8] \<and>
     pc_given (tls_conn s1) = got"
proof -
  have "pc_fed plain_start @ script_data (incoming quiet_transport) = [7, 8]" "pc_given plain_start = []"
    by (simp_all add: plain_start_def quiet_transport_def)
  then show ?thesis
    using tls_bytes_arrive_in_order[OF plain_reads_law plain_read_progress _ plain_accept,
        of "\<lambda>t. (Ready (Inr ()), t)" "[Tls_Read 1, Tls_Write [5], Tls_Read 1, Tls_Shutdown, Tls_Read 9]"]
      plain_accept by auto
qed

end
