(* ===== verification/Tls_Timeout.thy ===== *)
theory Tls_Timeout
  imports Tls_Stream Timer_Futures
begin

text \<open>
  \<open>TlsAcceptor::accept_timeout\<close> and \<open>TlsConnector::connect_timeout\<close>: the handshake inside the
  \<open>timeout\<close> of the std driver.  The handshake's future is polled through \<open>poll_inner\<close>; the async
  function around it starts the timeout at its first poll, and drops it when it is ready.
\<close>

datatype 'f handshake_run = Hs_Start addr 'f | Hs_Running "'f timeout" | Hs_Done

text \<open>What the \<open>match\<close> on the timeout's output returns.\<close>

fun handshake_result :: "timed_out + (tls_error + 'a) \<Rightarrow> tls_error + 'a" where
  "handshake_result (Inr result) = result"
| "handshake_result (Inl _) = Inl Tls_Timed_Out"

definition handshake_await ::
  "nat \<Rightarrow> nat \<Rightarrow> ('f, tls_error + 'a) poll_fn \<Rightarrow> waker \<Rightarrow> 'f timeout \<Rightarrow> wheel \<Rightarrow>
   ((tls_error + 'a) poll \<times> 'f handshake_run \<times> wheel) option" where
  "handshake_await S L poll_inner k t w = do {
     (p, t1, w1) \<leftarrow> timeout_poll S L poll_inner k t w;
     case p of
       Pending \<Rightarrow> Some (Pending, Hs_Running t1, w1)
     | Ready r \<Rightarrow> do { w2 \<leftarrow> timeout_drop t1 w1; Some (Ready (handshake_result r), Hs_Done, w2) } }"

definition handshake_timeout_poll ::
  "nat \<Rightarrow> nat \<Rightarrow> ('f, tls_error + 'a) poll_fn \<Rightarrow> nat \<Rightarrow> waker \<Rightarrow> 'f handshake_run \<Rightarrow> wheel \<Rightarrow>
   ((tls_error + 'a) poll \<times> 'f handshake_run \<times> wheel) option" where
  "handshake_timeout_poll S L poll_inner ms k h w =
     (case h of
        Hs_Start a f \<Rightarrow> do { (t, w1) \<leftarrow> driver_timeout a ms f w; handshake_await S L poll_inner k t w1 }
      | Hs_Running t \<Rightarrow> handshake_await S L poll_inner k t w
      | Hs_Done \<Rightarrow> None)"

definition accept_timeout_poll ::
  "nat \<Rightarrow> nat \<Rightarrow> ('f, tls_error + 'a) poll_fn \<Rightarrow> nat \<Rightarrow> waker \<Rightarrow> 'f handshake_run \<Rightarrow> wheel \<Rightarrow>
   ((tls_error + 'a) poll \<times> 'f handshake_run \<times> wheel) option" where
  "accept_timeout_poll S L poll_accept ms k h w = handshake_timeout_poll S L poll_accept ms k h w"

definition connect_timeout_poll ::
  "nat \<Rightarrow> nat \<Rightarrow> ('f, tls_error + 'a) poll_fn \<Rightarrow> nat \<Rightarrow> waker \<Rightarrow> 'f handshake_run \<Rightarrow> wheel \<Rightarrow>
   ((tls_error + 'a) poll \<times> 'f handshake_run \<times> wheel) option" where
  "connect_timeout_poll S L poll_connect ms k h w = handshake_timeout_poll S L poll_connect ms k h w"

text \<open>The first poll puts the deadline into the entry, counted from the wheel's clock.\<close>

lemma handshake_timeout_start:
  assumes "wheel_inv S L w" "a \<notin> registered_in w" "current_tick w + ticks_for ms \<le> u64_max"
  shows "\<exists>t w1. handshake_timeout_poll S L poll_inner ms k (Hs_Start a f) w = handshake_await S L poll_inner k t w1 \<and>
    timer_inv S L t w1 \<and> future t = f \<and> entry_at t = a \<and>
    deadline_at (mem w1) a = current_tick w + ticks_for ms \<and> current_tick w1 = current_tick w"
proof -
  let ?d = "current_tick w + ticks_for ms"
  obtain t w1 where n: "timeout_new a f ?d w = (t, w1)" by fastforce
  then have "sleep_new a ?d w = (\<lparr>entry_at = a, registered_flag = False\<rparr>, w1)"
    by (simp add: timeout_new_def sleep_new_def)
  note s = timer_inv_new[OF assms this]
  have t: "entry_at t = a" "registered_flag t = False" "future t = f" using n by (auto simp: timeout_new_def)
  then have "timer_inv S L t w1" using s(1) by (simp add: timer_inv_def)
  moreover have "handshake_timeout_poll S L poll_inner ms k (Hs_Start a f) w = handshake_await S L poll_inner k t w1"
    using n assms(3) by (simp add: handshake_timeout_poll_def driver_timeout_def wheel_now_def checked_add_u64_def)
  ultimately show ?thesis using t s(3,4) by blast
qed

text \<open>
  A poll takes the handshake's own result if there is one, fails with \<open>TimedOut\<close> exactly when the
  deadline has come first, and leaves nothing in the wheel when it is ready.
\<close>

lemma handshake_await_resolves:
  assumes "poll_inner k (future t) w = Some (r, f, w1)" "timer_inv S L t w1"
  shows "\<exists>h w2. handshake_await S L poll_inner k t w =
      Some (case r of Ready res \<Rightarrow> Ready res
            | Pending \<Rightarrow> if deadline_at (mem w1) (entry_at t) \<le> current_tick w1
                        then Ready (Inl Tls_Timed_Out) else Pending, h, w2) \<and>
    (if r = Pending \<and> current_tick w1 < deadline_at (mem w1) (entry_at t)
     then (\<exists>t2. h = Hs_Running t2 \<and> timer_inv S L t2 w2 \<and> future t2 = f) \<and>
       table_of w2 = table_insert (entry_at t) (deadline_at (mem w1) (entry_at t)) (Some k) (table_of w1)
     else h = Hs_Done \<and> table_of w2 = table_remove (entry_at t) (table_of w1))"
proof -
  let ?d = "deadline_at (mem w1) (entry_at t)"
  obtain t2 w2 where t2: "timeout_poll S L poll_inner k t w = Some (case r of Ready v \<Rightarrow> Ready (Inr v)
      | Pending \<Rightarrow> if ?d \<le> current_tick w1 then Ready (Inl Timed_Out) else Pending, t2, w2)"
    "future t2 = f" "entry_at t2 = entry_at t" "timer_inv S L t2 w2"
    "table_of w2 = (if r = Pending \<and> current_tick w1 < ?d
       then table_insert (entry_at t) ?d (Some k) (table_of w1) else table_remove (entry_at t) (table_of w1))"
    using timeout_poll_ok[where poll_inner = poll_inner and k = k and t = t and w = w, OF assms] by blast
  show ?thesis
  proof (cases "r = Pending \<and> current_tick w1 < ?d")
    case True
    then show ?thesis using t2 by (auto simp: handshake_await_def)
  next
    case False
    have "wheel_inv S L w2" "mem w2 (entry_at t2) \<noteq> None" using t2(4) by (simp_all add: timer_inv_def)
    from expire_ok[OF this] obtain w3 where "timeout_drop t2 w2 = Some w3"
      "table_of w3 = table_remove (entry_at t2) (table_of w2)" by (auto simp: timeout_drop_def)
    moreover from this have "table_of w3 = table_remove (entry_at t) (table_of w1)"
      using False t2(3,5) by (auto simp: table_remove_def)
    ultimately show ?thesis
      using False t2(1) by (cases r) (auto simp: handshake_await_def)
  qed
qed

text \<open>
  A handshake with a timeout starts like one that is already running with the wheel's time plus the
  timeout as its deadline.  A poll of a running one gives the handshake's own result when that is
  ready, and otherwise fails with \<open>TimedOut\<close> exactly from the deadline on; until then it is pending with
  its deadline registered under the caller's waker.  Once it is ready nothing of it is left in the wheel.
\<close>

theorem connect_timeout_starts:
  assumes "wheel_inv S L w" "a \<notin> registered_in w" "current_tick w + ticks_for ms \<le> u64_max"
  shows "\<exists>t w1. connect_timeout_poll S L poll_inner ms k (Hs_Start a f) w =
      connect_timeout_poll S L poll_inner ms k (Hs_Running t) w1 \<and>
    timer_inv S L t w1 \<and> future t = f \<and> entry_at t = a \<and>
    deadline_at (mem w1) a = current_tick w + ticks_for ms \<and> current_tick w1 = current_tick w"
  using handshake_timeout_start[OF assms, of poll_inner k f]
  by (simp add: connect_timeout_poll_def handshake_timeout_poll_def)

theorem connect_timeout_resolves:
  assumes "poll_inner k (future t) w = Some (r, f, w1)" "timer_inv S L t w1"
  defines "d \<equiv> deadline_at (mem w1) (entry_at t)"
  shows "\<exists>h w2. connect_timeout_poll S L poll_inner ms k (Hs_Running t) w =
      Some (case r of Ready res \<Rightarrow> Ready res
            | Pending \<Rightarrow> if d \<le> current_tick w1 then Ready (Inl Tls_Timed_Out) else Pending, h, w2) \<and>
    (if r = Pending \<and> current_tick w1 < d
     then (\<exists>t2. h = Hs_Running t2 \<and> timer_inv S L t2 w2 \<and> future t2 = f) \<and>
       table (table_of w2) (entry_at t) = Some (d, Some k)
     else h = Hs_Done \<and> table (table_of w2) (entry_at t) = None)"
  using handshake_await_resolves[where poll_inner = poll_inner and k = k and t = t and w = w, OF assms(1,2)]
  by (auto simp: connect_timeout_poll_def handshake_timeout_poll_def d_def table_insert_def table_remove_def
      split: if_splits)

end
