(* ===== verification/Http_Connection.thy ===== *)
theory Http_Connection
  imports Transport
begin

text \<open>
  The transport side of \<open>HttpConnection\<close> (\<open>crates/tpt-net-http/src/connection.rs\<close>): the read
  buffer over a transport, raw reads and writes, lines and expected bytes.  An async function
  is its run to completion; its reads await the transport.
\<close>

datatype http_error =
    Http_Io io_error
  | Http_Parse string
  | Http_Connection_Closed
  | Http_Timed_Out
  | Http_Conflicting_Headers string

text \<open>\<open>Display\<close>.\<close>

fun http_error_text :: "http_error \<Rightarrow> string" where
  "http_error_text (Http_Io (Io_Error k m)) = ''I/O error: '' @ m"
| "http_error_text (Http_Parse reason) = ''malformed HTTP message: '' @ reason"
| "http_error_text Http_Connection_Closed = ''connection closed by peer''"
| "http_error_text Http_Timed_Out = ''operation timed out''"
| "http_error_text (Http_Conflicting_Headers what) = ''conflicting headers: '' @ what"

record http_connection =
  io :: transport
  conn_buf :: "byte list"
  eof :: bool

definition read_chunk :: nat where
  "read_chunk = 8192"

definition conn_new :: "transport \<Rightarrow> http_connection" where
  "conn_new t = \<lparr>io = t, conn_buf = [], eof = False\<rparr>"

definition into_inner :: "http_connection \<Rightarrow> transport" where
  "into_inner c = io c"

definition conn_fill :: "http_connection \<Rightarrow> (http_error + nat) \<times> http_connection" where
  "conn_fill c =
     (case tr_read read_chunk (io c) of
        (Inl e, t) \<Rightarrow> (Inl (Http_Io e), c\<lparr>io := t\<rparr>)
      | (Inr bs, t) \<Rightarrow>
          if bs = [] then (Inr 0, c\<lparr>io := t, eof := True\<rparr>)
          else (Inr (length bs), c\<lparr>io := t, conn_buf := conn_buf c @ bs\<rparr>))"

text \<open>\<open>read_raw\<close> into a slice of \<open>cap\<close> bytes: the bytes it put there.\<close>

definition read_raw :: "nat \<Rightarrow> http_connection \<Rightarrow> (http_error + byte list) \<times> http_connection" where
  "read_raw cap c =
     (if conn_buf c \<noteq> [] then
        let n = min cap (length (conn_buf c))
        in (Inr (take n (conn_buf c)), c\<lparr>conn_buf := drop n (conn_buf c)\<rparr>)
      else case tr_read cap (io c) of
        (Inl e, t) \<Rightarrow> (Inl (Http_Io e), c\<lparr>io := t\<rparr>)
      | (Inr bs, t) \<Rightarrow> (Inr bs, c\<lparr>io := t\<rparr>))"

text \<open>
  One poll of \<open>read_raw\<close>, for a caller that may stop waiting.  A \<open>read_raw\<close> that is
  dropped while pending has taken nothing from the connection.
\<close>

definition poll_raw :: "nat \<Rightarrow> http_connection \<Rightarrow> (http_error + byte list) poll \<times> http_connection" where
  "poll_raw cap c =
     (if conn_buf c \<noteq> [] then
        let n = min cap (length (conn_buf c))
        in (Ready (Inr (take n (conn_buf c))), c\<lparr>conn_buf := drop n (conn_buf c)\<rparr>)
      else case tr_poll_read cap (io c) of
        (Pending, t) \<Rightarrow> (Pending, c\<lparr>io := t\<rparr>)
      | (Ready (Inl e), t) \<Rightarrow> (Ready (Inl (Http_Io e)), c\<lparr>io := t\<rparr>)
      | (Ready (Inr bs), t) \<Rightarrow> (Ready (Inr bs), c\<lparr>io := t\<rparr>))"

text \<open>\<open>buf.windows(2).position(|w| w == b"\r\n")\<close>.\<close>

fun crlf_position :: "byte list \<Rightarrow> nat option" where
  "crlf_position (a # b # r) =
     (if a = 13 \<and> b = 10 then Some 0 else map_option Suc (crlf_position (b # r)))"
| "crlf_position _ = None"

lemma crlf_position_bound: "crlf_position xs = Some i \<Longrightarrow> i + 2 \<le> length xs"
  by (induction xs arbitrary: i rule: crlf_position.induct) (auto split: if_splits)

lemma crlf_position_append: "13 \<notin> set xs \<Longrightarrow> crlf_position (xs @ 13 # 10 # ys) = Some (length xs)"
proof (induction xs)
  case (Cons x xs)
  then show ?case by (cases xs) auto
qed simp

lemma crlf_position_none: "13 \<notin> set xs \<Longrightarrow> crlf_position xs = None"
  by (induction xs rule: crlf_position.induct) auto

lemma conn_fill_size:
  "conn_fill c = (Inr n, c1) \<Longrightarrow> n \<noteq> 0 \<Longrightarrow> script_size (incoming (io c1)) < script_size (incoming (io c))"
  by (auto simp: conn_fill_def dest: tr_read_size split: prod.splits sum.splits if_splits)

function read_line :: "http_connection \<Rightarrow> (http_error + byte list) \<times> http_connection" where
  "read_line c =
     (case crlf_position (conn_buf c) of
        Some p \<Rightarrow> (Inr (take p (conn_buf c)), c\<lparr>conn_buf := drop (p + 2) (conn_buf c)\<rparr>)
      | None \<Rightarrow>
          if conn_buf c = [] \<and> eof c then (Inl Http_Connection_Closed, c)
          else case conn_fill c of
            (Inl e, c1) \<Rightarrow> (Inl e, c1)
          | (Inr n, c1) \<Rightarrow> if n = 0 then (Inl Http_Connection_Closed, c1) else read_line c1)"
  by pat_completeness auto
termination
  by (relation "measure (\<lambda>c. script_size (incoming (io c)))") (auto intro: conn_fill_size[OF sym])

declare read_line.simps [simp del]

text \<open>The bytes a connection will deliver before an error or the end of the stream.\<close>

definition conn_bytes :: "http_connection \<Rightarrow> byte list" where
  "conn_bytes c = conn_buf c @ pending_bytes (incoming (io c))"

text \<open>A transport that takes every write.\<close>

definition writable :: "http_connection \<Rightarrow> bool" where
  "writable c \<longleftrightarrow> accepting (io c) = [] \<and> flush_error (io c) = None"

lemma read_raw_bytes:
  assumes "read_raw cap c = (r, c1)" "0 < cap"
  shows "outgoing (io c1) = outgoing (io c) \<and> writable c1 = writable c \<and>
     (case r of
        Inl e \<Rightarrow> conn_bytes c = []
      | Inr bs \<Rightarrow> length bs \<le> cap \<and> conn_bytes c = (if bs = [] then [] else bs @ conn_bytes c1))"
proof (cases "conn_buf c = []")
  case True
  obtain x t1 where x: "tr_read cap (io c) = (x, t1)" by fastforce
  from tr_read_bytes[OF this assms(2)] assms(1) True show ?thesis
    by (auto simp: read_raw_def conn_bytes_def writable_def x split: sum.splits if_splits)
next
  case False
  then show ?thesis using assms by (auto simp: read_raw_def conn_bytes_def writable_def Let_def)
qed

text \<open>
  The size of what a connection has still to read; a raw read that returns bytes decreases it.
\<close>

definition conn_size :: "http_connection \<Rightarrow> nat" where
  "conn_size c = length (conn_buf c) + script_size (incoming (io c))"

lemma tr_read_size_bytes:
  "tr_read cap t = (Inr bs, t1) \<Longrightarrow> bs \<noteq> [] \<Longrightarrow> 0 < cap \<Longrightarrow>
     length bs + script_size (incoming t1) \<le> script_size (incoming t)"
proof (induction cap t rule: tr_read.induct)
  case (1 cap t)
  obtain p t2 where p: "tr_poll_read cap t = (p, t2)" by fastforce
  show ?case
  proof (cases p)
    case Pending
    then have "tr_read cap t2 = (Inr bs, t1)" using "1.prems"(1) p by (subst (asm) tr_read.simps) simp
    from "1.IH"[OF p[symmetric] Pending this "1.prems"(2,3)] show ?thesis
      using tr_poll_read_pending p Pending by fastforce
  next
    case (Ready x)
    then have "tr_read cap t = (x, t2)" using p by (subst tr_read.simps) simp
    then have "tr_poll_read cap t = (Ready (Inr bs), t1)" using "1.prems" p Ready by simp
    then show ?thesis
      using "1.prems" by (auto simp: tr_poll_read.simps split: list.splits read_event.splits if_splits)
  qed
qed

lemma read_raw_size:
  assumes "read_raw cap c = (Inr bs, c1)" "bs \<noteq> []" "0 < cap"
  shows "length bs + conn_size c1 \<le> conn_size c" "conn_size c1 < conn_size c"
proof -
  show "length bs + conn_size c1 \<le> conn_size c"
    using assms tr_read_size_bytes[of cap "io c" bs]
    by (auto simp: read_raw_def conn_size_def Let_def split: prod.splits sum.splits if_splits)
  then show "conn_size c1 < conn_size c" using assms(2) by (cases bs) auto
qed

lemma tr_read_size_le:
  "tr_read cap t = (r, t1) \<Longrightarrow> 0 < cap \<Longrightarrow> script_size (incoming t1) \<le> script_size (incoming t)"
proof (induction cap t rule: tr_read.induct)
  case (1 cap t)
  obtain p t2 where p: "tr_poll_read cap t = (p, t2)" by fastforce
  have le: "script_size (incoming t2) \<le> script_size (incoming t)"
    using p "1.prems"(2) by (auto simp: tr_poll_read.simps split: list.splits read_event.splits if_splits)
  show ?case
  proof (cases p)
    case Pending
    then have "tr_read cap t2 = (r, t1)" using "1.prems"(1) p by (subst (asm) tr_read.simps) simp
    from "1.IH"[OF p[symmetric] Pending this "1.prems"(2)] le show ?thesis by simp
  next
    case (Ready x)
    then have "tr_read cap t = (x, t2)" using p by (subst tr_read.simps) simp
    then show ?thesis using "1.prems" le by simp
  qed
qed

lemma read_raw_size_le:
  assumes "read_raw cap c = (r, c1)" "0 < cap"
  shows "case r of Inr bs \<Rightarrow> length bs + conn_size c1 \<le> conn_size c | Inl _ \<Rightarrow> conn_size c1 \<le> conn_size c"
proof (cases "conn_buf c = []")
  case True
  obtain x t1 where x: "tr_read cap (io c) = (x, t1)" by fastforce
  have "case x of Inr bs \<Rightarrow> length bs + script_size (incoming t1) \<le> script_size (incoming (io c)) | Inl _ \<Rightarrow> True"
    using tr_read_size_bytes[of cap "io c"] tr_read_size_le[OF x assms(2)] x assms(2)
    by (fastforce split: sum.splits)
  with True assms(1) x tr_read_size_le[OF x assms(2)] show ?thesis
    by (auto simp: read_raw_def conn_size_def split: sum.splits)
qed (use assms in \<open>auto simp: read_raw_def conn_size_def Let_def\<close>)

text \<open>\<open>expect_exact\<close>: raw reads until as many bytes as expected have come, then a comparison.\<close>

function expect_loop :: "nat \<Rightarrow> byte list \<Rightarrow> http_connection \<Rightarrow> (http_error + byte list) \<times> http_connection" where
  "expect_loop want got c =
     (if want \<le> length got then (Inr got, c)
      else case read_raw (want - length got) c of
        (Inl e, c1) \<Rightarrow> (Inl e, c1)
      | (Inr bs, c1) \<Rightarrow>
          if bs = [] then (Inl Http_Connection_Closed, c1)
          else expect_loop want (got @ bs) c1)"
  by pat_completeness auto
termination
  by (relation "measure (\<lambda>(want, got, c). want - length got)") (auto simp flip: length_greater_0_conv)

declare expect_loop.simps [simp del]

definition expect_exact :: "byte list \<Rightarrow> http_connection \<Rightarrow> (http_error + unit) \<times> http_connection" where
  "expect_exact expected c =
     (case expect_loop (length expected) [] c of
        (Inl e, c1) \<Rightarrow> (Inl e, c1)
      | (Inr got, c1) \<Rightarrow>
          if got \<noteq> expected then (Inl (Http_Parse ''invalid framing bytes''), c1) else (Inr (), c1))"

text \<open>Writing.\<close>

definition conn_write_all :: "byte list \<Rightarrow> http_connection \<Rightarrow> (http_error + unit) \<times> http_connection" where
  "conn_write_all bs c =
     (case tr_write_all bs (io c) of
        (Inl e, t) \<Rightarrow> (Inl (Http_Io e), c\<lparr>io := t\<rparr>)
      | (Inr u, t) \<Rightarrow> (Inr (), c\<lparr>io := t\<rparr>))"

definition conn_flush :: "http_connection \<Rightarrow> (http_error + unit) \<times> http_connection" where
  "conn_flush c = (case tr_flush (io c) of Inl e \<Rightarrow> (Inl (Http_Io e), c) | Inr u \<Rightarrow> (Inr (), c))"

definition write_raw :: "byte list \<Rightarrow> http_connection \<Rightarrow> (http_error + unit) \<times> http_connection" where
  "write_raw bs c =
     (case conn_write_all bs c of
        (Inl e, c1) \<Rightarrow> (Inl e, c1)
      | (Inr u, c1) \<Rightarrow> conn_flush c1)"

definition write_message :: "byte list \<Rightarrow> byte list \<Rightarrow> http_connection \<Rightarrow> (http_error + unit) \<times> http_connection" where
  "write_message head body c =
     (case conn_write_all head c of
        (Inl e, c1) \<Rightarrow> (Inl e, c1)
      | (Inr u, c1) \<Rightarrow>
          if body = [] then conn_flush c1
          else (case conn_write_all body c1 of
                  (Inl e, c2) \<Rightarrow> (Inl e, c2)
                | (Inr u, c2) \<Rightarrow> conn_flush c2))"

lemma conn_write_all_frame:
  assumes "conn_write_all bs c = (r, c1)"
  shows "conn_buf c1 = conn_buf c \<and> eof c1 = eof c \<and> incoming (io c1) = incoming (io c) \<and>
    (\<exists>sent rest. bs = sent @ rest \<and> outgoing (io c1) = outgoing (io c) @ sent \<and> (r = Inr () \<longleftrightarrow> rest = []))"
proof -
  obtain x t1 where x: "tr_write_all bs (io c) = (x, t1)" by fastforce
  have "r = (case x of Inl e \<Rightarrow> Inl (Http_Io e) | Inr _ \<Rightarrow> Inr ())" "c1 = c\<lparr>io := t1\<rparr>"
    using assms x by (auto simp: conn_write_all_def split: sum.splits)
  moreover obtain sent rest where "bs = sent @ rest" "outgoing t1 = outgoing (io c) @ sent"
      "incoming t1 = incoming (io c)" "x = Inr () \<longleftrightarrow> rest = []"
    using tr_write_all_sent[OF x] by blast
  ultimately show ?thesis by (cases x) auto
qed

lemma write_raw_frame:
  assumes "write_raw bs c = (r, c1)"
  shows "conn_buf c1 = conn_buf c \<and> eof c1 = eof c \<and> incoming (io c1) = incoming (io c) \<and>
    (\<exists>sent rest. bs = sent @ rest \<and> outgoing (io c1) = outgoing (io c) @ sent \<and> (r = Inr () \<longrightarrow> rest = []))"
proof -
  obtain x c2 where x: "conn_write_all bs c = (x, c2)" by fastforce
  then have "c1 = c2 \<and> (r = Inr () \<longrightarrow> x = Inr ())"
    using assms by (auto simp: write_raw_def conn_flush_def split: sum.splits)
  then show ?thesis using conn_write_all_frame[OF x] by blast
qed

lemma conn_write_all_writable:
  assumes "writable c"
  shows "conn_write_all bs c = (Inr (), c\<lparr>io := (io c)\<lparr>outgoing := outgoing (io c) @ bs\<rparr>\<rparr>)"
  using assms
  by (cases "bs = []")
     (simp_all add: conn_write_all_def tr_write_all_def await_write_all.simps write_all_poll.simps
       tr_poll_write.simps writable_def)

lemma write_raw_writable:
  assumes "writable c"
  shows "write_raw bs c = (Inr (), c\<lparr>io := (io c)\<lparr>outgoing := outgoing (io c) @ bs\<rparr>\<rparr>)"
  using assms conn_write_all_writable[OF assms, of bs]
  by (simp add: write_raw_def conn_flush_def tr_flush_def writable_def)

end
