(* ===== verification/Http_Parse.thy ===== *)
theory Http_Parse
  imports Http_Connection
begin

text \<open>
  The HTTP/1.1 head parser of \<open>crates/tpt-net-http/src/parse.rs\<close>.  As in the code, parsing
  produces byte ranges into the buffer; the accessors of the head types slice it.  A range
  \<open>s..e\<close> is the pair \<open>(s, e)\<close>.
\<close>

section \<open>Heads\<close>

datatype http_version = Http10 | Http11

type_synonym byte_range = "nat \<times> nat"

definition slice :: "byte list \<Rightarrow> byte_range \<Rightarrow> byte list" where
  "slice buf r = take (snd r - fst r) (drop (fst r) buf)"

record header_block =
  hb_buf :: "byte list"
  hb_entries :: "(byte_range \<times> byte_range) list"

definition hb_iter :: "header_block \<Rightarrow> (byte list \<times> byte list) list" where
  "hb_iter h = map (\<lambda>(n, v). (slice (hb_buf h) n, slice (hb_buf h) v)) (hb_entries h)"

definition hb_empty :: header_block where
  "hb_empty = \<lparr>hb_buf = [], hb_entries = []\<rparr>"

definition hb_is_empty :: "header_block \<Rightarrow> bool" where
  "hb_is_empty h \<longleftrightarrow> hb_entries h = []"

text \<open>\<open>get\<close>: the first header with the name, compared without case.\<close>

definition hb_get :: "byte list \<Rightarrow> header_block \<Rightarrow> byte list option" where
  "hb_get name h = map_option snd (find (\<lambda>(n, _). eq_ignore_ascii_case n name) (hb_iter h))"

record head_ranges =
  hr_first :: "byte_range \<times> byte_range"
  hr_version :: http_version
  hr_status :: "nat option"
  hr_headers :: "(byte_range \<times> byte_range) list"
  hr_consumed :: nat

record request_head =
  rq_buf :: "byte list"
  rq_method_range :: byte_range
  rq_target_range :: byte_range
  rq_version :: http_version
  rq_headers :: header_block

definition rq_method :: "request_head \<Rightarrow> byte list" where
  "rq_method h = slice (rq_buf h) (rq_method_range h)"

definition rq_target :: "request_head \<Rightarrow> byte list" where
  "rq_target h = slice (rq_buf h) (rq_target_range h)"

definition request_from_ranges :: "byte list \<Rightarrow> head_ranges \<Rightarrow> request_head" where
  "request_from_ranges buf r =
     \<lparr>rq_buf = buf, rq_method_range = fst (hr_first r), rq_target_range = snd (hr_first r),
      rq_version = hr_version r, rq_headers = \<lparr>hb_buf = buf, hb_entries = hr_headers r\<rparr>\<rparr>"

record response_head =
  rs_buf :: "byte list"
  rs_reason_range :: byte_range
  rs_status :: nat
  rs_version :: http_version
  rs_headers :: header_block

definition rs_reason :: "response_head \<Rightarrow> byte list" where
  "rs_reason h = slice (rs_buf h) (rs_reason_range h)"

definition response_from_ranges :: "byte list \<Rightarrow> head_ranges \<Rightarrow> response_head" where
  "response_from_ranges buf r =
     \<lparr>rs_buf = buf, rs_reason_range = fst (hr_first r),
      rs_status = (case hr_status r of Some s \<Rightarrow> s | None \<Rightarrow> 200),
      rs_version = hr_version r, rs_headers = \<lparr>hb_buf = buf, hb_entries = hr_headers r\<rparr>\<rparr>"

section \<open>Scanning\<close>

definition max_head :: nat where
  "max_head = 64 * 1024"

definition header_delim :: "byte list" where
  "header_delim = [13, 10, 13, 10]"

definition memchr_find :: "byte list \<Rightarrow> byte list \<Rightarrow> nat option" where
  "memchr_find haystack needle =
     (if length needle > length haystack then None
      else find (\<lambda>i. take (length needle) (drop i haystack) = needle)
             [0..<length haystack - length needle + 1])"

text \<open>\<open>windows(2)\<close>, and the last position of a CRLF.\<close>

definition windows2 :: "byte list \<Rightarrow> (byte \<times> byte) list" where
  "windows2 bs = zip bs (tl bs)"

definition crlf_rposition :: "byte list \<Rightarrow> nat option" where
  "crlf_rposition bs =
     (let ps = filter (\<lambda>i. windows2 bs ! i = (13, 10)) [0..<length bs - 1]
      in if ps = [] then None else Some (last ps))"

definition find_head_end :: "byte list \<Rightarrow> http_error + nat option" where
  "find_head_end buf =
     (if length buf > max_head then Inl (Http_Parse ''message head exceeds 64 KiB'')
      else let head_end = memchr_find buf header_delim;
               scanned = (case head_end of
                   Some e \<Rightarrow> take e buf
                 | None \<Rightarrow> (case crlf_rposition buf of Some p \<Rightarrow> take p buf | None \<Rightarrow> []))
      in if (10, 32) \<in> set (windows2 scanned) \<or> (10, 9) \<in> set (windows2 scanned)
         then Inl (Http_Parse ''obsolete line folding in header block'')
         else Inr head_end)"

definition first_line :: "byte list \<Rightarrow> byte_range option" where
  "first_line head =
     (case crlf_position head of
        Some e \<Rightarrow> Some (0, e)
      | None \<Rightarrow> if head \<noteq> [] then Some (0, length head) else None)"

text \<open>\<open>trim_ows\<close>: the range left after the two \<open>while\<close> loops.\<close>

definition is_ows :: "byte \<Rightarrow> bool" where
  "is_ows b \<longleftrightarrow> b = 32 \<or> b = 9"

definition trim_ows :: "byte list \<Rightarrow> byte_range" where
  "trim_ows v =
     (let s = length (takeWhile is_ows v);
          e = length v - length (takeWhile is_ows (rev (drop s v)))
      in (s, e))"

text \<open>\<open>position\<close> of a byte.\<close>

fun byte_position :: "byte \<Rightarrow> byte list \<Rightarrow> nat option" where
  "byte_position b [] = None"
| "byte_position b (x # xs) = (if x = b then Some 0 else map_option Suc (byte_position b xs))"

section \<open>Lines\<close>

definition header_ranges :: "nat \<Rightarrow> byte list \<Rightarrow> http_error + byte_range \<times> byte_range" where
  "header_ranges start line =
     (case byte_position 58 line of
        None \<Rightarrow> Inl (Http_Parse ''header line missing colon'')
      | Some colon \<Rightarrow>
          let trimmed = trim_ows (drop (colon + 1) line)
          in Inr ((start, start + colon),
                  (start + colon + 1 + fst trimmed, start + colon + 1 + snd trimmed)))"

text \<open>\<open>collect_header_ranges\<close>: the scan, then the line that the delimiter terminated.\<close>

function collect_scan ::
  "byte list \<Rightarrow> nat \<Rightarrow> nat \<Rightarrow> nat \<Rightarrow> nat \<Rightarrow> (byte_range \<times> byte_range) list \<Rightarrow>
   http_error + (byte_range \<times> byte_range) list" where
  "collect_scan buf skip start seen i out =
     (if i + 1 < length buf then
        if buf ! i = 13 \<and> buf ! (i + 1) = 10 then
          let line = take (i - start) (drop start buf) in
          if skip \<le> seen \<and> line \<noteq> [] then
            (case header_ranges start line of
               Inl e \<Rightarrow> Inl e
             | Inr r \<Rightarrow> collect_scan buf skip (i + 2) (seen + 1) (i + 2) (out @ [r]))
          else collect_scan buf skip (i + 2) (seen + 1) (i + 2) out
        else collect_scan buf skip start seen (i + 1) out
      else if start < length buf \<and> skip \<le> seen then
        (case header_ranges start (drop start buf) of
           Inl e \<Rightarrow> Inl e
         | Inr r \<Rightarrow> Inr (out @ [r]))
      else Inr out)"
  by pat_completeness auto
termination by (relation "measure (\<lambda>(buf, skip, start, seen, i, out). length buf - i)") auto

declare collect_scan.simps [simp del]

definition collect_header_ranges :: "byte list \<Rightarrow> nat \<Rightarrow> http_error + (byte_range \<times> byte_range) list" where
  "collect_header_ranges buf skip = collect_scan buf skip 0 0 0 []"

definition is_tchar_strict :: "byte \<Rightarrow> bool" where
  "is_tchar_strict b \<longleftrightarrow>
     65 \<le> b \<and> b \<le> 90 \<or> 97 \<le> b \<and> b \<le> 122 \<or> 48 \<le> b \<and> b \<le> 57 \<or>
     b \<in> set [33, 35, 36, 37, 38, 39, 42, 43, 45, 46, 94, 95, 96, 124, 126]"

definition http_11 :: "byte list" where "http_11 = ascii ''HTTP/1.1''"

definition http_10 :: "byte list" where "http_10 = ascii ''HTTP/1.0''"

definition parse_request_line :: "byte list \<Rightarrow> http_error + byte_range \<times> byte_range \<times> http_version" where
  "parse_request_line line =
     (case byte_position 32 line of
        None \<Rightarrow> Inl (Http_Parse ''malformed request line'')
      | Some sp1 \<Rightarrow>
          if sp1 = 0 \<or> \<not> list_all is_tchar_strict (take sp1 line)
          then Inl (Http_Parse ''malformed request line'')
          else let rest = drop (sp1 + 1) line in
            (case byte_position 32 rest of
               None \<Rightarrow> Inl (Http_Parse ''malformed request line'')
             | Some sp2 \<Rightarrow>
                 if sp2 = 0 then Inl (Http_Parse ''malformed request line'')
                 else let v = drop (sp2 + 1) rest in
                   if v = http_11 then Inr ((0, sp1), (sp1 + 1, sp1 + 1 + sp2), Http11)
                   else if v = http_10 then Inr ((0, sp1), (sp1 + 1, sp1 + 1 + sp2), Http10)
                   else Inl (Http_Parse ''unsupported HTTP version'')))"

definition is_ascii_digit :: "byte \<Rightarrow> bool" where
  "is_ascii_digit b \<longleftrightarrow> 48 \<le> b \<and> b \<le> 57"

text \<open>\<open>line[5]\<close> is the byte after \<open>HTTP/\<close>, as in the code.\<close>

definition parse_status_line :: "byte list \<Rightarrow> http_error + http_version \<times> nat \<times> byte_range" where
  "parse_status_line line =
     (if take 9 line \<noteq> http_11 @ [32] \<and> take 9 line \<noteq> http_10 @ [32]
      then Inl (Http_Parse ''malformed status line'')
      else let version = (if line ! 5 = 49 then Http11 else Http10);
               rest = drop 9 line in
        if length rest < 3 \<or> \<not> list_all is_ascii_digit (take 3 rest)
        then Inl (Http_Parse ''malformed status line'')
        else let code = unat (rest ! 0 - 48) * 100 + unat (rest ! 1 - 48) * 10 + unat (rest ! 2 - 48) in
          if \<not> (100 \<le> code \<and> code \<le> 599) then Inl (Http_Parse ''malformed status line'')
          else let trimmed = trim_ows (drop 3 rest)
            in Inr (version, code, (9 + 3 + fst trimmed, 9 + 3 + snd trimmed)))"

definition offset_range :: "byte_range \<Rightarrow> nat \<Rightarrow> byte_range" where
  "offset_range r d = (fst r + d, snd r + d)"

section \<open>Whole heads\<close>

definition parse_request_ranges :: "byte list \<Rightarrow> http_error + head_ranges option" where
  "parse_request_ranges buf =
     (case find_head_end buf of
        Inl e \<Rightarrow> Inl e
      | Inr None \<Rightarrow> Inr None
      | Inr (Some head_end) \<Rightarrow>
          (case first_line (take head_end buf) of
             None \<Rightarrow> Inl (Http_Parse ''empty request head'')
           | Some rl \<Rightarrow>
               (case parse_request_line (slice buf rl) of
                  Inl e \<Rightarrow> Inl e
                | Inr (m, t, v) \<Rightarrow>
                    (case collect_header_ranges (take head_end buf) 1 of
                       Inl e \<Rightarrow> Inl e
                     | Inr hs \<Rightarrow>
                         Inr (Some \<lparr>hr_first = (offset_range m (fst rl), offset_range t (fst rl)),
                                   hr_version = v, hr_status = None, hr_headers = hs,
                                   hr_consumed = head_end + length header_delim\<rparr>)))))"

definition parse_response_ranges :: "byte list \<Rightarrow> http_error + head_ranges option" where
  "parse_response_ranges buf =
     (case find_head_end buf of
        Inl e \<Rightarrow> Inl e
      | Inr None \<Rightarrow> Inr None
      | Inr (Some head_end) \<Rightarrow>
          (case first_line (take head_end buf) of
             None \<Rightarrow> Inl (Http_Parse ''empty status head'')
           | Some sl \<Rightarrow>
               (case parse_status_line (slice buf sl) of
                  Inl e \<Rightarrow> Inl e
                | Inr (v, status, reason) \<Rightarrow>
                    (case collect_header_ranges (take head_end buf) 1 of
                       Inl e \<Rightarrow> Inl e
                     | Inr hs \<Rightarrow>
                         Inr (Some \<lparr>hr_first = (offset_range reason (fst sl), offset_range reason (fst sl)),
                                   hr_version = v, hr_status = Some status, hr_headers = hs,
                                   hr_consumed = head_end + length header_delim\<rparr>)))))"

end
