(* ===== verification/Http_Body.thy ===== *)
theory Http_Body
  imports Http_Parse
begin

text \<open>
  Reading heads off a connection (\<open>connection.rs\<close>) and the message bodies of \<open>body.rs\<close>: how a
  body is framed, and the streaming reader for each framing.
\<close>

section \<open>Reading a head\<close>

text \<open>The buffer is taken before it is parsed, so a parse error loses it.\<close>

function read_request_head :: "http_connection \<Rightarrow> (http_error + request_head option) \<times> http_connection" where
  "read_request_head c =
     (case parse_request_ranges (conn_buf c) of
        Inl e \<Rightarrow> (Inl e, c\<lparr>conn_buf := []\<rparr>)
      | Inr (Some r) \<Rightarrow>
          (Inr (Some (request_from_ranges (take (hr_consumed r) (conn_buf c)) r)),
           c\<lparr>conn_buf := drop (hr_consumed r) (conn_buf c)\<rparr>)
      | Inr None \<Rightarrow>
          (case conn_fill c of
             (Inl e, c1) \<Rightarrow> (Inl e, c1)
           | (Inr n, c1) \<Rightarrow>
               if n = 0 then
                 (if conn_buf c1 = [] then (Inr None, c1) else (Inl Http_Connection_Closed, c1))
               else read_request_head c1))"
  by pat_completeness auto
termination
  by (relation "measure (\<lambda>c. script_size (incoming (io c)))") (auto intro: conn_fill_size[OF sym])

declare read_request_head.simps [simp del]

function read_response_head :: "http_connection \<Rightarrow> (http_error + response_head) \<times> http_connection" where
  "read_response_head c =
     (case parse_response_ranges (conn_buf c) of
        Inl e \<Rightarrow> (Inl e, c\<lparr>conn_buf := []\<rparr>)
      | Inr (Some r) \<Rightarrow>
          (Inr (response_from_ranges (take (hr_consumed r) (conn_buf c)) r),
           c\<lparr>conn_buf := drop (hr_consumed r) (conn_buf c)\<rparr>)
      | Inr None \<Rightarrow>
          (case conn_fill c of
             (Inl e, c1) \<Rightarrow> (Inl e, c1)
           | (Inr n, c1) \<Rightarrow> if n = 0 then (Inl Http_Connection_Closed, c1) else read_response_head c1))"
  by pat_completeness auto
termination
  by (relation "measure (\<lambda>c. script_size (incoming (io c)))") (auto intro: conn_fill_size[OF sym])

declare read_response_head.simps [simp del]

section \<open>Text\<close>

text \<open>
  \<open>str::trim\<close>: Unicode white space at the front and at the end of a UTF-8 text; \<open>white_len\<close> is
  the number of bytes of the white-space character a text starts with, or 0.
\<close>

fun white_len :: "byte list \<Rightarrow> nat" where
  "white_len (a # b # c # r) =
     (if a = 32 \<or> 9 \<le> a \<and> a \<le> 13 then 1
      else if a = 0xC2 \<and> (b = 0x85 \<or> b = 0xA0) then 2
      else if a = 0xE1 \<and> b = 0x9A \<and> c = 0x80 then 3
      else if a = 0xE2 \<and> b = 0x80 \<and> (c \<le> 0x8A \<and> 0x80 \<le> c \<or> c = 0xA8 \<or> c = 0xA9 \<or> c = 0xAF) then 3
      else if a = 0xE2 \<and> b = 0x81 \<and> c = 0x9F then 3
      else if a = 0xE3 \<and> b = 0x80 \<and> c = 0x80 then 3
      else 0)"
| "white_len [a, b] =
     (if a = 32 \<or> 9 \<le> a \<and> a \<le> 13 then 1 else if a = 0xC2 \<and> (b = 0x85 \<or> b = 0xA0) then 2 else 0)"
| "white_len [a] = (if a = 32 \<or> 9 \<le> a \<and> a \<le> 13 then 1 else 0)"
| "white_len [] = 0"

function trim_start :: "byte list \<Rightarrow> byte list" where
  "trim_start bs = (if white_len bs = 0 \<or> bs = [] then bs else trim_start (drop (white_len bs) bs))"
  by pat_completeness auto
termination by (relation "measure length") auto

declare trim_start.simps [simp del]

text \<open>The length of the white-space character a text ends with.\<close>

definition white_end :: "byte list \<Rightarrow> nat" where
  "white_end bs =
     (let l = length bs in
      if 1 \<le> l \<and> white_len (drop (l - 1) bs) = 1 then 1
      else if 2 \<le> l \<and> white_len (drop (l - 2) bs) = 2 then 2
      else if 3 \<le> l \<and> white_len (drop (l - 3) bs) = 3 then 3
      else 0)"

function trim_end :: "byte list \<Rightarrow> byte list" where
  "trim_end bs = (if white_end bs = 0 \<or> bs = [] then bs else trim_end (take (length bs - white_end bs) bs))"
  by pat_completeness auto
termination by (relation "measure length") auto

declare trim_end.simps [simp del]

definition str_trim :: "byte list \<Rightarrow> byte list" where
  "str_trim bs = trim_end (trim_start bs)"

text \<open>\<open>u64::from_str\<close> on ASCII digits, and \<open>u64::from_str_radix(_, 16)\<close> with its optional plus.\<close>

definition parse_u64_digits :: "byte list \<Rightarrow> nat option" where
  "parse_u64_digits bs =
     (let n = foldl (\<lambda>acc b. acc * 10 + (unat b - 48)) 0 bs
      in if bs = [] \<or> \<not> list_all is_ascii_digit bs \<or> u64_max < n then None else Some n)"

definition hex_value :: "byte \<Rightarrow> nat option" where
  "hex_value b =
     (if 48 \<le> b \<and> b \<le> 57 then Some (unat b - 48)
      else if 97 \<le> b \<and> b \<le> 102 then Some (unat b - 87)
      else if 65 \<le> b \<and> b \<le> 70 then Some (unat b - 55)
      else None)"

fun hex_digits :: "nat \<Rightarrow> byte list \<Rightarrow> nat option" where
  "hex_digits acc [] = Some acc"
| "hex_digits acc (b # bs) =
     (case hex_value b of
        None \<Rightarrow> None
      | Some d \<Rightarrow> if u64_max < acc * 16 + d then None else hex_digits (acc * 16 + d) bs)"

definition from_str_radix16 :: "byte list \<Rightarrow> nat option" where
  "from_str_radix16 bs =
     (let ds = (if length bs > 1 \<and> hd bs = 43 then tl bs else bs)
      in if ds = [] then None else hex_digits 0 ds)"

section \<open>Framing\<close>

datatype body_kind = Empty_Body | Content_Length nat | Chunked | Until_Eof

definition h_transfer_encoding :: "byte list" where
  "h_transfer_encoding = ascii ''transfer-encoding''"

definition h_content_length :: "byte list" where
  "h_content_length = ascii ''content-length''"

definition v_chunked :: "byte list" where
  "v_chunked = ascii ''chunked''"

definition content_length_kind :: "header_block \<Rightarrow> http_error + body_kind" where
  "content_length_kind h =
     (case hb_get h_content_length h of
        None \<Rightarrow> Inr Empty_Body
      | Some v \<Rightarrow>
          if \<not> utf8_valid v then Inl (Http_Parse ''invalid Content-Length'')
          else let trimmed = str_trim v in
            if trimmed = [] \<or> \<not> list_all is_ascii_digit trimmed then Inl (Http_Parse ''invalid Content-Length'')
            else (case parse_u64_digits trimmed of
                    None \<Rightarrow> Inl (Http_Parse ''invalid Content-Length'')
                  | Some n \<Rightarrow> Inr (Content_Length n)))"

definition request_body_kind :: "header_block \<Rightarrow> http_error + body_kind" where
  "request_body_kind h =
     (case hb_get h_transfer_encoding h of
        Some te \<Rightarrow>
          if hb_get h_content_length h \<noteq> None
          then Inl (Http_Conflicting_Headers ''both Transfer-Encoding and Content-Length'')
          else if eq_ignore_ascii_case te v_chunked then Inr Chunked
          else Inl (Http_Parse ''unsupported Transfer-Encoding'')
      | None \<Rightarrow> content_length_kind h)"

definition response_body_kind :: "header_block \<Rightarrow> nat \<Rightarrow> bool \<Rightarrow> http_error + body_kind" where
  "response_body_kind h status is_head_request =
     (if status = 204 \<or> status = 304 \<or> 100 \<le> status \<and> status < 200 then Inr Empty_Body
      else if is_head_request then Inr Empty_Body
      else case hb_get h_transfer_encoding h of
        Some te \<Rightarrow>
          if eq_ignore_ascii_case te v_chunked then Inr Chunked
          else Inl (Http_Parse ''unsupported Transfer-Encoding'')
      | None \<Rightarrow>
          (case content_length_kind h of
             Inl e \<Rightarrow> Inl e
           | Inr Empty_Body \<Rightarrow> Inr Until_Eof
           | Inr k \<Rightarrow> Inr k))"

section \<open>The body reader\<close>

text \<open>The connection it borrows is passed along.\<close>

record body_reader =
  br_kind :: body_kind
  br_remaining :: nat
  br_chunk_remaining :: nat
  br_finished :: bool

definition body_reader_new :: "body_kind \<Rightarrow> body_reader" where
  "body_reader_new k =
     \<lparr>br_kind = k, br_remaining = (case k of Content_Length n \<Rightarrow> n | _ \<Rightarrow> 0),
      br_chunk_remaining = 0, br_finished = (k = Empty_Body \<or> k = Content_Length 0)\<rparr>"

type_synonym 'r body_result = "(http_error + 'r) \<times> body_reader \<times> http_connection"

definition read_content_length :: "nat \<Rightarrow> body_reader \<Rightarrow> http_connection \<Rightarrow> byte list body_result" where
  "read_content_length cap br c =
     (if br_remaining br = 0 then (Inr [], br, c)
      else case read_raw (min cap (br_remaining br)) c of
        (Inl e, c1) \<Rightarrow> (Inl e, br, c1)
      | (Inr bs, c1) \<Rightarrow>
          if bs = [] then (Inl Http_Connection_Closed, br, c1)
          else (Inr bs, br\<lparr>br_remaining := br_remaining br - length bs\<rparr>, c1))"

text \<open>The part of \<open>read_chunked\<close> inside a chunk.\<close>

definition read_chunk_data :: "nat \<Rightarrow> body_reader \<Rightarrow> http_connection \<Rightarrow> byte list body_result" where
  "read_chunk_data cap br c =
     (case read_raw (min cap (br_chunk_remaining br)) c of
        (Inl e, c1) \<Rightarrow> (Inl e, br, c1)
      | (Inr bs, c1) \<Rightarrow>
          if bs = [] then (Inl Http_Connection_Closed, br, c1)
          else let br1 = br\<lparr>br_chunk_remaining := br_chunk_remaining br - length bs\<rparr> in
            if br_chunk_remaining br1 = 0 then
              (case expect_exact crlf c1 of
                 (Inl e, c2) \<Rightarrow> (Inl e, br1, c2)
               | (Inr u, c2) \<Rightarrow> (Inr bs, br1, c2))
            else (Inr bs, br1, c1))"

definition parse_chunk_size :: "byte list \<Rightarrow> http_error + nat" where
  "parse_chunk_size line =
     (let size_part = takeWhile (\<lambda>b. b \<noteq> 59) line in
      if \<not> utf8_valid size_part then Inl (Http_Parse ''invalid chunk size'')
      else case from_str_radix16 (str_trim size_part) of
        None \<Rightarrow> Inl (Http_Parse ''invalid chunk size'')
      | Some n \<Rightarrow> Inr n)"

lemma conn_fill_conn_size:
  assumes "conn_fill c = (r, c1)"
  shows "conn_size c1 \<le> conn_size c"
proof -
  obtain x t1 where x: "tr_read read_chunk (io c) = (x, t1)" by fastforce
  have pos: "0 < read_chunk" by (simp add: read_chunk_def)
  show ?thesis
  proof (cases x)
    case (Inl e)
    then show ?thesis
      using assms x tr_read_size_le[OF x pos] by (auto simp: conn_fill_def conn_size_def)
  next
    case (Inr bs)
    then show ?thesis
      using assms x tr_read_size_le[OF x pos] tr_read_size_bytes[of read_chunk "io c" bs t1] pos
      by (auto simp: conn_fill_def conn_size_def split: if_splits)
  qed
qed


lemma read_line_size:
  "read_line c = (r, c1) \<Longrightarrow> conn_size c1 \<le> conn_size c \<and> (isl r \<or> conn_size c1 < conn_size c)"
proof (induction c rule: read_line.induct)
  case (1 c)
  show ?case
  proof (cases "crlf_position (conn_buf c)")
    case (Some p)
    have "p + 2 \<le> length (conn_buf c)" by (rule crlf_position_bound[OF Some])
    then show ?thesis using "1.prems" Some by (subst (asm) read_line.simps) (auto simp: conn_size_def)
  next
    case None
    show ?thesis
    proof (cases "conn_buf c = [] \<and> eof c")
      case True
      then show ?thesis using "1.prems" None by (subst (asm) read_line.simps) auto
    next
      case False
      obtain x c2 where x: "conn_fill c = (x, c2)" by fastforce
      note le = conn_fill_conn_size[OF x]
      show ?thesis
      proof (cases "\<exists>n. x = Inr n \<and> n \<noteq> 0")
        case True
        then obtain n where n: "x = Inr n" "n \<noteq> 0" by blast
        then have "read_line c2 = (r, c1)"
          using "1.prems" None False x by (subst (asm) read_line.simps) (simp del: not_None_eq split: if_splits)
        from "1.IH"[OF None False x[symmetric] n(1) n(2) this] le show ?thesis by auto
      next
        case stop: False
        then show ?thesis
          using "1.prems" None False x le
          by (subst (asm) read_line.simps) (auto split: sum.splits if_splits)
      qed
    qed
  qed
qed

text \<open>The trailer section: lines until a blank one.\<close>

function read_trailers :: "http_connection \<Rightarrow> (http_error + unit) \<times> http_connection" where
  "read_trailers c =
     (case read_line c of
        (Inl e, c1) \<Rightarrow> (Inl e, c1)
      | (Inr l, c1) \<Rightarrow> if l = [] then (Inr (), c1) else read_trailers c1)"
  by pat_completeness auto
termination
  by (relation "measure conn_size") (auto dest!: sym[THEN read_line_size])

declare read_trailers.simps [simp del]

text \<open>The loop of \<open>read_chunked\<close> runs its body at most twice: a size line, then data.\<close>

definition read_chunked :: "nat \<Rightarrow> body_reader \<Rightarrow> http_connection \<Rightarrow> byte list body_result" where
  "read_chunked cap br c =
     (if 0 < br_chunk_remaining br then read_chunk_data cap br c
      else case read_line c of
        (Inl e, c1) \<Rightarrow> (Inl e, br, c1)
      | (Inr line, c1) \<Rightarrow>
          (case parse_chunk_size line of
             Inl e \<Rightarrow> (Inl e, br, c1)
           | Inr sz \<Rightarrow>
               if sz = 0 then
                 (case read_trailers c1 of
                    (Inl e, c2) \<Rightarrow> (Inl e, br, c2)
                  | (Inr u, c2) \<Rightarrow> (Inr [], br\<lparr>br_finished := True\<rparr>, c2))
               else read_chunk_data cap (br\<lparr>br_chunk_remaining := sz\<rparr>) c1))"

definition body_read :: "nat \<Rightarrow> body_reader \<Rightarrow> http_connection \<Rightarrow> byte list body_result" where
  "body_read cap br c =
     (if br_finished br \<or> cap = 0 then (Inr [], br, c)
      else case (case br_kind br of
             Empty_Body \<Rightarrow> (Inr [], br, c)
           | Content_Length n \<Rightarrow> read_content_length cap br c
           | Chunked \<Rightarrow> read_chunked cap br c
           | Until_Eof \<Rightarrow> (case read_raw cap c of (r, c1) \<Rightarrow> (r, br, c1))) of
        (Inl e, br1, c1) \<Rightarrow> (Inl e, br1, c1)
      | (Inr bs, br1, c1) \<Rightarrow>
          (Inr bs, (if bs = [] then br1\<lparr>br_finished := True\<rparr> else br1), c1))"

lemma read_raw_drop_size:
  "read_raw cap c = (Inr bs, c1) \<Longrightarrow> bs \<noteq> [] \<Longrightarrow> 0 < cap \<Longrightarrow> conn_size c1 < conn_size c"
  using read_raw_size by blast

lemma expect_loop_size: "expect_loop want got c = (r, c1) \<Longrightarrow> conn_size c1 \<le> conn_size c"
proof (induction want got c rule: expect_loop.induct)
  case (1 want got c)
  show ?case
  proof (cases "want \<le> length got")
    case True
    then show ?thesis using "1.prems" by (simp add: expect_loop.simps)
  next
    case False
    obtain x c2 where x: "read_raw (want - length got) c = (x, c2)" by fastforce
    have pos: "0 < want - length got" using False by simp
    note le = read_raw_size_le[OF x pos]
    show ?thesis
    proof (cases "\<exists>bs. x = Inr bs \<and> bs \<noteq> []")
      case True
      then obtain bs where bs: "x = Inr bs" "bs \<noteq> []" by blast
      then have "expect_loop want (got @ bs) c2 = (r, c1)"
        using "1.prems" False x by (subst (asm) expect_loop.simps) simp
      from "1.IH"[OF False x[symmetric] bs this] le bs show ?thesis by simp
    next
      case stop: False
      then show ?thesis
        using "1.prems" False x le by (subst (asm) expect_loop.simps) (auto split: sum.splits)
    qed
  qed
qed

lemma expect_exact_size: "expect_exact e c = (r, c1) \<Longrightarrow> conn_size c1 \<le> conn_size c"
  by (auto simp: expect_exact_def dest: expect_loop_size split: prod.splits sum.splits if_splits)

lemma read_chunk_data_size:
  assumes "read_chunk_data cap br c = (Inr bs, br1, c1)" "bs \<noteq> []" "0 < cap" "0 < br_chunk_remaining br"
  shows "conn_size c1 < conn_size c"
proof -
  obtain x c2 where x: "read_raw (min cap (br_chunk_remaining br)) c = (x, c2)" by fastforce
  then obtain bs2 where bs2: "x = Inr bs2" "bs2 \<noteq> []"
    using assms(1) by (auto simp: read_chunk_data_def split: sum.splits if_splits)
  have "conn_size c2 < conn_size c"
    using read_raw_drop_size x bs2 assms(3,4) by (metis min_less_iff_conj)
  moreover have "conn_size c1 \<le> conn_size c2"
    using assms(1) x bs2
    by (auto simp: read_chunk_data_def Let_def dest!: expect_exact_size split: sum.splits prod.splits if_splits)
  ultimately show ?thesis by simp
qed

lemma body_read_size:
  assumes "body_read cap br c = (Inr bs, br1, c1)" "bs \<noteq> []"
  shows "conn_size c1 < conn_size c"
proof -
  have cap: "0 < cap" using assms by (auto simp: body_read_def split: if_splits)
  have f: "\<not> br_finished br" using assms by (auto simp: body_read_def)
  show ?thesis
  proof (cases "br_kind br")
    case Empty_Body
    then show ?thesis using assms by (auto simp: body_read_def split: if_splits)
  next
    case (Content_Length n)
    then have "\<exists>br2. read_content_length cap br c = (Inr bs, br2, c1)"
      using assms f cap by (auto simp: body_read_def split: prod.splits sum.splits)
    then show ?thesis
      using assms(2) cap read_raw_drop_size[of "min cap (br_remaining br)" c bs c1]
      by (auto simp: read_content_length_def split: if_splits prod.splits sum.splits)
  next
    case Chunked
    then obtain br2 where r: "read_chunked cap br c = (Inr bs, br2, c1)"
      using assms f cap by (auto simp: body_read_def split: prod.splits sum.splits)
    show ?thesis
    proof (cases "0 < br_chunk_remaining br")
      case True
      then show ?thesis using r read_chunk_data_size assms(2) cap by (simp add: read_chunked_def)
    next
      case False
      then obtain line c2 where l: "read_line c = (Inr line, c2)"
        using r by (auto simp: read_chunked_def split: prod.splits sum.splits)
      then have "conn_size c2 < conn_size c" using read_line_size by fastforce
      moreover obtain sz where "sz \<noteq> 0" "read_chunk_data cap (br\<lparr>br_chunk_remaining := sz\<rparr>) c2 = (Inr bs, br2, c1)"
        using r l False assms(2)
        by (auto simp: read_chunked_def split: sum.splits prod.splits if_splits)
      then have "conn_size c1 < conn_size c2" using read_chunk_data_size[OF _ assms(2) cap] by fastforce
      ultimately show ?thesis by simp
    qed
  next
    case Until_Eof
    then show ?thesis
      using assms f cap read_raw_drop_size by (auto simp: body_read_def split: prod.splits sum.splits)
  qed
qed

text \<open>\<open>read_to_vec\<close> with its 8192-byte steps and its limit.\<close>

function read_to_vec_loop ::
  "nat \<Rightarrow> byte list \<Rightarrow> body_reader \<Rightarrow> http_connection \<Rightarrow> byte list body_result" where
  "read_to_vec_loop max_len out br c =
     (case body_read 8192 br c of
        (Inl e, br1, c1) \<Rightarrow> (Inl e, br1, c1)
      | (Inr bs, br1, c1) \<Rightarrow>
          if bs = [] then (Inr out, br1, c1)
          else if length out + length bs > max_len then (Inl (Http_Parse ''body exceeds limit''), br1, c1)
          else read_to_vec_loop max_len (out @ bs) br1 c1)"
  by pat_completeness auto
termination
  by (relation "measure (\<lambda>(m, out, br, c). conn_size c)") (auto intro: body_read_size[OF sym])

declare read_to_vec_loop.simps [simp del]

definition read_to_vec :: "nat \<Rightarrow> body_reader \<Rightarrow> http_connection \<Rightarrow> byte list body_result" where
  "read_to_vec max_len br c = read_to_vec_loop max_len [] br c"

end
