(* ===== verification/Http_Heads.thy ===== *)
theory Http_Heads
  imports Http_Parse
begin

text \<open>
  Correctness of the head parser: the ranges of a successful parse lie in the buffer, and the
  head a peer renders is parsed back to its method, target, version and headers.
\<close>

section \<open>Slices\<close>

lemma slice_append: "snd r \<le> length xs \<Longrightarrow> slice (xs @ ys) r = slice xs r"
  by (cases "fst r \<le> length xs") (auto simp: slice_def)

lemma slice_take: "snd r \<le> n \<Longrightarrow> slice (take n xs) r = slice xs r"
  by (simp add: slice_def drop_take min_def)

lemma slice_mid: "slice (pre @ xs @ post) (length pre, length pre + length xs) = xs"
  by (simp add: slice_def)

lemma slice_0 [simp]: "slice buf (0, e) = take e buf"
  by (simp add: slice_def)

lemma trim_ows_bounds: "fst (trim_ows v) \<le> snd (trim_ows v)" "snd (trim_ows v) \<le> length v"
proof -
  let ?s = "length (takeWhile is_ows v)"
  have "length (takeWhile is_ows (rev (drop ?s v))) \<le> length v - ?s"
    using length_takeWhile_le[of is_ows "rev (drop ?s v)"] by simp
  moreover have "?s \<le> length v" by (rule length_takeWhile_le)
  ultimately show "fst (trim_ows v) \<le> snd (trim_ows v)" "snd (trim_ows v) \<le> length v"
    by (simp_all add: trim_ows_def Let_def)
qed

lemma byte_position_bound: "byte_position b xs = Some i \<Longrightarrow> i < length xs"
  by (induction xs arbitrary: i) (auto split: if_splits)

lemma byte_position_append: "b \<notin> set xs \<Longrightarrow> byte_position b (xs @ b # ys) = Some (length xs)"
  by (induction xs) auto

section \<open>Ranges lie in the buffer\<close>

definition range_in :: "nat \<Rightarrow> byte_range \<Rightarrow> bool" where
  "range_in n r \<longleftrightarrow> fst r \<le> snd r \<and> snd r \<le> n"

lemma header_ranges_in:
  assumes "header_ranges start line = Inr (n, v)" "start + length line \<le> len"
  shows "range_in len n" "range_in len v"
proof -
  obtain c where c: "byte_position 58 line = Some c"
      "n = (start, start + c)" "v = (start + c + 1 + fst (trim_ows (drop (c + 1) line)),
        start + c + 1 + snd (trim_ows (drop (c + 1) line)))"
    using assms(1) by (auto simp: header_ranges_def Let_def split: option.splits)
  have "c < length line" using byte_position_bound[OF c(1)] .
  with c(2,3) assms(2) trim_ows_bounds[of "drop (c + 1) line"]
  show "range_in len n" "range_in len v" by (simp_all add: range_in_def)
qed

lemma collect_scan_in:
  "collect_scan buf skip start seen i out = Inr rs \<Longrightarrow> start \<le> i \<Longrightarrow> start \<le> length buf \<Longrightarrow>
   list_all (\<lambda>(n, v). range_in (length buf) n \<and> range_in (length buf) v) out \<Longrightarrow>
   list_all (\<lambda>(n, v). range_in (length buf) n \<and> range_in (length buf) v) rs"
proof (induction buf skip start seen i out rule: collect_scan.induct)
  case (1 buf skip start seen i out)
  let ?line = "take (i - start) (drop start buf)"
  show ?case
  proof (cases "i + 1 < length buf")
    case i: True
    have len: "start + length ?line \<le> length buf" using "1.prems"(3) by simp
    show ?thesis
    proof (cases "buf ! i = 13 \<and> buf ! (i + 1) = 10")
      case crlf: True
      show ?thesis
      proof (cases "skip \<le> seen \<and> ?line \<noteq> []")
        case line: True
        then obtain n v where r: "header_ranges start ?line = Inr (n, v)"
            "collect_scan buf skip (i + 2) (seen + 1) (i + 2) (out @ [(n, v)]) = Inr rs"
          using "1.prems"(1) i crlf by (subst (asm) collect_scan.simps) (auto simp: Let_def split: sum.splits)
        show ?thesis
          using "1.IH"(1)[OF i crlf refl line r(1,2)] i "1.prems"(4) header_ranges_in[OF r(1) len] by simp
      next
        case False
        then have "collect_scan buf skip (i + 2) (seen + 1) (i + 2) out = Inr rs"
          using "1.prems"(1) i crlf by (subst (asm) collect_scan.simps) (simp only: i crlf Let_def False if_True if_False simp_thms)
        from "1.IH"(2)[OF i crlf refl False this] i "1.prems"(4) show ?thesis by simp
      qed
    next
      case False
      then have "collect_scan buf skip start seen (i + 1) out = Inr rs"
        using "1.prems"(1) i by (subst (asm) collect_scan.simps) (simp only: if_True if_False)
      from "1.IH"(3)[OF i False this] "1.prems" show ?thesis by simp
    qed
  next
    case False
    then show ?thesis
      using "1.prems" header_ranges_in[of start "drop start buf"]
      by (subst (asm) collect_scan.simps) (auto split: if_splits sum.splits)
  qed
qed

lemma memchr_find_bound: "memchr_find h n = Some i \<Longrightarrow> i + length n \<le> length h"
  by (auto simp: memchr_find_def find_Some_iff split: if_splits simp del: upt_Suc)

lemma find_head_end_bound: "find_head_end buf = Inr (Some e) \<Longrightarrow> e + 4 \<le> length buf \<and> length buf \<le> max_head"
  by (auto simp: find_head_end_def Let_def header_delim_def dest!: memchr_find_bound split: if_splits)

lemma length_header_delim [simp]: "length header_delim = 4"
  by (simp add: header_delim_def)

definition ranges_ok :: "byte list \<Rightarrow> head_ranges \<Rightarrow> bool" where
  "ranges_ok buf r \<longleftrightarrow> hr_consumed r \<le> length buf \<and> hr_consumed r \<le> max_head \<and>
     range_in (hr_consumed r) (fst (hr_first r)) \<and> range_in (hr_consumed r) (snd (hr_first r)) \<and>
     list_all (\<lambda>(n, v). range_in (hr_consumed r) n \<and> range_in (hr_consumed r) v) (hr_headers r)"

lemma range_in_mono: "range_in n r \<Longrightarrow> n \<le> m \<Longrightarrow> range_in m r"
  by (simp add: range_in_def)

lemma collect_header_ranges_in:
  assumes "collect_header_ranges buf skip = Inr hs" "length buf \<le> n"
  shows "list_all (\<lambda>(n1, v). range_in n n1 \<and> range_in n v) hs"
  using collect_scan_in[of buf skip 0 0 0 "[]" hs] assms
  by (auto simp: collect_header_ranges_def list_all_iff intro: range_in_mono)

lemma first_line_in: "first_line head = Some r \<Longrightarrow> fst r = 0 \<and> snd r \<le> length head"
  by (auto simp: first_line_def dest: crlf_position_bound split: option.splits if_splits)

lemma parse_request_line_in:
  assumes "parse_request_line line = Inr (m, t, v)"
  shows "range_in (length line) m" "range_in (length line) t"
proof -
  obtain p where p: "byte_position 32 line = Some p"
    using assms by (auto simp: parse_request_line_def split: option.splits)
  let ?rest = "drop (p + 1) line"
  obtain q where q: "byte_position 32 ?rest = Some q" "m = (0, p)" "t = (p + 1, p + 1 + q)"
    using assms p by (auto simp: parse_request_line_def Let_def split: if_splits option.splits)
  from byte_position_bound[OF p] byte_position_bound[OF q(1)] q(2,3)
  show "range_in (length line) m" "range_in (length line) t" by (simp_all add: range_in_def)
qed

lemma parse_status_line_in:
  assumes "parse_status_line line = Inr (v, s, r)"
  shows "range_in (length line) r" "100 \<le> s" "s \<le> 599"
proof -
  have a: "\<not> (take 9 line \<noteq> http_11 @ [32] \<and> take 9 line \<noteq> http_10 @ [32])" "3 \<le> length (drop 9 line)"
      "r = (9 + 3 + fst (trim_ows (drop 3 (drop 9 line))), 9 + 3 + snd (trim_ows (drop 3 (drop 9 line))))"
      "100 \<le> s" "s \<le> 599"
    using assms by (auto simp: parse_status_line_def Let_def not_less split: if_splits)
  then show "100 \<le> s" "s \<le> 599" by simp_all
  show "range_in (length line) r"
    using a(2,3) trim_ows_bounds[of "drop 3 (drop 9 line)"] by (simp add: range_in_def)
qed

lemma parse_request_ranges_ok:
  assumes "parse_request_ranges buf = Inr (Some r)"
  shows "ranges_ok buf r" "4 \<le> hr_consumed r"
proof -
  obtain e where e: "find_head_end buf = Inr (Some e)"
    using assms by (auto simp: parse_request_ranges_def split: sum.splits option.splits)
  obtain rl where rl: "first_line (take e buf) = Some rl"
    using assms e by (auto simp: parse_request_ranges_def split: sum.splits option.splits)
  obtain m t v where l: "parse_request_line (slice buf rl) = Inr (m, t, v)"
    using assms e rl by (auto simp: parse_request_ranges_def split: sum.splits option.splits)
  obtain hs where hs: "collect_header_ranges (take e buf) 1 = Inr hs"
    using assms e rl l by (auto simp: parse_request_ranges_def split: sum.splits option.splits)
  have r: "r = \<lparr>hr_first = (offset_range m (fst rl), offset_range t (fst rl)), hr_version = v, hr_status = None,
      hr_headers = hs, hr_consumed = e + length header_delim\<rparr>"
    using assms e rl l hs by (simp add: parse_request_ranges_def)
  have b: "e + 4 \<le> length buf" "length buf \<le> max_head" using find_head_end_bound[OF e] by auto
  have f: "fst rl = 0" "snd rl \<le> e" using first_line_in[OF rl] b by auto
  then have "length (slice buf rl) \<le> e" by (simp add: slice_def)
  then have "range_in e m" "range_in e t" using parse_request_line_in[OF l] range_in_mono by blast+
  moreover have "list_all (\<lambda>(n, v). range_in (e + 4) n \<and> range_in (e + 4) v) hs"
    using collect_header_ranges_in[OF hs] b by simp
  ultimately show "ranges_ok buf r" "4 \<le> hr_consumed r"
    using b f by (auto simp: ranges_ok_def r offset_range_def range_in_def)
qed

lemma parse_response_ranges_ok:
  assumes "parse_response_ranges buf = Inr (Some r)"
  shows "ranges_ok buf r" "\<exists>s. hr_status r = Some s \<and> 100 \<le> s \<and> s \<le> 599" "4 \<le> hr_consumed r"
proof -
  obtain e where e: "find_head_end buf = Inr (Some e)"
    using assms by (auto simp: parse_response_ranges_def split: sum.splits option.splits)
  obtain sl where sl: "first_line (take e buf) = Some sl"
    using assms e by (auto simp: parse_response_ranges_def split: sum.splits option.splits)
  obtain v s rr where l: "parse_status_line (slice buf sl) = Inr (v, s, rr)"
    using assms e sl by (auto simp: parse_response_ranges_def split: sum.splits option.splits)
  obtain hs where hs: "collect_header_ranges (take e buf) 1 = Inr hs"
    using assms e sl l by (auto simp: parse_response_ranges_def split: sum.splits option.splits)
  have r: "r = \<lparr>hr_first = (offset_range rr (fst sl), offset_range rr (fst sl)), hr_version = v, hr_status = Some s,
      hr_headers = hs, hr_consumed = e + length header_delim\<rparr>"
    using assms e sl l hs by (simp add: parse_response_ranges_def)
  have b: "e + 4 \<le> length buf" "length buf \<le> max_head" using find_head_end_bound[OF e] by auto
  have f: "fst sl = 0" "snd sl \<le> e" using first_line_in[OF sl] b by auto
  then have "length (slice buf sl) \<le> e" by (simp add: slice_def)
  then have "range_in e rr" using parse_status_line_in(1)[OF l] range_in_mono by blast
  moreover have "list_all (\<lambda>(n, v). range_in (e + 4) n \<and> range_in (e + 4) v) hs"
    using collect_header_ranges_in[OF hs] b by simp
  ultimately show "ranges_ok buf r" "\<exists>s. hr_status r = Some s \<and> 100 \<le> s \<and> s \<le> 599" "4 \<le> hr_consumed r"
    using b f parse_status_line_in(2,3)[OF l]
    by (auto simp: ranges_ok_def r offset_range_def range_in_def)
qed


section \<open>Scanning a head made of lines\<close>

lemma find_Suc_upt: "find P [Suc a..<Suc b] = map_option Suc (find (\<lambda>i. P (Suc i)) [a..<b])"
proof -
  have "find P (map Suc xs) = map_option Suc (find (\<lambda>i. P (Suc i)) xs)" for xs
    by (induction xs) auto
  from this[of "[a..<b]"] show ?thesis unfolding map_Suc_upt .
qed

lemma memchr_find_Cons:
  assumes "needle \<noteq> []"
  shows "memchr_find (x # xs) needle =
    (if take (length needle) (x # xs) = needle then Some 0 else map_option Suc (memchr_find xs needle))"
proof (cases "length needle > length (x # xs)")
  case True
  then have "length (take (length needle) (x # xs)) \<noteq> length needle" by simp
  then have "take (length needle) (x # xs) \<noteq> needle" by (rule contrapos_nn) (rule arg_cong)
  then show ?thesis using True by (simp add: memchr_find_def)
next
  case False
  let ?P = "\<lambda>i. take (length needle) (drop i (x # xs)) = needle"
  have up: "[0..<length (x # xs) - length needle + 1] = 0 # [Suc 0..<Suc (length (x # xs) - length needle)]"
    by (simp add: upt_conv_Cons del: upt_Suc)
  have tail: "find ?P [Suc 0..<Suc (length (x # xs) - length needle)] = map_option Suc (memchr_find xs needle)"
  proof (cases "length needle > length xs")
    case True
    then have "length (x # xs) - length needle = 0" using False by simp
    then show ?thesis using True by (simp add: memchr_find_def)
  next
    case le: False
    then have "length (x # xs) - length needle = length xs - length needle + 1" by simp
    then show ?thesis using le by (simp only: find_Suc_upt memchr_find_def if_False) simp
  qed
  show ?thesis
    using False by (simp only: memchr_find_def[of "x # xs"] if_False up find.simps tail) simp
qed

lemma memchr_skip:
  assumes "13 \<notin> set line"
  shows "memchr_find (line @ xs) header_delim = map_option ((+) (length line)) (memchr_find xs header_delim)"
  using assms
proof (induction line)
  case (Cons a line)
  then show ?case
    by (simp add: memchr_find_Cons header_delim_def option.map_comp comp_def)
next
  case Nil
  then show ?case by (cases "memchr_find xs header_delim") simp_all
qed

text \<open>Lines joined by CRLF, without one at the end.\<close>

definition joined :: "byte list \<Rightarrow> byte list list \<Rightarrow> byte list" where
  "joined first ls = first @ concat (map (\<lambda>l. 13 # 10 # l) ls)"

lemma memchr_joined_tail:
  assumes "\<And>l. l \<in> set ls \<Longrightarrow> 13 \<notin> set l \<and> l \<noteq> []"
  shows "memchr_find (concat (map (\<lambda>l. 13 # 10 # l) ls) @ header_delim @ rest) header_delim =
    Some (length (concat (map (\<lambda>l. 13 # 10 # l) ls)))"
  using assms
proof (induction ls)
  case Nil
  show ?case by (simp add: header_delim_def memchr_find_Cons)
next
  case (Cons l ls)
  obtain a l' where l: "l = a # l'" "a \<noteq> 13" using Cons.prems[of l] by (cases l) auto
  have IH: "memchr_find (concat (map (\<lambda>l. 13 # 10 # l) ls) @ header_delim @ rest) header_delim =
    Some (length (concat (map (\<lambda>l. 13 # 10 # l) ls)))" using Cons by simp
  have "memchr_find (13 # 10 # a # (l' @ concat (map (\<lambda>l. 13 # 10 # l) ls) @ header_delim @ rest)) header_delim =
      map_option (Suc \<circ> Suc) (memchr_find (l @ concat (map (\<lambda>l. 13 # 10 # l) ls) @ header_delim @ rest) header_delim)"
  proof -
    have ne: "header_delim \<noteq> []" by (simp add: header_delim_def)
    have n13: "take (length header_delim) (13 # 10 # a # X) \<noteq> header_delim"
      and n10: "take (length header_delim) (10 # a # X) \<noteq> header_delim" for X
      using l(2) by (simp_all add: header_delim_def)
    have "memchr_find (13 # 10 # a # X) header_delim = map_option (Suc \<circ> Suc) (memchr_find (a # X) header_delim)" for X
      unfolding memchr_find_Cons[OF ne, of 13 "10 # a # X"] memchr_find_Cons[OF ne, of 10 "a # X"]
        if_not_P[OF n13] if_not_P[OF n10] by (simp add: option.map_comp)
    then show ?thesis by (simp add: l(1))
  qed
  also have "\<dots> = Some (Suc (Suc (length l + length (concat (map (\<lambda>l. 13 # 10 # l) ls)))))"
    using Cons.prems[of l] IH by (simp add: memchr_skip)
  finally show ?case using l by simp
qed

lemma memchr_joined:
  assumes "13 \<notin> set first" "\<And>l. l \<in> set ls \<Longrightarrow> 13 \<notin> set l \<and> l \<noteq> []"
  shows "memchr_find (joined first ls @ header_delim @ rest) header_delim = Some (length (joined first ls))"
  using memchr_joined_tail[OF assms(2), of ls rest] memchr_skip[OF assms(1)]
  by (simp add: joined_def)

lemma windows2_append:
  "set (windows2 (xs @ ys)) \<subseteq> set (windows2 xs) \<union> set (windows2 ys) \<union>
     (if xs = [] \<or> ys = [] then {} else {(last xs, hd ys)})"
proof (induction xs)
  case (Cons x xs)
  show ?case
  proof (cases xs)
    case Nil
    then show ?thesis by (cases ys) (auto simp: windows2_def)
  next
    case (Cons a as)
    then have "windows2 ((x # xs) @ ys) = (x, a) # windows2 (xs @ ys)" "windows2 (x # xs) = (x, a) # windows2 xs"
      by (simp_all add: windows2_def)
    then show ?thesis using Cons.IH Cons by auto
  qed
qed (simp add: windows2_def)

lemma windows2_fst: "(a, b) \<in> set (windows2 xs) \<Longrightarrow> a \<in> set xs"
  by (auto simp: windows2_def dest: set_zip_leftD)

lemma joined_no_fold:
  assumes "10 \<notin> set first" "\<And>l. l \<in> set ls \<Longrightarrow> 10 \<notin> set l \<and> l \<noteq> [] \<and> hd l \<noteq> b" "b \<noteq> 10"
  shows "(10, b) \<notin> set (windows2 (joined first ls))"
proof -
  have tail: "(10, b) \<notin> set (windows2 (concat (map (\<lambda>l. 13 # 10 # l) ls)))"
    using assms(2)
  proof (induction ls)
    case (Cons l ls)
    let ?t = "concat (map (\<lambda>l. 13 # 10 # l) ls)"
    obtain a l' where l: "l = a # l'" using Cons.prems[of l] by (cases l) auto
    have 1: "(10, b) \<notin> set (windows2 l)" using Cons.prems[of l] windows2_fst by fastforce
    have 2: "(10, b) \<notin> set (windows2 ?t)" using Cons by simp
    have 3: "last l \<noteq> 10" using Cons.prems[of l] l by (metis last_in_set list.distinct(1) list.set_intros(1))
    have "(10, b) \<notin> set (windows2 (l @ ?t))"
      using windows2_append[of l ?t] 1 2 3 by (auto split: if_splits)
    moreover have "windows2 (13 # 10 # l @ ?t) = (13, 10) # (10, a) # windows2 (l @ ?t)"
      by (simp add: windows2_def l)
    ultimately show ?case using Cons.prems[of l] l by auto
  qed (simp add: windows2_def)
  have "(10, b) \<notin> set (windows2 first)" using assms(1) windows2_fst by fastforce
  moreover have "last first \<noteq> 10" if "first \<noteq> []" using assms(1) that by (metis last_in_set)
  ultimately show ?thesis
    using windows2_append[of first "concat (map (\<lambda>l. 13 # 10 # l) ls)"] tail
    unfolding joined_def by (auto split: if_splits)
qed

section \<open>Header lines\<close>

definition header_line :: "byte list \<times> byte list \<Rightarrow> byte list" where
  "header_line h = fst h @ [58, 32] @ snd h"

text \<open>Headers that survive: a name without colon, values without outer blanks, no line breaks.\<close>

definition header_ok :: "byte list \<times> byte list \<Rightarrow> bool" where
  "header_ok h \<longleftrightarrow> 58 \<notin> set (fst h) \<and> 13 \<notin> set (fst h @ snd h) \<and> 10 \<notin> set (fst h @ snd h) \<and>
     (fst h \<noteq> [] \<longrightarrow> \<not> is_ows (hd (fst h))) \<and>
     (snd h \<noteq> [] \<longrightarrow> \<not> is_ows (hd (snd h)) \<and> \<not> is_ows (last (snd h)))"

lemma trim_ows_value:
  assumes "v \<noteq> [] \<longrightarrow> \<not> is_ows (hd v) \<and> \<not> is_ows (last v)"
  shows "trim_ows (32 # v) = (1, 1 + length v)"
proof (cases v)
  case Nil
  then show ?thesis by (simp add: trim_ows_def is_ows_def)
next
  case (Cons a v')
  then have "takeWhile is_ows (32 # v) = [32]" using assms by (simp add: is_ows_def)
  moreover have "hd (rev v) = last v" by (simp add: hd_rev)
  then have "takeWhile is_ows (rev v) = []"
    using assms Cons by (cases "rev v") simp_all
  ultimately show ?thesis by (simp add: trim_ows_def)
qed

lemma header_ranges_line:
  assumes "header_ok h"
  shows "\<exists>n v. header_ranges (length pre) (header_line h) = Inr (n, v) \<and>
    slice (pre @ header_line h @ post) n = fst h \<and> slice (pre @ header_line h @ post) v = snd h"
proof -
  let ?n = "fst h" and ?v = "snd h"
  have pos: "byte_position 58 (header_line h) = Some (length ?n)"
    using assms byte_position_append[of 58 ?n "32 # ?v"] by (simp add: header_line_def header_ok_def)
  have "drop (length ?n + 1) (header_line h) = 32 # ?v" by (simp add: header_line_def)
  then have "trim_ows (drop (length ?n + 1) (header_line h)) = (1, 1 + length ?v)"
    using assms trim_ows_value[of ?v] by (simp add: header_ok_def)
  with pos have r: "header_ranges (length pre) (header_line h) =
      Inr ((length pre, length pre + length ?n),
           (length pre + length ?n + 1 + 1, length pre + length ?n + 1 + (1 + length ?v)))"
    by (simp add: header_ranges_def Let_def)
  have "slice (pre @ ?n @ ([58, 32] @ ?v @ post)) (length pre, length pre + length ?n) = ?n"
    by (rule slice_mid)
  moreover have "slice ((pre @ ?n @ [58, 32]) @ ?v @ post)
      (length (pre @ ?n @ [58, 32]), length (pre @ ?n @ [58, 32]) + length ?v) = ?v"
    by (rule slice_mid)
  ultimately show ?thesis using r by (simp add: header_line_def)
qed


section \<open>Collecting the headers\<close>

lemma collect_line:
  assumes "13 \<notin> set b" "buf = pre @ a @ b @ 13 # 10 # post"
  shows "collect_scan buf skip (length pre) seen (length pre + length a) out =
    (let s' = length (pre @ a @ b) + 2 in
     if skip \<le> seen \<and> a @ b \<noteq> [] then
       (case header_ranges (length pre) (a @ b) of
          Inl e \<Rightarrow> Inl e
        | Inr r \<Rightarrow> collect_scan buf skip s' (seen + 1) s' (out @ [r]))
     else collect_scan buf skip s' (seen + 1) s' out)"
  using assms
proof (induction b arbitrary: a)
  case Nil
  let ?i = "length pre + length a"
  have b: "buf ! ?i = 13" "buf ! (?i + 1) = 10" "?i + 1 < length buf"
    using Nil.prems(2) by (simp_all add: nth_append)
  have l: "take (?i - length pre) (drop (length pre) buf) = a" using Nil.prems(2) by simp
  show ?case
    using b l by (subst collect_scan.simps, cases "skip \<le> seen"; cases "a = []"; simp add: Let_def add_2_eq_Suc' split: sum.split)
next
  case (Cons x b)
  let ?i = "length pre + length a"
  have "buf ! ?i = x" "?i + 1 < length buf" using Cons.prems(2) by (simp_all add: nth_append)
  then have "collect_scan buf skip (length pre) seen ?i out = collect_scan buf skip (length pre) seen (?i + 1) out"
    using Cons.prems(1) by (subst collect_scan.simps) auto
  also have "?i + 1 = length pre + length (a @ [x])" by simp
  finally show ?case
    using Cons.IH[of "a @ [x]"] Cons.prems by simp
qed

lemma collect_last:
  assumes "13 \<notin> set b" "buf = pre @ a @ b"
  shows "collect_scan buf skip (length pre) seen (length pre + length a) out =
    (if a @ b \<noteq> [] \<and> skip \<le> seen then
       (case header_ranges (length pre) (a @ b) of Inl e \<Rightarrow> Inl e | Inr r \<Rightarrow> Inr (out @ [r]))
     else Inr out)"
  using assms
proof (induction b arbitrary: a)
  case Nil
  then show ?case by (subst collect_scan.simps) auto
next
  case (Cons x b)
  let ?i = "length pre + length a"
  show ?case
  proof (cases b)
    case Nil
    then show ?thesis using Cons.prems by (subst collect_scan.simps) auto
  next
    case (Cons y b')
    have "buf ! ?i = x" "?i + 1 < length buf" using Cons.prems(2) Cons by (simp_all add: nth_append)
    then have "collect_scan buf skip (length pre) seen ?i out = collect_scan buf skip (length pre) seen (?i + 1) out"
      using Cons.prems(1) by (subst collect_scan.simps) auto
    also have "?i + 1 = length pre + length (a @ [x])" by simp
    finally show ?thesis
      using Cons.IH[of "a @ [x]"] Cons.prems by simp
  qed
qed

abbreviation lines_tail :: "(byte list \<times> byte list) list \<Rightarrow> byte list" where
  "lines_tail hs \<equiv> concat (map (\<lambda>l. 13 # 10 # l) (map header_line hs))"

lemma collect_headers:
  assumes "buf = pre @ header_line h @ lines_tail hs" "1 \<le> seen" "header_ok h" "list_all header_ok hs"
  shows "\<exists>rs. collect_scan buf 1 (length pre) seen (length pre) out = Inr (out @ rs) \<and>
    map (\<lambda>(n, v). (slice buf n, slice buf v)) rs = h # hs"
  using assms
proof (induction hs arbitrary: h pre seen out)
  case Nil
  obtain n v where r: "header_ranges (length pre) (header_line h) = Inr (n, v)"
      "slice buf n = fst h" "slice buf v = snd h"
    using header_ranges_line[OF Nil.prems(3), of pre "[]"] Nil.prems(1) by auto
  have "13 \<notin> set (header_line h)" using Nil.prems(3) by (auto simp: header_line_def header_ok_def)
  moreover have "header_line h \<noteq> []" by (simp add: header_line_def)
  ultimately have "collect_scan buf 1 (length pre) seen (length pre) out = Inr (out @ [(n, v)])"
    using collect_last[of "header_line h" buf pre "[]" 1 seen out] Nil.prems(1,2) r(1) by simp
  then show ?case using r(2,3) by (intro exI[of _ "[(n, v)]"]) simp
next
  case (Cons h2 hs)
  let ?post = "header_line h2 @ lines_tail hs"
  let ?pre = "pre @ header_line h @ [13, 10]"
  have buf: "buf = pre @ header_line h @ 13 # 10 # ?post" using Cons.prems(1) by simp
  obtain n v where r: "header_ranges (length pre) (header_line h) = Inr (n, v)"
      "slice buf n = fst h" "slice buf v = snd h"
    using header_ranges_line[OF Cons.prems(3), of pre "13 # 10 # ?post"] buf by auto
  have "13 \<notin> set (header_line h)" using Cons.prems(3) by (auto simp: header_line_def header_ok_def)
  moreover have "header_line h \<noteq> []" by (simp add: header_line_def)
  ultimately have step: "collect_scan buf 1 (length pre) seen (length pre) out =
      collect_scan buf 1 (length ?pre) (seen + 1) (length ?pre) (out @ [(n, v)])"
    using collect_line[of "header_line h" buf pre "[]" ?post 1 seen out] buf Cons.prems(2) r(1)
    by (simp add: Let_def)
  have buf2: "buf = ?pre @ header_line h2 @ lines_tail hs" using buf by simp
  obtain rs where rs: "collect_scan buf 1 (length ?pre) (seen + 1) (length ?pre) (out @ [(n, v)]) =
        Inr ((out @ [(n, v)]) @ rs)" "map (\<lambda>(n, v). (slice buf n, slice buf v)) rs = h2 # hs"
    using Cons.IH[OF buf2, of "seen + 1" "out @ [(n, v)]"] Cons.prems(4) by auto
  then show ?case using step r(2,3) by (intro exI[of _ "(n, v) # rs"]) simp
qed

lemma collect_joined:
  assumes "13 \<notin> set first" "list_all header_ok hs"
  shows "\<exists>rs. collect_header_ranges (joined first (map header_line hs)) 1 = Inr rs \<and>
    map (\<lambda>(n, v). (slice (joined first (map header_line hs)) n, slice (joined first (map header_line hs)) v)) rs = hs"
proof (cases hs)
  case Nil
  then show ?thesis
    using collect_last[OF assms(1), of "joined first []" "[]" "[]" 1 0 "[]"]
    by (auto simp: collect_header_ranges_def joined_def)
next
  case (Cons h hs')
  let ?buf = "joined first (map header_line hs)"
  have buf: "?buf = first @ 13 # 10 # header_line h @ lines_tail hs'" by (simp add: joined_def Cons)
  have step: "collect_header_ranges ?buf 1 = collect_scan ?buf 1 (length (first @ [13, 10])) 1 (length (first @ [13, 10])) []"
    using collect_line[OF assms(1), of ?buf "[]" "[]" "header_line h @ lines_tail hs'" 1 0 "[]"] buf
    by (simp add: collect_header_ranges_def Let_def)
  have "?buf = (first @ [13, 10]) @ header_line h @ lines_tail hs'" using buf by simp
  from collect_headers[OF this, of 1 "[]"] assms(2) Cons show ?thesis unfolding step by auto
qed

section \<open>Request and response heads\<close>

text \<open>What a peer writes for a head.\<close>

definition render_lines :: "byte list \<Rightarrow> (byte list \<times> byte list) list \<Rightarrow> byte list" where
  "render_lines first hs = joined first (map header_line hs) @ header_delim"

lemma header_line_plain:
  assumes "list_all header_ok hs" "l \<in> set (map header_line hs)"
  shows "13 \<notin> set l \<and> 10 \<notin> set l \<and> l \<noteq> [] \<and> \<not> is_ows (hd l)"
proof -
  obtain h where h: "h \<in> set hs" "l = header_line h" using assms(2) by auto
  then have "header_ok h" using assms(1) by (simp add: list_all_iff)
  then show ?thesis
    using h(2) by (cases "fst h") (auto simp: header_line_def header_ok_def is_ows_def)
qed

lemma find_head_end_lines:
  assumes "13 \<notin> set first" "10 \<notin> set first" "list_all header_ok hs"
    and "length (render_lines first hs @ rest) \<le> max_head"
  shows "find_head_end (render_lines first hs @ rest) = Inr (Some (length (joined first (map header_line hs))))"
proof -
  let ?H = "joined first (map header_line hs)"
  have line: "13 \<notin> set l \<and> 10 \<notin> set l \<and> l \<noteq> [] \<and> \<not> is_ows (hd l)" if lm: "l \<in> set (map header_line hs)" for l
    using header_line_plain[OF assms(3) lm] .
  have "memchr_find (?H @ header_delim @ rest) header_delim = Some (length ?H)"
    using memchr_joined[OF assms(1), of "map header_line hs" rest] line by blast
  moreover have "(10, 32) \<notin> set (windows2 ?H)" "(10, 9) \<notin> set (windows2 ?H)"
    by (intro joined_no_fold; use assms(2) line in \<open>auto simp: is_ows_def\<close>)+
  ultimately show ?thesis
    using assms(4) by (simp add: find_head_end_def render_lines_def Let_def)
qed

lemma first_line_joined:
  assumes "13 \<notin> set first" "first \<noteq> []"
  shows "first_line (joined first ls) = Some (0, length first)"
proof (cases ls)
  case Nil
  then show ?thesis using assms by (simp add: first_line_def joined_def crlf_position_none)
next
  case (Cons l ls')
  then show ?thesis using assms by (simp add: first_line_def joined_def crlf_position_append)
qed


definition version_bytes :: "http_version \<Rightarrow> byte list" where
  "version_bytes v = (case v of Http11 \<Rightarrow> http_11 | Http10 \<Rightarrow> http_10)"

lemma version_bytes_simps: "http_11 = [72, 84, 84, 80, 47, 49, 46, 49]" "http_10 = [72, 84, 84, 80, 47, 49, 46, 48]"
  by (simp_all add: http_11_def http_10_def ascii_def)

definition request_line :: "byte list \<Rightarrow> byte list \<Rightarrow> http_version \<Rightarrow> byte list" where
  "request_line m t v = m @ [32] @ t @ [32] @ version_bytes v"

definition request_ok :: "byte list \<Rightarrow> byte list \<Rightarrow> (byte list \<times> byte list) list \<Rightarrow> bool" where
  "request_ok m t hs \<longleftrightarrow> m \<noteq> [] \<and> list_all is_tchar_strict m \<and>
     t \<noteq> [] \<and> 32 \<notin> set t \<and> 13 \<notin> set t \<and> 10 \<notin> set t \<and> list_all header_ok hs"

lemma tchar_plain: "list_all is_tchar_strict m \<Longrightarrow> 32 \<notin> set m \<and> 13 \<notin> set m \<and> 10 \<notin> set m"
  by (auto simp: list_all_iff is_tchar_strict_def)

lemma parse_request_line_ok:
  assumes "request_ok m t hs"
  shows "parse_request_line (request_line m t v) =
    Inr ((0, length m), (length m + 1, length m + 1 + length t), v)"
proof -
  have m: "32 \<notin> set m" "m \<noteq> []" "list_all is_tchar_strict m" and t: "32 \<notin> set t" "t \<noteq> []"
    using assms tchar_plain by (auto simp: request_ok_def)
  have 1: "byte_position 32 (request_line m t v) = Some (length m)"
    using byte_position_append[OF m(1)] by (simp add: request_line_def)
  have 2: "byte_position 32 (t @ 32 # version_bytes v) = Some (length t)"
    by (rule byte_position_append[OF t(1)])
  have d: "drop (length m + 1) (request_line m t v) = t @ 32 # version_bytes v"
    "take (length m) (request_line m t v) = m" by (simp_all add: request_line_def)
  have d2: "drop (length t + 1) (t @ 32 # version_bytes v) = version_bytes v" by simp
  have v: "http_11 \<noteq> http_10" by (simp add: version_bytes_simps)
  show ?thesis
    unfolding parse_request_line_def 1 option.case d Let_def 2 d2
    using m t v by (cases v) (simp_all add: version_bytes_def)
qed

text \<open>The ranges of a head slice it the same way with more bytes behind it.\<close>

lemma slices_in_head:
  assumes "collect_header_ranges h k = Inr rs"
  shows "map (\<lambda>(n, v). (slice (h @ tl2) n, slice (h @ tl2) v)) rs = map (\<lambda>(n, v). (slice h n, slice h v)) rs"
proof (rule map_cong[OF refl])
  fix nv assume "nv \<in> set rs"
  then show "(case nv of (n, v) \<Rightarrow> (slice (h @ tl2) n, slice (h @ tl2) v)) = (case nv of (n, v) \<Rightarrow> (slice h n, slice h v))"
    using collect_header_ranges_in[OF assms order_refl] by (auto simp: list_all_iff range_in_def slice_append)
qed

lemma parse_rendered_request:
  assumes ok: "request_ok m t hs" and len: "length (render_lines (request_line m t v) hs @ rest) \<le> max_head"
  shows "\<exists>r. parse_request_ranges (render_lines (request_line m t v) hs @ rest) = Inr (Some r) \<and>
    hr_consumed r = length (render_lines (request_line m t v) hs) \<and>
    (let h = request_from_ranges (render_lines (request_line m t v) hs) r in
     rq_method h = m \<and> rq_target h = t \<and> rq_version h = v \<and> hb_iter (rq_headers h) = hs)"
proof -
  let ?l = "request_line m t v"
  let ?H = "joined ?l (map header_line hs)"
  let ?buf = "render_lines ?l hs @ rest"
  have plain: "13 \<notin> set ?l" "10 \<notin> set ?l" "?l \<noteq> []"
    using ok tchar_plain[of m]
    by (cases v; auto simp: request_ok_def request_line_def version_bytes_def version_bytes_simps)+
  have hs: "list_all header_ok hs" using ok by (simp add: request_ok_def)
  have e: "find_head_end ?buf = Inr (Some (length ?H))"
    by (rule find_head_end_lines[OF plain(1,2) hs len])
  have tk: "take (length ?H) ?buf = ?H" by (simp add: render_lines_def)
  have fl: "first_line ?H = Some (0, length ?l)" by (rule first_line_joined[OF plain(1,3)])
  have sl: "slice ?buf (0, length ?l) = ?l" by (simp add: render_lines_def joined_def)
  obtain rs where rs: "collect_header_ranges ?H 1 = Inr rs"
      "map (\<lambda>(n, v). (slice ?H n, slice ?H v)) rs = hs"
    using collect_joined[OF plain(1) hs] by blast
  define r where "r = \<lparr>hr_first = ((0, length m), (length m + 1, length m + 1 + length t)), hr_version = v,
      hr_status = None, hr_headers = rs, hr_consumed = length ?H + length header_delim\<rparr>"
  have parse: "parse_request_ranges ?buf = Inr (Some r)"
    unfolding parse_request_ranges_def e sum.case option.case tk fl sl parse_request_line_ok[OF ok] prod.case rs(1)
    by (simp add: offset_range_def r_def)
  have len_r: "hr_consumed r = length (render_lines ?l hs)" by (simp add: r_def render_lines_def)
  have "map (\<lambda>(n, v). (slice (render_lines ?l hs) n, slice (render_lines ?l hs) v)) rs = hs"
    using slices_in_head[OF rs(1)] rs(2) by (simp add: render_lines_def)
  moreover have "slice (render_lines ?l hs) (0, length m) = m"
    by (simp add: render_lines_def joined_def request_line_def)
  moreover have "slice (render_lines ?l hs) (length m + 1, length m + 1 + length t) = t"
    by (simp add: render_lines_def joined_def request_line_def slice_def)
  ultimately show ?thesis
    using parse len_r
    by (intro exI[of _ r])
      (simp add: request_from_ranges_def rq_method_def rq_target_def hb_iter_def r_def Let_def)
qed

end
