(* ===== verification/Http_Server.thy ===== *)
theory Http_Server
  imports Http_Body Http_Heads
begin

text \<open>
  The HTTP/1.1 server: head rendering (\<open>connection.rs\<close>), the keep-alive loop
  \<open>serve_connection\<close> (\<open>server.rs\<close>) and the router (\<open>router.rs\<close>).  A handler is the caller's
  code: an arbitrary interaction with the request it is given, whose only effects are reads of
  the body, and which ends in a response.
\<close>

section \<open>Rendering\<close>

text \<open>\<open>to_string\<close> of an integer.\<close>

fun to_decimal :: "nat \<Rightarrow> byte list" where
  "to_decimal n = (if n < 10 then [word_of_nat (48 + n)] else to_decimal (n div 10) @ [word_of_nat (48 + n mod 10)])"

declare to_decimal.simps [simp del]

definition header_text :: "byte list \<times> byte list \<Rightarrow> byte list" where
  "header_text nv = fst nv @ [58, 32] @ snd nv @ crlf"

definition render_head ::
  "nat \<Rightarrow> byte list \<Rightarrow> (byte list \<times> byte list) list \<Rightarrow> bool \<Rightarrow> nat \<Rightarrow> byte list \<Rightarrow> byte list" where
  "render_head status reason headers include_content_length body_len extra_first_line =
     extra_first_line @ ascii ''HTTP/1.1 '' @ to_decimal status @ [32] @ reason @ crlf @
     concat (map header_text headers) @
     (if include_content_length then ascii ''content-length: '' @ to_decimal body_len @ crlf else []) @ crlf"

section \<open>Requests and responses\<close>

record response_data =
  resp_status :: nat
  resp_headers :: "(byte list \<times> byte list) list"
  resp_body :: "byte list"

definition response_new :: "nat \<Rightarrow> (byte list \<times> byte list) list \<Rightarrow> byte list \<Rightarrow> response_data" where
  "response_new s hs b = \<lparr>resp_status = s, resp_headers = hs, resp_body = b\<rparr>"

definition response_ok :: "byte list \<Rightarrow> response_data" where
  "response_ok b = response_new 200 [] b"

definition not_found :: response_data where
  "not_found = response_new 404 [] (ascii ''not found'')"

definition reason :: "nat \<Rightarrow> byte list" where
  "reason status =
     (if status = 200 then ascii ''OK''
      else if status = 201 then ascii ''Created''
      else if status = 204 then ascii ''No Content''
      else if status = 400 then ascii ''Bad Request''
      else if status = 404 then ascii ''Not Found''
      else if status = 405 then ascii ''Method Not Allowed''
      else if status = 500 then ascii ''Internal Server Error''
      else if status = 501 then ascii ''Not Implemented''
      else [])"

text \<open>
  \<open>ServerRequest\<close>: the accessors give a handler the method, the target, the headers (through
  the iterator of their block) and the keep-alive flag; the body reader stays with the
  connection.
\<close>

record server_request =
  sr_method :: "byte list"
  sr_target :: "byte list"
  sr_headers :: "(byte list \<times> byte list) list"
  sr_keep_alive :: bool

definition server_request_of :: "request_head \<Rightarrow> bool \<Rightarrow> server_request" where
  "server_request_of h ka =
     \<lparr>sr_method = rq_method h, sr_target = rq_target h, sr_headers = hb_iter (rq_headers h), sr_keep_alive = ka\<rparr>"

definition header_lookup :: "byte list \<Rightarrow> (byte list \<times> byte list) list \<Rightarrow> byte list option" where
  "header_lookup name hs = map_option snd (find (\<lambda>(n, _). eq_ignore_ascii_case n name) hs)"

lemma hb_get_lookup: "hb_get name h = header_lookup name (hb_iter h)"
  by (simp add: hb_get_def header_lookup_def)

definition sr_header :: "byte list \<Rightarrow> server_request \<Rightarrow> byte list option" where
  "sr_header name r = header_lookup name (sr_headers r)"

definition keep_alive_requested :: "request_head \<Rightarrow> bool" where
  "keep_alive_requested h =
     (let connection = hb_get (ascii ''connection'') (rq_headers h) in
      case rq_version h of
        Http11 \<Rightarrow> \<not> (case connection of Some v \<Rightarrow> eq_ignore_ascii_case v (ascii ''close'') | None \<Rightarrow> False)
      | Http10 \<Rightarrow> (case connection of Some v \<Rightarrow> eq_ignore_ascii_case v (ascii ''keep-alive'') | None \<Rightarrow> False))"

section \<open>Handlers\<close>

text \<open>
  A run of a handler on one request: it may call \<open>body_bytes\<close> with a limit and go on with what
  that returned; in the end it responds.  The handler's own state, if it has one, is in the
  final value.
\<close>

datatype 'h handler_run =
    Respond response_data 'h
  | Body_Bytes nat "http_error + byte list \<Rightarrow> 'h handler_run"

primrec run_handler ::
  "'h handler_run \<Rightarrow> body_reader \<Rightarrow> http_connection \<Rightarrow> response_data \<times> 'h \<times> body_reader \<times> http_connection" where
  "run_handler (Respond r h) = (\<lambda>br c. (r, h, br, c))"
| "run_handler (Body_Bytes m k) =
     (\<lambda>br c. case read_to_vec m br c of (res, br1, c1) \<Rightarrow> run_handler (k res) br1 c1)"

type_synonym 'h handler = "'h \<Rightarrow> server_request \<Rightarrow> 'h handler_run"

text \<open>The router of \<open>router.rs\<close>; a route's function has no state of its own.\<close>

type_synonym route_fn = "server_request \<Rightarrow> unit handler_run"

record route =
  rt_method :: "byte list"
  rt_path :: "byte list"
  rt_handler :: route_fn

record router =
  routes :: "route list"
  fallback :: route_fn

definition router_new :: router where
  "router_new = \<lparr>routes = [], fallback = (\<lambda>_. Respond not_found ())\<rparr>"

definition router_route :: "byte list \<Rightarrow> byte list \<Rightarrow> route_fn \<Rightarrow> router \<Rightarrow> router" where
  "router_route m p f r = r\<lparr>routes := routes r @ [\<lparr>rt_method = m, rt_path = p, rt_handler = f\<rparr>]\<rparr>"

definition router_get :: "byte list \<Rightarrow> route_fn \<Rightarrow> router \<Rightarrow> router" where
  "router_get p f r = router_route (ascii ''GET'') p f r"

definition router_post :: "byte list \<Rightarrow> route_fn \<Rightarrow> router \<Rightarrow> router" where
  "router_post p f r = router_route (ascii ''POST'') p f r"

definition router_fallback :: "route_fn \<Rightarrow> router \<Rightarrow> router" where
  "router_fallback f r = r\<lparr>fallback := f\<rparr>"

definition path_only :: "byte list \<Rightarrow> byte list" where
  "path_only target = (case byte_position 63 target of Some e \<Rightarrow> take e target | None \<Rightarrow> target)"

text \<open>The loop over the routes: whether a path matched, and the route that matched wholly.\<close>

fun select_route :: "byte list \<Rightarrow> byte list \<Rightarrow> bool \<Rightarrow> route list \<Rightarrow> bool \<times> route option" where
  "select_route m p matched [] = (matched, None)"
| "select_route m p matched (r # rs) =
     (if rt_path r \<noteq> p then select_route m p matched rs
      else if rt_method r = m then (True, Some r)
      else select_route m p True rs)"

definition router_handle :: "router \<Rightarrow> unit handler" where
  "router_handle r st req =
     (case select_route (sr_method req) (path_only (sr_target req)) False (routes r) of
        (_, Some route) \<Rightarrow> rt_handler route req
      | (True, None) \<Rightarrow> Respond (response_new 405 [] (ascii ''method not allowed'')) ()
      | (False, None) \<Rightarrow> fallback r req)"

section \<open>What is left to read shrinks\<close>

lemma read_content_length_size_le:
  assumes "read_content_length cap br c = (r, br1, c1)" "0 < cap"
  shows "conn_size c1 \<le> conn_size c"
proof (cases "br_remaining br = 0")
  case False
  obtain x c2 where x: "read_raw (min cap (br_remaining br)) c = (x, c2)" by fastforce
  have "0 < min cap (br_remaining br)" using False assms(2) by simp
  from read_raw_size_le[OF x this] x False assms(1) show ?thesis
    by (auto simp: read_content_length_def split: sum.splits if_splits)
qed (use assms in \<open>auto simp: read_content_length_def\<close>)

lemma read_chunk_data_size_le:
  assumes "read_chunk_data cap br c = (r, br1, c1)" "0 < cap" "0 < br_chunk_remaining br"
  shows "conn_size c1 \<le> conn_size c"
proof -
  obtain x c2 where x: "read_raw (min cap (br_chunk_remaining br)) c = (x, c2)" by fastforce
  have "0 < min cap (br_chunk_remaining br)" using assms(2,3) by simp
  from read_raw_size_le[OF x this] have le: "conn_size c2 \<le> conn_size c" by (auto split: sum.splits)
  obtain y c3 where y: "expect_exact crlf c2 = (y, c3)" by fastforce
  from expect_exact_size[OF y] le x y assms(1) show ?thesis
    by (auto simp: read_chunk_data_def Let_def split: sum.splits if_splits)
qed

lemma read_trailers_size_le: "read_trailers c = (r, c1) \<Longrightarrow> conn_size c1 \<le> conn_size c"
proof (induction c rule: read_trailers.induct)
  case (1 c)
  obtain x c2 where x: "read_line c = (x, c2)" by fastforce
  have le: "conn_size c2 \<le> conn_size c" using read_line_size[OF x] by simp
  show ?case
  proof (cases "\<exists>l. x = Inr l \<and> l \<noteq> []")
    case True
    then obtain l where l: "x = Inr l" "l \<noteq> []" by blast
    then have "read_trailers c2 = (r, c1)" using "1.prems" x by (subst (asm) read_trailers.simps) simp
    from "1.IH"[OF x[symmetric] l this] le show ?thesis by simp
  next
    case False
    then show ?thesis using "1.prems" x le by (subst (asm) read_trailers.simps) (auto split: sum.splits if_splits)
  qed
qed

lemma read_chunked_size_le:
  assumes "read_chunked cap br c = (r, br1, c1)" "0 < cap"
  shows "conn_size c1 \<le> conn_size c"
proof (cases "0 < br_chunk_remaining br")
  case True
  then show ?thesis using assms read_chunk_data_size_le by (simp add: read_chunked_def)
next
  case False
  obtain x c2 where x: "read_line c = (x, c2)" by fastforce
  have le: "conn_size c2 \<le> conn_size c" using read_line_size[OF x] by simp
  have data: "conn_size c3 \<le> conn_size c"
    if "read_chunk_data cap (br\<lparr>br_chunk_remaining := sz\<rparr>) c2 = (q, br3, c3)" "0 < sz" for sz q br3 c3
    using read_chunk_data_size_le[OF that(1) assms(2)] that(2) le by simp
  show ?thesis
    using assms(1) False x le read_trailers_size_le[of c2] data
    by (auto simp: read_chunked_def split: sum.splits prod.splits if_splits dest: le_trans)
qed

lemma body_read_size_le:
  assumes "body_read cap br c = (r, br1, c1)"
  shows "conn_size c1 \<le> conn_size c"
proof (cases "br_finished br \<or> cap = 0")
  case True
  then show ?thesis using assms by (auto simp: body_read_def)
next
  case False
  then have pos: "0 < cap" by simp
  obtain x br2 c2 where x: "(case br_kind br of
             Empty_Body \<Rightarrow> (Inr [], br, c)
           | Content_Length n \<Rightarrow> read_content_length cap br c
           | Chunked \<Rightarrow> read_chunked cap br c
           | Until_Eof \<Rightarrow> (case read_raw cap c of (r, c1) \<Rightarrow> (r, br, c1))) = (x, br2, c2)"
    by (metis prod_cases3)
  have raw: "conn_size c2 \<le> conn_size c" if "read_raw cap c = (y, c2)" for y
    using read_raw_size_le[OF that pos] by (auto split: sum.splits)
  have "conn_size c2 \<le> conn_size c"
    using x read_content_length_size_le[OF _ pos] read_chunked_size_le[OF _ pos] raw
    by (auto split: body_kind.splits prod.splits)
  moreover have "c1 = c2"
    using assms False unfolding body_read_def x by (auto split: sum.splits)
  ultimately show ?thesis by simp
qed

lemma read_to_vec_loop_size_le:
  "read_to_vec_loop max_len out br c = (r, br1, c1) \<Longrightarrow> conn_size c1 \<le> conn_size c"
proof (induction max_len out br c rule: read_to_vec_loop.induct)
  case (1 max_len out br c)
  obtain x br2 c2 where x: "body_read 8192 br c = (x, br2, c2)" by (cases "body_read 8192 br c") auto
  note le = body_read_size_le[OF x]
  show ?case
  proof (cases "\<exists>bs. x = Inr bs \<and> bs \<noteq> [] \<and> \<not> max_len < length out + length bs")
    case True
    then obtain bs where bs: "x = Inr bs" "bs \<noteq> []" "\<not> max_len < length out + length bs" by blast
    then have "read_to_vec_loop max_len (out @ bs) br2 c2 = (r, br1, c1)"
      using "1.prems" x by (subst (asm) read_to_vec_loop.simps) simp
    from "1.IH"[OF x[symmetric] bs(1) refl bs(2,3) this] le show ?thesis by simp
  next
    case False
    then show ?thesis using "1.prems" x le by (subst (asm) read_to_vec_loop.simps) (auto split: sum.splits if_splits)
  qed
qed

lemma run_handler_size_le: "run_handler p br c = (r, h, br1, c1) \<Longrightarrow> conn_size c1 \<le> conn_size c"
proof (induction p arbitrary: br c)
  case (Body_Bytes m k)
  obtain x br2 c2 where x: "read_to_vec m br c = (x, br2, c2)" by (cases "read_to_vec m br c") auto
  then have "run_handler (k x) br2 c2 = (r, h, br1, c1)" using Body_Bytes.prems by simp
  then have "conn_size c1 \<le> conn_size c2" by (rule Body_Bytes.IH[OF rangeI])
  also have "\<dots> \<le> conn_size c" using x read_to_vec_loop_size_le by (simp add: read_to_vec_def)
  finally show ?case .
qed simp

text \<open>A head takes at least its delimiter off the connection.\<close>

lemma parse_request_ranges_consumed:
  assumes "parse_request_ranges buf = Inr (Some r)"
  shows "4 \<le> hr_consumed r \<and> hr_consumed r \<le> length buf"
proof -
  obtain e where e: "find_head_end buf = Inr (Some e)" "hr_consumed r = e + length header_delim"
    using assms by (auto simp: parse_request_ranges_def split: sum.splits option.splits prod.splits)
  then show ?thesis using find_head_end_bound[OF e(1)] by simp
qed

lemma read_request_head_size:
  "read_request_head c = (Inr (Some h), c1) \<Longrightarrow> conn_size c1 < conn_size c"
proof (induction c rule: read_request_head.induct)
  case (1 c)
  show ?case
  proof (cases "parse_request_ranges (conn_buf c)")
    case (Inl e)
    then show ?thesis using "1.prems" by (subst (asm) read_request_head.simps) simp
  next
    case (Inr x)
    show ?thesis
    proof (cases x)
      case (Some r)
      then have "c1 = c\<lparr>conn_buf := drop (hr_consumed r) (conn_buf c)\<rparr>"
        using "1.prems" Inr by (subst (asm) read_request_head.simps) simp
      then show ?thesis
        using parse_request_ranges_consumed Inr Some by (fastforce simp: conn_size_def)
    next
      case None
      obtain y c2 where y: "conn_fill c = (y, c2)" by fastforce
      then obtain n where n: "y = Inr n" "n \<noteq> 0"
        using "1.prems" Inr None
        by (subst (asm) read_request_head.simps) (auto split: sum.splits if_splits)
      then have "read_request_head c2 = (Inr (Some h), c1)"
        using "1.prems" Inr None y by (subst (asm) read_request_head.simps) simp
      from "1.IH"[OF Inr None y[symmetric] n this] conn_fill_conn_size[OF y] show ?thesis by simp
    qed
  qed
qed

section \<open>The keep-alive loop\<close>

definition head_of_response :: "response_data \<Rightarrow> byte list" where
  "head_of_response r =
     render_head (resp_status r) (reason (resp_status r)) (resp_headers r) (resp_body r \<noteq> [])
       (length (resp_body r)) []"

lemma write_message_size: "write_message head body c = (r, c1) \<Longrightarrow> conn_size c1 = conn_size c"
  by (auto simp: write_message_def conn_flush_def conn_size_def dest!: conn_write_all_frame
      split: prod.splits sum.splits if_splits)

function serve_loop ::
  "'h handler \<Rightarrow> 'h \<Rightarrow> http_connection \<Rightarrow> (http_error + unit) \<times> 'h \<times> http_connection" where
  "serve_loop f h c =
     (case read_request_head c of
        (Inl e, c1) \<Rightarrow> (Inl e, h, c1)
      | (Inr None, c1) \<Rightarrow> (Inr (), h, c1)
      | (Inr (Some head), c1) \<Rightarrow>
          let keep_alive = keep_alive_requested head in
          (case request_body_kind (rq_headers head) of
             Inl e \<Rightarrow> (Inl e, h, c1)
           | Inr kind \<Rightarrow>
               (case run_handler (f h (server_request_of head keep_alive)) (body_reader_new kind) c1 of
                  (response, h1, br, c2) \<Rightarrow>
                    (case write_message (head_of_response response) (resp_body response) c2 of
                       (Inl e, c3) \<Rightarrow> (Inl e, h1, c3)
                     | (Inr u, c3) \<Rightarrow>
                         if keep_alive \<and> br_finished br then serve_loop f h1 c3 else (Inr (), h1, c3)))))"
  by pat_completeness auto
termination
  by (relation "measure (\<lambda>(f, h, c). conn_size c)")
     (auto dest!: sym[THEN read_request_head_size] sym[THEN run_handler_size_le] sym[THEN write_message_size])

declare serve_loop.simps [simp del]

definition serve_connection :: "'h handler \<Rightarrow> 'h \<Rightarrow> transport \<Rightarrow> (http_error + unit) \<times> 'h \<times> http_connection" where
  "serve_connection f h t = serve_loop f h (conn_new t)"

end
