(* ===== verification/Http_Client.thy ===== *)
theory Http_Client
  imports Http_Server
begin

text \<open>
  The HTTP/1.1 client (\<open>crates/tpt-net-http/src/client.rs\<close>): one exchange over a connection,
  the per-host pool, and the pooled request with its redirects.  Connecting is the caller's
  \<open>Connector\<close>, a parameter over a state of its own; the pool's mutex makes its operations
  atomic.
\<close>

section \<open>Text\<close>

text \<open>
  \<open>String::from_utf8_lossy\<close>: each maximal malformed piece becomes U+FFFD.  \<open>utf8_first\<close> is the
  length of the first piece of a text and whether it is well formed.
\<close>

definition utf8_second :: "byte \<Rightarrow> byte \<Rightarrow> bool" where
  "utf8_second a b \<longleftrightarrow> utf8_cont b \<and> (a = 0xE0 \<longrightarrow> 0xA0 \<le> b) \<and> (a = 0xED \<longrightarrow> b \<le> 0x9F) \<and>
     (a = 0xF0 \<longrightarrow> 0x90 \<le> b) \<and> (a = 0xF4 \<longrightarrow> b \<le> 0x8F)"

definition utf8_first :: "byte list \<Rightarrow> nat \<times> bool" where
  "utf8_first bs =
     (let a = hd bs;
          second = (1 < length bs \<and> utf8_second a (bs ! 1));
          third = (2 < length bs \<and> utf8_cont (bs ! 2));
          fourth = (3 < length bs \<and> utf8_cont (bs ! 3))
      in if a \<le> 0x7F then (1, True)
         else if 0xC2 \<le> a \<and> a \<le> 0xDF then (if second then (2, True) else (1, False))
         else if 0xE0 \<le> a \<and> a \<le> 0xEF then
           (if \<not> second then (1, False) else if \<not> third then (2, False) else (3, True))
         else if 0xF0 \<le> a \<and> a \<le> 0xF4 then
           (if \<not> second then (1, False) else if \<not> third then (2, False)
            else if \<not> fourth then (3, False) else (4, True))
         else (1, False))"

lemma utf8_first_pos: "0 < fst (utf8_first bs)"
  by (simp add: utf8_first_def Let_def)

function utf8_lossy :: "byte list \<Rightarrow> byte list" where
  "utf8_lossy bs =
     (if bs = [] then []
      else (if snd (utf8_first bs) then take (fst (utf8_first bs)) bs else [0xEF, 0xBF, 0xBD]) @
           utf8_lossy (drop (fst (utf8_first bs)) bs))"
  by pat_completeness auto
termination
  by (relation "measure length") (auto simp: utf8_first_pos)

declare utf8_lossy.simps [simp del]

section \<open>Requests\<close>

record client_request =
  cq_method :: "byte list"
  cq_target :: "byte list"
  cq_headers :: "(byte list \<times> byte list) list"
  cq_body :: "byte list"

definition client_request_new :: "byte list \<Rightarrow> byte list \<Rightarrow> client_request" where
  "client_request_new m t = \<lparr>cq_method = m, cq_target = t, cq_headers = [], cq_body = []\<rparr>"

definition client_request_header :: "byte list \<Rightarrow> byte list \<Rightarrow> client_request \<Rightarrow> client_request" where
  "client_request_header n v q = q\<lparr>cq_headers := cq_headers q @ [(n, v)]\<rparr>"

definition client_request_body :: "byte list \<Rightarrow> client_request \<Rightarrow> client_request" where
  "client_request_body b q = q\<lparr>cq_body := b\<rparr>"

section \<open>One exchange\<close>

definition is_host :: "byte list \<times> byte list \<Rightarrow> bool" where
  "is_host nv \<longleftrightarrow> eq_ignore_ascii_case (fst nv) (ascii ''host'')"

definition client_head :: "client_request \<Rightarrow> byte list \<Rightarrow> byte list" where
  "client_head q host =
     cq_method q @ [32] @ cq_target q @ [32] @ ascii ''HTTP/1.1'' @ crlf @
     concat (map header_text (cq_headers q)) @
     (if list_ex is_host (cq_headers q) then [] else ascii ''host: '' @ host @ crlf) @
     ascii ''content-length: '' @ to_decimal (length (cq_body q)) @ crlf @ crlf"

definition response_body ::
  "response_head \<Rightarrow> bool \<Rightarrow> http_error + body_reader" where
  "response_body h is_head =
     (case response_body_kind (rs_headers h) (rs_status h) is_head of
        Inl e \<Rightarrow> Inl e
      | Inr k \<Rightarrow> Inr (body_reader_new k))"

definition client_send ::
  "client_request \<Rightarrow> byte list \<Rightarrow> http_connection \<Rightarrow> (http_error + response_head \<times> body_reader) \<times> http_connection" where
  "client_send q host c =
     (case write_message (client_head q host) (cq_body q) c of
        (Inl e, c1) \<Rightarrow> (Inl e, c1)
      | (Inr u, c1) \<Rightarrow>
          (case read_response_head c1 of
             (Inl e, c2) \<Rightarrow> (Inl e, c2)
           | (Inr h, c2) \<Rightarrow>
               (case response_body h (eq_ignore_ascii_case (cq_method q) (ascii ''HEAD'')) of
                  Inl e \<Rightarrow> (Inl e, c2)
                | Inr br \<Rightarrow> (Inr (h, br), c2))))"

section \<open>The pool\<close>

text \<open>Idle transports by authority; the last one put is the first one taken.\<close>

record conn_pool =
  pool_idle :: "byte list \<rightharpoonup> transport list"
  max_idle_per_host :: nat

definition pool_new :: "nat \<Rightarrow> conn_pool" where
  "pool_new n = \<lparr>pool_idle = Map.empty, max_idle_per_host = max n 1\<rparr>"

definition pool_take :: "byte list \<Rightarrow> conn_pool \<Rightarrow> transport option \<times> conn_pool" where
  "pool_take authority p =
     (case pool_idle p authority of
        None \<Rightarrow> (None, p)
      | Some ts \<Rightarrow>
          if ts = [] then (None, p)
          else (Some (last ts), p\<lparr>pool_idle := (pool_idle p)(authority \<mapsto> butlast ts)\<rparr>))"

definition pool_put :: "byte list \<Rightarrow> transport \<Rightarrow> conn_pool \<Rightarrow> conn_pool" where
  "pool_put authority t p =
     (let slot = (case pool_idle p authority of Some ts \<Rightarrow> ts | None \<Rightarrow> []);
          slot1 = (if length slot < max_idle_per_host p then slot @ [t] else slot)
      in p\<lparr>pool_idle := (pool_idle p)(authority \<mapsto> slot1)\<rparr>)"

section \<open>Redirects\<close>

definition default_authority_for :: "client_request \<Rightarrow> byte list" where
  "default_authority_for q =
     (case find is_host (cq_headers q) of Some nv \<Rightarrow> snd nv | None \<Rightarrow> ascii ''localhost'')"

definition host_of :: "byte list \<Rightarrow> byte list" where
  "host_of authority = takeWhile (\<lambda>b. b \<noteq> 58) authority"

definition keep_alive_from :: "header_block \<Rightarrow> bool" where
  "keep_alive_from h =
     (case hb_get (ascii ''connection'') h of
        Some v \<Rightarrow> \<not> eq_ignore_ascii_case v (ascii ''close'')
      | None \<Rightarrow> True)"

definition split_authority_path :: "byte list \<Rightarrow> byte list \<times> byte list" where
  "split_authority_path rest =
     (case byte_position 47 rest of
        Some slash \<Rightarrow> (take slash rest, drop slash rest)
      | None \<Rightarrow> (rest, [47]))"

definition strip_prefix :: "byte list \<Rightarrow> byte list \<Rightarrow> byte list option" where
  "strip_prefix p s = (if take (length p) s = p then Some (drop (length p) s) else None)"

text \<open>The part of the current target before its last slash, and nothing without a slash.\<close>

definition target_directory :: "byte list \<Rightarrow> byte list" where
  "target_directory t = (if 47 \<in> set t then rev (tl (dropWhile (\<lambda>b. b \<noteq> 47) (rev t))) else [])"

definition resolve_redirect :: "byte list \<Rightarrow> byte list \<Rightarrow> byte list \<Rightarrow> byte list \<times> byte list" where
  "resolve_redirect current_authority current_target location =
     (case strip_prefix (ascii ''http://'') location of
        Some rest \<Rightarrow> split_authority_path rest
      | None \<Rightarrow>
          (case strip_prefix (ascii ''https://'') location of
             Some rest \<Rightarrow>
               (case split_authority_path rest of
                  (auth, path) \<Rightarrow> (takeWhile (\<lambda>b. b \<noteq> 58) auth @ ascii '':443'', path))
           | None \<Rightarrow>
               if location \<noteq> [] \<and> hd location = 47 then (current_authority, location)
               else (current_authority, target_directory current_target @ [47] @ location)))"

section \<open>The pooled request\<close>

record owned_response =
  or_status :: nat
  or_headers :: "(byte list \<times> byte list) list"
  or_body :: "byte list"

definition max_pooled_body :: nat where
  "max_pooled_body = 64 * 1024 * 1024"

definition lossy_header :: "byte list \<times> byte list \<Rightarrow> byte list \<times> byte list" where
  "lossy_header nv = (utf8_lossy (fst nv), utf8_lossy (snd nv))"

text \<open>
  \<open>connect\<close> is the connector, over its state \<open>'w\<close>.  A connection that is not put back is
  dropped; the code reads the body of a redirect before that and ignores what came, so that
  read leaves no trace here.
\<close>

definition take_or_connect ::
  "('w \<Rightarrow> byte list \<Rightarrow> (http_error + transport) \<times> 'w) \<Rightarrow> byte list \<Rightarrow> conn_pool \<Rightarrow> 'w \<Rightarrow>
   (http_error + transport) \<times> conn_pool \<times> 'w" where
  "take_or_connect connect authority p w =
     (case pool_take authority p of
        (Some t, p1) \<Rightarrow> (Inr t, p1, w)
      | (None, p1) \<Rightarrow> (case connect w authority of (r, w1) \<Rightarrow> (r, p1, w1)))"

text \<open>The end of an exchange that was not a redirect.\<close>

definition finish_exchange ::
  "byte list \<Rightarrow> response_head \<Rightarrow> body_reader \<Rightarrow> http_connection \<Rightarrow> conn_pool \<Rightarrow>
   (http_error + owned_response) \<times> conn_pool" where
  "finish_exchange authority h br c p =
     (case read_to_vec max_pooled_body br c of
        (Inl e, br1, c1) \<Rightarrow> (Inl e, p)
      | (Inr body, br1, c1) \<Rightarrow>
          (Inr \<lparr>or_status = rs_status h, or_headers = map lossy_header (hb_iter (rs_headers h)), or_body = body\<rparr>,
           if keep_alive_from (rs_headers h) then pool_put authority (into_inner c1) p else p))"

function client_request_loop ::
  "('w \<Rightarrow> byte list \<Rightarrow> (http_error + transport) \<times> 'w) \<Rightarrow> nat \<Rightarrow> nat \<Rightarrow> byte list \<Rightarrow> client_request \<Rightarrow>
   conn_pool \<Rightarrow> 'w \<Rightarrow> (http_error + owned_response) \<times> conn_pool \<times> 'w" where
  "client_request_loop connect max_redirects hops authority0 q p w =
     (let authority = (if authority0 = [] then default_authority_for q else authority0) in
      case take_or_connect connect authority p w of
        (Inl e, p1, w1) \<Rightarrow> (Inl e, p1, w1)
      | (Inr t, p1, w1) \<Rightarrow>
          (case client_send q (host_of authority) (conn_new t) of
             (Inl e, c1) \<Rightarrow> (Inl e, p1, w1)
           | (Inr (h, br), c1) \<Rightarrow>
               if 300 \<le> rs_status h \<and> rs_status h < 400 \<and> rs_status h \<noteq> 304 then
                 (if max_redirects \<le> hops then (Inl (Http_Parse ''too many redirects''), p1, w1)
                  else case hb_get (ascii ''location'') (rs_headers h) of
                    None \<Rightarrow> (Inl (Http_Parse ''redirect without location''), p1, w1)
                  | Some v \<Rightarrow>
                      (case resolve_redirect authority (cq_target q) (utf8_lossy v) of
                         (new_authority, new_target) \<Rightarrow>
                           client_request_loop connect max_redirects (hops + 1) new_authority
                             (q\<lparr>cq_target := new_target, cq_body := []\<rparr>) p1 w1))
               else (case finish_exchange authority h br c1 p1 of (r, p2) \<Rightarrow> (r, p2, w1))))"
  by pat_completeness auto
termination
  by (relation "measure (\<lambda>(connect, m, hops, a, q, p, w). m - hops)") auto

declare client_request_loop.simps [simp del]

definition http_request ::
  "('w \<Rightarrow> byte list \<Rightarrow> (http_error + transport) \<times> 'w) \<Rightarrow> client_request \<Rightarrow> nat \<Rightarrow> conn_pool \<Rightarrow> 'w \<Rightarrow>
   (http_error + owned_response) \<times> conn_pool \<times> 'w" where
  "http_request connect q max_redirects p w = client_request_loop connect max_redirects 0 [] q p w"

end
