(* ===== verification/Tls_Config.thy ===== *)
theory Tls_Config
  imports Tls_Stream Http_Client
begin

text \<open>
  The configurations of \<open>crates/tpt-net-tls/src/config.rs\<close>: the trust store of a client, the
  certificate of a server and the PEM loaders, and the HTTP client's connection over TLS.  What rustls,
  its provider, \<open>webpki-roots\<close>, \<open>rustls-native-certs\<close> and \<open>rustls-pemfile\<close> answer are parameters.
\<close>

section \<open>Client configuration\<close>

text \<open>The features the crate is built with.\<close>

record tls_features =
  webpki_roots :: bool
  native_certs :: bool
  tls12 :: bool

datatype tls_version = Tls_12 | Tls_13

text \<open>
  What the configuration asks the libraries: the roots that \<open>webpki-roots\<close> brings, the system's
  certificates with the errors of loading them, the trust anchor \<open>RootCertStore::add\<close> makes of a
  certificate, rustls's default versions, and whether the provider can do a list of versions.
\<close>

record ('cert, 'root) tls_platform =
  server_roots :: "'root list"
  loaded_certs :: "'cert list"
  load_errors :: "string list"
  trust_anchor :: "'cert \<Rightarrow> 'root option"
  default_versions :: "tls_version list"
  provider_supports :: "tls_version list \<Rightarrow> bool"

record 'root client_config =
  cc_versions :: "tls_version list"
  cc_roots :: "'root list"

fun add_certs :: "('cert \<Rightarrow> 'root option) \<Rightarrow> 'cert list \<Rightarrow> 'root list \<Rightarrow> 'root list" where
  "add_certs anchor [] store = store"
| "add_certs anchor (c # cs) store =
     add_certs anchor cs (case anchor c of None \<Rightarrow> store | Some r \<Rightarrow> store @ [r])"

text \<open>The block under \<open>native-certs\<close>: the first error counts only when there is no certificate at all.\<close>

definition add_native_certs ::
  "('cert, 'root) tls_platform \<Rightarrow> 'root list \<Rightarrow> tls_error + 'root list" where
  "add_native_certs p store =
     (if loaded_certs p = [] \<and> load_errors p \<noteq> []
      then Inl (Tls_Io (Io_Error Other_Kind (''could not load native certificates: '' @ hd (load_errors p))))
      else Inr (add_certs (trust_anchor p) (loaded_certs p) store))"

definition protocol_versions :: "tls_features \<Rightarrow> ('cert, 'root) tls_platform \<Rightarrow> tls_version list" where
  "protocol_versions f p = (if tls12 f then default_versions p else [Tls_13])"

text \<open>\<open>None\<close> is the panic of the \<open>expect\<close>, when the provider can do none of the versions.\<close>

definition rustls_config ::
  "tls_features \<Rightarrow> ('cert, 'root) tls_platform \<Rightarrow> (tls_error + 'root client_config) option" where
  "rustls_config f p =
     (let store = (if webpki_roots f then server_roots p else [])
      in case (if native_certs f then add_native_certs p store else Inr store) of
           Inl e \<Rightarrow> Some (Inl e)
         | Inr store1 \<Rightarrow>
             if store1 = [] then Some (Inl Tls_Root_Store_Empty)
             else if \<not> provider_supports p (protocol_versions f p) then None
             else Some (Inr \<lparr>cc_versions = protocol_versions f p, cc_roots = store1\<rparr>))"

section \<open>Server configuration\<close>

record ('chain, 'key) server_config =
  sc_versions :: "tls_version list"
  sc_chain :: 'chain
  sc_key :: 'key

text \<open>\<open>check\<close> is rustls's check of the certificate and the key: the error, if there is one.\<close>

definition server_config ::
  "tls_features \<Rightarrow> ('cert, 'root) tls_platform \<Rightarrow> ('cert list \<Rightarrow> 'key \<Rightarrow> string option) \<Rightarrow> 'cert list \<Rightarrow> 'key \<Rightarrow>
   (tls_error + ('cert list, 'key) server_config) option" where
  "server_config f p check chain key =
     (if \<not> provider_supports p (protocol_versions f p) then None
      else case check chain key of
        Some e \<Rightarrow> Some (Inl (Tls_Rustls e))
      | None \<Rightarrow> Some (Inr \<lparr>sc_versions = protocol_versions f p, sc_chain = chain, sc_key = key\<rparr>))"

section \<open>PEM files\<close>

text \<open>The certificates of a stream are an iterator of results; the loop stops at the first error.\<close>

fun push_pem_certs :: "'cert list \<Rightarrow> (string + 'cert) list \<Rightarrow> tls_error + 'cert list" where
  "push_pem_certs certs [] = Inr certs"
| "push_pem_certs certs (Inr c # rs) = push_pem_certs (certs @ [c]) rs"
| "push_pem_certs certs (Inl e # rs) = Inl (Tls_Pem (Invalid_Data (''invalid PEM certificate: '' @ e)))"

definition load_pem_certs :: "(string + 'cert) list \<Rightarrow> tls_error + 'cert list" where
  "load_pem_certs items = push_pem_certs [] items"

definition load_pem_key :: "(string + 'key option) \<Rightarrow> tls_error + 'key" where
  "load_pem_key r =
     (case r of
        Inl e \<Rightarrow> Inl (Tls_Pem (Invalid_Data (''invalid PEM private key: '' @ e)))
      | Inr None \<Rightarrow> Inl (Tls_Pem (Invalid_Data ''no private key found in PEM stream''))
      | Inr (Some k) \<Rightarrow> Inr k)"

section \<open>HTTP over TLS\<close>

text \<open>
  \<open>HttpClient::connect_tls\<close>; \<open>None\<close> is the panic of a client without a connector, or a handshake that
  does not end.
\<close>

definition connect_tls ::
  "'c rustls \<Rightarrow> ('cfg \<Rightarrow> 'name \<Rightarrow> string + 'c) \<Rightarrow> 'cfg option \<Rightarrow> transport \<Rightarrow> 'name \<Rightarrow>
   (http_error + 'c tls_stream) option" where
  "connect_tls R new_conn tls t name =
     (case tls of
        None \<Rightarrow> None
      | Some cfg \<Rightarrow>
          (case tls_connect R (new_conn cfg name) t of
             None \<Rightarrow> None
           | Some (Inl e) \<Rightarrow> Some (Inl (Http_Io (Io_Error Other_Kind (tls_error_text e))))
           | Some (Inr s) \<Rightarrow> Some (Inr s)))"

section \<open>Lemmas\<close>

lemma add_certs_eq: "add_certs anchor cs store = store @ List.map_filter anchor cs"
  by (induction cs arbitrary: store) (auto simp: List.map_filter_def split: option.splits)

text \<open>
  The trust store of a client is made of all the roots of the enabled sources, and is not empty.
\<close>

lemma rustls_config_store:
  assumes "rustls_config f p = Some (Inr cfg)"
  shows "cc_roots cfg = (if webpki_roots f then server_roots p else []) @
      (if native_certs f then List.map_filter (trust_anchor p) (loaded_certs p) else [])"
    and "cc_roots cfg \<noteq> []" and "\<not> tls12 f \<Longrightarrow> cc_versions cfg = [Tls_13]"
  using assms
  by (auto simp: rustls_config_def add_native_certs_def add_certs_eq protocol_versions_def Let_def
      split: if_split_asm sum.split_asm)

text \<open>A failure to load the system's certificates is an error even where \<open>webpki-roots\<close> has brought roots.\<close>

lemma native_failure_is_fatal:
  assumes "native_certs f" "loaded_certs p = []" "load_errors p = e # es"
  shows "rustls_config f p = Some (Inl (Tls_Io (Io_Error Other_Kind (''could not load native certificates: '' @ e))))"
  using assms by (simp add: rustls_config_def add_native_certs_def)

lemma push_pem_certs_eq:
  "push_pem_certs certs items =
     (case find isl items of
        None \<Rightarrow> Inr (certs @ map projr items)
      | Some r \<Rightarrow> Inl (Tls_Pem (Invalid_Data (''invalid PEM certificate: '' @ projl r))))"
  by (induction certs items rule: push_pem_certs.induct) (auto split: option.splits)

lemma push_pem_certs_valid: "push_pem_certs certs (map Inr cs) = Inr (certs @ cs)"
  by (induction cs arbitrary: certs) simp_all

lemma load_pem_certs_valid: "load_pem_certs (map Inr cs) = Inr cs"
  by (simp add: load_pem_certs_def push_pem_certs_valid)

end
