(* ===== verification/Http_Polls.thy ===== *)
theory Http_Polls
  imports Http_Body
begin

text \<open>
  The reading futures of the HTTP connection poll by poll (\<open>connection.rs\<close> and \<open>body.rs\<close> of
  \<open>tpt-net-http\<close>).  The other theories take an async function for its run to completion; here each is
  the state machine that it compiles to, with what it keeps in local variables between two polls.  It is
  shown that awaiting the machine is the run to completion, and what is left of a connection when the
  machine is dropped instead, as \<open>timeout\<close> does when the deadline comes first.
\<close>

section \<open>Awaiting a machine\<close>

partial_function (option) await_future ::
  "('s \<Rightarrow> 'c \<Rightarrow> 'r poll \<times> 's \<times> 'c) \<Rightarrow> 's \<Rightarrow> 'c \<Rightarrow> ('r \<times> 'c) option" where
  "await_future poll s c =
     (case poll s c of
        (Ready r, s1, c1) \<Rightarrow> Some (r, c1)
      | (Pending, s1, c1) \<Rightarrow> await_future poll s1 c1)"

text \<open>Where a machine is after some polls, all of them pending; there it may be dropped.\<close>

inductive suspended ::
  "('s \<Rightarrow> 'c \<Rightarrow> 'r poll \<times> 's \<times> 'c) \<Rightarrow> 's \<Rightarrow> 'c \<Rightarrow> 's \<Rightarrow> 'c \<Rightarrow> bool" for poll s c where
  first: "poll s c = (Pending, s1, c1) \<Longrightarrow> suspended poll s c s1 c1"
| again: "suspended poll s c s1 c1 \<Longrightarrow> poll s1 c1 = (Pending, s2, c2) \<Longrightarrow> suspended poll s c s2 c2"

text \<open>
  A machine whose every state \<open>stands_for\<close> what is left of the run: then awaiting it ends, with the
  result of that run.
\<close>

locale polled_function =
  fixes poll :: "'s \<Rightarrow> 'c \<Rightarrow> 'r poll \<times> 's \<times> 'c"
    and stands_for :: "'s \<Rightarrow> 'c \<Rightarrow> 'r \<times> 'c"
    and script :: "'c \<Rightarrow> nat"
  assumes ready: "poll s c = (Ready r, s1, c1) \<Longrightarrow> stands_for s c = (r, c1)"
    and pending: "poll s c = (Pending, s1, c1) \<Longrightarrow> stands_for s1 c1 = stands_for s c \<and> script c1 < script c"
begin

lemma await: "await_future poll s c = Some (stands_for s c)"
proof (induction "script c" arbitrary: s c rule: less_induct)
  case less
  obtain p s1 c1 where p: "poll s c = (p, s1, c1)" by (metis prod_cases3)
  show ?case
  proof (cases p)
    case Pending
    then show ?thesis
      using p pending[of s c s1 c1] less[of c1 s1] by (subst await_future.simps) simp
  next
    case (Ready r)
    then show ?thesis using p ready[of s c r s1 c1] by (subst await_future.simps) simp
  qed
qed

lemma suspended: "suspended poll s c s1 c1 \<Longrightarrow> stands_for s1 c1 = stands_for s c"
  by (induction rule: suspended.induct) (simp_all add: pending)

end

section \<open>fill\<close>

text \<open>
  Before its first poll \<open>fill\<close> has extended the buffer by \<open>READ_CHUNK\<close> zero bytes to read into; it keeps
  the old length, and truncates the buffer when the read is over.
\<close>

datatype fill_run = Fill_Start | Fill_Waiting nat

definition fill_io :: "nat \<Rightarrow> http_connection \<Rightarrow> (http_error + nat) poll \<times> fill_run \<times> http_connection" where
  "fill_io old_len c =
     (case tr_poll_read read_chunk (io c) of
        (Pending, t) \<Rightarrow> (Pending, Fill_Waiting old_len, c\<lparr>io := t\<rparr>)
      | (Ready (Inl e), t) \<Rightarrow>
          (Ready (Inl (Http_Io e)), Fill_Start, c\<lparr>io := t, conn_buf := take old_len (conn_buf c)\<rparr>)
      | (Ready (Inr bs), t) \<Rightarrow>
          let c1 = c\<lparr>io := t, conn_buf := take old_len (conn_buf c) @ bs\<rparr> in
          if bs = [] then (Ready (Inr 0), Fill_Start, c1\<lparr>eof := True\<rparr>)
          else (Ready (Inr (length bs)), Fill_Start, c1))"

fun fill_poll :: "fill_run \<Rightarrow> http_connection \<Rightarrow> (http_error + nat) poll \<times> fill_run \<times> http_connection" where
  "fill_poll Fill_Start c =
     fill_io (length (conn_buf c)) (c\<lparr>conn_buf := conn_buf c @ replicate read_chunk 0\<rparr>)"
| "fill_poll (Fill_Waiting old_len) c = fill_io old_len c"

text \<open>The connection without the bytes that a pending \<open>fill\<close> has added.\<close>

fun unpadded :: "fill_run \<Rightarrow> http_connection \<Rightarrow> http_connection" where
  "unpadded Fill_Start c = c"
| "unpadded (Fill_Waiting old_len) c = c\<lparr>conn_buf := take old_len (conn_buf c)\<rparr>"

definition conn_script :: "http_connection \<Rightarrow> nat" where
  "conn_script c = length (incoming (io c))"

lemma fill_io_stands:
  "fill_io n c = (Ready r, s1, c1) \<Longrightarrow> conn_fill (c\<lparr>conn_buf := take n (conn_buf c)\<rparr>) = (r, c1) \<and> s1 = Fill_Start"
  "fill_io n c = (Pending, s1, c1) \<Longrightarrow> s1 = Fill_Waiting n \<and> conn_buf c1 = conn_buf c \<and>
     conn_fill (c1\<lparr>conn_buf := take n (conn_buf c)\<rparr>) = conn_fill (c\<lparr>conn_buf := take n (conn_buf c)\<rparr>) \<and>
     conn_script c1 < conn_script c"
  unfolding fill_io_def conn_fill_def
  by (subst tr_read.simps, auto simp: Let_def split: prod.splits poll.splits sum.splits if_splits)
     (auto simp: conn_script_def tr_read.simps[of read_chunk "io c"] Let_def dest!: tr_poll_read_pending
       split: prod.splits poll.splits sum.splits if_splits)

lemma fill_poll_stands:
  "fill_poll s c = (Ready r, s1, c1) \<Longrightarrow> conn_fill (unpadded s c) = (r, c1) \<and> s1 = Fill_Start"
  "fill_poll s c = (Pending, s1, c1) \<Longrightarrow> conn_fill (unpadded s1 c1) = conn_fill (unpadded s c) \<and>
     conn_script c1 < conn_script c \<and> s1 \<noteq> Fill_Start"
  by (cases s; auto dest!: fill_io_stands simp: conn_script_def)+

interpretation fill: polled_function fill_poll "\<lambda>s c. conn_fill (unpadded s c)" conn_script
  by unfold_locales (simp_all add: fill_poll_stands)

lemma fill_poll_size:
  assumes "fill_poll s c = (Ready (Inr n), s1, c1)" "n \<noteq> 0"
  shows "script_size (incoming (io c1)) < script_size (incoming (io c))"
proof -
  have "io (unpadded s c) = io c" by (cases s) simp_all
  then show ?thesis
    using fill_poll_stands(1)[OF assms(1)] conn_fill_size[of "unpadded s c" n c1] assms(2) by simp
qed

text \<open>A reading future takes from the transport and leaves its writing side alone.\<close>

definition reads_only :: "http_connection \<Rightarrow> http_connection \<Rightarrow> bool" where
  "reads_only c c1 \<longleftrightarrow>
     conn_script c1 \<le> conn_script c \<and> outgoing (io c1) = outgoing (io c) \<and> accepting (io c1) = accepting (io c) \<and>
     flush_error (io c1) = flush_error (io c)"

lemma reads_only_refl: "io c1 = io c \<Longrightarrow> reads_only c c1"
  by (simp add: reads_only_def conn_script_def)

lemma reads_only_trans: "reads_only c c1 \<Longrightarrow> reads_only c1 c2 \<Longrightarrow> reads_only c c2"
  by (simp add: reads_only_def)

lemma reads_only_script: "reads_only c c1 \<Longrightarrow> conn_script c1 \<le> conn_script c"
  by (simp add: reads_only_def)

lemma fill_poll_reads: "fill_poll s c = (p, s1, c1) \<Longrightarrow> reads_only c c1"
  by (cases s)
     (auto simp: fill_io_def reads_only_def conn_script_def tr_poll_read.simps Let_def
       split: prod.splits poll.splits sum.splits list.splits read_event.splits if_splits)

lemmas fill_poll_script = reads_only_script[OF fill_poll_reads]

lemma poll_raw_reads: "poll_raw cap c = (p, c1) \<Longrightarrow> reads_only c c1"
  by (auto simp: poll_raw_def reads_only_def conn_script_def tr_poll_read.simps Let_def
      split: prod.splits poll.splits sum.splits list.splits read_event.splits if_splits)

section \<open>Loops that fill the buffer\<close>

text \<open>
  \<open>read_line\<close> and the two head readers look for what they want in the buffer (\<open>check\<close>), and otherwise
  fill it and look again; \<open>at_end\<close> is their answer when the peer has closed.
\<close>

type_synonym 'r conn_result = "(http_error + 'r) \<times> http_connection"

function buffered_poll ::
  "(http_connection \<Rightarrow> 'r conn_result option) \<Rightarrow> (http_connection \<Rightarrow> http_error + 'r) \<Rightarrow>
     fill_run \<Rightarrow> http_connection \<Rightarrow> (http_error + 'r) poll \<times> fill_run \<times> http_connection" where
  "buffered_poll check at_end s c =
     (case if s = Fill_Start then check c else None of
        Some (r, c1) \<Rightarrow> (Ready r, Fill_Start, c1)
      | None \<Rightarrow>
          (case fill_poll s c of
             (Pending, s1, c1) \<Rightarrow> (Pending, s1, c1)
           | (Ready (Inl e), s1, c1) \<Rightarrow> (Ready (Inl e), Fill_Start, c1)
           | (Ready (Inr n), s1, c1) \<Rightarrow>
               if n = 0 then (Ready (at_end c1), Fill_Start, c1)
               else buffered_poll check at_end Fill_Start c1))"
  by pat_completeness auto
termination
  by (relation "measure (\<lambda>(check, at_end, s, c). script_size (incoming (io c)))") (auto dest: fill_poll_size[OF sym])

declare buffered_poll.simps [simp del]

function buffered_run ::
  "(http_connection \<Rightarrow> 'r conn_result option) \<Rightarrow> (http_connection \<Rightarrow> http_error + 'r) \<Rightarrow>
     http_connection \<Rightarrow> 'r conn_result" where
  "buffered_run check at_end c =
     (case check c of
        Some r \<Rightarrow> r
      | None \<Rightarrow>
          (case conn_fill c of
             (Inl e, c1) \<Rightarrow> (Inl e, c1)
           | (Inr n, c1) \<Rightarrow> if n = 0 then (at_end c1, c1) else buffered_run check at_end c1))"
  by pat_completeness auto
termination
  by (relation "measure (\<lambda>(check, at_end, c). script_size (incoming (io c)))") (auto intro: conn_fill_size[OF sym])

declare buffered_run.simps [simp del]

definition after_fill ::
  "(http_connection \<Rightarrow> 'r conn_result option) \<Rightarrow> (http_connection \<Rightarrow> http_error + 'r) \<Rightarrow>
     (http_error + nat) \<times> http_connection \<Rightarrow> 'r conn_result" where
  "after_fill check at_end rc =
     (case rc of
        (Inl e, c1) \<Rightarrow> (Inl e, c1)
      | (Inr n, c1) \<Rightarrow> if n = 0 then (at_end c1, c1) else buffered_run check at_end c1)"

definition buffered_rest ::
  "(http_connection \<Rightarrow> 'r conn_result option) \<Rightarrow> (http_connection \<Rightarrow> http_error + 'r) \<Rightarrow>
     fill_run \<Rightarrow> http_connection \<Rightarrow> 'r conn_result" where
  "buffered_rest check at_end s c =
     (if s = Fill_Start then buffered_run check at_end c
      else after_fill check at_end (conn_fill (unpadded s c)))"

lemma buffered_rest_unchecked:
  "s = Fill_Start \<longrightarrow> check c = None \<Longrightarrow>
     buffered_rest check at_end s c = after_fill check at_end (conn_fill (unpadded s c))"
  by (auto simp: buffered_rest_def after_fill_def buffered_run.simps[of check at_end c] split: prod.splits sum.splits)

lemma buffered_poll_stands:
  "(buffered_poll check at_end s c = (Ready r, s1, c1) \<longrightarrow> buffered_rest check at_end s c = (r, c1) \<and> s1 = Fill_Start) \<and>
   (buffered_poll check at_end s c = (Pending, s1, c1) \<longrightarrow>
      buffered_rest check at_end s1 c1 = buffered_rest check at_end s c \<and> conn_script c1 < conn_script c \<and> s1 \<noteq> Fill_Start)"
proof (induction check at_end s c rule: buffered_poll.induct)
  case (1 check at_end s c)
  show ?case
  proof (cases "if s = Fill_Start then check c else None")
    case (Some rc)
    then show ?thesis
      by (auto simp: buffered_poll.simps[of check at_end s c] buffered_rest_def buffered_run.simps[of check at_end c]
          split: if_splits prod.splits)
  next
    case None
    then have rest: "buffered_rest check at_end s c = after_fill check at_end (conn_fill (unpadded s c))"
      by (intro buffered_rest_unchecked) (simp split: if_splits)
    obtain p s2 c2 where f: "fill_poll s c = (p, s2, c2)" by (metis prod_cases3)
    show ?thesis
    proof (cases p)
      case Pending
      then show ?thesis
        using f None fill_poll_stands(2)[of s c s2 c2] rest
        by (auto simp: buffered_poll.simps[of check at_end s c] buffered_rest_def)
    next
      case (Ready x)
      note st = fill_poll_stands(1)[OF f[unfolded Ready]]
      have le: "conn_script c2 \<le> conn_script c" by (rule fill_poll_script[OF f])
      show ?thesis
      proof (cases "\<exists>n. x = Inr n \<and> n \<noteq> 0")
        case True
        then obtain n where n: "x = Inr n" "n \<noteq> 0" by blast
        have "buffered_poll check at_end s c = buffered_poll check at_end Fill_Start c2"
          using None f Ready n by (simp add: buffered_poll.simps[of check at_end s c])
        moreover have "buffered_rest check at_end s c = buffered_rest check at_end Fill_Start c2"
          unfolding rest using st n by (simp add: after_fill_def buffered_rest_def)
        ultimately show ?thesis
          using "1.IH"[OF None f[symmetric] Ready n(1) refl n(2)] le by auto
      next
        case False
        then show ?thesis
          using None f Ready st rest by (auto simp: buffered_poll.simps[of check at_end s c] after_fill_def split: sum.splits)
      qed
    qed
  qed
qed

interpretation buffered: polled_function "buffered_poll check at_end" "buffered_rest check at_end" conn_script
  for check :: "http_connection \<Rightarrow> 'r conn_result option" and at_end
  by unfold_locales (use buffered_poll_stands in blast)+

text \<open>\<open>read_line\<close>.\<close>

definition line_check :: "http_connection \<Rightarrow> byte list conn_result option" where
  "line_check c =
     (case crlf_position (conn_buf c) of
        Some p \<Rightarrow> Some (Inr (take p (conn_buf c)), c\<lparr>conn_buf := drop (p + 2) (conn_buf c)\<rparr>)
      | None \<Rightarrow> if conn_buf c = [] \<and> eof c then Some (Inl Http_Connection_Closed, c) else None)"

definition read_line_poll ::
  "fill_run \<Rightarrow> http_connection \<Rightarrow> (http_error + byte list) poll \<times> fill_run \<times> http_connection" where
  "read_line_poll = buffered_poll line_check (\<lambda>c. Inl Http_Connection_Closed)"

lemma read_line_run: "read_line c = buffered_run line_check (\<lambda>c. Inl Http_Connection_Closed) c"
proof (induction c rule: read_line.induct)
  case (1 c)
  then show ?case
    by (subst read_line.simps, subst buffered_run.simps)
       (auto simp: line_check_def[of c] split: option.splits prod.splits sum.splits)
qed

text \<open>The head readers.  A parse error has taken the buffer away.\<close>

definition head_check ::
  "(byte list \<Rightarrow> http_error + head_ranges option) \<Rightarrow> (byte list \<Rightarrow> head_ranges \<Rightarrow> 'h) \<Rightarrow>
     http_connection \<Rightarrow> 'h conn_result option" where
  "head_check parse freeze c =
     (case parse (conn_buf c) of
        Inl e \<Rightarrow> Some (Inl e, c\<lparr>conn_buf := []\<rparr>)
      | Inr (Some r) \<Rightarrow>
          Some (Inr (freeze (take (hr_consumed r) (conn_buf c)) r), c\<lparr>conn_buf := drop (hr_consumed r) (conn_buf c)\<rparr>)
      | Inr None \<Rightarrow> None)"

definition request_head_poll ::
  "fill_run \<Rightarrow> http_connection \<Rightarrow> (http_error + request_head option) poll \<times> fill_run \<times> http_connection" where
  "request_head_poll = buffered_poll (head_check parse_request_ranges (\<lambda>b r. Some (request_from_ranges b r)))
     (\<lambda>c. if conn_buf c = [] then Inr None else Inl Http_Connection_Closed)"

definition response_head_poll ::
  "fill_run \<Rightarrow> http_connection \<Rightarrow> (http_error + response_head) poll \<times> fill_run \<times> http_connection" where
  "response_head_poll = buffered_poll (head_check parse_response_ranges response_from_ranges)
     (\<lambda>c. Inl Http_Connection_Closed)"

lemma read_request_head_run:
  "read_request_head c = buffered_run (head_check parse_request_ranges (\<lambda>b r. Some (request_from_ranges b r)))
     (\<lambda>c. if conn_buf c = [] then Inr None else Inl Http_Connection_Closed) c"
proof (induction c rule: read_request_head.induct)
  case (1 c)
  then show ?case
    by (subst read_request_head.simps, subst buffered_run.simps)
       (auto simp: head_check_def[of _ _ c] split: option.splits prod.splits sum.splits)
qed

lemma read_response_head_run:
  "read_response_head c = buffered_run (head_check parse_response_ranges response_from_ranges)
     (\<lambda>c. Inl Http_Connection_Closed) c"
proof (induction c rule: read_response_head.induct)
  case (1 c)
  then show ?case
    by (subst read_response_head.simps, subst buffered_run.simps)
       (auto simp: head_check_def[of _ _ c] split: option.splits prod.splits sum.splits)
qed

section \<open>Raw reads and expected bytes\<close>

text \<open>\<open>read_raw\<close> keeps nothing in the connection between polls; \<open>expect_exact\<close> keeps what it has got.\<close>

definition raw_poll :: "nat \<Rightarrow> unit \<Rightarrow> http_connection \<Rightarrow> (http_error + byte list) poll \<times> unit \<times> http_connection" where
  "raw_poll cap s c = (case poll_raw cap c of (p, c1) \<Rightarrow> (p, s, c1))"

lemma poll_raw_stands:
  "poll_raw cap c = (Ready r, c1) \<Longrightarrow> read_raw cap c = (r, c1) \<and> conn_script c1 \<le> conn_script c"
  "poll_raw cap c = (Pending, c1) \<Longrightarrow> read_raw cap c1 = read_raw cap c \<and> conn_buf c = [] \<and> conn_buf c1 = [] \<and>
     conn_script c1 < conn_script c"
proof -
  assume "poll_raw cap c = (Ready r, c1)"
  then show "read_raw cap c = (r, c1) \<and> conn_script c1 \<le> conn_script c"
    by (auto simp: poll_raw_def read_raw_def Let_def tr_read.simps[of cap "io c"] conn_script_def tr_poll_read.simps
        split: prod.splits poll.splits sum.splits if_splits list.splits read_event.splits)
next
  assume p: "poll_raw cap c = (Pending, c1)"
  then obtain t where t: "conn_buf c = []" "tr_poll_read cap (io c) = (Pending, t)" "c1 = c\<lparr>io := t\<rparr>"
    by (auto simp: poll_raw_def Let_def split: prod.splits poll.splits sum.splits if_splits)
  then show "read_raw cap c1 = read_raw cap c \<and> conn_buf c = [] \<and> conn_buf c1 = [] \<and> conn_script c1 < conn_script c"
    using tr_poll_read_pending[OF t(2)]
    by (simp add: read_raw_def tr_read.simps[of cap "io c"] conn_script_def split: prod.splits sum.splits)
qed

interpretation raw: polled_function "raw_poll cap" "\<lambda>s c. read_raw cap c" conn_script for cap
  by unfold_locales (auto simp: raw_poll_def dest: poll_raw_stands split: prod.splits)

function expect_poll ::
  "byte list \<Rightarrow> byte list \<Rightarrow> http_connection \<Rightarrow> (http_error + unit) poll \<times> byte list \<times> http_connection" where
  "expect_poll expected got c =
     (if length expected \<le> length got
      then (Ready (if got \<noteq> expected then Inl (Http_Parse ''invalid framing bytes'') else Inr ()), got, c)
      else case poll_raw (length expected - length got) c of
        (Pending, c1) \<Rightarrow> (Pending, got, c1)
      | (Ready (Inl e), c1) \<Rightarrow> (Ready (Inl e), got, c1)
      | (Ready (Inr bs), c1) \<Rightarrow>
          if bs = [] then (Ready (Inl Http_Connection_Closed), got, c1)
          else expect_poll expected (got @ bs) c1)"
  by pat_completeness auto
termination
  by (relation "measure (\<lambda>(expected, got, c). length expected - length got)") (auto simp flip: length_greater_0_conv)

declare expect_poll.simps [simp del]

lemma expect_poll_reads: "expect_poll expected got c = (p, got1, c1) \<Longrightarrow> reads_only c c1"
proof (induction expected got c rule: expect_poll.induct)
  case (1 expected got c)
  note E = expect_poll.simps[of expected got c]
  show ?case
  proof (cases "length expected \<le> length got")
    case True
    then show ?thesis using "1.prems" by (auto simp: E intro: reads_only_refl)
  next
    case False
    obtain q c2 where q: "poll_raw (length expected - length got) c = (q, c2)" by fastforce
    note le = poll_raw_reads[OF q]
    show ?thesis
    proof (cases "\<exists>bs. q = Ready (Inr bs) \<and> bs \<noteq> []")
      case True
      then obtain bs where bs: "q = Ready (Inr bs)" "bs \<noteq> []" by blast
      then have "expect_poll expected (got @ bs) c2 = (p, got1, c1)" using "1.prems" False q by (simp add: E)
      then show ?thesis using "1.IH"[OF False q[symmetric] bs(1) refl bs(2)] le reads_only_trans by blast
    next
      case stop: False
      then show ?thesis using "1.prems" False q le by (auto simp: E split: poll.splits sum.splits if_splits)
    qed
  qed
qed

definition expect_rest :: "byte list \<Rightarrow> byte list \<Rightarrow> http_connection \<Rightarrow> unit conn_result" where
  "expect_rest expected got c =
     (case expect_loop (length expected) got c of
        (Inl e, c1) \<Rightarrow> (Inl e, c1)
      | (Inr g, c1) \<Rightarrow> if g \<noteq> expected then (Inl (Http_Parse ''invalid framing bytes''), c1) else (Inr (), c1))"

lemma expect_poll_stands:
  "(expect_poll expected got c = (Ready r, s1, c1) \<longrightarrow> expect_rest expected got c = (r, c1) \<and> conn_script c1 \<le> conn_script c) \<and>
   (expect_poll expected got c = (Pending, s1, c1) \<longrightarrow>
      expect_rest expected s1 c1 = expect_rest expected got c \<and> conn_script c1 < conn_script c)"
proof (induction expected got c rule: expect_poll.induct)
  case (1 expected got c)
  note E = expect_poll.simps[of expected got c] and L = expect_loop.simps[of "length expected" got c]
  show ?case
  proof (cases "length expected \<le> length got")
    case True
    then show ?thesis unfolding E expect_rest_def by (auto simp: expect_loop.simps)
  next
    case False
    obtain p c2 where p: "poll_raw (length expected - length got) c = (p, c2)" by fastforce
    show ?thesis
    proof (cases p)
      case Pending
      note st = poll_raw_stands(2)[OF p[unfolded Pending]]
      then have "expect_loop (length expected) got c2 = expect_loop (length expected) got c"
        using False by (simp add: L expect_loop.simps[of "length expected" got c2])
      then show ?thesis using False p Pending st by (auto simp: E expect_rest_def)
    next
      case (Ready x)
      note st = poll_raw_stands(1)[OF p[unfolded Ready]]
      show ?thesis
      proof (cases "\<exists>bs. x = Inr bs \<and> bs \<noteq> []")
        case True
        then obtain bs where bs: "x = Inr bs" "bs \<noteq> []" by blast
        have "expect_poll expected got c = expect_poll expected (got @ bs) c2"
          using False p Ready bs by (simp add: E)
        moreover have "expect_rest expected got c = expect_rest expected (got @ bs) c2"
          using False st bs by (simp add: expect_rest_def L)
        ultimately show ?thesis using "1.IH"[OF False p[symmetric] Ready bs] st by auto
      next
        case stop: False
        then show ?thesis
          using False p Ready st by (auto simp: E L expect_rest_def split: sum.splits if_splits)
      qed
    qed
  qed
qed

interpretation expect: polled_function "expect_poll expected" "expect_rest expected" conn_script for expected
  by unfold_locales (use expect_poll_stands in blast)+

section \<open>Bodies\<close>

abbreviation line_rest :: "fill_run \<Rightarrow> http_connection \<Rightarrow> byte list conn_result" where
  "line_rest \<equiv> buffered_rest line_check (\<lambda>c. Inl Http_Connection_Closed)"

lemma line_rest_start: "line_rest Fill_Start c = read_line c"
  by (simp add: buffered_rest_def read_line_run)

lemma read_line_poll_stands:
  "read_line_poll s c = (Ready r, s1, c1) \<Longrightarrow> line_rest s c = (r, c1) \<and> s1 = Fill_Start"
  "read_line_poll s c = (Pending, s1, c1) \<Longrightarrow> line_rest s1 c1 = line_rest s c \<and> conn_script c1 < conn_script c \<and> s1 \<noteq> Fill_Start"
  using buffered_poll_stands[of line_check "\<lambda>c. Inl Http_Connection_Closed"] by (simp_all add: read_line_poll_def)

lemma buffered_poll_reads:
  "buffered_poll check at_end s c = (p, s1, c1) \<Longrightarrow> (\<And>r c c1. check c = Some (r, c1) \<Longrightarrow> io c1 = io c) \<Longrightarrow>
     reads_only c c1"
proof (induction check at_end s c rule: buffered_poll.induct)
  case (1 check at_end s c)
  show ?case
  proof (cases "if s = Fill_Start then check c else None")
    case (Some rc)
    then show ?thesis
      using "1.prems"
      by (auto simp: buffered_poll.simps[of check at_end s c] intro!: reads_only_refl split: if_splits prod.splits)
  next
    case None
    obtain q s2 c2 where f: "fill_poll s c = (q, s2, c2)" by (metis prod_cases3)
    note le = fill_poll_reads[OF f]
    show ?thesis
    proof (cases "\<exists>n. q = Ready (Inr n) \<and> n \<noteq> 0")
      case True
      then obtain n where n: "q = Ready (Inr n)" "n \<noteq> 0" by blast
      then have "buffered_poll check at_end Fill_Start c2 = (p, s1, c1)"
        using "1.prems"(1) None f by (simp add: buffered_poll.simps[of check at_end s c])
      then have "reads_only c2 c1"
        by (rule "1.IH"[OF None f[symmetric] n(1) refl refl n(2)]) (rule "1.prems"(2))
      then show ?thesis using le reads_only_trans by blast
    next
      case False
      then show ?thesis
        using "1.prems"(1) None f le
        by (auto simp: buffered_poll.simps[of check at_end s c] split: poll.splits sum.splits if_splits)
    qed
  qed
qed

lemma read_line_poll_reads: "read_line_poll s c = (p, s1, c1) \<Longrightarrow> reads_only c c1"
  unfolding read_line_poll_def
  by (erule buffered_poll_reads) (auto simp: line_check_def split: option.splits if_splits)

lemmas read_line_poll_script = reads_only_script[OF read_line_poll_reads]

lemma read_line_poll_size:
  assumes "read_line_poll s c = (Ready (Inr l), s1, c1)"
  shows "conn_size c1 < conn_size (unpadded s c)"
proof (cases "s = Fill_Start")
  case True
  then show ?thesis
    using read_line_poll_stands(1)[OF assms] read_line_size[of c "Inr l" c1] by (simp add: line_rest_start)
next
  case False
  obtain x c2 where x: "conn_fill (unpadded s c) = (x, c2)" by fastforce
  then have "read_line c2 = (Inr l, c1)"
    using read_line_poll_stands(1)[OF assms] False
    by (auto simp: buffered_rest_def after_fill_def read_line_run split: sum.splits if_splits)
  then show ?thesis using read_line_size[of c2 "Inr l" c1] conn_fill_conn_size[OF x] by simp
qed

function trailers_poll :: "fill_run \<Rightarrow> http_connection \<Rightarrow> (http_error + unit) poll \<times> fill_run \<times> http_connection" where
  "trailers_poll s c =
     (case read_line_poll s c of
        (Pending, s1, c1) \<Rightarrow> (Pending, s1, c1)
      | (Ready (Inl e), s1, c1) \<Rightarrow> (Ready (Inl e), Fill_Start, c1)
      | (Ready (Inr l), s1, c1) \<Rightarrow> if l = [] then (Ready (Inr ()), Fill_Start, c1) else trailers_poll Fill_Start c1)"
  by pat_completeness auto
termination
  by (relation "measure (\<lambda>(s, c). conn_size (unpadded s c))") (auto dest: read_line_poll_size[OF sym])

declare trailers_poll.simps [simp del]

lemma trailers_poll_reads: "trailers_poll s c = (p, s1, c1) \<Longrightarrow> reads_only c c1"
proof (induction s c rule: trailers_poll.induct)
  case (1 s c)
  obtain q s2 c2 where q: "read_line_poll s c = (q, s2, c2)" by (metis prod_cases3)
  note le = read_line_poll_reads[OF q]
  show ?case
  proof (cases "\<exists>l. q = Ready (Inr l) \<and> l \<noteq> []")
    case True
    then obtain l where l: "q = Ready (Inr l)" "l \<noteq> []" by blast
    then have "trailers_poll Fill_Start c2 = (p, s1, c1)" using "1.prems" q by (simp add: trailers_poll.simps[of s c])
    then show ?thesis using "1.IH"[OF q[symmetric] l(1) refl refl l(2)] le reads_only_trans by blast
  next
    case False
    then show ?thesis
      using "1.prems" q le by (auto simp: trailers_poll.simps[of s c] split: poll.splits sum.splits if_splits)
  qed
qed

definition trailers_rest :: "fill_run \<Rightarrow> http_connection \<Rightarrow> unit conn_result" where
  "trailers_rest s c =
     (case line_rest s c of
        (Inl e, c1) \<Rightarrow> (Inl e, c1)
      | (Inr l, c1) \<Rightarrow> if l = [] then (Inr (), c1) else read_trailers c1)"

lemma trailers_rest_start: "trailers_rest Fill_Start c = read_trailers c"
  by (simp add: trailers_rest_def line_rest_start read_trailers.simps[of c])

lemma trailers_poll_stands:
  "(trailers_poll s c = (Ready r, s1, c1) \<longrightarrow> trailers_rest s c = (r, c1)) \<and>
   (trailers_poll s c = (Pending, s1, c1) \<longrightarrow> trailers_rest s1 c1 = trailers_rest s c \<and> conn_script c1 < conn_script c)"
proof (induction s c rule: trailers_poll.induct)
  case (1 s c)
  obtain p s2 c2 where p: "read_line_poll s c = (p, s2, c2)" by (metis prod_cases3)
  note le = read_line_poll_script[OF p]
  show ?case
  proof (cases "\<exists>l. p = Ready (Inr l) \<and> l \<noteq> []")
    case True
    then obtain l where l: "p = Ready (Inr l)" "l \<noteq> []" by blast
    have "trailers_poll s c = trailers_poll Fill_Start c2" using p l by (simp add: trailers_poll.simps[of s c])
    moreover have "trailers_rest s c = trailers_rest Fill_Start c2"
      using read_line_poll_stands(1)[OF p[unfolded l(1)]] l(2) by (simp add: trailers_rest_start) (simp add: trailers_rest_def)
    ultimately show ?thesis using "1.IH"[OF p[symmetric] l(1) refl refl l(2)] le by auto
  next
    case False
    then show ?thesis
      using p read_line_poll_stands[of s c]
      by (auto simp: trailers_poll.simps[of s c] trailers_rest_def split: poll.splits sum.splits if_splits)
  qed
qed

text \<open>
  Where a pending \<open>read_chunked\<close> waits: for data of a chunk, for the line break after a chunk (with the
  data that it has already copied into the caller's buffer, and what it has got of the line break), for a
  size line, or for a trailer line.
\<close>

datatype chunk_run = Ch_Top | Ch_Data | Ch_Crlf "byte list" "byte list" | Ch_Line fill_run | Ch_Trailers fill_run

type_synonym body_state = "body_reader \<times> http_connection"
type_synonym body_polled = "(http_error + byte list) poll \<times> chunk_run \<times> body_state"

fun chunk_end_poll :: "byte list \<Rightarrow> byte list \<Rightarrow> body_state \<Rightarrow> body_polled" where
  "chunk_end_poll out got (br, c) =
     (case expect_poll crlf got c of
        (Pending, got1, c1) \<Rightarrow> (Pending, Ch_Crlf out got1, br, c1)
      | (Ready (Inl e), got1, c1) \<Rightarrow> (Ready (Inl e), Ch_Top, br, c1)
      | (Ready (Inr u), got1, c1) \<Rightarrow> (Ready (Inr out), Ch_Top, br, c1))"

fun chunk_data_poll :: "nat \<Rightarrow> body_state \<Rightarrow> body_polled" where
  "chunk_data_poll cap (br, c) =
     (case poll_raw (min cap (br_chunk_remaining br)) c of
        (Pending, c1) \<Rightarrow> (Pending, Ch_Data, br, c1)
      | (Ready (Inl e), c1) \<Rightarrow> (Ready (Inl e), Ch_Top, br, c1)
      | (Ready (Inr bs), c1) \<Rightarrow>
          if bs = [] then (Ready (Inl Http_Connection_Closed), Ch_Top, br, c1)
          else let br1 = br\<lparr>br_chunk_remaining := br_chunk_remaining br - length bs\<rparr> in
            if br_chunk_remaining br1 = 0 then chunk_end_poll bs [] (br1, c1)
            else (Ready (Inr bs), Ch_Top, br1, c1))"

fun chunk_trailers_poll :: "fill_run \<Rightarrow> body_state \<Rightarrow> body_polled" where
  "chunk_trailers_poll s (br, c) =
     (case trailers_poll s c of
        (Pending, s1, c1) \<Rightarrow> (Pending, Ch_Trailers s1, br, c1)
      | (Ready (Inl e), s1, c1) \<Rightarrow> (Ready (Inl e), Ch_Top, br, c1)
      | (Ready (Inr u), s1, c1) \<Rightarrow> (Ready (Inr []), Ch_Top, br\<lparr>br_finished := True\<rparr>, c1))"

fun chunk_line_poll :: "nat \<Rightarrow> fill_run \<Rightarrow> body_state \<Rightarrow> body_polled" where
  "chunk_line_poll cap s (br, c) =
     (case read_line_poll s c of
        (Pending, s1, c1) \<Rightarrow> (Pending, Ch_Line s1, br, c1)
      | (Ready (Inl e), s1, c1) \<Rightarrow> (Ready (Inl e), Ch_Top, br, c1)
      | (Ready (Inr line), s1, c1) \<Rightarrow>
          (case parse_chunk_size line of
             Inl e \<Rightarrow> (Ready (Inl e), Ch_Top, br, c1)
           | Inr sz \<Rightarrow>
               if sz = 0 then chunk_trailers_poll Fill_Start (br, c1)
               else chunk_data_poll cap (br\<lparr>br_chunk_remaining := sz\<rparr>, c1)))"

fun read_chunked_poll :: "nat \<Rightarrow> chunk_run \<Rightarrow> body_state \<Rightarrow> body_polled" where
  "read_chunked_poll cap Ch_Top rc =
     (if 0 < br_chunk_remaining (fst rc) then chunk_data_poll cap rc else chunk_line_poll cap Fill_Start rc)"
| "read_chunked_poll cap Ch_Data rc = chunk_data_poll cap rc"
| "read_chunked_poll cap (Ch_Crlf out got) rc = chunk_end_poll out got rc"
| "read_chunked_poll cap (Ch_Line s) rc = chunk_line_poll cap s rc"
| "read_chunked_poll cap (Ch_Trailers s) rc = chunk_trailers_poll s rc"

text \<open>
  \<open>BodyReader::read\<close>.  The two tests at its start are made once in the code; while it is pending what
  they test does not change.
\<close>

fun body_poll :: "nat \<Rightarrow> chunk_run \<Rightarrow> body_state \<Rightarrow> body_polled" where
  "body_poll cap s (br, c) =
     (if br_finished br \<or> cap = 0 then (Ready (Inr []), Ch_Top, br, c)
      else case (case br_kind br of
             Empty_Body \<Rightarrow> (Ready (Inr []), Ch_Top, br, c)
           | Content_Length n \<Rightarrow>
               if br_remaining br = 0 then (Ready (Inr []), Ch_Top, br, c)
               else (case poll_raw (min cap (br_remaining br)) c of
                  (Pending, c1) \<Rightarrow> (Pending, Ch_Top, br, c1)
                | (Ready (Inl e), c1) \<Rightarrow> (Ready (Inl e), Ch_Top, br, c1)
                | (Ready (Inr bs), c1) \<Rightarrow>
                    if bs = [] then (Ready (Inl Http_Connection_Closed), Ch_Top, br, c1)
                    else (Ready (Inr bs), Ch_Top, br\<lparr>br_remaining := br_remaining br - length bs\<rparr>, c1))
           | Chunked \<Rightarrow> read_chunked_poll cap s (br, c)
           | Until_Eof \<Rightarrow> (case poll_raw cap c of (p, c1) \<Rightarrow> (p, Ch_Top, br, c1))) of
        (Pending, s1, br1, c1) \<Rightarrow> (Pending, s1, br1, c1)
      | (Ready (Inl e), s1, br1, c1) \<Rightarrow> (Ready (Inl e), Ch_Top, br1, c1)
      | (Ready (Inr bs), s1, br1, c1) \<Rightarrow>
          (Ready (Inr bs), Ch_Top, (if bs = [] then br1\<lparr>br_finished := True\<rparr> else br1), c1))"

lemma chunk_end_reads: "chunk_end_poll out got (br, c) = (p, s1, br1, c1) \<Longrightarrow> reads_only c c1"
  by (auto dest: expect_poll_reads split: prod.splits poll.splits sum.splits)

lemma chunk_data_reads: "chunk_data_poll cap (br, c) = (p, s1, br1, c1) \<Longrightarrow> reads_only c c1"
  by (auto simp: Let_def simp del: chunk_end_poll.simps dest!: poll_raw_reads chunk_end_reads intro: reads_only_trans
      split: prod.splits poll.splits sum.splits if_splits)

lemma chunk_trailers_reads: "chunk_trailers_poll s (br, c) = (p, s1, br1, c1) \<Longrightarrow> reads_only c c1"
  by (auto dest: trailers_poll_reads split: prod.splits poll.splits sum.splits)

lemma chunk_line_reads: "chunk_line_poll cap s (br, c) = (p, s1, br1, c1) \<Longrightarrow> reads_only c c1"
  by (auto simp del: chunk_data_poll.simps chunk_trailers_poll.simps
      dest!: read_line_poll_reads chunk_data_reads chunk_trailers_reads intro: reads_only_trans
      split: prod.splits poll.splits sum.splits if_splits)

lemma read_chunked_reads: "read_chunked_poll cap s (br, c) = (p, s1, br1, c1) \<Longrightarrow> reads_only c c1"
  by (cases s)
     (auto simp del: chunk_data_poll.simps chunk_trailers_poll.simps chunk_line_poll.simps chunk_end_poll.simps
       dest: chunk_data_reads chunk_trailers_reads chunk_line_reads chunk_end_reads split: if_splits)

lemma body_poll_reads: "body_poll cap s (br, c) = (p, s1, br1, c1) \<Longrightarrow> reads_only c c1"
  by (auto simp del: read_chunked_poll.simps dest: poll_raw_reads read_chunked_reads intro: reads_only_refl
      split: prod.splits poll.splits sum.splits if_splits body_kind.splits)

text \<open>What is left of a run in each state.\<close>

fun chunk_end_rest :: "byte list \<Rightarrow> byte list \<Rightarrow> body_state \<Rightarrow> byte list body_result" where
  "chunk_end_rest out got (br, c) =
     (case expect_rest crlf got c of (Inl e, c1) \<Rightarrow> (Inl e, br, c1) | (Inr u, c1) \<Rightarrow> (Inr out, br, c1))"

fun chunk_trailers_rest :: "fill_run \<Rightarrow> body_state \<Rightarrow> byte list body_result" where
  "chunk_trailers_rest s (br, c) =
     (case trailers_rest s c of
        (Inl e, c1) \<Rightarrow> (Inl e, br, c1)
      | (Inr u, c1) \<Rightarrow> (Inr [], br\<lparr>br_finished := True\<rparr>, c1))"

fun chunk_line_rest :: "nat \<Rightarrow> fill_run \<Rightarrow> body_state \<Rightarrow> byte list body_result" where
  "chunk_line_rest cap s (br, c) =
     (case line_rest s c of
        (Inl e, c1) \<Rightarrow> (Inl e, br, c1)
      | (Inr line, c1) \<Rightarrow>
          (case parse_chunk_size line of
             Inl e \<Rightarrow> (Inl e, br, c1)
           | Inr sz \<Rightarrow>
               if sz = 0 then chunk_trailers_rest Fill_Start (br, c1)
               else read_chunk_data cap (br\<lparr>br_chunk_remaining := sz\<rparr>) c1))"

fun chunked_rest :: "nat \<Rightarrow> chunk_run \<Rightarrow> body_state \<Rightarrow> byte list body_result" where
  "chunked_rest cap Ch_Top rc = read_chunked cap (fst rc) (snd rc)"
| "chunked_rest cap Ch_Data rc = read_chunk_data cap (fst rc) (snd rc)"
| "chunked_rest cap (Ch_Crlf out got) rc = chunk_end_rest out got rc"
| "chunked_rest cap (Ch_Line s) rc = chunk_line_rest cap s rc"
| "chunked_rest cap (Ch_Trailers s) rc = chunk_trailers_rest s rc"

text \<open>One step of a proof: a poll that is ready has the result of the run, one that is pending leaves it.\<close>

definition stands_ok :: "nat \<Rightarrow> body_state \<Rightarrow> byte list body_result \<Rightarrow> body_polled \<Rightarrow> bool" where
  "stands_ok cap rc res p \<longleftrightarrow>
     (\<forall>r s1 rc1. p = (Ready r, s1, rc1) \<longrightarrow> res = (r, rc1)) \<and>
     (\<forall>s1 rc1. p = (Pending, s1, rc1) \<longrightarrow> chunked_rest cap s1 rc1 = res \<and> conn_script (snd rc1) < conn_script (snd rc) \<and>
        br_kind (fst rc1) = br_kind (fst rc) \<and> br_finished (fst rc1) = br_finished (fst rc))"

lemma stands_ok_mono:
  "stands_ok cap rc1 res p \<Longrightarrow> conn_script (snd rc1) \<le> conn_script (snd rc) \<Longrightarrow> br_kind (fst rc1) = br_kind (fst rc) \<Longrightarrow>
     br_finished (fst rc1) = br_finished (fst rc) \<Longrightarrow> stands_ok cap rc res p"
  unfolding stands_ok_def by fastforce

lemma chunk_end_stands: "stands_ok cap (br, c) (chunk_end_rest out got (br, c)) (chunk_end_poll out got (br, c))"
proof -
  obtain p got1 c1 where p: "expect_poll crlf got c = (p, got1, c1)" by (metis prod_cases3)
  show ?thesis
    using p expect_poll_stands[of crlf got c _ got1 c1]
    by (cases p) (auto simp: stands_ok_def split: sum.splits)
qed

lemma chunk_trailers_stands: "stands_ok cap (br, c) (chunk_trailers_rest s (br, c)) (chunk_trailers_poll s (br, c))"
proof -
  obtain p s1 c1 where p: "trailers_poll s c = (p, s1, c1)" by (metis prod_cases3)
  show ?thesis
    using p trailers_poll_stands[of s c _ s1 c1]
    by (cases p) (auto simp: stands_ok_def split: sum.splits)
qed

lemma chunk_data_stands: "stands_ok cap (br, c) (read_chunk_data cap br c) (chunk_data_poll cap (br, c))"
proof -
  obtain p c1 where p: "poll_raw (min cap (br_chunk_remaining br)) c = (p, c1)" by fastforce
  show ?thesis
  proof (cases "\<exists>bs. p = Ready (Inr bs) \<and> bs \<noteq> [] \<and> br_chunk_remaining br - length bs = 0")
    case True
    then obtain bs where bs: "p = Ready (Inr bs)" "bs \<noteq> []" "br_chunk_remaining br - length bs = 0" by blast
    let ?br = "br\<lparr>br_chunk_remaining := 0\<rparr>"
    note st = poll_raw_stands(1)[OF p[unfolded bs(1)]]
    have "chunk_data_poll cap (br, c) = chunk_end_poll bs [] (?br, c1)"
      using p bs by (simp add: Let_def)
    moreover have "read_chunk_data cap br c = chunk_end_rest bs [] (?br, c1)"
      using st bs by (simp add: read_chunk_data_def Let_def expect_exact_def expect_rest_def split: prod.splits sum.splits)
    ultimately show ?thesis
      using stands_ok_mono[OF chunk_end_stands, of ?br c1 "(br, c)"] st by simp
  next
    case False
    then show ?thesis
      using p poll_raw_stands[of "min cap (br_chunk_remaining br)" c]
      by (auto simp: stands_ok_def read_chunk_data_def Let_def split: poll.splits sum.splits if_splits)
  qed
qed

lemma chunk_line_stands: "stands_ok cap (br, c) (chunk_line_rest cap s (br, c)) (chunk_line_poll cap s (br, c))"
proof -
  obtain p s1 c1 where p: "read_line_poll s c = (p, s1, c1)" by (metis prod_cases3)
  note le = read_line_poll_script[OF p]
  show ?thesis
  proof (cases "\<exists>l sz. p = Ready (Inr l) \<and> parse_chunk_size l = Inr sz")
    case True
    then obtain l sz where l: "p = Ready (Inr l)" "parse_chunk_size l = Inr sz" by blast
    note st = read_line_poll_stands(1)[OF p[unfolded l(1)]]
    show ?thesis
      using p l st le stands_ok_mono[OF chunk_trailers_stands[of cap br c1 Fill_Start], of "(br, c)"]
        stands_ok_mono[OF chunk_data_stands[of cap "br\<lparr>br_chunk_remaining := sz\<rparr>" c1], of "(br, c)"]
      by (simp del: chunk_trailers_poll.simps chunk_data_poll.simps chunk_trailers_rest.simps)
  next
    case False
    then show ?thesis
      using p read_line_poll_stands[of s c]
      by (auto simp: stands_ok_def split: poll.splits sum.splits)
  qed
qed

lemma read_chunked_rest: "\<not> 0 < br_chunk_remaining br \<Longrightarrow> chunk_line_rest cap Fill_Start (br, c) = read_chunked cap br c"
  by (auto simp: read_chunked_def line_rest_start trailers_rest_start split: prod.splits sum.splits)

lemma chunked_stands: "stands_ok cap rc (chunked_rest cap s rc) (read_chunked_poll cap s rc)"
proof (cases rc)
  case (Pair br c)
  show ?thesis
  proof (cases s)
    case Ch_Top
    show ?thesis
    proof (cases "0 < br_chunk_remaining br")
      case True
      then show ?thesis using chunk_data_stands[of cap br c] Ch_Top Pair by (simp add: read_chunked_def del: chunk_data_poll.simps)
    next
      case False
      then show ?thesis
        using chunk_line_stands[of cap br c Fill_Start] read_chunked_rest[OF False, of cap c] Ch_Top Pair
        by (simp del: chunk_line_poll.simps chunk_line_rest.simps)
    qed
  next
    case Ch_Data
    then show ?thesis using chunk_data_stands[of cap br c] Pair by (simp del: chunk_data_poll.simps)
  next
    case (Ch_Crlf out got)
    then show ?thesis using chunk_end_stands[of cap br c] Pair by (simp del: chunk_end_poll.simps chunk_end_rest.simps)
  next
    case (Ch_Line s1)
    then show ?thesis using chunk_line_stands[of cap br c] Pair by (simp del: chunk_line_poll.simps chunk_line_rest.simps)
  next
    case (Ch_Trailers s1)
    then show ?thesis using chunk_trailers_stands[of cap br c] Pair by (simp del: chunk_trailers_poll.simps chunk_trailers_rest.simps)
  qed
qed

definition body_rest :: "nat \<Rightarrow> chunk_run \<Rightarrow> body_state \<Rightarrow> byte list body_result" where
  "body_rest cap s rc =
     (if br_kind (fst rc) = Chunked \<and> \<not> br_finished (fst rc) \<and> cap \<noteq> 0 then
        (case chunked_rest cap s rc of
           (Inl e, rc1) \<Rightarrow> (Inl e, rc1)
         | (Inr bs, br1, c1) \<Rightarrow> (Inr bs, (if bs = [] then br1\<lparr>br_finished := True\<rparr> else br1), c1))
      else body_read cap (fst rc) (snd rc))"

lemma body_rest_start: "body_rest cap Ch_Top (br, c) = body_read cap br c"
  by (auto simp: body_rest_def body_read_def split: prod.splits sum.splits)

lemma body_stands:
  "body_poll cap s rc = (Ready r, s1, rc1) \<Longrightarrow> body_rest cap s rc = (r, rc1)"
  "body_poll cap s rc = (Pending, s1, rc1) \<Longrightarrow> body_rest cap s1 rc1 = body_rest cap s rc \<and> conn_script (snd rc1) < conn_script (snd rc)"
proof -
  obtain br c where rc: "rc = (br, c)" by fastforce
  have both: "(body_poll cap s rc = (Ready r, s1, rc1) \<longrightarrow> body_rest cap s rc = (r, rc1)) \<and>
    (body_poll cap s rc = (Pending, s1, rc1) \<longrightarrow> body_rest cap s1 rc1 = body_rest cap s rc \<and> conn_script (snd rc1) < conn_script (snd rc))"
    for r s1 rc1
  proof (cases "br_kind br = Chunked \<and> \<not> br_finished br \<and> cap \<noteq> 0")
    case True
    obtain p s2 br2 c2 where p: "read_chunked_poll cap s (br, c) = (p, s2, br2, c2)" by (metis prod_cases4)
    note st = chunked_stands[of cap "(br, c)" s, unfolded p stands_ok_def]
    show ?thesis
    proof (cases p)
      case Pending
      then show ?thesis using st p True rc by (auto simp: body_rest_def)
    next
      case (Ready x)
      then show ?thesis using st p True rc by (cases x) (auto simp: body_rest_def)
    qed
  next
    case False
    show ?thesis
    proof (cases "br_finished br \<or> cap = 0")
      case True
      then show ?thesis using rc by (auto simp: body_rest_def body_read_def)
    next
      case going: False
      show ?thesis
      proof (cases "br_kind br")
        case (Content_Length n)
        obtain p c1 where "poll_raw (min cap (br_remaining br)) c = (p, c1)" by fastforce
        then show ?thesis
          using going Content_Length rc poll_raw_stands[of "min cap (br_remaining br)" c]
          by (cases p) (auto simp: body_rest_def body_read_def read_content_length_def split: sum.splits)
      next
        case Until_Eof
        obtain p c1 where "poll_raw cap c = (p, c1)" by fastforce
        then show ?thesis
          using going Until_Eof rc poll_raw_stands[of cap c]
          by (cases p) (auto simp: body_rest_def body_read_def split: sum.splits)
      qed (use False going rc in \<open>auto simp: body_rest_def body_read_def\<close>)
    qed
  qed
  show "body_poll cap s rc = (Ready r, s1, rc1) \<Longrightarrow> body_rest cap s rc = (r, rc1)"
    and "body_poll cap s rc = (Pending, s1, rc1) \<Longrightarrow> body_rest cap s1 rc1 = body_rest cap s rc \<and> conn_script (snd rc1) < conn_script (snd rc)"
    using both by blast+
qed

interpretation body: polled_function "body_poll cap" "body_rest cap" "\<lambda>rc. conn_script (snd rc)" for cap
  by unfold_locales (use body_stands in blast)+

section \<open>Property\<close>

text \<open>
  Awaited to the end, the state machines of the reading futures do what the run-to-completion
  functions of this development do: fill, line and head readers, raw reads, expected bytes, and the
  body reader in every framing.  Each await ends, however the transport stalls.
\<close>

theorem polls_are_runs:
  "await_future fill_poll Fill_Start c = Some (conn_fill c) \<and>
   await_future read_line_poll Fill_Start c = Some (read_line c) \<and>
   await_future request_head_poll Fill_Start c = Some (read_request_head c) \<and>
   await_future response_head_poll Fill_Start c = Some (read_response_head c) \<and>
   await_future (raw_poll cap) () c = Some (read_raw cap c) \<and>
   await_future (expect_poll expected) [] c = Some (expect_exact expected c) \<and>
   await_future (body_poll cap) Ch_Top (br, c) = Some (body_read cap br c)"
  using fill.await[of Fill_Start c] raw.await[of cap "()" c] expect.await[of expected "[]" c]
    body.await[of cap Ch_Top "(br, c)"]
    buffered.await[of line_check "\<lambda>c. Inl Http_Connection_Closed" Fill_Start c]
    buffered.await[of "head_check parse_response_ranges response_from_ranges" "\<lambda>c. Inl Http_Connection_Closed" Fill_Start c]
    buffered.await[of "head_check parse_request_ranges (\<lambda>b r. Some (request_from_ranges b r))"
      "\<lambda>c. if conn_buf c = [] then Inr None else Inl Http_Connection_Closed" Fill_Start c]
  by (simp add: read_line_poll_def request_head_poll_def response_head_poll_def buffered_rest_def read_line_run
      read_request_head_run read_response_head_run body_rest_start expect_rest_def expect_exact_def)

end
