(* ===== verification/Http_Writes.thy ===== *)
theory Http_Writes
  imports Http_Polls
begin

text \<open>
  The writing futures of the HTTP connection poll by poll (\<open>connection.rs\<close> of \<open>tpt-net-http\<close>):
  \<open>write_raw\<close> and \<open>write_message\<close>, with the bytes that are left to write while they wait.
\<close>

section \<open>write_raw\<close>

definition conn_scripts :: "http_connection \<Rightarrow> nat" where
  "conn_scripts c = length (incoming (io c)) + length (accepting (io c))"

text \<open>\<open>HttpConnection::write_raw\<close> with the bytes that are left to write.\<close>

definition write_poll :: "byte list \<Rightarrow> http_connection \<Rightarrow> (http_error + unit) poll \<times> byte list \<times> http_connection" where
  "write_poll rest c =
     (case write_all_poll rest (io c) of
        (Pending, rest1, t) \<Rightarrow> (Pending, rest1, c\<lparr>io := t\<rparr>)
      | (Ready (Inl e), rest1, t) \<Rightarrow> (Ready (Inl (Http_Io e)), rest1, c\<lparr>io := t\<rparr>)
      | (Ready (Inr u), rest1, t) \<Rightarrow> (case conn_flush (c\<lparr>io := t\<rparr>) of (r, c1) \<Rightarrow> (Ready r, rest1, c1)))"

lemma write_raw_unfold:
  "write_raw bs c =
     (case await_write_all bs (io c) of
        (Inl e, rest, t) \<Rightarrow> (Inl (Http_Io e), c\<lparr>io := t\<rparr>)
      | (Inr u, rest, t) \<Rightarrow> conn_flush (c\<lparr>io := t\<rparr>))"
  by (simp add: write_raw_def conn_write_all_def tr_write_all_def split: prod.splits sum.splits)

lemma write_poll_stands:
  "write_poll bs c = (Ready r, rest, c1) \<Longrightarrow> write_raw bs c = (r, c1)"
  "write_poll bs c = (Pending, rest, c1) \<Longrightarrow> write_raw rest c1 = write_raw bs c \<and> conn_scripts c1 < conn_scripts c"
proof -
  assume "write_poll bs c = (Ready r, rest, c1)"
  then show "write_raw bs c = (r, c1)"
    by (auto simp: write_poll_def write_raw_unfold await_write_all.simps[of bs] split: prod.splits poll.splits sum.splits)
next
  assume "write_poll bs c = (Pending, rest, c1)"
  then obtain t where t: "write_all_poll bs (io c) = (Pending, rest, t)" "c1 = c\<lparr>io := t\<rparr>"
    by (auto simp: write_poll_def split: prod.splits poll.splits sum.splits)
  then show "write_raw rest c1 = write_raw bs c \<and> conn_scripts c1 < conn_scripts c"
    using write_all_poll_written[OF t(1)]
    by (auto simp: write_raw_unfold await_write_all.simps[of bs] conn_scripts_def split: prod.splits sum.splits)
qed

text \<open>What a pending write has handed over, and what it has not.\<close>

lemma write_poll_sent:
  assumes "write_poll bs c = (p, rest, c1)"
  shows "\<exists>sent. bs = sent @ rest \<and> outgoing (io c1) = outgoing (io c) @ sent \<and> incoming (io c1) = incoming (io c) \<and>
    conn_buf c1 = conn_buf c \<and> eof c1 = eof c \<and> conn_scripts c1 \<le> conn_scripts c"
proof -
  obtain q r t where q: "write_all_poll bs (io c) = (q, r, t)" by (metis prod_cases3)
  then have "rest = r" "c1 = c\<lparr>io := t\<rparr>"
    using assms by (auto simp: write_poll_def conn_flush_def split: poll.splits sum.splits)
  then show ?thesis using write_all_poll_written[OF q] by (auto simp: conn_scripts_def)
qed

section \<open>write_message\<close>

text \<open>The head and then the body, if there is one, with what is left of the one that is being written.\<close>

definition conn_write_poll :: "byte list \<Rightarrow> http_connection \<Rightarrow> (http_error + unit) poll \<times> byte list \<times> http_connection" where
  "conn_write_poll rest c =
     (case write_all_poll rest (io c) of
        (Pending, rest1, t) \<Rightarrow> (Pending, rest1, c\<lparr>io := t\<rparr>)
      | (Ready (Inl e), rest1, t) \<Rightarrow> (Ready (Inl (Http_Io e)), rest1, c\<lparr>io := t\<rparr>)
      | (Ready (Inr u), rest1, t) \<Rightarrow> (Ready (Inr ()), rest1, c\<lparr>io := t\<rparr>))"

datatype message_run = Ms_Head "byte list" | Ms_Body "byte list"

definition message_body_poll :: "byte list \<Rightarrow> http_connection \<Rightarrow> (http_error + unit) poll \<times> message_run \<times> http_connection" where
  "message_body_poll rest c = (case write_poll rest c of (p, rest1, c1) \<Rightarrow> (p, Ms_Body rest1, c1))"

fun message_poll ::
  "byte list \<Rightarrow> message_run \<Rightarrow> http_connection \<Rightarrow> (http_error + unit) poll \<times> message_run \<times> http_connection" where
  "message_poll body (Ms_Body rest) c = message_body_poll rest c"
| "message_poll body (Ms_Head rest) c =
     (case conn_write_poll rest c of
        (Pending, rest1, c1) \<Rightarrow> (Pending, Ms_Head rest1, c1)
      | (Ready (Inl e), rest1, c1) \<Rightarrow> (Ready (Inl e), Ms_Head rest1, c1)
      | (Ready (Inr u), rest1, c1) \<Rightarrow>
          if body = [] then (case conn_flush c1 of (r, c2) \<Rightarrow> (Ready r, Ms_Head [], c2))
          else message_body_poll body c1)"

fun message_rest :: "byte list \<Rightarrow> message_run \<Rightarrow> http_connection \<Rightarrow> (http_error + unit) \<times> http_connection" where
  "message_rest body (Ms_Body rest) c = write_raw rest c"
| "message_rest body (Ms_Head rest) c = write_message rest body c"

lemma conn_write_poll_stands:
  "conn_write_poll bs c = (Ready r, rest, c1) \<Longrightarrow> conn_write_all bs c = (r, c1)"
  "conn_write_poll bs c = (Pending, rest, c1) \<Longrightarrow> conn_write_all rest c1 = conn_write_all bs c \<and> conn_scripts c1 < conn_scripts c"
proof -
  assume "conn_write_poll bs c = (Ready r, rest, c1)"
  then show "conn_write_all bs c = (r, c1)"
    by (auto simp: conn_write_poll_def conn_write_all_def tr_write_all_def await_write_all.simps[of bs]
        split: prod.splits poll.splits sum.splits)
next
  assume "conn_write_poll bs c = (Pending, rest, c1)"
  then obtain t where t: "write_all_poll bs (io c) = (Pending, rest, t)" "c1 = c\<lparr>io := t\<rparr>"
    by (auto simp: conn_write_poll_def split: prod.splits poll.splits sum.splits)
  then show "conn_write_all rest c1 = conn_write_all bs c \<and> conn_scripts c1 < conn_scripts c"
    using write_all_poll_written[OF t(1)]
    by (auto simp: conn_write_all_def tr_write_all_def await_write_all.simps[of bs] conn_scripts_def
        split: prod.splits sum.splits)
qed

lemma conn_write_poll_sent:
  assumes "conn_write_poll bs c = (p, rest, c1)"
  shows "\<exists>sent. bs = sent @ rest \<and> outgoing (io c1) = outgoing (io c) @ sent \<and> incoming (io c1) = incoming (io c) \<and>
    conn_buf c1 = conn_buf c \<and> eof c1 = eof c \<and> conn_scripts c1 \<le> conn_scripts c \<and> (p = Ready (Inr ()) \<longrightarrow> rest = [])"
proof -
  obtain q r t where q: "write_all_poll bs (io c) = (q, r, t)" by (metis prod_cases3)
  then have "rest = r" "c1 = c\<lparr>io := t\<rparr>" "p = Ready (Inr ()) \<longrightarrow> q = Ready (Inr ())"
    using assms by (auto simp: conn_write_poll_def split: poll.splits sum.splits)
  then show ?thesis using write_all_poll_written[OF q] by (auto simp: conn_scripts_def)
qed

text \<open>What is left of a message, and what a poll of it has handed over.\<close>

fun unsent :: "byte list \<Rightarrow> message_run \<Rightarrow> byte list" where
  "unsent body (Ms_Head rest) = rest @ body"
| "unsent body (Ms_Body rest) = rest"

lemma message_body_sent:
  assumes "write_poll bs c = (p, rest, c1)"
  shows "\<exists>sent. bs = sent @ rest \<and> outgoing (io c1) = outgoing (io c) @ sent \<and> incoming (io c1) = incoming (io c) \<and>
    conn_buf c1 = conn_buf c \<and> eof c1 = eof c \<and> conn_scripts c1 \<le> conn_scripts c \<and> (p = Ready (Inr ()) \<longrightarrow> rest = [])"
proof -
  obtain q r t where q: "write_all_poll bs (io c) = (q, r, t)" by (metis prod_cases3)
  then have "rest = r" "c1 = c\<lparr>io := t\<rparr>" "p = Ready (Inr ()) \<longrightarrow> q = Ready (Inr ())"
    using assms by (auto simp: write_poll_def conn_flush_def split: poll.splits sum.splits)
  then show ?thesis using write_all_poll_written[OF q] by (auto simp: conn_scripts_def)
qed

lemma message_poll_sent:
  assumes "message_poll body s c = (p, s1, c1)"
  shows "\<exists>sent. unsent body s = sent @ unsent body s1 \<and> outgoing (io c1) = outgoing (io c) @ sent \<and>
    incoming (io c1) = incoming (io c) \<and> conn_buf c1 = conn_buf c \<and> eof c1 = eof c \<and> conn_scripts c1 \<le> conn_scripts c \<and>
    (p = Ready (Inr ()) \<longrightarrow> unsent body s1 = [])"
proof (cases s)
  case (Ms_Body rest)
  then show ?thesis using assms by (auto simp: message_body_poll_def dest!: message_body_sent split: prod.splits)
next
  case (Ms_Head rest)
  obtain q rest2 c2 where q: "conn_write_poll rest c = (q, rest2, c2)" by (metis prod_cases3)
  obtain sent where sent: "rest = sent @ rest2" "outgoing (io c2) = outgoing (io c) @ sent" "incoming (io c2) = incoming (io c)"
      "conn_buf c2 = conn_buf c" "eof c2 = eof c" "conn_scripts c2 \<le> conn_scripts c" "q = Ready (Inr ()) \<longrightarrow> rest2 = []"
    using conn_write_poll_sent[OF q] by blast
  show ?thesis
  proof (cases "q = Ready (Inr ()) \<and> body \<noteq> []")
    case True
    then obtain rest3 where "write_poll body c2 = (p, rest3, c1)" "s1 = Ms_Body rest3"
      using assms Ms_Head q by (auto simp: message_body_poll_def split: prod.splits)
    from message_body_sent[OF this(1)] this(2) sent True Ms_Head show ?thesis by auto
  next
    case False
    then show ?thesis
      using assms Ms_Head q sent by (auto simp: conn_flush_def split: poll.splits sum.splits if_splits)
  qed
qed

lemma message_poll_stands:
  "message_poll body s c = (Ready r, s1, c1) \<Longrightarrow> message_rest body s c = (r, c1)"
  "message_poll body s c = (Pending, s1, c1) \<Longrightarrow>
     message_rest body s1 c1 = message_rest body s c \<and> conn_scripts c1 < conn_scripts c"
proof -
  have both: "(message_poll body s c = (Ready r, s1, c1) \<longrightarrow> message_rest body s c = (r, c1)) \<and>
    (message_poll body s c = (Pending, s1, c1) \<longrightarrow>
       message_rest body s1 c1 = message_rest body s c \<and> conn_scripts c1 < conn_scripts c)" for r
  proof (cases s)
    case (Ms_Body rest)
    then show ?thesis using write_poll_stands[of rest c] by (auto simp: message_body_poll_def split: prod.splits)
  next
    case (Ms_Head rest)
    obtain q rest2 c2 where q: "conn_write_poll rest c = (q, rest2, c2)" by (metis prod_cases3)
    show ?thesis
    proof (cases "q = Ready (Inr ()) \<and> body \<noteq> []")
      case True
      obtain q3 rest3 c3 where q3: "write_poll body c2 = (q3, rest3, c3)" by (metis prod_cases3)
      have "write_message rest body c = write_raw body c2"
        using conn_write_poll_stands(1)[of rest c] q True by (simp add: write_message_def write_raw_def)
      moreover have "conn_scripts c2 \<le> conn_scripts c" using conn_write_poll_sent[OF q] by blast
      ultimately show ?thesis using True q q3 Ms_Head write_poll_stands[of body c2] by (auto simp: message_body_poll_def)
    next
      case False
      then show ?thesis
        using q Ms_Head conn_write_poll_stands[of rest c]
        by (auto simp: write_message_def conn_flush_def split: poll.splits sum.splits if_splits)
    qed
  qed
  show "message_poll body s c = (Ready r, s1, c1) \<Longrightarrow> message_rest body s c = (r, c1)"
    and "message_poll body s c = (Pending, s1, c1) \<Longrightarrow>
      message_rest body s1 c1 = message_rest body s c \<and> conn_scripts c1 < conn_scripts c"
    using both by blast+
qed

interpretation message: polled_function "message_poll body" "message_rest body" conn_scripts for body
  by unfold_locales (rule message_poll_stands; assumption)+

end
