(* ===== verification/Http_Runs.thy ===== *)
theory Http_Runs
  imports Http_Writes Http_Client
begin

text \<open>
  Whole exchanges poll by poll (\<open>body.rs\<close>, \<open>client.rs\<close> and \<open>server.rs\<close> of \<open>tpt-net-http\<close>):
  \<open>read_to_vec\<close>, \<open>ClientConnection::send\<close>, a handler that reads a body, and \<open>serve_connection\<close>, as the
  state machines that the async functions compile to.  Awaiting them is the run to completion of the
  other theories.
\<close>

lemma reads_only_scripts:
  "reads_only c c1 \<Longrightarrow> conn_scripts c1 \<le> conn_scripts c"
  "reads_only c c1 \<Longrightarrow> conn_script c1 < conn_script c \<Longrightarrow> conn_scripts c1 < conn_scripts c"
  by (simp_all add: reads_only_def conn_scripts_def conn_script_def)

lemma head_check_io: "head_check parse freeze c = Some (r, c1) \<Longrightarrow> io c1 = io c"
  by (auto simp: head_check_def split: sum.splits option.splits)

section \<open>read_to_vec\<close>

text \<open>Between polls it keeps the bytes that it has, and where the read of the body waits.\<close>

type_synonym vec_run = "byte list \<times> chunk_run"

lemma body_poll_size:
  assumes "(Ready (Inr bs), s1, br1, c1) = body_poll 8192 Ch_Top (br, c)" "bs \<noteq> []"
  shows "conn_size c1 < conn_size c"
  using body_stands(1)[OF assms(1)[symmetric]] body_read_size[of 8192 br c bs br1 c1] assms(2)
  by (simp add: body_rest_start)

function vec_poll ::
  "nat \<Rightarrow> byte list \<Rightarrow> chunk_run \<Rightarrow> body_state \<Rightarrow> (http_error + byte list) poll \<times> vec_run \<times> body_state" where
  "vec_poll m out s rc =
     (case body_poll 8192 s rc of
        (Pending, s1, rc1) \<Rightarrow> (Pending, (out, s1), rc1)
      | (Ready (Inl e), s1, rc1) \<Rightarrow> (Ready (Inl e), (out, Ch_Top), rc1)
      | (Ready (Inr bs), s1, rc1) \<Rightarrow>
          if bs = [] then (Ready (Inr out), (out, Ch_Top), rc1)
          else if m < length out + length bs then (Ready (Inl (Http_Parse ''body exceeds limit'')), (out, Ch_Top), rc1)
          else vec_poll m (out @ bs) Ch_Top rc1)"
  by pat_completeness auto
termination
  by (relation "measures [\<lambda>(m, out, s, rc). if s = Ch_Top then 0 else 1, \<lambda>(m, out, s, rc). conn_size (snd rc)]")
     (auto simp del: body_poll.simps dest!: body_poll_size)

declare vec_poll.simps [simp del]

fun vec_rest :: "nat \<Rightarrow> vec_run \<Rightarrow> body_state \<Rightarrow> byte list body_result" where
  "vec_rest m (out, s) rc =
     (case body_rest 8192 s rc of
        (Inl e, rc1) \<Rightarrow> (Inl e, rc1)
      | (Inr bs, br1, c1) \<Rightarrow>
          if bs = [] then (Inr out, br1, c1)
          else if m < length out + length bs then (Inl (Http_Parse ''body exceeds limit''), br1, c1)
          else read_to_vec_loop m (out @ bs) br1 c1)"

declare vec_rest.simps [simp del]

lemma vec_rest_start: "vec_rest m (out, Ch_Top) (br, c) = read_to_vec_loop m out br c"
  by (auto simp: vec_rest.simps body_rest_start read_to_vec_loop.simps[of m out br c] split: prod.splits sum.splits)

lemma vec_poll_stands:
  "(vec_poll m out s rc = (Ready r, v1, rc1) \<longrightarrow> vec_rest m (out, s) rc = (r, rc1)) \<and>
   (vec_poll m out s rc = (Pending, v1, rc1) \<longrightarrow> vec_rest m v1 rc1 = vec_rest m (out, s) rc) \<and>
   (vec_poll m out s rc = (p, v1, rc1) \<longrightarrow> reads_only (snd rc) (snd rc1)) \<and>
   (vec_poll m out s rc = (Pending, v1, rc1) \<longrightarrow> conn_script (snd rc1) < conn_script (snd rc))"
proof (induction m out s rc rule: vec_poll.induct)
  case (1 m out s rc)
  obtain q s2 br2 c2 where q: "body_poll 8192 s rc = (q, s2, br2, c2)" by (metis prod_cases4)
  have le: "reads_only (snd rc) c2" using body_poll_reads[of 8192 s "fst rc" "snd rc"] q by simp
  note V = vec_poll.simps[of m out s rc]
  show ?case
  proof (cases "\<exists>bs. q = Ready (Inr bs) \<and> bs \<noteq> [] \<and> \<not> m < length out + length bs")
    case True
    then obtain bs where bs: "q = Ready (Inr bs)" "bs \<noteq> []" "\<not> m < length out + length bs" by blast
    have "vec_poll m out s rc = vec_poll m (out @ bs) Ch_Top (br2, c2)" using q bs by (simp add: V)
    moreover have "vec_rest m (out, s) rc = vec_rest m (out @ bs, Ch_Top) (br2, c2)"
      using body_stands(1)[OF q[unfolded bs(1)]] bs by (simp add: vec_rest_start) (simp add: vec_rest.simps)
    ultimately show ?thesis
      using "1.IH"[OF q[symmetric] bs(1) refl refl bs(2,3)] le
      by (auto dest: reads_only_trans reads_only_script)
  next
    case False
    then show ?thesis
      using q le body_stands[of 8192 s rc]
      by (auto simp: V vec_rest.simps simp del: body_poll.simps split: poll.splits sum.splits if_splits)
  qed
qed

interpretation vec: polled_function "\<lambda>(out, s). vec_poll m out s" "vec_rest m" "\<lambda>rc. conn_script (snd rc)" for m
  by unfold_locales (use vec_poll_stands in \<open>auto split: prod.splits\<close>)

section \<open>The client\<close>

text \<open>\<open>ClientConnection::send\<close> writes the request, reads the head of the response, and frames its body.\<close>

datatype client_run = Cs_Start | Cs_Writing message_run | Cs_Reading fill_run

definition framed_response :: "client_request \<Rightarrow> response_head \<Rightarrow> http_error + response_head \<times> body_reader" where
  "framed_response q h =
     (case response_body h (eq_ignore_ascii_case (cq_method q) (ascii ''HEAD'')) of
        Inl e \<Rightarrow> Inl e
      | Inr br \<Rightarrow> Inr (h, br))"

type_synonym client_polled = "(http_error + response_head \<times> body_reader) poll \<times> client_run \<times> http_connection"

definition client_read_poll :: "client_request \<Rightarrow> fill_run \<Rightarrow> http_connection \<Rightarrow> client_polled" where
  "client_read_poll q s c =
     (case response_head_poll s c of
        (Pending, s1, c1) \<Rightarrow> (Pending, Cs_Reading s1, c1)
      | (Ready (Inl e), s1, c1) \<Rightarrow> (Ready (Inl e), Cs_Start, c1)
      | (Ready (Inr h), s1, c1) \<Rightarrow> (Ready (framed_response q h), Cs_Start, c1))"

definition client_write_poll :: "client_request \<Rightarrow> message_run \<Rightarrow> http_connection \<Rightarrow> client_polled" where
  "client_write_poll q s c =
     (case message_poll (cq_body q) s c of
        (Pending, s1, c1) \<Rightarrow> (Pending, Cs_Writing s1, c1)
      | (Ready (Inl e), s1, c1) \<Rightarrow> (Ready (Inl e), Cs_Start, c1)
      | (Ready (Inr u), s1, c1) \<Rightarrow> client_read_poll q Fill_Start c1)"

fun client_send_poll :: "client_request \<Rightarrow> byte list \<Rightarrow> client_run \<Rightarrow> http_connection \<Rightarrow> client_polled" where
  "client_send_poll q host Cs_Start c = client_write_poll q (Ms_Head (client_head q host)) c"
| "client_send_poll q host (Cs_Writing s) c = client_write_poll q s c"
| "client_send_poll q host (Cs_Reading s) c = client_read_poll q s c"

type_synonym client_result = "(http_error + response_head \<times> body_reader) \<times> http_connection"

abbreviation response_rest :: "fill_run \<Rightarrow> http_connection \<Rightarrow> response_head conn_result" where
  "response_rest \<equiv> buffered_rest (head_check parse_response_ranges response_from_ranges) (\<lambda>c. Inl Http_Connection_Closed)"

definition client_read_rest :: "client_request \<Rightarrow> fill_run \<Rightarrow> http_connection \<Rightarrow> client_result" where
  "client_read_rest q s c =
     (case response_rest s c of (Inl e, c1) \<Rightarrow> (Inl e, c1) | (Inr h, c1) \<Rightarrow> (framed_response q h, c1))"

definition client_write_rest :: "client_request \<Rightarrow> message_run \<Rightarrow> http_connection \<Rightarrow> client_result" where
  "client_write_rest q s c =
     (case message_rest (cq_body q) s c of
        (Inl e, c1) \<Rightarrow> (Inl e, c1)
      | (Inr u, c1) \<Rightarrow> client_read_rest q Fill_Start c1)"

fun client_rest :: "client_request \<Rightarrow> byte list \<Rightarrow> client_run \<Rightarrow> http_connection \<Rightarrow> client_result" where
  "client_rest q host Cs_Start c = client_send q host c"
| "client_rest q host (Cs_Writing s) c = client_write_rest q s c"
| "client_rest q host (Cs_Reading s) c = client_read_rest q s c"

lemma response_rest_start: "response_rest Fill_Start c = read_response_head c"
  by (simp add: buffered_rest_def read_response_head_run)

lemma client_send_rest: "client_send q host c = client_write_rest q (Ms_Head (client_head q host)) c"
  by (auto simp: client_send_def client_write_rest_def client_read_rest_def response_rest_start framed_response_def
      split: prod.splits sum.splits)

lemma response_head_poll_stands:
  "response_head_poll s c = (Ready r, s1, c1) \<Longrightarrow> response_rest s c = (r, c1)"
  "response_head_poll s c = (Pending, s1, c1) \<Longrightarrow> response_rest s1 c1 = response_rest s c \<and> conn_scripts c1 < conn_scripts c"
proof -
  note st = buffered_poll_stands[of "head_check parse_response_ranges response_from_ranges" "\<lambda>c. Inl Http_Connection_Closed" s c]
  show "response_head_poll s c = (Ready r, s1, c1) \<Longrightarrow> response_rest s c = (r, c1)"
    using st by (simp add: response_head_poll_def)
  assume p: "response_head_poll s c = (Pending, s1, c1)"
  then have "reads_only c c1" unfolding response_head_poll_def by (rule buffered_poll_reads) (rule head_check_io)
  then show "response_rest s1 c1 = response_rest s c \<and> conn_scripts c1 < conn_scripts c"
    using st p by (simp add: response_head_poll_def reads_only_scripts)
qed

lemma client_read_stands:
  "client_read_poll q s c = (Ready r, s1, c1) \<Longrightarrow> client_read_rest q s c = (r, c1)"
  "client_read_poll q s c = (Pending, s1, c1) \<Longrightarrow>
     client_rest q host s1 c1 = client_read_rest q s c \<and> conn_scripts c1 < conn_scripts c"
proof -
  obtain p s2 c2 where p: "response_head_poll s c = (p, s2, c2)" by (metis prod_cases3)
  note st = response_head_poll_stands[of s c, unfolded p]
  show "client_read_poll q s c = (Ready r, s1, c1) \<Longrightarrow> client_read_rest q s c = (r, c1)"
    using p st by (auto simp: client_read_poll_def client_read_rest_def split: poll.splits sum.splits)
  show "client_read_poll q s c = (Pending, s1, c1) \<Longrightarrow>
      client_rest q host s1 c1 = client_read_rest q s c \<and> conn_scripts c1 < conn_scripts c"
    using p st by (auto simp: client_read_poll_def client_read_rest_def split: poll.splits sum.splits)
qed

lemma client_write_stands:
  "(client_write_poll q s c = (Ready r, s1, c1) \<longrightarrow> client_write_rest q s c = (r, c1)) \<and>
   (client_write_poll q s c = (Pending, s1, c1) \<longrightarrow>
     client_rest q host s1 c1 = client_write_rest q s c \<and> conn_scripts c1 < conn_scripts c)"
proof -
  obtain p s2 c2 where p: "message_poll (cq_body q) s c = (p, s2, c2)" by (metis prod_cases3)
  have le: "conn_scripts c2 \<le> conn_scripts c" using message_poll_sent[OF p] by blast
  show ?thesis
    using p le message_poll_stands[of "cq_body q" s c] client_read_stands(1)[of q Fill_Start c2] client_read_stands(2)[of q Fill_Start c2 s1 c1 host]
    by (auto simp: client_write_poll_def client_write_rest_def split: poll.splits sum.splits)
qed

lemma client_send_poll_stands:
  "client_send_poll q host s c = (Ready r, s1, c1) \<Longrightarrow> client_rest q host s c = (r, c1)"
  "client_send_poll q host s c = (Pending, s1, c1) \<Longrightarrow>
     client_rest q host s1 c1 = client_rest q host s c \<and> conn_scripts c1 < conn_scripts c"
  by (cases s; simp add: client_send_rest client_read_stands client_write_stands)+

interpretation client_exchange: polled_function "client_send_poll q host" "client_rest q host" conn_scripts for q host
  by unfold_locales (rule client_send_poll_stands; assumption)+

section \<open>A handler\<close>

text \<open>While it waits, a handler waits in a read of its request's body.\<close>

primrec handler_poll ::
  "'h handler_run \<Rightarrow> vec_run \<Rightarrow> body_state \<Rightarrow> (response_data \<times> 'h) poll \<times> ('h handler_run \<times> vec_run) \<times> body_state" where
  "handler_poll (Respond r h) = (\<lambda>v rc. (Ready (r, h), (Respond r h, v), rc))"
| "handler_poll (Body_Bytes m k) =
     (\<lambda>v rc. case vec_poll m (fst v) (snd v) rc of
        (Pending, v1, rc1) \<Rightarrow> (Pending, (Body_Bytes m k, v1), rc1)
      | (Ready res, v1, rc1) \<Rightarrow> handler_poll (k res) ([], Ch_Top) rc1)"

fun handler_rest :: "'h handler_run \<Rightarrow> vec_run \<Rightarrow> body_state \<Rightarrow> response_data \<times> 'h \<times> body_state" where
  "handler_rest (Respond r h) v rc = (r, h, rc)"
| "handler_rest (Body_Bytes m k) v rc =
     (case vec_rest m v rc of (res, br1, c1) \<Rightarrow> run_handler (k res) br1 c1)"

lemma handler_rest_start: "handler_rest run ([], Ch_Top) (br, c) = run_handler run br c"
  by (cases run) (simp_all add: vec_rest_start read_to_vec_def)

lemma handler_poll_stands:
  "(handler_poll run v rc = (Ready (r, h), w, rc1) \<longrightarrow> handler_rest run v rc = (r, h, rc1)) \<and>
   (handler_poll run v rc = (Pending, w, rc1) \<longrightarrow> handler_rest (fst w) (snd w) rc1 = handler_rest run v rc) \<and>
   (handler_poll run v rc = (p, w, rc1) \<longrightarrow> reads_only (snd rc) (snd rc1)) \<and>
   (handler_poll run v rc = (Pending, w, rc1) \<longrightarrow> conn_script (snd rc1) < conn_script (snd rc))"
proof (induction run arbitrary: v rc)
  case (Respond x1 x2)
  then show ?case by (auto intro: reads_only_refl)
next
  case (Body_Bytes m k)
  obtain q v2 br2 c2 where q: "vec_poll m (fst v) (snd v) rc = (q, v2, br2, c2)" by (metis prod_cases4)
  note st = vec_poll_stands[of m "fst v" "snd v" rc _ v2 "(br2, c2)" q]
  show ?case
  proof (cases q)
    case Pending
    then show ?thesis using q st by auto
  next
    case (Ready res)
    have "handler_rest (Body_Bytes m k) v rc = handler_rest (k res) ([], Ch_Top) (br2, c2)"
      using st[of res] q Ready by (simp add: handler_rest_start)
    moreover have le: "reads_only (snd rc) c2" using st q by simp
    moreover have "handler_poll (Body_Bytes m k) v rc = handler_poll (k res) ([], Ch_Top) (br2, c2)"
      using q Ready by simp
    ultimately show ?thesis
      using Body_Bytes.IH[OF rangeI, of res "([], Ch_Top)" "(br2, c2)"] reads_only_script[OF le]
      by (auto simp del: handler_poll.simps handler_rest.simps dest: reads_only_trans)
  qed
qed

section \<open>The server\<close>

text \<open>
  One round of \<open>serve_connection\<close> reads a head, runs the handler and writes its response.  The last
  component of a writing state says whether the connection goes on after it.
\<close>

datatype 'h serve_run =
    Sv_Reading fill_run 'h
  | Sv_Handling bool "'h handler_run" vec_run body_reader
  | Sv_Writing "byte list" message_run 'h bool

datatype 'h serve_round = Served "http_error + unit" 'h | Again 'h

type_synonym 'h serve_polled = "'h serve_round poll \<times> 'h serve_run \<times> http_connection"

definition serve_write_poll :: "byte list \<Rightarrow> message_run \<Rightarrow> 'h \<Rightarrow> bool \<Rightarrow> http_connection \<Rightarrow> 'h serve_polled" where
  "serve_write_poll body s h go c =
     (case message_poll body s c of
        (Pending, s1, c1) \<Rightarrow> (Pending, Sv_Writing body s1 h go, c1)
      | (Ready (Inl e), s1, c1) \<Rightarrow> (Ready (Served (Inl e) h), Sv_Reading Fill_Start h, c1)
      | (Ready (Inr u), s1, c1) \<Rightarrow> (Ready (if go then Again h else Served (Inr ()) h), Sv_Reading Fill_Start h, c1))"

definition serve_handle_poll ::
  "bool \<Rightarrow> 'h handler_run \<Rightarrow> vec_run \<Rightarrow> body_reader \<Rightarrow> http_connection \<Rightarrow> 'h serve_polled" where
  "serve_handle_poll keep_alive run v br c =
     (case handler_poll run v (br, c) of
        (Pending, (run1, v1), br1, c1) \<Rightarrow> (Pending, Sv_Handling keep_alive run1 v1 br1, c1)
      | (Ready (response, h1), w, br1, c1) \<Rightarrow>
          serve_write_poll (resp_body response) (Ms_Head (head_of_response response)) h1 (keep_alive \<and> br_finished br1) c1)"

definition serve_read_poll :: "'h handler \<Rightarrow> fill_run \<Rightarrow> 'h \<Rightarrow> http_connection \<Rightarrow> 'h serve_polled" where
  "serve_read_poll f s h c =
     (case request_head_poll s c of
        (Pending, s1, c1) \<Rightarrow> (Pending, Sv_Reading s1 h, c1)
      | (Ready (Inl e), s1, c1) \<Rightarrow> (Ready (Served (Inl e) h), Sv_Reading Fill_Start h, c1)
      | (Ready (Inr None), s1, c1) \<Rightarrow> (Ready (Served (Inr ()) h), Sv_Reading Fill_Start h, c1)
      | (Ready (Inr (Some head)), s1, c1) \<Rightarrow>
          let keep_alive = keep_alive_requested head in
          (case request_body_kind (rq_headers head) of
             Inl e \<Rightarrow> (Ready (Served (Inl e) h), Sv_Reading Fill_Start h, c1)
           | Inr kind \<Rightarrow>
               serve_handle_poll keep_alive (f h (server_request_of head keep_alive)) ([], Ch_Top) (body_reader_new kind) c1))"

fun round_poll :: "'h handler \<Rightarrow> 'h serve_run \<Rightarrow> http_connection \<Rightarrow> 'h serve_polled" where
  "round_poll f (Sv_Reading s h) c = serve_read_poll f s h c"
| "round_poll f (Sv_Handling keep_alive run v br) c = serve_handle_poll keep_alive run v br c"
| "round_poll f (Sv_Writing body s h go) c = serve_write_poll body s h go c"

text \<open>The rest of a round.\<close>

definition write_rest :: "byte list \<Rightarrow> message_run \<Rightarrow> 'h \<Rightarrow> bool \<Rightarrow> http_connection \<Rightarrow> 'h serve_round \<times> http_connection" where
  "write_rest body s h go c =
     (case message_rest body s c of
        (Inl e, c1) \<Rightarrow> (Served (Inl e) h, c1)
      | (Inr u, c1) \<Rightarrow> (if go then Again h else Served (Inr ()) h, c1))"

definition handle_rest ::
  "bool \<Rightarrow> 'h handler_run \<Rightarrow> vec_run \<Rightarrow> body_reader \<Rightarrow> http_connection \<Rightarrow> 'h serve_round \<times> http_connection" where
  "handle_rest keep_alive run v br c =
     (case handler_rest run v (br, c) of
        (response, h1, br1, c1) \<Rightarrow>
          write_rest (resp_body response) (Ms_Head (head_of_response response)) h1 (keep_alive \<and> br_finished br1) c1)"

abbreviation request_rest :: "fill_run \<Rightarrow> http_connection \<Rightarrow> request_head option conn_result" where
  "request_rest \<equiv> buffered_rest (head_check parse_request_ranges (\<lambda>b r. Some (request_from_ranges b r)))
     (\<lambda>c. if conn_buf c = [] then Inr None else Inl Http_Connection_Closed)"

definition read_rest :: "'h handler \<Rightarrow> fill_run \<Rightarrow> 'h \<Rightarrow> http_connection \<Rightarrow> 'h serve_round \<times> http_connection" where
  "read_rest f s h c =
     (case request_rest s c of
        (Inl e, c1) \<Rightarrow> (Served (Inl e) h, c1)
      | (Inr None, c1) \<Rightarrow> (Served (Inr ()) h, c1)
      | (Inr (Some head), c1) \<Rightarrow>
          let keep_alive = keep_alive_requested head in
          (case request_body_kind (rq_headers head) of
             Inl e \<Rightarrow> (Served (Inl e) h, c1)
           | Inr kind \<Rightarrow>
               handle_rest keep_alive (f h (server_request_of head keep_alive)) ([], Ch_Top) (body_reader_new kind) c1))"

fun round_rest :: "'h handler \<Rightarrow> 'h serve_run \<Rightarrow> http_connection \<Rightarrow> 'h serve_round \<times> http_connection" where
  "round_rest f (Sv_Reading s h) c = read_rest f s h c"
| "round_rest f (Sv_Handling keep_alive run v br) c = handle_rest keep_alive run v br c"
| "round_rest f (Sv_Writing body s h go) c = write_rest body s h go c"

lemma request_rest_start: "request_rest Fill_Start c = read_request_head c"
  by (simp add: buffered_rest_def read_request_head_run)

text \<open>One step of a proof, as for bodies.\<close>

definition round_ok ::
  "'h handler \<Rightarrow> http_connection \<Rightarrow> 'h serve_round \<times> http_connection \<Rightarrow> 'h serve_polled \<Rightarrow> bool" where
  "round_ok f c res p \<longleftrightarrow>
     (\<forall>r s1 c1. p = (Ready r, s1, c1) \<longrightarrow> res = (r, c1) \<and> conn_scripts c1 \<le> conn_scripts c) \<and>
     (\<forall>s1 c1. p = (Pending, s1, c1) \<longrightarrow> round_rest f s1 c1 = res \<and> conn_scripts c1 < conn_scripts c)"

lemma round_ok_mono: "round_ok f c1 res p \<Longrightarrow> conn_scripts c1 \<le> conn_scripts c \<Longrightarrow> round_ok f c res p"
  unfolding round_ok_def by fastforce

lemma serve_write_ok: "round_ok f c (write_rest body s h go c) (serve_write_poll body s h go c)"
proof -
  obtain p s1 c1 where p: "message_poll body s c = (p, s1, c1)" by (metis prod_cases3)
  have "conn_scripts c1 \<le> conn_scripts c" using message_poll_sent[OF p] by blast
  then show ?thesis
    using p message_poll_stands[of body s c]
    by (auto simp: round_ok_def serve_write_poll_def write_rest_def split: poll.splits sum.splits)
qed

lemma serve_handle_ok:
  "round_ok f c (handle_rest keep_alive run v br c) (serve_handle_poll keep_alive run v br c)"
proof -
  obtain p w br1 c1 where p: "handler_poll run v (br, c) = (p, w, br1, c1)" by (metis prod_cases4)
  have st: "p = Ready (r, h) \<Longrightarrow> handler_rest run v (br, c) = (r, h, br1, c1)"
      "p = Pending \<Longrightarrow> handler_rest (fst w) (snd w) (br1, c1) = handler_rest run v (br, c)"
      "reads_only c c1" "p = Pending \<Longrightarrow> conn_script c1 < conn_script c" for r h
    using handler_poll_stands[of run v "(br, c)" r h w "(br1, c1)" p] p by simp_all
  show ?thesis
  proof (cases p)
    case Pending
    then show ?thesis
      using p st reads_only_scripts(2)[OF st(3)]
      by (cases w) (simp add: round_ok_def serve_handle_poll_def handle_rest_def)
  next
    case (Ready rh)
    then obtain r h where rh: "p = Ready (r, h)" by (cases rh) auto
    show ?thesis
      using round_ok_mono[OF serve_write_ok reads_only_scripts(1)[OF st(3)]] p rh st(1)[OF rh]
      by (simp add: serve_handle_poll_def handle_rest_def)
  qed
qed

lemma serve_read_ok: "round_ok f c (read_rest f s h c) (serve_read_poll f s h c)"
proof -
  obtain p s1 c1 where p: "request_head_poll s c = (p, s1, c1)" by (metis prod_cases3)
  have le: "reads_only c c1"
    using p unfolding request_head_poll_def by (rule buffered_poll_reads) (rule head_check_io)
  have st: "p = Ready r \<Longrightarrow> request_rest s c = (r, c1)"
      "p = Pending \<Longrightarrow> request_rest s1 c1 = request_rest s c \<and> conn_script c1 < conn_script c" for r
    using buffered_poll_stands[of "head_check parse_request_ranges (\<lambda>b r. Some (request_from_ranges b r))"
        "\<lambda>c. if conn_buf c = [] then Inr None else Inl Http_Connection_Closed" s c] p
    by (simp_all add: request_head_poll_def)
  show ?thesis
  proof (cases "\<exists>head kind. p = Ready (Inr (Some head)) \<and> request_body_kind (rq_headers head) = Inr kind")
    case True
    then obtain head kind where hk: "p = Ready (Inr (Some head))" "request_body_kind (rq_headers head) = Inr kind" by blast
    show ?thesis
      using round_ok_mono[OF serve_handle_ok reads_only_scripts(1)[OF le]] p hk st(1)[OF hk(1)]
      by (simp add: serve_read_poll_def read_rest_def Let_def)
  next
    case False
    then show ?thesis
      using p st reads_only_scripts[OF le]
      by (auto simp: round_ok_def serve_read_poll_def read_rest_def Let_def
          split: poll.splits sum.splits option.splits)
  qed
qed

lemma round_poll_ok: "round_ok f c (round_rest f s c) (round_poll f s c)"
  by (cases s) (simp_all add: serve_write_ok serve_handle_ok serve_read_ok)

lemma serve_loop_rounds:
  "serve_loop f h c =
     (case read_rest f Fill_Start h c of
        (Served r h1, c1) \<Rightarrow> (r, h1, c1)
      | (Again h1, c1) \<Rightarrow> serve_loop f h1 c1)"
  unfolding serve_loop.simps[of f h c] read_rest_def request_rest_start handle_rest_def handler_rest_start write_rest_def
  by (auto simp: Let_def split: prod.splits sum.splits option.splits)

text \<open>A round that goes on has used up a head.\<close>

lemma round_again_size:
  assumes "round_poll f (Sv_Reading Fill_Start h) c = (Ready (Again h1), s1, c1)"
  shows "conn_size c1 < conn_size c"
proof -
  have "read_rest f Fill_Start h c = (Again h1, c1)"
    using assms round_poll_ok[of f c "Sv_Reading Fill_Start h"] by (simp add: round_ok_def)
  then show ?thesis
    unfolding read_rest_def request_rest_start handle_rest_def handler_rest_start write_rest_def
    by (auto simp: Let_def dest!: read_request_head_size run_handler_size_le write_message_size
        split: prod.splits sum.splits option.splits if_splits)
qed

fun fresh_round :: "'h serve_run \<Rightarrow> bool" where
  "fresh_round (Sv_Reading Fill_Start h) = True"
| "fresh_round s = False"

function serve_poll ::
  "'h handler \<Rightarrow> 'h serve_run \<Rightarrow> http_connection \<Rightarrow> ((http_error + unit) \<times> 'h) poll \<times> 'h serve_run \<times> http_connection" where
  "serve_poll f s c =
     (case round_poll f s c of
        (Pending, s1, c1) \<Rightarrow> (Pending, s1, c1)
      | (Ready (Served r h), s1, c1) \<Rightarrow> (Ready (r, h), s1, c1)
      | (Ready (Again h), s1, c1) \<Rightarrow> serve_poll f (Sv_Reading Fill_Start h) c1)"
  by pat_completeness auto
termination
proof (relation "measures [\<lambda>(f, s, c). if fresh_round s then 0 else 1, \<lambda>(f, s, c). conn_size c]")
  fix f :: "'h handler" and s c x y s1 c1 r h
  assume "(x, y) = round_poll f s c" "(s1, c1) = y" "x = Ready r" "r = Again h"
  then have p: "round_poll f s c = (Ready (Again h), s1, c1)" by simp
  show "((f, Sv_Reading Fill_Start h, c1), f, s, c)
      \<in> measures [\<lambda>(f, s, c). if fresh_round s then 0 else 1, \<lambda>(f, s, c). conn_size c]"
    using p round_again_size[of f _ c h s1 c1] by (cases s rule: fresh_round.cases) auto
qed simp

declare serve_poll.simps [simp del]

definition serve_rest :: "'h handler \<Rightarrow> 'h serve_run \<Rightarrow> http_connection \<Rightarrow> ((http_error + unit) \<times> 'h) \<times> http_connection" where
  "serve_rest f s c =
     (case round_rest f s c of
        (Served r h, c1) \<Rightarrow> ((r, h), c1)
      | (Again h, c1) \<Rightarrow> (case serve_loop f h c1 of (r, h1, c2) \<Rightarrow> ((r, h1), c2)))"

lemma serve_rest_start: "serve_rest f (Sv_Reading Fill_Start h) c = (case serve_loop f h c of (r, h1, c1) \<Rightarrow> ((r, h1), c1))"
  by (auto simp: serve_rest_def serve_loop_rounds[of f h c] split: prod.splits serve_round.splits)

lemma serve_poll_stands:
  "(serve_poll f s c = (Ready r, s1, c1) \<longrightarrow> serve_rest f s c = (r, c1)) \<and>
   (serve_poll f s c = (Pending, s1, c1) \<longrightarrow> serve_rest f s1 c1 = serve_rest f s c \<and> conn_scripts c1 < conn_scripts c)"
proof (induction f s c rule: serve_poll.induct)
  case (1 f s c)
  obtain p s2 c2 where p: "round_poll f s c = (p, s2, c2)" by (metis prod_cases3)
  note ok = round_poll_ok[of f c s, unfolded p round_ok_def]
  show ?case
  proof (cases "\<exists>h. p = Ready (Again h)")
    case True
    then obtain h where h: "p = Ready (Again h)" by blast
    have "serve_poll f s c = serve_poll f (Sv_Reading Fill_Start h) c2" using p h by (simp add: serve_poll.simps[of f s c])
    moreover have "serve_rest f s c = serve_rest f (Sv_Reading Fill_Start h) c2"
      using ok h by (simp add: serve_rest_start) (simp add: serve_rest_def)
    ultimately show ?thesis using "1.IH"[OF p[symmetric] h refl refl] ok h by auto
  next
    case False
    then show ?thesis
      using p ok by (auto simp: serve_poll.simps[of f s c] serve_rest_def split: poll.splits serve_round.splits)
  qed
qed

interpretation server: polled_function "serve_poll f" "serve_rest f" conn_scripts for f
  by unfold_locales (use serve_poll_stands in blast)+

section \<open>Property\<close>

text \<open>
  Awaited to the end, the state machines of a whole message, of a body read, of a client's exchange and
  of a server's connection do what the run-to-completion functions do, however reads and writes stall;
  in particular each await ends.
\<close>

theorem exchange_polls_are_runs:
  "await_future (message_poll body) (Ms_Head head) c = Some (write_message head body c) \<and>
   await_future (\<lambda>(out, s). vec_poll m out s) ([], Ch_Top) (br, c) = Some (read_to_vec m br c) \<and>
   await_future (client_send_poll q host) Cs_Start c = Some (client_send q host c) \<and>
   await_future (serve_poll f) (Sv_Reading Fill_Start h) (conn_new t) =
     Some (case serve_connection f h t of (r, h1, c1) \<Rightarrow> ((r, h1), c1))"
  using message.await[of body "Ms_Head head" c] vec.await[of m "([], Ch_Top)" "(br, c)"]
    client_exchange.await[of q host Cs_Start c] server.await[of f "Sv_Reading Fill_Start h" "conn_new t"]
  by (simp add: vec_rest_start read_to_vec_def serve_rest_start serve_connection_def)

end
