(* ===== verification/Http_Stream.thy ===== *)
theory Http_Stream
  imports Http_Body Http_Heads
begin

text \<open>
  What the readers of a connection make of the peer's bytes, whatever chunks the transport
  delivers them in: lines, expected bytes, heads, and whole bodies.
\<close>

section \<open>Lines and fixed bytes\<close>

text \<open>
  A connection that has not seen the end, and has the same output as another.  The head limit
  applies to the whole buffer, so the readers also keep the buffer within it.
\<close>

definition clean :: "http_connection \<Rightarrow> bool" where
  "clean c \<longleftrightarrow> (\<forall>ev \<in> set (incoming (io c)). case ev of Read_Error e \<Rightarrow> False | _ \<Rightarrow> True)"

lemma tr_read_clean:
  "tr_read cap t = (r, t1) \<Longrightarrow> (\<forall>ev \<in> set (incoming t). case ev of Read_Error e \<Rightarrow> False | _ \<Rightarrow> True) \<Longrightarrow>
     \<not> isl r \<and> (\<forall>ev \<in> set (incoming t1). case ev of Read_Error e \<Rightarrow> False | _ \<Rightarrow> True)"
proof (induction cap t rule: tr_read.induct)
  case (1 cap t)
  obtain p t2 where p: "tr_poll_read cap t = (p, t2)" by fastforce
  have poll: "(\<forall>ev \<in> set (incoming t2). case ev of Read_Error e \<Rightarrow> False | _ \<Rightarrow> True) \<and>
      (case p of Ready (Inl e) \<Rightarrow> False | _ \<Rightarrow> True)"
    using p "1.prems"(2) by (auto simp: tr_poll_read.simps split: list.splits read_event.splits if_splits)
  show ?case
  proof (cases p)
    case Pending
    then have "tr_read cap t2 = (r, t1)" using "1.prems"(1) p by (subst (asm) tr_read.simps) simp
    from "1.IH"[OF p[symmetric] Pending this] poll show ?thesis by simp
  next
    case (Ready x)
    then have "r = x" "t1 = t2" using "1.prems"(1) p by (simp_all add: tr_read.simps)
    then show ?thesis using poll Ready by (cases x) auto
  qed
qed

definition stays :: "http_connection \<Rightarrow> http_connection \<Rightarrow> bool" where
  "stays c c1 \<longleftrightarrow> \<not> eof c1 \<and> outgoing (io c1) = outgoing (io c) \<and> writable c1 = writable c \<and>
     (clean c \<longrightarrow> clean c1)"

definition buf_small :: "http_connection \<Rightarrow> bool" where
  "buf_small c \<longleftrightarrow> length (conn_buf c) \<le> max_head"

definition reads_from :: "http_connection \<Rightarrow> http_connection \<Rightarrow> bool" where
  "reads_from c c1 \<longleftrightarrow> stays c c1 \<and> (buf_small c \<longrightarrow> buf_small c1)"

lemma stays_trans: "stays c c1 \<Longrightarrow> stays c1 c2 \<Longrightarrow> stays c c2"
  by (simp add: stays_def)

lemma reads_from_eof: "reads_from c c1 \<Longrightarrow> \<not> eof c1"
  by (simp add: reads_from_def stays_def)

lemma reads_from_refl: "\<not> eof c \<Longrightarrow> reads_from c c"
  by (simp add: reads_from_def stays_def)

lemma reads_from_trans: "reads_from c c1 \<Longrightarrow> reads_from c1 c2 \<Longrightarrow> reads_from c c2"
  by (simp add: reads_from_def stays_def)

lemma reads_from_after:
  "stays c c1 \<Longrightarrow> (buf_small c \<Longrightarrow> buf_small c1) \<Longrightarrow> reads_from c1 c2 \<Longrightarrow> reads_from c c2"
  by (simp add: reads_from_def stays_def)

lemma read_raw_some:
  assumes "conn_bytes c \<noteq> []" "0 < cap" "\<not> eof c"
  shows "\<exists>bs c1. read_raw cap c = (Inr bs, c1) \<and> bs \<noteq> [] \<and> length bs \<le> cap \<and>
    conn_bytes c = bs @ conn_bytes c1 \<and> reads_from c c1"
proof -
  obtain r c1 where r: "read_raw cap c = (r, c1)" by fastforce
  have "eof c1 = eof c" "length (conn_buf c1) \<le> length (conn_buf c)"
    using r by (auto simp: read_raw_def Let_def split: prod.splits sum.splits if_splits)
  moreover have "clean c \<longrightarrow> clean c1"
    using r by (auto simp: read_raw_def clean_def Let_def dest!: tr_read_clean
        split: prod.splits sum.splits if_splits)
  ultimately show ?thesis
    using read_raw_bytes[OF r assms(2)] assms(1,3) r
    by (auto simp: reads_from_def stays_def buf_small_def split: sum.splits if_splits)
qed

lemma conn_fill_some:
  assumes "conn_bytes c \<noteq> conn_buf c" "\<not> eof c"
  shows "\<exists>n c1. conn_fill c = (Inr n, c1) \<and> n \<noteq> 0 \<and> conn_bytes c1 = conn_bytes c \<and> stays c c1 \<and>
    length (conn_buf c1) \<le> length (conn_buf c) + read_chunk"
proof -
  obtain r t1 where r: "tr_read read_chunk (io c) = (r, t1)" by fastforce
  have "0 < read_chunk" by (simp add: read_chunk_def)
  from tr_read_bytes[OF r this] tr_read_clean[OF r] assms r show ?thesis
    by (auto simp: conn_fill_def conn_bytes_def stays_def writable_def clean_def split: sum.splits if_splits)
qed

lemma crlf_position_prefix:
  assumes "b @ p = line @ 13 # 10 # rest" "13 \<notin> set line"
  shows "crlf_position b = (if length line + 2 \<le> length b then Some (length line) else None)"
proof (cases "length line + 2 \<le> length b")
  case True
  have "take (length line + 2) b = take (length line + 2) (line @ 13 # 10 # rest)"
    using True by (simp flip: assms(1))
  then have "take (length line + 2) b = line @ [13, 10]" by simp
  then have "b = line @ 13 # 10 # drop (length line + 2) b"
    by (metis append.assoc append_Cons append_Nil append_take_drop_id)
  then show ?thesis using True crlf_position_append[OF assms(2)] by metis
next
  case False
  have b: "b = take (length b) (line @ 13 # 10 # rest)" by (simp flip: assms(1))
  show ?thesis
  proof (cases "length b \<le> length line")
    case True
    then have "set b \<subseteq> set line" using b by (metis set_take_subset take_append diff_is_0_eq' take0 append.right_neutral)
    then show ?thesis using False crlf_position_none[of b] assms(2) by auto
  next
    case short: False
    then have "length b = length line + 1" using False by simp
    then have "b = line @ [13]" using b by simp
    moreover have "crlf_position (line @ [13]) = None"
      using assms(2)
    proof (induction line)
      case (Cons a line)
      then show ?case by (cases line) auto
    qed simp
    ultimately show ?thesis using False by simp
  qed
qed

lemma read_line_bytes:
  "conn_bytes c = line @ 13 # 10 # rest \<Longrightarrow> 13 \<notin> set line \<Longrightarrow> \<not> eof c \<Longrightarrow>
     length line + 1 + read_chunk \<le> max_head \<Longrightarrow>
     \<exists>c1. read_line c = (Inr line, c1) \<and> conn_bytes c1 = rest \<and> reads_from c c1"
proof (induction c rule: read_line.induct)
  case (1 c)
  have b: "conn_buf c @ pending_bytes (incoming (io c)) = line @ 13 # 10 # rest"
    using "1.prems"(1) by (simp add: conn_bytes_def)
  note pos = crlf_position_prefix[OF b "1.prems"(2)]
  show ?case
  proof (cases "length line + 2 \<le> length (conn_buf c)")
    case True
    have tk: "take (length line) (conn_buf c) = line"
      using True b by (metis (no_types, lifting) append_eq_conv_conj le_add1 le_trans take_append take_take min_def diff_is_0_eq' take0 append_Nil2)
    have "drop (length line + 2) (conn_buf c @ pending_bytes (incoming (io c))) = rest" unfolding b by simp
    then have dr: "drop (length line + 2) (conn_buf c) @ pending_bytes (incoming (io c)) = rest" using True by simp
    let ?c1 = "c\<lparr>conn_buf := drop (length line + 2) (conn_buf c)\<rparr>"
    have "read_line c = (Inr line, ?c1)"
      using True pos tk by (subst read_line.simps) simp
    moreover have "conn_bytes ?c1 = rest" using dr by (simp add: conn_bytes_def)
    moreover have "reads_from c ?c1"
      using "1.prems"(3) by (auto simp: reads_from_def stays_def buf_small_def writable_def clean_def)
    ultimately show ?thesis by blast
  next
    case False
    then have none: "crlf_position (conn_buf c) = None" using pos by simp
    have ne: "conn_bytes c \<noteq> conn_buf c"
      using False "1.prems"(1) by (auto dest: arg_cong[of _ _ length])
    obtain n c2 where c2: "conn_fill c = (Inr n, c2)" "n \<noteq> 0" "conn_bytes c2 = conn_bytes c" "stays c c2"
        "length (conn_buf c2) \<le> length (conn_buf c) + read_chunk"
      using conn_fill_some[OF ne "1.prems"(3)] by blast
    have small: "buf_small c2" using c2(5) False "1.prems"(4) by (simp add: buf_small_def)
    have nd: "\<not> (conn_buf c = [] \<and> eof c)" using "1.prems"(3) by simp
    have eq: "read_line c = read_line c2"
      using none c2(1,2) "1.prems"(3) by (subst read_line.simps) simp
    have "\<not> eof c2" using c2(4) by (simp add: stays_def)
    from "1.IH"[OF none nd c2(1)[symmetric] refl c2(2) _ "1.prems"(2) this "1.prems"(4)] c2(3) "1.prems"(1)
    show ?thesis unfolding eq using reads_from_after[OF c2(4) small] by auto
  qed
qed

lemma expect_loop_bytes:
  "conn_bytes c = es @ rest \<Longrightarrow> length got + length es = want \<Longrightarrow> \<not> eof c \<Longrightarrow>
     \<exists>c1. expect_loop want got c = (Inr (got @ es), c1) \<and> conn_bytes c1 = rest \<and> reads_from c c1"
proof (induction want got c arbitrary: es rule: expect_loop.induct)
  case (1 want got c)
  show ?case
  proof (cases "es = []")
    case True
    then show ?thesis using "1.prems" by (subst expect_loop.simps) (auto intro: reads_from_refl)
  next
    case False
    then have w: "\<not> want \<le> length got" "0 < want - length got" "want - length got = length es"
      using "1.prems"(2) by (cases es; simp)+
    obtain bs c2 where bs: "read_raw (want - length got) c = (Inr bs, c2)" "bs \<noteq> []"
        "length bs \<le> want - length got" "conn_bytes c = bs @ conn_bytes c2" "reads_from c c2"
      using read_raw_some[of c "want - length got"] "1.prems" False w(2) by auto
    have es: "es = bs @ drop (length bs) es" "conn_bytes c2 = drop (length bs) es @ rest"
    proof -
      have "take (length bs) (es @ rest) = bs" using bs(4) "1.prems"(1) by (metis append_eq_conv_conj)
      then have tk: "take (length bs) es = bs" using bs(3) w(3) by simp
      then show es1: "es = bs @ drop (length bs) es" by (metis append_take_drop_id)
      have "bs @ conn_bytes c2 = bs @ drop (length bs) es @ rest"
        using bs(4) "1.prems"(1) es1 by (metis append.assoc)
      then show "conn_bytes c2 = drop (length bs) es @ rest" by simp
    qed
    have eq: "expect_loop want got c = expect_loop want (got @ bs) c2"
      using w(1) bs(1,2) by (subst expect_loop.simps) simp
    have ne: "\<not> eof c2" using bs(5) by (rule reads_from_eof)
    have len: "length (got @ bs) + length (drop (length bs) es) = want"
      using "1.prems"(2) bs(3) w(3) by simp
    from "1.IH"[OF w(1) bs(1)[symmetric] refl bs(2) es(2) len ne] bs(5) es(1)
    show ?thesis unfolding eq using reads_from_trans by (metis append.assoc)
  qed
qed

lemma expect_exact_bytes:
  assumes "conn_bytes c = es @ rest" "\<not> eof c"
  shows "\<exists>c1. expect_exact es c = (Inr (), c1) \<and> conn_bytes c1 = rest \<and> reads_from c c1"
  using expect_loop_bytes[OF assms(1), of "[]" "length es"] assms(2) by (auto simp: expect_exact_def)

section \<open>Heads\<close>

lemma find_upt_Some_iff:
  "find P [0..<n] = Some i \<longleftrightarrow> i < n \<and> P i \<and> (\<forall>j<i. \<not> P j)"
  by (auto simp: find_Some_iff)

lemma find_upt_None_iff: "find P [0..<n] = None \<longleftrightarrow> (\<forall>j<n. \<not> P j)"
  by (auto simp: find_None_iff)

lemma memchr_prefix:
  assumes "memchr_find h d = Some (length h - length d)" "n < length h"
  shows "memchr_find (take n h) d = None"
proof (cases "memchr_find (take n h) d")
  case (Some i)
  then have i: "i + length d \<le> n" "take (length d) (drop i (take n h)) = d"
    using assms(2) memchr_find_bound[OF Some]
    by (auto simp: memchr_find_def find_upt_Some_iff split: if_splits simp del: upt_Suc)
  then have "take (length d) (drop i h) = d" by (simp add: drop_take)
  moreover have "i < length h - length d" using i(1) assms(2) by simp
  ultimately show ?thesis
    using assms(1) by (auto simp: memchr_find_def find_upt_Some_iff split: if_splits simp del: upt_Suc)
qed simp

lemma windows2_step: "windows2 (a # b # xs) = (a, b) # windows2 (b # xs)"
  by (simp add: windows2_def)

lemma windows2_mono: "set (windows2 xs) \<subseteq> set (windows2 (xs @ ys))"
proof (induction xs rule: induct_list012)
  case (3 a b xs)
  then show ?case unfolding append_Cons windows2_step by auto
qed (simp_all add: windows2_def)

lemma windows2_take: "set (windows2 (take n xs)) \<subseteq> set (windows2 xs)"
  using windows2_mono[of "take n xs" "drop n xs"] by simp

lemma find_head_end_prefix:
  assumes "13 \<notin> set first" "10 \<notin> set first" "list_all header_ok hs"
    and "length (render_lines first hs) \<le> max_head" "n < length (render_lines first hs)"
  shows "find_head_end (take n (render_lines first hs)) = Inr None"
proof -
  let ?H = "joined first (map header_line hs)" and ?R = "render_lines first hs"
  have line: "13 \<notin> set l \<and> 10 \<notin> set l \<and> l \<noteq> [] \<and> \<not> is_ows (hd l)" if lm: "l \<in> set (map header_line hs)" for l
    using header_line_plain[OF assms(3) lm] .
  have "memchr_find ?R header_delim = Some (length ?R - length header_delim)"
    using memchr_joined[OF assms(1), of "map header_line hs" "[]"] line by (simp add: render_lines_def)
  from memchr_prefix[OF this assms(5)] have m: "memchr_find (take n ?R) header_delim = None" .
  have nof: "(10, b) \<notin> set (windows2 (take k (take n ?R)))" if b: "is_ows b" for b k
  proof -
    have "(10, b) \<notin> set (windows2 ?H)"
      by (intro joined_no_fold) (use assms(2) line b in \<open>auto simp: is_ows_def\<close>)
    moreover have "(10, b) \<notin> set (windows2 header_delim)" "b \<noteq> 13"
      using b by (auto simp: windows2_def header_delim_def is_ows_def)
    ultimately have "(10, b) \<notin> set (windows2 ?R)"
      using windows2_append[of ?H header_delim] by (auto simp: render_lines_def header_delim_def split: if_splits)
    then have "(10, b) \<notin> set (windows2 (take n ?R))" by (rule contra_subsetD[OF windows2_take])
    then show ?thesis by (rule contra_subsetD[OF windows2_take])
  qed
  have "(10, 32) \<notin> set (windows2 (take k (take n ?R)))" "(10, 9) \<notin> set (windows2 (take k (take n ?R)))" for k
    using nof[of 32 k] nof[of 9 k] by (simp_all add: is_ows_def)
  moreover have "(10, 32) \<notin> set (windows2 [])" "(10, 9) \<notin> set (windows2 [])" by (simp_all add: windows2_def)
  ultimately show ?thesis
    using m assms(4,5) unfolding find_head_end_def Let_def m by (auto split: option.splits)
qed

lemma parse_request_prefix:
  assumes "request_ok m t hs" "length (render_lines (request_line m t v) hs) \<le> max_head"
    and "n < length (render_lines (request_line m t v) hs)"
  shows "parse_request_ranges (take n (render_lines (request_line m t v) hs)) = Inr None"
proof -
  have plain: "13 \<notin> set (request_line m t v)" "10 \<notin> set (request_line m t v)"
    using assms(1) tchar_plain[of m]
    by (cases v; auto simp: request_ok_def request_line_def version_bytes_def version_bytes_simps)+
  have "list_all header_ok hs" using assms(1) by (simp add: request_ok_def)
  from find_head_end_prefix[OF plain this assms(2,3)] show ?thesis by (simp add: parse_request_ranges_def)
qed

lemma read_request_head_bytes:
  assumes "request_ok m t hs" "length (render_lines (request_line m t v) hs) + read_chunk \<le> max_head"
    and "buf_small c" "\<not> eof c"
    and "conn_bytes c = render_lines (request_line m t v) hs @ rest"
  shows "\<exists>h c1. read_request_head c = (Inr (Some h), c1) \<and> conn_bytes c1 = rest \<and> reads_from c c1 \<and>
    rq_method h = m \<and> rq_target h = t \<and> rq_version h = v \<and> hb_iter (rq_headers h) = hs"
  using assms(3-5)
proof (induction c rule: read_request_head.induct)
  case (1 c)
  let ?head = "render_lines (request_line m t v) hs"
  have b: "conn_buf c @ pending_bytes (incoming (io c)) = ?head @ rest"
    using "1.prems"(3) by (simp add: conn_bytes_def)
  show ?case
  proof (cases "length ?head \<le> length (conn_buf c)")
    case True
    then have buf: "conn_buf c = ?head @ drop (length ?head) (conn_buf c)"
      using b by (metis append_eq_append_conv_if append_take_drop_id)
    have len: "length (?head @ drop (length ?head) (conn_buf c)) \<le> max_head"
      using "1.prems"(1) buf by (simp add: buf_small_def)
    obtain r where r: "parse_request_ranges (conn_buf c) = Inr (Some r)" "hr_consumed r = length ?head"
        "let h = request_from_ranges ?head r in
         rq_method h = m \<and> rq_target h = t \<and> rq_version h = v \<and> hb_iter (rq_headers h) = hs"
      using parse_rendered_request[OF assms(1) len] buf by metis
    let ?c1 = "c\<lparr>conn_buf := drop (length ?head) (conn_buf c)\<rparr>"
    have tk: "take (length ?head) (conn_buf c) = ?head" using buf by (metis append_eq_conv_conj)
    have "read_request_head c = (Inr (Some (request_from_ranges ?head r)), ?c1)"
      using r(1,2) tk by (subst read_request_head.simps) simp
    moreover have "conn_bytes ?c1 = rest"
      using b True by (simp add: conn_bytes_def) (metis append_eq_append_conv_if)
    moreover have "reads_from c ?c1"
      using "1.prems"(2) by (auto simp: reads_from_def stays_def buf_small_def writable_def clean_def)
    ultimately show ?thesis using r(3) by (auto simp: Let_def)
  next
    case False
    then have "conn_buf c = take (length (conn_buf c)) ?head"
      using b by (metis append_eq_append_conv_if append_eq_conv_conj linear)
    then have none: "parse_request_ranges (conn_buf c) = Inr None"
      using parse_request_prefix[OF assms(1), of v "length (conn_buf c)"] False assms(2) by simp
    have ne: "conn_bytes c \<noteq> conn_buf c"
      using False "1.prems"(3) by (auto dest: arg_cong[of _ _ length])
    obtain n c2 where c2: "conn_fill c = (Inr n, c2)" "n \<noteq> 0" "conn_bytes c2 = conn_bytes c" "stays c c2"
        "length (conn_buf c2) \<le> length (conn_buf c) + read_chunk"
      using conn_fill_some[OF ne "1.prems"(2)] by blast
    have small: "buf_small c2" using c2(5) False assms(2) by (simp add: buf_small_def)
    have eq: "read_request_head c = read_request_head c2"
      using none c2(1,2) by (subst read_request_head.simps) simp
    have ne2: "\<not> eof c2" using c2(4) by (simp add: stays_def)
    from "1.IH"[OF none refl c2(1)[symmetric] refl c2(2) small ne2] c2(3) "1.prems"(3)
    show ?thesis unfolding eq using reads_from_after[OF c2(4) small] by auto
  qed
qed

section \<open>Responses\<close>

lemma conn_fill_frame: "conn_fill c = (r, c1) \<Longrightarrow> outgoing (io c1) = outgoing (io c)"
  using tr_read_bytes[of read_chunk "io c"]
  by (auto simp: conn_fill_def read_chunk_def split: prod.splits sum.splits if_splits)

lemma read_response_head_frame: "read_response_head c = (r, c1) \<Longrightarrow> outgoing (io c1) = outgoing (io c)"
proof (induction c rule: read_response_head.induct)
  case (1 c)
  obtain y c2 where y: "conn_fill c = (y, c2)" by fastforce
  show ?case
  proof (cases "parse_response_ranges (conn_buf c) = Inr None \<and> (\<exists>n. y = Inr n \<and> n \<noteq> 0)")
    case True
    then obtain n where n: "parse_response_ranges (conn_buf c) = Inr None" "y = Inr n" "n \<noteq> 0" by blast
    then have "read_response_head c2 = (r, c1)"
      using "1.prems" y by (subst (asm) read_response_head.simps) simp
    from "1.IH"[OF n(1) refl y[symmetric] n(2,3) this] conn_fill_frame[OF y] show ?thesis by simp
  next
    case False
    then show ?thesis
      using "1.prems" y conn_fill_frame[OF y]
      by (subst (asm) read_response_head.simps) (auto split: sum.splits option.splits if_splits)
  qed
qed

text \<open>The status line of a response, and what the parser makes of a whole head.\<close>

definition status_line :: "byte list \<Rightarrow> byte list \<Rightarrow> byte list" where
  "status_line digits rsn = http_11 @ [32] @ digits @ [32] @ rsn"

text \<open>Three digits of a code between 100 and 599, and a reason phrase without outer blanks.\<close>

definition status_ok :: "nat \<Rightarrow> byte list \<Rightarrow> byte list \<Rightarrow> bool" where
  "status_ok status digits rsn \<longleftrightarrow>
     length digits = 3 \<and> list_all is_ascii_digit digits \<and> 100 \<le> status \<and> status \<le> 599 \<and>
     status = unat (digits ! 0 - 48) * 100 + unat (digits ! 1 - 48) * 10 + unat (digits ! 2 - 48) \<and>
     13 \<notin> set rsn \<and> 10 \<notin> set rsn \<and> (rsn \<noteq> [] \<longrightarrow> \<not> is_ows (hd rsn) \<and> \<not> is_ows (last rsn))"

lemma parse_status_line_ok:
  assumes "status_ok status digits rsn"
  shows "parse_status_line (status_line digits rsn) = Inr (Http11, status, (13, 13 + length rsn))"
proof -
  have d: "length digits = 3" "list_all is_ascii_digit digits" using assms by (simp_all add: status_ok_def)
  have line: "take 9 (status_line digits rsn) = http_11 @ [32]" "status_line digits rsn ! 5 = 49"
      "drop 9 (status_line digits rsn) = digits @ 32 # rsn"
    by (simp_all add: status_line_def version_bytes_simps)
  have rest: "take 3 (digits @ 32 # rsn) = digits" "drop 3 (digits @ 32 # rsn) = 32 # rsn"
      "(digits @ 32 # rsn) ! 0 = digits ! 0" "(digits @ 32 # rsn) ! 1 = digits ! 1" "(digits @ 32 # rsn) ! 2 = digits ! 2"
    using d(1) by (simp_all add: nth_append)
  have trim: "trim_ows (32 # rsn) = (1, 1 + length rsn)"
    using assms by (intro trim_ows_value) (simp add: status_ok_def)
  show ?thesis
    unfolding parse_status_line_def line rest Let_def trim using assms d
    by (simp add: status_ok_def del: One_nat_def)
qed

lemma parse_rendered_response:
  assumes ok: "status_ok status digits rsn" "list_all header_ok hs"
    and len: "length (render_lines (status_line digits rsn) hs @ rest) \<le> max_head"
  shows "\<exists>r. parse_response_ranges (render_lines (status_line digits rsn) hs @ rest) = Inr (Some r) \<and>
    hr_consumed r = length (render_lines (status_line digits rsn) hs) \<and>
    (let h = response_from_ranges (render_lines (status_line digits rsn) hs) r in
     rs_status h = status \<and> rs_reason h = rsn \<and> rs_version h = Http11 \<and> hb_iter (rs_headers h) = hs)"
proof -
  let ?l = "status_line digits rsn"
  let ?H = "joined ?l (map header_line hs)"
  let ?R = "render_lines ?l hs"
  have plain: "13 \<notin> set ?l" "10 \<notin> set ?l" "?l \<noteq> []"
    using ok(1) by (auto simp: status_line_def status_ok_def version_bytes_simps is_ascii_digit_def list_all_iff)
  have e: "find_head_end (?R @ rest) = Inr (Some (length ?H))"
    by (rule find_head_end_lines[OF plain(1,2) ok(2) len])
  have tk: "take (length ?H) (?R @ rest) = ?H" by (simp add: render_lines_def)
  have fl: "first_line ?H = Some (0, length ?l)" by (rule first_line_joined[OF plain(1,3)])
  have sl: "slice (?R @ rest) (0, length ?l) = ?l" by (simp add: render_lines_def joined_def)
  obtain rs where rs: "collect_header_ranges ?H 1 = Inr rs" "map (\<lambda>(n, v). (slice ?H n, slice ?H v)) rs = hs"
    using collect_joined[OF plain(1) ok(2)] by blast
  define r where "r = \<lparr>hr_first = ((13, 13 + length rsn), (13, 13 + length rsn)), hr_version = Http11,
      hr_status = Some status, hr_headers = rs, hr_consumed = length ?H + length header_delim\<rparr>"
  have parse: "parse_response_ranges (?R @ rest) = Inr (Some r)"
    unfolding parse_response_ranges_def e sum.case option.case tk fl sl parse_status_line_ok[OF ok(1)] prod.case rs(1)
    by (simp add: offset_range_def r_def)
  have len_r: "hr_consumed r = length ?R" by (simp add: r_def render_lines_def)
  have "map (\<lambda>(n, v). (slice ?R n, slice ?R v)) rs = hs"
    using slices_in_head[OF rs(1)] rs(2) by (simp add: render_lines_def)
  moreover have "slice ?R (13, 13 + length rsn) = rsn"
    using ok(1) by (simp add: render_lines_def joined_def status_line_def slice_def status_ok_def version_bytes_simps)
  ultimately show ?thesis
    using parse len_r
    by (intro exI[of _ r])
      (simp add: response_from_ranges_def rs_reason_def hb_iter_def r_def Let_def)
qed

lemma parse_response_prefix:
  assumes "status_ok status digits rsn" "list_all header_ok hs"
    and "length (render_lines (status_line digits rsn) hs) \<le> max_head"
    and "n < length (render_lines (status_line digits rsn) hs)"
  shows "parse_response_ranges (take n (render_lines (status_line digits rsn) hs)) = Inr None"
proof -
  have plain: "13 \<notin> set (status_line digits rsn)" "10 \<notin> set (status_line digits rsn)"
    using assms(1) by (auto simp: status_line_def status_ok_def version_bytes_simps is_ascii_digit_def list_all_iff)
  from find_head_end_prefix[OF plain assms(2-4)] show ?thesis by (simp add: parse_response_ranges_def)
qed

lemma read_response_head_bytes:
  assumes "status_ok status digits rsn" "list_all header_ok hs"
    and "length (render_lines (status_line digits rsn) hs) + read_chunk \<le> max_head"
    and "buf_small c" "\<not> eof c"
    and "conn_bytes c = render_lines (status_line digits rsn) hs @ rest"
  shows "\<exists>h c1. read_response_head c = (Inr h, c1) \<and> conn_bytes c1 = rest \<and> reads_from c c1 \<and>
    rs_status h = status \<and> rs_reason h = rsn \<and> rs_version h = Http11 \<and> hb_iter (rs_headers h) = hs"
  using assms(4-6)
proof (induction c rule: read_response_head.induct)
  case (1 c)
  let ?head = "render_lines (status_line digits rsn) hs"
  have b: "conn_buf c @ pending_bytes (incoming (io c)) = ?head @ rest"
    using "1.prems"(3) by (simp add: conn_bytes_def)
  show ?case
  proof (cases "length ?head \<le> length (conn_buf c)")
    case True
    then have buf: "conn_buf c = ?head @ drop (length ?head) (conn_buf c)"
      using b by (metis append_eq_append_conv_if append_take_drop_id)
    have len: "length (?head @ drop (length ?head) (conn_buf c)) \<le> max_head"
      using "1.prems"(1) buf by (simp add: buf_small_def)
    obtain r where r: "parse_response_ranges (conn_buf c) = Inr (Some r)" "hr_consumed r = length ?head"
        "let h = response_from_ranges ?head r in
         rs_status h = status \<and> rs_reason h = rsn \<and> rs_version h = Http11 \<and> hb_iter (rs_headers h) = hs"
      using parse_rendered_response[OF assms(1,2) len] buf by metis
    let ?c1 = "c\<lparr>conn_buf := drop (length ?head) (conn_buf c)\<rparr>"
    have tk: "take (length ?head) (conn_buf c) = ?head" using buf by (metis append_eq_conv_conj)
    have "read_response_head c = (Inr (response_from_ranges ?head r), ?c1)"
      using r(1,2) tk by (subst read_response_head.simps) simp
    moreover have "conn_bytes ?c1 = rest"
      using b True by (simp add: conn_bytes_def) (metis append_eq_append_conv_if)
    moreover have "reads_from c ?c1"
      using "1.prems"(2) by (auto simp: reads_from_def stays_def buf_small_def writable_def clean_def)
    ultimately show ?thesis using r(3) by (auto simp: Let_def)
  next
    case False
    then have "conn_buf c = take (length (conn_buf c)) ?head"
      using b by (metis append_eq_append_conv_if append_eq_conv_conj linear)
    then have none: "parse_response_ranges (conn_buf c) = Inr None"
      using parse_response_prefix[OF assms(1,2), of "length (conn_buf c)"] False assms(3) by simp
    have ne: "conn_bytes c \<noteq> conn_buf c"
      using False "1.prems"(3) by (auto dest: arg_cong[of _ _ length])
    obtain n c2 where c2: "conn_fill c = (Inr n, c2)" "n \<noteq> 0" "conn_bytes c2 = conn_bytes c" "stays c c2"
        "length (conn_buf c2) \<le> length (conn_buf c) + read_chunk"
      using conn_fill_some[OF ne "1.prems"(2)] by blast
    have small: "buf_small c2" using c2(5) False assms(3) by (simp add: buf_small_def)
    have eq: "read_response_head c = read_response_head c2"
      using none c2(1,2) by (subst read_response_head.simps) simp
    have ne2: "\<not> eof c2" using c2(4) by (simp add: stays_def)
    from "1.IH"[OF none refl c2(1)[symmetric] refl c2(2) small ne2] c2(3) "1.prems"(3)
    show ?thesis unfolding eq using reads_from_after[OF c2(4) small] by auto
  qed
qed

end
