(* ===== verification/Http_Bodies.thy ===== *)
theory Http_Bodies
  imports Http_Stream
begin

text \<open>
  What the body reader of \<open>body.rs\<close> makes of the bytes behind a head: the bytes of one framed
  body, in whatever pieces, and not a byte of what follows.
\<close>

section \<open>Framed bodies\<close>

text \<open>A chunk is its size line and its data; a size line ends in CRLF, and so does the data.\<close>

definition line_ok :: "byte list \<Rightarrow> bool" where
  "line_ok l \<longleftrightarrow> 13 \<notin> set l \<and> length l + 1 + read_chunk \<le> max_head"

definition chunk_ok :: "byte list \<times> byte list \<Rightarrow> bool" where
  "chunk_ok ch \<longleftrightarrow> line_ok (fst ch) \<and> snd ch \<noteq> [] \<and> parse_chunk_size (fst ch) = Inr (length (snd ch))"

definition chunk_bytes :: "byte list \<times> byte list \<Rightarrow> byte list" where
  "chunk_bytes ch = fst ch @ crlf @ snd ch @ crlf"

definition last_chunk :: "byte list \<Rightarrow> byte list list \<Rightarrow> byte list" where
  "last_chunk line trailers = line @ crlf @ concat (map (\<lambda>l. l @ crlf) trailers) @ crlf"

definition last_chunk_ok :: "byte list \<Rightarrow> byte list list \<Rightarrow> bool" where
  "last_chunk_ok line trailers \<longleftrightarrow>
     line_ok line \<and> parse_chunk_size line = Inr 0 \<and> list_all (\<lambda>l. l \<noteq> [] \<and> line_ok l) trailers"

definition chunked_bytes :: "(byte list \<times> byte list) list \<Rightarrow> byte list \<Rightarrow> byte list list \<Rightarrow> byte list" where
  "chunked_bytes chunks line trailers = concat (map chunk_bytes chunks) @ last_chunk line trailers"

text \<open>The rest of a chunk the reader is inside of, with the CRLF that ends it.\<close>

definition open_chunk :: "byte list \<Rightarrow> byte list" where
  "open_chunk cur = (if cur = [] then [] else cur @ crlf)"

definition chunked_pending :: "byte list \<Rightarrow> byte list \<Rightarrow> byte list \<Rightarrow> byte list \<Rightarrow> bool" where
  "chunked_pending cur wire data rest \<longleftrightarrow>
     (\<exists>chunks line trailers. list_all chunk_ok chunks \<and> last_chunk_ok line trailers \<and>
        wire = open_chunk cur @ chunked_bytes chunks line trailers @ rest \<and>
        data = cur @ concat (map snd chunks))"

text \<open>The reader is in front of \<open>wire\<close>, which holds the body's \<open>data\<close> and then \<open>rest\<close>.\<close>

definition body_pending :: "body_reader \<Rightarrow> byte list \<Rightarrow> byte list \<Rightarrow> byte list \<Rightarrow> bool" where
  "body_pending br wire data rest \<longleftrightarrow>
     (if br_finished br then data = [] \<and> wire = rest
      else case br_kind br of
        Content_Length n \<Rightarrow> wire = data @ rest \<and> br_remaining br = length data
      | Chunked \<Rightarrow> \<exists>cur. br_chunk_remaining br = length cur \<and> chunked_pending cur wire data rest
      | _ \<Rightarrow> False)"

lemma body_pending_content_length: "body_pending (body_reader_new (Content_Length (length data))) (data @ rest) data rest"
  by (simp add: body_pending_def body_reader_new_def)

lemma body_pending_chunked:
  assumes "list_all chunk_ok chunks" "last_chunk_ok line trailers"
  shows "body_pending (body_reader_new Chunked) (chunked_bytes chunks line trailers @ rest)
    (concat (map snd chunks)) rest"
  using assms by (auto simp: body_pending_def body_reader_new_def chunked_pending_def open_chunk_def)

section \<open>One read\<close>

text \<open>A raw read at the front of known bytes.\<close>

lemma read_raw_front:
  assumes "conn_bytes c = data @ rest" "data \<noteq> []" "0 < cap" "cap \<le> length data" "\<not> eof c"
  shows "\<exists>bs c1 data1. read_raw cap c = (Inr bs, c1) \<and> bs \<noteq> [] \<and> length bs \<le> cap \<and> data = bs @ data1 \<and>
    conn_bytes c1 = data1 @ rest \<and> reads_from c c1"
proof -
  obtain bs c1 where r: "read_raw cap c = (Inr bs, c1)" "bs \<noteq> []" "length bs \<le> cap"
      "conn_bytes c = bs @ conn_bytes c1" "reads_from c c1"
    using read_raw_some[of c cap] assms by auto
  have "take (length bs) (data @ rest) = bs" using r(4) assms(1) by (metis append_eq_conv_conj)
  then have "data = bs @ drop (length bs) data"
    using r(3) assms(4) by (metis append_take_drop_id diff_is_0_eq le_trans take_append take0 append_Nil2)
  moreover from this have "conn_bytes c1 = drop (length bs) data @ rest"
    using r(4) assms(1) by (metis append.assoc same_append_eq)
  ultimately show ?thesis using r by blast
qed

lemma read_trailers_bytes:
  "list_all (\<lambda>l. l \<noteq> [] \<and> line_ok l) trailers \<Longrightarrow>
     conn_bytes c = concat (map (\<lambda>l. l @ crlf) trailers) @ crlf @ rest \<Longrightarrow> \<not> eof c \<Longrightarrow>
     \<exists>c1. read_trailers c = (Inr (), c1) \<and> conn_bytes c1 = rest \<and> reads_from c c1"
proof (induction trailers arbitrary: c)
  case Nil
  then have "\<exists>c1. read_line c = (Inr [], c1) \<and> conn_bytes c1 = rest \<and> reads_from c c1"
    by (intro read_line_bytes) (simp_all add: crlf_def read_chunk_def max_head_def)
  then show ?case by (subst read_trailers.simps) auto
next
  case (Cons l trailers)
  obtain c2 where c2: "read_line c = (Inr l, c2)"
      "conn_bytes c2 = concat (map (\<lambda>l. l @ crlf) trailers) @ crlf @ rest" "reads_from c c2"
    using read_line_bytes[of c l "concat (map (\<lambda>l. l @ crlf) trailers) @ crlf @ rest"] Cons.prems
    by (auto simp: crlf_def line_ok_def)
  obtain c1 where "read_trailers c2 = (Inr (), c1)" "conn_bytes c1 = rest" "reads_from c2 c1"
    using Cons.IH[of c2] c2(2) reads_from_eof[OF c2(3)] Cons.prems by auto
  then show ?case using c2(1,3) Cons.prems reads_from_trans by (subst read_trailers.simps) auto
qed

lemma read_chunk_data_bytes:
  assumes "conn_bytes c = cur @ crlf @ tail" "cur \<noteq> []" "0 < cap" "\<not> eof c" "br_chunk_remaining br = length cur"
  shows "\<exists>bs c1 cur1. read_chunk_data cap br c = (Inr bs, br\<lparr>br_chunk_remaining := length cur1\<rparr>, c1) \<and>
    bs \<noteq> [] \<and> length bs \<le> cap \<and> cur = bs @ cur1 \<and> conn_bytes c1 = open_chunk cur1 @ tail \<and> reads_from c c1"
proof -
  have m: "0 < min cap (length cur)" "min cap (length cur) \<le> length cur"
    using assms(2,3) by auto
  from read_raw_front[OF assms(1,2) m assms(4)]
  obtain bs c2 cur1 where r: "read_raw (min cap (length cur)) c = (Inr bs, c2)" "bs \<noteq> []"
      "length bs \<le> min cap (length cur)" "cur = bs @ cur1" "conn_bytes c2 = cur1 @ crlf @ tail" "reads_from c c2"
    by blast
  show ?thesis
  proof (cases "cur1 = []")
    case True
    have "\<not> eof c2" using r(6) by (rule reads_from_eof)
    then obtain c1 where "expect_exact crlf c2 = (Inr (), c1)" "conn_bytes c1 = tail" "reads_from c2 c1"
      using expect_exact_bytes[of c2 crlf tail] r(5) True by auto
    then have "read_chunk_data cap br c = (Inr bs, br\<lparr>br_chunk_remaining := length cur1\<rparr>, c1) \<and>
        conn_bytes c1 = open_chunk cur1 @ tail \<and> reads_from c c1"
      using r True assms(5) reads_from_trans by (auto simp: read_chunk_data_def open_chunk_def Let_def)
    then show ?thesis using r by auto
  next
    case False
    then have "read_chunk_data cap br c = (Inr bs, br\<lparr>br_chunk_remaining := length cur1\<rparr>, c2) \<and>
        conn_bytes c2 = open_chunk cur1 @ tail"
      using r assms(5) by (auto simp: read_chunk_data_def open_chunk_def Let_def)
    then show ?thesis using r by auto
  qed
qed

text \<open>What a read at a framed body does.\<close>

definition body_step :: "nat \<Rightarrow> body_reader \<Rightarrow> http_connection \<Rightarrow> byte list \<Rightarrow> byte list \<Rightarrow> bool" where
  "body_step cap br c data rest \<longleftrightarrow>
     (\<exists>bs br1 c1 data1. body_read cap br c = (Inr bs, br1, c1) \<and> (bs = [] \<longleftrightarrow> data = []) \<and>
        length bs \<le> cap \<and> data = bs @ data1 \<and> body_pending br1 (conn_bytes c1) data1 rest \<and> reads_from c c1)"

lemma body_step_content_length:
  assumes "br_kind br = Content_Length n" "\<not> br_finished br" "conn_bytes c = data @ rest"
    and "br_remaining br = length data" "0 < cap" "\<not> eof c"
  shows "body_step cap br c data rest"
proof (cases "data = []")
  case True
  then show ?thesis
    using assms by (auto simp: body_step_def body_read_def read_content_length_def body_pending_def intro: reads_from_refl)
next
  case False
  then have m: "0 < min cap (length data)" "min cap (length data) \<le> length data" using assms(5) by auto
  from read_raw_front[OF assms(3) False m assms(6)]
  obtain bs c1 data1 where r: "read_raw (min cap (length data)) c = (Inr bs, c1)" "bs \<noteq> []"
      "length bs \<le> min cap (length data)" "data = bs @ data1" "conn_bytes c1 = data1 @ rest" "reads_from c c1"
    by blast
  have "body_read cap br c = (Inr bs, br\<lparr>br_remaining := length data1\<rparr>, c1)"
    using r False assms by (simp add: body_read_def read_content_length_def)
  moreover have "body_pending (br\<lparr>br_remaining := length data1\<rparr>) (conn_bytes c1) data1 rest"
    using r assms(1,2) by (simp add: body_pending_def)
  ultimately show ?thesis using r False unfolding body_step_def by auto
qed

lemma read_chunked_open:
  assumes "chunked_pending cur (conn_bytes c) data rest" "cur \<noteq> []"
    and "br_chunk_remaining br = length cur" "0 < cap" "\<not> eof c"
  shows "\<exists>bs cur1 c1 data1. read_chunk_data cap br c = (Inr bs, br\<lparr>br_chunk_remaining := length cur1\<rparr>, c1) \<and>
    bs \<noteq> [] \<and> length bs \<le> cap \<and> data = bs @ data1 \<and> chunked_pending cur1 (conn_bytes c1) data1 rest \<and>
    reads_from c c1"
proof -
  obtain chunks line trailers where ch: "list_all chunk_ok chunks" "last_chunk_ok line trailers"
      "conn_bytes c = cur @ crlf @ chunked_bytes chunks line trailers @ rest" "data = cur @ concat (map snd chunks)"
    using assms(1,2) by (auto simp: chunked_pending_def open_chunk_def)
  from read_chunk_data_bytes[OF ch(3) assms(2,4,5,3)]
  obtain bs c1 cur1 where r: "read_chunk_data cap br c = (Inr bs, br\<lparr>br_chunk_remaining := length cur1\<rparr>, c1)"
      "bs \<noteq> []" "length bs \<le> cap" "cur = bs @ cur1"
      "conn_bytes c1 = open_chunk cur1 @ chunked_bytes chunks line trailers @ rest" "reads_from c c1"
    by blast
  moreover have "chunked_pending cur1 (conn_bytes c1) (cur1 @ concat (map snd chunks)) rest"
    using ch(1,2) r(5) unfolding chunked_pending_def by blast
  ultimately show ?thesis using ch(4) by auto
qed

lemma read_chunked_between:
  assumes "chunked_pending [] (conn_bytes c) data rest" "br_chunk_remaining br = 0" "\<not> eof c" "0 < cap"
  shows "\<exists>bs br1 c1 data1. read_chunked cap br c = (Inr bs, br1, c1) \<and> length bs \<le> cap \<and> data = bs @ data1 \<and>
    reads_from c c1 \<and>
    (if bs = [] then data = [] \<and> conn_bytes c1 = rest
     else \<exists>cur1. br1 = br\<lparr>br_chunk_remaining := length cur1\<rparr> \<and> chunked_pending cur1 (conn_bytes c1) data1 rest)"
proof -
  obtain chunks line trailers where ch: "list_all chunk_ok chunks" "last_chunk_ok line trailers"
      "conn_bytes c = chunked_bytes chunks line trailers @ rest" "data = concat (map snd chunks)"
    using assms(1) by (auto simp: chunked_pending_def open_chunk_def)
  show ?thesis
  proof (cases chunks)
    case Nil
    then have "conn_bytes c = line @ 13 # 10 # concat (map (\<lambda>l. l @ crlf) trailers) @ crlf @ rest"
      using ch(3) by (simp add: chunked_bytes_def last_chunk_def crlf_def)
    from read_line_bytes[OF this _ assms(3)] ch(2) obtain c2 where
        c2: "read_line c = (Inr line, c2)" "conn_bytes c2 = concat (map (\<lambda>l. l @ crlf) trailers) @ crlf @ rest"
          "reads_from c c2"
      by (auto simp: last_chunk_ok_def line_ok_def)
    obtain c1 where "read_trailers c2 = (Inr (), c1)" "conn_bytes c1 = rest" "reads_from c2 c1"
      using read_trailers_bytes[OF _ c2(2)] ch(2) reads_from_eof[OF c2(3)] by (auto simp: last_chunk_ok_def)
    then show ?thesis
      using c2 ch(2,4) Nil assms(2) reads_from_trans by (auto simp: read_chunked_def last_chunk_ok_def)
  next
    case (Cons chunk chunks1)
    obtain l d where ld: "chunk = (l, d)" by fastforce
    then have d: "13 \<notin> set l" "d \<noteq> []" "parse_chunk_size l = Inr (length d)"
        "length l + 1 + read_chunk \<le> max_head"
      using ch(1) Cons by (auto simp: chunk_ok_def line_ok_def)
    have "conn_bytes c = l @ 13 # 10 # d @ crlf @ chunked_bytes chunks1 line trailers @ rest"
      using ch(3) Cons ld by (simp add: chunked_bytes_def chunk_bytes_def crlf_def)
    from read_line_bytes[OF this d(1) assms(3) d(4)] obtain c2 where
        c2: "read_line c = (Inr l, c2)" "conn_bytes c2 = d @ crlf @ chunked_bytes chunks1 line trailers @ rest"
          "reads_from c c2"
      by blast
    have "chunked_pending d (conn_bytes c2) data rest"
      using ch Cons ld c2(2) d(2) unfolding chunked_pending_def open_chunk_def by auto
    moreover have "\<not> eof c2" using c2(3) by (rule reads_from_eof)
    ultimately obtain bs cur1 c1 data1 where
        r: "read_chunk_data cap (br\<lparr>br_chunk_remaining := length d\<rparr>) c2 = (Inr bs, br\<lparr>br_chunk_remaining := length cur1\<rparr>, c1)"
          "bs \<noteq> []" "length bs \<le> cap" "data = bs @ data1" "chunked_pending cur1 (conn_bytes c1) data1 rest" "reads_from c2 c1"
      using read_chunked_open[of d c2 data rest "br\<lparr>br_chunk_remaining := length d\<rparr>" cap] d(2) assms(4) by auto
    have "read_chunked cap br c = (Inr bs, br\<lparr>br_chunk_remaining := length cur1\<rparr>, c1)"
      using c2(1) r(1) d(2,3) assms(2) by (simp add: read_chunked_def)
    then show ?thesis using r reads_from_trans[OF c2(3) r(6)] by auto
  qed
qed

lemma body_step_chunked:
  assumes "br_kind br = Chunked" "\<not> br_finished br" "br_chunk_remaining br = length cur"
    and "chunked_pending cur (conn_bytes c) data rest" "0 < cap" "\<not> eof c"
  shows "body_step cap br c data rest"
proof (cases "cur = []")
  case False
  obtain bs cur1 c1 data1 where r: "read_chunk_data cap br c = (Inr bs, br\<lparr>br_chunk_remaining := length cur1\<rparr>, c1)"
      "bs \<noteq> []" "length bs \<le> cap" "data = bs @ data1" "chunked_pending cur1 (conn_bytes c1) data1 rest" "reads_from c c1"
    using read_chunked_open[OF assms(4) False assms(3,5,6)] by blast
  have "body_read cap br c = (Inr bs, br\<lparr>br_chunk_remaining := length cur1\<rparr>, c1)"
    using r(1,2) assms(1,2,3,5) False by (simp add: body_read_def read_chunked_def)
  moreover have "body_pending (br\<lparr>br_chunk_remaining := length cur1\<rparr>) (conn_bytes c1) data1 rest"
    using r(5) assms(1,2) by (auto simp: body_pending_def)
  ultimately show ?thesis using r unfolding body_step_def by blast
next
  case True
  obtain bs br1 c1 data1 where r: "read_chunked cap br c = (Inr bs, br1, c1)" "length bs \<le> cap" "data = bs @ data1"
      "reads_from c c1"
      "if bs = [] then data = [] \<and> conn_bytes c1 = rest
       else \<exists>cur1. br1 = br\<lparr>br_chunk_remaining := length cur1\<rparr> \<and> chunked_pending cur1 (conn_bytes c1) data1 rest"
    using read_chunked_between[of c data rest br cap] assms(3-6) True by auto
  have b: "body_read cap br c = (Inr bs, (if bs = [] then br1\<lparr>br_finished := True\<rparr> else br1), c1)"
    using r(1) assms(1,2,5) by (simp add: body_read_def)
  show ?thesis
  proof (cases "bs = []")
    case True
    then show ?thesis using b r(3-5) unfolding body_step_def by (auto simp: body_pending_def)
  next
    case False
    then have "body_pending br1 (conn_bytes c1) data1 rest"
      using r(5) assms(1,2) by (auto simp: body_pending_def)
    then show ?thesis using False b r(2-4) unfolding body_step_def by auto
  qed
qed

lemma body_read_step:
  assumes "body_pending br (conn_bytes c) data rest" "0 < cap" "\<not> eof c"
  shows "body_step cap br c data rest"
proof (cases "br_finished br")
  case True
  then show ?thesis
    using assms unfolding body_step_def by (auto simp: body_pending_def body_read_def intro: reads_from_refl)
next
  case False
  then show ?thesis
    using assms body_step_content_length body_step_chunked
    by (auto simp: body_pending_def split: body_kind.splits)
qed

section \<open>Size lines\<close>

text \<open>A size in hexadecimal, as a peer writes it.\<close>

definition hex_digit :: "nat \<Rightarrow> byte" where
  "hex_digit d = (if d < 10 then word_of_nat (48 + d) else word_of_nat (87 + d))"

fun hex_line :: "nat \<Rightarrow> byte list" where
  "hex_line n = (if n < 16 then [hex_digit n] else hex_line (n div 16) @ [hex_digit (n mod 16)])"

declare hex_line.simps [simp del]

lemma hex_digit_all:
  assumes "d < 16"
  shows "hex_value (hex_digit d) = Some d \<and> 48 \<le> hex_digit d \<and> hex_digit d \<le> 102 \<and> hex_digit d \<noteq> 59 \<and> hex_digit d \<noteq> 43"
proof -
  have "d = 0 \<or> d = 1 \<or> d = 2 \<or> d = 3 \<or> d = 4 \<or> d = 5 \<or> d = 6 \<or> d = 7 \<or> d = 8 \<or> d = 9 \<or> d = 10 \<or> d = 11 \<or> d = 12 \<or> d = 13 \<or> d = 14 \<or> d = 15"
    using assms by presburger
  then show ?thesis by (elim disjE) (simp_all add: hex_digit_def hex_value_def)
qed

lemma hex_line_chars:
  "hex_line n \<noteq> [] \<and> (\<forall>b \<in> set (hex_line n). 48 \<le> b \<and> b \<le> 102 \<and> b \<noteq> 59 \<and> b \<noteq> 43)"
proof (induction n rule: hex_line.induct)
  case (1 n)
  show ?case
    using 1 hex_digit_all[of n] hex_digit_all[of "n mod 16"] by (subst (1 2) hex_line.simps) auto
qed

lemma hex_digits_append:
  "hex_digits acc (xs @ ys) = Option.bind (hex_digits acc xs) (\<lambda>a. hex_digits a ys)"
  by (induction xs arbitrary: acc) (auto split: option.split)

lemma hex_digits_line: "n \<le> u64_max \<Longrightarrow> hex_digits 0 (hex_line n) = Some n"
proof (induction n rule: hex_line.induct)
  case (1 n)
  show ?case
  proof (cases "n < 16")
    case True
    then show ?thesis using hex_digit_all[of n] "1.prems" by (simp add: hex_line.simps)
  next
    case False
    have "hex_digits 0 (hex_line (n div 16)) = Some (n div 16)"
      using "1.IH"[OF False] "1.prems" by (meson div_le_dividend le_trans)
    then show ?thesis
      using False hex_digit_all[of "n mod 16"] "1.prems" by (subst hex_line.simps) (simp add: hex_digits_append)
  qed
qed

text \<open>Printable ASCII at both ends is left alone by \<open>str::trim\<close>.\<close>

lemma white_len_print:
  assumes b: "33 \<le> b" "b \<le> 126"
  shows "white_len (b # r) = 0"
proof -
  have ne: "b \<noteq> 32" "\<not> (9 \<le> b \<and> b \<le> 13)" "b \<noteq> 0xC2" "b \<noteq> 0xE1" "b \<noteq> 0xE2" "b \<noteq> 0xE3"
    using b by (auto simp: word_le_nat_alt)
  consider "r = []" | a where "r = [a]" | a c t where "r = a # c # t" by (metis list.exhaust)
  then show ?thesis by cases (simp_all only: white_len.simps ne simp_thms if_False if_cancel)
qed

lemma str_trim_print:
  assumes "bs \<noteq> []" "\<forall>b \<in> set bs. 33 \<le> b \<and> b \<le> 126"
  shows "str_trim bs = bs"
proof -
  have len: "white_len bs = 0" if "set bs \<subseteq> {b. 33 \<le> b \<and> b \<le> 126}" for bs
    using that white_len_print by (cases bs) auto
  have "white_len (drop n bs) = 0" for n
    using assms(2) set_drop_subset[of n bs] by (intro len) auto
  then have "white_end bs = 0" "white_len bs = 0"
    using len[of bs] assms(2) by (auto simp: white_end_def Let_def)
  then show ?thesis by (simp add: str_trim_def trim_start.simps trim_end.simps)
qed

lemma parse_chunk_size_hex:
  assumes "n \<le> u64_max" "ext = [] \<or> hd ext = 59"
  shows "parse_chunk_size (hex_line n @ ext) = Inr n"
proof -
  have ch: "\<forall>b \<in> set (hex_line n). 48 \<le> b \<and> b \<le> 102 \<and> b \<noteq> 59 \<and> b \<noteq> 43" "hex_line n \<noteq> []"
    using hex_line_chars by blast+
  have tw: "takeWhile (\<lambda>b. b \<noteq> 59) (hex_line n @ ext) = hex_line n"
    using ch(1) assms(2) by (cases ext) (simp_all add: takeWhile_append)
  have "b \<le> 0x7F" if "b \<in> set (hex_line n)" for b
    using bspec[OF ch(1) that] by (simp add: word_le_nat_alt)
  then have "utf8_valid (hex_line n)" by (rule utf8_valid_ascii)
  moreover have "str_trim (hex_line n) = hex_line n"
    by (rule str_trim_print[OF ch(2)], rule ballI, drule bspec[OF ch(1)]) (simp add: word_le_nat_alt)
  moreover have "from_str_radix16 (hex_line n) = Some n"
    using ch hex_digits_line[OF assms(1)] by (auto simp: from_str_radix16_def)
  ultimately show ?thesis by (simp add: parse_chunk_size_def tw)
qed

lemma hex_line_length: "n < 16 ^ k \<Longrightarrow> 0 < k \<Longrightarrow> length (hex_line n) \<le> k"
proof (induction k arbitrary: n)
  case (Suc k)
  show ?case
  proof (cases "n < 16")
    case False
    then have "0 < k" using Suc.prems(1) by (cases k) auto
    moreover have "n div 16 < 16 ^ k" using Suc.prems(1) by (simp add: less_mult_imp_div_less mult.commute)
    ultimately show ?thesis using Suc.IH False by (subst hex_line.simps) simp
  qed (simp add: hex_line.simps)
qed simp

lemma chunk_ok_hex:
  assumes "d \<noteq> []" "length d \<le> u64_max" "ext = [] \<or> hd ext = 59" "13 \<notin> set ext"
    and "length ext + 17 + read_chunk \<le> max_head"
  shows "chunk_ok (hex_line (length d) @ ext, d)"
proof -
  have "(13::byte) \<notin> set (hex_line (length d))" using hex_line_chars[of "length d"] by fastforce
  then show ?thesis
    using assms parse_chunk_size_hex hex_line_length[of "length d" 16]
    by (simp add: chunk_ok_def line_ok_def u64_max_def)
qed

section \<open>Whole bodies\<close>

lemma body_read_end: "body_read cap br c = (Inr [], br1, c1) \<Longrightarrow> 0 < cap \<Longrightarrow> br_finished br1"
  by (auto simp: body_read_def split: if_splits sum.splits prod.splits)

lemma read_to_vec_loop_finished:
  "read_to_vec_loop max_len out br c = (Inr v, br1, c1) \<Longrightarrow> br_finished br1"
proof (induction max_len out br c rule: read_to_vec_loop.induct)
  case (1 max_len out br c)
  obtain x br2 c2 where x: "body_read 8192 br c = (x, br2, c2)" by (cases "body_read 8192 br c") auto
  obtain bs where bs: "x = Inr bs"
    using "1.prems" x by (subst (asm) read_to_vec_loop.simps) (auto split: sum.splits)
  show ?case
  proof (cases "bs = []")
    case True
    then have "br1 = br2" using "1.prems" x bs by (subst (asm) read_to_vec_loop.simps) simp
    then show ?thesis using body_read_end[of 8192 br c br2 c2] x bs True by simp
  next
    case False
    then have small: "\<not> max_len < length out + length bs"
      using "1.prems" x bs by (subst (asm) read_to_vec_loop.simps) (auto split: if_splits)
    then have "read_to_vec_loop max_len (out @ bs) br2 c2 = (Inr v, br1, c1)"
      using "1.prems" x bs False by (subst (asm) read_to_vec_loop.simps) simp
    from "1.IH"[OF x[symmetric] bs refl False small this] show ?thesis .
  qed
qed

lemma read_to_vec_loop_bytes:
  "body_pending br (conn_bytes c) data rest \<Longrightarrow> \<not> eof c \<Longrightarrow> length out + length data \<le> max_len \<Longrightarrow>
     \<exists>br1 c1. read_to_vec_loop max_len out br c = (Inr (out @ data), br1, c1) \<and> conn_bytes c1 = rest \<and>
       reads_from c c1"
proof (induction max_len out br c arbitrary: data rule: read_to_vec_loop.induct)
  case (1 max_len out br c)
  have pos: "0 < (8192::nat)" by simp
  obtain bs br1 c1 data1 where r: "body_read 8192 br c = (Inr bs, br1, c1)" "bs = [] \<longleftrightarrow> data = []"
      "data = bs @ data1" "body_pending br1 (conn_bytes c1) data1 rest" "reads_from c c1"
    using body_read_step[OF "1.prems"(1) pos "1.prems"(2)] unfolding body_step_def by blast
  show ?case
  proof (cases "bs = []")
    case True
    have b: "body_read 8192 br c = (Inr [], br1, c1)" using r(1) unfolding True .
    have "br_finished br1" by (rule body_read_end[OF b pos])
    then have rest: "conn_bytes c1 = rest" using r(4) unfolding body_pending_def by simp
    have "data = []" using r(2) True by blast
    moreover have "read_to_vec_loop max_len out br c = (Inr out, br1, c1)"
      by (subst read_to_vec_loop.simps) (simp add: b)
    ultimately show ?thesis using rest r(5) by simp
  next
    case False
    have small: "\<not> length out + length bs > max_len" using "1.prems"(3) r(3) by simp
    have eq: "read_to_vec_loop max_len out br c = read_to_vec_loop max_len (out @ bs) br1 c1"
      using r(1) False small by (subst read_to_vec_loop.simps) simp
    have ne: "\<not> eof c1" using r(5) by (rule reads_from_eof)
    have len: "length (out @ bs) + length data1 \<le> max_len" using "1.prems"(3) r(3) by simp
    from "1.IH"[OF r(1)[symmetric] refl refl False small r(4) ne len] r(3,5)
    show ?thesis unfolding eq using reads_from_trans by (metis append.assoc)
  qed
qed

text \<open>A body the limit does not allow is refused.\<close>

lemma read_to_vec_loop_limit:
  "body_pending br (conn_bytes c) data rest \<Longrightarrow> \<not> eof c \<Longrightarrow> length out \<le> max_len \<Longrightarrow>
     max_len < length out + length data \<Longrightarrow>
     fst (read_to_vec_loop max_len out br c) = Inl (Http_Parse ''body exceeds limit'')"
proof (induction max_len out br c arbitrary: data rule: read_to_vec_loop.induct)
  case (1 max_len out br c)
  have pos: "0 < (8192::nat)" by simp
  obtain bs br1 c1 data1 where r: "body_read 8192 br c = (Inr bs, br1, c1)" "bs = [] \<longleftrightarrow> data = []"
      "data = bs @ data1" "body_pending br1 (conn_bytes c1) data1 rest" "reads_from c c1"
    using body_read_step[OF "1.prems"(1) pos "1.prems"(2)] unfolding body_step_def by blast
  have ne: "bs \<noteq> []" using r(2) "1.prems"(3,4) by auto
  show ?case
  proof (cases "max_len < length out + length bs")
    case True
    then show ?thesis using r(1) ne by (subst read_to_vec_loop.simps) simp
  next
    case False
    have eq: "read_to_vec_loop max_len out br c = read_to_vec_loop max_len (out @ bs) br1 c1"
      using r(1) ne False by (subst read_to_vec_loop.simps) simp
    have "\<not> eof c1" "length (out @ bs) \<le> max_len" "max_len < length (out @ bs) + length data1"
      using r(3,5) False "1.prems"(4) by (simp_all add: reads_from_eof)
    from "1.IH"[OF r(1)[symmetric] refl refl ne False r(4) this] show ?thesis unfolding eq .
  qed
qed

text \<open>A body that ends too early is an error: a result has as many bytes as were announced.\<close>

lemma read_content_length_bytes:
  assumes "read_content_length cap br c = (Inr bs, br1, c1)" "0 < cap"
  shows "length bs \<le> br_remaining br \<and> br1 = br\<lparr>br_remaining := br_remaining br - length bs\<rparr> \<and>
    conn_bytes c = bs @ conn_bytes c1 \<and> (bs = [] \<longleftrightarrow> br_remaining br = 0)"
proof (cases "br_remaining br = 0")
  case False
  obtain x c2 where x: "read_raw (min cap (br_remaining br)) c = (x, c2)" by fastforce
  have pos: "0 < min cap (br_remaining br)" using False assms(2) by simp
  from read_raw_bytes[OF x pos] x False assms(1) show ?thesis
    by (auto simp: read_content_length_def split: sum.splits if_splits)
qed (use assms in \<open>auto simp: read_content_length_def\<close>)

lemma read_to_vec_loop_content_length:
  "read_to_vec_loop max_len out br c = (Inr v, br1, c1) \<Longrightarrow> br_kind br = Content_Length n \<Longrightarrow>
     (br_finished br \<longrightarrow> br_remaining br = 0) \<Longrightarrow>
     \<exists>data. v = out @ data \<and> length data = br_remaining br \<and> conn_bytes c = data @ conn_bytes c1"
proof (induction max_len out br c rule: read_to_vec_loop.induct)
  case (1 max_len out br c)
  show ?case
  proof (cases "br_finished br")
    case True
    then have "body_read 8192 br c = (Inr [], br, c)" by (simp add: body_read_def)
    then show ?thesis using "1.prems" True by (subst (asm) read_to_vec_loop.simps) auto
  next
    case False
    obtain x br2 c2 where x: "read_content_length 8192 br c = (x, br2, c2)" by (cases "read_content_length 8192 br c") auto
    show ?thesis
    proof (cases x)
      case (Inl e)
      then have "body_read 8192 br c = (Inl e, br2, c2)"
        using x False "1.prems"(2) by (simp add: body_read_def)
      then show ?thesis using "1.prems"(1) by (subst (asm) read_to_vec_loop.simps) simp
    next
      case (Inr bs)
      have pos: "0 < (8192::nat)" by simp
      note b = read_content_length_bytes[OF x[unfolded Inr] pos]
      let ?br2 = "if bs = [] then br2\<lparr>br_finished := True\<rparr> else br2"
      have r: "body_read 8192 br c = (Inr bs, ?br2, c2)"
        using x Inr False "1.prems"(2) by (simp add: body_read_def)
      show ?thesis
      proof (cases "bs = []")
        case True
        then have "read_to_vec_loop max_len out br c = (Inr out, ?br2, c2)"
          using r by (subst read_to_vec_loop.simps) simp
        then show ?thesis using b True "1.prems"(1) by auto
      next
        case ne: False
        have small: "\<not> max_len < length out + length bs"
          using "1.prems"(1) r ne by (subst (asm) read_to_vec_loop.simps) (auto split: if_splits)
        have "read_to_vec_loop max_len (out @ bs) ?br2 c2 = (Inr v, br1, c1)"
          using "1.prems"(1) r ne small by (subst (asm) read_to_vec_loop.simps) simp
        from "1.IH"[OF r[symmetric] refl refl ne small this] b ne "1.prems"(2) False show ?thesis by auto
      qed
    qed
  qed
qed

end
