(* ===== verification/Http_Serve.thy ===== *)
theory Http_Serve
  imports Http_Server Http_Bodies
begin

text \<open>
  The keep-alive loop of \<open>server.rs\<close> against its specification: the requests of a connection
  are answered one after the other, each by what its handler makes of that request's own head
  and body.
\<close>

section \<open>Requests on the wire\<close>

text \<open>The bytes of a body under a framing.\<close>

definition body_wire :: "body_kind \<Rightarrow> byte list \<Rightarrow> byte list \<Rightarrow> bool" where
  "body_wire k data wire \<longleftrightarrow>
     (case k of
        Empty_Body \<Rightarrow> data = [] \<and> wire = []
      | Content_Length n \<Rightarrow> n = length data \<and> wire = data
      | Chunked \<Rightarrow> \<exists>chunks line trailers. list_all chunk_ok chunks \<and> last_chunk_ok line trailers \<and>
          wire = chunked_bytes chunks line trailers \<and> data = concat (map snd chunks)
      | Until_Eof \<Rightarrow> False)"

lemma body_wire_pending: "body_wire k data wire \<Longrightarrow> body_pending (body_reader_new k) (wire @ rest) data rest"
  using body_pending_chunked body_pending_content_length
  by (auto simp: body_wire_def body_pending_def body_reader_new_def split: body_kind.splits)

lemma body_wire_finished: "body_wire k data wire \<Longrightarrow> br_finished (body_reader_new k) \<longleftrightarrow> wire = []"
  by (auto simp: body_wire_def body_reader_new_def chunked_bytes_def last_chunk_def crlf_def split: body_kind.splits)

record wire_request =
  wq_method :: "byte list"
  wq_target :: "byte list"
  wq_version :: http_version
  wq_headers :: "(byte list \<times> byte list) list"
  wq_body :: "byte list"
  wq_framed :: "byte list"

definition wire_head :: "wire_request \<Rightarrow> byte list" where
  "wire_head q = render_lines (request_line (wq_method q) (wq_target q) (wq_version q)) (wq_headers q)"

definition wire_bytes :: "wire_request \<Rightarrow> byte list" where
  "wire_bytes q = wire_head q @ wq_framed q"

text \<open>The framing that headers announce.\<close>

definition headers_frame :: "(byte list \<times> byte list) list \<Rightarrow> body_kind \<Rightarrow> bool" where
  "headers_frame hs k \<longleftrightarrow> (\<forall>h. hb_iter h = hs \<longrightarrow> request_body_kind h = Inr k)"

definition wire_request_ok :: "wire_request \<Rightarrow> bool" where
  "wire_request_ok q \<longleftrightarrow> request_ok (wq_method q) (wq_target q) (wq_headers q) \<and>
     length (wire_head q) + read_chunk \<le> max_head \<and>
     (\<exists>k. headers_frame (wq_headers q) k \<and> body_wire k (wq_body q) (wq_framed q))"

definition wire_keep_alive :: "wire_request \<Rightarrow> bool" where
  "wire_keep_alive q =
     (let connection = header_lookup (ascii ''connection'') (wq_headers q) in
      case wq_version q of
        Http11 \<Rightarrow> \<not> (case connection of Some v \<Rightarrow> eq_ignore_ascii_case v (ascii ''close'') | None \<Rightarrow> False)
      | Http10 \<Rightarrow> (case connection of Some v \<Rightarrow> eq_ignore_ascii_case v (ascii ''keep-alive'') | None \<Rightarrow> False))"

definition wire_view :: "wire_request \<Rightarrow> server_request" where
  "wire_view q = \<lparr>sr_method = wq_method q, sr_target = wq_target q, sr_headers = wq_headers q,
                  sr_keep_alive = wire_keep_alive q\<rparr>"

section \<open>What a handler sees\<close>

text \<open>
  The specification of a handler's run over a body that is just a list of bytes; \<open>fin\<close> is
  whether the body has been read to its end.  A run that asks for less than the body has no
  specification here.
\<close>

primrec answer :: "'h handler_run \<Rightarrow> bool \<Rightarrow> byte list \<Rightarrow> (response_data \<times> 'h \<times> bool) option" where
  "answer (Respond r h) = (\<lambda>fin data. Some (r, h, fin))"
| "answer (Body_Bytes m k) =
     (\<lambda>fin data. if length data \<le> m then answer (k (Inr data)) True [] else None)"

lemma read_to_vec_pending:
  assumes "body_pending br (conn_bytes c) data rest" "\<not> eof c" "length data \<le> m"
  shows "\<exists>br1 c1. read_to_vec m br c = (Inr data, br1, c1) \<and> br_finished br1 \<and> conn_bytes c1 = rest \<and> reads_from c c1"
proof -
  obtain br1 c1 where r: "read_to_vec m br c = (Inr data, br1, c1)" "conn_bytes c1 = rest" "reads_from c c1"
    using read_to_vec_loop_bytes[of br c data rest "[]" m] assms by (auto simp: read_to_vec_def)
  moreover have "br_finished br1"
    using r(1) read_to_vec_loop_finished by (auto simp: read_to_vec_def)
  ultimately show ?thesis by blast
qed

lemma run_handler_answer:
  "answer p (br_finished br) data = Some (r, h, fin) \<Longrightarrow> body_pending br (conn_bytes c) data rest \<Longrightarrow> \<not> eof c \<Longrightarrow>
     \<exists>br1 c1. run_handler p br c = (r, h, br1, c1) \<and> br_finished br1 = fin \<and> (fin \<longrightarrow> conn_bytes c1 = rest) \<and>
       reads_from c c1"
proof (induction p arbitrary: br data c)
  case (Respond r1 h1)
  then show ?case by (auto simp: body_pending_def intro: reads_from_refl)
next
  case (Body_Bytes m k)
  then have m: "length data \<le> m" "answer (k (Inr data)) True [] = Some (r, h, fin)"
    by (simp_all split: if_splits)
  obtain br2 c2 where r: "read_to_vec m br c = (Inr data, br2, c2)" "br_finished br2" "conn_bytes c2 = rest"
      "reads_from c c2"
    using read_to_vec_pending[OF Body_Bytes.prems(2,3) m(1)] by blast
  have "answer (k (Inr data)) (br_finished br2) [] = Some (r, h, fin)" using m(2) r(2) by simp
  moreover have "body_pending br2 (conn_bytes c2) [] rest" using r(2,3) by (simp add: body_pending_def)
  moreover have "\<not> eof c2" using r(4) by (rule reads_from_eof)
  ultimately obtain br1 c1 where "run_handler (k (Inr data)) br2 c2 = (r, h, br1, c1)" "br_finished br1 = fin"
      "fin \<longrightarrow> conn_bytes c1 = rest" "reads_from c2 c1"
    using Body_Bytes.IH[OF rangeI] by blast
  then show ?case using r(1,4) reads_from_trans by auto
qed

section \<open>The loop\<close>

definition response_bytes :: "response_data \<Rightarrow> byte list" where
  "response_bytes r = head_of_response r @ resp_body r"

text \<open>What the connection should send for its requests, and the handler's state afterwards.\<close>

fun serve_spec :: "'h handler \<Rightarrow> 'h \<Rightarrow> wire_request list \<Rightarrow> (byte list \<times> 'h) option" where
  "serve_spec f h [] = Some ([], h)"
| "serve_spec f h (q # qs) =
     (case answer (f h (wire_view q)) (wq_framed q = []) (wq_body q) of
        None \<Rightarrow> None
      | Some (r, h1, fin) \<Rightarrow>
          if wire_keep_alive q \<and> fin then
            map_option (\<lambda>(out, h2). (response_bytes r @ out, h2)) (serve_spec f h1 qs)
          else Some (response_bytes r, h1))"

lemma write_message_writable:
  assumes "writable c"
  shows "write_message head body c = (Inr (), c\<lparr>io := (io c)\<lparr>outgoing := outgoing (io c) @ head @ body\<rparr>\<rparr>)"
  using assms
  by (simp add: write_message_def conn_write_all_writable conn_flush_def tr_flush_def)
     (simp add: conn_write_all_writable writable_def conn_flush_def tr_flush_def)

lemma read_request_head_end:
  assumes "conn_bytes c = []" "clean c"
  shows "\<exists>c1. read_request_head c = (Inr None, c1) \<and> outgoing (io c1) = outgoing (io c)"
proof -
  have buf: "conn_buf c = []" and pend: "pending_bytes (incoming (io c)) = []"
    using assms(1) by (simp_all add: conn_bytes_def)
  obtain r t1 where r: "tr_read read_chunk (io c) = (r, t1)" by fastforce
  have pos: "0 < read_chunk" by (simp add: read_chunk_def)
  have "r = Inr [] \<and> outgoing t1 = outgoing (io c)"
    using tr_read_bytes[OF r pos] tr_read_clean[OF r] assms(2) pend
    by (cases r) (auto simp: clean_def split: if_splits)
  then have "conn_fill c = (Inr 0, c\<lparr>io := t1, eof := True\<rparr>) \<and> outgoing t1 = outgoing (io c)"
    using r by (simp add: conn_fill_def)
  moreover have "parse_request_ranges [] = Inr None"
    by (simp add: parse_request_ranges_def find_head_end_def memchr_find_def windows2_def
        crlf_rposition_def max_head_def)
  ultimately show ?thesis using buf by (subst read_request_head.simps) simp
qed

lemma keep_alive_wire:
  assumes "rq_version h = wq_version q" "hb_iter (rq_headers h) = wq_headers q"
  shows "keep_alive_requested h = wire_keep_alive q"
  using assms by (simp add: keep_alive_requested_def wire_keep_alive_def hb_get_lookup Let_def cong: option.case_cong)

theorem serve_loop_spec:
  "serve_spec f h qs = Some (out, h1) \<Longrightarrow> list_all wire_request_ok qs \<Longrightarrow>
     conn_bytes c = concat (map wire_bytes qs) \<Longrightarrow> \<not> eof c \<Longrightarrow> buf_small c \<Longrightarrow> writable c \<Longrightarrow> clean c \<Longrightarrow>
     \<exists>c1. serve_loop f h c = (Inr (), h1, c1) \<and> outgoing (io c1) = outgoing (io c) @ out"
proof (induction f h qs arbitrary: out c rule: serve_spec.induct)
  case (1 f h)
  then obtain c1 where "read_request_head c = (Inr None, c1)" "outgoing (io c1) = outgoing (io c)"
    using read_request_head_end[of c] by auto
  then show ?case using 1 by (subst serve_loop.simps) simp
next
  case (2 f h q qs)
  obtain r hm fin where ans: "answer (f h (wire_view q)) (wq_framed q = []) (wq_body q) = Some (r, hm, fin)"
    using "2.prems"(1) by (auto split: option.splits)
  obtain k where q: "request_ok (wq_method q) (wq_target q) (wq_headers q)" "length (wire_head q) + read_chunk \<le> max_head"
      "headers_frame (wq_headers q) k" "body_wire k (wq_body q) (wq_framed q)"
    using "2.prems"(2) by (auto simp: wire_request_ok_def)
  let ?rest = "concat (map wire_bytes qs)"
  have bytes: "conn_bytes c = wire_head q @ wq_framed q @ ?rest"
    using "2.prems"(3) wire_bytes_def[of q] by simp
  obtain hd1 c2 where head: "read_request_head c = (Inr (Some hd1), c2)" "conn_bytes c2 = wq_framed q @ ?rest"
      "reads_from c c2" "rq_method hd1 = wq_method q" "rq_target hd1 = wq_target q" "rq_version hd1 = wq_version q"
      "hb_iter (rq_headers hd1) = wq_headers q"
    using read_request_head_bytes[OF q(1) q(2)[unfolded wire_head_def] "2.prems"(5,4),
        folded wire_head_def, OF bytes] by blast
  have ka: "keep_alive_requested hd1 = wire_keep_alive q" by (rule keep_alive_wire[OF head(6,7)])
  have kind: "request_body_kind (rq_headers hd1) = Inr k" using q(3) head(7) by (simp add: headers_frame_def)
  have view: "server_request_of hd1 (wire_keep_alive q) = wire_view q"
    using head(4,5,7) by (simp add: server_request_of_def wire_view_def)
  have pend: "body_pending (body_reader_new k) (conn_bytes c2) (wq_body q) ?rest"
    using body_wire_pending[OF q(4)] head(2) by simp
  have "answer (f h (wire_view q)) (br_finished (body_reader_new k)) (wq_body q) = Some (r, hm, fin)"
    using ans body_wire_finished[OF q(4)] by simp
  from run_handler_answer[OF this pend reads_from_eof[OF head(3)]]
  obtain br c3 where run: "run_handler (f h (wire_view q)) (body_reader_new k) c2 = (r, hm, br, c3)"
      "br_finished br = fin" "fin \<longrightarrow> conn_bytes c3 = ?rest" "reads_from c2 c3" by blast
  have rf: "reads_from c c3" by (rule reads_from_trans[OF head(3) run(4)])
  then have c3: "\<not> eof c3" "outgoing (io c3) = outgoing (io c)" "writable c3" "buf_small c3" "clean c3"
    using "2.prems"(5-7) by (simp_all add: reads_from_def stays_def)
  let ?c4 = "c3\<lparr>io := (io c3)\<lparr>outgoing := outgoing (io c) @ response_bytes r\<rparr>\<rparr>"
  have wr: "write_message (head_of_response r) (resp_body r) c3 = (Inr (), ?c4)"
    using write_message_writable[OF c3(3)] c3(2) by (simp add: response_bytes_def)
  have eq: "serve_loop f h c = (if wire_keep_alive q \<and> fin then serve_loop f hm ?c4 else (Inr (), hm, ?c4))"
    using head(1) kind run(1,2) wr by (subst serve_loop.simps) (simp add: ka view Let_def)
  show ?case
  proof (cases "wire_keep_alive q \<and> fin")
    case False
    then have "out = response_bytes r \<and> h1 = hm" using "2.prems"(1) ans by (simp split: if_splits)
    then show ?thesis unfolding eq using False by auto
  next
    case True
    then obtain out2 where out2: "serve_spec f hm qs = Some (out2, h1)" "out = response_bytes r @ out2"
      using "2.prems"(1) ans by auto
    have c4: "conn_bytes ?c4 = ?rest" "\<not> eof ?c4" "buf_small ?c4" "writable ?c4" "clean ?c4"
      using c3 run(3) True by (simp_all add: conn_bytes_def buf_small_def writable_def clean_def)
    have "list_all wire_request_ok qs" using "2.prems"(2) by simp
    from "2.IH"[OF ans refl refl True out2(1) this c4] obtain c1 where
        "serve_loop f hm ?c4 = (Inr (), h1, c1)" "outgoing (io c1) = outgoing (io ?c4) @ out2"
      by blast
    then show ?thesis unfolding eq using True out2(2) by simp
  qed
qed

end
