(* ===== verification/Http_Exchange.thy ===== *)
theory Http_Exchange
  imports Http_Serve Http_Client
begin

text \<open>
  Client and server against each other: what the client writes is a request the server reads as
  it was meant, and what the server writes is a response the client reads as it was meant.
\<close>

section \<open>Decimal numbers\<close>

lemma to_decimal_digits: "to_decimal n \<noteq> [] \<and> list_all is_ascii_digit (to_decimal n)"
proof (induction n rule: to_decimal.induct)
  case (1 n)
  have d: "is_ascii_digit (word_of_nat (48 + m))" if "m < 10" for m :: nat
  proof -
    have "unat (word_of_nat (48 + m) :: byte) = 48 + m" using that by (subst unat_of_nat) simp
    then show ?thesis using that by (simp add: is_ascii_digit_def word_le_nat_alt del: of_nat_add)
  qed
  show ?case
  proof (cases "n < 10")
    case True
    then show ?thesis using d[of n] by (subst (1 2) to_decimal.simps) (simp del: of_nat_add)
  next
    case False
    then show ?thesis
      using 1 d[of "n mod 10"] by (subst (1 2) to_decimal.simps) (simp del: of_nat_add)
  qed
qed

lemma to_decimal_value: "foldl (\<lambda>acc b. acc * 10 + (unat b - 48)) 0 (to_decimal n) = n"
proof (induction n rule: to_decimal.induct)
  case (1 n)
  have d: "unat (word_of_nat (48 + m) :: byte) = 48 + m" if "m < 10" for m :: nat
    using that by (subst unat_of_nat) simp
  show ?case
  proof (cases "n < 10")
    case True
    then show ?thesis using d[of n] by (subst to_decimal.simps) (simp del: of_nat_add)
  next
    case False
    then show ?thesis
      using 1 d[of "n mod 10"] by (subst to_decimal.simps) (simp del: of_nat_add)
  qed
qed

lemma parse_to_decimal: "n \<le> u64_max \<Longrightarrow> parse_u64_digits (to_decimal n) = Some n"
  using to_decimal_digits[of n] to_decimal_value[of n] by (simp add: parse_u64_digits_def Let_def)

lemma to_decimal_plain:
  "13 \<notin> set (to_decimal n) \<and> 10 \<notin> set (to_decimal n) \<and> (\<forall>b \<in> set (to_decimal n). \<not> is_ows b)"
  using to_decimal_digits[of n] by (auto simp: list_all_iff is_ascii_digit_def is_ows_def)

lemma str_trim_decimal: "str_trim (to_decimal n) = to_decimal n"
  by (rule str_trim_print)
     (use to_decimal_digits[of n] in \<open>auto simp: list_all_iff is_ascii_digit_def word_le_nat_alt\<close>)

lemma utf8_valid_decimal: "utf8_valid (to_decimal n)"
  using to_decimal_digits[of n]
  by (intro utf8_valid_ascii) (auto simp: list_all_iff is_ascii_digit_def word_le_nat_alt)

lemma content_length_decimal:
  assumes "header_lookup h_content_length (hb_iter h) = Some (to_decimal n)" "n \<le> u64_max"
  shows "content_length_kind h = Inr (Content_Length n)"
  using assms to_decimal_digits[of n]
  by (simp add: content_length_kind_def hb_get_lookup str_trim_decimal utf8_valid_decimal parse_to_decimal)

section \<open>Rendered heads\<close>

lemma render_headers: "first @ crlf @ concat (map header_text hs) @ crlf = render_lines first hs"
proof -
  have "crlf @ concat (map header_text hs) = concat (map (\<lambda>l. 13 # 10 # l) (map header_line hs)) @ crlf"
    by (induction hs) (simp_all add: header_text_def header_line_def crlf_def)
  then show ?thesis by (simp add: render_lines_def joined_def header_delim_def crlf_def)
qed

text \<open>The headers the client sends.\<close>

definition content_length_header :: "nat \<Rightarrow> byte list \<times> byte list" where
  "content_length_header n = (ascii ''content-length'', to_decimal n)"

definition client_headers :: "client_request \<Rightarrow> byte list \<Rightarrow> (byte list \<times> byte list) list" where
  "client_headers q host =
     cq_headers q @ (if list_ex is_host (cq_headers q) then [] else [(ascii ''host'', host)]) @
     [content_length_header (length (cq_body q))]"

definition client_wire :: "client_request \<Rightarrow> byte list \<Rightarrow> wire_request" where
  "client_wire q host =
     \<lparr>wq_method = cq_method q, wq_target = cq_target q, wq_version = Http11,
      wq_headers = client_headers q host, wq_body = cq_body q, wq_framed = cq_body q\<rparr>"

lemma client_head_wire: "client_head q host = wire_head (client_wire q host)"
proof -
  have "client_head q host =
      request_line (cq_method q) (cq_target q) Http11 @ crlf @ concat (map header_text (client_headers q host)) @ crlf"
    by (simp add: client_head_def client_headers_def request_line_def version_bytes_def http_11_def
        header_text_def content_length_header_def ascii_def)
  then show ?thesis by (simp add: wire_head_def client_wire_def render_headers)
qed

lemma header_lookup_append:
  "header_lookup n (hs @ hs2) = (case header_lookup n hs of Some v \<Rightarrow> Some v | None \<Rightarrow> header_lookup n hs2)"
proof (induction hs)
  case (Cons h hs)
  then show ?case by (auto simp: header_lookup_def split: option.splits)
qed (simp add: header_lookup_def)

text \<open>A request the client's caller may build: no framing headers, nothing that breaks a line.\<close>

definition client_request_ok :: "client_request \<Rightarrow> byte list \<Rightarrow> bool" where
  "client_request_ok q host \<longleftrightarrow>
     request_ok (cq_method q) (cq_target q) (cq_headers q) \<and> header_ok (ascii ''host'', host) \<and>
     header_lookup h_content_length (cq_headers q) = None \<and>
     header_lookup h_transfer_encoding (cq_headers q) = None \<and>
     length (cq_body q) \<le> u64_max \<and> length (client_head q host) + read_chunk \<le> max_head"

lemma client_headers_frame:
  assumes "client_request_ok q host"
  shows "headers_frame (client_headers q host) (Content_Length (length (cq_body q)))"
proof -
  have cl: "header_lookup h_content_length (client_headers q host) = Some (to_decimal (length (cq_body q)))"
    and te: "header_lookup h_transfer_encoding (client_headers q host) = None"
    using assms
    by (simp_all add: client_request_ok_def client_headers_def header_lookup_append)
       (simp_all add: header_lookup_def content_length_header_def h_content_length_def h_transfer_encoding_def
          eq_ignore_ascii_case_def to_ascii_lowercase_def ascii_def)
  show ?thesis
    using assms cl te content_length_decimal
    by (simp add: headers_frame_def request_body_kind_def hb_get_lookup client_request_ok_def)
qed

lemma content_length_header_ok: "header_ok (content_length_header n)"
  using to_decimal_plain[of n] to_decimal_digits[of n]
  by (simp add: header_ok_def content_length_header_def ascii_def is_ows_def)

lemma client_wire_ok:
  assumes "client_request_ok q host"
  shows "wire_request_ok (client_wire q host)"
proof -
  have "list_all header_ok (client_headers q host)"
    using assms content_length_header_ok by (auto simp: client_headers_def client_request_ok_def request_ok_def)
  then show ?thesis
    using assms client_headers_frame[OF assms] client_head_wire[of q host]
    unfolding wire_request_ok_def client_request_ok_def
    by (auto simp: client_wire_def request_ok_def body_wire_def intro!: exI[of _ "Content_Length (length (cq_body q))"])
qed

text \<open>Whatever the exchange then returns, the client has written exactly its request.\<close>

lemma client_send_writes:
  assumes "client_send q host c = (r, c1)" "writable c"
  shows "outgoing (io c1) = outgoing (io c) @ wire_bytes (client_wire q host)"
proof -
  let ?c = "c\<lparr>io := (io c)\<lparr>outgoing := outgoing (io c) @ client_head q host @ cq_body q\<rparr>\<rparr>"
  obtain x c2 where x: "read_response_head ?c = (x, c2)" by fastforce
  have "c1 = c2" using assms x write_message_writable[OF assms(2)]
    by (auto simp: client_send_def split: sum.splits)
  moreover have "outgoing (io c2) = outgoing (io ?c)" using read_response_head_frame[OF x] .
  ultimately show ?thesis by (simp add: wire_bytes_def client_head_wire) (simp add: client_wire_def)
qed

section \<open>Responses\<close>

lemma three_digits:
  assumes "100 \<le> s" "s \<le> 599"
  shows "to_decimal s = [word_of_nat (48 + s div 100), word_of_nat (48 + s div 10 mod 10), word_of_nat (48 + s mod 10)]"
proof -
  have "s div 10 div 10 = s div 100" "\<not> s < 10" "\<not> s div 10 < 10" "s div 10 div 10 < 10"
    using assms by (simp_all add: div_mult2_eq[symmetric])
  then show ?thesis by (simp add: to_decimal.simps[of s] to_decimal.simps[of "s div 10"] to_decimal.simps[of "s div 100"] del: of_nat_add)
qed

lemma digit_byte: "m < 10 \<Longrightarrow> unat (word_of_nat (48 + m) - 48 :: byte) = m \<and> is_ascii_digit (word_of_nat (48 + m))"
proof -
  assume m: "m < 10"
  have "unat (word_of_nat (48 + m) :: byte) = 48 + m" using m by (subst unat_of_nat) simp
  moreover have "(word_of_nat (48 + m) - 48 :: byte) = word_of_nat m" by simp
  moreover have "unat (word_of_nat m :: byte) = m" using m by (subst unat_of_nat) simp
  ultimately show ?thesis using m by (simp add: is_ascii_digit_def word_le_nat_alt del: of_nat_add)
qed

lemma nth_digits: "[x, y, z] ! 1 = y" "[x, y, z] ! 2 = z"
  by simp_all

lemma status_ok_reason:
  assumes "100 \<le> s" "s \<le> 599"
  shows "status_ok s (to_decimal s) (reason s)"
proof -
  let ?a = "s div 100" and ?b = "s div 10 mod 10" and ?c = "s mod 10"
  have lt: "?a < 10" "?b < 10" "?c < 10" using assms by simp_all
  have "s div 10 div 10 = s div 100" by (simp add: div_mult2_eq[symmetric])
  then have sum: "?a * 100 + ?b * 10 + ?c = s"
    using div_mult_mod_eq[of s 10] div_mult_mod_eq[of "s div 10" 10] by linarith
  have rsn: "13 \<notin> set (reason s) \<and> 10 \<notin> set (reason s) \<and>
      (reason s \<noteq> [] \<longrightarrow> \<not> is_ows (hd (reason s)) \<and> \<not> is_ows (last (reason s)))"
    by (simp add: reason_def ascii_def is_ows_def)
  let ?ds = "[word_of_nat (48 + ?a), word_of_nat (48 + ?b), word_of_nat (48 + ?c)] :: byte list"
  have "list_all is_ascii_digit ?ds" "length ?ds = 3"
    using digit_byte[OF lt(1)] digit_byte[OF lt(2)] digit_byte[OF lt(3)] by (simp_all del: of_nat_add)
  moreover have "unat (?ds ! 0 - 48) * 100 + unat (?ds ! 1 - 48) * 10 + unat (?ds ! 2 - 48) = s"
    unfolding nth_Cons_0 nth_digits digit_byte[OF lt(1), THEN conjunct1] digit_byte[OF lt(2), THEN conjunct1]
      digit_byte[OF lt(3), THEN conjunct1] by (rule sum)
  ultimately show ?thesis
    using assms rsn unfolding status_ok_def three_digits[OF assms] by (elim conjE, intro conjI) (assumption | rule sym)+
qed

definition response_headers :: "response_data \<Rightarrow> (byte list \<times> byte list) list" where
  "response_headers r =
     resp_headers r @ (if resp_body r = [] then [] else [content_length_header (length (resp_body r))])"

lemma head_of_response_wire:
  "head_of_response r = render_lines (status_line (to_decimal (resp_status r)) (reason (resp_status r))) (response_headers r)"
proof -
  have "head_of_response r =
      status_line (to_decimal (resp_status r)) (reason (resp_status r)) @ crlf @
      concat (map header_text (response_headers r)) @ crlf"
    by (simp add: head_of_response_def render_head_def response_headers_def status_line_def http_11_def
        header_text_def content_length_header_def ascii_def)
  then show ?thesis by (simp add: render_headers)
qed

text \<open>A response a handler may return: a status with a body, no framing headers.\<close>

definition response_data_ok :: "response_data \<Rightarrow> bool" where
  "response_data_ok r \<longleftrightarrow> 200 \<le> resp_status r \<and> resp_status r \<le> 599 \<and> resp_status r \<noteq> 204 \<and> resp_status r \<noteq> 304 \<and>
     list_all header_ok (resp_headers r) \<and>
     header_lookup h_content_length (resp_headers r) = None \<and>
     header_lookup h_transfer_encoding (resp_headers r) = None \<and>
     length (resp_body r) \<le> u64_max \<and> length (head_of_response r) + read_chunk \<le> max_head"

lemma response_kind:
  assumes "response_data_ok r" "hb_iter h = response_headers r"
  shows "response_body_kind h (resp_status r) False =
    Inr (if resp_body r = [] then Until_Eof else Content_Length (length (resp_body r)))"
proof -
  have te: "header_lookup h_transfer_encoding (response_headers r) = None"
    and cl: "header_lookup h_content_length (response_headers r) =
      (if resp_body r = [] then None else Some (to_decimal (length (resp_body r))))"
    using assms(1)
    by (simp_all add: response_data_ok_def response_headers_def header_lookup_append)
       (simp_all add: header_lookup_def content_length_header_def h_content_length_def h_transfer_encoding_def
          eq_ignore_ascii_case_def to_ascii_lowercase_def ascii_def)
  have "content_length_kind h = Inr (if resp_body r = [] then Empty_Body else Content_Length (length (resp_body r)))"
  proof (cases "resp_body r = []")
    case True
    then show ?thesis using cl assms(2) by (simp add: content_length_kind_def hb_get_lookup)
  next
    case False
    then show ?thesis using content_length_decimal[of h] cl assms by (simp add: response_data_ok_def)
  qed
  then show ?thesis
    using assms te by (auto simp: response_body_kind_def hb_get_lookup response_data_ok_def)
qed

lemma client_reads_response:
  assumes "response_data_ok r" "buf_small c" "\<not> eof c" "writable c"
    and "conn_bytes c = response_bytes r @ rest"
    and "\<not> eq_ignore_ascii_case (cq_method q) (ascii ''HEAD'')"
  shows "\<exists>h c1. client_send q host c =
      (Inr (h, body_reader_new (if resp_body r = [] then Until_Eof else Content_Length (length (resp_body r)))), c1) \<and>
    rs_status h = resp_status r \<and> rs_reason h = reason (resp_status r) \<and>
    hb_iter (rs_headers h) = response_headers r \<and> conn_bytes c1 = resp_body r @ rest \<and> \<not> eof c1 \<and>
    (clean c \<longrightarrow> clean c1) \<and> buf_small c1 \<and> writable c1"
proof -
  let ?c = "c\<lparr>io := (io c)\<lparr>outgoing := outgoing (io c) @ client_head q host @ cq_body q\<rparr>\<rparr>"
  have st: "status_ok (resp_status r) (to_decimal (resp_status r)) (reason (resp_status r))"
    using assms(1) by (intro status_ok_reason) (simp_all add: response_data_ok_def)
  have hs: "list_all header_ok (response_headers r)"
    using assms(1) content_length_header_ok by (simp add: response_data_ok_def response_headers_def)
  have small: "buf_small ?c" "\<not> eof ?c" using assms(2,3) by (simp_all add: buf_small_def)
  have len: "length (render_lines (status_line (to_decimal (resp_status r)) (reason (resp_status r))) (response_headers r)) +
      read_chunk \<le> max_head"
    using assms(1) head_of_response_wire[of r] by (simp add: response_data_ok_def)
  have bytes: "conn_bytes ?c = render_lines (status_line (to_decimal (resp_status r)) (reason (resp_status r)))
      (response_headers r) @ resp_body r @ rest"
    using assms(5) head_of_response_wire[of r] by (simp add: conn_bytes_def response_bytes_def)
  from read_response_head_bytes[OF st hs len small bytes]
  obtain h c1 where h: "read_response_head ?c = (Inr h, c1)" "conn_bytes c1 = resp_body r @ rest" "reads_from ?c c1"
      "rs_status h = resp_status r" "rs_reason h = reason (resp_status r)" "hb_iter (rs_headers h) = response_headers r"
    by blast
  have "client_send q host c =
      (Inr (h, body_reader_new (if resp_body r = [] then Until_Eof else Content_Length (length (resp_body r)))), c1)"
    using write_message_writable[OF assms(4)] h(1,4) assms(6) response_kind[OF assms(1) h(6)]
    by (simp add: client_send_def response_body_def)
  moreover have "clean c \<longrightarrow> clean c1" "buf_small c1" "writable c1"
    using h(3) small(1) assms(4) by (simp_all add: reads_from_def stays_def clean_def writable_def)
  ultimately show ?thesis using h reads_from_eof by blast
qed

section \<open>The pool\<close>

definition pool_ok :: "conn_pool \<Rightarrow> bool" where
  "pool_ok p \<longleftrightarrow> 1 \<le> max_idle_per_host p \<and>
     (\<forall>a ts. pool_idle p a = Some ts \<longrightarrow> length ts \<le> max_idle_per_host p)"

lemma pool_new_ok: "pool_ok (pool_new n)"
  by (simp add: pool_ok_def pool_new_def)

lemma pool_take_ok: "pool_take a p = (r, p1) \<Longrightarrow> pool_ok p \<Longrightarrow> pool_ok p1 \<and> max_idle_per_host p1 = max_idle_per_host p"
proof -
  assume r: "pool_take a p = (r, p1)" and ok: "pool_ok p"
  have "length ts - 1 \<le> max_idle_per_host p" if "pool_idle p a = Some ts" for ts
    using ok that unfolding pool_ok_def by (meson diff_le_self le_trans)
  then show ?thesis using r ok by (auto simp: pool_take_def pool_ok_def split: option.splits if_splits)
qed

lemma pool_put_max [simp]: "max_idle_per_host (pool_put a t p) = max_idle_per_host p"
  by (simp add: pool_put_def Let_def)

lemma pool_put_ok: "pool_ok p \<Longrightarrow> pool_ok (pool_put a t p)"
proof -
  assume ok: "pool_ok p"
  define slot where "slot = (case pool_idle p a of Some ts \<Rightarrow> ts | None \<Rightarrow> [])"
  have le: "length slot \<le> max_idle_per_host p" using ok by (auto simp: slot_def pool_ok_def split: option.splits)
  let ?slot = "if length slot < max_idle_per_host p then slot @ [t] else slot"
  have new: "length ?slot \<le> max_idle_per_host p" using le by simp
  have put: "pool_idle (pool_put a t p) = (pool_idle p)(a \<mapsto> ?slot)"
    by (simp add: pool_put_def slot_def Let_def)
  have "length ts \<le> max_idle_per_host p" if "pool_idle (pool_put a t p) b = Some ts" for b ts
  proof (cases "b = a")
    case True
    then have "ts = ?slot" using that unfolding put by simp
    then show ?thesis using new by simp
  next
    case False
    then show ?thesis using that ok unfolding put by (simp add: pool_ok_def)
  qed
  then show ?thesis using ok by (simp add: pool_ok_def)
qed

lemma take_or_connect_ok:
  "take_or_connect connect a p w = (r, p1, w1) \<Longrightarrow> pool_ok p \<Longrightarrow> pool_ok p1 \<and> max_idle_per_host p1 = max_idle_per_host p"
  using pool_take_ok[of a p] by (fastforce simp: take_or_connect_def split: prod.splits option.splits)

lemma finish_exchange_ok:
  "finish_exchange a h br c p = (r, p1) \<Longrightarrow> pool_ok p \<Longrightarrow> pool_ok p1 \<and> max_idle_per_host p1 = max_idle_per_host p"
  using pool_put_ok[of p]
  by (auto simp: finish_exchange_def split: prod.splits sum.splits if_splits)

lemma client_request_loop_pool:
  "client_request_loop connect m k a q p w = (r, p1, w1) \<Longrightarrow> pool_ok p \<Longrightarrow>
     pool_ok p1 \<and> max_idle_per_host p1 = max_idle_per_host p"
proof (induction connect m k a q p w rule: client_request_loop.induct)
  case (1 connect m k a0 q p w)
  define a where "a = (if a0 = [] then default_authority_for q else a0)"
  obtain x p2 w2 where x: "take_or_connect connect a p w = (x, p2, w2)" by (metis prod_cases3)
  have ok2: "pool_ok p2" "max_idle_per_host p2 = max_idle_per_host p"
    using take_or_connect_ok[OF x "1.prems"(2)] by auto
  note unf = "1.prems"(1)[unfolded client_request_loop.simps[of _ _ _ a0] Let_def, folded a_def, unfolded x prod.case]
  show ?case
  proof (cases x)
    case (Inl e)
    then show ?thesis using unf ok2 by simp
  next
    case (Inr t)
    obtain y c1 where y: "client_send q (host_of a) (conn_new t) = (y, c1)" by fastforce
    show ?thesis
    proof (cases y)
      case (Inl e)
      then show ?thesis using unf Inr y ok2 by simp
    next
      case hbr: (Inr z)
      obtain h br where z: "z = (h, br)" by fastforce
      show ?thesis
      proof (cases "300 \<le> rs_status h \<and> rs_status h < 400 \<and> rs_status h \<noteq> 304")
        case False
        then show ?thesis
          using unf Inr y hbr z ok2 finish_exchange_ok[of a h br c1 p2]
          by (auto split: prod.splits)
      next
        case True
        show ?thesis
        proof (cases "m \<le> k \<or> hb_get (ascii ''location'') (rs_headers h) = None")
          case True
          then show ?thesis using unf Inr y hbr z \<open>300 \<le> _ \<and> _\<close> ok2 by (auto split: if_splits)
        next
          case False
          then obtain v where v: "\<not> m \<le> k" "hb_get (ascii ''location'') (rs_headers h) = Some v" by auto
          obtain na nt where res: "resolve_redirect a (cq_target q) (utf8_lossy v) = (na, nt)" by fastforce
          have "client_request_loop connect m (k + 1) na (q\<lparr>cq_target := nt, cq_body := []\<rparr>) p2 w2 = (r, p1, w1)"
            using unf Inr y hbr z True v res by simp
          from "1.IH"[OF a_def x[symmetric] Inr refl y[symmetric] hbr z[symmetric] True v res[symmetric] this ok2(1)]
          show ?thesis using ok2(2) by simp
        qed
      qed
    qed
  qed
qed

end
