(* ===== verification/Http_Properties.thy ===== *)
theory Http_Properties
  imports Http_Exchange
begin

text \<open>
  The properties of the HTTP/1.1 components, each with a witness at a concrete exchange.
\<close>

section \<open>Bodies framed by the end of the stream\<close>

lemma body_read_until_eof:
  assumes "br_kind br = Until_Eof" "\<not> br_finished br" "0 < cap" "clean c"
  shows "\<exists>bs c1. body_read cap br c = (Inr bs, br\<lparr>br_finished := (bs = [])\<rparr>, c1) \<and> clean c1 \<and>
    (if bs = [] then conn_bytes c = [] else conn_bytes c = bs @ conn_bytes c1)"
proof -
  obtain r c1 where r: "read_raw cap c = (r, c1)" by fastforce
  have cl: "clean c1 \<and> \<not> isl r"
    using r assms(4)
    by (auto simp: read_raw_def clean_def Let_def dest!: tr_read_clean split: prod.splits sum.splits if_splits)
  then obtain bs where bs: "r = Inr bs" by (cases r) auto
  have "body_read cap br c = (Inr bs, br\<lparr>br_finished := (bs = [])\<rparr>, c1)"
    using assms(1-3) r bs by (cases br) (simp add: body_read_def)
  then show ?thesis using read_raw_bytes[OF r assms(3)] cl bs by auto
qed

lemma read_to_vec_loop_until_eof:
  "br_kind br = Until_Eof \<Longrightarrow> \<not> br_finished br \<Longrightarrow> clean c \<Longrightarrow> length out + length (conn_bytes c) \<le> m \<Longrightarrow>
     fst (read_to_vec_loop m out br c) = Inr (out @ conn_bytes c)"
proof (induction m out br c rule: read_to_vec_loop.induct)
  case (1 m out br c)
  have pos: "0 < (8192::nat)" by simp
  obtain bs c1 where r: "body_read 8192 br c = (Inr bs, br\<lparr>br_finished := (bs = [])\<rparr>, c1)" "clean c1"
      "if bs = [] then conn_bytes c = [] else conn_bytes c = bs @ conn_bytes c1"
    using body_read_until_eof[OF "1.prems"(1,2) pos "1.prems"(3)] by blast
  show ?case
  proof (cases "bs = []")
    case True
    then show ?thesis using r by (subst read_to_vec_loop.simps) simp
  next
    case False
    then have b: "conn_bytes c = bs @ conn_bytes c1" using r(3) by simp
    have small: "\<not> m < length out + length bs" using "1.prems"(4) b by simp
    have eq: "read_to_vec_loop m out br c = read_to_vec_loop m (out @ bs) (br\<lparr>br_finished := (bs = [])\<rparr>) c1"
      using r(1) False small by (subst read_to_vec_loop.simps) simp
    have pre: "br_kind (br\<lparr>br_finished := (bs = [])\<rparr>) = Until_Eof" "\<not> br_finished (br\<lparr>br_finished := (bs = [])\<rparr>)"
      "length (out @ bs) + length (conn_bytes c1) \<le> m"
      using "1.prems" b False by simp_all
    from "1.IH"[OF r(1)[symmetric] refl refl False small pre(1,2) r(2) pre(3)] b show ?thesis unfolding eq by simp
  qed
qed

section \<open>A concrete exchange\<close>

text \<open>A handler that reads the body and answers with it, counting its requests.\<close>

definition echo_handler :: "nat handler" where
  "echo_handler n req =
     Body_Bytes 1024 (\<lambda>res. case res of
        Inl e \<Rightarrow> Respond (response_new 400 [] []) (n + 1)
      | Inr b \<Rightarrow> Respond (response_ok (sr_target req @ b)) (n + 1))"

definition demo_get :: wire_request where
  "demo_get = \<lparr>wq_method = ascii ''GET'', wq_target = ascii ''/a'', wq_version = Http11, wq_headers = [],
     wq_body = [], wq_framed = []\<rparr>"

definition demo_transport :: "byte list \<Rightarrow> transport" where
  "demo_transport bs = \<lparr>incoming = [Chunk (take 7 bs), Idle, Chunk (drop 7 bs)], accepting = [], outgoing = [],
     flush_error = None\<rparr>"

lemma demo_transport_ok:
  assumes "7 < length bs"
  shows "conn_bytes (conn_new (demo_transport bs)) = bs" "clean (conn_new (demo_transport bs))"
    "writable (conn_new (demo_transport bs))" "buf_small (conn_new (demo_transport bs))"
    "\<not> eof (conn_new (demo_transport bs))" "outgoing (demo_transport bs) = []"
  using assms by (auto simp: conn_bytes_def conn_new_def demo_transport_def clean_def writable_def buf_small_def)

lemma demo_get_bytes:
  "wire_head demo_get = ascii ''GET /a HTTP/1.1'' @ [13, 10, 13, 10]" "wire_bytes demo_get = wire_head demo_get"
  by (simp_all add: wire_head_def wire_bytes_def demo_get_def render_lines_def joined_def request_line_def
      version_bytes_def version_bytes_simps header_delim_def ascii_def)

lemma demo_get_ok: "wire_request_ok demo_get"
proof -
  have "headers_frame [] Empty_Body"
    by (simp add: headers_frame_def request_body_kind_def content_length_kind_def hb_get_lookup header_lookup_def)
  moreover have "length (wire_head demo_get) + read_chunk \<le> max_head"
    by (simp add: demo_get_bytes ascii_def read_chunk_def max_head_def)
  moreover have "request_ok (wq_method demo_get) (wq_target demo_get) (wq_headers demo_get)"
    by (simp add: request_ok_def demo_get_def ascii_def is_tchar_strict_def)
  ultimately show ?thesis
    by (auto simp: wire_request_ok_def demo_get_def body_wire_def intro!: exI[of _ Empty_Body])
qed

lemma demo_get_keep: "wire_keep_alive demo_get"
  by (simp add: wire_keep_alive_def demo_get_def header_lookup_def)

definition demo_response :: response_data where
  "demo_response = response_ok (ascii ''/a'')"

lemma demo_answer:
  "answer (echo_handler n (wire_view demo_get)) (wq_framed demo_get = []) (wq_body demo_get) =
     Some (demo_response, n + 1, True)"
  by (simp add: echo_handler_def demo_get_def wire_view_def demo_response_def)

lemma demo_response_ok: "response_data_ok demo_response" "resp_body demo_response = ascii ''/a''"
proof -
  show b: "resp_body demo_response = ascii ''/a''"
    by (simp add: demo_response_def response_ok_def response_new_def)
  have "length (head_of_response demo_response) + read_chunk \<le> max_head"
    by (simp add: head_of_response_def render_head_def demo_response_def response_ok_def response_new_def
        reason_def ascii_def crlf_def to_decimal.simps read_chunk_def max_head_def)
  then show "response_data_ok demo_response"
    by (simp add: response_data_ok_def demo_response_def response_ok_def response_new_def header_lookup_def
        ascii_def u64_max_def)
qed

section \<open>Routing\<close>

lemma select_route_find:
  "select_route m p b rs =
     (case find (\<lambda>r. rt_path r = p \<and> rt_method r = m) rs of
        Some r \<Rightarrow> (True, Some r)
      | None \<Rightarrow> (b \<or> list_ex (\<lambda>r. rt_path r = p) rs, None))"
  by (induction rs arbitrary: b) (auto split: option.splits)

section \<open>Properties\<close>

text \<open>
  C5: Against any chunking and stalling of the peer, \<open>serve_connection\<close> answers the requests
  of a connection one after the other, each by what its handler makes of that request's head and
  body; it goes on exactly after an exchange that both sides keep alive, and then ends cleanly.
\<close>
theorem serve_answers_pipeline:
  assumes "serve_spec f h qs = Some (out, h1)" "list_all wire_request_ok qs"
    and "conn_bytes (conn_new t) = concat (map wire_bytes qs)"
    and "clean (conn_new t)" "writable (conn_new t)"
  shows "\<exists>c1. serve_connection f h t = (Inr (), h1, c1) \<and> outgoing (io c1) = outgoing t @ out"
proof -
  have "\<not> eof (conn_new t)" "buf_small (conn_new t)" "io (conn_new t) = t"
    by (simp_all add: conn_new_def buf_small_def)
  then show ?thesis using serve_loop_spec[OF assms(1-3) _ _ assms(5,4)] by (simp add: serve_connection_def)
qed

theorem serve_answers_pipeline_witness:
  "\<exists>c1. serve_connection echo_handler 0 (demo_transport (wire_bytes demo_get @ wire_bytes demo_get)) = (Inr (), 2, c1) \<and>
     outgoing (io c1) = response_bytes demo_response @ response_bytes demo_response"
proof -
  have spec: "serve_spec echo_handler 0 [demo_get, demo_get] = Some (response_bytes demo_response @ response_bytes demo_response, 2)"
    by (simp add: demo_answer demo_get_keep)
  have len: "7 < length (wire_bytes demo_get @ wire_bytes demo_get)" by (simp add: demo_get_bytes ascii_def)
  have ok: "list_all wire_request_ok [demo_get, demo_get]" by (simp add: demo_get_ok)
  have bytes: "conn_bytes (conn_new (demo_transport (wire_bytes demo_get @ wire_bytes demo_get))) =
      concat (map wire_bytes [demo_get, demo_get])"
    using demo_transport_ok(1)[OF len] by simp
  show ?thesis
    using serve_answers_pipeline[OF spec ok bytes demo_transport_ok(2,3)[OF len]] demo_transport_ok(6)[OF len] by simp
qed

text \<open>
  C19: What the client's \<open>send\<close> writes is, at a server that receives it in any chunks, a request
  with the same method, target, headers and body (plus the \<open>host\<close> and \<open>content-length\<close> headers it
  adds), and the server writes the handler's response to it.
\<close>
theorem server_gets_client_request:
  assumes "client_request_ok q host" "client_send q host c = (r, c1)" "writable c" "outgoing (io c) = []"
    and "conn_bytes (conn_new t) = outgoing (io c1)" "clean (conn_new t)" "writable (conn_new t)"
    and "answer (f h (wire_view (client_wire q host))) (cq_body q = []) (cq_body q) = Some (resp, h1, fin)"
  shows "\<exists>c2. serve_connection f h t = (Inr (), h1, c2) \<and>
    outgoing (io c2) = outgoing t @ response_bytes resp"
proof -
  have ans: "answer (f h (wire_view (client_wire q host))) (wq_framed (client_wire q host) = [])
      (wq_body (client_wire q host)) = Some (resp, h1, fin)"
    using assms(8) by (simp add: client_wire_def)
  have spec: "serve_spec f h [client_wire q host] = Some (response_bytes resp, h1)"
    unfolding serve_spec.simps ans by simp
  have bytes: "conn_bytes (conn_new t) = concat (map wire_bytes [client_wire q host])"
    using client_send_writes[OF assms(2,3)] assms(4,5) by simp
  have start: "\<not> eof (conn_new t)" "buf_small (conn_new t)" "io (conn_new t) = t"
    by (simp_all add: conn_new_def buf_small_def)
  have "list_all wire_request_ok [client_wire q host]" using client_wire_ok[OF assms(1)] by simp
  from serve_loop_spec[OF spec this bytes start(1,2) assms(7,6)] start(3)
  show ?thesis by (simp add: serve_connection_def)
qed

definition demo_request :: client_request where
  "demo_request = client_request_new (ascii ''GET'') (ascii ''/a'')"

lemma demo_request_ok: "client_request_ok demo_request (ascii ''h'')"
  by (simp add: client_request_ok_def demo_request_def client_request_new_def request_ok_def header_ok_def
      header_lookup_def is_tchar_strict_def ascii_def is_ows_def client_head_def crlf_def to_decimal.simps
      read_chunk_def max_head_def u64_max_def)

theorem server_gets_client_request_witness:
  "\<exists>c2. serve_connection echo_handler 0 (demo_transport (wire_bytes (client_wire demo_request (ascii ''h'')))) = (Inr (), 1, c2) \<and>
     outgoing (io c2) = response_bytes demo_response"
proof -
  let ?c = "conn_new (demo_transport (response_bytes demo_response))"
  let ?w = "wire_bytes (client_wire demo_request (ascii ''h''))"
  obtain r c1 where r: "client_send demo_request (ascii ''h'') ?c = (r, c1)" by fastforce
  have c: "writable ?c" "outgoing (io ?c) = []"
    by (simp_all add: conn_new_def demo_transport_def writable_def)
  have len: "7 < length ?w"
    by (simp add: wire_bytes_def client_head_wire[symmetric] client_head_def demo_request_def client_request_new_def ascii_def)
  have out: "conn_bytes (conn_new (demo_transport ?w)) = outgoing (io c1)"
    using client_send_writes[OF r c(1)] c(2) demo_transport_ok(1)[OF len] by simp
  have ans: "answer (echo_handler 0 (wire_view (client_wire demo_request (ascii ''h'')))) (cq_body demo_request = [])
      (cq_body demo_request) = Some (demo_response, 1, True)"
    by (simp add: echo_handler_def demo_request_def client_request_new_def wire_view_def client_wire_def demo_response_def)
  show ?thesis
    using server_gets_client_request[where f = echo_handler and h = 0, OF demo_request_ok r c out demo_transport_ok(2,3)[OF len] ans]
      demo_transport_ok(6)[OF len] by simp
qed

text \<open>
  C20: A response with a body that \<open>serve_connection\<close> writes is read by the client, in any
  chunks, with the same status, reason, headers and body, and the bytes behind it stay on the
  connection.
\<close>
theorem client_gets_server_response:
  assumes "response_data_ok r" "resp_body r \<noteq> []" "length (resp_body r) \<le> m"
    and "buf_small c" "\<not> eof c" "writable c" "conn_bytes c = response_bytes r @ rest"
    and "\<not> eq_ignore_ascii_case (cq_method q) (ascii ''HEAD'')"
  shows "\<exists>h br c1 br2 c2. client_send q host c = (Inr (h, br), c1) \<and>
    rs_status h = resp_status r \<and> rs_reason h = reason (resp_status r) \<and>
    hb_iter (rs_headers h) = resp_headers r @ [content_length_header (length (resp_body r))] \<and>
    read_to_vec m br c1 = (Inr (resp_body r), br2, c2) \<and> conn_bytes c2 = rest"
proof -
  from client_reads_response[OF assms(1,4-8), of host] obtain h c1 where
    h: "client_send q host c = (Inr (h, body_reader_new (Content_Length (length (resp_body r)))), c1)"
      "rs_status h = resp_status r" "rs_reason h = reason (resp_status r)" "hb_iter (rs_headers h) = response_headers r"
      "conn_bytes c1 = resp_body r @ rest" "\<not> eof c1"
    using assms(2) by auto
  have "body_pending (body_reader_new (Content_Length (length (resp_body r)))) (conn_bytes c1) (resp_body r) rest"
    using body_pending_content_length h(5) by simp
  from read_to_vec_pending[OF this h(6) assms(3)] show ?thesis
    using h(1-4) assms(2) by (auto simp: response_headers_def)
qed

lemma demo_response_length: "7 < length (response_bytes r @ xs)"
  by (simp add: response_bytes_def head_of_response_def render_head_def ascii_def)

theorem client_gets_server_response_witness:
  "\<exists>h br c1 br2 c2. client_send demo_request (ascii ''h'') (conn_new (demo_transport (response_bytes demo_response @ [1, 2]))) =
      (Inr (h, br), c1) \<and> rs_status h = 200 \<and> rs_reason h = ascii ''OK'' \<and>
    read_to_vec 2 br c1 = (Inr (ascii ''/a''), br2, c2) \<and> conn_bytes c2 = [1, 2]"
proof -
  note t = demo_transport_ok[OF demo_response_length[of demo_response "[1, 2]"]]
  have m: "resp_body demo_response \<noteq> []" "length (resp_body demo_response) \<le> 2"
    and hd: "\<not> eq_ignore_ascii_case (cq_method demo_request) (ascii ''HEAD'')"
    by (simp_all add: demo_response_ok(2) demo_request_def client_request_new_def ascii_def eq_ignore_ascii_case_def
        to_ascii_lowercase_def)
  have st: "resp_status demo_response = 200" "reason 200 = ascii ''OK''"
    by (simp_all add: demo_response_def response_ok_def response_new_def reason_def)
  from client_gets_server_response[OF demo_response_ok(1) m t(4,5,3,1) hd, of "ascii ''h''"]
  show ?thesis unfolding demo_response_ok(2) st by blast
qed

text \<open>
  A response without a body is written without any framing, so the client takes whatever
  comes behind it on the kept-alive connection, the next response, as its body.
\<close>
theorem empty_response_swallows_next:
  assumes "response_data_ok r" "resp_body r = []"
    and "buf_small c" "\<not> eof c" "writable c" "clean c" "conn_bytes c = response_bytes r @ rest"
    and "\<not> eq_ignore_ascii_case (cq_method q) (ascii ''HEAD'')" "length rest \<le> m"
  shows "\<exists>h br c1. client_send q host c = (Inr (h, br), c1) \<and> rs_status h = resp_status r \<and>
    fst (read_to_vec m br c1) = Inr rest"
proof -
  from client_reads_response[OF assms(1,3-5,7,8), of host] obtain h c1 where
    h: "client_send q host c = (Inr (h, body_reader_new Until_Eof), c1)" "rs_status h = resp_status r"
      "conn_bytes c1 = rest" "clean c1"
    using assms(2,6) by auto
  have "fst (read_to_vec m (body_reader_new Until_Eof) c1) = Inr rest"
    using read_to_vec_loop_until_eof[of "body_reader_new Until_Eof" c1 "[]" m] h(3,4) assms(9)
    by (simp add: read_to_vec_def body_reader_new_def)
  then show ?thesis using h by blast
qed

theorem empty_response_swallows_next_witness:
  "\<exists>h br c1. client_send demo_request (ascii ''h'')
      (conn_new (demo_transport (response_bytes (response_ok []) @ response_bytes demo_response))) = (Inr (h, br), c1) \<and>
    rs_status h = 200 \<and> fst (read_to_vec 1024 br c1) = Inr (response_bytes demo_response)"
proof -
  note t = demo_transport_ok[OF demo_response_length[of "response_ok []" "response_bytes demo_response"]]
  have r: "response_data_ok (response_ok [])" "resp_body (response_ok []) = []" "resp_status (response_ok []) = 200"
    by (simp_all add: response_data_ok_def response_ok_def response_new_def header_lookup_def
        head_of_response_def render_head_def reason_def ascii_def crlf_def to_decimal.simps read_chunk_def max_head_def)
  have hd: "\<not> eq_ignore_ascii_case (cq_method demo_request) (ascii ''HEAD'')"
    by (simp add: demo_request_def client_request_new_def ascii_def eq_ignore_ascii_case_def to_ascii_lowercase_def)
  have len: "length (response_bytes demo_response) \<le> 1024"
    by (simp add: response_bytes_def head_of_response_def render_head_def demo_response_def response_ok_def response_new_def
        reason_def ascii_def crlf_def to_decimal.simps)
  from empty_response_swallows_next[OF r(1,2) t(4,5,3,2,1) hd len, of "ascii ''h''"] show ?thesis unfolding r(3) .
qed

text \<open>
  C31: A chunked body, with any chunk extensions and trailers and in any pieces, is read as the
  concatenation of its chunks' data, to the byte, when it fits the limit, and refused when not.
\<close>
theorem chunked_body_read:
  assumes "list_all (\<lambda>(ext, d). d \<noteq> [] \<and> length d \<le> u64_max \<and> (ext = [] \<or> hd ext = 59) \<and> 13 \<notin> set ext \<and>
      length ext + 17 + read_chunk \<le> max_head) cs"
    and "last_chunk_ok last_line trailers"
    and "conn_bytes c = chunked_bytes (map (\<lambda>(ext, d). (hex_line (length d) @ ext, d)) cs) last_line trailers @ rest"
    and "\<not> eof c"
  shows "if length (concat (map snd cs)) \<le> m
    then \<exists>br c1. read_to_vec m (body_reader_new Chunked) c = (Inr (concat (map snd cs)), br, c1) \<and>
      br_finished br \<and> conn_bytes c1 = rest
    else fst (read_to_vec m (body_reader_new Chunked) c) = Inl (Http_Parse ''body exceeds limit'')"
proof -
  let ?cs = "map (\<lambda>(ext, d). (hex_line (length d) @ ext, d)) cs"
  have "chunk_ok (hex_line (length d) @ ext, d)" if "(ext, d) \<in> set cs" for ext d
    using assms(1) that by (intro chunk_ok_hex) (auto simp: list_all_iff)
  then have "list_all chunk_ok ?cs" by (auto simp: list_all_iff)
  from body_pending_chunked[OF this assms(2)] assms(3)
  have p: "body_pending (body_reader_new Chunked) (conn_bytes c) (concat (map snd ?cs)) rest" by simp
  have cs: "map snd ?cs = map snd cs" by auto
  show ?thesis
    using read_to_vec_pending[OF p assms(4), of m] read_to_vec_loop_limit[OF p assms(4), of "[]" m]
    unfolding cs by (auto simp: read_to_vec_def)
qed

lemma demo_last_chunk: "last_chunk_ok [48] []"
proof -
  have "hex_line 0 = [48]" by (simp add: hex_line.simps hex_digit_def)
  then have "parse_chunk_size [48] = Inr 0" using parse_chunk_size_hex[of 0 "[]"] by (simp add: u64_max_def)
  then show ?thesis by (simp add: last_chunk_ok_def line_ok_def read_chunk_def max_head_def)
qed

theorem chunked_body_read_witness:
  "fst (read_to_vec 5 (body_reader_new Chunked)
     (conn_new (demo_transport (ascii ''3;x=1'' @ crlf @ ascii ''abc'' @ crlf @ ascii ''2'' @ crlf @ ascii ''de'' @ crlf @
        ascii ''0'' @ crlf @ crlf)))) = Inr (ascii ''abcde'')"
proof -
  let ?cs = "[(ascii '';x=1'', ascii ''abc''), ([], ascii ''de'')]"
  let ?w = "ascii ''3;x=1'' @ crlf @ ascii ''abc'' @ crlf @ ascii ''2'' @ crlf @ ascii ''de'' @ crlf @
        ascii ''0'' @ crlf @ crlf"
  have w: "?w = chunked_bytes (map (\<lambda>(ext, d). (hex_line (length d) @ ext, d)) ?cs) [48] [] @ []"
    by (simp add: chunked_bytes_def chunk_bytes_def last_chunk_def hex_line.simps hex_digit_def ascii_def crlf_def)
  have ok: "list_all (\<lambda>(ext, d). d \<noteq> [] \<and> length d \<le> u64_max \<and> (ext = [] \<or> hd ext = 59) \<and> 13 \<notin> set ext \<and>
      length ext + 17 + read_chunk \<le> max_head) ?cs"
    by (simp add: ascii_def u64_max_def read_chunk_def max_head_def)
  have len: "7 < length ?w" by (simp add: ascii_def)
  have b: "conn_bytes (conn_new (demo_transport ?w)) =
      chunked_bytes (map (\<lambda>(ext, d). (hex_line (length d) @ ext, d)) ?cs) [48] [] @ []"
    unfolding demo_transport_ok(1)[OF len] by (rule w)
  from chunked_body_read[OF ok demo_last_chunk b demo_transport_ok(5)[OF len], of 5]
  show ?thesis by (auto simp: ascii_def)
qed

text \<open>
  A body announced by \<open>Content-Length\<close> that \<open>body_bytes\<close> returns has exactly as many bytes as
  announced and they are the next bytes of the connection: a peer that closes early makes it an
  error, never a short body.
\<close>
theorem content_length_never_short:
  assumes "read_to_vec m (body_reader_new (Content_Length n)) c = (Inr v, br, c1)"
  shows "length v = n \<and> conn_bytes c = v @ conn_bytes c1"
proof -
  have "br_kind (body_reader_new (Content_Length n)) = Content_Length n"
    "br_finished (body_reader_new (Content_Length n)) \<longrightarrow> br_remaining (body_reader_new (Content_Length n)) = 0"
    "br_remaining (body_reader_new (Content_Length n)) = n"
    by (simp_all add: body_reader_new_def)
  then show ?thesis
    using read_to_vec_loop_content_length[OF assms[unfolded read_to_vec_def]] by auto
qed

theorem content_length_never_short_witness:
  "fst (read_to_vec 10 (body_reader_new (Content_Length 3))
      \<lparr>io = \<lparr>incoming = [Chunk [3]], accepting = [], outgoing = [], flush_error = None\<rparr>, conn_buf = [1, 2], eof = False\<rparr>)
    = Inr [1, 2, 3] \<and> length [1, 2, 3 :: byte] = 3"
proof -
  let ?c = "\<lparr>io = \<lparr>incoming = [Chunk [3]], accepting = [], outgoing = [], flush_error = None\<rparr>, conn_buf = [1, 2], eof = False\<rparr>"
  obtain br c1 where r: "read_to_vec 10 (body_reader_new (Content_Length 3)) ?c = (Inr [1, 2, 3], br, c1)"
    by (simp add: read_to_vec_def read_to_vec_loop.simps body_read_def body_reader_new_def read_content_length_def
        read_raw_def tr_read.simps tr_poll_read.simps Let_def)
  then show ?thesis using content_length_never_short[OF r] by simp
qed

text \<open>
  Every range a successful head parse returns, of the method or reason, the target, and each
  header's name and value, lies within the head it consumed, and the head within the buffer.
\<close>
theorem head_ranges_in_buffer:
  assumes "parse_request_ranges buf = Inr (Some r) \<or> parse_response_ranges buf = Inr (Some r)"
  shows "ranges_ok buf r"
  using assms parse_request_ranges_ok parse_response_ranges_ok by blast

theorem head_ranges_in_buffer_witness:
  "\<exists>r. parse_request_ranges (wire_head demo_get @ [1]) = Inr (Some r) \<and> ranges_ok (wire_head demo_get @ [1]) r"
proof -
  have ok: "request_ok (wq_method demo_get) (wq_target demo_get) (wq_headers demo_get)"
    using demo_get_ok by (simp add: wire_request_ok_def)
  have len: "length (wire_head demo_get @ [1]) \<le> max_head" by (simp add: demo_get_bytes ascii_def max_head_def)
  obtain r where "parse_request_ranges (wire_head demo_get @ [1]) = Inr (Some r)"
    using parse_rendered_request[OF ok len[unfolded wire_head_def]] by (auto simp: wire_head_def)
  then show ?thesis using head_ranges_in_buffer by blast
qed

text \<open>
  Whatever the connector, the servers and the redirects do, a pooled request leaves every
  host with at most \<open>max_idle_per_host\<close> idle connections and does not change that limit.
\<close>
theorem pool_stays_bounded:
  assumes "http_request connect q max_redirects p w = (r, p1, w1)" "pool_ok p"
  shows "pool_ok p1 \<and> max_idle_per_host p1 = max_idle_per_host p"
  using client_request_loop_pool[OF _ assms(2)] assms(1) by (simp add: http_request_def)

theorem pool_stays_bounded_witness:
  "pool_ok (fst (snd (http_request (\<lambda>w a. (Inr (demo_transport (response_bytes demo_response)), w))
     demo_request 3 (pool_new 0) ())))"
proof -
  obtain r p1 w1 where r: "http_request (\<lambda>w a. (Inr (demo_transport (response_bytes demo_response)), w))
      demo_request 3 (pool_new 0) () = (r, p1, w1)" by (metis prod_cases3)
  from pool_stays_bounded[OF r pool_new_ok] r show ?thesis by simp
qed

text \<open>
  The router's loop with its two mutable flags is the lookup of the first route with the
  request's path (without its query) and method; without one the answer is 405 when some route
  has the path, and the fallback's otherwise.
\<close>
theorem router_is_first_match:
  "router_handle rt st req =
     (case find (\<lambda>r. rt_path r = path_only (sr_target req) \<and> rt_method r = sr_method req) (routes rt) of
        Some r \<Rightarrow> rt_handler r req
      | None \<Rightarrow>
          if list_ex (\<lambda>r. rt_path r = path_only (sr_target req)) (routes rt)
          then Respond (response_new 405 [] (ascii ''method not allowed'')) ()
          else fallback rt req)"
  unfolding router_handle_def select_route_find by (simp split: option.split)

end
