(* ===== verification/Http_Cancel.thy ===== *)
theory Http_Cancel
  imports Http_Polls Http_Properties
begin

text \<open>
  Reads of the HTTP connection that are dropped while they are pending.  A dropped \<open>fill\<close> leaves the zero
  bytes in the buffer that it had added to read into, so a head or line that is read afterwards starts
  with them; a raw read leaves the connection as it was; a read of a body is safe to drop except where
  it waits for the line break after a chunk, or for a line.
\<close>

section \<open>Heads\<close>

lemma first_line_zero:
  assumes "first_line (take n (0 # xs)) = Some rl"
  shows "\<exists>l. slice (0 # xs) rl = 0 # l"
  using assms
  by (cases n; cases "take (n - 1) xs")
     (auto simp: first_line_def slice_def split: option.splits if_splits)

text \<open>A buffer that starts with a zero byte is no head, whatever follows.\<close>

lemma zero_no_request: "parse_request_ranges (0 # xs) \<noteq> Inr (Some r)"
proof
  assume "parse_request_ranges (0 # xs) = Inr (Some r)"
  then obtain n rl mtv where f: "first_line (take n (0 # xs)) = Some rl" "parse_request_line (slice (0 # xs) rl) = Inr mtv"
    by (auto simp: parse_request_ranges_def split: sum.splits option.splits prod.splits)
  obtain l where "slice (0 # xs) rl = 0 # l" using first_line_zero[OF f(1)] by blast
  then show False using f(2) by (auto simp: parse_request_line_def is_tchar_strict_def split: option.splits if_splits)
qed

lemma zero_no_response: "parse_response_ranges (0 # xs) \<noteq> Inr (Some r)"
proof
  assume "parse_response_ranges (0 # xs) = Inr (Some r)"
  then obtain n rl vsr where f: "first_line (take n (0 # xs)) = Some rl" "parse_status_line (slice (0 # xs) rl) = Inr vsr"
    by (auto simp: parse_response_ranges_def split: sum.splits option.splits prod.splits)
  obtain l where "slice (0 # xs) rl = 0 # l" using first_line_zero[OF f(1)] by blast
  then show False using f(2) by (auto simp: parse_status_line_def http_11_def http_10_def ascii_def split: if_splits)
qed

lemma conn_fill_prefix:
  assumes "conn_fill c = (r, c1)" "conn_buf c = 0 # xs"
  shows "\<exists>ys. conn_buf c1 = 0 # ys"
  using assms by (auto simp: conn_fill_def split: prod.splits sum.splits if_splits)

lemma zero_request_fails: "conn_buf c = 0 # xs \<Longrightarrow> \<exists>e c2. read_request_head c = (Inl e, c2)"
proof (induction c arbitrary: xs rule: read_request_head.induct)
  case (1 c)
  obtain r c1 where f: "conn_fill c = (r, c1)" by fastforce
  obtain ys where ys: "conn_buf c1 = 0 # ys" using conn_fill_prefix[OF f "1.prems"] by blast
  show ?case
  proof (cases "parse_request_ranges (conn_buf c)")
    case (Inl e)
    then show ?thesis by (simp add: read_request_head.simps)
  next
    case (Inr x)
    then have x: "parse_request_ranges (conn_buf c) = Inr None"
      using zero_no_request[of xs] "1.prems" by (cases x) auto
    then show ?thesis
      using "1.IH"[OF x refl f[symmetric] _ _ ys] f ys
      by (cases r) (auto simp: read_request_head.simps[of c])
  qed
qed

lemma zero_response_fails: "conn_buf c = 0 # xs \<Longrightarrow> \<exists>e c2. read_response_head c = (Inl e, c2)"
proof (induction c arbitrary: xs rule: read_response_head.induct)
  case (1 c)
  obtain r c1 where f: "conn_fill c = (r, c1)" by fastforce
  obtain ys where ys: "conn_buf c1 = 0 # ys" using conn_fill_prefix[OF f "1.prems"] by blast
  show ?case
  proof (cases "parse_response_ranges (conn_buf c)")
    case (Inl e)
    then show ?thesis by (simp add: read_response_head.simps)
  next
    case (Inr x)
    then have x: "parse_response_ranges (conn_buf c) = Inr None"
      using zero_no_response[of xs] "1.prems" by (cases x) auto
    then show ?thesis
      using "1.IH"[OF x refl f[symmetric] _ _ ys] f ys
      by (cases r) (auto simp: read_response_head.simps[of c])
  qed
qed

text \<open>What a dropped \<open>fill\<close> leaves.\<close>

lemma fill_pending:
  assumes "fill_poll Fill_Start c = (Pending, s1, c1)"
  shows "conn_buf c1 = conn_buf c @ replicate read_chunk 0"
  using assms by (auto simp: fill_io_def Let_def split: prod.splits poll.splits sum.splits if_splits)

lemma request_head_pending:
  assumes "conn_buf c = []" "incoming (io c) = Idle # script"
  shows "\<exists>s1 c1. request_head_poll Fill_Start c = (Pending, s1, c1) \<and> conn_buf c1 = replicate read_chunk 0 \<and>
    incoming (io c1) = script"
proof -
  have "parse_request_ranges [] = Inr None"
    by (simp add: parse_request_ranges_def find_head_end_def memchr_find_def header_delim_def crlf_rposition_def
        windows2_def max_head_def)
  then show ?thesis
    using assms
    by (simp add: request_head_poll_def buffered_poll.simps[of _ _ Fill_Start] head_check_def[of _ _ c] fill_io_def
        tr_poll_read.simps)
qed

text \<open>
  A valid request that arrives after a stall is read, but not if an earlier \<open>read_request_head\<close> was
  dropped during the stall: the 8192 zero bytes that it left in the buffer come first, and the next read
  of a head from the connection fails.
\<close>

theorem dropped_head_read_poisons:
  assumes "request_ok m t hs" "length (render_lines (request_line m t v) hs) + read_chunk \<le> max_head"
    and "conn_buf c = []" "\<not> eof c" "incoming (io c) = Idle # script"
    and "pending_bytes script = render_lines (request_line m t v) hs @ rest"
  shows "(\<exists>h c1. read_request_head c = (Inr (Some h), c1) \<and> rq_method h = m \<and> rq_target h = t) \<and>
    (\<exists>s1 c1. request_head_poll Fill_Start c = (Pending, s1, c1) \<and> conn_buf c1 = replicate read_chunk 0 \<and>
       (\<exists>e c2. read_request_head c1 = (Inl e, c2)))"
proof -
  have small: "buf_small c" using assms(3) by (simp add: buf_small_def)
  have bytes: "conn_bytes c = render_lines (request_line m t v) hs @ rest"
    using assms(3,5,6) by (simp add: conn_bytes_def)
  obtain s1 c1 where c1: "request_head_poll Fill_Start c = (Pending, s1, c1)" "conn_buf c1 = replicate read_chunk 0"
    using request_head_pending[OF assms(3,5)] by blast
  have "replicate read_chunk 0 = (0 :: byte) # replicate (read_chunk - 1) 0"
    by (simp add: read_chunk_def flip: replicate_Suc)
  then show ?thesis
    using read_request_head_bytes[OF assms(1,2) small assms(4) bytes] c1 zero_request_fails[of c1] by fastforce
qed

theorem dropped_head_read_poisons_witness:
  "\<exists>s1 c1 e c2. request_head_poll Fill_Start
       (conn_new \<lparr>incoming = [Idle, Chunk (wire_bytes demo_get)], accepting = [], outgoing = [], flush_error = None\<rparr>) =
       (Pending, s1, c1) \<and> read_request_head c1 = (Inl e, c2)"
proof -
  have ok: "request_ok (wq_method demo_get) (wq_target demo_get) (wq_headers demo_get)"
      "length (render_lines (request_line (wq_method demo_get) (wq_target demo_get) (wq_version demo_get)) (wq_headers demo_get)) + read_chunk \<le> max_head"
    using demo_get_ok by (simp_all add: wire_request_ok_def wire_head_def)
  let ?c = "conn_new \<lparr>incoming = [Idle, Chunk (wire_bytes demo_get)], accepting = [], outgoing = [], flush_error = None\<rparr>"
  have "conn_buf ?c = []" "\<not> eof ?c" "incoming (io ?c) = Idle # [Chunk (wire_bytes demo_get)]" by (simp_all add: conn_new_def)
  moreover have "pending_bytes [Chunk (wire_bytes demo_get)] =
      render_lines (request_line (wq_method demo_get) (wq_target demo_get) (wq_version demo_get)) (wq_headers demo_get) @ []"
    by (simp add: demo_get_bytes(2) flip: wire_head_def)
  ultimately show ?thesis using dropped_head_read_poisons[OF ok] by blast
qed

section \<open>Bodies\<close>

text \<open>Waiting for raw bytes does not depend on the room for them.\<close>

lemma poll_raw_pending: "poll_raw n c = (Pending, c1) \<Longrightarrow> poll_raw m c = (Pending, c1)"
  by (auto simp: poll_raw_def Let_def tr_poll_read.simps split: if_splits list.splits read_event.splits prod.splits)

lemma chunk_data_waits:
  assumes "chunk_data_poll cap (br, c) = (Pending, Ch_Data, br1, c1)"
  shows "br1 = br \<and> chunk_data_poll cap2 (br, c) = (Pending, Ch_Data, br1, c1)"
proof -
  obtain c2 where "poll_raw (min cap (br_chunk_remaining br)) c = (Pending, c2)"
    using assms by (auto simp: Let_def split: prod.splits poll.splits sum.splits if_splits)
  from this poll_raw_pending[OF this, of "min cap2 (br_chunk_remaining br)"] show ?thesis using assms by simp
qed

lemma chunk_line_waits:
  assumes "chunk_line_poll cap s (br, c) = (Pending, s1, br1, c1)" "\<And>out got. s1 \<noteq> Ch_Crlf out got"
  shows "(s1 = Ch_Data \<longrightarrow> 0 < br_chunk_remaining br1) \<and> chunk_line_poll cap2 s (br, c) = (Pending, s1, br1, c1)"
proof -
  obtain p s2 c2 where p: "read_line_poll s c = (p, s2, c2)" by (metis prod_cases3)
  show ?thesis
  proof (cases "\<exists>l sz. p = Ready (Inr l) \<and> parse_chunk_size l = Inr sz \<and> sz \<noteq> 0")
    case True
    then obtain l sz where l: "p = Ready (Inr l)" "parse_chunk_size l = Inr sz" "sz \<noteq> 0" by blast
    have d: "chunk_data_poll cap (br\<lparr>br_chunk_remaining := sz\<rparr>, c2) = (Pending, s1, br1, c1)"
      using assms(1) p l by (simp del: chunk_data_poll.simps)
    then have "s1 = Ch_Data"
      using assms(2) by (auto simp: Let_def split: prod.splits poll.splits sum.splits if_splits)
    then show ?thesis using chunk_data_waits[of cap "br\<lparr>br_chunk_remaining := sz\<rparr>" c2 br1 c1 cap2] d p l by (auto simp del: chunk_data_poll.simps)
  next
    case False
    then show ?thesis using assms(1) p by (auto split: prod.splits poll.splits sum.splits if_splits)
  qed
qed

text \<open>
  A chunked read that waits, but not for the line break after a chunk, waits in the same way whatever its
  buffer is; if it waits for data there is data left in the chunk.
\<close>

lemma read_chunked_waits:
  assumes "read_chunked_poll cap s (br, c) = (Pending, s1, br1, c1)" "\<And>out got. s1 \<noteq> Ch_Crlf out got"
    and "s = Ch_Data \<longrightarrow> 0 < br_chunk_remaining br"
  shows "(s1 = Ch_Data \<longrightarrow> 0 < br_chunk_remaining br1) \<and> read_chunked_poll cap2 s (br, c) = (Pending, s1, br1, c1)"
proof -
  have dat: ?thesis if "read_chunked_poll cap s (br, c) = chunk_data_poll cap (br, c)"
      "read_chunked_poll cap2 s (br, c) = chunk_data_poll cap2 (br, c)" "0 < br_chunk_remaining br"
  proof -
    have "s1 = Ch_Data"
      using assms(1,2) that(1) by (auto simp: Let_def split: prod.splits poll.splits sum.splits if_splits)
    then show ?thesis using chunk_data_waits[of cap br c br1 c1 cap2] assms(1) that by auto
  qed
  show ?thesis
  proof (cases s)
    case Ch_Top
    then show ?thesis
      using dat assms(1,2) chunk_line_waits[of cap Fill_Start br c s1 br1 c1 cap2]
      by (cases "0 < br_chunk_remaining br") (auto simp del: chunk_data_poll.simps chunk_line_poll.simps)
  next
    case Ch_Data
    then show ?thesis using dat assms(3) by simp
  next
    case (Ch_Line s2)
    then show ?thesis using assms(1,2) chunk_line_waits[of cap s2 br c s1 br1 c1 cap2] by (simp del: chunk_line_poll.simps)
  qed (use assms(1,2) in \<open>auto split: prod.splits poll.splits sum.splits\<close>)
qed

lemma body_pending_kind:
  assumes "body_poll cap s (br, c) = (Pending, s1, br1, c1)"
  shows "br_kind br1 = br_kind br \<and> \<not> br_finished br1"
proof -
  have go: "\<not> br_finished br" "cap \<noteq> 0" using assms by (auto split: if_splits)
  show ?thesis
  proof (cases "br_kind br = Chunked")
    case True
    then have "read_chunked_poll cap s (br, c) = (Pending, s1, br1, c1)"
      using assms go by (auto simp del: read_chunked_poll.simps split: prod.splits poll.splits sum.splits)
    then show ?thesis
      using chunked_stands[of cap "(br, c)" s] go True by (simp add: stands_ok_def del: read_chunked_poll.simps)
  qed (use assms go in \<open>auto split: prod.splits poll.splits sum.splits if_splits body_kind.splits\<close>)
qed

lemma body_waits:
  assumes "body_poll cap s (br, c) = (Pending, s1, br1, c1)" "cap2 \<noteq> 0"
    and "br_kind br = Chunked \<longrightarrow> (\<forall>out got. s1 \<noteq> Ch_Crlf out got) \<and> (s = Ch_Data \<longrightarrow> 0 < br_chunk_remaining br)"
  shows "body_poll cap2 s (br, c) = (Pending, s1, br1, c1) \<and>
    (br_kind br = Chunked \<longrightarrow> s1 = Ch_Data \<longrightarrow> 0 < br_chunk_remaining br1)"
proof -
  have go: "\<not> br_finished br" "cap \<noteq> 0" using assms(1) by (auto split: if_splits)
  show ?thesis
  proof (cases "br_kind br")
    case Chunked
    then have p: "read_chunked_poll cap s (br, c) = (Pending, s1, br1, c1)"
      using assms(1) go by (auto simp del: read_chunked_poll.simps split: prod.splits poll.splits sum.splits)
    then show ?thesis using read_chunked_waits[OF p, of cap2] assms(2,3) Chunked go by (simp del: read_chunked_poll.simps)
  next
    case (Content_Length n)
    then obtain c2 where "poll_raw (min cap (br_remaining br)) c = (Pending, c2)" "br_remaining br \<noteq> 0"
      using assms(1) go by (auto split: prod.splits poll.splits sum.splits if_splits)
    from this poll_raw_pending[OF this(1), of "min cap2 (br_remaining br)"] show ?thesis
      using assms(1,2) go Content_Length by simp
  next
    case Until_Eof
    then obtain c2 where "poll_raw cap c = (Pending, c2)"
      using assms(1) go by (auto split: prod.splits poll.splits sum.splits if_splits)
    from this poll_raw_pending[OF this, of cap2] show ?thesis
      using assms(1,2) go Until_Eof by simp
  qed (use assms(1) go in simp)
qed

text \<open>A read that waits for a line break goes on waiting for it.\<close>

lemma body_crlf_stays:
  "body_poll cap (Ch_Crlf out got) (br, c) = (Pending, s1, br1, c1) \<Longrightarrow> br_kind br = Chunked \<Longrightarrow> \<exists>out got. s1 = Ch_Crlf out got"
  by (auto split: prod.splits poll.splits sum.splits if_splits)

lemma suspended_body:
  assumes "suspended (body_poll cap) Ch_Top rc s1 rc1" "cap2 \<noteq> 0"
  shows "br_kind (fst rc1) = br_kind (fst rc) \<and> \<not> br_finished (fst rc1) \<and>
    ((br_kind (fst rc) = Chunked \<longrightarrow> (\<forall>out got. s1 \<noteq> Ch_Crlf out got)) \<longrightarrow>
      suspended (body_poll cap2) Ch_Top rc s1 rc1 \<and>
      (br_kind (fst rc) = Chunked \<longrightarrow> s1 = Ch_Data \<longrightarrow> 0 < br_chunk_remaining (fst rc1)))"
  using assms(1)
proof (induction rule: suspended.induct)
  case (first s1 rc1)
  obtain br c br1 c1 where rc: "rc = (br, c)" "rc1 = (br1, c1)" by fastforce
  note p = first[unfolded rc]
  show ?case
    using body_pending_kind[OF p] body_waits[OF p assms(2)] suspended.first[of "body_poll cap2" Ch_Top rc s1 rc1]
    unfolding rc by (auto simp del: body_poll.simps)
next
  case (again s1 rc1 s2 rc2)
  obtain br1 c1 br2 c2 where rc: "rc1 = (br1, c1)" "rc2 = (br2, c2)" by fastforce
  note p = again.hyps(2)[unfolded rc]
  have "\<forall>out got. s1 \<noteq> Ch_Crlf out got" if "br_kind br1 = Chunked" "\<forall>out got. s2 \<noteq> Ch_Crlf out got"
    using body_crlf_stays[of cap _ _ br1 c1 s2 br2 c2] p that by (auto simp del: body_poll.simps)
  then show ?case
    using again.IH body_pending_kind[OF p] body_waits[OF p assms(2)]
      suspended.again[of "body_poll cap2" Ch_Top rc s1 rc1 s2 rc2]
    unfolding rc by (auto simp del: body_poll.simps)
qed

text \<open>
  C40: A read of a body that is dropped, after any number of polls, while it waits for raw bytes of the body
  loses nothing: a read after it, with any buffer, does what it would have done in place of the dropped one.
  These are all reads of a body with a length or up to the end of the stream, and in the chunked framing
  those that wait for the data of a chunk; a read that waits for a size line, the line break after a chunk
  or the trailers is not among them.
\<close>

theorem dropped_body_read_resumes:
  assumes p: "suspended (body_poll cap) Ch_Top (br, c) s1 (br1, c1)" and s1: "br_kind br = Chunked \<longrightarrow> s1 = Ch_Data"
    and cap2: "cap2 \<noteq> 0"
  shows "body_read cap2 br1 c1 = body_read cap2 br c"
proof -
  note w = suspended_body[OF p cap2]
  then have s: "suspended (body_poll cap2) Ch_Top (br, c) s1 (br1, c1)" "br_kind br1 = br_kind br" "\<not> br_finished br1"
    using s1 by auto
  have rest: "body_rest cap2 s1 (br1, c1) = body_read cap2 br c"
    using body.suspended[OF s(1)] by (simp add: body_rest_start)
  show ?thesis
  proof (cases "br_kind br = Chunked")
    case False
    then show ?thesis using rest s(2) by (simp add: body_rest_def)
  next
    case True
    then have "0 < br_chunk_remaining br1" using w s1 by simp
    then show ?thesis
      using rest s(2,3) True s1 cap2 body_rest_start[of cap2 br1 c1]
      by (simp add: body_rest_def read_chunked_def)
  qed
qed

theorem dropped_body_read_resumes_witness:
  "body_read 10 ((body_reader_new Chunked)\<lparr>br_chunk_remaining := 2\<rparr>)
     (conn_new \<lparr>incoming = [Chunk [104, 105, 13, 10]], accepting = [], outgoing = [], flush_error = None\<rparr>) =
   body_read 10 ((body_reader_new Chunked)\<lparr>br_chunk_remaining := 2\<rparr>)
     (conn_new \<lparr>incoming = [Idle, Idle, Chunk [104, 105, 13, 10]], accepting = [], outgoing = [], flush_error = None\<rparr>)"
proof -
  let ?c = "\<lambda>es. conn_new \<lparr>incoming = es, accepting = [], outgoing = [], flush_error = None\<rparr>"
  let ?br = "(body_reader_new Chunked)\<lparr>br_chunk_remaining := 2\<rparr>"
  have p: "body_poll 4 s (?br, ?c (Idle # es)) = (Pending, Ch_Data, ?br, ?c es)" if "s = Ch_Top \<or> s = Ch_Data" for s es
    using that by (auto simp: body_reader_new_def conn_new_def poll_raw_def tr_poll_read.simps)
  have "suspended (body_poll 4) Ch_Top (?br, ?c [Idle, Idle, Chunk [104, 105, 13, 10]]) Ch_Data (?br, ?c [Chunk [104, 105, 13, 10]])"
    by (rule suspended.again, rule suspended.first, rule p, simp, rule p, simp)
  from dropped_body_read_resumes[OF this, of 10] show ?thesis by simp
qed

lemma empty_line_read: "conn_buf c = 13 # 10 # rest \<Longrightarrow> read_line c = (Inr [], c\<lparr>conn_buf := rest\<rparr>)"
  by (simp add: read_line.simps[of c])

text \<open>
  A chunked read that is dropped while it waits for the line break after a chunk loses the data of the
  chunk, and the next read takes the line break for an empty size line.
\<close>

lemma dropped_chunk_read_fails:
  assumes br: "br_kind br = Chunked" "\<not> br_finished br" "br_chunk_remaining br = length data" "data \<noteq> []" "length data \<le> cap"
    and c: "conn_buf c = data" "incoming (io c) = Idle # Chunk (13 # 10 # rest) # script" "length rest + 2 \<le> read_chunk" "\<not> eof c"
  shows "\<exists>s1 br1 c1. body_poll cap Ch_Top (br, c) = (Pending, s1, br1, c1) \<and>
    fst (body_read cap br1 c1) = Inl (Http_Parse ''invalid chunk size'') \<and> fst (body_read cap br c) = Inr data"
proof -
  let ?br = "br\<lparr>br_chunk_remaining := 0\<rparr>" let ?c = "c\<lparr>conn_buf := [], io := (io c)\<lparr>incoming := Chunk (13 # 10 # rest) # script\<rparr>\<rparr>"
  have cap: "cap \<noteq> 0" "min cap (length data) = length data" using br(4,5) by (cases data; auto)+
  have raw: "poll_raw (min cap (length data)) c = (Ready (Inr data), c\<lparr>conn_buf := []\<rparr>)"
    using cap br(4) c(1) by (simp add: poll_raw_def Let_def)
  have ex: "expect_poll crlf [] (c\<lparr>conn_buf := []\<rparr>) = (Pending, [], ?c)"
    using c(2) by (simp add: crlf_def expect_poll.simps[of "[13, 10]"] poll_raw_def tr_poll_read.simps)
  have p: "body_poll cap Ch_Top (br, c) = (Pending, Ch_Crlf data [], ?br, ?c)"
    using br cap raw ex by (simp add: Let_def)
  have "tr_read read_chunk (io ?c) = (Inr (13 # 10 # rest), (io c)\<lparr>incoming := script\<rparr>)"
    using c(3) by (simp add: tr_read.simps tr_poll_read.simps)
  then have fl: "conn_fill ?c = (Inr (length rest + 2), ?c\<lparr>conn_buf := 13 # 10 # rest, io := (io c)\<lparr>incoming := script\<rparr>\<rparr>)"
    by (simp add: conn_fill_def)
  have "read_line ?c = (Inr [], ?c\<lparr>conn_buf := rest, io := (io c)\<lparr>incoming := script\<rparr>\<rparr>)"
    using c(4) fl by (simp add: read_line.simps[of ?c] empty_line_read)
  then have "fst (body_read cap ?br ?c) = Inl (Http_Parse ''invalid chunk size'')"
    using br cap
    by (simp add: body_read_def read_chunked_def parse_chunk_size_def utf8_valid.simps str_trim_def trim_start.simps trim_end.simps
        white_len.simps from_str_radix16_def)
  moreover have "fst (body_read cap br c) = Inr data"
  proof -
    have "expect_exact crlf (c\<lparr>conn_buf := []\<rparr>) = expect_rest crlf [] ?c"
      using expect_poll_stands[of crlf "[]" "c\<lparr>conn_buf := []\<rparr>" _ "[]" ?c] ex by (simp add: expect_exact_def expect_rest_def)
    also have "fst (expect_rest crlf [] ?c) = Inr ()"
      by (simp add: expect_rest_def expect_loop.simps[of "Suc (Suc 0)"] crlf_def read_raw_def tr_read.simps tr_poll_read.simps)
    finally obtain c2 where c2: "expect_exact crlf (c\<lparr>conn_buf := []\<rparr>) = (Inr (), c2)" by (cases "expect_exact crlf (c\<lparr>conn_buf := []\<rparr>)") auto
    have "read_chunk_data cap br c = (Inr data, ?br, c2)"
      using poll_raw_stands(1)[OF raw] c2 br by (simp add: read_chunk_data_def)
    then show ?thesis using br cap by (simp add: body_read_def read_chunked_def)
  qed
  ultimately show ?thesis using p by blast
qed

end
