(* ===== verification/Http_Dropped.thy ===== *)
theory Http_Dropped
  imports Http_Runs Http_Cancel
begin

text \<open>
  Exchanges of the HTTP client that are dropped before they are over (\<open>client.rs\<close> of \<open>tpt-net-http\<close>), as
  \<open>timeout\<close> drops them: while the request is being written, while the response is awaited, and after the
  head of the response when its body is not read.
\<close>

section \<open>Where an exchange waits\<close>

text \<open>A pending \<open>fill\<close> has its zero bytes at the end of the buffer.\<close>

fun padded :: "fill_run \<Rightarrow> http_connection \<Rightarrow> bool" where
  "padded Fill_Start c = True"
| "padded (Fill_Waiting n) c = (\<exists>bs. length bs = n \<and> conn_buf c = bs @ replicate read_chunk 0)"

lemma fill_poll_padded: "fill_poll s c = (Pending, s1, c1) \<Longrightarrow> padded s c \<Longrightarrow> padded s1 c1"
  by (cases s) (auto simp: fill_io_def Let_def split: prod.splits poll.splits sum.splits if_splits)

lemma buffered_poll_padded: "buffered_poll check at_end s c = (Pending, s1, c1) \<Longrightarrow> padded s c \<Longrightarrow> padded s1 c1"
proof (induction check at_end s c rule: buffered_poll.induct)
  case (1 check at_end s c)
  have none: "(if s = Fill_Start then check c else None) = None"
    using "1.prems"(1) by (cases "if s = Fill_Start then check c else None") (auto simp: buffered_poll.simps[of check at_end s c])
  obtain p s2 c2 where f: "fill_poll s c = (p, s2, c2)" by (metis prod_cases3)
  show ?case
  proof (cases "\<exists>n. p = Ready (Inr n) \<and> n \<noteq> 0")
    case True
    then obtain n where n: "p = Ready (Inr n)" "n \<noteq> 0" by blast
    then have "buffered_poll check at_end Fill_Start c2 = (Pending, s1, c1)"
      using "1.prems"(1) none f by (simp add: buffered_poll.simps[of check at_end s c])
    then show ?thesis using "1.IH"[OF none f[symmetric] n(1) refl refl n(2)] by simp
  next
    case False
    then show ?thesis
      using "1.prems" none f fill_poll_padded[of s c]
      by (auto simp: buffered_poll.simps[of check at_end s c] split: poll.splits sum.splits if_splits)
  qed
qed

text \<open>What a suspended exchange has done to the connection.\<close>

fun exchange_at :: "client_request \<Rightarrow> byte list \<Rightarrow> http_connection \<Rightarrow> client_run \<Rightarrow> http_connection \<Rightarrow> bool" where
  "exchange_at q host c Cs_Start c1 = (c1 = c)"
| "exchange_at q host c (Cs_Writing s) c1 =
     (\<exists>sent. client_head q host @ cq_body q = sent @ unsent (cq_body q) s \<and> outgoing (io c1) = outgoing (io c) @ sent)"
| "exchange_at q host c (Cs_Reading s) c1 = padded s c1"

lemma client_read_at: "client_read_poll q s c1 = (Pending, s2, c2) \<Longrightarrow> padded s c1 \<Longrightarrow> exchange_at q host c s2 c2"
  unfolding client_read_poll_def response_head_poll_def
  by (auto dest: buffered_poll_padded split: prod.splits poll.splits sum.splits)

lemma client_write_at:
  assumes "client_write_poll q s c1 = (Pending, s2, c2)" "exchange_at q host c (Cs_Writing s) c1"
  shows "exchange_at q host c s2 c2"
proof -
  obtain p s3 c3 where p: "message_poll (cq_body q) s c1 = (p, s3, c3)" by (metis prod_cases3)
  show ?thesis
  proof (cases p)
    case Pending
    then have "s2 = Cs_Writing s3" "c2 = c3" using assms(1) p by (simp_all add: client_write_poll_def)
    then show ?thesis using message_poll_sent[OF p] assms(2) by fastforce
  next
    case (Ready r)
    then show ?thesis using assms(1) p client_read_at by (fastforce simp: client_write_poll_def split: sum.splits)
  qed
qed

lemma client_send_at:
  "client_send_poll q host s c1 = (Pending, s2, c2) \<Longrightarrow> exchange_at q host c s c1 \<Longrightarrow> exchange_at q host c s2 c2"
  by (cases s) (auto intro: client_write_at client_read_at)

lemma suspended_exchange: "suspended (client_send_poll q host) Cs_Start c s1 c1 \<Longrightarrow> exchange_at q host c s1 c1"
  by (induction rule: suspended.induct) (auto intro: client_send_at simp del: client_send_poll.simps)

section \<open>While the response is awaited\<close>

text \<open>
  C21: An exchange that is dropped before anything of its response has come makes the next exchange on the
  connection fail, whatever it asks and whatever the peer sends: the buffer starts with the zero bytes that
  the dropped read had added.
\<close>

theorem dropped_wait_fails_next:
  assumes "suspended (client_send_poll q host) Cs_Start c (Cs_Reading (Fill_Waiting 0)) c1"
  shows "\<exists>e c2. client_send q2 host2 c1 = (Inl e, c2)"
proof -
  have "replicate read_chunk 0 = (0 :: byte) # replicate (read_chunk - 1) 0"
    by (simp add: read_chunk_def flip: replicate_Suc)
  then have buf: "conn_buf c1 = 0 # replicate (read_chunk - 1) 0" using suspended_exchange[OF assms] by simp
  obtain r c2 where w: "write_message (client_head q2 host2) (cq_body q2) c1 = (r, c2)" by fastforce
  show ?thesis
  proof (cases r)
    case (Inl e)
    then show ?thesis using w by (simp add: client_send_def)
  next
    case (Inr u)
    have "conn_buf c2 = conn_buf c1"
      using w by (auto simp: write_message_def conn_flush_def dest!: conn_write_all_frame split: prod.splits sum.splits if_splits)
    then obtain e c3 where "read_response_head c2 = (Inl e, c3)" using zero_response_fails[of c2] buf by auto
    then show ?thesis using w Inr by (simp add: client_send_def)
  qed
qed

theorem dropped_wait_fails_next_witness:
  "\<exists>c1 e c2. suspended (client_send_poll demo_request (ascii ''h'')) Cs_Start
      (conn_new \<lparr>incoming = [Idle, Chunk (response_bytes demo_response)], accepting = [], outgoing = [], flush_error = None\<rparr>)
      (Cs_Reading (Fill_Waiting 0)) c1 \<and>
    client_send demo_request (ascii ''h'') c1 = (Inl e, c2)"
proof -
  let ?t = "\<lambda>script out. \<lparr>incoming = script, accepting = [], outgoing = out, flush_error = None\<rparr>"
  let ?in = "[Chunk (response_bytes demo_response)]" and ?head = "client_head demo_request (ascii ''h'')"
  have body: "cq_body demo_request = []" "?head \<noteq> []"
    by (simp_all add: demo_request_def client_request_new_def client_head_def ascii_def)
  have "parse_response_ranges [] = Inr None"
    by (simp add: parse_response_ranges_def find_head_end_def memchr_find_def header_delim_def crlf_rposition_def
        windows2_def max_head_def)
  then have "client_send_poll demo_request (ascii ''h'') Cs_Start (conn_new (?t (Idle # ?in) [])) =
      (Pending, Cs_Reading (Fill_Waiting 0), \<lparr>io = ?t ?in ?head, conn_buf = replicate read_chunk 0, eof = False\<rparr>)"
    using body
    by (simp add: client_write_poll_def conn_write_poll_def write_all_poll.simps tr_poll_write.simps conn_new_def
        conn_flush_def tr_flush_def client_read_poll_def response_head_poll_def buffered_poll.simps[of _ _ Fill_Start]
        head_check_def fill_io_def tr_poll_read.simps)
  then have "suspended (client_send_poll demo_request (ascii ''h'')) Cs_Start (conn_new (?t (Idle # ?in) []))
      (Cs_Reading (Fill_Waiting 0)) \<lparr>io = ?t ?in ?head, conn_buf = replicate read_chunk 0, eof = False\<rparr>"
    by (rule suspended.first)
  then show ?thesis using dropped_wait_fails_next by blast
qed

section \<open>While the request is written\<close>

text \<open>The request that a cut one becomes: the missing end of its body is the beginning of what comes next.\<close>

definition filled_up :: "client_request \<Rightarrow> byte list \<Rightarrow> byte list \<Rightarrow> client_request" where
  "filled_up q rest extra =
     client_request_body (take (length (cq_body q) - length rest) (cq_body q) @ take (length rest) extra) q"

lemma filled_up_same:
  assumes "length rest \<le> length (cq_body q)" "length rest \<le> length extra"
  shows "client_head (filled_up q rest extra) host = client_head q host"
    "client_headers (filled_up q rest extra) host = client_headers q host"
    "client_request_ok (filled_up q rest extra) host = client_request_ok q host"
    "cq_method (filled_up q rest extra) = cq_method q" "cq_target (filled_up q rest extra) = cq_target q"
    "length (cq_body (filled_up q rest extra)) = length (cq_body q)"
  using assms
  by (simp_all add: filled_up_def client_request_body_def client_head_def client_headers_def client_request_ok_def)

lemma cut_request:
  assumes "client_head q host @ cq_body q = sent @ rest" "length rest \<le> length (cq_body q)" "length rest \<le> length extra"
  shows "sent @ extra = wire_bytes (client_wire (filled_up q rest extra) host) @ drop (length rest) extra"
proof -
  have "sent = take (length (client_head q host @ cq_body q) - length rest) (client_head q host @ cq_body q)"
    unfolding assms(1) by simp
  also have "\<dots> = client_head q host @ take (length (cq_body q) - length rest) (cq_body q)" using assms(2) by simp
  finally show ?thesis
    using filled_up_same(1)[OF assms(2,3), of host]
    by (simp add: wire_bytes_def client_head_wire[symmetric]) (simp add: client_wire_def filled_up_def client_request_body_def)
qed

text \<open>A server reads the head of a client's request and then its body.\<close>

lemma server_reads_request:
  assumes "client_request_ok q host" "conn_bytes c = wire_bytes (client_wire q host) @ rest" "buf_small c" "\<not> eof c"
    and "length (cq_body q) \<le> m"
  shows "\<exists>h c1 kind br c2. read_request_head c = (Inr (Some h), c1) \<and> rq_method h = cq_method q \<and> rq_target h = cq_target q \<and>
    hb_iter (rq_headers h) = client_headers q host \<and> request_body_kind (rq_headers h) = Inr kind \<and>
    read_to_vec m (body_reader_new kind) c1 = (Inr (cq_body q), br, c2) \<and> conn_bytes c2 = rest"
proof -
  let ?w = "client_wire q host"
  have ok: "request_ok (wq_method ?w) (wq_target ?w) (wq_headers ?w)"
      "length (render_lines (request_line (wq_method ?w) (wq_target ?w) (wq_version ?w)) (wq_headers ?w)) + read_chunk \<le> max_head"
    using client_wire_ok[OF assms(1)] by (simp_all add: wire_request_ok_def wire_head_def)
  have "conn_bytes c = render_lines (request_line (wq_method ?w) (wq_target ?w) (wq_version ?w)) (wq_headers ?w) @ cq_body q @ rest"
    using assms(2) by (simp add: wire_bytes_def flip: wire_head_def) (simp add: client_wire_def)
  from read_request_head_bytes[OF ok assms(3,4) this] obtain h c1 where
    h: "read_request_head c = (Inr (Some h), c1)" "conn_bytes c1 = cq_body q @ rest" "reads_from c c1"
      "rq_method h = cq_method q" "rq_target h = cq_target q" "hb_iter (rq_headers h) = client_headers q host"
    by (auto simp: client_wire_def)
  have kind: "request_body_kind (rq_headers h) = Inr (Content_Length (length (cq_body q)))"
    using client_headers_frame[OF assms(1)] h(6) by (simp add: headers_frame_def)
  have "body_pending (body_reader_new (Content_Length (length (cq_body q)))) (conn_bytes c1) (cq_body q) rest"
    using body_pending_content_length h(2) by simp
  from read_to_vec_pending[OF this reads_from_eof[OF h(3)] assms(5)] show ?thesis using h kind by blast
qed

text \<open>
  A client's exchange that is dropped in the middle of the request's body spoils the connection: when the
  client sends another request on it, the server reads the bytes of the second request as the rest of the
  first one's body, and takes that for a complete request, which nobody has sent.
\<close>

theorem dropped_request_garbles:
  assumes "client_request_ok q host" "outgoing (io c) = []"
    and "suspended (client_send_poll q host) Cs_Start c (Cs_Writing s1) c1" "rest = unsent (cq_body q) s1"
    and "client_send q2 host2 c1 = (r, c2)" "writable c1" "second = wire_bytes (client_wire q2 host2)"
    and "length rest \<le> length (cq_body q)" "length rest \<le> length second"
    and "conn_bytes sc = outgoing (io c2)" "buf_small sc" "\<not> eof sc" "length (cq_body q) \<le> m"
  shows "\<exists>h sc1 kind br sc2. read_request_head sc = (Inr (Some h), sc1) \<and> rq_method h = cq_method q \<and>
    rq_target h = cq_target q \<and> hb_iter (rq_headers h) = client_headers q host \<and>
    request_body_kind (rq_headers h) = Inr kind \<and>
    read_to_vec m (body_reader_new kind) sc1 =
      (Inr (take (length (cq_body q) - length rest) (cq_body q) @ take (length rest) second), br, sc2) \<and>
    conn_bytes sc2 = drop (length rest) second"
proof -
  obtain sent where sent: "client_head q host @ cq_body q = sent @ rest" "outgoing (io c1) = sent"
    using suspended_exchange[OF assms(3)] assms(2,4) by auto
  note same = filled_up_same[OF assms(8,9)]
  have "conn_bytes sc = sent @ second"
    using assms(10) client_send_writes[OF assms(5,6)] sent(2) assms(7) by simp
  then have "conn_bytes sc = wire_bytes (client_wire (filled_up q rest second) host) @ drop (length rest) second"
    using cut_request[OF sent(1) assms(8,9)] by simp
  from server_reads_request[OF _ this assms(11,12), of m] show ?thesis
    using assms(1,13) unfolding same by (simp add: filled_up_def client_request_body_def)
qed

definition demo_upload :: client_request where
  "demo_upload = client_request_body [1, 2, 3] demo_request"

text \<open>The transport takes the head and a byte of the body and is then busy.\<close>

theorem dropped_request_garbles_witness:
  "\<exists>c1 c2 r h sc1 kind br sc2.
     suspended (client_send_poll demo_upload (ascii ''h'')) Cs_Start
       (conn_new \<lparr>incoming = [], accepting = [Accept 1000, Accept 1, Busy], outgoing = [], flush_error = None\<rparr>)
       (Cs_Writing (Ms_Body [2, 3])) c1 \<and>
     client_send demo_request (ascii ''h'') c1 = (r, c2) \<and>
     read_request_head (conn_new (demo_transport (outgoing (io c2)))) = (Inr (Some h), sc1) \<and>
     request_body_kind (rq_headers h) = Inr kind \<and>
     read_to_vec 10 (body_reader_new kind) sc1 = (Inr [1, 71, 69], br, sc2)"
proof -
  let ?t = "\<lambda>acc out. \<lparr>incoming = [], accepting = acc, outgoing = out, flush_error = None\<rparr>"
  let ?head = "client_head demo_upload (ascii ''h'')"
  let ?c = "conn_new (?t [Accept 1000, Accept 1, Busy] [])" and ?c1 = "conn_new (?t [] (?head @ [1]))"
  let ?second = "wire_bytes (client_wire demo_request (ascii ''h''))"
  have body: "cq_body demo_upload = [1, 2, 3]" by (simp add: demo_upload_def client_request_body_def)
  have ok: "client_request_ok demo_upload (ascii ''h'')"
    by (simp add: client_request_ok_def demo_upload_def client_request_body_def demo_request_def client_request_new_def
        request_ok_def header_ok_def header_lookup_def is_tchar_strict_def ascii_def is_ows_def client_head_def crlf_def
        to_decimal.simps read_chunk_def max_head_def u64_max_def)
  have head: "?head \<noteq> []" "length ?head < 1000"
    by (simp_all add: demo_upload_def client_request_body_def demo_request_def client_request_new_def client_head_def ascii_def
        crlf_def to_decimal.simps)
  have "client_send_poll demo_upload (ascii ''h'') Cs_Start ?c = (Pending, Cs_Writing (Ms_Body [2, 3]), ?c1)"
    using head body
    by (simp add: client_write_poll_def conn_write_poll_def write_all_poll.simps tr_poll_write.simps conn_new_def
        message_body_poll_def write_poll_def)
  then have s: "suspended (client_send_poll demo_upload (ascii ''h'')) Cs_Start ?c (Cs_Writing (Ms_Body [2, 3])) ?c1"
    by (rule suspended.first)
  obtain r c2 where r: "client_send demo_request (ascii ''h'') ?c1 = (r, c2)" by fastforce
  have second: "take 2 ?second = [71, 69]" "2 \<le> length ?second"
    by (simp_all add: wire_bytes_def client_head_wire[symmetric] demo_request_def client_request_new_def client_head_def ascii_def)
  have w: "writable ?c1" by (simp add: writable_def conn_new_def)
  have out: "outgoing (io c2) = ?head @ [1] @ ?second"
    using client_send_writes[OF r w] by (simp add: conn_new_def)
  have long: "7 < length (outgoing (io c2))"
    unfolding out by (simp add: client_head_def demo_upload_def client_request_body_def demo_request_def client_request_new_def ascii_def)
  note t = demo_transport_ok[OF long]
  have "outgoing (io ?c) = []" by (simp add: conn_new_def)
  from dropped_request_garbles[OF ok this s refl r w refl _ _ t(1,4,5), of 10] body second
  obtain h sc1 kind br sc2 where "read_request_head (conn_new (demo_transport (outgoing (io c2)))) = (Inr (Some h), sc1)"
      "request_body_kind (rq_headers h) = Inr kind" "read_to_vec 10 (body_reader_new kind) sc1 = (Inr [1, 71, 69], br, sc2)"
    by (auto simp: numeral_2_eq_2)
  then show ?thesis using s r by blast
qed

section \<open>After the head of the response\<close>

text \<open>
  A response that is dropped with its body unread leaves the body on the connection, and the next exchange
  takes it for the head of its response: a body that looks like a response is returned as one.
\<close>

theorem dropped_response_forges_next:
  assumes "response_data_ok r" "response_data_ok forged" "resp_body r = response_bytes forged @ tail"
    and "buf_small c" "\<not> eof c" "writable c" "conn_bytes c = response_bytes r @ rest"
    and "\<not> eq_ignore_ascii_case (cq_method q) (ascii ''HEAD'')" "\<not> eq_ignore_ascii_case (cq_method q2) (ascii ''HEAD'')"
  shows "\<exists>h br c1 h2 br2 c2. client_send q host c = (Inr (h, br), c1) \<and> rs_status h = resp_status r \<and>
    client_send q2 host2 c1 = (Inr (h2, br2), c2) \<and> rs_status h2 = resp_status forged \<and>
    hb_iter (rs_headers h2) = response_headers forged"
proof -
  from client_reads_response[OF assms(1,4-8), of host] obtain h br c1 where
    h: "client_send q host c = (Inr (h, br), c1)" "rs_status h = resp_status r" "conn_bytes c1 = resp_body r @ rest"
      "\<not> eof c1" "buf_small c1" "writable c1"
    by blast
  have "conn_bytes c1 = response_bytes forged @ tail @ rest" using h(3) assms(3) by simp
  from client_reads_response[OF assms(2) h(5,4,6) this assms(9), of host2] show ?thesis using h(1,2) by blast
qed

theorem dropped_response_forges_next_witness:
  "\<exists>h br c1 h2 br2 c2.
     client_send demo_request (ascii ''h'')
       (conn_new (demo_transport (response_bytes (response_new 201 [] (response_bytes demo_response))))) = (Inr (h, br), c1) \<and>
     rs_status h = 201 \<and> client_send demo_request (ascii ''h'') c1 = (Inr (h2, br2), c2) \<and> rs_status h2 = 200"
proof -
  let ?r = "response_new 201 [] (response_bytes demo_response)"
  have r: "response_data_ok ?r" "resp_body ?r = response_bytes demo_response @ []"
    by (simp_all add: response_data_ok_def response_new_def header_lookup_def head_of_response_def render_head_def reason_def
        ascii_def crlf_def to_decimal.simps read_chunk_def max_head_def u64_max_def response_bytes_def demo_response_def
        response_ok_def)
  have st: "resp_status ?r = 201" "resp_status demo_response = 200"
    by (simp_all add: response_new_def demo_response_def response_ok_def)
  have hd: "\<not> eq_ignore_ascii_case (cq_method demo_request) (ascii ''HEAD'')"
    by (simp add: demo_request_def client_request_new_def ascii_def eq_ignore_ascii_case_def to_ascii_lowercase_def)
  note t = demo_transport_ok[OF demo_response_length[of ?r "[]", unfolded append_Nil2]]
  have bytes: "conn_bytes (conn_new (demo_transport (response_bytes ?r))) = response_bytes ?r @ []" using t(1) by simp
  from dropped_response_forges_next[OF r(1) demo_response_ok(1) r(2) t(4,5,3) bytes hd hd, of "ascii ''h''" "ascii ''h''"]
  show ?thesis unfolding st by blast
qed

end
