(* ===== verification/Http2.thy ===== *)
theory Http2
  imports Http_Server
begin

text \<open>
  The HTTP/2 glue of \<open>crates/tpt-net-http/src/http2.rs\<close>.  The crates \<open>h2\<close> and \<open>http\<close> are parameters:
  what they parse and accept is given by the fields of the records below, and the data frames of a
  stream are the list of what its body yields, an error ending it.
\<close>

section \<open>Streams\<close>

datatype 'e h2_event = H2_Data "byte list" | H2_Failed 'e

datatype 'e h2_error = H2_Error 'e | H2_Http http_error

text \<open>
  \<open>uri_path\<close> is \<open>Uri::path\<close> (the target without its query), \<open>header_to_str\<close> the value's text if it
  is visible ASCII, \<open>valid_head\<close> whether a builder accepts a status and headers.
\<close>

record h2_lib =
  uri_path :: "byte list \<Rightarrow> byte list"
  header_to_str :: "byte list \<Rightarrow> byte list option"
  valid_head :: "nat \<Rightarrow> (byte list \<times> byte list) list \<Rightarrow> bool"

record 'e h2_stream =
  hs_method :: "byte list"
  hs_uri :: "byte list"
  hs_headers :: "(byte list \<times> byte list) list"
  hs_body :: "'e h2_event list"
  hs_writable :: bool

record h2_request =
  h2_method :: "byte list"
  h2_target :: "byte list"
  h2_headers :: "(byte list \<times> byte list) list"
  h2_body :: "byte list"

section \<open>Server\<close>

fun drain_body :: "byte list \<Rightarrow> 'e h2_event list \<Rightarrow> byte list" where
  "drain_body acc [] = acc"
| "drain_body acc (H2_Data bs # es) = drain_body (acc @ bs) es"
| "drain_body acc (H2_Failed e # es) = acc"

definition h2_header_texts :: "h2_lib \<Rightarrow> (byte list \<times> byte list) list \<Rightarrow> (byte list \<times> byte list) list" where
  "h2_header_texts L hs = map (\<lambda>(n, v). (n, case header_to_str L v of None \<Rightarrow> [] | Some t \<Rightarrow> t)) hs"

definition h2_request_of :: "h2_lib \<Rightarrow> 'e h2_stream \<Rightarrow> h2_request" where
  "h2_request_of L st =
     \<lparr>h2_method = hs_method st, h2_target = uri_path L (hs_uri st), h2_headers = h2_header_texts L (hs_headers st),
      h2_body = drain_body [] (hs_body st)\<rparr>"

text \<open>\<open>None\<close> is the panic on a response that the builder refuses.\<close>

definition response_data_to_http :: "h2_lib \<Rightarrow> response_data \<Rightarrow> (nat \<times> (byte list \<times> byte list) list) option" where
  "response_data_to_http L r =
     (if valid_head L (resp_status r) (resp_headers r) then Some (resp_status r, resp_headers r) else None)"

datatype h2_outcome =
    H2_Panicked
  | H2_Not_Sent
  | H2_Answered nat "(byte list \<times> byte list) list" "byte list"

text \<open>The end of a stream's task, and the whole of it when nobody else has the handler's lock.\<close>

definition h2_respond :: "h2_lib \<Rightarrow> 'e h2_stream \<Rightarrow> response_data \<Rightarrow> h2_outcome" where
  "h2_respond L st r =
     (case response_data_to_http L r of
        None \<Rightarrow> H2_Panicked
      | Some (status, headers) \<Rightarrow>
          if hs_writable st then H2_Answered status headers (resp_body r) else H2_Not_Sent)"

definition h2_serve_stream ::
  "h2_lib \<Rightarrow> ('h \<Rightarrow> h2_request \<Rightarrow> response_data \<times> 'h) \<Rightarrow> 'h \<Rightarrow> 'e h2_stream \<Rightarrow> h2_outcome \<times> 'h" where
  "h2_serve_stream L handle h st = (case handle h (h2_request_of L st) of (r, h1) \<Rightarrow> (h2_respond L st r, h1))"

text \<open>The accept loop: the streams that got a task, and how it ended.\<close>

fun h2_accept_loop :: "('e + 'e h2_stream) list \<Rightarrow> ('e h2_error + unit) \<times> 'e h2_stream list" where
  "h2_accept_loop [] = (Inr (), [])"
| "h2_accept_loop (Inl e # as) = (Inl (H2_Error e), [])"
| "h2_accept_loop (Inr st # as) = (case h2_accept_loop as of (r, sts) \<Rightarrow> (r, st # sts))"

definition serve_h2 :: "('e + unit) \<Rightarrow> ('e + 'e h2_stream) list \<Rightarrow> ('e h2_error + unit) \<times> 'e h2_stream list" where
  "serve_h2 handshake accepts =
     (case handshake of Inl e \<Rightarrow> (Inl (H2_Error e), []) | Inr u \<Rightarrow> h2_accept_loop accepts)"

section \<open>Client\<close>

record 'e h2_client =
  hc_ready :: "'e + unit"
  hc_uri_ok :: "byte list \<Rightarrow> bool"
  hc_request_ok :: "byte list \<Rightarrow> byte list \<Rightarrow> (byte list \<times> byte list) list \<Rightarrow> bool"
  hc_send :: "'e + unit"
  hc_send_body :: "byte list \<Rightarrow> 'e + unit"
  hc_response :: "'e + nat \<times> (byte list \<times> byte list) list \<times> 'e h2_event list"

record owned_h2_response =
  ohr_status :: nat
  ohr_headers :: "(byte list \<times> byte list) list"
  ohr_body :: "byte list"

text \<open>\<open>Http2Connection::connect\<close>: the library's handshake, whose other half is driven elsewhere.\<close>

definition http2_connect :: "('e + 'e h2_client) \<Rightarrow> 'e h2_error + 'e h2_client" where
  "http2_connect handshake = (case handshake of Inl e \<Rightarrow> Inl (H2_Error e) | Inr c \<Rightarrow> Inr c)"

definition futures_poll_ready :: "'e h2_client \<Rightarrow> 'e h2_error + unit" where
  "futures_poll_ready c = (case hc_ready c of Inl e \<Rightarrow> Inl (H2_Error e) | Inr u \<Rightarrow> Inr ())"

fun h2_collect :: "nat \<Rightarrow> byte list \<Rightarrow> 'e h2_event list \<Rightarrow> 'e h2_error + byte list" where
  "h2_collect max_body out [] = Inr out"
| "h2_collect max_body out (H2_Failed e # es) = Inl (H2_Error e)"
| "h2_collect max_body out (H2_Data bs # es) =
     (if max_body < length out + length bs then Inl (H2_Http (Http_Parse ''body exceeds limit''))
      else h2_collect max_body (out @ bs) es)"

definition http2_request ::
  "h2_lib \<Rightarrow> 'e h2_client \<Rightarrow> byte list \<Rightarrow> byte list \<Rightarrow> (byte list \<times> byte list) list \<Rightarrow> byte list \<Rightarrow> nat \<Rightarrow>
   'e h2_error + owned_h2_response" where
  "http2_request L c m target headers body max_body =
     (case futures_poll_ready c of
        Inl e \<Rightarrow> Inl e
      | Inr u \<Rightarrow>
          if \<not> hc_uri_ok c target then Inl (H2_Http (Http_Parse ''invalid request target''))
          else if \<not> hc_request_ok c m target headers then Inl (H2_Http (Http_Parse ''invalid request''))
          else
            (case hc_send c of
               Inl e \<Rightarrow> Inl (H2_Error e)
             | Inr u1 \<Rightarrow>
                 (case hc_send_body c body of
                    Inl e \<Rightarrow> Inl (H2_Error e)
                  | Inr u2 \<Rightarrow>
                      (case hc_response c of
                         Inl e \<Rightarrow> Inl (H2_Error e)
                       | Inr (status, hs, es) \<Rightarrow>
                           (case h2_collect max_body [] es of
                              Inl e \<Rightarrow> Inl e
                            | Inr out \<Rightarrow>
                                Inr \<lparr>ohr_status = status, ohr_headers = h2_header_texts L hs, ohr_body = out\<rparr>)))))"

section \<open>Bodies\<close>

fun event_bytes :: "'e h2_event list \<Rightarrow> byte list" where
  "event_bytes [] = []"
| "event_bytes (H2_Data bs # es) = bs @ event_bytes es"
| "event_bytes (H2_Failed e # es) = event_bytes es"

fun failed :: "'e h2_event list \<Rightarrow> bool" where
  "failed [] = False"
| "failed (H2_Data bs # es) = failed es"
| "failed (H2_Failed e # es) = True"

lemma drain_body_bytes: "\<not> failed es \<Longrightarrow> drain_body acc es = acc @ event_bytes es"
  by (induction acc es rule: drain_body.induct) auto

lemma drain_body_failed: "\<not> failed es \<Longrightarrow> drain_body acc (es @ H2_Failed e # rest) = acc @ event_bytes es"
  by (induction acc es rule: drain_body.induct) auto

text \<open>The client returns a body whole and within the limit, or not at all.\<close>

lemma h2_collect_spec:
  "h2_collect m out es = Inr body \<longleftrightarrow>
     \<not> failed es \<and> body = out @ event_bytes es \<and> (es = [] \<or> length out + length (event_bytes es) \<le> m)"
  by (induction m out es rule: h2_collect.induct) auto

lemma http2_request_bounded:
  assumes "http2_request L c m t hs b limit = Inr r"
  shows "length (ohr_body r) \<le> limit \<and>
    (\<exists>status rhs es. hc_response c = Inr (status, rhs, es) \<and> \<not> failed es \<and> ohr_body r = event_bytes es)"
  using assms
  by (auto simp: http2_request_def futures_poll_ready_def h2_collect_spec split: sum.splits if_splits prod.splits)

lemma drain_body_map: "drain_body acc (map H2_Data bss @ H2_Failed e # rest) = drain_body acc (map H2_Data bss)"
  by (induction bss arbitrary: acc) auto

text \<open>
  A stream whose body breaks off with an error is handled like one whose body ended there: the
  handler gets a truncated body as if it were the whole, and its response is sent.
\<close>
theorem h2_truncated_body_served:
  "h2_serve_stream L handle h (st\<lparr>hs_body := map H2_Data bss @ H2_Failed e # rest\<rparr>) =
     h2_serve_stream L handle h (st\<lparr>hs_body := map H2_Data bss\<rparr>)"
proof -
  have "h2_request_of L (st\<lparr>hs_body := map H2_Data bss @ H2_Failed e # rest\<rparr>) =
      h2_request_of L (st\<lparr>hs_body := map H2_Data bss\<rparr>)"
    unfolding h2_request_of_def by (simp add: drain_body_map)
  then show ?thesis unfolding h2_serve_stream_def h2_respond_def by (simp split: prod.splits option.splits)
qed

end
