(* ===== verification/Http2_Tasks.thy ===== *)
theory Http2_Tasks
  imports Http2 Http_Polls
begin

text \<open>
  The tasks of \<open>serve_h2\<close> (\<open>crates/tpt-net-http/src/http2.rs\<close>) side by side.  Every accepted stream gets
  a task that drains the request's body, takes the handler's mutex, awaits the handler, gives the mutex
  back and responds; the accept loop and the tasks take their steps in any order.  The mutex is tokio's:
  what is used of it is that one task at a time has it, and that a panic of its owner gives it back.
\<close>

section \<open>Calls of the handler\<close>

text \<open>
  \<open>handle\<close> is an async function on the handler: every poll of a call may change the handler (\<open>'h\<close>) and
  what the call keeps between its polls (\<open>'k\<close>).  \<open>Ready None\<close> is a panic.
\<close>

record ('h, 'k) h2_handler =
  begin_call :: "h2_request \<Rightarrow> 'k"
  poll_call :: "'k \<Rightarrow> 'h \<Rightarrow> response_data option poll \<times> 'k \<times> 'h"

abbreviation rest_of_call :: "('h, 'k) h2_handler \<Rightarrow> 'k \<Rightarrow> 'h \<Rightarrow> (response_data option \<times> 'h) option" where
  "rest_of_call H \<equiv> await_future (poll_call H)"

definition run_call :: "('h, 'k) h2_handler \<Rightarrow> h2_request \<Rightarrow> 'h \<Rightarrow> (response_data option \<times> 'h) option" where
  "run_call H q h = rest_of_call H (begin_call H q) h"

section \<open>Tasks\<close>

datatype ('e, 'k) stream_phase =
    Draining "byte list" "'e h2_event list"
  | Locking h2_request
  | Handling 'k
  | Responding response_data
  | Ended h2_outcome

record ('e, 'k) stream_task =
  st_stream :: "'e h2_stream"
  st_phase :: "('e, 'k) stream_phase"

text \<open>\<open>hv_arriving\<close> is what \<open>accept\<close> will still give, and \<open>hv_result\<close> what \<open>serve_h2\<close> has returned.\<close>

record ('e, 'h, 'k) h2_server =
  hv_arriving :: "('e + 'e h2_stream) list"
  hv_result :: "('e h2_error + unit) option"
  hv_tasks :: "('e, 'k) stream_task list"
  hv_lock :: "nat option"
  hv_handler :: 'h

definition h2_start :: "('e + 'e h2_stream) list \<Rightarrow> 'h \<Rightarrow> ('e, 'h, 'k) h2_server" where
  "h2_start accepts h = \<lparr>hv_arriving = accepts, hv_result = None, hv_tasks = [], hv_lock = None, hv_handler = h\<rparr>"

definition h2_spawn :: "'e h2_stream \<Rightarrow> ('e, 'k) stream_task" where
  "h2_spawn st = \<lparr>st_stream = st, st_phase = Draining [] (hs_body st)\<rparr>"

definition accept_step :: "('e, 'h, 'k) h2_server \<Rightarrow> ('e, 'h, 'k) h2_server" where
  "accept_step s =
     (case hv_arriving s of
        [] \<Rightarrow> s\<lparr>hv_result := Some (Inr ())\<rparr>
      | Inl e # as \<Rightarrow> s\<lparr>hv_arriving := as, hv_result := Some (Inl (H2_Error e))\<rparr>
      | Inr st # as \<Rightarrow> s\<lparr>hv_arriving := as, hv_tasks := hv_tasks s @ [h2_spawn st]\<rparr>)"

definition h2_request_with :: "h2_lib \<Rightarrow> 'e h2_stream \<Rightarrow> byte list \<Rightarrow> h2_request" where
  "h2_request_with L st body =
     \<lparr>h2_method = hs_method st, h2_target = uri_path L (hs_uri st), h2_headers = h2_header_texts L (hs_headers st),
      h2_body = body\<rparr>"

text \<open>
  One step of the task \<open>i\<close>: its phase, the mutex and the handler afterwards, or \<open>None\<close> where it waits
  for the mutex or has ended.
\<close>

fun stream_step ::
  "h2_lib \<Rightarrow> ('h, 'k) h2_handler \<Rightarrow> nat \<Rightarrow> 'e h2_stream \<Rightarrow> ('e, 'k) stream_phase \<Rightarrow> nat option \<Rightarrow> 'h \<Rightarrow>
   (('e, 'k) stream_phase \<times> nat option \<times> 'h) option" where
  "stream_step L H i st (Draining body []) l h = Some (Locking (h2_request_with L st body), l, h)"
| "stream_step L H i st (Draining body (H2_Data bs # es)) l h = Some (Draining (body @ bs) es, l, h)"
| "stream_step L H i st (Draining body (H2_Failed e # es)) l h = Some (Locking (h2_request_with L st body), l, h)"
| "stream_step L H i st (Locking q) l h =
     (case l of None \<Rightarrow> Some (Handling (begin_call H q), Some i, h) | Some j \<Rightarrow> None)"
| "stream_step L H i st (Handling k) l h =
     (case poll_call H k h of
        (Pending, k1, h1) \<Rightarrow> Some (Handling k1, l, h1)
      | (Ready None, k1, h1) \<Rightarrow> Some (Ended H2_Panicked, None, h1)
      | (Ready (Some r), k1, h1) \<Rightarrow> Some (Responding r, None, h1))"
| "stream_step L H i st (Responding r) l h = Some (Ended (h2_respond L st r), l, h)"
| "stream_step L H i st (Ended out) l h = None"

abbreviation stream_at :: "('e, 'h, 'k) h2_server \<Rightarrow> nat \<Rightarrow> 'e h2_stream" where
  "stream_at s i \<equiv> st_stream (hv_tasks s ! i)"

abbreviation phase_at :: "('e, 'h, 'k) h2_server \<Rightarrow> nat \<Rightarrow> ('e, 'k) stream_phase" where
  "phase_at s i \<equiv> st_phase (hv_tasks s ! i)"

definition with_task ::
  "nat \<Rightarrow> ('e, 'k) stream_phase \<Rightarrow> nat option \<Rightarrow> 'h \<Rightarrow> ('e, 'h, 'k) h2_server \<Rightarrow> ('e, 'h, 'k) h2_server" where
  "with_task i p l h s =
     s\<lparr>hv_tasks := (hv_tasks s)[i := (hv_tasks s ! i)\<lparr>st_phase := p\<rparr>], hv_lock := l, hv_handler := h\<rparr>"

inductive h2_step :: "h2_lib \<Rightarrow> ('h, 'k) h2_handler \<Rightarrow> ('e, 'h, 'k) h2_server \<Rightarrow> ('e, 'h, 'k) h2_server \<Rightarrow> bool" for L H where
  accept: "hv_result s = None \<Longrightarrow> h2_step L H s (accept_step s)"
| task: "i < length (hv_tasks s) \<Longrightarrow>
     stream_step L H i (stream_at s i) (phase_at s i) (hv_lock s) (hv_handler s) = Some (p, l, h) \<Longrightarrow>
     h2_step L H s (with_task i p l h s)"

inductive h2_reach ::
  "h2_lib \<Rightarrow> ('h, 'k) h2_handler \<Rightarrow> ('e + 'e h2_stream) list \<Rightarrow> 'h \<Rightarrow> ('e, 'h, 'k) h2_server \<Rightarrow> bool"
  for L H accepts h0 where
  start: "h2_reach L H accepts h0 (h2_start accepts h0)"
| step: "h2_reach L H accepts h0 s \<Longrightarrow> h2_step L H s s1 \<Longrightarrow> h2_reach L H accepts h0 s1"

section \<open>Calls one after the other\<close>

text \<open>The specification: whole calls, each starting with the handler that the one before it has left.\<close>

fun serial_calls ::
  "('h, 'k) h2_handler \<Rightarrow> h2_request list \<Rightarrow> 'h \<Rightarrow> (response_data option list \<times> 'h) option" where
  "serial_calls H [] h = Some ([], h)"
| "serial_calls H (q # qs) h =
     (case run_call H q h of
        None \<Rightarrow> None
      | Some (r, h1) \<Rightarrow> (case serial_calls H qs h1 of None \<Rightarrow> None | Some (rs, h2) \<Rightarrow> Some (r # rs, h2)))"

definition h2_outcome_of :: "h2_lib \<Rightarrow> 'e h2_stream \<Rightarrow> response_data option \<Rightarrow> h2_outcome" where
  "h2_outcome_of L st r = (case r of None \<Rightarrow> H2_Panicked | Some x \<Rightarrow> h2_respond L st x)"

text \<open>A task whose call is over carries its result.\<close>

definition carries :: "h2_lib \<Rightarrow> ('e, 'k) stream_task \<Rightarrow> response_data option \<Rightarrow> bool" where
  "carries L t r \<longleftrightarrow>
     (case st_phase t of
        Responding x \<Rightarrow> r = Some x
      | Ended out \<Rightarrow> out = h2_outcome_of L (st_stream t) r
      | _ \<Rightarrow> False)"

fun call_over :: "('e, 'k) stream_phase \<Rightarrow> bool" where
  "call_over (Responding r) = True"
| "call_over (Ended out) = True"
| "call_over _ = False"

lemma serial_calls_snoc:
  "serial_calls H qs h = Some (rs, h1) \<Longrightarrow> run_call H q h1 = Some (r, h2) \<Longrightarrow>
     serial_calls H (qs @ [q]) h = Some (rs @ [r], h2)"
  by (induction qs arbitrary: h rs) (auto split: option.splits prod.splits)

lemma serial_calls_length: "serial_calls H qs h = Some (rs, h1) \<Longrightarrow> length rs = length qs"
  by (induction qs arbitrary: h rs) (auto split: option.splits prod.splits)

lemma h2_request_with_body:
  "drain_body [] (hs_body st) = body \<Longrightarrow> h2_request_with L st body = h2_request_of L st"
  by (simp add: h2_request_with_def h2_request_of_def)

section \<open>The invariant\<close>

text \<open>
  What a task knows in each phase, when the calls that are over have left the handler \<open>h\<close>: the one call
  that is not over is the mutex owner's, and it is on its way from \<open>h\<close>.
\<close>

definition task_inv ::
  "h2_lib \<Rightarrow> ('h, 'k) h2_handler \<Rightarrow> 'h \<Rightarrow> nat option \<Rightarrow> 'h \<Rightarrow> nat \<Rightarrow> ('e, 'k) stream_task \<Rightarrow> bool" where
  "task_inv L H h l now i t \<longleftrightarrow>
     (case st_phase t of
        Draining body es \<Rightarrow> drain_body body es = drain_body [] (hs_body (st_stream t))
      | Locking q \<Rightarrow> q = h2_request_of L (st_stream t)
      | Handling k \<Rightarrow> l = Some i \<and> rest_of_call H k now = run_call H (h2_request_of L (st_stream t)) h
      | _ \<Rightarrow> True)"

definition owner_inv :: "('e, 'k) stream_task list \<Rightarrow> nat option \<Rightarrow> 'h \<Rightarrow> 'h \<Rightarrow> bool" where
  "owner_inv ts l now h \<longleftrightarrow>
     (l = None \<longrightarrow> now = h) \<and> (\<forall>i. l = Some i \<longrightarrow> i < length ts \<and> (\<exists>k. st_phase (ts ! i) = Handling k))"

definition serialised ::
  "h2_lib \<Rightarrow> ('h, 'k) h2_handler \<Rightarrow> 'h \<Rightarrow> ('e, 'h, 'k) h2_server \<Rightarrow> nat list \<Rightarrow> response_data option list \<Rightarrow> 'h \<Rightarrow> bool" where
  "serialised L H h0 s order rs h \<longleftrightarrow>
     distinct order \<and> set order = {i. i < length (hv_tasks s) \<and> call_over (phase_at s i)} \<and>
     serial_calls H (map (\<lambda>i. h2_request_of L (stream_at s i)) order) h0 = Some (rs, h) \<and>
     list_all2 (\<lambda>i r. carries L (hv_tasks s ! i) r) order rs \<and>
     (\<forall>i < length (hv_tasks s). task_inv L H h (hv_lock s) (hv_handler s) i (hv_tasks s ! i)) \<and>
     owner_inv (hv_tasks s) (hv_lock s) (hv_handler s) h"

lemma serialisedI:
  assumes "distinct order" "set order = {i. i < length (hv_tasks s) \<and> call_over (phase_at s i)}"
    and "serial_calls H (map (\<lambda>i. h2_request_of L (stream_at s i)) order) h0 = Some (rs, h)"
    and "list_all2 (\<lambda>i r. carries L (hv_tasks s ! i) r) order rs"
    and "\<And>i. i < length (hv_tasks s) \<Longrightarrow> task_inv L H h (hv_lock s) (hv_handler s) i (hv_tasks s ! i)"
    and "owner_inv (hv_tasks s) (hv_lock s) (hv_handler s) h"
  shows "serialised L H h0 s order rs h"
  using assms unfolding serialised_def by blast

lemma serialisedD:
  assumes "serialised L H h0 s order rs h"
  shows "distinct order" "set order = {i. i < length (hv_tasks s) \<and> call_over (phase_at s i)}"
    "serial_calls H (map (\<lambda>i. h2_request_of L (stream_at s i)) order) h0 = Some (rs, h)"
    "list_all2 (\<lambda>i r. carries L (hv_tasks s ! i) r) order rs"
    "i < length (hv_tasks s) \<Longrightarrow> task_inv L H h (hv_lock s) (hv_handler s) i (hv_tasks s ! i)"
    "owner_inv (hv_tasks s) (hv_lock s) (hv_handler s) h"
  using assms unfolding serialised_def by blast+

lemma with_task_fields [simp]:
  "length (hv_tasks (with_task i p l h s)) = length (hv_tasks s)" "hv_lock (with_task i p l h s) = l"
  "hv_handler (with_task i p l h s) = h" "hv_result (with_task i p l h s) = hv_result s"
  "hv_arriving (with_task i p l h s) = hv_arriving s"
  by (simp_all add: with_task_def)

lemma with_task_at:
  "i < length (hv_tasks s) \<Longrightarrow>
     hv_tasks (with_task i p l h s) ! j = (if j = i then (hv_tasks s ! i)\<lparr>st_phase := p\<rparr> else hv_tasks s ! j)"
  by (simp add: with_task_def nth_list_update)

lemma with_task_stream [simp]: "i < length (hv_tasks s) \<Longrightarrow> stream_at (with_task i p l h s) j = stream_at s j"
  by (simp add: with_task_at)

lemma with_task_streams [simp]:
  "i < length (hv_tasks s) \<Longrightarrow> map st_stream (hv_tasks (with_task i p l h s)) = map st_stream (hv_tasks s)"
  by (rule nth_equalityI) simp_all

lemma with_task_requests:
  "i < length (hv_tasks s) \<Longrightarrow> map (\<lambda>j. h2_request_of L (stream_at (with_task i p l h s) j)) order =
     map (\<lambda>j. h2_request_of L (stream_at s j)) order"
  by simp

text \<open>A task that is not handling looks the same whoever has the mutex.\<close>

lemma task_inv_cong:
  "(\<And>k. st_phase t \<noteq> Handling k) \<Longrightarrow> task_inv L H h l now i t = task_inv L H h1 l1 now1 i t"
  by (auto simp: task_inv_def split: stream_phase.splits)

lemma task_inv_owner:
  "task_inv L H h l now i t \<Longrightarrow> l \<noteq> Some i \<Longrightarrow> st_phase t \<noteq> Handling k"
  by (auto simp: task_inv_def)

text \<open>Only the task \<open>i\<close> steps, and the calls of others that are over stay over.\<close>

lemma with_task_carries:
  assumes "serialised L H h0 s order rs h" "i < length (hv_tasks s)" "\<not> call_over (phase_at s i)"
  shows "list_all2 (\<lambda>j r. carries L (hv_tasks (with_task i p l now s) ! j) r) order rs"
proof -
  have "i \<notin> set order" using serialisedD(2)[OF assms(1)] assms(3) by simp
  then show ?thesis
    using serialisedD(4)[OF assms(1)] assms(2) by (auto simp: with_task_at list_all2_conv_all_nth)
qed

text \<open>While \<open>i\<close> has the mutex or nobody has it, the others are not handling.\<close>

lemma with_task_others:
  assumes "serialised L H h0 s order rs h" "i < length (hv_tasks s)" "\<forall>j. hv_lock s = Some j \<longrightarrow> j = i"
    and "task_inv L H h1 l now i ((hv_tasks s ! i)\<lparr>st_phase := p\<rparr>)" "j < length (hv_tasks s)"
  shows "task_inv L H h1 l now j (hv_tasks (with_task i p l now s) ! j)"
proof (cases "j = i")
  case False
  note ti = serialisedD(5)[OF assms(1,5)]
  have "st_phase (hv_tasks s ! j) \<noteq> Handling k" for k
    using task_inv_owner[OF ti] assms(3) False by blast
  then have "task_inv L H h1 l now j (hv_tasks s ! j)"
    using ti task_inv_cong[of "hv_tasks s ! j" L H h "hv_lock s" "hv_handler s" j] by blast
  then show ?thesis using False assms(2) by (simp add: with_task_at)
qed (use assms(2,4) in \<open>simp add: with_task_at\<close>)

text \<open>Steps after which the same calls are over: with the mutex, and outside it.\<close>

lemma serialised_no_call:
  assumes "serialised L H h0 s order rs h" "i < length (hv_tasks s)" "\<not> call_over (phase_at s i)" "\<not> call_over p"
    and "task_inv L H h (Some i) now i ((hv_tasks s ! i)\<lparr>st_phase := p\<rparr>)" "\<forall>j. hv_lock s = Some j \<longrightarrow> j = i" "p = Handling k"
  shows "serialised L H h0 (with_task i p (Some i) now s) order rs h"
proof (rule serialisedI)
  show "distinct order" by (rule serialisedD(1)[OF assms(1)])
  show "set order = {j. j < length (hv_tasks (with_task i p (Some i) now s)) \<and> call_over (phase_at (with_task i p (Some i) now s) j)}"
    using serialisedD(2)[OF assms(1)] assms(2,3,4) by (auto simp: with_task_at)
  show "owner_inv (hv_tasks (with_task i p (Some i) now s)) (hv_lock (with_task i p (Some i) now s))
      (hv_handler (with_task i p (Some i) now s)) h"
    using assms(2,7) by (simp add: owner_inv_def with_task_at)
  show "task_inv L H h (hv_lock (with_task i p (Some i) now s)) (hv_handler (with_task i p (Some i) now s)) j
      (hv_tasks (with_task i p (Some i) now s) ! j)" if "j < length (hv_tasks (with_task i p (Some i) now s))" for j
    using with_task_others[OF assms(1,2,6,5)] that by simp
qed (use serialisedD(3)[OF assms(1)] with_task_carries[OF assms(1-3)] assms(2) in \<open>simp_all add: with_task_requests del: with_task_stream\<close>)

lemma serialised_outside:
  assumes "serialised L H h0 s order rs h" "i < length (hv_tasks s)" "\<not> call_over (phase_at s i)" "\<not> call_over p"
    and "\<And>k. phase_at s i \<noteq> Handling k"
    and "task_inv L H h (hv_lock s) (hv_handler s) i ((hv_tasks s ! i)\<lparr>st_phase := p\<rparr>)"
  shows "serialised L H h0 (with_task i p (hv_lock s) (hv_handler s) s) order rs h" (is "serialised L H h0 ?s order rs h")
proof (rule serialisedI)
  show "distinct order" by (rule serialisedD(1)[OF assms(1)])
  show "set order = {j. j < length (hv_tasks ?s) \<and> call_over (phase_at ?s j)}"
    using serialisedD(2)[OF assms(1)] assms(2,3,4) by (auto simp: with_task_at)
  show "owner_inv (hv_tasks ?s) (hv_lock ?s) (hv_handler ?s) h"
    using serialisedD(6)[OF assms(1)] assms(2,5) by (auto simp: owner_inv_def with_task_at)
  show "task_inv L H h (hv_lock ?s) (hv_handler ?s) j (hv_tasks ?s ! j)" if "j < length (hv_tasks ?s)" for j
    using serialisedD(5)[OF assms(1)] assms(2,6) that by (simp add: with_task_at)
qed (use serialisedD(3)[OF assms(1)] with_task_carries[OF assms(1-3)] assms(2) in \<open>simp_all add: with_task_requests del: with_task_stream\<close>)

text \<open>The end of a call appends it to the order.\<close>

lemma serialised_call_over:
  assumes "serialised L H h0 s order rs h" "i < length (hv_tasks s)" "phase_at s i = Handling k"
    and "poll_call H k (hv_handler s) = (Ready r, k1, now)"
    and "p = (case r of None \<Rightarrow> Ended H2_Panicked | Some x \<Rightarrow> Responding x)"
  shows "serialised L H h0 (with_task i p None now s) (order @ [i]) (rs @ [r]) now" (is "serialised L H h0 ?s _ _ now")
proof (rule serialisedI)
  have ti: "hv_lock s = Some i" "rest_of_call H k (hv_handler s) = run_call H (h2_request_of L (stream_at s i)) h"
    using serialisedD(5)[OF assms(1,2)] assms(3) by (simp_all add: task_inv_def)
  then have run: "run_call H (h2_request_of L (stream_at s i)) h = Some (r, now)"
    using assms(4) by (subst (asm) await_future.simps) simp
  have nc: "\<not> call_over (phase_at s i)" "call_over p" using assms(3,5) by (simp_all split: option.splits)
  show "distinct (order @ [i])" using serialisedD(1,2)[OF assms(1)] nc by simp
  show "set (order @ [i]) = {j. j < length (hv_tasks ?s) \<and> call_over (phase_at ?s j)}"
    using serialisedD(2)[OF assms(1)] assms(2) nc by (auto simp: with_task_at)
  show "serial_calls H (map (\<lambda>j. h2_request_of L (stream_at ?s j)) (order @ [i])) h0 = Some (rs @ [r], now)"
    using serial_calls_snoc[OF serialisedD(3)[OF assms(1)] run] assms(2) by simp
  have "carries L (hv_tasks ?s ! i) r"
    using assms(2,5) by (simp add: with_task_at carries_def h2_outcome_of_def split: option.splits)
  then show "list_all2 (\<lambda>j r. carries L (hv_tasks ?s ! j) r) (order @ [i]) (rs @ [r])"
    using with_task_carries[OF assms(1,2) nc(1)] by (simp add: list_all2_appendI)
  have "task_inv L H now None now i ((hv_tasks s ! i)\<lparr>st_phase := p\<rparr>)"
    using assms(5) by (simp add: task_inv_def split: option.splits)
  then show "task_inv L H now (hv_lock ?s) (hv_handler ?s) j (hv_tasks ?s ! j)" if "j < length (hv_tasks ?s)" for j
    using with_task_others[OF assms(1,2)] ti(1) that by simp
  show "owner_inv (hv_tasks ?s) (hv_lock ?s) (hv_handler ?s) now" by (simp add: owner_inv_def)
qed

lemma serialised_responded:
  assumes "serialised L H h0 s order rs h" "i < length (hv_tasks s)" "phase_at s i = Responding x"
    and "p = Ended (h2_respond L (stream_at s i) x)"
  shows "serialised L H h0 (with_task i p (hv_lock s) (hv_handler s) s) order rs h" (is "serialised L H h0 ?s order rs h")
proof (rule serialisedI)
  show "distinct order" by (rule serialisedD(1)[OF assms(1)])
  have "call_over (phase_at ?s j) = call_over (phase_at s j)" for j
    using assms(2-4) by (cases "j = i") (simp_all add: with_task_at)
  then show "set order = {j. j < length (hv_tasks ?s) \<and> call_over (phase_at ?s j)}"
    using serialisedD(2)[OF assms(1)] by simp
  have "carries L (hv_tasks s ! j) r \<Longrightarrow> carries L (hv_tasks ?s ! j) r" for j r
    using assms(2-4) by (cases "j = i") (simp_all add: with_task_at carries_def h2_outcome_of_def)
  then show "list_all2 (\<lambda>j r. carries L (hv_tasks ?s ! j) r) order rs"
    by (rule list_all2_mono[OF serialisedD(4)[OF assms(1)]])
  show "owner_inv (hv_tasks ?s) (hv_lock ?s) (hv_handler ?s) h"
    using serialisedD(6)[OF assms(1)] assms(2,3) by (auto simp: owner_inv_def with_task_at)
  show "task_inv L H h (hv_lock ?s) (hv_handler ?s) j (hv_tasks ?s ! j)" if "j < length (hv_tasks ?s)" for j
    using serialisedD(5)[OF assms(1)] assms(2,4) that by (simp add: with_task_at task_inv_def)
qed (use serialisedD(3)[OF assms(1)] assms(2) in \<open>simp_all add: with_task_requests del: with_task_stream\<close>)

lemma serialised_accept:
  assumes "serialised L H h0 s order rs h"
  shows "serialised L H h0 (accept_step s) order rs h"
proof -
  have same: "serialised L H h0 (s\<lparr>hv_arriving := as, hv_result := r\<rparr>) order rs h"
      "serialised L H h0 (s\<lparr>hv_result := r\<rparr>) order rs h" for as r
    using assms by (simp_all add: serialised_def)
  have spawned: "serialised L H h0 (s\<lparr>hv_arriving := as, hv_tasks := hv_tasks s @ [h2_spawn st]\<rparr>) order rs h" for as st
  proof -
    let ?s = "s\<lparr>hv_arriving := as, hv_tasks := hv_tasks s @ [h2_spawn st]\<rparr>"
    note mem = serialisedD(2)[OF assms]
    then have old: "\<forall>i \<in> set order. i < length (hv_tasks s)" by simp
    show ?thesis
    proof (rule serialisedI)
      show "distinct order" by (rule serialisedD(1)[OF assms])
      have "i < length (hv_tasks ?s) \<and> call_over (phase_at ?s i) \<longleftrightarrow> i < length (hv_tasks s) \<and> call_over (phase_at s i)" for i
        by (cases i "length (hv_tasks s)" rule: linorder_cases) (simp_all add: nth_append h2_spawn_def)
      then show "set order = {i. i < length (hv_tasks ?s) \<and> call_over (phase_at ?s i)}"
        using mem by simp
      have m: "map (\<lambda>i. h2_request_of L (stream_at ?s i)) order = map (\<lambda>i. h2_request_of L (stream_at s i)) order"
        using old by (simp add: nth_append)
      show "serial_calls H (map (\<lambda>i. h2_request_of L (stream_at ?s i)) order) h0 = Some (rs, h)"
        unfolding m by (rule serialisedD(3)[OF assms])
      show "list_all2 (\<lambda>i r. carries L (hv_tasks ?s ! i) r) order rs"
        using serialisedD(4)[OF assms] old by (auto simp: list_all2_conv_all_nth nth_append)
      show "owner_inv (hv_tasks ?s) (hv_lock ?s) (hv_handler ?s) h"
        using serialisedD(6)[OF assms] by (auto simp: owner_inv_def nth_append)
      show "task_inv L H h (hv_lock ?s) (hv_handler ?s) i (hv_tasks ?s ! i)" if "i < length (hv_tasks ?s)" for i
        using serialisedD(5)[OF assms] that by (auto simp: nth_append task_inv_def h2_spawn_def)
    qed
  qed
  show ?thesis using same spawned by (auto simp: accept_step_def split: list.splits sum.splits)
qed

lemma serialised_task:
  assumes inv: "serialised L H h0 s order rs h" and i: "i < length (hv_tasks s)"
    and st: "stream_step L H i (stream_at s i) (phase_at s i) (hv_lock s) (hv_handler s) = Some (p, l, now)"
  shows "\<exists>order rs h. serialised L H h0 (with_task i p l now s) order rs h"
proof -
  note ti = serialisedD(5)[OF inv i]
  have same: ?thesis if "l = hv_lock s" "now = hv_handler s" "\<not> call_over (phase_at s i)" "\<not> call_over p"
      "\<And>k. phase_at s i \<noteq> Handling k" "task_inv L H h (hv_lock s) (hv_handler s) i ((hv_tasks s ! i)\<lparr>st_phase := p\<rparr>)"
    using serialised_outside[OF inv i that(3-6)] that(1,2) by blast
  show ?thesis
  proof (cases "phase_at s i")
    case (Draining body es)
    then show ?thesis
      using st ti
      by (cases "(L, H, i, stream_at s i, phase_at s i, hv_lock s, hv_handler s)" rule: stream_step.cases; intro same)
         (auto simp: task_inv_def h2_request_with_body)
  next
    case (Locking q)
    then have l: "hv_lock s = None" "p = Handling (begin_call H q)" "l = Some i" "now = hv_handler s"
      using st by (simp_all split: option.splits)
    have "hv_handler s = h" using serialisedD(6)[OF inv] l(1) by (simp add: owner_inv_def)
    then have "task_inv L H h (Some i) now i ((hv_tasks s ! i)\<lparr>st_phase := p\<rparr>)"
      using ti Locking l by (simp add: task_inv_def run_call_def)
    then show ?thesis
      using serialised_no_call[OF inv i, of p now "begin_call H q"] Locking l by auto
  next
    case (Handling k)
    obtain q k1 h1 where q: "poll_call H k (hv_handler s) = (q, k1, h1)" by (metis prod_cases3)
    show ?thesis
    proof (cases q)
      case Pending
      then have p: "p = Handling k1" "l = Some i" "now = h1"
        using st Handling q ti by (simp_all add: task_inv_def)
      have "rest_of_call H k1 h1 = rest_of_call H k (hv_handler s)"
        using q Pending by (subst (2) await_future.simps) simp
      then have "task_inv L H h (Some i) now i ((hv_tasks s ! i)\<lparr>st_phase := p\<rparr>)"
        using ti Handling p by (simp add: task_inv_def)
      then show ?thesis
        using serialised_no_call[OF inv i, of p now k1] Handling p ti by (auto simp: task_inv_def)
    next
      case (Ready r)
      then have "p = (case r of None \<Rightarrow> Ended H2_Panicked | Some x \<Rightarrow> Responding x)" "l = None" "now = h1"
        using st Handling q by (simp_all split: option.splits)
      then show ?thesis using serialised_call_over[OF inv i Handling] q Ready by blast
    qed
  next
    case (Responding x)
    then show ?thesis using serialised_responded[OF inv i Responding] st by auto
  qed (use st in simp)
qed

lemma reach_serialised: "h2_reach L H accepts h0 s \<Longrightarrow> \<exists>order rs h. serialised L H h0 s order rs h"
proof (induction rule: h2_reach.induct)
  case start
  have "serialised L H h0 (h2_start accepts h0) [] [] h0"
    by (rule serialisedI) (simp_all add: h2_start_def owner_inv_def)
  then show ?case by blast
next
  case (step s s1)
  then obtain order rs h where inv: "serialised L H h0 s order rs h" by blast
  from step.hyps(2) show ?case
    by cases (use serialised_accept[OF inv] serialised_task[OF inv] in blast)+
qed

text \<open>The accept loop runs as if it were alone.\<close>

lemma reach_accepted:
  "h2_reach L H accepts h0 s \<Longrightarrow>
     h2_accept_loop accepts =
       (case hv_result s of
          Some r \<Rightarrow> (r, map st_stream (hv_tasks s))
        | None \<Rightarrow> (fst (h2_accept_loop (hv_arriving s)), map st_stream (hv_tasks s) @ snd (h2_accept_loop (hv_arriving s))))"
proof (induction rule: h2_reach.induct)
  case start
  show ?case by (simp add: h2_start_def)
next
  case (step s s1)
  from step.hyps(2) show ?case
  proof cases
    case accept
    then show ?thesis
      using step.IH by (auto simp: accept_step_def h2_spawn_def split: list.splits sum.splits prod.splits)
  next
    case (task i p l h)
    have "map st_stream (hv_tasks s1) = map st_stream (hv_tasks s)"
      unfolding task(1) by (rule with_task_streams[OF task(2)])
    then show ?thesis using step.IH task(1) by (cases "hv_result s") simp_all
  qed
qed

section \<open>Progress\<close>

abbreviation h2_runs :: "h2_lib \<Rightarrow> ('h, 'k) h2_handler \<Rightarrow> ('e, 'h, 'k) h2_server \<Rightarrow> ('e, 'h, 'k) h2_server \<Rightarrow> bool" where
  "h2_runs L H \<equiv> (h2_step L H)\<^sup>*\<^sup>*"

text \<open>Between two states only the tasks of \<open>J\<close> have taken steps.\<close>

definition only_tasks :: "nat set \<Rightarrow> ('e, 'h, 'k) h2_server \<Rightarrow> ('e, 'h, 'k) h2_server \<Rightarrow> bool" where
  "only_tasks J s s1 \<longleftrightarrow>
     length (hv_tasks s1) = length (hv_tasks s) \<and> hv_arriving s1 = hv_arriving s \<and> hv_result s1 = hv_result s \<and>
     (\<forall>j. j \<notin> J \<longrightarrow> hv_tasks s1 ! j = hv_tasks s ! j)"

lemma only_tasks_with: "i < length (hv_tasks s) \<Longrightarrow> i \<in> J \<Longrightarrow> only_tasks J s (with_task i p l h s)"
  by (auto simp: only_tasks_def with_task_at)

lemma only_tasks_trans: "only_tasks J s s1 \<Longrightarrow> only_tasks J s1 s2 \<Longrightarrow> only_tasks J s s2"
  by (simp add: only_tasks_def)

lemma with_task_twice:
  "i < length (hv_tasks s) \<Longrightarrow> with_task i p l h (with_task i p1 l1 h1 s) = with_task i p l h s"
  by (simp add: with_task_def)

lemma reach_runs: "h2_runs L H s s1 \<Longrightarrow> h2_reach L H accepts h0 s \<Longrightarrow> h2_reach L H accepts h0 s1"
  by (induction rule: rtranclp_induct) (auto intro: h2_reach.step)

text \<open>The owner of the mutex can run to the end of its call on its own.\<close>

lemma call_runs:
  "await_future poll k now = Some res \<Longrightarrow> poll = poll_call H \<longrightarrow> i < length (hv_tasks s) \<longrightarrow> phase_at s i = Handling k \<longrightarrow>
     hv_lock s = Some i \<longrightarrow> hv_handler s = now \<longrightarrow>
     h2_runs L H s (with_task i (case fst res of None \<Rightarrow> Ended H2_Panicked | Some x \<Rightarrow> Responding x) None (snd res) s)"
proof (induction arbitrary: s rule: await_future.raw_induct[rotated 1, consumes 1])
  case (1 rec poll k now res)
  show ?case
  proof (intro impI)
    assume p: "poll = poll_call H" and i: "i < length (hv_tasks s)" and s: "phase_at s i = Handling k"
      "hv_lock s = Some i" "hv_handler s = now"
    obtain q k1 now1 where q: "poll k now = (q, k1, now1)" by (metis prod_cases3)
    show "h2_runs L H s (with_task i (case fst res of None \<Rightarrow> Ended H2_Panicked | Some x \<Rightarrow> Responding x) None (snd res) s)"
    proof (cases q)
      case Pending
      let ?s = "with_task i (Handling k1) (Some i) now1 s"
      have "h2_step L H s ?s"
        using i s p q Pending by (intro h2_step.task) simp_all
      moreover have "rec poll k1 now1 = Some res" using 1(2) q Pending by simp
      from 1(1)[OF this, of ?s] have
        "h2_runs L H ?s (with_task i (case fst res of None \<Rightarrow> Ended H2_Panicked | Some x \<Rightarrow> Responding x) None (snd res) ?s)"
        using p i by (simp add: with_task_at)
      ultimately show ?thesis using i by (simp add: with_task_twice converse_rtranclp_into_rtranclp)
    next
      case (Ready r)
      then have "res = (r, now1)" using 1(2) q by simp
      then show ?thesis
        using i s p q Ready by (intro r_into_rtranclp h2_step.task) (auto split: option.splits)
    qed
  qed
qed

definition calls_return :: "('h, 'k) h2_handler \<Rightarrow> bool" where
  "calls_return H \<longleftrightarrow> (\<forall>q h. run_call H q h \<noteq> None)"

lemma owner_finishes:
  assumes "serialised L H h0 s order rs h" "calls_return H" "hv_lock s = Some i"
  shows "\<exists>s1. h2_runs L H s s1 \<and> only_tasks {i} s s1 \<and> hv_lock s1 = None \<and> i < length (hv_tasks s) \<and>
    call_over (phase_at s1 i)"
proof -
  obtain k where i: "i < length (hv_tasks s)" and k: "phase_at s i = Handling k"
    using serialisedD(6)[OF assms(1)] assms(3) by (auto simp: owner_inv_def)
  have "rest_of_call H k (hv_handler s) = run_call H (h2_request_of L (stream_at s i)) h"
    using serialisedD(5)[OF assms(1) i] k by (simp add: task_inv_def)
  then obtain res where res: "rest_of_call H k (hv_handler s) = Some res"
    using assms(2) by (metis calls_return_def option.exhaust)
  let ?p = "case fst res of None \<Rightarrow> Ended H2_Panicked | Some x \<Rightarrow> Responding x"
  have "h2_runs L H s (with_task i ?p None (snd res) s)" using call_runs[OF res] i k assms(3) by blast
  moreover have "call_over ?p" by (simp split: option.splits)
  ultimately show ?thesis using i by (intro exI[of _ "with_task i ?p None (snd res) s"]) (simp add: only_tasks_with with_task_at)
qed

lemma task_responds:
  assumes "i < length (hv_tasks s)" "call_over (phase_at s i)"
  shows "\<exists>s1 out. h2_runs L H s s1 \<and> only_tasks {i} s s1 \<and> phase_at s1 i = Ended out"
proof (cases "phase_at s i")
  case (Responding r)
  let ?s = "with_task i (Ended (h2_respond L (stream_at s i) r)) (hv_lock s) (hv_handler s) s"
  have "h2_step L H s ?s" using assms(1) Responding by (intro h2_step.task) simp_all
  then show ?thesis using assms(1) by (intro exI[of _ ?s]) (auto simp: only_tasks_with with_task_at)
next
  case (Ended out)
  then show ?thesis by (intro exI[of _ s]) (simp add: only_tasks_def)
qed (use assms(2) in simp_all)

lemma owner_ends:
  assumes "h2_reach L H accepts h0 s" "calls_return H" "hv_lock s = Some i"
  shows "\<exists>s1 out. h2_runs L H s s1 \<and> only_tasks {i} s s1 \<and> phase_at s1 i = Ended out"
proof -
  obtain order rs h where inv: "serialised L H h0 s order rs h" using reach_serialised[OF assms(1)] by blast
  obtain s1 where s1: "h2_runs L H s s1" "only_tasks {i} s s1" "i < length (hv_tasks s)" "call_over (phase_at s1 i)"
    using owner_finishes[OF inv assms(2,3)] by blast
  then obtain s2 out where "h2_runs L H s1 s2" "only_tasks {i} s1 s2" "phase_at s2 i = Ended out"
    using task_responds[of i s1 L H] by (auto simp: only_tasks_def)
  then show ?thesis using s1(1,2) only_tasks_trans by (metis rtranclp_trans)
qed

lemma waiting_ends:
  assumes "h2_reach L H accepts h0 s" "calls_return H" "hv_lock s = None" "i < length (hv_tasks s)" "phase_at s i = Locking q"
  shows "\<exists>s1 out. h2_runs L H s s1 \<and> only_tasks {i} s s1 \<and> phase_at s1 i = Ended out"
proof -
  let ?s = "with_task i (Handling (begin_call H q)) (Some i) (hv_handler s) s"
  have st: "h2_step L H s ?s" using assms(3-5) by (intro h2_step.task) simp_all
  then have "h2_reach L H accepts h0 ?s" by (rule h2_reach.step[OF assms(1)])
  from owner_ends[OF this assms(2), of i] show ?thesis
    using st only_tasks_trans[OF only_tasks_with[OF assms(4), of "{i}"]] by (auto intro: converse_rtranclp_into_rtranclp)
qed

text \<open>Whether anything can still happen.\<close>

lemma no_step_ended:
  assumes "h2_reach L H accepts h0 s" "\<And>s1. \<not> h2_step L H s s1" "i < length (hv_tasks s)"
  shows "\<exists>out. phase_at s i = Ended out"
proof -
  obtain order rs h where inv: "serialised L H h0 s order rs h" using reach_serialised[OF assms(1)] by blast
  have none: "stream_step L H j (stream_at s j) (phase_at s j) (hv_lock s) (hv_handler s) = None" if "j < length (hv_tasks s)" for j
  proof (rule ccontr)
    assume "stream_step L H j (stream_at s j) (phase_at s j) (hv_lock s) (hv_handler s) \<noteq> None"
    then obtain p l h where "stream_step L H j (stream_at s j) (phase_at s j) (hv_lock s) (hv_handler s) = Some (p, l, h)"
      by (metis not_None_eq prod_cases3)
    from h2_step.task[OF that this] assms(2) show False by blast
  qed
  have free: "hv_lock s = None"
  proof (rule ccontr)
    assume "hv_lock s \<noteq> None"
    then obtain j k where "j < length (hv_tasks s)" "phase_at s j = Handling k"
      using serialisedD(6)[OF inv] by (auto simp: owner_inv_def)
    then show False using none[of j] by (auto split: prod.splits poll.splits option.splits)
  qed
  show ?thesis
  proof (cases "phase_at s i")
    case (Draining body es)
    then show ?thesis using none[OF assms(3)] by (cases es rule: list.exhaust; cases "hd es") simp_all
  next
    case (Handling k)
    then show ?thesis using none[OF assms(3)] by (auto split: prod.splits poll.splits option.splits)
  qed (use none[OF assms(3)] free in simp_all)
qed

section \<open>Properties\<close>

text \<open>The streams of the tasks are the accepted ones, in the order of their acceptance.\<close>

lemma reach_streams:
  assumes "h2_reach L H accepts h0 s"
  shows "\<exists>more. snd (serve_h2 (Inr ()) accepts) = map st_stream (hv_tasks s) @ more"
    "i < length (hv_tasks s) \<Longrightarrow> snd (serve_h2 (Inr ()) accepts) ! i = stream_at s i"
proof -
  show m: "\<exists>more. snd (serve_h2 (Inr ()) accepts) = map st_stream (hv_tasks s) @ more"
    using reach_accepted[OF assms] by (cases "hv_result s") (auto simp: serve_h2_def)
  show "i < length (hv_tasks s) \<Longrightarrow> snd (serve_h2 (Inr ()) accepts) ! i = stream_at s i"
    using m by (auto simp: nth_append)
qed

text \<open>
  C6: The tasks of an HTTP/2 connection use the handler as if its calls were made one after the other.  In
  every state that \<open>serve_h2\<close> and its tasks can reach, in whatever order they take their steps, there is an
  order of the streams whose calls are over, such that calling the handler for their requests in that order,
  each call whole, gives the responses that these tasks send or have sent and the handler of that moment (when
  no call is under way); and no two calls are ever under way at once.
\<close>

theorem h2_calls_serialised:
  assumes "h2_reach L H accepts h0 s"
  shows "\<exists>order rs h. distinct order \<and> set order = {i. i < length (hv_tasks s) \<and> call_over (phase_at s i)} \<and>
      serial_calls H (map (\<lambda>i. h2_request_of L (snd (serve_h2 (Inr ()) accepts) ! i)) order) h0 = Some (rs, h) \<and>
      list_all2 (\<lambda>i r. carries L (hv_tasks s ! i) r) order rs \<and> (hv_lock s = None \<longrightarrow> hv_handler s = h) \<and>
      (\<forall>i < length (hv_tasks s). \<forall>j < length (hv_tasks s). \<forall>k1 k2.
         phase_at s i = Handling k1 \<longrightarrow> phase_at s j = Handling k2 \<longrightarrow> i = j)"
proof -
  obtain order rs h where inv: "serialised L H h0 s order rs h" using reach_serialised[OF assms] by blast
  have m: "map (\<lambda>i. h2_request_of L (snd (serve_h2 (Inr ()) accepts) ! i)) order = map (\<lambda>i. h2_request_of L (stream_at s i)) order"
    using serialisedD(2)[OF inv] reach_streams(2)[OF assms] by simp
  have owner: "hv_lock s = Some i" if "i < length (hv_tasks s)" "phase_at s i = Handling k" for i k
    using serialisedD(5)[OF inv that(1)] that(2) by (simp add: task_inv_def)
  have one: "i = j" if "i < length (hv_tasks s)" "j < length (hv_tasks s)" "phase_at s i = Handling k1" "phase_at s j = Handling k2"
    for i j k1 k2 using owner[OF that(1,3)] owner[OF that(2,4)] by simp
  have "hv_lock s = None \<longrightarrow> hv_handler s = h" using serialisedD(6)[OF inv] by (simp add: owner_inv_def)
  then show ?thesis
    by (intro exI[of _ order] exI[of _ rs] exI[of _ h] conjI serialisedD(1,2,4)[OF inv])
       (use serialisedD(3)[OF inv] one in \<open>simp_all only: m simp_thms, blast\<close>)
qed

text \<open>Schedules, for examples: \<open>None\<close> is a step of the accept loop.\<close>

definition h2_do :: "h2_lib \<Rightarrow> ('h, 'k) h2_handler \<Rightarrow> nat option \<Rightarrow> ('e, 'h, 'k) h2_server \<Rightarrow> ('e, 'h, 'k) h2_server" where
  "h2_do L H who s =
     (case who of
        None \<Rightarrow> if hv_result s = None then accept_step s else s
      | Some i \<Rightarrow>
          if i < length (hv_tasks s)
          then (case stream_step L H i (stream_at s i) (phase_at s i) (hv_lock s) (hv_handler s) of
              None \<Rightarrow> s
            | Some (p, l, h) \<Rightarrow> with_task i p l h s)
          else s)"

lemma schedule_reach: "h2_reach L H accepts h0 s \<Longrightarrow> h2_reach L H accepts h0 (fold (h2_do L H) ws s)"
proof (induction ws arbitrary: s)
  case (Cons w ws)
  have "h2_reach L H accepts h0 (h2_do L H w s)"
    using Cons.prems by (auto simp: h2_do_def intro: h2_reach.step h2_step.intros split: option.splits)
  then show ?case using Cons.IH by simp
qed simp

definition demo_h2_lib :: h2_lib where
  "demo_h2_lib = \<lparr>uri_path = (\<lambda>u. u), header_to_str = Some, valid_head = (\<lambda>_ _. True)\<rparr>"

definition demo_h2_handler :: "(nat, nat \<times> h2_request) h2_handler" where
  "demo_h2_handler =
     \<lparr>begin_call = (\<lambda>q. (1, q)),
      poll_call = (\<lambda>(n, q) h. if n = 0 then (Ready (Some (response_ok (h2_body q))), (0, q), h + 1) else (Pending, (0, q), h))\<rparr>"

definition demo_h2_stream :: "byte list list \<Rightarrow> unit h2_stream" where
  "demo_h2_stream bss = \<lparr>hs_method = [], hs_uri = [], hs_headers = [], hs_body = map H2_Data bss, hs_writable = True\<rparr>"

text \<open>The second stream is ahead of the first, whose upload stalls behind one chunk.\<close>

definition demo_h2_state :: "(unit, nat, nat \<times> h2_request) h2_server" where
  "demo_h2_state = fold (h2_do demo_h2_lib demo_h2_handler) [None, None, Some 0, Some 1, Some 1, Some 1, Some 1]
     (h2_start [Inr (demo_h2_stream [[1], [2]]), Inr (demo_h2_stream [])] 0)"

lemma demo_h2_reach: "h2_reach demo_h2_lib demo_h2_handler [Inr (demo_h2_stream [[1], [2]]), Inr (demo_h2_stream [])] 0 demo_h2_state"
  unfolding demo_h2_state_def by (rule schedule_reach[OF h2_reach.start])

lemma demo_h2_state:
  "hv_lock demo_h2_state = None" "length (hv_tasks demo_h2_state) = 2" "hv_handler demo_h2_state = 1"
  "phase_at demo_h2_state 0 = Draining [1] [H2_Data [2]]" "phase_at demo_h2_state 1 = Responding (response_ok [])"
  by (simp_all add: demo_h2_state_def h2_do_def h2_start_def accept_step_def h2_spawn_def with_task_def demo_h2_stream_def
      demo_h2_handler_def h2_request_with_def)

theorem h2_calls_serialised_witness:
  "\<exists>order rs h. set order = {1} \<and> serial_calls demo_h2_handler (map (\<lambda>i. h2_request_of demo_h2_lib
      ([demo_h2_stream [[1], [2]], demo_h2_stream []] ! i)) order) 0 = Some (rs, h) \<and> h = 1"
proof -
  have s: "snd (serve_h2 (Inr ()) [Inr (demo_h2_stream [[1], [2]]), Inr (demo_h2_stream [])]) = [demo_h2_stream [[1], [2]], demo_h2_stream []]"
    by (simp add: serve_h2_def)
  have "{i. i < length (hv_tasks demo_h2_state) \<and> call_over (phase_at demo_h2_state i)} = {1}"
    using demo_h2_state by (auto simp: less_2_cases_iff)
  then show ?thesis
    using h2_calls_serialised[OF demo_h2_reach] demo_h2_state unfolding s by auto
qed

text \<open>A stream that is sending its body; one that the scheduler leaves there is an upload that stalls.\<close>

fun uploading :: "('e, 'k) stream_phase \<Rightarrow> bool" where
  "uploading (Draining body es) = True"
| "uploading p = False"

lemma drain_runs:
  assumes "phase_at s i = Draining body es" "i < length (hv_tasks s)"
  shows "\<exists>q. h2_runs L H s (with_task i (Locking q) (hv_lock s) (hv_handler s) s)"
  using assms
proof (induction es arbitrary: s body)
  case Nil
  then have "h2_step L H s (with_task i (Locking (h2_request_with L (stream_at s i) body)) (hv_lock s) (hv_handler s) s)"
    by (intro h2_step.task) simp_all
  then show ?case by blast
next
  case (Cons x es)
  show ?case
  proof (cases x)
    case (H2_Data bs)
    let ?s = "with_task i (Draining (body @ bs) es) (hv_lock s) (hv_handler s) s"
    have "h2_step L H s ?s" using Cons.prems H2_Data by (intro h2_step.task) simp_all
    moreover obtain q where "h2_runs L H ?s (with_task i (Locking q) (hv_lock ?s) (hv_handler ?s) ?s)"
      using Cons.IH[of ?s] Cons.prems(2) by (auto simp: with_task_at)
    ultimately show ?thesis
      using Cons.prems(2) by (auto simp: with_task_twice intro: converse_rtranclp_into_rtranclp)
  next
    case (H2_Failed e)
    then have "h2_step L H s (with_task i (Locking (h2_request_with L (stream_at s i) body)) (hv_lock s) (hv_handler s) s)"
      using Cons.prems by (intro h2_step.task) simp_all
    then show ?thesis by blast
  qed
qed

lemma uploaded_ends:
  assumes "h2_reach L H accepts h0 s" "calls_return H" "i < length (hv_tasks s)" "\<not> uploading (phase_at s i)"
  shows "\<exists>s1 out. h2_runs L H s s1 \<and> only_tasks ({i} \<union> {j. hv_lock s = Some j}) s s1 \<and> phase_at s1 i = Ended out"
proof -
  let ?J = "{i} \<union> {j. hv_lock s = Some j}"
  have wide: "only_tasks K s1 s2 \<Longrightarrow> K \<subseteq> ?J \<Longrightarrow> only_tasks ?J s1 s2" for K s1 s2 by (auto simp: only_tasks_def)
  obtain order rs h where inv: "serialised L H h0 s order rs h" using reach_serialised[OF assms(1)] by blast
  show ?thesis
  proof (cases "phase_at s i")
    case (Locking q)
    show ?thesis
    proof (cases "hv_lock s")
      case None
      then show ?thesis using waiting_ends[OF assms(1,2) None assms(3) Locking] wide by blast
    next
      case (Some j)
      obtain s1 where s1: "h2_runs L H s s1" "only_tasks {j} s s1" "hv_lock s1 = None" "call_over (phase_at s1 j)"
        using owner_finishes[OF inv assms(2) Some] by blast
      have "j \<noteq> i" using serialisedD(6)[OF inv] Some Locking by (auto simp: owner_inv_def)
      then have "phase_at s1 i = Locking q" "i < length (hv_tasks s1)"
        using s1(2) Locking assms(3) by (simp_all add: only_tasks_def)
      from waiting_ends[OF reach_runs[OF s1(1) assms(1)] assms(2) s1(3) this(2,1)]
      obtain s2 out where "h2_runs L H s1 s2" "only_tasks {i} s1 s2" "phase_at s2 i = Ended out" by blast
      moreover have "only_tasks ?J s s1" using wide[OF s1(2)] Some by blast
      ultimately show ?thesis using s1(1) wide[of "{i}" s1 s2] only_tasks_trans by (metis Un_upper1 rtranclp_trans)
    qed
  next
    case (Handling k)
    have "hv_lock s = Some i" using serialisedD(5)[OF inv assms(3)] Handling by (simp add: task_inv_def)
    from owner_ends[OF assms(1,2) this] show ?thesis using wide by blast
  qed (use assms(4) task_responds[OF assms(3), of L H] wide in fastforce)+
qed


lemma demo_calls_return: "calls_return demo_h2_handler"
  by (simp add: calls_return_def run_call_def demo_h2_handler_def await_future.simps)


text \<open>
  C29: Nothing gets stuck.  Where neither the accept loop nor a task can take a step any more, \<open>serve_h2\<close> has
  returned what its accept loop alone returns, and every stream it accepted has a task that has ended, with the
  outcome of one call for each stream, made one after the other.  A stream whose call returned a response that
  the library takes, and which can still be written to, has been answered with exactly that response; the other
  ends are a call or a conversion that panicked and a stream that is gone.
\<close>

theorem h2_rest_has_ended:
  assumes "h2_reach L H accepts h0 s" "\<And>s1. \<not> h2_step L H s s1"
  shows "serve_h2 (Inr ()) accepts = (the (hv_result s), map st_stream (hv_tasks s)) \<and> hv_result s \<noteq> None \<and>
    (\<exists>order rs. distinct order \<and> set order = {..<length (hv_tasks s)} \<and>
      serial_calls H (map (\<lambda>i. h2_request_of L (stream_at s i)) order) h0 = Some (rs, hv_handler s) \<and>
      list_all2 (\<lambda>i r. phase_at s i = Ended (h2_outcome_of L (stream_at s i) r) \<and>
        (\<forall>x status headers. r = Some x \<and> response_data_to_http L x = Some (status, headers) \<and> hs_writable (stream_at s i) \<longrightarrow>
           phase_at s i = Ended (H2_Answered status headers (resp_body x)))) order rs)"
proof -
  obtain order rs h where inv: "serialised L H h0 s order rs h" using reach_serialised[OF assms(1)] by blast
  have over: "\<exists>out. phase_at s i = Ended out" if "i < length (hv_tasks s)" for i
    using no_step_ended[OF assms that] by blast
  then have "set order = {..<length (hv_tasks s)}" using serialisedD(2)[OF inv] by fastforce
  moreover have "hv_handler s = h"
    using serialisedD(6)[OF inv] over by (cases "hv_lock s") (fastforce simp: owner_inv_def)+
  moreover have len: "order ! n < length (hv_tasks s)" if "n < length order" for n
    using nth_mem[OF that] serialisedD(2)[OF inv] by simp
  have "phase_at s i = Ended (h2_outcome_of L (stream_at s i) r) \<and>
      (\<forall>x status headers. r = Some x \<and> response_data_to_http L x = Some (status, headers) \<and> hs_writable (stream_at s i) \<longrightarrow>
         phase_at s i = Ended (H2_Answered status headers (resp_body x)))"
    if "carries L (hv_tasks s ! i) r" "i < length (hv_tasks s)" for i r
    using over[OF that(2)] that(1) by (auto simp: carries_def h2_outcome_of_def h2_respond_def)
  then have "list_all2 (\<lambda>i r. phase_at s i = Ended (h2_outcome_of L (stream_at s i) r) \<and>
      (\<forall>x status headers. r = Some x \<and> response_data_to_http L x = Some (status, headers) \<and> hs_writable (stream_at s i) \<longrightarrow>
         phase_at s i = Ended (H2_Answered status headers (resp_body x)))) order rs"
    using serialisedD(4)[OF inv] len unfolding list_all2_conv_all_nth by blast
  moreover have "hv_result s \<noteq> None" using h2_step.accept[of s L H] assms(2) by blast
  moreover have "serve_h2 (Inr ()) accepts = (the (hv_result s), map st_stream (hv_tasks s))"
    using reach_accepted[OF assms(1)] calculation(4) by (auto simp: serve_h2_def)
  ultimately show ?thesis using serialisedD(1,3)[OF inv] by blast
qed

definition demo_h2_rest :: "(unit, nat, nat \<times> h2_request) h2_server" where
  "demo_h2_rest = fold (h2_do demo_h2_lib demo_h2_handler) ([None, None] @ replicate 5 (Some 0)) (h2_start [Inr (demo_h2_stream [])] 0)"

lemma demo_h2_rest:
  "hv_result demo_h2_rest = Some (Inr ())" "length (hv_tasks demo_h2_rest) = 1" "hv_lock demo_h2_rest = None"
  "phase_at demo_h2_rest 0 = Ended (h2_respond demo_h2_lib (demo_h2_stream []) (response_ok []))"
  "hv_handler demo_h2_rest = 1" "stream_at demo_h2_rest 0 = demo_h2_stream []"
  by (simp_all add: demo_h2_rest_def h2_do_def h2_start_def accept_step_def h2_spawn_def with_task_def demo_h2_stream_def
      demo_h2_handler_def h2_request_with_def numeral_eq_Suc)

theorem h2_rest_has_ended_witness:
  "serve_h2 (Inr ()) [Inr (demo_h2_stream [])] = (Inr (), [demo_h2_stream []])"
proof -
  have r: "h2_reach demo_h2_lib demo_h2_handler [Inr (demo_h2_stream [])] 0 demo_h2_rest"
    unfolding demo_h2_rest_def by (rule schedule_reach[OF h2_reach.start])
  have "\<not> h2_step demo_h2_lib demo_h2_handler demo_h2_rest s1" for s1
    using demo_h2_rest by (auto elim: h2_step.cases)
  from h2_rest_has_ended[OF r this] demo_h2_rest have
    "serve_h2 (Inr ()) [Inr (demo_h2_stream [])] = (Inr (), map st_stream (hv_tasks demo_h2_rest))" by simp
  moreover have "map st_stream (hv_tasks demo_h2_rest) = [demo_h2_stream []]"
    using demo_h2_rest by (intro nth_equalityI) auto
  ultimately show ?thesis by simp
qed

end
