(* ===== verification/Http_Demo.thy ===== *)
theory Http_Demo
  imports Http_Properties
begin

text \<open>
  The HTTP demonstrations: the first half of \<open>examples/desktop/src/bin/http-ws.rs\<close>, and
  \<open>crates/tpt-net-http/examples/hello-server.rs\<close>.  The pipe between the two ends is left out: an end is a
  transport, and what one sends the other receives in any pieces.
\<close>

section \<open>HTTP over a pipe\<close>

definition health_json :: "byte list" where
  "health_json = [123, 34] @ ascii ''status'' @ [34, 58, 34] @ ascii ''ok'' @ [34, 125]"

text \<open>The two handlers named \<open>Health\<close>.\<close>

definition health_handler :: "unit handler" where
  "health_handler u req =
     (if sr_target req = ascii ''/health'' then Respond (response_ok health_json) () else Respond not_found ())"

definition hello_handler :: "unit handler" where
  "hello_handler u req = Respond (response_ok health_json) ()"

text \<open>The client of both: one request, and its body up to 4096 bytes.\<close>

definition health_request :: client_request where
  "health_request = client_request_new (ascii ''GET'') (ascii ''/health'')"

definition health_client :: "http_connection \<Rightarrow> (http_error + nat \<times> byte list) \<times> http_connection" where
  "health_client c =
     (case client_send health_request (ascii ''localhost'') c of
        (Inl e, c1) \<Rightarrow> (Inl e, c1)
      | (Inr (h, br), c1) \<Rightarrow>
          (case read_to_vec 4096 br c1 of
             (Inl e, br2, c2) \<Rightarrow> (Inl e, c2)
           | (Inr body, br2, c2) \<Rightarrow> (Inr (rs_status h, body), c2)))"

lemma health_request_ok: "client_request_ok health_request (ascii ''localhost'')"
  by (simp add: client_request_ok_def health_request_def client_request_new_def request_ok_def header_ok_def
      header_lookup_def is_tchar_strict_def ascii_def is_ows_def client_head_def crlf_def to_decimal.simps
      read_chunk_def max_head_def u64_max_def)

lemma health_response: "resp_body (response_ok health_json) = health_json" "resp_status (response_ok health_json) = 200"
  "health_json \<noteq> []" "length health_json \<le> 4096"
  by (simp_all add: response_ok_def response_new_def health_json_def ascii_def)

lemma health_response_ok: "response_data_ok (response_ok health_json)"
proof -
  have "length (head_of_response (response_ok health_json)) + read_chunk \<le> max_head"
    by (simp add: head_of_response_def render_head_def response_ok_def response_new_def reason_def ascii_def crlf_def
        to_decimal.simps read_chunk_def max_head_def health_json_def)
  then show ?thesis
    by (simp add: response_data_ok_def response_ok_def response_new_def header_lookup_def u64_max_def health_json_def ascii_def)
qed

lemma health_answers:
  "answer (health_handler u (wire_view (client_wire health_request host))) True [] = Some (response_ok health_json, (), True)"
  "answer (hello_handler u (wire_view (client_wire health_request host))) True [] = Some (response_ok health_json, (), True)"
  by (simp_all add: health_handler_def hello_handler_def wire_view_def client_wire_def health_request_def client_request_new_def)

text \<open>The server's half of the exchange.\<close>

lemma health_server:
  assumes "h \<in> {health_handler, hello_handler}" "writable (conn_new ts)" "clean (conn_new ts)"
    and "conn_bytes (conn_new ts) = wire_bytes (client_wire health_request (ascii ''localhost''))"
  shows "\<exists>c1. serve_connection h () ts = (Inr (), (), c1) \<and>
    outgoing (io c1) = outgoing ts @ response_bytes (response_ok health_json)"
proof -
  let ?q = "client_wire health_request (ascii ''localhost'')"
  have framed: "wq_framed ?q = []" "wq_body ?q = []"
    by (simp_all add: client_wire_def health_request_def client_request_new_def)
  have spec: "serve_spec h () [?q] = Some (response_bytes (response_ok health_json), ())"
    using assms(1) by (auto simp: framed health_answers)
  have ok: "list_all wire_request_ok [?q]" using client_wire_ok[OF health_request_ok] by simp
  have bytes: "conn_bytes (conn_new ts) = concat (map wire_bytes [?q])" using assms(4) by simp
  have start: "\<not> eof (conn_new ts)" "buf_small (conn_new ts)" "io (conn_new ts) = ts"
    by (simp_all add: conn_new_def buf_small_def)
  from serve_loop_spec[OF spec ok bytes start(1,2) assms(2,3)] start(3) show ?thesis by (simp add: serve_connection_def)
qed

text \<open>
  C11: The HTTP half of the demonstration does what its assertions say.  Whatever pieces and pauses the pipe
  makes of the bytes in either direction, if the server receives what the client sends and the client what the
  server sends, the client gets status 200 and the JSON document, and the server ends without an error when the
  client has gone.
\<close>

theorem http_demo_succeeds:
  assumes "h \<in> {health_handler, hello_handler}"
    and "writable (conn_new tc)" "outgoing tc = []" "writable (conn_new ts)" "clean (conn_new ts)" "outgoing ts = []"
    and "conn_bytes (conn_new ts) =
      outgoing (io (snd (client_send health_request (ascii ''localhost'') (conn_new tc))))"
    and "conn_bytes (conn_new tc) = outgoing (io (snd (snd (serve_connection h () ts))))"
  shows "fst (health_client (conn_new tc)) = Inr (200, health_json) \<and> fst (serve_connection h () ts) = Inr ()"
proof -
  obtain r c1 where r: "client_send health_request (ascii ''localhost'') (conn_new tc) = (r, c1)" by fastforce
  have io: "io (conn_new tc) = tc" "buf_small (conn_new tc)" "\<not> eof (conn_new tc)" by (simp_all add: conn_new_def buf_small_def)
  have "conn_bytes (conn_new ts) = wire_bytes (client_wire health_request (ascii ''localhost''))"
    using client_send_writes[OF r assms(2)] assms(3,7) r io by simp
  from health_server[OF assms(1,4,5) this] obtain c2 where
    s: "serve_connection h () ts = (Inr (), (), c2)" "outgoing (io c2) = response_bytes (response_ok health_json)"
    using assms(6) by auto
  then have bytes: "conn_bytes (conn_new tc) = response_bytes (response_ok health_json) @ []" using assms(8) by simp
  have hd: "\<not> eq_ignore_ascii_case (cq_method health_request) (ascii ''HEAD'')"
    by (simp add: health_request_def client_request_new_def eq_ignore_ascii_case_def to_ascii_lowercase_def ascii_def)
  let ?br = "body_reader_new (Content_Length (length health_json))"
  from client_reads_response[OF health_response_ok io(2,3) assms(2) bytes hd, of "ascii ''localhost''"]
  obtain hd c3 where c3: "client_send health_request (ascii ''localhost'') (conn_new tc) = (Inr (hd, ?br), c3)"
      "rs_status hd = 200" "conn_bytes c3 = health_json @ []" "\<not> eof c3"
    using health_response by auto
  have "body_pending ?br (conn_bytes c3) health_json []" using body_pending_content_length[of health_json "[]"] c3(3) by simp
  from read_to_vec_pending[OF this c3(4) health_response(4)] show ?thesis
    using c3(1,2) s(1) by (auto simp: health_client_def)
qed

theorem http_demo_succeeds_witness:
  "\<exists>tc ts. fst (health_client (conn_new tc)) = Inr (200, health_json) \<and>
     fst (serve_connection health_handler () ts) = Inr () \<and> incoming tc = [Chunk (take 7 (response_bytes (response_ok health_json))), Idle,
       Chunk (drop 7 (response_bytes (response_ok health_json)))]"
proof -
  let ?q = "wire_bytes (client_wire health_request (ascii ''localhost''))" and ?r = "response_bytes (response_ok health_json)"
  let ?tc = "demo_transport ?r" and ?ts = "demo_transport ?q"
  have len: "7 < length ?q"
    by (simp add: wire_bytes_def client_head_wire[symmetric] client_head_def health_request_def client_request_new_def ascii_def)
  note t = demo_transport_ok[OF len] and u = demo_transport_ok[OF demo_response_length[of "response_ok health_json" "[]"], simplified]
  have w: "writable (conn_new ?tc)" "outgoing ?tc = []" "outgoing ?ts = []"
    by (simp_all add: conn_new_def demo_transport_def writable_def)
  obtain x c1 where x: "client_send health_request (ascii ''localhost'') (conn_new ?tc) = (x, c1)" by fastforce
  have q: "conn_bytes (conn_new ?ts) = outgoing (io (snd (client_send health_request (ascii ''localhost'') (conn_new ?tc))))"
    using client_send_writes[OF x w(1)] x t(1) w(2) by (simp add: conn_new_def)
  have hh: "health_handler \<in> {health_handler, hello_handler}" by simp
  from health_server[OF hh t(3,2) t(1)] obtain c2 where
    s: "serve_connection health_handler () ?ts = (Inr (), (), c2)" "outgoing (io c2) = ?r" using w(3) by auto
  then have r: "conn_bytes (conn_new ?tc) = outgoing (io (snd (snd (serve_connection health_handler () ?ts))))"
    using u(1) by simp
  from http_demo_succeeds[OF hh w(1,2) t(3,2) w(3) q r] show ?thesis
    by (intro exI[of _ ?tc] exI[of _ ?ts]) (simp add: demo_transport_def)
qed

end
