(* ===== verification/Ws_Frame.thy ===== *)
theory Ws_Frame
  imports Bytes
begin

text \<open>
  The RFC 6455 frame codec of \<open>crates/tpt-net-ws/src/frame.rs\<close>: opcodes, \<open>encode\<close>,
  \<open>decode\<close> and the masking transform, byte for byte.
\<close>

section \<open>Frames\<close>

datatype opcode = Op_Continuation | Op_Text | Op_Binary | Op_Close | Op_Ping | Op_Pong

text \<open>The errors of the crate; the I/O errors of the transport are of type \<open>'e\<close>.\<close>

datatype 'e ws_error =
    Ws_Io 'e
  | Ws_Protocol string
  | Ws_Connection_Closed
  | Ws_Handshake string
  | Ws_Timed_Out

fun opcode_from_u8 :: "byte \<Rightarrow> 'e ws_error + opcode" where
  "opcode_from_u8 v =
     (if v = 0x0 then Inr Op_Continuation
      else if v = 0x1 then Inr Op_Text
      else if v = 0x2 then Inr Op_Binary
      else if v = 0x8 then Inr Op_Close
      else if v = 0x9 then Inr Op_Ping
      else if v = 0xA then Inr Op_Pong
      else Inl (Ws_Protocol ''reserved opcode''))"

fun opcode_to_u8 :: "opcode \<Rightarrow> byte" where
  "opcode_to_u8 Op_Continuation = 0x0"
| "opcode_to_u8 Op_Text = 0x1"
| "opcode_to_u8 Op_Binary = 0x2"
| "opcode_to_u8 Op_Close = 0x8"
| "opcode_to_u8 Op_Ping = 0x9"
| "opcode_to_u8 Op_Pong = 0xA"

fun is_control :: "opcode \<Rightarrow> bool" where
  "is_control Op_Close = True"
| "is_control Op_Ping = True"
| "is_control Op_Pong = True"
| "is_control _ = False"

record frame =
  fin :: bool
  rsv1 :: bool
  opcode :: opcode
  payload :: "byte list"

datatype role = Client | Server

definition max_payload :: nat where
  "max_payload = 16 * 1024 * 1024"

section \<open>Masking\<close>

definition apply_mask :: "byte list \<Rightarrow> byte list \<Rightarrow> byte list" where
  "apply_mask key data = map (\<lambda>(i, b). b XOR key ! (i mod 4)) (enumerate 0 data)"

section \<open>Encoding\<close>

definition first_byte :: "frame \<Rightarrow> byte" where
  "first_byte f = push_bit 7 (of_bool (fin f)) OR push_bit 6 (of_bool (rsv1 f)) OR opcode_to_u8 (opcode f)"

definition length_bytes :: "byte \<Rightarrow> nat \<Rightarrow> byte list" where
  "length_bytes mask_bit len =
     (if len < 126 then [mask_bit OR word_of_nat len]
      else if len \<le> 0xFFFF then (mask_bit OR 126) # to_be_bytes 2 len
      else (mask_bit OR 127) # to_be_bytes 8 len)"

definition encode :: "frame \<Rightarrow> byte list option \<Rightarrow> byte list \<Rightarrow> byte list" where
  "encode f key_opt out =
     (let len = length (payload f);
          mask_bit = (if key_opt \<noteq> None then 0x80 else 0x00);
          out1 = out @ [first_byte f] @ length_bytes mask_bit len
      in case key_opt of
           Some key \<Rightarrow> out1 @ key @ apply_mask key (payload f)
         | None \<Rightarrow> out1 @ payload f)"

section \<open>Decoding\<close>

text \<open>
  The \<open>match len7\<close> of \<open>decode\<close>: the payload length and the position after it, \<open>Inr None\<close>
  when more bytes are needed.
\<close>

definition decode_length :: "byte list \<Rightarrow> nat \<Rightarrow> 'e ws_error + (nat \<times> nat) option" where
  "decode_length buf len7 =
     (if len7 = 126 then
        if length buf < 2 + 2 then Inr None
        else Inr (Some (2 + 2, from_be_bytes (take 2 (drop 2 buf))))
      else if len7 = 127 then
        if length buf < 2 + 8 then Inr None
        else let n = from_be_bytes (take 8 (drop 2 buf)) in
          if n > max_payload \<or> n > u64_max then Inl (Ws_Protocol ''frame exceeds 16 MiB limit'')
          else Inr (Some (2 + 8, n))
      else Inr (Some (2, len7)))"

text \<open>From the masking key on, once the length is known.\<close>

definition decode_body ::
  "byte list \<Rightarrow> role \<Rightarrow> bool \<Rightarrow> bool \<Rightarrow> opcode \<Rightarrow> bool \<Rightarrow> nat \<Rightarrow> nat \<Rightarrow> 'e ws_error + (frame \<times> nat) option" where
  "decode_body buf role fn r1 opc masked pos payload_len =
     (if masked \<and> length buf < pos + 4 then Inr None
      else let key_opt = (if masked then Some (take 4 (drop pos buf)) else None);
               pos1 = (if masked then pos + 4 else pos)
      in if role = Server \<and> \<not> masked then Inl (Ws_Protocol ''client frame is not masked'')
      else if role = Client \<and> masked then Inl (Ws_Protocol ''server frame is masked'')
      else if length buf < pos1 + payload_len then Inr None
      else let data = take payload_len (drop pos1 buf);
               data1 = (case key_opt of Some key \<Rightarrow> apply_mask key data | None \<Rightarrow> data)
      in Inr (Some (\<lparr>fin = fn, rsv1 = r1, opcode = opc, payload = data1\<rparr>, pos1 + payload_len)))"

definition decode :: "byte list \<Rightarrow> role \<Rightarrow> 'e ws_error + (frame \<times> nat) option" where
  "decode buf role =
     (if length buf < 2 then Inr None
      else let b0 = buf ! 0; b1 = buf ! 1 in
      if b0 AND 0x30 \<noteq> 0 then Inl (Ws_Protocol ''RSV2/RSV3 bits set'')
      else case opcode_from_u8 (b0 AND 0x0F) of
        Inl e \<Rightarrow> Inl e
      | Inr opc \<Rightarrow>
          (case decode_length buf (unat (b1 AND 0x7F)) of
             Inl e \<Rightarrow> Inl e
           | Inr None \<Rightarrow> Inr None
           | Inr (Some (pos, payload_len)) \<Rightarrow>
               if payload_len > max_payload then Inl (Ws_Protocol ''frame exceeds 16 MiB limit'')
               else if is_control opc \<and> payload_len > 125
               then Inl (Ws_Protocol ''control frame larger than 125 bytes'')
               else decode_body buf role (b0 AND 0x80 \<noteq> 0) (b0 AND 0x40 \<noteq> 0) opc
                      (b1 AND 0x80 \<noteq> 0) pos payload_len))"

section \<open>Masking is symmetric\<close>

lemma length_apply_mask [simp]: "length (apply_mask key data) = length data"
  by (simp add: apply_mask_def)

lemma nth_apply_mask: "i < length data \<Longrightarrow> apply_mask key data ! i = data ! i XOR key ! (i mod 4)"
  by (simp add: apply_mask_def nth_enumerate_eq)

lemma apply_mask_involution [simp]: "apply_mask key (apply_mask key data) = data"
  by (rule nth_equalityI) (simp_all add: nth_apply_mask xor.assoc)

section \<open>The header\<close>

lemma opcode_from_to [simp]: "opcode_from_u8 (opcode_to_u8 opc) = Inr opc"
  by (cases opc) simp_all

lemma first_byte_bits:
  "first_byte f AND 0x30 = 0" "(first_byte f AND 0x80 \<noteq> 0) = fin f"
  "(first_byte f AND 0x40 \<noteq> 0) = rsv1 f" "first_byte f AND 0x0F = opcode_to_u8 (opcode f)"
  by (cases "fin f"; cases "rsv1 f"; cases "opcode f"; simp add: first_byte_def)+

lemma and_127: "(b::byte) AND 0x7F = take_bit 7 b"
proof -
  have "(0x7F::byte) = mask 7" by (simp add: mask_eq_exp_minus_1)
  then show ?thesis by (simp add: take_bit_eq_mask)
qed
lemma and_128: "(b::byte) AND 0x80 \<noteq> 0 \<longleftrightarrow> bit b 7"
  using and_exp_eq_0_iff_not_bit[of b 7] by simp

lemma length_byte_bits:
  assumes "len < 128"
  shows "((if m then 0x80 else 0) OR word_of_nat len) AND (0x80 :: byte) \<noteq> 0 \<longleftrightarrow> m"
    "unat (((if m then 0x80 else 0) OR word_of_nat len) AND (0x7F :: byte)) = len"
proof -
  have len: "unat (word_of_nat len :: byte) = len" using assms by (simp add: unat_of_nat)
  have tb: "take_bit 7 (word_of_nat len :: byte) = word_of_nat len"
    using assms len by (simp add: word_unat_eq_iff unsigned_take_bit_eq take_bit_nat_eq_self)
  have b: "\<not> bit (word_of_nat len :: byte) 7"
    using tb by (metis bit_take_bit_iff less_irrefl)
  have bm: "bit (0x80::byte) 7" "take_bit 7 (0x80::byte) = 0" by simp_all
  show "((if m then 0x80 else 0) OR word_of_nat len) AND (0x80 :: byte) \<noteq> 0 \<longleftrightarrow> m"
    unfolding and_128 using b bm by (simp add: bit_or_iff)
  show "unat (((if m then 0x80 else 0) OR word_of_nat len) AND (0x7F :: byte)) = len"
    unfolding and_127 using tb bm len by (simp add: take_bit_or)
qed

lemma decode_length_bytes:
  assumes "len \<le> max_payload" "mb = (if m then 0x80 else 0)"
  shows "decode_length (b0 # length_bytes mb len @ rest) (unat (hd (length_bytes mb len) AND 0x7F)) =
      Inr (Some (1 + length (length_bytes mb len), len))"
    "hd (length_bytes mb len) AND 0x80 \<noteq> 0 \<longleftrightarrow> m"
proof -
  consider "len < 126" | "126 \<le> len" "len \<le> 0xFFFF" | "0xFFFF < len" by linarith
  then have "decode_length (b0 # length_bytes mb len @ rest) (unat (hd (length_bytes mb len) AND 0x7F)) =
      Inr (Some (1 + length (length_bytes mb len), len)) \<and> (hd (length_bytes mb len) AND 0x80 \<noteq> 0 \<longleftrightarrow> m)"
  proof cases
    case 1
    then show ?thesis
      using length_byte_bits[of len m] assms(2) by (simp add: length_bytes_def decode_length_def)
  next
    case 2
    have "from_be_bytes (to_be_bytes 2 len) = len" using 2 by (intro from_to_be_bytes) simp
    then show ?thesis
      using 2 length_byte_bits[of 126 m] assms(2) by (simp add: length_bytes_def decode_length_def)
  next
    case 3
    have "from_be_bytes (to_be_bytes 8 len) = len"
      using assms(1) by (intro from_to_be_bytes) (simp add: max_payload_def)
    then show ?thesis
      using 3 length_byte_bits[of 127 m] assms
      by (simp add: length_bytes_def decode_length_def max_payload_def u64_max_def)
  qed
  then show "decode_length (b0 # length_bytes mb len @ rest) (unat (hd (length_bytes mb len) AND 0x7F)) =
      Inr (Some (1 + length (length_bytes mb len), len))"
    "hd (length_bytes mb len) AND 0x80 \<noteq> 0 \<longleftrightarrow> m" by blast+
qed

text \<open>A frame the codec may be given, and the mask the side with the other role uses.\<close>

definition wf_frame :: "frame \<Rightarrow> bool" where
  "wf_frame f \<longleftrightarrow> length (payload f) \<le> max_payload \<and>
     (is_control (opcode f) \<longrightarrow> length (payload f) \<le> 125)"

definition mask_for :: "role \<Rightarrow> byte list option \<Rightarrow> bool" where
  "mask_for r k \<longleftrightarrow> (case r of Server \<Rightarrow> (\<exists>key. k = Some key \<and> length key = 4) | Client \<Rightarrow> k = None)"

lemma length_bytes_nonempty: "length_bytes mb len \<noteq> []"
  by (simp add: length_bytes_def)

lemma decode_encode_gen:
  assumes wf: "wf_frame f" and k: "mask_for r k"
  shows "decode (encode f k [] @ rest) r = (Inr (Some (f, length (encode f k []))) :: 'e ws_error + _)"
proof -
  let ?len = "length (payload f)" and ?m = "k \<noteq> None"
  define mb :: byte where "mb = (if ?m then 0x80 else 0)"
  let ?lb = "length_bytes mb ?len"
  let ?tail = "(case k of Some key \<Rightarrow> key @ apply_mask key (payload f) | None \<Rightarrow> payload f) @ rest"
  let ?buf = "first_byte f # ?lb @ ?tail"
  have len: "?len \<le> max_payload" using wf by (simp add: wf_frame_def)
  have buf: "encode f k [] @ rest = ?buf"
    by (simp add: encode_def mb_def Let_def split: option.split)
  obtain x xs where lb: "?lb = x # xs" using length_bytes_nonempty by (metis neq_Nil_conv)
  have dl: "decode_length ?buf (unat (hd ?lb AND 0x7F)) = (Inr (Some (1 + length ?lb, ?len)) :: 'e ws_error + _)"
    "hd ?lb AND 0x80 \<noteq> 0 \<longleftrightarrow> ?m"
    using decode_length_bytes[OF len mb_def] by blast+
  have b1: "?buf ! 1 = hd ?lb" and l2: "\<not> length ?buf < 2" by (simp_all add: lb)
  have lim: "\<not> (is_control (opcode f) \<and> 125 < ?len)" using wf by (auto simp: wf_frame_def)
  have "decode ?buf r = (decode_body ?buf r (fin f) (rsv1 f) (opcode f) ?m (1 + length ?lb) ?len :: 'e ws_error + _)"
    using len lim dl
    unfolding decode_def b1 if_not_P[OF l2] Let_def
    by (auto simp: first_byte_bits simp del: opcode_from_u8.simps)
  also have "\<dots> = Inr (Some (f, length (encode f k [])))"
  proof (cases r)
    case Client
    then have "k = None" using k by (simp add: mask_for_def)
    then show ?thesis using Client by (simp add: decode_body_def encode_def mb_def Let_def)
  next
    case Server
    then obtain key where key: "k = Some key" "length key = 4" using k by (auto simp: mask_for_def)
    have "drop (5 + n) (x # xs) = drop (n + 4) xs" for n x and xs :: "byte list"
      by (simp add: drop_Cons' add.commute)
    with key Server show ?thesis by (simp add: decode_body_def encode_def mb_def Let_def)
  qed
  finally show ?thesis unfolding buf .
qed


section \<open>Decoding and more bytes\<close>

lemma decode_length_local:
  assumes "decode_length buf l = Inr (Some (p, n))" "2 \<le> length buf" "p \<le> length buf'" "take p buf' = take p buf"
  shows "decode_length buf' l = Inr (Some (p, n))"
proof -
  have *: "take k (drop 2 buf') = take k (drop 2 buf)" if "p = 2 + k" for k
    using assms(4) that by (metis add.commute take_drop)
  show ?thesis
    using assms(1,3) *[of 2] *[of 8] by (auto simp: decode_length_def Let_def split: if_splits)
qed

lemma decode_length_bounds:
  assumes "decode_length buf l = Inr (Some (p, n))" "2 \<le> length buf"
  shows "2 \<le> p" "p \<le> length buf"
  using assms by (auto simp: decode_length_def Let_def split: if_splits)

lemma decode_length_append:
  "decode_length buf l = Inl e \<Longrightarrow> decode_length (buf @ xs) l = Inl e"
  "decode_length buf l = Inr (Some pn) \<Longrightarrow> decode_length (buf @ xs) l = Inr (Some pn)"
  by (auto simp: decode_length_def Let_def split: if_splits)

text \<open>The successful and the failing runs of \<open>decode\<close>, opened once.\<close>

lemma decode_SomeE:
  assumes "decode buf r = (Inr (Some (f, n)) :: 'e ws_error + _)"
  obtains opc p len where "2 \<le> length buf" "buf ! 0 AND 0x30 = 0"
    "opcode_from_u8 (buf ! 0 AND 0x0F) = (Inr opc :: 'e ws_error + _)"
    "decode_length buf (unat (buf ! 1 AND 0x7F)) = (Inr (Some (p, len)) :: 'e ws_error + _)"
    "len \<le> max_payload" "is_control opc \<longrightarrow> len \<le> 125"
    "decode_body buf r (buf ! 0 AND 0x80 \<noteq> 0) (buf ! 0 AND 0x40 \<noteq> 0) opc (buf ! 1 AND 0x80 \<noteq> 0) p len =
       (Inr (Some (f, n)) :: 'e ws_error + _)"
  using assms unfolding decode_def Let_def
  by (auto simp: not_less simp del: opcode_from_u8.simps split: if_splits sum.splits option.splits)

lemma decode_body_Some:
  assumes "decode_body buf r fn r1 opc masked p len = (Inr (Some (f, n)) :: 'e ws_error + _)"
  shows "masked \<longleftrightarrow> r = Server" "n = p + (if masked then 4 else 0) + len" "n \<le> length buf"
    "f = \<lparr>fin = fn, rsv1 = r1, opcode = opc, payload =
       (if masked then apply_mask (take 4 (drop p buf)) (take len (drop (p + 4) buf))
        else take len (drop p buf))\<rparr>"
  using assms unfolding decode_body_def Let_def
  by (cases r; auto split: if_splits)+

lemma decode_bounds:
  assumes "decode buf r = (Inr (Some (f, n)) :: 'e ws_error + _)"
  shows "2 \<le> n" "n \<le> length buf" "wf_frame f" "length (payload f) \<le> n"
    "buf ! 1 AND 0x80 \<noteq> 0 \<longleftrightarrow> r = Server"
proof -
  from assms obtain opc p len where h: "2 \<le> length buf"
    "decode_length buf (unat (buf ! 1 AND 0x7F)) = (Inr (Some (p, len)) :: 'e ws_error + _)"
    "len \<le> max_payload" "is_control opc \<longrightarrow> len \<le> 125"
    "decode_body buf r (buf ! 0 AND 0x80 \<noteq> 0) (buf ! 0 AND 0x40 \<noteq> 0) opc (buf ! 1 AND 0x80 \<noteq> 0) p len =
       (Inr (Some (f, n)) :: 'e ws_error + _)"
    by (rule decode_SomeE)
  note p = decode_length_bounds[OF h(2,1)]
  note b = decode_body_Some[OF h(5)]
  have "length (take len (drop (p + 4) buf)) = len" if "buf ! 1 AND 0x80 \<noteq> 0"
    using b(2,3) that by simp
  moreover have "length (take len (drop p buf)) = len" if "buf ! 1 AND 0x80 = 0"
    using b(2,3) that by simp
  ultimately have len: "length (payload f) = len" and opc: "opcode f = opc" unfolding b(4) by auto
  show "n \<le> length buf" "buf ! 1 AND 0x80 \<noteq> 0 \<longleftrightarrow> r = Server" by (rule b(3) b(1))+
  show "2 \<le> n" using p(1) unfolding b(2) by simp
  show "length (payload f) \<le> n" unfolding b(2) len by simp
  show "wf_frame f" using h(3,4) len opc by (simp add: wf_frame_def)
qed

lemma decode_local:
  assumes "decode buf r = (Inr (Some (f, n)) :: 'e ws_error + _)" "n \<le> length buf'" "take n buf' = take n buf"
  shows "decode buf' r = (Inr (Some (f, n)) :: 'e ws_error + _)"
proof -
  note n = decode_bounds[OF assms(1)]
  have nth: "buf' ! i = buf ! i" if "i < n" for i
    using assms(3) that by (metis nth_take)
  have tk: "take k (drop j buf') = take k (drop j buf)" if "j + k \<le> n" for j k
  proof -
    have "take (k + j) buf' = take (k + j) (take n buf')" "take (k + j) buf = take (k + j) (take n buf)"
      using that by (simp_all add: min_def)
    then show ?thesis using assms(3) by (simp add: take_drop)
  qed
  from assms(1) obtain opc p len where h: "2 \<le> length buf" "buf ! 0 AND 0x30 = 0"
    "opcode_from_u8 (buf ! 0 AND 0x0F) = (Inr opc :: 'e ws_error + _)"
    "decode_length buf (unat (buf ! 1 AND 0x7F)) = (Inr (Some (p, len)) :: 'e ws_error + _)"
    "len \<le> max_payload" "is_control opc \<longrightarrow> len \<le> 125"
    "decode_body buf r (buf ! 0 AND 0x80 \<noteq> 0) (buf ! 0 AND 0x40 \<noteq> 0) opc (buf ! 1 AND 0x80 \<noteq> 0) p len =
       (Inr (Some (f, n)) :: 'e ws_error + _)"
    by (rule decode_SomeE)
  note b = decode_body_Some(1,2)[OF h(7)]
  have "p \<le> length buf'" "take p buf' = take p buf"
    using b(2) assms(2) tk[of 0 p] by simp_all
  then have dl: "decode_length buf' (unat (buf ! 1 AND 0x7F)) = (Inr (Some (p, len)) :: 'e ws_error + _)"
    using decode_length_local[OF h(4,1)] by blast
  have body: "decode_body buf' r fn r1 opc m p len = (Inr (Some (f, n)) :: 'e ws_error + _)"
    if "decode_body buf r fn r1 opc m p len = (Inr (Some (f, n)) :: 'e ws_error + _)"
      "m = (buf ! 1 AND 0x80 \<noteq> 0)" for fn r1 m
    using that b assms(2) tk[of p 4] tk[of "p + 4" len] tk[of p len]
    unfolding decode_body_def Let_def by (auto split: if_splits)
  have "\<not> length buf' < 2" using n(1) assms(2) by simp
  then show ?thesis
    using h dl body[OF h(7)] nth[of 0] nth[of 1] n(1)
    by (simp add: decode_def Let_def not_less del: opcode_from_u8.simps)
qed

lemma decode_error_append:
  assumes "decode buf r = Inl e"
  shows "decode (buf @ xs) r = Inl e"
proof -
  have l: "2 \<le> length buf" using assms by (simp add: decode_def split: if_splits)
  then have nth: "(buf @ xs) ! 0 = buf ! 0" "(buf @ xs) ! 1 = buf ! 1"
    using nth_append_left[of 0 buf xs] nth_append_left[of 1 buf xs] by linarith+
  have body: "decode_body (buf @ xs) r fn r1 opc m p len = Inl e"
    if "decode_body buf r fn r1 opc m p len = Inl e" for fn r1 opc m p len
    using that unfolding decode_body_def Let_def by (auto split: if_splits)
  show ?thesis
    using assms l unfolding decode_def nth Let_def
    by (auto simp: decode_length_append body simp del: opcode_from_u8.simps
        split: if_splits sum.splits option.splits)
qed

end
