(* ===== verification/Ws_Stream.thy ===== *)
theory Ws_Stream
  imports Ws_Frame Http_Connection
begin

text \<open>
  \<open>WebSocketStream\<close> of \<open>crates/tpt-net-ws/src/stream.rs\<close>: sending messages, receiving them
  with fragment assembly, automatic pongs, keepalive, and the closing handshake.  The
  permessage-deflate codec (a wrapper of a compression library) and the random masking keys
  are parameters.
\<close>

section \<open>State\<close>

datatype message =
    Msg_Text "byte list"
  | Msg_Binary "byte list"
  | Msg_Ping "byte list"
  | Msg_Pong "byte list"
  | Msg_Close "(nat \<times> byte list) option"

text \<open>The compressor and decompressor of a connection, with its state \<open>'c\<close>.\<close>

record 'c codec_ops =
  codec_compress :: "'c \<Rightarrow> byte list \<Rightarrow> (string + byte list) \<times> 'c"
  codec_decompress :: "'c \<Rightarrow> byte list \<Rightarrow> nat \<Rightarrow> (string + byte list) \<times> 'c"

type_synonym stream_error = "io_error ws_error"

text \<open>
  \<open>keepalive\<close> holds the two durations of the policy; which waits elapse is decided by the
  stalls of the transport's script.  \<open>mask_source\<close> gives the keys the random generator
  returns, in order.
\<close>

record 'c ws_stream =
  conn :: http_connection
  ws_role :: role
  deflate :: "'c option"
  frame_buf :: "byte list"
  close_sent :: bool
  close_received :: bool
  keepalive :: "(nat \<times> nat) option"
  ping_outstanding :: bool
  mask_source :: "nat \<Rightarrow> byte list"
  masks_used :: nat

definition from_conn :: "http_connection \<Rightarrow> role \<Rightarrow> (nat \<Rightarrow> byte list) \<Rightarrow> 'c ws_stream" where
  "from_conn c r masks = \<lparr>conn = c, ws_role = r, deflate = None, frame_buf = [], close_sent = False,
     close_received = False, keepalive = None, ping_outstanding = False, mask_source = masks,
     masks_used = 0\<rparr>"

definition set_keepalive :: "(nat \<times> nat) option \<Rightarrow> 'c ws_stream \<Rightarrow> 'c ws_stream" where
  "set_keepalive p ws = ws\<lparr>keepalive := p, ping_outstanding := False\<rparr>"

definition is_closed :: "'c ws_stream \<Rightarrow> bool" where
  "is_closed ws \<longleftrightarrow> close_sent ws \<and> close_received ws"

section \<open>Checks\<close>

definition invalid_utf8 :: string where
  "invalid_utf8 = ''invalid UTF-8 in message''"

definition is_valid_close_code :: "nat \<Rightarrow> bool" where
  "is_valid_close_code code \<longleftrightarrow>
     1000 \<le> code \<and> code \<le> 1003 \<or> 1007 \<le> code \<and> code \<le> 1011 \<or> 3000 \<le> code \<and> code \<le> 4999"

definition check_control :: "byte list \<Rightarrow> stream_error + unit" where
  "check_control p =
     (if length p > 125 then Inl (Ws_Protocol ''control frame payload exceeds 125 bytes'') else Inr ())"

definition check_size :: "byte list \<Rightarrow> stream_error + unit" where
  "check_size asm =
     (if length asm > max_payload then Inl (Ws_Protocol ''message exceeds 16 MiB limit'') else Inr ())"

fun from_http_error :: "http_error \<Rightarrow> stream_error" where
  "from_http_error (Http_Io e) = Ws_Io e"
| "from_http_error Http_Connection_Closed = Ws_Connection_Closed"
| "from_http_error Http_Timed_Out = Ws_Timed_Out"
| "from_http_error (Http_Parse r) = Ws_Handshake (''malformed HTTP message: '' @ r)"
| "from_http_error (Http_Conflicting_Headers w) = Ws_Handshake (''conflicting headers: '' @ w)"

text \<open>An error that is neither of the transport nor about time is handed on as its text.\<close>

lemma from_http_error_text:
  "from_http_error e =
     (case e of
        Http_Io e1 \<Rightarrow> Ws_Io e1
      | Http_Connection_Closed \<Rightarrow> Ws_Connection_Closed
      | Http_Timed_Out \<Rightarrow> Ws_Timed_Out
      | other \<Rightarrow> Ws_Handshake (http_error_text other))"
  by (cases e) simp_all

fun stream_error_text :: "stream_error \<Rightarrow> string" where
  "stream_error_text (Ws_Io (Io_Error k m)) = ''I/O error: '' @ m"
| "stream_error_text (Ws_Protocol why) = ''WebSocket protocol violation: '' @ why"
| "stream_error_text Ws_Connection_Closed = ''connection closed by peer''"
| "stream_error_text (Ws_Handshake why) = ''handshake failed: '' @ why"
| "stream_error_text Ws_Timed_Out = ''operation timed out''"

section \<open>Sending\<close>

text \<open>The opcode and payload of a message, after its checks.\<close>

definition close_payload :: "(nat \<times> byte list) option \<Rightarrow> byte list" where
  "close_payload info = (case info of None \<Rightarrow> [] | Some (code, reason) \<Rightarrow> to_be_bytes 2 code @ reason)"

fun message_parts :: "message \<Rightarrow> stream_error + opcode \<times> byte list" where
  "message_parts (Msg_Text b) = Inr (Op_Text, b)"
| "message_parts (Msg_Binary b) = Inr (Op_Binary, b)"
| "message_parts (Msg_Ping b) = (case check_control b of Inl e \<Rightarrow> Inl e | Inr _ \<Rightarrow> Inr (Op_Ping, b))"
| "message_parts (Msg_Pong b) = (case check_control b of Inl e \<Rightarrow> Inl e | Inr _ \<Rightarrow> Inr (Op_Pong, b))"
| "message_parts (Msg_Close info) =
     (case check_control (close_payload info) of Inl e \<Rightarrow> Inl e | Inr _ \<Rightarrow> Inr (Op_Close, close_payload info))"

text \<open>\<open>frame::encode\<close> with a fresh mask on the client side, then the raw write.\<close>

definition send_frame :: "frame \<Rightarrow> 'c ws_stream \<Rightarrow> (stream_error + unit) \<times> 'c ws_stream" where
  "send_frame f ws =
     (let key_opt = (if ws_role ws = Client then Some (mask_source ws (masks_used ws)) else None);
          ws1 = (if ws_role ws = Client then ws\<lparr>masks_used := masks_used ws + 1\<rparr> else ws)
      in case write_raw (encode f key_opt []) (conn ws1) of
           (Inl e, c) \<Rightarrow> (Inl (from_http_error e), ws1\<lparr>conn := c\<rparr>)
         | (Inr u, c) \<Rightarrow> (Inr (), ws1\<lparr>conn := c\<rparr>))"

definition ws_send :: "'c codec_ops \<Rightarrow> message \<Rightarrow> 'c ws_stream \<Rightarrow> (stream_error + unit) \<times> 'c ws_stream" where
  "ws_send C m ws =
     (case message_parts m of
        Inl e \<Rightarrow> (Inl e, ws)
      | Inr (opc, p) \<Rightarrow>
          let ws1 = (if opc = Op_Close then ws\<lparr>close_sent := True\<rparr> else ws) in
          case deflate ws1 of
            Some cd \<Rightarrow>
              if opc = Op_Text \<or> opc = Op_Binary then
                (case codec_compress C cd p of
                   (Inl r, cd1) \<Rightarrow> (Inl (Ws_Protocol r), ws1\<lparr>deflate := Some cd1\<rparr>)
                 | (Inr p1, cd1) \<Rightarrow>
                     send_frame \<lparr>fin = True, rsv1 = True, opcode = opc, payload = p1\<rparr>
                       (ws1\<lparr>deflate := Some cd1\<rparr>))
              else send_frame \<lparr>fin = True, rsv1 = False, opcode = opc, payload = p\<rparr> ws1
          | None \<Rightarrow> send_frame \<lparr>fin = True, rsv1 = False, opcode = opc, payload = p\<rparr> ws1)"

section \<open>Reading\<close>

definition ws_chunk :: nat where
  "ws_chunk = 8192"

lemma send_frame_role:
  "send_frame f ws = (r, ws1) \<Longrightarrow> ping_outstanding ws1 = ping_outstanding ws"
  by (auto simp: send_frame_def Let_def split: prod.splits sum.splits if_splits)

function read_with_keepalive :: "'c codec_ops \<Rightarrow> 'c ws_stream \<Rightarrow> (stream_error + byte list) \<times> 'c ws_stream" where
  "read_with_keepalive C ws =
     (case keepalive ws of
        None \<Rightarrow>
          (case read_raw ws_chunk (conn ws) of
             (Inl e, c) \<Rightarrow> (Inl (from_http_error e), ws\<lparr>conn := c\<rparr>)
           | (Inr bs, c) \<Rightarrow> (Inr bs, ws\<lparr>conn := c\<rparr>))
      | Some policy \<Rightarrow>
          (case poll_raw ws_chunk (conn ws) of
             (Ready (Inl e), c) \<Rightarrow> (Inl (from_http_error e), ws\<lparr>conn := c, ping_outstanding := False\<rparr>)
           | (Ready (Inr bs), c) \<Rightarrow> (Inr bs, ws\<lparr>conn := c, ping_outstanding := False\<rparr>)
           | (Pending, c) \<Rightarrow>
               if ping_outstanding ws then (Inl Ws_Timed_Out, ws\<lparr>conn := c\<rparr>)
               else case ws_send C (Msg_Ping []) (ws\<lparr>conn := c\<rparr>) of
                 (Inl e, ws1) \<Rightarrow> (Inl e, ws1)
               | (Inr u, ws1) \<Rightarrow> read_with_keepalive C (ws1\<lparr>ping_outstanding := True\<rparr>)))"
  by pat_completeness auto
termination by (relation "measure (\<lambda>(C, ws). if ping_outstanding ws then 0 else 1)") auto

declare read_with_keepalive.simps [simp del]


section \<open>Receiving\<close>

text \<open>What one decoded frame leads to: \<open>recv_message\<close> returns, or its loop goes on.\<close>

datatype 'c recv_step =
    Finish "stream_error + message option" "'c ws_stream"
  | Go_On "opcode option" "byte list" bool "'c ws_stream"

definition parse_close :: "byte list \<Rightarrow> stream_error + (nat \<times> byte list) option" where
  "parse_close p =
     (if length p = 0 then Inr None
      else if length p = 1 then Inl (Ws_Protocol ''close payload of one byte'')
      else let code = from_be_bytes (take 2 p) in
        if \<not> is_valid_close_code code then Inl (Ws_Protocol ''invalid close status code'')
        else if \<not> utf8_valid (drop 2 p) then Inl (Ws_Protocol invalid_utf8)
        else Inr (Some (code, drop 2 p)))"

definition handle_close :: "'c codec_ops \<Rightarrow> byte list \<Rightarrow> 'c ws_stream \<Rightarrow> 'c recv_step" where
  "handle_close C p ws =
     (case parse_close p of
        Inl e \<Rightarrow> Finish (Inl e) ws
      | Inr info \<Rightarrow>
          if close_sent ws then Finish (Inr None) (ws\<lparr>close_received := True\<rparr>)
          else case ws_send C (Msg_Close info) ws of
            (Inl e, ws1) \<Rightarrow> Finish (Inl e) ws1
          | (Inr u, ws1) \<Rightarrow> Finish (Inr None) (ws1\<lparr>close_received := True\<rparr>))"

definition final_message :: "opcode option \<Rightarrow> byte list \<Rightarrow> stream_error + message option" where
  "final_message mo asm =
     (case mo of
        Some Op_Text \<Rightarrow> if utf8_valid asm then Inr (Some (Msg_Text asm)) else Inl (Ws_Protocol invalid_utf8)
      | Some Op_Binary \<Rightarrow> Inr (Some (Msg_Binary asm))
      | _ \<Rightarrow> Inl (Ws_Protocol ''final frame without a message''))"

text \<open>After a data frame: go on unless it was the last, else decompress and deliver.\<close>

definition finish_data ::
  "'c codec_ops \<Rightarrow> frame \<Rightarrow> opcode option \<Rightarrow> byte list \<Rightarrow> bool \<Rightarrow> 'c ws_stream \<Rightarrow> 'c recv_step" where
  "finish_data C f mo asm cmp ws =
     (if \<not> fin f then Go_On mo asm cmp ws
      else case (if cmp then deflate ws else None) of
        None \<Rightarrow> Finish (final_message mo asm) ws
      | Some cd \<Rightarrow>
          (case codec_decompress C cd asm max_payload of
             (Inl r, cd1) \<Rightarrow> Finish (Inl (Ws_Protocol r)) (ws\<lparr>deflate := Some cd1\<rparr>)
           | (Inr asm1, cd1) \<Rightarrow> Finish (final_message mo asm1) (ws\<lparr>deflate := Some cd1\<rparr>)))"

definition handle_frame ::
  "'c codec_ops \<Rightarrow> frame \<Rightarrow> opcode option \<Rightarrow> byte list \<Rightarrow> bool \<Rightarrow> 'c ws_stream \<Rightarrow> 'c recv_step" where
  "handle_frame C f mo asm cmp ws =
     (if rsv1 f \<and> deflate ws = None
      then Finish (Inl (Ws_Protocol ''RSV1 set but permessage-deflate was not negotiated'')) ws
      else let cmp1 = (cmp \<or> rsv1 f \<and> (opcode f = Op_Text \<or> opcode f = Op_Binary)) in
      if \<not> fin f \<and> is_control (opcode f) then Finish (Inl (Ws_Protocol ''fragmented control frame'')) ws
      else case opcode f of
        Op_Ping \<Rightarrow>
          (case ws_send C (Msg_Pong (payload f)) ws of
             (Inl e, ws1) \<Rightarrow> Finish (Inl e) ws1
           | (Inr u, ws1) \<Rightarrow> Go_On mo asm cmp1 ws1)
      | Op_Pong \<Rightarrow> Finish (Inr (Some (Msg_Pong (payload f)))) ws
      | Op_Close \<Rightarrow> handle_close C (payload f) ws
      | Op_Continuation \<Rightarrow>
          if mo = None then Finish (Inl (Ws_Protocol ''continuation without initial frame'')) ws
          else (case check_size (asm @ payload f) of
                  Inl e \<Rightarrow> Finish (Inl e) ws
                | Inr u \<Rightarrow> finish_data C f mo (asm @ payload f) cmp1 ws)
      | opc \<Rightarrow>
          if mo \<noteq> None then Finish (Inl (Ws_Protocol ''new data frame during fragmented message'')) ws
          else (case check_size (asm @ payload f) of
                  Inl e \<Rightarrow> Finish (Inl e) ws
                | Inr u \<Rightarrow> finish_data C f (Some opc) (asm @ payload f) cmp1 ws))"

text \<open>What is left to receive: unread transport bytes count twice, buffered frame bytes once.\<close>

definition ws_size :: "'c ws_stream \<Rightarrow> nat" where
  "ws_size ws = 2 * conn_size (conn ws) + length (frame_buf ws)"

lemma write_raw_size: "write_raw bs c = (r, c1) \<Longrightarrow> conn_size c1 = conn_size c"
  using write_raw_frame[of bs c r c1] by (simp add: conn_size_def)

lemma send_frame_size:
  "send_frame f ws = (r, ws1) \<Longrightarrow> frame_buf ws1 = frame_buf ws \<and> conn_size (conn ws1) = conn_size (conn ws)"
  by (auto simp: send_frame_def Let_def dest: write_raw_size split: prod.splits sum.splits if_splits)

lemma ws_send_size:
  assumes "ws_send C m ws = (r, ws1)"
  shows "frame_buf ws1 = frame_buf ws \<and> conn_size (conn ws1) = conn_size (conn ws)"
  using assms send_frame_size[where f = "\<lparr>fin = True, rsv1 = r1, opcode = opc, payload = p\<rparr>" for r1 opc p]
  by (fastforce simp: ws_send_def Let_def split: prod.splits sum.splits option.splits if_splits)

lemma handle_frame_size:
  assumes "handle_frame C f mo asm cmp ws = Go_On mo1 asm1 cmp1 ws1"
  shows "ws_size ws1 = ws_size ws"
  using assms ws_send_size[of C "Msg_Pong (payload f)" ws]
  by (auto simp: handle_frame_def finish_data_def handle_close_def ws_size_def Let_def
      split: if_splits opcode.splits sum.splits prod.splits option.splits)


lemma handle_frame_finish_size:
  assumes "handle_frame C f mo asm cmp ws = Finish r ws1"
  shows "ws_size ws1 = ws_size ws"
  using assms ws_send_size[of C "Msg_Pong (payload f)" ws] ws_send_size[of C _ ws]
  by (auto simp: handle_frame_def finish_data_def handle_close_def ws_size_def Let_def
      split: if_splits opcode.splits sum.splits prod.splits option.splits)

lemma poll_raw_size:
  assumes "poll_raw cap c = (p, c1)" "0 < cap"
  shows "case p of Ready (Inr bs) \<Rightarrow> length bs + conn_size c1 \<le> conn_size c | _ \<Rightarrow> conn_size c1 \<le> conn_size c"
  using assms
  by (auto simp: poll_raw_def conn_size_def Let_def tr_poll_read.simps min_def
      split: list.splits read_event.splits if_splits)

lemma read_with_keepalive_size:
  "read_with_keepalive C ws = (r, ws1) \<Longrightarrow>
     frame_buf ws1 = frame_buf ws \<and>
     (case r of Inr bs \<Rightarrow> length bs + conn_size (conn ws1) \<le> conn_size (conn ws)
              | Inl _ \<Rightarrow> conn_size (conn ws1) \<le> conn_size (conn ws))"
proof (induction C ws rule: read_with_keepalive.induct)
  case (1 C ws)
  have pos: "0 < ws_chunk" by (simp add: ws_chunk_def)
  show ?case
  proof (cases "keepalive ws")
    case None
    obtain x c where x: "read_raw ws_chunk (conn ws) = (x, c)" by fastforce
    show ?thesis
      using "1.prems" None x read_raw_size_le[OF x pos]
      by (subst (asm) read_with_keepalive.simps) (auto split: sum.splits)
  next
    case (Some policy)
    obtain q c where q: "poll_raw ws_chunk (conn ws) = (q, c)" by fastforce
    note le = poll_raw_size[OF q pos]
    show ?thesis
    proof (cases "q = Pending \<and> \<not> ping_outstanding ws")
      case False
      then show ?thesis
        using "1.prems" Some q le
        by (subst (asm) read_with_keepalive.simps) (auto split: sum.splits poll.splits)
    next
      case True
      obtain y ws2 where y: "ws_send C (Msg_Ping []) (ws\<lparr>conn := c\<rparr>) = (y, ws2)" by fastforce
      note s = ws_send_size[OF y]
      show ?thesis
      proof (cases y)
        case (Inl e)
        then show ?thesis
          using "1.prems" Some q le True y s by (subst (asm) read_with_keepalive.simps) auto
      next
        case (Inr u)
        have eq: "read_with_keepalive C (ws2\<lparr>ping_outstanding := True\<rparr>) = (r, ws1)"
          using "1.prems" Some q True y Inr by (subst (asm) read_with_keepalive.simps) simp
        show ?thesis
          using "1.IH"[OF Some q[symmetric] _ _ y[symmetric] Inr eq] True le s
          by (auto split: sum.splits)
      qed
    qed
  qed
qed

function recv_loop ::
  "'c codec_ops \<Rightarrow> opcode option \<Rightarrow> byte list \<Rightarrow> bool \<Rightarrow> 'c ws_stream \<Rightarrow>
   (stream_error + message option) \<times> 'c ws_stream" where
  "recv_loop C mo asm cmp ws =
     (case decode (frame_buf ws) (ws_role ws) of
        Inl e \<Rightarrow> (Inl e, ws)
      | Inr None \<Rightarrow>
          (case read_with_keepalive C ws of
             (Inl e, ws1) \<Rightarrow> (Inl e, ws1)
           | (Inr bs, ws1) \<Rightarrow>
               if bs = []
               then (if close_received ws1 then Inr None else Inl Ws_Connection_Closed, ws1)
               else recv_loop C mo asm cmp (ws1\<lparr>frame_buf := frame_buf ws1 @ bs\<rparr>))
      | Inr (Some (f, consumed)) \<Rightarrow>
          (case handle_frame C f mo asm cmp (ws\<lparr>frame_buf := drop consumed (frame_buf ws)\<rparr>) of
             Finish r ws1 \<Rightarrow> (r, ws1)
           | Go_On mo1 asm1 cmp1 ws1 \<Rightarrow> recv_loop C mo1 asm1 cmp1 ws1))"
  by pat_completeness auto

lemma ws_size_step:
  assumes "decode (frame_buf ws) r = (Inr (Some (f, n)) :: stream_error + _)"
  shows "ws_size (ws\<lparr>frame_buf := drop n (frame_buf ws)\<rparr>) < ws_size ws"
  using decode_bounds(1,2)[OF assms] by (simp add: ws_size_def)

lemma ws_size_read:
  "read_with_keepalive C ws = (Inr bs, ws1) \<Longrightarrow> bs \<noteq> [] \<Longrightarrow>
     ws_size (ws1\<lparr>frame_buf := frame_buf ws1 @ bs\<rparr>) < ws_size ws"
  using read_with_keepalive_size[of C ws "Inr bs" ws1] by (cases bs) (auto simp: ws_size_def)

termination recv_loop
  by (relation "measure (\<lambda>(C, mo, asm, cmp, ws). ws_size ws)")
     (auto dest!: sym[THEN ws_size_read] handle_frame_size ws_size_step)

declare recv_loop.simps [simp del]


definition recv_message :: "'c codec_ops \<Rightarrow> 'c ws_stream \<Rightarrow> (stream_error + message option) \<times> 'c ws_stream" where
  "recv_message C ws = recv_loop C None [] False ws"

definition ws_recv :: "'c codec_ops \<Rightarrow> 'c ws_stream \<Rightarrow> (stream_error + message option) \<times> 'c ws_stream" where
  "ws_recv C ws =
     (case recv_message C ws of
        (Inl (Ws_Protocol reason), ws1) \<Rightarrow>
          (Inl (Ws_Protocol reason),
           if close_sent ws1 then ws1
           else snd (ws_send C (Msg_Close (Some (if reason = invalid_utf8 then 1007 else 1002, []))) ws1))
      | other \<Rightarrow> other)"

section \<open>Sizes and closing\<close>

lemma recv_loop_size:
  "recv_loop C mo asm cmp ws = (r, ws1) \<Longrightarrow>
     ws_size ws1 \<le> ws_size ws \<and> (\<forall>m. r = Inr (Some m) \<longrightarrow> ws_size ws1 < ws_size ws)"
proof (induction C mo asm cmp ws rule: recv_loop.induct)
  case (1 C mo asm cmp ws)
  show ?case
  proof (cases "decode (frame_buf ws) (ws_role ws) :: stream_error + _")
    case (Inl e)
    then show ?thesis using "1.prems" by (subst (asm) recv_loop.simps) auto
  next
    case d: (Inr x)
    show ?thesis
    proof (cases x)
      case None
      obtain y ws2 where y: "read_with_keepalive C ws = (y, ws2)" by fastforce
      note s = read_with_keepalive_size[OF y]
      show ?thesis
      proof (cases "\<exists>bs. y = Inr bs \<and> bs \<noteq> []")
        case True
        then obtain bs where bs: "y = Inr bs" "bs \<noteq> []" by blast
        then have eq: "recv_loop C mo asm cmp (ws2\<lparr>frame_buf := frame_buf ws2 @ bs\<rparr>) = (r, ws1)"
          using "1.prems" d None y by (subst (asm) recv_loop.simps) simp
        from "1.IH"(1)[OF d None y[symmetric] bs eq] ws_size_read[of C ws bs ws2] y bs
        show ?thesis by (meson less_le_trans less_imp_le le_less_trans)
      next
        case False
        then show ?thesis
          using "1.prems" d None y s
          by (subst (asm) recv_loop.simps) (auto simp: ws_size_def split: sum.splits if_splits)
      qed
    next
      case (Some fn)
      obtain f n where fn: "fn = (f, n)" by fastforce
      let ?ws = "ws\<lparr>frame_buf := drop n (frame_buf ws)\<rparr>"
      have s: "ws_size ?ws < ws_size ws" using ws_size_step d Some fn by blast
      show ?thesis
      proof (cases "handle_frame C f mo asm cmp ?ws")
        case (Finish r2 ws2)
        then have "r = r2 \<and> ws1 = ws2"
          using "1.prems" d Some fn by (subst (asm) recv_loop.simps) simp
        then show ?thesis using handle_frame_finish_size[OF Finish] s by simp
      next
        case (Go_On mo2 asm2 cmp2 ws2)
        then have eq: "recv_loop C mo2 asm2 cmp2 ws2 = (r, ws1)"
          using "1.prems" d Some fn by (subst (asm) recv_loop.simps) simp
        from "1.IH"(2)[OF d Some fn[symmetric] Go_On eq] handle_frame_size[OF Go_On] s show ?thesis by auto
      qed
    qed
  qed
qed

lemma ws_recv_size:
  assumes "ws_recv C ws = (Inr (Some m), ws1)"
  shows "ws_size ws1 < ws_size ws"
proof -
  have "recv_message C ws = (Inr (Some m), ws1)"
    using assms by (auto simp: ws_recv_def split: prod.splits sum.splits ws_error.splits)
  then show ?thesis using recv_loop_size unfolding recv_message_def by blast
qed

text \<open>\<open>while self.recv().await?.is_some() {}\<close>.\<close>

function drain_messages :: "'c codec_ops \<Rightarrow> 'c ws_stream \<Rightarrow> (stream_error + unit) \<times> 'c ws_stream" where
  "drain_messages C ws =
     (case ws_recv C ws of
        (Inl e, ws1) \<Rightarrow> (Inl e, ws1)
      | (Inr None, ws1) \<Rightarrow> (Inr (), ws1)
      | (Inr (Some m), ws1) \<Rightarrow> drain_messages C ws1)"
  by pat_completeness auto
termination by (relation "measure (\<lambda>(C, ws). ws_size ws)") (auto dest: sym[THEN ws_recv_size])

declare drain_messages.simps [simp del]

definition ws_close :: "'c codec_ops \<Rightarrow> nat \<Rightarrow> 'c ws_stream \<Rightarrow> (stream_error + unit) \<times> 'c ws_stream" where
  "ws_close C code ws =
     (if close_sent ws then drain_messages C ws
      else case ws_send C (Msg_Close (Some (code, []))) ws of
        (Inl e, ws1) \<Rightarrow> (Inl e, ws1)
      | (Inr u, ws1) \<Rightarrow> drain_messages C (ws1\<lparr>close_sent := True\<rparr>))"

end
