(* ===== verification/Ws_Receive.thy ===== *)
theory Ws_Receive
  imports Ws_Stream
begin

text \<open>
  What \<open>recv\<close> makes of the bytes of the peer: it sees exactly the frames of the byte stream,
  whatever chunks the transport delivers them in.
\<close>

section \<open>Frames from the stream\<close>

text \<open>All bytes a stream will still see.\<close>

definition ws_bytes :: "'c ws_stream \<Rightarrow> byte list" where
  "ws_bytes ws = frame_buf ws @ conn_bytes (conn ws)"

text \<open>A state reached from \<open>ws\<close> by reading alone.\<close>

definition only_read :: "'c ws_stream \<Rightarrow> 'c ws_stream \<Rightarrow> bool" where
  "only_read ws ws1 \<longleftrightarrow> ws1 = ws\<lparr>conn := conn ws1, frame_buf := frame_buf ws1\<rparr> \<and>
     outgoing (io (conn ws1)) = outgoing (io (conn ws)) \<and> writable (conn ws1) = writable (conn ws)"

lemma only_read_refl [simp]: "only_read ws ws"
  by (simp add: only_read_def)

lemma only_read_fields:
  assumes "only_read ws ws1"
  shows "ws_role ws1 = ws_role ws" "deflate ws1 = deflate ws" "close_sent ws1 = close_sent ws"
    "close_received ws1 = close_received ws" "keepalive ws1 = keepalive ws"
    "mask_source ws1 = mask_source ws" "masks_used ws1 = masks_used ws"
    "outgoing (io (conn ws1)) = outgoing (io (conn ws))" "writable (conn ws1) = writable (conn ws)"
proof -
  have eq: "ws1 = ws\<lparr>conn := conn ws1, frame_buf := frame_buf ws1\<rparr>" using assms by (simp add: only_read_def)
  show "ws_role ws1 = ws_role ws" "deflate ws1 = deflate ws" "close_sent ws1 = close_sent ws"
    "close_received ws1 = close_received ws" "keepalive ws1 = keepalive ws"
    "mask_source ws1 = mask_source ws" "masks_used ws1 = masks_used ws"
    by (subst eq, simp)+
  show "outgoing (io (conn ws1)) = outgoing (io (conn ws))" "writable (conn ws1) = writable (conn ws)"
    using assms by (simp_all add: only_read_def)
qed

lemma only_read_trans:
  assumes "only_read ws ws1" "only_read ws1 ws2"
  shows "only_read ws ws2"
proof -
  have "ws1 = ws\<lparr>conn := conn ws1, frame_buf := frame_buf ws1\<rparr>"
    "ws2 = ws1\<lparr>conn := conn ws2, frame_buf := frame_buf ws2\<rparr>" using assms by (simp_all add: only_read_def)
  then have "ws2 = ws\<lparr>conn := conn ws2, frame_buf := frame_buf ws2\<rparr>" by (metis ws_stream.surjective ws_stream.update_convs(1,4))
  then show ?thesis using assms by (simp add: only_read_def)
qed

abbreviation run_step ::
  "'c codec_ops \<Rightarrow> 'c recv_step \<Rightarrow> (stream_error + message option) \<times> 'c ws_stream" where
  "run_step C st \<equiv> (case st of Finish r ws1 \<Rightarrow> (r, ws1)
     | Go_On mo asm cmp ws1 \<Rightarrow> recv_loop C mo asm cmp ws1)"

lemma recv_loop_unfold:
  "recv_loop C mo asm cmp ws =
     (case decode (frame_buf ws) (ws_role ws) of
        Inl e \<Rightarrow> (Inl e, ws)
      | Inr None \<Rightarrow>
          (case read_with_keepalive C ws of
             (Inl e, ws1) \<Rightarrow> (Inl e, ws1)
           | (Inr bs, ws1) \<Rightarrow>
               if bs = []
               then (if close_received ws1 then Inr None else Inl Ws_Connection_Closed, ws1)
               else recv_loop C mo asm cmp (ws1\<lparr>frame_buf := frame_buf ws1 @ bs\<rparr>))
      | Inr (Some (f, consumed)) \<Rightarrow>
          run_step C (handle_frame C f mo asm cmp (ws\<lparr>frame_buf := drop consumed (frame_buf ws)\<rparr>)))"
  by (subst recv_loop.simps) simp

lemma recv_next:
  assumes "keepalive ws = None" "decode (ws_bytes ws) (ws_role ws) = (d :: stream_error + _)" "d \<noteq> Inr None"
  shows "\<exists>ws1. only_read ws ws1 \<and>
     recv_loop C mo asm cmp ws =
       (case d of Inl e \<Rightarrow> (Inl e, ws1) | Inr (Some (f, n)) \<Rightarrow> run_step C (handle_frame C f mo asm cmp ws1)) \<and>
     (\<forall>f n. d = Inr (Some (f, n)) \<longrightarrow> ws_bytes ws1 = drop n (ws_bytes ws))"
  using assms
proof (induction ws rule: measure_induct_rule[of ws_size])
  case (less ws)
  let ?dec = "decode (frame_buf ws) (ws_role ws) :: stream_error + _"
  consider (err) e where "?dec = Inl e" | (frame) f n where "?dec = Inr (Some (f, n))" | (none) "?dec = Inr None"
    by (cases ?dec; cases "projr ?dec") (auto simp: split_paired_all)
  then show ?case
  proof cases
    case err
    then have "d = Inl e" using decode_error_append[OF err] less.prems(2) by (simp add: ws_bytes_def)
    then show ?thesis using err by (subst recv_loop_unfold) (auto intro!: exI[of _ ws])
  next
    case frame
    note b = decode_bounds(2)[OF frame]
    let ?ws1 = "ws\<lparr>frame_buf := drop n (frame_buf ws)\<rparr>"
    have "decode (ws_bytes ws) (ws_role ws) = (Inr (Some (f, n)) :: stream_error + _)"
      using b by (intro decode_local[OF frame]) (simp_all add: ws_bytes_def)
    then have "d = Inr (Some (f, n))" using less.prems(2) by simp
    moreover have "ws_bytes ?ws1 = drop n (ws_bytes ws)" using b by (simp add: ws_bytes_def)
    moreover have "only_read ws ?ws1" by (simp add: only_read_def)
    ultimately show ?thesis using frame by (subst recv_loop_unfold) (auto intro!: exI[of _ ?ws1])
  next
    case none
    obtain r c where rc: "read_raw ws_chunk (conn ws) = (r, c)" by fastforce
    note bytes = read_raw_bytes[OF rc, unfolded ws_chunk_def, simplified]
    have "\<exists>bs. r = Inr bs \<and> bs \<noteq> []"
    proof (rule ccontr)
      assume "\<nexists>bs. r = Inr bs \<and> bs \<noteq> []"
      then have "conn_bytes (conn ws) = []" using bytes by (auto split: sum.splits)
      then show False using none less.prems(2,3) by (simp add: ws_bytes_def)
    qed
    then obtain bs where bs: "r = Inr bs" "bs \<noteq> []" by blast
    let ?ws1 = "ws\<lparr>conn := c, frame_buf := frame_buf ws @ bs\<rparr>"
    have rk: "read_with_keepalive C ws = (Inr bs, ws\<lparr>conn := c\<rparr>)"
      using less.prems(1) rc bs by (subst read_with_keepalive.simps) simp
    have eq: "recv_loop C mo asm cmp ws = recv_loop C mo asm cmp ?ws1"
      using none rk bs by (subst recv_loop_unfold) simp
    have wb: "ws_bytes ?ws1 = ws_bytes ws" using bytes bs by (simp add: ws_bytes_def)
    have "ws_size ?ws1 < ws_size ws" using ws_size_read[OF rk bs(2)] by simp
    from less.IH[OF this] obtain ws2 where "only_read ?ws1 ws2"
      "recv_loop C mo asm cmp ?ws1 =
         (case d of Inl e \<Rightarrow> (Inl e, ws2) | Inr (Some (f, n)) \<Rightarrow> run_step C (handle_frame C f mo asm cmp ws2))"
      "\<forall>f n. d = Inr (Some (f, n)) \<longrightarrow> ws_bytes ws2 = drop n (ws_bytes ?ws1)"
      using less.prems wb by auto
    moreover have "only_read ws ?ws1" using bytes bs by (simp add: only_read_def)
    ultimately show ?thesis using only_read_trans unfolding eq wb by blast
  qed
qed

lemma recv_next_frame:
  assumes "keepalive ws = None" "ws_bytes ws = encode f k [] @ rest" "wf_frame f" "mask_for (ws_role ws) k"
  shows "\<exists>ws1. only_read ws ws1 \<and> ws_bytes ws1 = rest \<and>
     recv_loop C mo asm cmp ws = run_step C (handle_frame C f mo asm cmp ws1)"
proof -
  have "decode (ws_bytes ws) (ws_role ws) = (Inr (Some (f, length (encode f k []))) :: stream_error + _)"
    unfolding assms(2) by (rule decode_encode_gen[OF assms(3,4)])
  from recv_next[OF assms(1) this, of C mo asm cmp] show ?thesis using assms(2) by auto
qed


section \<open>Sending on a transport that takes every write\<close>

definition key_for :: "'c ws_stream \<Rightarrow> nat \<Rightarrow> byte list option" where
  "key_for ws i = (if ws_role ws = Client then Some (mask_source ws i) else None)"

text \<open>The stream after it has written \<open>bs\<close> and used \<open>n\<close> masks.\<close>

definition wrote :: "byte list \<Rightarrow> nat \<Rightarrow> 'c ws_stream \<Rightarrow> 'c ws_stream" where
  "wrote bs n ws = ws\<lparr>masks_used := masks_used ws + (if ws_role ws = Client then n else 0),
     conn := (conn ws)\<lparr>io := (io (conn ws))\<lparr>outgoing := outgoing (io (conn ws)) @ bs\<rparr>\<rparr>\<rparr>"

lemma wrote_fields [simp]:
  "ws_role (wrote bs n ws) = ws_role ws" "deflate (wrote bs n ws) = deflate ws"
  "close_sent (wrote bs n ws) = close_sent ws" "close_received (wrote bs n ws) = close_received ws"
  "keepalive (wrote bs n ws) = keepalive ws" "mask_source (wrote bs n ws) = mask_source ws"
  "masks_used (wrote bs n ws) = masks_used ws + (if ws_role ws = Client then n else 0)"
  "outgoing (io (conn (wrote bs n ws))) = outgoing (io (conn ws)) @ bs"
  "writable (conn (wrote bs n ws)) = writable (conn ws)" "ws_bytes (wrote bs n ws) = ws_bytes ws"
  "frame_buf (wrote bs n ws) = frame_buf ws"
  by (simp_all add: wrote_def writable_def ws_bytes_def conn_bytes_def)

lemma send_frame_writable:
  assumes "writable (conn ws)"
  shows "send_frame f ws = (Inr (), wrote (encode f (key_for ws (masks_used ws)) []) 1 ws)"
  using write_raw_writable[OF assms]
  by (simp add: send_frame_def Let_def key_for_def wrote_def)

definition plain_frame :: "opcode \<Rightarrow> byte list \<Rightarrow> frame" where
  "plain_frame opc p = \<lparr>fin = True, rsv1 = False, opcode = opc, payload = p\<rparr>"

lemma ws_send_writable:
  assumes "writable (conn ws)" "message_parts m = Inr (opc, p)"
    and "deflate ws = None \<or> opc \<noteq> Op_Text \<and> opc \<noteq> Op_Binary"
  shows "ws_send C m ws = (Inr (),
     wrote (encode (plain_frame opc p) (key_for ws (masks_used ws)) []) 1
       (if opc = Op_Close then ws\<lparr>close_sent := True\<rparr> else ws))"
proof -
  let ?ws = "if opc = Op_Close then ws\<lparr>close_sent := True\<rparr> else ws"
  have "writable (conn ?ws)" "deflate ?ws = deflate ws" "key_for ?ws (masks_used ?ws) = key_for ws (masks_used ws)"
    using assms(1) by (simp_all add: key_for_def)
  then have "send_frame (plain_frame opc p) ?ws =
      (Inr (), wrote (encode (plain_frame opc p) (key_for ws (masks_used ws)) []) 1 ?ws)"
    using send_frame_writable[of ?ws "plain_frame opc p"] by simp
  then show ?thesis
    using assms(2,3) unfolding ws_send_def Let_def plain_frame_def
    by (cases opc) (auto split: option.splits)
qed

section \<open>Messages in fragments\<close>

text \<open>The frames of one message: a data frame and its continuations, with pings in between.\<close>

fun fragments :: "opcode option \<Rightarrow> byte list \<Rightarrow> frame list \<Rightarrow> message \<Rightarrow> bool" where
  "fragments mo asm [] m = False"
| "fragments mo asm (f # fs) m =
     (wf_frame f \<and> \<not> rsv1 f \<and>
      (if opcode f = Op_Ping then fin f \<and> fragments mo asm fs m
       else opcode f \<in> (if mo = None then {Op_Text, Op_Binary} else {Op_Continuation}) \<and>
         length (asm @ payload f) \<le> max_payload \<and>
         (let mo1 = (if mo = None then Some (opcode f) else mo) in
          if fin f then fs = [] \<and> final_message mo1 (asm @ payload f) = Inr (Some m)
          else fragments mo1 (asm @ payload f) fs m)))"

text \<open>The bytes a peer puts on the wire for frames with their masks.\<close>

definition wire :: "(frame \<times> byte list option) list \<Rightarrow> byte list" where
  "wire efs = concat (map (\<lambda>(f, k). encode f k []) efs)"

text \<open>The pongs that answer the pings of a frame list.\<close>

fun pong_replies :: "'c ws_stream \<Rightarrow> nat \<Rightarrow> frame list \<Rightarrow> byte list" where
  "pong_replies ws i [] = []"
| "pong_replies ws i (f # fs) =
     (if opcode f = Op_Ping
      then encode (plain_frame Op_Pong (payload f)) (key_for ws i) [] @
           pong_replies ws (if ws_role ws = Client then i + 1 else i) fs
      else pong_replies ws i fs)"

lemma pong_replies_cong:
  "ws_role ws' = ws_role ws \<Longrightarrow> mask_source ws' = mask_source ws \<Longrightarrow> pong_replies ws' i fs = pong_replies ws i fs"
  by (induction fs arbitrary: i) (simp_all add: key_for_def)

lemma handle_ping:
  assumes "opcode f = Op_Ping" "fin f" "\<not> rsv1 f" "length (payload f) \<le> 125" "writable (conn ws)"
  shows "handle_frame C f mo asm False ws = Go_On mo asm False
     (wrote (encode (plain_frame Op_Pong (payload f)) (key_for ws (masks_used ws)) []) 1 ws)"
  using assms ws_send_writable[OF assms(5), of "Msg_Pong (payload f)" Op_Pong "payload f" C]
  by (simp add: handle_frame_def Let_def check_control_def)

lemma recv_fragments:
  assumes "keepalive ws = None" "writable (conn ws)"
    and "ws_bytes ws = wire efs @ rest" "fragments mo asm (map fst efs) m"
    and "\<And>f k. (f, k) \<in> set efs \<Longrightarrow> mask_for (ws_role ws) k"
  shows "\<exists>ws'. recv_loop C mo asm False ws = (Inr (Some m), ws') \<and> ws_bytes ws' = rest \<and>
     outgoing (io (conn ws')) = outgoing (io (conn ws)) @ pong_replies ws (masks_used ws) (map fst efs) \<and>
     writable (conn ws') \<and> keepalive ws' = None \<and> ws_role ws' = ws_role ws \<and> deflate ws' = deflate ws \<and>
     close_sent ws' = close_sent ws \<and> close_received ws' = close_received ws"
  using assms
proof (induction efs arbitrary: ws mo asm)
  case (Cons fk efs)
  obtain f k where fk: "fk = (f, k)" by fastforce
  have w: "ws_bytes ws = encode f k [] @ (wire efs @ rest)" using Cons.prems(3) fk by (simp add: wire_def)
  have fr: "wf_frame f" "\<not> rsv1 f" "fragments mo asm (f # map fst efs) m" using Cons.prems(4) fk by auto
  have mk: "mask_for (ws_role ws) k" using Cons.prems(5)[of f k] fk by simp
  obtain ws1 where ws1: "only_read ws ws1" "ws_bytes ws1 = wire efs @ rest"
      "recv_loop C mo asm False ws = run_step C (handle_frame C f mo asm False ws1)"
    using recv_next_frame[OF Cons.prems(1) w fr(1) mk] by blast
  note same = only_read_fields[OF ws1(1)]
  show ?case
  proof (cases "opcode f = Op_Ping")
    case ping: True
    let ?pong = "encode (plain_frame Op_Pong (payload f)) (key_for ws (masks_used ws)) []"
    let ?ws2 = "wrote ?pong 1 ws1"
    have "fin f" "length (payload f) \<le> 125" using fr ping by (auto simp: wf_frame_def)
    then have step: "handle_frame C f mo asm False ws1 = Go_On mo asm False ?ws2"
      using handle_ping[OF ping _ fr(2), of ws1 C mo asm] Cons.prems(2) same by (simp add: key_for_def)
    have "fragments mo asm (map fst efs) m" using fr(3) ping by simp
    then obtain ws' where ws': "recv_loop C mo asm False ?ws2 = (Inr (Some m), ws')" "ws_bytes ws' = rest"
        "outgoing (io (conn ws')) = outgoing (io (conn ?ws2)) @ pong_replies ?ws2 (masks_used ?ws2) (map fst efs)"
        "writable (conn ws')" "keepalive ws' = None" "ws_role ws' = ws_role ws" "deflate ws' = deflate ws"
        "close_sent ws' = close_sent ws" "close_received ws' = close_received ws"
      using Cons.IH[of ?ws2 mo asm] Cons.prems(1,2,5) ws1(2) same by auto
    have "pong_replies ?ws2 i fs = pong_replies ws i fs" for i fs
      using same by (intro pong_replies_cong) simp_all
    then show ?thesis
      using ws1(3) step ws' same ping fk by (intro exI[of _ ws']) simp
  next
    case data: False
    have nc: "\<not> is_control (opcode f)" "opcode f \<noteq> Op_Pong" "opcode f \<noteq> Op_Close"
      using fr(3) data by (auto split: if_splits)
    let ?mo = "if mo = None then Some (opcode f) else mo"
    have step: "handle_frame C f mo asm False ws1 = finish_data C f ?mo (asm @ payload f) False ws1"
      using fr(2,3) data by (cases "opcode f") (auto simp: handle_frame_def Let_def check_size_def split: if_splits)
    show ?thesis
    proof (cases "fin f")
      case True
      then have "handle_frame C f mo asm False ws1 = Finish (Inr (Some m)) ws1" "efs = []"
        using step fr(3) data by (auto simp: finish_data_def Let_def split: if_splits)
      then show ?thesis
        using ws1 same Cons.prems(1,2) data fk by (intro exI[of _ ws1]) (simp add: wire_def)
    next
      case False
      then have go: "handle_frame C f mo asm False ws1 = Go_On ?mo (asm @ payload f) False ws1"
        using step by (simp add: finish_data_def)
      have "fragments ?mo (asm @ payload f) (map fst efs) m"
        using fr(3) data False by (auto simp: Let_def split: if_splits)
      then obtain ws' where ws': "recv_loop C ?mo (asm @ payload f) False ws1 = (Inr (Some m), ws')" "ws_bytes ws' = rest"
          "outgoing (io (conn ws')) = outgoing (io (conn ws1)) @ pong_replies ws1 (masks_used ws1) (map fst efs)"
          "writable (conn ws')" "keepalive ws' = None" "ws_role ws' = ws_role ws" "deflate ws' = deflate ws"
          "close_sent ws' = close_sent ws" "close_received ws' = close_received ws"
        using Cons.IH[of ws1 ?mo "asm @ payload f"] Cons.prems(1,2,5) ws1(2) same by auto
      have "pong_replies ws1 i fs = pong_replies ws i fs" for i fs
        using same by (intro pong_replies_cong) simp_all
      then show ?thesis
        using ws1(3) go ws' same data fk by (intro exI[of _ ws']) simp
    qed
  qed
qed simp

end
