(* ===== verification/Ws_Properties.thy ===== *)
theory Ws_Properties
  imports Ws_Receive
begin

text \<open>
  The properties of the frame codec and of the WebSocket stream.
\<close>

section \<open>Concrete frames\<close>

text \<open>A masked binary frame of three bytes, and a stream that reads it in two pieces.\<close>

definition demo_key :: "byte list" where
  "demo_key = [1, 2, 3, 4]"

definition demo_frame :: frame where
  "demo_frame = \<lparr>fin = True, rsv1 = False, opcode = Op_Binary, payload = [7, 8, 9]\<rparr>"

definition demo_transport :: "byte list list \<Rightarrow> transport" where
  "demo_transport bss = \<lparr>incoming = map Chunk bss, accepting = [], outgoing = [], flush_error = None\<rparr>"

definition demo_stream :: "role \<Rightarrow> byte list list \<Rightarrow> unit ws_stream" where
  "demo_stream r bss = from_conn (conn_new (demo_transport bss)) r (\<lambda>_. demo_key)"

definition no_codec :: "unit codec_ops" where
  "no_codec = \<lparr>codec_compress = (\<lambda>u bs. (Inr bs, u)), codec_decompress = (\<lambda>u bs n. (Inr bs, u))\<rparr>"

lemma demo_frame_wf: "wf_frame demo_frame"
  by (simp add: wf_frame_def demo_frame_def max_payload_def)

lemma demo_mask: "mask_for Server (Some demo_key)" "mask_for Client None"
  by (simp_all add: mask_for_def demo_key_def)

lemma demo_stream_fields [simp]:
  "keepalive (demo_stream r bss) = None" "writable (conn (demo_stream r bss))"
  "ws_role (demo_stream r bss) = r" "deflate (demo_stream r bss) = None"
  "close_sent (demo_stream r bss) = False" "close_received (demo_stream r bss) = False"
  "outgoing (io (conn (demo_stream r bss))) = []" "masks_used (demo_stream r bss) = 0"
  by (simp_all add: demo_stream_def from_conn_def conn_new_def demo_transport_def writable_def)

lemma pending_chunks: "[] \<notin> set bss \<Longrightarrow> pending_bytes (map Chunk bss) = concat bss"
  by (induction bss) auto

lemma demo_stream_bytes: "[] \<notin> set bss \<Longrightarrow> ws_bytes (demo_stream r bss) = concat bss"
  by (simp add: demo_stream_def from_conn_def conn_new_def demo_transport_def ws_bytes_def conn_bytes_def
      pending_chunks)

text \<open>The text message ``Hi'' in two fragments, and a pong.\<close>

definition text_part :: frame where
  "text_part = \<lparr>fin = False, rsv1 = False, opcode = Op_Text, payload = [72]\<rparr>"

definition rest_part :: frame where
  "rest_part = \<lparr>fin = True, rsv1 = False, opcode = Op_Continuation, payload = [105]\<rparr>"

definition pong :: frame where
  "pong = plain_frame Op_Pong []"

section \<open>The codec\<close>

text \<open>
  C14: a frame survives the wire.  Decoding the encoding of any frame within the size limits
  (at most 16 MiB, control frames at most 125 bytes), with whatever bytes after it, gives the
  frame back, unmasked, and consumes exactly its encoding; the mask is the one the role
  asks for.
\<close>

theorem frame_roundtrip:
  assumes "wf_frame f" "mask_for r k"
  shows "decode (encode f k [] @ rest) r = (Inr (Some (f, length (encode f k []))) :: 'e ws_error + _)"
  by (rule decode_encode_gen[OF assms])

theorem frame_roundtrip_witness:
  "decode (encode demo_frame (Some demo_key) [] @ [1, 2]) Server = (Inr (Some (demo_frame, 9)) :: unit ws_error + _)"
  using frame_roundtrip[OF demo_frame_wf demo_mask(1), of "[1, 2]", where ?'e = unit]
  by (simp add: encode_def demo_frame_def demo_key_def length_bytes_def)

text \<open>
  decoding is incremental.  Once the codec has decided (a frame or an error), more bytes
  behind the buffer change nothing; and of a frame that has not arrived completely it says
  that more bytes are needed, at every cut.
\<close>

theorem frame_decode_incremental:
  assumes "wf_frame f" "mask_for r k" "n < length (encode f k [])"
  shows "decode (take n (encode f k [])) r = (Inr None :: 'e ws_error + _) \<and>
    (\<forall>buf xs. decode buf r \<noteq> (Inr None :: 'e ws_error + _) \<longrightarrow>
       decode (buf @ xs) r = (decode buf r :: 'e ws_error + _))"
proof (intro conjI allI impI)
  fix buf xs
  assume d: "decode buf r \<noteq> (Inr None :: 'e ws_error + _)"
  show "decode (buf @ xs) r = (decode buf r :: 'e ws_error + _)"
  proof (cases "decode buf r :: 'e ws_error + _")
    case (Inl e)
    then show ?thesis using decode_error_append[OF Inl] by simp
  next
    case (Inr x)
    with d obtain g m where g: "decode buf r = (Inr (Some (g, m)) :: 'e ws_error + _)" by (cases x) auto
    then show ?thesis using decode_local[OF g] decode_bounds(2)[OF g] by simp
  qed
next
  let ?enc = "encode f k []"
  have full: "decode ?enc r = (Inr (Some (f, length ?enc)) :: 'e ws_error + _)"
    using decode_encode_gen[OF assms(1,2), of "[]", where ?'e = 'e] by simp
  show "decode (take n ?enc) r = (Inr None :: 'e ws_error + _)"
  proof (cases "decode (take n ?enc) r :: 'e ws_error + _")
    case (Inl e)
    from decode_error_append[OF this, of "drop n ?enc"] full show ?thesis by simp
  next
    case (Inr x)
    show ?thesis
    proof (cases x)
      case (Some gm)
      then obtain g m where g: "decode (take n ?enc) r = (Inr (Some (g, m)) :: 'e ws_error + _)"
        using Inr by (cases gm) auto
      then have "m \<le> n" using decode_bounds(2)[OF g] by simp
      then have "decode ?enc r = (Inr (Some (g, m)) :: 'e ws_error + _)"
        using assms(3) by (intro decode_local[OF g]) (simp_all add: min_def)
      then show ?thesis using full \<open>m \<le> n\<close> assms(3) by simp
    qed (use Inr in simp)
  qed
qed

theorem frame_decode_incremental_witness:
  "decode (take 8 (encode demo_frame (Some demo_key) [])) Server = (Inr None :: unit ws_error + _)"
  using frame_decode_incremental[OF demo_frame_wf demo_mask(1), of 8, where ?'e = unit]
  by (simp add: encode_def demo_frame_def demo_key_def length_bytes_def)

text \<open>
  What the codec accepts.  A decoded frame lies within the buffer, obeys the size limits
  (so nothing larger than the limit is ever copied), and was masked exactly when the decoding
  side is the server.
\<close>

theorem frame_decode_limits:
  assumes "decode buf r = (Inr (Some (f, n)) :: 'e ws_error + _)"
  shows "2 \<le> n \<and> n \<le> length buf \<and> length (payload f) \<le> n \<and> length (payload f) \<le> max_payload \<and>
    (is_control (opcode f) \<longrightarrow> length (payload f) \<le> 125) \<and> (buf ! 1 AND 0x80 \<noteq> 0 \<longleftrightarrow> r = Server)"
  using decode_bounds[OF assms] by (auto simp: wf_frame_def)

theorem frame_decode_limits_witness: "encode demo_frame (Some demo_key) [] ! 1 AND 0x80 \<noteq> 0"
proof -
  have "decode (encode demo_frame (Some demo_key) []) Server =
      (Inr (Some (demo_frame, length (encode demo_frame (Some demo_key) []))) :: unit ws_error + _)"
    using decode_encode_gen[OF demo_frame_wf demo_mask(1), of "[]", where ?'e = unit] by simp
  from frame_decode_limits[OF this] show ?thesis by simp
qed

section \<open>Receiving\<close>

text \<open>
  C13: \<open>recv\<close> delivers what was sent.  Whatever pieces the transport reads, when the bytes to
  come start with the frames of a message (its fragments in order, with pings in between),
  \<open>recv\<close> returns the assembled message, has answered every ping with a pong of the same
  payload in order, and leaves exactly the bytes after the message.
\<close>

theorem recv_delivers_message:
  assumes "keepalive ws = None" "writable (conn ws)" "ws_bytes ws = wire efs @ rest"
    and "fragments None [] (map fst efs) m" "\<And>f k. (f, k) \<in> set efs \<Longrightarrow> mask_for (ws_role ws) k"
  shows "\<exists>ws'. ws_recv C ws = (Inr (Some m), ws') \<and> ws_bytes ws' = rest \<and>
    outgoing (io (conn ws')) = outgoing (io (conn ws)) @ pong_replies ws (masks_used ws) (map fst efs)"
  using recv_fragments[where C = C, OF assms] unfolding ws_recv_def recv_message_def by fastforce

theorem recv_delivers_message_witness:
  "\<exists>ws'. ws_recv no_codec (demo_stream Server
       [take 5 (encode demo_frame (Some demo_key) []), drop 5 (encode demo_frame (Some demo_key) []) @ [1]]) =
     (Inr (Some (Msg_Binary [7, 8, 9])), ws')"
proof -
  let ?e = "encode demo_frame (Some demo_key) []"
  let ?ws = "demo_stream Server [take 5 ?e, drop 5 ?e @ [1]]"
  have "take 5 ?e \<noteq> []" by (simp add: encode_def)
  then have "ws_bytes ?ws = wire [(demo_frame, Some demo_key)] @ [1]"
    by (subst demo_stream_bytes) (auto simp: wire_def)
  from recv_delivers_message[OF _ _ this, of "Msg_Binary [7, 8, 9]" no_codec] show ?thesis
    by (auto simp: demo_frame_wf[unfolded demo_frame_def] demo_frame_def demo_mask max_payload_def final_message_def)
qed

text \<open>
  A message sent by a client is received by the server.  The bytes a \<open>send\<close> of a text or
  binary message adds to the client's transport, read by the server in any pieces, are
  received as the same message.
\<close>

theorem send_then_recv:
  assumes "ws_role cl = Client" "writable (conn cl)" "deflate cl = None" "length (mask_source cl (masks_used cl)) = 4"
    and "m = Msg_Text b \<and> utf8_valid b \<or> m = Msg_Binary b" "length b \<le> max_payload"
    and "ws_send C m cl = (r, cl')"
    and "ws_role sv = Server" "writable (conn sv)" "keepalive sv = None"
    and "ws_bytes sv = drop (length (outgoing (io (conn cl)))) (outgoing (io (conn cl'))) @ rest"
  shows "r = Inr () \<and> (\<exists>sv'. ws_recv C' sv = (Inr (Some m), sv') \<and> ws_bytes sv' = rest)"
proof -
  obtain opc where opc: "message_parts m = Inr (opc, b)" "opc = Op_Text \<or> opc = Op_Binary"
      "final_message (Some opc) b = Inr (Some m)"
    using assms(5) by (auto simp: final_message_def)
  let ?f = "plain_frame opc b" and ?k = "Some (mask_source cl (masks_used cl))"
  have snd: "r = Inr ()" "cl' = wrote (encode ?f ?k []) 1 cl"
    using ws_send_writable[OF assms(2) opc(1), of C] assms(1,3,7) opc(2) by (auto simp: key_for_def)
  then have bytes: "ws_bytes sv = wire [(?f, ?k)] @ rest" using assms(11) by (simp add: wire_def)
  have frs: "fragments None [] (map fst [(?f, ?k)]) m"
    using opc(2,3) assms(6) by (auto simp: plain_frame_def wf_frame_def Let_def)
  have "mask_for (ws_role sv) k" if "(f, k) \<in> set [(?f, ?k)]" for f k
    using that assms(4,8) by (simp add: mask_for_def)
  from recv_fragments[where C = C', OF assms(10,9) bytes frs this]
  show ?thesis using snd(1) unfolding ws_recv_def recv_message_def by fastforce
qed

theorem send_then_recv_witness:
  "\<exists>cl' sv'. ws_send no_codec (Msg_Binary [7, 8, 9]) (demo_stream Client []) = (Inr (), cl') \<and>
     ws_recv no_codec (demo_stream Server [outgoing (io (conn cl'))]) = (Inr (Some (Msg_Binary [7, 8, 9])), sv')"
proof -
  have mk: "mask_source (demo_stream Client []) i = demo_key" for i
    by (simp add: demo_stream_def from_conn_def)
  obtain r cl' where cl: "ws_send no_codec (Msg_Binary [7, 8, 9]) (demo_stream Client []) = (r, cl')" by fastforce
  then have "cl' = wrote (encode demo_frame (Some demo_key) []) 1 (demo_stream Client [])"
    using ws_send_writable[of "demo_stream Client []" "Msg_Binary [7, 8, 9]" Op_Binary "[7, 8, 9]" no_codec]
    by (simp add: key_for_def mk plain_frame_def demo_frame_def)
  then have "outgoing (io (conn cl')) \<noteq> []" by (simp add: encode_def)
  then have "ws_bytes (demo_stream Server [outgoing (io (conn cl'))]) =
      drop (length (outgoing (io (conn (demo_stream Client []))))) (outgoing (io (conn cl'))) @ []"
    by (simp add: demo_stream_bytes)
  from send_then_recv[where b = "[7, 8, 9]" and C' = no_codec, OF _ _ _ _ _ _ cl _ _ _ this]
  show ?thesis using cl by (auto simp: mk demo_key_def max_payload_def)
qed


section \<open>Violations and closing\<close>

lemma opcode_error: "opcode_from_u8 v = Inl e \<Longrightarrow> e = Ws_Protocol ''reserved opcode''"
  by (auto split: if_splits)

lemma decode_error_reason:
  assumes "decode buf r = (Inl e :: 'e ws_error + _)"
  shows "\<exists>reason. e = Ws_Protocol reason \<and> reason \<noteq> invalid_utf8"
  using assms unfolding decode_def decode_length_def decode_body_def Let_def
  by (auto simp: invalid_utf8_def dest!: opcode_error simp del: opcode_from_u8.simps
      split: if_splits sum.splits option.splits)

lemma send_close_writable:
  assumes "writable (conn ws)" "length (close_payload info) \<le> 125"
  shows "ws_send C (Msg_Close info) ws = (Inr (),
    wrote (encode (plain_frame Op_Close (close_payload info)) (key_for ws (masks_used ws)) []) 1
      (ws\<lparr>close_sent := True\<rparr>))"
  using ws_send_writable[OF assms(1), of "Msg_Close info" Op_Close "close_payload info" C] assms(2)
  by (simp add: check_control_def)

text \<open>
  C32: a protocol violation is answered with a close frame.  When the bytes to come start
  with something the codec rejects (in whatever pieces it arrives), \<open>recv\<close> returns that
  protocol error and, unless a close was sent before, has sent exactly one close frame with
  the status 1002 and no reason.
\<close>

theorem recv_violation_closes:
  assumes "keepalive ws = None" "writable (conn ws)" "decode (ws_bytes ws) (ws_role ws) = (Inl e :: stream_error + _)"
  shows "\<exists>reason ws'. e = Ws_Protocol reason \<and> ws_recv C ws = (Inl (Ws_Protocol reason), ws') \<and> close_sent ws' \<and>
    outgoing (io (conn ws')) = outgoing (io (conn ws)) @
      (if close_sent ws then []
       else encode (plain_frame Op_Close (to_be_bytes 2 1002)) (key_for ws (masks_used ws)) [])"
proof -
  obtain reason where r: "e = Ws_Protocol reason" "reason \<noteq> invalid_utf8"
    using decode_error_reason[OF assms(3)] by blast
  obtain ws1 where ws1: "only_read ws ws1" "recv_loop C None [] False ws = (Inl e, ws1)"
    using recv_next[OF assms(1,3), of C None "[]" False] by auto
  note same = only_read_fields[OF ws1(1)]
  have "writable (conn ws1)" using assms(2) same by simp
  from send_close_writable[OF this, of "Some (1002, [])" C]
  have snd: "ws_send C (Msg_Close (Some (1002, []))) ws1 = (Inr (),
      wrote (encode (plain_frame Op_Close (to_be_bytes 2 1002)) (key_for ws (masks_used ws)) []) 1
        (ws1\<lparr>close_sent := True\<rparr>))"
    using same by (simp add: close_payload_def key_for_def)
  show ?thesis
  proof (cases "close_sent ws")
    case True
    then show ?thesis using r ws1(2) same by (simp add: ws_recv_def recv_message_def)
  next
    case False
    then show ?thesis using r ws1(2) same snd by (simp add: ws_recv_def recv_message_def)
  qed
qed

theorem recv_violation_closes_witness:
  "\<exists>ws'. ws_recv no_codec (demo_stream Server [[0x82], [0x00]]) =
      (Inl (Ws_Protocol ''client frame is not masked''), ws') \<and>
     outgoing (io (conn ws')) = [0x88, 0x02, 0x03, 0xEA]"
proof -
  have "(0x82::byte) AND 0x30 = 0" "(0x82::byte) AND 0x0F = 2" by simp_all
  then have "decode (ws_bytes (demo_stream Server [[0x82], [0x00]])) Server =
      (Inl (Ws_Protocol ''client frame is not masked'') :: stream_error + _)"
    by (simp add: demo_stream_bytes decode_def decode_length_def decode_body_def)
  moreover have "to_be_bytes 2 1002 = [0x03, 0xEA]" by (simp add: to_be_bytes_2)
  ultimately show ?thesis
    using recv_violation_closes[of "demo_stream Server [[0x82], [0x00]]" "Ws_Protocol ''client frame is not masked''" no_codec]
    by (auto simp: encode_def plain_frame_def first_byte_def length_bytes_def key_for_def)
qed

text \<open>The payloads of a close frame that are accepted and refused.\<close>

definition close_accepted :: "byte list \<Rightarrow> bool" where
  "close_accepted p \<longleftrightarrow>
     p = [] \<or> 2 \<le> length p \<and> is_valid_close_code (from_be_bytes (take 2 p)) \<and> utf8_valid (drop 2 p)"

lemma parse_close_accepted:
  assumes "close_accepted p"
  obtains info where "parse_close p = Inr info" "close_payload info = p"
proof (cases "p = []")
  case True
  then show ?thesis by (intro that[of None]) (simp_all add: parse_close_def close_payload_def)
next
  case False
  then have p: "2 \<le> length p" "is_valid_close_code (from_be_bytes (take 2 p))" "utf8_valid (drop 2 p)"
    using assms by (simp_all add: close_accepted_def)
  have "length (take 2 p) = 2" using p(1) by simp
  then have "to_be_bytes 2 (from_be_bytes (take 2 p)) @ drop 2 p = p"
    using to_from_be_bytes[of "take 2 p"] by (metis append_take_drop_id)
  then show ?thesis
    using p by (intro that[of "Some (from_be_bytes (take 2 p), drop 2 p)"]) (auto simp: parse_close_def close_payload_def)
qed

lemma parse_close_refused:
  assumes "\<not> close_accepted p"
  obtains reason where "parse_close p = Inl (Ws_Protocol reason)"
    "reason = invalid_utf8 \<longleftrightarrow> 2 \<le> length p \<and> is_valid_close_code (from_be_bytes (take 2 p))"
proof (cases "length p = 1")
  case True
  then show ?thesis
    by (intro that[of "''close payload of one byte''"]) (auto simp: parse_close_def invalid_utf8_def)
next
  case False
  then have l2: "2 \<le> length p" "p \<noteq> []" "length p \<noteq> 1"
    using assms by (auto simp: close_accepted_def numeral_2_eq_2 Suc_le_eq neq_Nil_conv)
  show ?thesis
  proof (cases "is_valid_close_code (from_be_bytes (take 2 p))")
    case True
    with assms l2 show ?thesis by (intro that[of invalid_utf8]) (simp_all add: close_accepted_def parse_close_def Let_def)
  next
    case False
    with l2 show ?thesis
      by (intro that[of "''invalid close status code''"]) (simp_all add: parse_close_def invalid_utf8_def Let_def)
  qed
qed

text \<open>A close frame is the next thing that \<open>recv\<close> finds.\<close>

lemma recv_close_frame:
  assumes "keepalive ws = None" "ws_bytes ws = encode (plain_frame Op_Close p) k [] @ rest" "length p \<le> 125"
    and "mask_for (ws_role ws) k"
  obtains ws1 where "only_read ws ws1" "ws_bytes ws1 = rest"
    "recv_loop C None [] False ws = run_step C (handle_close C p ws1)"
proof -
  have "wf_frame (plain_frame Op_Close p)" using assms(3) by (simp add: wf_frame_def plain_frame_def max_payload_def)
  from recv_next_frame[OF assms(1,2) this assms(4), of C None "[]" False]
  obtain ws1 where "only_read ws ws1" "ws_bytes ws1 = rest"
      "recv_loop C None [] False ws = run_step C (handle_frame C (plain_frame Op_Close p) None [] False ws1)" by blast
  then show ?thesis by (intro that) (simp_all add: handle_frame_def plain_frame_def)
qed

lemma send_close_after:
  assumes "only_read ws ws1" "writable (conn ws)" "length (close_payload info) \<le> 125"
  shows "ws_send C (Msg_Close info) ws1 = (Inr (),
    wrote (encode (plain_frame Op_Close (close_payload info)) (key_for ws (masks_used ws)) []) 1 (ws1\<lparr>close_sent := True\<rparr>))"
proof -
  have "writable (conn ws1)" using assms(2) only_read_fields[OF assms(1)] by simp
  from send_close_writable[OF this assms(3), of C] show ?thesis
    using only_read_fields[OF assms(1)] by (simp add: key_for_def)
qed

lemma recv_close_accepted:
  assumes "keepalive ws = None" "writable (conn ws)" "ws_bytes ws = encode (plain_frame Op_Close p) k [] @ rest"
    and "length p \<le> 125" "mask_for (ws_role ws) k" "close_accepted p"
  shows "\<exists>ws'. ws_recv C ws = (Inr None, ws') \<and> is_closed ws' \<and> ws_bytes ws' = rest \<and>
    outgoing (io (conn ws')) = outgoing (io (conn ws)) @
      (if close_sent ws then [] else encode (plain_frame Op_Close p) (key_for ws (masks_used ws)) [])"
proof -
  obtain ws1 where ws1: "only_read ws ws1" "ws_bytes ws1 = rest"
      "recv_loop C None [] False ws = run_step C (handle_close C p ws1)"
    using recv_close_frame[OF assms(1,3-5)] by blast
  note same = only_read_fields[OF ws1(1)]
  obtain info where info: "parse_close p = Inr info" "close_payload info = p" by (rule parse_close_accepted[OF assms(6)])
  have "length (close_payload info) \<le> 125" using info(2) assms(4) by simp
  note snd = send_close_after[OF ws1(1) assms(2) this, of C, unfolded info(2)]
  have wb: "ws_bytes (ws1\<lparr>close_received := True\<rparr>) = rest" "ws_bytes (ws1\<lparr>close_sent := True\<rparr>) = rest"
    using ws1(2) by (simp_all add: ws_bytes_def)
  have "ws_bytes ((wrote bs 1 (ws1\<lparr>close_sent := True\<rparr>))\<lparr>close_received := True\<rparr>) = rest" for bs
    using wb(2) wrote_fields(10)[of bs 1 "ws1\<lparr>close_sent := True\<rparr>"] by (simp add: ws_bytes_def)
  then show ?thesis
    using ws1(3) info(1) same snd wb(1)
    by (cases "close_sent ws") (simp_all add: ws_recv_def recv_message_def handle_close_def is_closed_def)
qed

lemma recv_close_refused:
  assumes "keepalive ws = None" "writable (conn ws)" "ws_bytes ws = encode (plain_frame Op_Close p) k [] @ rest"
    and "length p \<le> 125" "mask_for (ws_role ws) k" "\<not> close_accepted p"
  shows "\<exists>reason ws'. ws_recv C ws = (Inl (Ws_Protocol reason), ws') \<and>
    outgoing (io (conn ws')) = outgoing (io (conn ws)) @
      (if close_sent ws then []
       else encode (plain_frame Op_Close (to_be_bytes 2
              (if 2 \<le> length p \<and> is_valid_close_code (from_be_bytes (take 2 p)) then 1007 else 1002)))
              (key_for ws (masks_used ws)) [])"
proof -
  obtain ws1 where ws1: "only_read ws ws1" "recv_loop C None [] False ws = run_step C (handle_close C p ws1)"
    using recv_close_frame[OF assms(1,3-5)] by blast
  note same = only_read_fields[OF ws1(1)]
  obtain reason where reason: "parse_close p = Inl (Ws_Protocol reason)"
      "reason = invalid_utf8 \<longleftrightarrow> 2 \<le> length p \<and> is_valid_close_code (from_be_bytes (take 2 p))"
    by (rule parse_close_refused[OF assms(6)])
  have rl: "recv_loop C None [] False ws = (Inl (Ws_Protocol reason), ws1)"
    using ws1(2) reason(1) by (simp add: handle_close_def)
  let ?code = "if reason = invalid_utf8 then 1007 else 1002 :: nat"
  have "length (close_payload (Some (?code, []))) \<le> 125" by (simp add: close_payload_def)
  from send_close_after[OF ws1(1) assms(2) this, of C]
  have snd: "ws_send C (Msg_Close (Some (?code, []))) ws1 = (Inr (),
      wrote (encode (plain_frame Op_Close (to_be_bytes 2 ?code)) (key_for ws (masks_used ws)) []) 1
        (ws1\<lparr>close_sent := True\<rparr>))"
    by (simp add: close_payload_def)
  show ?thesis using rl same snd by (simp add: ws_recv_def recv_message_def reason(2))
qed

text \<open>
  C35: the closing handshake.  A close frame with a valid status code and UTF-8 reason (or no
  payload) is echoed with the same payload unless a close was sent before, \<open>recv\<close> returns
  \<open>None\<close>, and the stream is closed; a close frame with any other payload is a protocol error.
\<close>

theorem recv_close_echoes:
  assumes "keepalive ws = None" "writable (conn ws)"
    and "ws_bytes ws = encode (plain_frame Op_Close p) k [] @ rest" "length p \<le> 125" "mask_for (ws_role ws) k"
  shows "(p = [] \<or> 2 \<le> length p \<and> is_valid_close_code (from_be_bytes (take 2 p)) \<and> utf8_valid (drop 2 p) \<longrightarrow>
      (\<exists>ws'. ws_recv C ws = (Inr None, ws') \<and> is_closed ws' \<and> ws_bytes ws' = rest \<and>
         outgoing (io (conn ws')) = outgoing (io (conn ws)) @
           (if close_sent ws then [] else encode (plain_frame Op_Close p) (key_for ws (masks_used ws)) []))) \<and>
    (length p = 1 \<or> 2 \<le> length p \<and> \<not> (is_valid_close_code (from_be_bytes (take 2 p)) \<and> utf8_valid (drop 2 p)) \<longrightarrow>
      (\<exists>reason ws'. ws_recv C ws = (Inl (Ws_Protocol reason), ws') \<and>
         outgoing (io (conn ws')) = outgoing (io (conn ws)) @
           (if close_sent ws then []
            else encode (plain_frame Op_Close (to_be_bytes 2
                   (if 2 \<le> length p \<and> is_valid_close_code (from_be_bytes (take 2 p)) then 1007 else 1002)))
                   (key_for ws (masks_used ws)) [])))"
  using recv_close_accepted[OF assms, of C] recv_close_refused[OF assms, of C] unfolding close_accepted_def
  by (intro conjI impI) (blast, fastforce)

theorem recv_close_echoes_witness:
  "\<exists>ws'. ws_recv no_codec (demo_stream Client [[0x88], [0x02, 0x03, 0xE8]]) = (Inr None, ws') \<and> is_closed ws'"
proof -
  have "ws_bytes (demo_stream Client [[0x88], [0x02, 0x03, 0xE8]]) =
      encode (plain_frame Op_Close [0x03, 0xE8]) None [] @ []"
    by (simp add: demo_stream_bytes encode_def plain_frame_def first_byte_def length_bytes_def)
  moreover have "is_valid_close_code (from_be_bytes (take 2 [0x03, 0xE8]))"
    by (simp add: is_valid_close_code_def from_be_bytes_def)
  ultimately show ?thesis
    using recv_close_echoes[of "demo_stream Client [[0x88], [0x02, 0x03, 0xE8]]" "[0x03, 0xE8]" None "[]" no_codec]
    by (auto simp: demo_mask)
qed

text \<open>A text fragment and a pong: the pong is returned, and only its frame and the fragment are consumed.\<close>

lemma recv_text_then_pong:
  assumes "keepalive ws = None" "mask_for (ws_role ws) None"
    and "ws_bytes ws = encode text_part None [] @ encode pong None [] @ rest"
  obtains ws2 where "ws_recv C ws = (Inr (Some (Msg_Pong [])), ws2)" "only_read ws ws2" "ws_bytes ws2 = rest"
proof -
  have wf: "wf_frame text_part" "wf_frame pong"
    by (simp_all add: text_part_def pong_def plain_frame_def wf_frame_def max_payload_def)
  obtain w1 where w1: "only_read ws w1" "ws_bytes w1 = encode pong None [] @ rest"
      "recv_loop C None [] False ws = run_step C (handle_frame C text_part None [] False w1)"
    using recv_next_frame[OF assms(1,3) wf(1) assms(2)] by blast
  have h1: "handle_frame C text_part None [] False w1 = Go_On (Some Op_Text) [72] False w1"
    by (simp add: handle_frame_def text_part_def check_size_def finish_data_def max_payload_def)
  have k1: "keepalive w1 = None" "mask_for (ws_role w1) None"
    using only_read_fields[OF w1(1)] assms(1,2) by simp_all
  obtain w2 where w2: "only_read w1 w2" "ws_bytes w2 = rest"
      "recv_loop C (Some Op_Text) [72] False w1 = run_step C (handle_frame C pong (Some Op_Text) [72] False w2)"
    using recv_next_frame[OF k1(1) w1(2) wf(2) k1(2)] by blast
  have "ws_recv C ws = (Inr (Some (Msg_Pong [])), w2)"
    using w1(3) h1 w2(3) by (simp add: ws_recv_def recv_message_def handle_frame_def pong_def plain_frame_def)
  then show ?thesis using that w2(2) only_read_trans[OF w1(1) w2(1)] by blast
qed

text \<open>A continuation without a beginning fails the connection.\<close>

lemma recv_lone_continuation:
  assumes "keepalive ws = None" "mask_for (ws_role ws) None" "ws_bytes ws = encode rest_part None [] @ rest"
    and "writable (conn ws)" "\<not> close_sent ws"
  shows "\<exists>ws1. ws_recv C ws = (Inl (Ws_Protocol ''continuation without initial frame''), ws1) \<and> close_sent ws1"
proof -
  have wf: "wf_frame rest_part" by (simp add: rest_part_def plain_frame_def wf_frame_def max_payload_def)
  obtain w1 where w1: "only_read ws w1"
      "recv_loop C None [] False ws = run_step C (handle_frame C rest_part None [] False w1)"
    using recv_next_frame[OF assms(1,3) wf assms(2)] by blast
  have r: "recv_message C ws = (Inl (Ws_Protocol ''continuation without initial frame''), w1)"
    using w1(2) by (simp add: recv_message_def handle_frame_def rest_part_def)
  note same = only_read_fields[OF w1(1)]
  have "writable (conn w1)" using assms(4) same by simp
  from send_close_writable[OF this, of "Some (1002, [])" C] show ?thesis
    using r same assms(5) by (simp add: ws_recv_def invalid_utf8_def close_payload_def)
qed

lemma demo_fragments_received:
  "\<exists>ws3. ws_recv no_codec (demo_stream Client [wire [(text_part, None), (rest_part, None)]]) =
     (Inr (Some (Msg_Text [72, 105])), ws3)"
proof -
  have ne: "[] \<noteq> wire ((f, k) # efs)" for f k efs by (auto simp: wire_def encode_def split: option.split)
  have "ws_bytes (demo_stream Client [wire [(text_part, None), (rest_part, None)]]) =
      wire [(text_part, None), (rest_part, None)] @ []"
    using ne by (subst demo_stream_bytes) auto
  moreover have "fragments None [] (map fst [(text_part, None), (rest_part, None)]) (Msg_Text [72, 105])"
    by (simp add: text_part_def rest_part_def wf_frame_def max_payload_def final_message_def)
  ultimately obtain ws3 where
    "recv_loop no_codec None [] False (demo_stream Client [wire [(text_part, None), (rest_part, None)]]) =
       (Inr (Some (Msg_Text [72, 105])), ws3)"
    using recv_fragments[of "demo_stream Client [wire [(text_part, None), (rest_part, None)]]"
        "[(text_part, None), (rest_part, None)]" "[]" None "[]" "Msg_Text [72, 105]" no_codec] demo_mask(2) by auto
  then show ?thesis by (simp add: ws_recv_def recv_message_def)
qed

text \<open>
  A pong in the middle of a fragmented message loses the message.  \<open>recv\<close> returns the
  pong at once and drops the fragments it had assembled, which are local to the call; the
  next call then takes the continuation for one without a beginning, fails the connection and
  closes it with 1002.  The same frames without the pong are the text message ``Hi''.
\<close>

theorem pong_loses_fragments:
  "(\<exists>ws1 ws2. ws_recv no_codec (demo_stream Client [wire [(text_part, None), (pong, None), (rest_part, None)]]) =
        (Inr (Some (Msg_Pong [])), ws1) \<and>
      ws_recv no_codec ws1 = (Inl (Ws_Protocol ''continuation without initial frame''), ws2) \<and> close_sent ws2) \<and>
    (\<exists>ws3. ws_recv no_codec (demo_stream Client [wire [(text_part, None), (rest_part, None)]]) =
        (Inr (Some (Msg_Text [72, 105])), ws3))"
proof (rule conjI)
  let ?ws = "demo_stream Client [wire [(text_part, None), (pong, None), (rest_part, None)]]"
  have ne: "[] \<noteq> wire ((f, k) # efs)" for f k efs by (auto simp: wire_def encode_def split: option.split)
  have b0: "ws_bytes ?ws = encode text_part None [] @ encode pong None [] @ encode rest_part None [] @ []"
    using ne by (subst demo_stream_bytes) (simp, simp add: wire_def)
  have k0: "keepalive ?ws = None" "mask_for (ws_role ?ws) None" using demo_mask(2) by simp_all
  obtain w2 where w2: "ws_recv no_codec ?ws = (Inr (Some (Msg_Pong [])), w2)" "only_read ?ws w2"
      "ws_bytes w2 = encode rest_part None [] @ []"
    using recv_text_then_pong[OF k0 b0] by blast
  have "keepalive w2 = None" "mask_for (ws_role w2) None" "writable (conn w2)" "\<not> close_sent w2"
    using only_read_fields[OF w2(2)] demo_mask(2) by simp_all
  from recv_lone_continuation[OF this(1,2) w2(3) this(3,4)] w2(1)
  show "\<exists>ws1 ws2. ws_recv no_codec ?ws = (Inr (Some (Msg_Pong [])), ws1) \<and>
      ws_recv no_codec ws1 = (Inl (Ws_Protocol ''continuation without initial frame''), ws2) \<and> close_sent ws2"
    by blast
qed (rule demo_fragments_received)

end
