(* ===== verification/Ws_Polls.thy ===== *)
theory Ws_Polls
  imports Ws_Properties Http_Writes
begin

text \<open>
  \<open>send\<close> and \<open>recv\<close> of \<open>WebSocketStream\<close> (\<open>crates/tpt-net-ws/src/stream.rs\<close>) poll by poll: the state
  machines that the two async functions compile to, with what they keep in local variables while they wait
  for the transport.  Awaiting them is the run that the other theories take them for.
\<close>

section \<open>Writes\<close>

text \<open>The writes of the connection, on a stream.\<close>

definition ws_write :: "byte list \<Rightarrow> 'c ws_stream \<Rightarrow> (stream_error + unit) \<times> 'c ws_stream" where
  "ws_write bs ws =
     (case write_raw bs (conn ws) of
        (Inl e, c) \<Rightarrow> (Inl (from_http_error e), ws\<lparr>conn := c\<rparr>)
      | (Inr u, c) \<Rightarrow> (Inr (), ws\<lparr>conn := c\<rparr>))"

definition ws_write_poll :: "byte list \<Rightarrow> 'c ws_stream \<Rightarrow> (stream_error + unit) poll \<times> byte list \<times> 'c ws_stream" where
  "ws_write_poll bs ws =
     (case write_poll bs (conn ws) of
        (Pending, rest, c) \<Rightarrow> (Pending, rest, ws\<lparr>conn := c\<rparr>)
      | (Ready (Inl e), rest, c) \<Rightarrow> (Ready (Inl (from_http_error e)), rest, ws\<lparr>conn := c\<rparr>)
      | (Ready (Inr u), rest, c) \<Rightarrow> (Ready (Inr ()), rest, ws\<lparr>conn := c\<rparr>))"

abbreviation ws_scripts :: "'c ws_stream \<Rightarrow> nat" where
  "ws_scripts ws \<equiv> conn_scripts (conn ws)"

lemma ws_write_poll_stands:
  "ws_write_poll bs ws = (Ready r, rest, ws1) \<Longrightarrow> ws_write bs ws = (r, ws1)"
  "ws_write_poll bs ws = (Pending, rest, ws1) \<Longrightarrow> ws_write rest ws1 = ws_write bs ws \<and> ws_scripts ws1 < ws_scripts ws"
  by (auto simp: ws_write_poll_def ws_write_def dest: write_poll_stands split: prod.splits poll.splits sum.splits)

lemma ws_write_poll_sent:
  assumes "ws_write_poll bs ws = (p, rest, ws1)"
  shows "\<exists>sent c. bs = sent @ rest \<and> ws1 = ws\<lparr>conn := c\<rparr> \<and> outgoing (io c) = outgoing (io (conn ws)) @ sent \<and>
    incoming (io c) = incoming (io (conn ws)) \<and> conn_buf c = conn_buf (conn ws) \<and> eof c = eof (conn ws) \<and>
    conn_scripts c \<le> ws_scripts ws"
proof -
  obtain q r c where q: "write_poll bs (conn ws) = (q, r, c)" by (metis prod_cases3)
  then have "rest = r" "ws1 = ws\<lparr>conn := c\<rparr>"
    using assms by (auto simp: ws_write_poll_def split: poll.splits sum.splits)
  then show ?thesis using write_poll_sent[OF q] by auto
qed

lemma ws_write_poll_size: "ws_write_poll bs ws = (p, rest, ws1) \<Longrightarrow> ws_size ws1 = ws_size ws"
  using ws_write_poll_sent[of bs ws p rest ws1] by (auto simp: ws_size_def conn_size_def)

lemma ws_write_poll_scripts: "ws_write_poll bs ws = (p, rest, ws1) \<Longrightarrow> ws_scripts ws1 \<le> ws_scripts ws"
  using ws_write_poll_sent[of bs ws p rest ws1] by auto

section \<open>send\<close>

text \<open>All that \<open>send\<close> does before it writes: the bytes of the frame, or the error it returns.\<close>

definition frame_bytes :: "frame \<Rightarrow> 'c ws_stream \<Rightarrow> (stream_error + byte list) \<times> 'c ws_stream" where
  "frame_bytes f ws =
     (Inr (encode f (if ws_role ws = Client then Some (mask_source ws (masks_used ws)) else None) []),
      if ws_role ws = Client then ws\<lparr>masks_used := masks_used ws + 1\<rparr> else ws)"

definition send_bytes :: "'c codec_ops \<Rightarrow> message \<Rightarrow> 'c ws_stream \<Rightarrow> (stream_error + byte list) \<times> 'c ws_stream" where
  "send_bytes C m ws =
     (case message_parts m of
        Inl e \<Rightarrow> (Inl e, ws)
      | Inr (opc, p) \<Rightarrow>
          let ws1 = (if opc = Op_Close then ws\<lparr>close_sent := True\<rparr> else ws) in
          case deflate ws1 of
            Some cd \<Rightarrow>
              if opc = Op_Text \<or> opc = Op_Binary then
                (case codec_compress C cd p of
                   (Inl r, cd1) \<Rightarrow> (Inl (Ws_Protocol r), ws1\<lparr>deflate := Some cd1\<rparr>)
                 | (Inr p1, cd1) \<Rightarrow>
                     frame_bytes \<lparr>fin = True, rsv1 = True, opcode = opc, payload = p1\<rparr> (ws1\<lparr>deflate := Some cd1\<rparr>))
              else frame_bytes \<lparr>fin = True, rsv1 = False, opcode = opc, payload = p\<rparr> ws1
          | None \<Rightarrow> frame_bytes \<lparr>fin = True, rsv1 = False, opcode = opc, payload = p\<rparr> ws1)"

lemma send_frame_bytes:
  "send_frame f ws =
     (case frame_bytes f ws of
        (Inl e, ws1) \<Rightarrow> (Inl e, ws1)
      | (Inr bs, ws1) \<Rightarrow> ws_write bs ws1)"
  by (simp add: send_frame_def frame_bytes_def ws_write_def Let_def)

lemma ws_send_bytes:
  "ws_send C m ws =
     (case send_bytes C m ws of
        (Inl e, ws1) \<Rightarrow> (Inl e, ws1)
      | (Inr bs, ws1) \<Rightarrow> ws_write bs ws1)"
  unfolding ws_send_def send_bytes_def Let_def send_frame_bytes
  by (simp split: sum.splits prod.splits option.splits)

lemma frame_bytes_same:
  "frame_bytes f ws = (r, ws1) \<Longrightarrow> conn ws1 = conn ws \<and> frame_buf ws1 = frame_buf ws \<and> ws_role ws1 = ws_role ws \<and>
     keepalive ws1 = keepalive ws \<and> close_received ws1 = close_received ws"
  by (auto simp: frame_bytes_def split: if_splits)

lemma send_bytes_same:
  assumes "send_bytes C m ws = (r, ws1)"
  shows "conn ws1 = conn ws \<and> frame_buf ws1 = frame_buf ws \<and> ws_role ws1 = ws_role ws \<and> keepalive ws1 = keepalive ws \<and>
    close_received ws1 = close_received ws"
  using assms unfolding send_bytes_def Let_def
  by (auto dest!: frame_bytes_same split: sum.splits prod.splits option.splits if_splits)

lemma send_bytes_size: "send_bytes C m ws = (r, ws1) \<Longrightarrow> ws_size ws1 = ws_size ws \<and> ws_scripts ws1 = ws_scripts ws"
  using send_bytes_same[of C m ws r ws1] by (simp add: ws_size_def)

text \<open>The machine: nothing done yet, or the rest of the frame to write.\<close>

datatype send_run = Sd_Start | Sd_Writing "byte list"

definition send_writing :: "byte list \<Rightarrow> 'c ws_stream \<Rightarrow> (stream_error + unit) poll \<times> send_run \<times> 'c ws_stream" where
  "send_writing bs ws = (case ws_write_poll bs ws of (p, rest, ws1) \<Rightarrow> (p, Sd_Writing rest, ws1))"

fun send_poll ::
  "'c codec_ops \<Rightarrow> message \<Rightarrow> send_run \<Rightarrow> 'c ws_stream \<Rightarrow> (stream_error + unit) poll \<times> send_run \<times> 'c ws_stream" where
  "send_poll C m Sd_Start ws =
     (case send_bytes C m ws of
        (Inl e, ws1) \<Rightarrow> (Ready (Inl e), Sd_Start, ws1)
      | (Inr bs, ws1) \<Rightarrow> send_writing bs ws1)"
| "send_poll C m (Sd_Writing bs) ws = send_writing bs ws"

fun send_rest :: "'c codec_ops \<Rightarrow> message \<Rightarrow> send_run \<Rightarrow> 'c ws_stream \<Rightarrow> (stream_error + unit) \<times> 'c ws_stream" where
  "send_rest C m Sd_Start ws = ws_send C m ws"
| "send_rest C m (Sd_Writing bs) ws = ws_write bs ws"

lemma send_writing_stands:
  "send_writing bs ws = (Ready r, s1, ws1) \<Longrightarrow> ws_write bs ws = (r, ws1)"
  "send_writing bs ws = (Pending, s1, ws1) \<Longrightarrow> send_rest C m s1 ws1 = ws_write bs ws \<and> ws_scripts ws1 < ws_scripts ws"
  by (auto simp: send_writing_def dest: ws_write_poll_stands split: prod.splits)

lemma send_poll_stands:
  "send_poll C m s ws = (Ready r, s1, ws1) \<Longrightarrow> send_rest C m s ws = (r, ws1)"
  "send_poll C m s ws = (Pending, s1, ws1) \<Longrightarrow> send_rest C m s1 ws1 = send_rest C m s ws \<and> ws_scripts ws1 < ws_scripts ws"
proof -
  obtain x ws0 where x: "send_bytes C m ws = (x, ws0)" by fastforce
  note same = send_bytes_size[OF x]
  show "send_poll C m s ws = (Ready r, s1, ws1) \<Longrightarrow> send_rest C m s ws = (r, ws1)"
    using x send_writing_stands(1)[of _ _ r s1 ws1] by (cases s; cases x) (simp_all add: ws_send_bytes)
  show "send_poll C m s ws = (Pending, s1, ws1) \<Longrightarrow> send_rest C m s1 ws1 = send_rest C m s ws \<and> ws_scripts ws1 < ws_scripts ws"
    using x same send_writing_stands(2)[of _ ws0 s1 ws1 C m] send_writing_stands(2)[of _ ws s1 ws1 C m]
    by (cases s; cases x) (simp_all add: ws_send_bytes)
qed

interpretation ws_send: polled_function "send_poll C m" "send_rest C m" ws_scripts for C :: "'c codec_ops" and m
  by unfold_locales (rule send_poll_stands; assumption)+

section \<open>Frames\<close>

text \<open>
  What \<open>recv_message\<close> does with a frame, up to the message that it has to send: \<open>handle_frame\<close> without
  the sending.
\<close>

datatype 'c frame_act =
    Fa_Return "stream_error + message option" "'c ws_stream"
  | Fa_Go_On "opcode option" "byte list" bool "'c ws_stream"
  | Fa_Pong "byte list" "opcode option" "byte list" bool "'c ws_stream"
  | Fa_Close "(nat \<times> byte list) option" "'c ws_stream"

definition close_act :: "byte list \<Rightarrow> 'c ws_stream \<Rightarrow> 'c frame_act" where
  "close_act p ws =
     (case parse_close p of
        Inl e \<Rightarrow> Fa_Return (Inl e) ws
      | Inr info \<Rightarrow> if close_sent ws then Fa_Return (Inr None) (ws\<lparr>close_received := True\<rparr>) else Fa_Close info ws)"

definition data_act :: "'c recv_step \<Rightarrow> 'c frame_act" where
  "data_act st = (case st of Finish r ws \<Rightarrow> Fa_Return r ws | Go_On mo asm cmp ws \<Rightarrow> Fa_Go_On mo asm cmp ws)"

definition frame_act ::
  "'c codec_ops \<Rightarrow> frame \<Rightarrow> opcode option \<Rightarrow> byte list \<Rightarrow> bool \<Rightarrow> 'c ws_stream \<Rightarrow> 'c frame_act" where
  "frame_act C f mo asm cmp ws =
     (if rsv1 f \<and> deflate ws = None
      then Fa_Return (Inl (Ws_Protocol ''RSV1 set but permessage-deflate was not negotiated'')) ws
      else let cmp1 = (cmp \<or> rsv1 f \<and> (opcode f = Op_Text \<or> opcode f = Op_Binary)) in
      if \<not> fin f \<and> is_control (opcode f) then Fa_Return (Inl (Ws_Protocol ''fragmented control frame'')) ws
      else case opcode f of
        Op_Ping \<Rightarrow> Fa_Pong (payload f) mo asm cmp1 ws
      | Op_Pong \<Rightarrow> Fa_Return (Inr (Some (Msg_Pong (payload f)))) ws
      | Op_Close \<Rightarrow> close_act (payload f) ws
      | opc \<Rightarrow> data_act (handle_frame C f mo asm cmp ws))"

text \<open>Acting on it is handling the frame.\<close>

fun act_out :: "'c codec_ops \<Rightarrow> 'c frame_act \<Rightarrow> 'c recv_step" where
  "act_out C (Fa_Return r ws) = Finish r ws"
| "act_out C (Fa_Go_On mo asm cmp ws) = Go_On mo asm cmp ws"
| "act_out C (Fa_Pong p mo asm cmp ws) =
     (case ws_send C (Msg_Pong p) ws of
        (Inl e, ws1) \<Rightarrow> Finish (Inl e) ws1
      | (Inr u, ws1) \<Rightarrow> Go_On mo asm cmp ws1)"
| "act_out C (Fa_Close info ws) =
     (case ws_send C (Msg_Close info) ws of
        (Inl e, ws1) \<Rightarrow> Finish (Inl e) ws1
      | (Inr u, ws1) \<Rightarrow> Finish (Inr None) (ws1\<lparr>close_received := True\<rparr>))"

lemma data_act_out: "act_out C (data_act st) = st"
  by (cases st) (simp_all add: data_act_def)

lemma frame_act_out: "act_out C (frame_act C f mo asm cmp ws) = handle_frame C f mo asm cmp ws"
proof (cases "opcode f = Op_Text \<or> opcode f = Op_Binary \<or> opcode f = Op_Continuation")
  case True
  show ?thesis
  proof (cases "rsv1 f \<and> deflate ws = None")
    case guard: True
    then show ?thesis by (simp add: frame_act_def handle_frame_def)
  next
    case False
    have nc: "\<not> is_control (opcode f)" using True by auto
    then have "frame_act C f mo asm cmp ws = data_act (handle_frame C f mo asm cmp ws)"
      using True unfolding frame_act_def Let_def if_not_P[OF False] by auto
    then show ?thesis by (simp add: data_act_out)
  qed
next
  case False
  then show ?thesis
    by (cases "opcode f") (simp_all add: frame_act_def handle_frame_def handle_close_def close_act_def Let_def split: sum.splits)
qed

text \<open>A frame takes nothing from the transport or the buffer.\<close>

definition same_reader :: "'c ws_stream \<Rightarrow> 'c ws_stream \<Rightarrow> bool" where
  "same_reader ws ws1 \<longleftrightarrow> conn ws1 = conn ws \<and> frame_buf ws1 = frame_buf ws"

lemma finish_data_same:
  "finish_data C f mo asm cmp ws = Finish r ws1 \<Longrightarrow> same_reader ws ws1"
  "finish_data C f mo asm cmp ws = Go_On mo1 asm1 cmp1 ws1 \<Longrightarrow> same_reader ws ws1"
  by (auto simp: finish_data_def same_reader_def split: if_splits option.splits prod.splits sum.splits)

fun act_stream :: "'c frame_act \<Rightarrow> 'c ws_stream" where
  "act_stream (Fa_Return r ws) = ws"
| "act_stream (Fa_Go_On mo asm cmp ws) = ws"
| "act_stream (Fa_Pong p mo asm cmp ws) = ws"
| "act_stream (Fa_Close info ws) = ws"

lemma data_frame_same:
  assumes "opcode f = Op_Text \<or> opcode f = Op_Binary \<or> opcode f = Op_Continuation"
  shows "same_reader ws (act_stream (data_act (handle_frame C f mo asm cmp ws)))"
proof -
  have r: "same_reader ws ws" by (simp add: same_reader_def)
  have d: "same_reader ws (act_stream (data_act (finish_data C f mo1 asm1 cmp1 ws)))" for mo1 asm1 cmp1
    by (cases "finish_data C f mo1 asm1 cmp1 ws") (auto simp: data_act_def dest: finish_data_same)
  show ?thesis
    using assms r d unfolding handle_frame_def Let_def
    by (auto simp: data_act_def check_size_def split: if_splits sum.splits)
qed

lemma frame_act_same: "same_reader ws (act_stream (frame_act C f mo asm cmp ws))"
  using data_frame_same[of f ws C mo asm cmp]
  by (cases "opcode f") (auto simp: frame_act_def close_act_def same_reader_def Let_def split: sum.splits)

section \<open>recv\<close>

text \<open>
  Where \<open>recv\<close> waits: for bytes, with the message that it has assembled so far; in a keepalive whose wait
  elapses before there are any (as in the runs, each stall of the script is such a wait if there is a
  keepalive), or that is writing its ping; in writing a pong, the answer to a close, or the close after a
  violation.  A poll that goes on reading looks at the buffer again, which is as undecodable as before.
\<close>

datatype recv_run =
    Rv_Start
  | Rv_Reading "opcode option" "byte list" bool
  | Rv_Elapsed "opcode option" "byte list" bool
  | Rv_Pinging "byte list" "opcode option" "byte list" bool
  | Rv_Ponging "byte list" "opcode option" "byte list" bool
  | Rv_Closing "byte list"
  | Rv_Failing string "byte list"

type_synonym 'c recv_polled = "(stream_error + message option) poll \<times> recv_run \<times> 'c ws_stream"

definition violation_close :: "string \<Rightarrow> message" where
  "violation_close reason = Msg_Close (Some (if reason = invalid_utf8 then 1007 else 1002, []))"

definition fail_poll :: "string \<Rightarrow> byte list \<Rightarrow> 'c ws_stream \<Rightarrow> 'c recv_polled" where
  "fail_poll reason bs ws =
     (case ws_write_poll bs ws of
        (Pending, rest, ws1) \<Rightarrow> (Pending, Rv_Failing reason rest, ws1)
      | (Ready r, rest, ws1) \<Rightarrow> (Ready (Inl (Ws_Protocol reason)), Rv_Start, ws1))"

text \<open>\<open>recv_message\<close> has returned.\<close>

definition after_message :: "'c codec_ops \<Rightarrow> stream_error + message option \<Rightarrow> 'c ws_stream \<Rightarrow> 'c recv_polled" where
  "after_message C r ws =
     (case r of
        Inl (Ws_Protocol reason) \<Rightarrow>
          if close_sent ws then (Ready r, Rv_Start, ws)
          else (case send_bytes C (violation_close reason) ws of
              (Inl e, ws1) \<Rightarrow> (Ready r, Rv_Start, ws1)
            | (Inr bs, ws1) \<Rightarrow> fail_poll reason bs ws1)
      | _ \<Rightarrow> (Ready r, Rv_Start, ws))"

definition close_poll :: "'c codec_ops \<Rightarrow> byte list \<Rightarrow> 'c ws_stream \<Rightarrow> 'c recv_polled" where
  "close_poll C bs ws =
     (case ws_write_poll bs ws of
        (Pending, rest, ws1) \<Rightarrow> (Pending, Rv_Closing rest, ws1)
      | (Ready (Inl e), rest, ws1) \<Rightarrow> after_message C (Inl e) ws1
      | (Ready (Inr u), rest, ws1) \<Rightarrow> (Ready (Inr None), Rv_Start, ws1\<lparr>close_received := True\<rparr>))"

text \<open>A read of the transport, with what the keepalive makes of it.\<close>

definition pause :: "opcode option \<Rightarrow> byte list \<Rightarrow> bool \<Rightarrow> 'c ws_stream \<Rightarrow> recv_run" where
  "pause mo asm cmp ws = (if keepalive ws = None then Rv_Reading mo asm cmp else Rv_Elapsed mo asm cmp)"

definition heard :: "'c ws_stream \<Rightarrow> http_connection \<Rightarrow> 'c ws_stream" where
  "heard ws c = (if keepalive ws = None then ws\<lparr>conn := c\<rparr> else ws\<lparr>conn := c, ping_outstanding := False\<rparr>)"

function recv_poll :: "'c codec_ops \<Rightarrow> recv_run \<Rightarrow> 'c ws_stream \<Rightarrow> 'c recv_polled" where
  "recv_poll C Rv_Start ws = recv_poll C (Rv_Reading None [] False) ws"
| "recv_poll C (Rv_Reading mo asm cmp) ws =
     (case decode (frame_buf ws) (ws_role ws) of
        Inl e \<Rightarrow> after_message C (Inl e) ws
      | Inr None \<Rightarrow>
          (case poll_raw ws_chunk (conn ws) of
             (Pending, c) \<Rightarrow> (Pending, pause mo asm cmp ws, ws\<lparr>conn := c\<rparr>)
           | (Ready (Inl e), c) \<Rightarrow> after_message C (Inl (from_http_error e)) (heard ws c)
           | (Ready (Inr bs), c) \<Rightarrow>
               if bs = []
               then after_message C (if close_received ws then Inr None else Inl Ws_Connection_Closed) (heard ws c)
               else recv_poll C (Rv_Reading mo asm cmp) ((heard ws c)\<lparr>frame_buf := frame_buf ws @ bs\<rparr>))
      | Inr (Some (f, consumed)) \<Rightarrow>
          (case frame_act C f mo asm cmp (ws\<lparr>frame_buf := drop consumed (frame_buf ws)\<rparr>) of
             Fa_Return r ws1 \<Rightarrow> after_message C r ws1
           | Fa_Go_On mo1 asm1 cmp1 ws1 \<Rightarrow> recv_poll C (Rv_Reading mo1 asm1 cmp1) ws1
           | Fa_Pong p mo1 asm1 cmp1 ws1 \<Rightarrow>
               (case send_bytes C (Msg_Pong p) ws1 of
                  (Inl e, ws2) \<Rightarrow> after_message C (Inl e) ws2
                | (Inr bs, ws2) \<Rightarrow> recv_poll C (Rv_Ponging bs mo1 asm1 cmp1) ws2)
           | Fa_Close info ws1 \<Rightarrow>
               (case send_bytes C (Msg_Close info) ws1 of
                  (Inl e, ws2) \<Rightarrow> after_message C (Inl e) ws2
                | (Inr bs, ws2) \<Rightarrow> close_poll C bs ws2)))"
| "recv_poll C (Rv_Elapsed mo asm cmp) ws =
     (if ping_outstanding ws then after_message C (Inl Ws_Timed_Out) ws
      else case send_bytes C (Msg_Ping []) ws of
          (Inl e, ws1) \<Rightarrow> after_message C (Inl e) ws1
        | (Inr bs, ws1) \<Rightarrow> recv_poll C (Rv_Pinging bs mo asm cmp) ws1)"
| "recv_poll C (Rv_Pinging bs mo asm cmp) ws =
     (case ws_write_poll bs ws of
        (Pending, rest, ws1) \<Rightarrow> (Pending, Rv_Pinging rest mo asm cmp, ws1)
      | (Ready (Inl e), rest, ws1) \<Rightarrow> after_message C (Inl e) ws1
      | (Ready (Inr u), rest, ws1) \<Rightarrow> recv_poll C (Rv_Reading mo asm cmp) (ws1\<lparr>ping_outstanding := True\<rparr>))"
| "recv_poll C (Rv_Ponging bs mo asm cmp) ws =
     (case ws_write_poll bs ws of
        (Pending, rest, ws1) \<Rightarrow> (Pending, Rv_Ponging rest mo asm cmp, ws1)
      | (Ready (Inl e), rest, ws1) \<Rightarrow> after_message C (Inl e) ws1
      | (Ready (Inr u), rest, ws1) \<Rightarrow> recv_poll C (Rv_Reading mo asm cmp) ws1)"
| "recv_poll C (Rv_Closing bs) ws = close_poll C bs ws"
| "recv_poll C (Rv_Failing reason bs) ws = fail_poll reason bs ws"
  by pat_completeness auto

text \<open>It ends: frames and reads use up bytes, and the other steps lead back to reading.\<close>

fun recv_rank :: "recv_run \<Rightarrow> nat" where
  "recv_rank (Rv_Elapsed mo asm cmp) = 2"
| "recv_rank (Rv_Reading mo asm cmp) = 0"
| "recv_rank s = 1"

lemma same_reader_size: "same_reader ws ws1 \<Longrightarrow> ws_size ws1 = ws_size ws"
  by (simp add: same_reader_def ws_size_def)

lemma frame_act_size:
  assumes "decode (frame_buf ws) (ws_role ws) = (Inr (Some (f, n)) :: stream_error + _)"
    and "frame_act C f mo asm cmp (ws\<lparr>frame_buf := drop n (frame_buf ws)\<rparr>) = a"
  shows "ws_size (act_stream a) < ws_size ws"
  using same_reader_size[OF frame_act_same[of "ws\<lparr>frame_buf := drop n (frame_buf ws)\<rparr>" C f mo asm cmp]]
    ws_size_step[OF assms(1)] assms(2) by simp

lemma heard_size:
  assumes "poll_raw ws_chunk (conn ws) = (Ready (Inr bs), c)" "bs \<noteq> []"
  shows "ws_size ((heard ws c)\<lparr>frame_buf := frame_buf ws @ bs\<rparr>) < ws_size ws"
  using poll_raw_size[OF assms(1)] assms(2) by (cases bs) (auto simp: ws_size_def heard_def ws_chunk_def)

lemma frame_go_on_size:
  assumes "decode (frame_buf ws) (ws_role ws) = (Inr (Some (f, n)) :: stream_error + _)"
    and "frame_act C f mo asm cmp (ws\<lparr>frame_buf := drop n (frame_buf ws)\<rparr>) = Fa_Go_On mo1 asm1 cmp1 ws1"
  shows "ws_size ws1 < ws_size ws"
  using frame_act_size[OF assms] by simp

lemma frame_pong_size:
  assumes "decode (frame_buf ws) (ws_role ws) = (Inr (Some (f, n)) :: stream_error + _)"
    and "frame_act C f mo asm cmp (ws\<lparr>frame_buf := drop n (frame_buf ws)\<rparr>) = Fa_Pong p mo1 asm1 cmp1 ws1"
    and "(r, ws2) = send_bytes C (Msg_Pong p) ws1"
  shows "ws_size ws2 < ws_size ws"
  using frame_act_size[OF assms(1,2)] send_bytes_size[OF assms(3)[symmetric]] by simp

lemma ping_size: "ws_size (ws\<lparr>ping_outstanding := b\<rparr>) = ws_size ws"
  by (simp add: ws_size_def)

termination recv_poll
  by (relation "measures [\<lambda>(C, s, ws). ws_size ws, \<lambda>(C, s, ws). recv_rank s]")
     (auto dest: sym[THEN send_bytes_size] sym[THEN ws_write_poll_size] simp: ping_size
       intro: frame_go_on_size frame_pong_size heard_size[OF sym])

declare recv_poll.simps [simp del]

section \<open>Awaiting recv\<close>

definition recv_result ::
  "'c codec_ops \<Rightarrow> (stream_error + message option) \<times> 'c ws_stream \<Rightarrow> (stream_error + message option) \<times> 'c ws_stream" where
  "recv_result C rw =
     (case rw of
        (Inl (Ws_Protocol reason), ws) \<Rightarrow>
          (Inl (Ws_Protocol reason), if close_sent ws then ws else snd (ws_send C (violation_close reason) ws))
      | other \<Rightarrow> other)"

lemma ws_recv_result: "ws_recv C ws = recv_result C (recv_loop C None [] False ws)"
  unfolding ws_recv_def recv_message_def recv_result_def violation_close_def by (rule refl)

text \<open>What is left of the run in each state.\<close>

definition wrote_then ::
  "'c codec_ops \<Rightarrow> byte list \<Rightarrow> 'c ws_stream \<Rightarrow> ('c ws_stream \<Rightarrow> (stream_error + message option) \<times> 'c ws_stream) \<Rightarrow>
   (stream_error + message option) \<times> 'c ws_stream" where
  "wrote_then C bs ws k =
     (case ws_write bs ws of
        (Inl e, ws1) \<Rightarrow> recv_result C (Inl e, ws1)
      | (Inr u, ws1) \<Rightarrow> k ws1)"

definition reading_rest ::
  "'c codec_ops \<Rightarrow> opcode option \<Rightarrow> byte list \<Rightarrow> bool \<Rightarrow> 'c ws_stream \<Rightarrow> (stream_error + message option) \<times> 'c ws_stream" where
  "reading_rest C mo asm cmp ws = recv_result C (recv_loop C mo asm cmp ws)"

fun recv_rest :: "'c codec_ops \<Rightarrow> recv_run \<Rightarrow> 'c ws_stream \<Rightarrow> (stream_error + message option) \<times> 'c ws_stream" where
  "recv_rest C Rv_Start ws = ws_recv C ws"
| "recv_rest C (Rv_Reading mo asm cmp) ws = reading_rest C mo asm cmp ws"
| "recv_rest C (Rv_Elapsed mo asm cmp) ws =
     (if ping_outstanding ws then recv_result C (Inl Ws_Timed_Out, ws)
      else case send_bytes C (Msg_Ping []) ws of
          (Inl e, ws1) \<Rightarrow> recv_result C (Inl e, ws1)
        | (Inr bs, ws1) \<Rightarrow> wrote_then C bs ws1 (\<lambda>w. reading_rest C mo asm cmp (w\<lparr>ping_outstanding := True\<rparr>)))"
| "recv_rest C (Rv_Pinging bs mo asm cmp) ws =
     wrote_then C bs ws (\<lambda>w. reading_rest C mo asm cmp (w\<lparr>ping_outstanding := True\<rparr>))"
| "recv_rest C (Rv_Ponging bs mo asm cmp) ws = wrote_then C bs ws (reading_rest C mo asm cmp)"
| "recv_rest C (Rv_Closing bs) ws = wrote_then C bs ws (\<lambda>w. (Inr None, w\<lparr>close_received := True\<rparr>))"
| "recv_rest C (Rv_Failing reason bs) ws = (Inl (Ws_Protocol reason), snd (ws_write bs ws))"

text \<open>A polled state stands for the run \<open>res\<close>: it ends with it, or goes on to it with less of the scripts left.\<close>

definition polls_to ::
  "'c codec_ops \<Rightarrow> nat \<Rightarrow> 'c recv_polled \<Rightarrow> (stream_error + message option) \<times> 'c ws_stream \<Rightarrow> bool" where
  "polls_to C n p res \<longleftrightarrow>
     (case p of
        (Ready r, s1, ws1) \<Rightarrow> res = (r, ws1)
      | (Pending, s1, ws1) \<Rightarrow> recv_rest C s1 ws1 = res \<and> ws_scripts ws1 < n)"

lemma polls_to_mono: "polls_to C n p res \<Longrightarrow> n \<le> m \<Longrightarrow> polls_to C m p res"
  by (auto simp: polls_to_def split: prod.splits poll.splits)

lemma fail_poll_stands: "polls_to C (ws_scripts ws) (fail_poll reason bs ws) (Inl (Ws_Protocol reason), snd (ws_write bs ws))"
proof -
  obtain p rest ws1 where p: "ws_write_poll bs ws = (p, rest, ws1)" by (metis prod_cases3)
  show ?thesis
    using p by (cases p) (auto simp: fail_poll_def polls_to_def dest: ws_write_poll_stands)
qed

lemma after_message_stands: "polls_to C (ws_scripts ws) (after_message C r ws) (recv_result C (r, ws))"
proof (cases "\<exists>reason. r = Inl (Ws_Protocol reason) \<and> \<not> close_sent ws")
  case True
  then obtain reason where r: "r = Inl (Ws_Protocol reason)" "\<not> close_sent ws" by blast
  obtain x ws1 where x: "send_bytes C (violation_close reason) ws = (x, ws1)" by fastforce
  show ?thesis
  proof (cases x)
    case (Inl e)
    then show ?thesis using r x by (simp add: after_message_def polls_to_def recv_result_def ws_send_bytes)
  next
    case (Inr bs)
    then show ?thesis
      using r x fail_poll_stands[of C ws1 reason bs] send_bytes_size[OF x]
      by (simp add: after_message_def recv_result_def ws_send_bytes)
  qed
next
  case False
  then show ?thesis
    by (auto simp: after_message_def polls_to_def recv_result_def split: sum.splits ws_error.splits)
qed

text \<open>Writing and going on.\<close>

lemma write_poll_to:
  assumes "ws_write_poll bs ws = (p, rest, ws1)"
    and "p = Pending \<Longrightarrow> recv_rest C s1 ws1 = wrote_then C rest ws1 k"
    and "\<And>e. p = Ready (Inl e) \<Longrightarrow> q = after_message C (Inl e) ws1"
    and "p = Ready (Inr ()) \<Longrightarrow> polls_to C (ws_scripts ws1) q (k ws1)"
    and "p = Pending \<Longrightarrow> q = (Pending, s1, ws1)"
  shows "polls_to C (ws_scripts ws) q (wrote_then C bs ws k)"
proof (cases p)
  case Pending
  note st = ws_write_poll_stands(2)[OF assms(1)[unfolded Pending]]
  then have "wrote_then C rest ws1 k = wrote_then C bs ws k" by (simp add: wrote_then_def)
  then show ?thesis using assms(2,5) Pending st by (simp add: polls_to_def)
next
  case (Ready r)
  note st = ws_write_poll_stands(1)[OF assms(1)[unfolded Ready]]
  have le: "ws_scripts ws1 \<le> ws_scripts ws" by (rule ws_write_poll_scripts[OF assms(1)])
  show ?thesis
  proof (cases r)
    case (Inl e)
    then show ?thesis
      using assms(3) Ready st polls_to_mono[OF after_message_stands le] by (simp add: wrote_then_def)
  next
    case (Inr u)
    then show ?thesis using assms(4) Ready st polls_to_mono[OF _ le] by (simp add: wrote_then_def)
  qed
qed

lemma close_poll_stands: "polls_to C (ws_scripts ws) (close_poll C bs ws) (recv_rest C (Rv_Closing bs) ws)"
proof -
  obtain p rest ws1 where p: "ws_write_poll bs ws = (p, rest, ws1)" by (metis prod_cases3)
  show ?thesis
    unfolding recv_rest.simps
    by (rule write_poll_to[OF p, where ?s1.0 = "Rv_Closing rest"])
       (use p in \<open>auto simp: close_poll_def polls_to_def\<close>)
qed

text \<open>A read that finds nothing to decode.\<close>

lemma poll_raw_scripts: "poll_raw cap c = (p, c1) \<Longrightarrow> conn_scripts c1 \<le> conn_scripts c \<and> (p = Pending \<longrightarrow> conn_scripts c1 < conn_scripts c)"
  by (auto simp: poll_raw_def conn_scripts_def Let_def tr_poll_read.simps split: list.splits read_event.splits if_splits)

lemma read_ready:
  assumes "poll_raw ws_chunk (conn ws) = (Ready r, c)"
  shows "read_with_keepalive C ws = (case r of Inl e \<Rightarrow> Inl (from_http_error e) | Inr bs \<Rightarrow> Inr bs, heard ws c)"
  using assms poll_raw_stands(1)[OF assms]
  by (cases r; cases "keepalive ws") (simp_all add: read_with_keepalive.simps[of C ws] heard_def)

lemma read_pending_plain:
  assumes "poll_raw ws_chunk (conn ws) = (Pending, c)" "keepalive ws = None"
  shows "read_with_keepalive C (ws\<lparr>conn := c\<rparr>) = read_with_keepalive C ws"
  using assms poll_raw_stands(2)[OF assms(1)]
  by (simp add: read_with_keepalive.simps[of C ws] read_with_keepalive.simps[of C "ws\<lparr>conn := c\<rparr>"] split: prod.splits sum.splits)

lemma read_pending_keepalive:
  assumes "poll_raw ws_chunk (conn ws) = (Pending, c)" "keepalive ws \<noteq> None"
  shows "read_with_keepalive C ws =
    (if ping_outstanding ws then (Inl Ws_Timed_Out, ws\<lparr>conn := c\<rparr>)
     else case ws_send C (Msg_Ping []) (ws\<lparr>conn := c\<rparr>) of
         (Inl e, ws1) \<Rightarrow> (Inl e, ws1)
       | (Inr u, ws1) \<Rightarrow> read_with_keepalive C (ws1\<lparr>ping_outstanding := True\<rparr>))"
  using assms by (subst read_with_keepalive.simps) (auto split: option.splits)

definition after_read ::
  "'c codec_ops \<Rightarrow> opcode option \<Rightarrow> byte list \<Rightarrow> bool \<Rightarrow> (stream_error + byte list) \<times> 'c ws_stream \<Rightarrow>
   (stream_error + message option) \<times> 'c ws_stream" where
  "after_read C mo asm cmp rw =
     (case rw of
        (Inl e, ws1) \<Rightarrow> (Inl e, ws1)
      | (Inr bs, ws1) \<Rightarrow>
          if bs = [] then (if close_received ws1 then Inr None else Inl Ws_Connection_Closed, ws1)
          else recv_loop C mo asm cmp (ws1\<lparr>frame_buf := frame_buf ws1 @ bs\<rparr>))"

abbreviation undecoded :: "'c ws_stream \<Rightarrow> bool" where
  "undecoded ws \<equiv> decode (frame_buf ws) (ws_role ws) = (Inr None :: stream_error + _)"

lemma recv_loop_read: "undecoded ws \<Longrightarrow> recv_loop C mo asm cmp ws = after_read C mo asm cmp (read_with_keepalive C ws)"
  by (subst recv_loop_unfold) (simp add: after_read_def)

lemma recv_loop_frame:
  "decode (frame_buf ws) (ws_role ws) = (Inr (Some (f, n)) :: stream_error + _) \<Longrightarrow>
     recv_loop C mo asm cmp ws =
       run_step C (act_out C (frame_act C f mo asm cmp (ws\<lparr>frame_buf := drop n (frame_buf ws)\<rparr>)))"
  by (subst recv_loop_unfold) (simp add: frame_act_out)

lemma recv_loop_error:
  "decode (frame_buf ws) (ws_role ws) = (Inl e :: stream_error + _) \<Longrightarrow> recv_loop C mo asm cmp ws = (Inl e, ws)"
  by (subst recv_loop_unfold) simp

lemma heard_fields [simp]:
  "conn (heard ws c) = c" "frame_buf (heard ws c) = frame_buf ws" "ws_role (heard ws c) = ws_role ws"
  "close_received (heard ws c) = close_received ws"
  by (simp_all add: heard_def)

lemma wrote_same:
  assumes "ws_write bs ws = (r, ws1)"
  shows "frame_buf ws1 = frame_buf ws \<and> ws_role ws1 = ws_role ws"
  using assms by (auto simp: ws_write_def split: prod.splits sum.splits)

text \<open>A pending read: what the next poll will go on with.\<close>

lemma pending_stands:
  assumes "undecoded ws" "poll_raw ws_chunk (conn ws) = (Pending, c)"
  shows "recv_rest C (pause mo asm cmp ws) (ws\<lparr>conn := c\<rparr>) = reading_rest C mo asm cmp ws"
proof (cases "keepalive ws")
  case None
  have "recv_loop C mo asm cmp (ws\<lparr>conn := c\<rparr>) = recv_loop C mo asm cmp ws"
    using recv_loop_read[OF assms(1)] recv_loop_read[of "ws\<lparr>conn := c\<rparr>"] assms(1) read_pending_plain[OF assms(2) None] by simp
  then show ?thesis using None by (simp add: pause_def reading_rest_def)
next
  case (Some k)
  then have ka: "keepalive ws \<noteq> None" by simp
  let ?ws = "ws\<lparr>conn := c\<rparr>"
  note read = read_pending_keepalive[OF assms(2) ka, of C] and loop = recv_loop_read[OF assms(1), of C mo asm cmp]
  show ?thesis
  proof (cases "ping_outstanding ws")
    case True
    then show ?thesis using Some by (simp add: pause_def reading_rest_def loop read after_read_def)
  next
    case False
    obtain x ws1 where x: "send_bytes C (Msg_Ping []) ?ws = (x, ws1)" by fastforce
    show ?thesis
    proof (cases x)
      case (Inl e)
      then show ?thesis using Some False x by (simp add: pause_def reading_rest_def loop read after_read_def ws_send_bytes)
    next
      case (Inr bs)
      obtain y ws2 where y: "ws_write bs ws1 = (y, ws2)" by fastforce
      have "undecoded (ws2\<lparr>ping_outstanding := True\<rparr>)"
        using assms(1) wrote_same[OF y] send_bytes_same[OF x] by simp
      from recv_loop_read[OF this, of C mo asm cmp] show ?thesis
        using Some False x Inr y
        by (cases y) (simp_all add: pause_def reading_rest_def loop read after_read_def ws_send_bytes wrote_then_def)
    qed
  qed
qed

lemma recv_poll_stands: "polls_to C (ws_scripts ws) (recv_poll C s ws) (recv_rest C s ws)"
proof (induction C s ws rule: recv_poll.induct)
  case (1 C ws)
  then show ?case by (simp add: recv_poll.simps ws_recv_result reading_rest_def)
next
  case (2 C mo asm cmp ws)
  let ?dec = "decode (frame_buf ws) (ws_role ws) :: stream_error + _"
  note P = recv_poll.simps(2)[of C mo asm cmp ws]
  consider (err) e where "?dec = Inl e" | (frame) f n where "?dec = Inr (Some (f, n))" | (none) "?dec = Inr None"
    by (cases ?dec; cases "projr ?dec") (auto simp: split_paired_all)
  then show ?case
  proof cases
    case err
    then show ?thesis using after_message_stands[of C ws "Inl e"] by (simp add: P reading_rest_def recv_loop_error)
  next
    case none
    obtain p c where p: "poll_raw ws_chunk (conn ws) = (p, c)" by fastforce
    note le = poll_raw_scripts[OF p] and loop = recv_loop_read[OF none, of C mo asm cmp]
    show ?thesis
    proof (cases p)
      case Pending
      then show ?thesis using none p le pending_stands[OF none] by (simp add: P polls_to_def)
    next
      case (Ready r)
      note read = read_ready[OF p[unfolded Ready], of C]
      have am: "polls_to C (ws_scripts ws) (after_message C x (heard ws c)) (recv_result C (x, heard ws c))" for x
        using polls_to_mono[OF after_message_stands[of C "heard ws c" x]] le by simp
      show ?thesis
      proof (cases r)
        case (Inl e)
        then show ?thesis using none p Ready am by (simp add: P reading_rest_def loop read after_read_def)
      next
        case (Inr bs)
        show ?thesis
        proof (cases "bs = []")
          case True
          then show ?thesis using none p Ready Inr am by (simp add: P reading_rest_def loop read after_read_def)
        next
          case False
          let ?ws = "(heard ws c)\<lparr>frame_buf := frame_buf ws @ bs\<rparr>"
          have "polls_to C (ws_scripts ?ws) (recv_poll C (Rv_Reading mo asm cmp) ?ws) (recv_rest C (Rv_Reading mo asm cmp) ?ws)"
            using "2.IH"(1)[OF none refl p[symmetric] Ready Inr False] .
          then show ?thesis
            using none p Ready Inr False polls_to_mono[of C "ws_scripts ?ws"] le
            by (simp add: P reading_rest_def loop read after_read_def)
        qed
      qed
    qed
  next
    case frame
    let ?ws = "ws\<lparr>frame_buf := drop n (frame_buf ws)\<rparr>"
    note loop = recv_loop_frame[OF frame, of C mo asm cmp]
    have same: "ws_scripts (act_stream (frame_act C f mo asm cmp ?ws)) = ws_scripts ws"
      using frame_act_same[of ?ws C f mo asm cmp] by (simp add: same_reader_def)
    show ?thesis
    proof (cases "frame_act C f mo asm cmp ?ws")
      case (Fa_Return r ws1)
      then show ?thesis
        using frame after_message_stands[of C ws1 r] same by (simp add: P reading_rest_def loop)
    next
      case (Fa_Go_On mo1 asm1 cmp1 ws1)
      then show ?thesis
        using frame "2.IH"(2)[OF frame refl refl Fa_Go_On] same by (simp add: P reading_rest_def loop)
    next
      case (Fa_Pong q mo1 asm1 cmp1 ws1)
      obtain x ws2 where x: "send_bytes C (Msg_Pong q) ws1 = (x, ws2)" by fastforce
      have sc: "ws_scripts ws2 = ws_scripts ws" using send_bytes_size[OF x] same Fa_Pong by simp
      show ?thesis
      proof (cases x)
        case (Inl e)
        then show ?thesis
          using frame Fa_Pong x sc after_message_stands[of C ws2 "Inl e"] by (simp add: P reading_rest_def loop ws_send_bytes)
      next
        case (Inr bs)
        have "recv_rest C (Rv_Reading mo asm cmp) ws = recv_rest C (Rv_Ponging bs mo1 asm1 cmp1) ws2"
          using Fa_Pong x Inr
          by (cases "ws_write bs ws2"; cases "fst (ws_write bs ws2)")
             (simp_all add: reading_rest_def loop ws_send_bytes wrote_then_def)
        then show ?thesis
          using frame Fa_Pong x Inr sc "2.IH"(3)[OF frame refl refl Fa_Pong x[symmetric] Inr] by (simp add: P)
      qed
    next
      case (Fa_Close info ws1)
      obtain x ws2 where x: "send_bytes C (Msg_Close info) ws1 = (x, ws2)" by fastforce
      have sc: "ws_scripts ws2 = ws_scripts ws" using send_bytes_size[OF x] same Fa_Close by simp
      show ?thesis
      proof (cases x)
        case (Inl e)
        then show ?thesis
          using frame Fa_Close x sc after_message_stands[of C ws2 "Inl e"] by (simp add: P reading_rest_def loop ws_send_bytes)
      next
        case (Inr bs)
        have "recv_rest C (Rv_Reading mo asm cmp) ws = recv_rest C (Rv_Closing bs) ws2"
          using Fa_Close x Inr
          by (cases "ws_write bs ws2"; cases "fst (ws_write bs ws2)")
             (simp_all add: reading_rest_def loop ws_send_bytes wrote_then_def recv_result_def)
        then show ?thesis
          using frame Fa_Close x Inr sc close_poll_stands[of C ws2 bs] by (simp add: P)
      qed
    qed
  qed
next
  case (3 C mo asm cmp ws)
  obtain x ws1 where x: "send_bytes C (Msg_Ping []) ws = (x, ws1)" by fastforce
  have sc: "ws_scripts ws1 = ws_scripts ws" using send_bytes_size[OF x] by simp
  show ?case
  proof (cases "ping_outstanding ws")
    case True
    then show ?thesis using after_message_stands[of C ws "Inl Ws_Timed_Out"] by (simp add: recv_poll.simps)
  next
    case False
    then show ?thesis
      using "3.IH"[OF False x[symmetric]] x sc after_message_stands[of C ws1] by (cases x) (auto simp: recv_poll.simps)
  qed
next
  case (4 C bs mo asm cmp ws)
  obtain p rest ws1 where p: "ws_write_poll bs ws = (p, rest, ws1)" by (metis prod_cases3)
  show ?case
    unfolding recv_rest.simps
    by (rule write_poll_to[OF p, where ?s1.0 = "Rv_Pinging rest mo asm cmp"])
       (use p "4.IH"[OF p[symmetric]] in \<open>auto simp: recv_poll.simps\<close>)
next
  case (5 C bs mo asm cmp ws)
  obtain p rest ws1 where p: "ws_write_poll bs ws = (p, rest, ws1)" by (metis prod_cases3)
  show ?case
    unfolding recv_rest.simps
    by (rule write_poll_to[OF p, where ?s1.0 = "Rv_Ponging rest mo asm cmp"])
       (use p "5.IH"[OF p[symmetric]] in \<open>auto simp: recv_poll.simps\<close>)
next
  case (6 C bs ws)
  then show ?case using close_poll_stands by (simp add: recv_poll.simps)
next
  case (7 C reason bs ws)
  then show ?case using fail_poll_stands by (simp add: recv_poll.simps)
qed

interpretation ws_receive: polled_function "recv_poll C" "recv_rest C" ws_scripts for C :: "'c codec_ops"
proof
  fix s :: recv_run and s1 and ws ws1 :: "'c ws_stream" and r
  show "recv_poll C s ws = (Ready r, s1, ws1) \<Longrightarrow> recv_rest C s ws = (r, ws1)"
    using recv_poll_stands[of C ws s] by (simp add: polls_to_def)
  show "recv_poll C s ws = (Pending, s1, ws1) \<Longrightarrow>
      recv_rest C s1 ws1 = recv_rest C s ws \<and> ws_scripts ws1 < ws_scripts ws"
    using recv_poll_stands[of C ws s] by (simp add: polls_to_def)
qed

end
