(* ===== verification/Ws_Echo.thy ===== *)
theory Ws_Echo
  imports Ws_Properties
begin

text \<open>
  Whole sessions between two ends of a WebSocket: the echo loops of \<open>crates/tpt-net-ws/examples\<close>
  (\<open>echo.rs\<close> and \<open>autobahn-echo-client.rs\<close>) against a peer that sends messages, closes, and reads what
  comes back.
\<close>

section \<open>The loops\<close>

text \<open>\<open>while let Some(msg) = ws.recv().await.expect(..)\<close> with an \<open>expect\<close> on the send: \<open>None\<close> is a panic.\<close>

function echo_loop :: "'c codec_ops \<Rightarrow> 'c ws_stream \<Rightarrow> 'c ws_stream option" where
  "echo_loop C ws =
     (case ws_recv C ws of
        (Inl e, ws1) \<Rightarrow> None
      | (Inr None, ws1) \<Rightarrow> Some ws1
      | (Inr (Some m), ws1) \<Rightarrow>
          (case ws_send C m ws1 of
             (Inl e, ws2) \<Rightarrow> None
           | (Inr u, ws2) \<Rightarrow> echo_loop C ws2))"
  by pat_completeness auto

lemma echo_size:
  assumes "ws_recv C ws = (Inr (Some m), ws1)" "ws_send C m ws1 = (r, ws2)"
  shows "ws_size ws2 < ws_size ws"
  using ws_recv_size[OF assms(1)] ws_send_size[OF assms(2)] by (simp add: ws_size_def)

termination echo_loop
  by (relation "measure (\<lambda>(C, ws). ws_size ws)") (auto intro: echo_size[OF sym sym])

declare echo_loop.simps [simp del]

text \<open>One case of the test suite: no answer to an unsolicited pong, and an error ends the case.\<close>

function echo_case :: "'c codec_ops \<Rightarrow> 'c ws_stream \<Rightarrow> 'c ws_stream" where
  "echo_case C ws =
     (case ws_recv C ws of
        (Inl e, ws1) \<Rightarrow> ws1
      | (Inr None, ws1) \<Rightarrow> ws1
      | (Inr (Some (Msg_Pong p)), ws1) \<Rightarrow> echo_case C ws1
      | (Inr (Some m), ws1) \<Rightarrow>
          (case ws_send C m ws1 of
             (Inl e, ws2) \<Rightarrow> ws2
           | (Inr u, ws2) \<Rightarrow> echo_case C ws2))"
  by pat_completeness auto
termination
  by (relation "measure (\<lambda>(C, ws). ws_size ws)") (auto intro: echo_size[OF sym sym] ws_recv_size[OF sym])

declare echo_case.simps [simp del]

text \<open>The peer: sends one message after the other, and later reads until the session is over.\<close>

fun send_all :: "'c codec_ops \<Rightarrow> message list \<Rightarrow> 'c ws_stream \<Rightarrow> (stream_error + unit) \<times> 'c ws_stream" where
  "send_all C [] ws = (Inr (), ws)"
| "send_all C (m # ms) ws =
     (case ws_send C m ws of
        (Inl e, ws1) \<Rightarrow> (Inl e, ws1)
      | (Inr u, ws1) \<Rightarrow> send_all C ms ws1)"

function recv_all :: "'c codec_ops \<Rightarrow> message list \<Rightarrow> 'c ws_stream \<Rightarrow> (stream_error + message list) \<times> 'c ws_stream" where
  "recv_all C got ws =
     (case ws_recv C ws of
        (Inl e, ws1) \<Rightarrow> (Inl e, ws1)
      | (Inr None, ws1) \<Rightarrow> (Inr got, ws1)
      | (Inr (Some m), ws1) \<Rightarrow> recv_all C (got @ [m]) ws1)"
  by pat_completeness auto
termination
  by (relation "measure (\<lambda>(C, got, ws). ws_size ws)") (auto intro: ws_recv_size[OF sym])

declare recv_all.simps [simp del]

section \<open>Data messages\<close>

text \<open>What \<open>recv\<close> accepts of a peer: a text is UTF-8, and nothing is longer than the limit.\<close>

fun data_frame :: "message \<Rightarrow> frame" where
  "data_frame (Msg_Text b) = plain_frame Op_Text b"
| "data_frame (Msg_Binary b) = plain_frame Op_Binary b"
| "data_frame m = plain_frame Op_Ping []"

definition data_message :: "message \<Rightarrow> bool" where
  "data_message m \<longleftrightarrow>
     (\<exists>b. (m = Msg_Text b \<and> utf8_valid b \<or> m = Msg_Binary b) \<and> length b \<le> max_payload)"

text \<open>A stream before any close, without keepalive and compression, over a transport that takes what it is given.\<close>

definition ready_end :: "'c ws_stream \<Rightarrow> bool" where
  "ready_end ws \<longleftrightarrow> writable (conn ws) \<and> keepalive ws = None \<and> deflate ws = None \<and>
     (\<forall>i. length (mask_source ws i) = 4)"

lemma ready_key: "ready_end ws \<Longrightarrow> r \<noteq> ws_role ws \<Longrightarrow> mask_for r (key_for ws i)"
  by (cases r; cases "ws_role ws") (simp_all add: ready_end_def mask_for_def key_for_def)

lemma data_frame_wf: "data_message m \<Longrightarrow> wf_frame (data_frame m)"
  by (auto simp: data_message_def plain_frame_def wf_frame_def)

lemma handle_data:
  "data_message m \<Longrightarrow> handle_frame C (data_frame m) None [] False ws = Finish (Inr (Some m)) ws"
  by (auto simp: data_message_def handle_frame_def plain_frame_def finish_data_def final_message_def check_size_def)

lemma data_frame_parts:
  assumes "data_message m"
  obtains opc p where "message_parts m = Inr (opc, p)" "data_frame m = plain_frame opc p" "opc \<noteq> Op_Close"
  using assms by (auto simp: data_message_def)

lemma recv_data:
  assumes "keepalive ws = None" "ws_bytes ws = encode (data_frame m) k [] @ rest"
    and "data_message m" "mask_for (ws_role ws) k"
  obtains ws1 where "ws_recv C ws = (Inr (Some m), ws1)" "only_read ws ws1" "ws_bytes ws1 = rest"
proof -
  obtain ws1 where ws1: "only_read ws ws1" "ws_bytes ws1 = rest"
      "recv_loop C None [] False ws = run_step C (handle_frame C (data_frame m) None [] False ws1)"
    using recv_next_frame[OF assms(1,2) data_frame_wf[OF assms(3)] assms(4)] by blast
  then have "ws_recv C ws = (Inr (Some m), ws1)"
    by (simp add: handle_data[OF assms(3)] ws_recv_def recv_message_def)
  then show ?thesis using that ws1(1,2) by blast
qed

lemma send_data:
  assumes "writable (conn ws)" "deflate ws = None" "data_message m"
  shows "ws_send C m ws = (Inr (), wrote (encode (data_frame m) (key_for ws (masks_used ws)) []) 1 ws)"
proof -
  obtain opc p where p: "message_parts m = Inr (opc, p)" "data_frame m = plain_frame opc p" "opc \<noteq> Op_Close"
    using data_frame_parts[OF assms(3)] by blast
  show ?thesis using ws_send_writable[OF assms(1) p(1), of C] assms(2) p(2,3) by simp
qed

section \<open>Sessions\<close>

text \<open>The frames of messages with the keys that a stream uses from the \<open>i\<close>-th mask on.\<close>

fun keyed :: "'c ws_stream \<Rightarrow> nat \<Rightarrow> message list \<Rightarrow> (frame \<times> byte list option) list" where
  "keyed ws i [] = []"
| "keyed ws i (m # ms) = (data_frame m, key_for ws i) # keyed ws (if ws_role ws = Client then i + 1 else i) ms"

lemma keyed_cong:
  "ws_role ws1 = ws_role ws \<Longrightarrow> mask_source ws1 = mask_source ws \<Longrightarrow> keyed ws1 i ms = keyed ws i ms"
  by (induction ms arbitrary: i) (simp_all add: key_for_def)

lemma keyed_keys: "(f, k) \<in> set (keyed ws i ms) \<Longrightarrow> \<exists>j. k = key_for ws j"
  by (induction ms arbitrary: i) (auto split: if_splits)

lemma keyed_masks:
  assumes "ready_end ws" "r \<noteq> ws_role ws"
  shows "\<forall>fk \<in> set (keyed ws i ms). mask_for r (snd fk)" "mask_for r (key_for ws i)"
  using keyed_keys ready_key[OF assms] by fastforce+

lemma keyed_frames: "map fst (keyed ws i ms) = map data_frame ms"
  by (induction ms arbitrary: i) auto

lemma wire_Cons: "wire ((f, k) # efs) = encode f k [] @ wire efs"
  by (simp add: wire_def)

lemma send_close_ok:
  assumes "writable (conn ws)" "length (close_payload info) \<le> 125"
  shows "ws_send C (Msg_Close info) ws = (Inr (),
    wrote (encode (plain_frame Op_Close (close_payload info)) (key_for ws (masks_used ws)) []) 1 (ws\<lparr>close_sent := True\<rparr>))"
  by (rule send_close_writable[OF assms])

lemma send_session:
  assumes "ready_end ws" "\<forall>m \<in> set ms. data_message m" "length (close_payload info) \<le> 125"
  shows "\<exists>ws1 j. send_all C (ms @ [Msg_Close info]) ws = (Inr (), ws1) \<and>
    outgoing (io (conn ws1)) = outgoing (io (conn ws)) @ wire (keyed ws (masks_used ws) ms) @
      encode (plain_frame Op_Close (close_payload info)) (key_for ws j) [] \<and>
    ready_end ws1 \<and> ws_role ws1 = ws_role ws \<and> close_sent ws1 \<and> frame_buf ws1 = frame_buf ws \<and>
    conn_buf (conn ws1) = conn_buf (conn ws)"
  using assms
proof (induction ms arbitrary: ws)
  case Nil
  have "writable (conn ws)" using Nil.prems(1) by (simp add: ready_end_def)
  note snd = send_close_ok[OF this Nil.prems(3), of C]
  have "ready_end (wrote bs 1 (ws\<lparr>close_sent := True\<rparr>))" for bs
    using Nil.prems(1) by (simp add: ready_end_def)
  then show ?case
    using snd by (intro exI[of _ "snd (ws_send C (Msg_Close info) ws)"] exI[of _ "masks_used ws"]) (simp add: wire_def wrote_def)
next
  case (Cons m ms)
  let ?e = "encode (data_frame m) (key_for ws (masks_used ws)) []"
  have r: "writable (conn ws)" "deflate ws = None" using Cons.prems(1) by (simp_all add: ready_end_def)
  note snd = send_data[OF r, of m C]
  have rd: "ready_end (wrote ?e 1 ws)" using Cons.prems(1) by (simp add: ready_end_def)
  obtain ws1 j where ws1: "send_all C (ms @ [Msg_Close info]) (wrote ?e 1 ws) = (Inr (), ws1)"
      "outgoing (io (conn ws1)) = outgoing (io (conn (wrote ?e 1 ws))) @
         wire (keyed (wrote ?e 1 ws) (masks_used (wrote ?e 1 ws)) ms) @
         encode (plain_frame Op_Close (close_payload info)) (key_for (wrote ?e 1 ws) j) []"
      "ready_end ws1" "ws_role ws1 = ws_role ws" "close_sent ws1" "frame_buf ws1 = frame_buf ws"
      "conn_buf (conn ws1) = conn_buf (conn (wrote ?e 1 ws))"
    using Cons.IH[OF rd] Cons.prems(2,3) by auto
  have k: "keyed (wrote ?e 1 ws) i ms = keyed ws i ms" for i by (rule keyed_cong) simp_all
  have c: "key_for (wrote ?e 1 ws) j = key_for ws j" by (simp add: key_for_def)
  have b: "conn_buf (conn (wrote ?e 1 ws)) = conn_buf (conn ws)" by (simp add: wrote_def)
  show ?case
    using snd Cons.prems(2) ws1(1,3-6) ws1(2)[unfolded k c] ws1(7)[unfolded b]
    by (intro exI[of _ ws1] exI[of _ j]) (simp add: wire_Cons)
qed

text \<open>The echo of a session, by either loop: every message with the end's own keys, and the close.\<close>

lemma echo_session_loops:
  assumes "ready_end ws" "\<not> close_sent ws" "\<forall>m \<in> set ms. data_message m"
    and "ws_bytes ws = wire efs @ encode (plain_frame Op_Close p) k [] @ rest" "map fst efs = map data_frame ms"
    and "\<forall>fk \<in> set efs. mask_for (ws_role ws) (snd fk)" "mask_for (ws_role ws) k"
    and "length p \<le> 125" "close_accepted p"
  shows "\<exists>ws1 j. echo_loop C ws = Some ws1 \<and> echo_case C ws = ws1 \<and> is_closed ws1 \<and> ws_bytes ws1 = rest \<and>
    outgoing (io (conn ws1)) = outgoing (io (conn ws)) @ wire (keyed ws (masks_used ws) ms) @
      encode (plain_frame Op_Close p) (key_for ws j) []"
  using assms
proof (induction ms arbitrary: ws efs)
  case Nil
  have r: "keepalive ws = None" "writable (conn ws)" using Nil.prems(1) by (simp_all add: ready_end_def)
  have w: "ws_bytes ws = encode (plain_frame Op_Close p) k [] @ rest" using Nil.prems(4,5) by (simp add: wire_def)
  obtain ws1 where "ws_recv C ws = (Inr None, ws1)" "is_closed ws1" "ws_bytes ws1 = rest"
      "outgoing (io (conn ws1)) = outgoing (io (conn ws)) @ encode (plain_frame Op_Close p) (key_for ws (masks_used ws)) []"
    using recv_close_accepted[OF r w Nil.prems(8,7,9), of C] Nil.prems(2) by auto
  then show ?case
    by (intro exI[of _ ws1] exI[of _ "masks_used ws"]) (simp add: echo_loop.simps echo_case.simps wire_def)
next
  case (Cons m ms)
  obtain k1 efs1 where efs: "efs = (data_frame m, k1) # efs1" "map fst efs1 = map data_frame ms"
    using Cons.prems(5) by (cases efs) auto
  have r: "writable (conn ws)" "keepalive ws = None" using Cons.prems(1) by (simp_all add: ready_end_def)
  have m: "data_message m" using Cons.prems(3) by simp
  have w: "ws_bytes ws = encode (data_frame m) k1 [] @ (wire efs1 @ encode (plain_frame Op_Close p) k [] @ rest)"
    using Cons.prems(4) by (simp add: efs(1) wire_Cons)
  have mk: "mask_for (ws_role ws) k1" using Cons.prems(6) by (simp add: efs(1))
  obtain ws1 where ws1: "ws_recv C ws = (Inr (Some m), ws1)" "only_read ws ws1"
      "ws_bytes ws1 = wire efs1 @ encode (plain_frame Op_Close p) k [] @ rest"
    using recv_data[OF r(2) w m mk] by blast
  note same = only_read_fields[OF ws1(2)]
  let ?e = "encode (data_frame m) (key_for ws (masks_used ws)) []" and ?ws2 = "wrote (encode (data_frame m) (key_for ws (masks_used ws)) []) 1 ws1"
  have snd: "ws_send C m ws1 = (Inr (), ?ws2)"
    using send_data[of ws1 m C] r(1) m same Cons.prems(1) by (simp add: ready_end_def key_for_def)
  have rd: "ready_end ?ws2" using Cons.prems(1) same by (simp add: ready_end_def)
  have kd: "keyed ?ws2 i ms = keyed ws i ms" for i using same by (intro keyed_cong) simp_all
  have kf: "key_for ?ws2 j = key_for ws j" for j using same by (simp add: key_for_def)
  obtain ws3 j where ws3: "echo_loop C ?ws2 = Some ws3" "echo_case C ?ws2 = ws3" "is_closed ws3" "ws_bytes ws3 = rest"
      "outgoing (io (conn ws3)) = outgoing (io (conn ?ws2)) @ wire (keyed ?ws2 (masks_used ?ws2) ms) @
        encode (plain_frame Op_Close p) (key_for ?ws2 j) []"
    using Cons.IH[OF rd, of efs1] Cons.prems(2,3,6-9) ws1(3) same efs by auto
  have "echo_loop C ws = echo_loop C ?ws2" "echo_case C ws = echo_case C ?ws2"
    using ws1(1) snd m
    by (auto simp: echo_loop.simps[of C ws] echo_case.simps[of C ws] data_message_def)
  then show ?case
    using ws3(1-4) ws3(5)[unfolded kd kf] same by (intro exI[of _ ws3] exI[of _ j]) (simp add: wire_Cons)
qed

lemma recv_session:
  assumes "keepalive ws = None" "writable (conn ws)" "close_sent ws" "\<forall>m \<in> set ms. data_message m"
    and "ws_bytes ws = wire efs @ encode (plain_frame Op_Close p) k [] @ rest" "map fst efs = map data_frame ms"
    and "\<forall>fk \<in> set efs. mask_for (ws_role ws) (snd fk)" "mask_for (ws_role ws) k"
    and "length p \<le> 125" "close_accepted p"
  shows "\<exists>ws1. recv_all C got ws = (Inr (got @ ms), ws1) \<and> is_closed ws1 \<and> ws_bytes ws1 = rest"
  using assms
proof (induction ms arbitrary: ws efs got)
  case Nil
  have w: "ws_bytes ws = encode (plain_frame Op_Close p) k [] @ rest" using Nil.prems(5,6) by (simp add: wire_def)
  obtain ws1 where "ws_recv C ws = (Inr None, ws1)" "is_closed ws1" "ws_bytes ws1 = rest"
    using recv_close_accepted[OF Nil.prems(1,2) w Nil.prems(9,8,10), of C] by auto
  then show ?case by (simp add: recv_all.simps)
next
  case (Cons m ms)
  obtain k1 efs1 where efs: "efs = (data_frame m, k1) # efs1" "map fst efs1 = map data_frame ms"
    using Cons.prems(6) by (cases efs) auto
  have w: "ws_bytes ws = encode (data_frame m) k1 [] @ (wire efs1 @ encode (plain_frame Op_Close p) k [] @ rest)"
    using Cons.prems(5) by (simp add: efs(1) wire_Cons)
  have m: "data_message m" "mask_for (ws_role ws) k1"
    using Cons.prems(4) Cons.prems(7) by (simp_all add: efs(1))
  obtain ws1 where ws1: "ws_recv C ws = (Inr (Some m), ws1)" "only_read ws ws1"
      "ws_bytes ws1 = wire efs1 @ encode (plain_frame Op_Close p) k [] @ rest"
    using recv_data[OF Cons.prems(1) w m] by blast
  note same = only_read_fields[OF ws1(2)]
  have "recv_all C got ws = recv_all C (got @ [m]) ws1" using ws1(1) by (subst recv_all.simps) simp
  moreover have "\<exists>ws2. recv_all C (got @ [m]) ws1 = (Inr ((got @ [m]) @ ms), ws2) \<and> is_closed ws2 \<and> ws_bytes ws2 = rest"
    by (rule Cons.IH[OF _ _ _ _ ws1(3) efs(2)]) (use Cons.prems same efs(1) in auto)
  ultimately show ?case by simp
qed

text \<open>The bytes that an end has handed to its transport between two states.\<close>

definition new_bytes :: "'c ws_stream \<Rightarrow> 'c ws_stream \<Rightarrow> byte list" where
  "new_bytes ws ws1 = drop (length (outgoing (io (conn ws)))) (outgoing (io (conn ws1)))"

text \<open>A stream whose transport will read by a script.\<close>

definition arriving :: "read_event list \<Rightarrow> 'c ws_stream \<Rightarrow> 'c ws_stream" where
  "arriving script ws = ws\<lparr>conn := (conn ws)\<lparr>io := (io (conn ws))\<lparr>incoming := script\<rparr>\<rparr>\<rparr>"

lemma arriving_fields [simp]:
  "ws_role (arriving script ws) = ws_role ws" "keepalive (arriving script ws) = keepalive ws"
  "deflate (arriving script ws) = deflate ws" "close_sent (arriving script ws) = close_sent ws"
  "mask_source (arriving script ws) = mask_source ws" "masks_used (arriving script ws) = masks_used ws"
  "outgoing (io (conn (arriving script ws))) = outgoing (io (conn ws))"
  "writable (conn (arriving script ws)) = writable (conn ws)"
  "ws_bytes (arriving script ws) = frame_buf ws @ conn_buf (conn ws) @ pending_bytes script"
  by (simp_all add: arriving_def writable_def ws_bytes_def conn_bytes_def)

lemma arriving_ready: "ready_end (arriving script ws) = ready_end ws"
  by (simp add: ready_end_def)

section \<open>Property\<close>

text \<open>
  C10: A whole echo session.  One end sends any data messages and then a close; the other echoes, by the
  loop of either example, whatever the pieces and pauses in which the transport hands it the bytes; the
  first end then reads, again in any pieces, exactly its messages in order and then the end of the
  session.  Neither loop panics or fails, both ends finish closed, and no byte is left over.
\<close>
theorem echo_session:
  assumes "ready_end a" "ready_end b" "ws_role b \<noteq> ws_role a" "\<not> close_sent b"
    and "frame_buf a = []" "conn_buf (conn a) = []" "frame_buf b = []" "conn_buf (conn b) = []"
    and "\<forall>m \<in> set ms. data_message m" "close_accepted (close_payload info)" "length (close_payload info) \<le> 125"
    and "send_all C (ms @ [Msg_Close info]) a = (r, a1)" "pending_bytes there = new_bytes a a1"
  shows "r = Inr () \<and> (\<exists>b1. echo_loop C (arriving there b) = Some b1 \<and> echo_case C (arriving there b) = b1 \<and>
    is_closed b1 \<and>
    (\<forall>home. pending_bytes home = new_bytes b b1 \<longrightarrow>
      (\<exists>a2. recv_all C [] (arriving home a1) = (Inr ms, a2) \<and> is_closed a2 \<and> ws_bytes a2 = [])))"
proof -
  let ?p = "close_payload info" and ?b = "arriving there b"
  obtain j where a1: "r = Inr ()" "ready_end a1" "ws_role a1 = ws_role a" "close_sent a1" "frame_buf a1 = []"
      "conn_buf (conn a1) = []"
      "new_bytes a a1 = wire (keyed a (masks_used a) ms) @ encode (plain_frame Op_Close ?p) (key_for a j) []"
    using send_session[OF assms(1,9,11), of C] assms(5,6,12) by (auto simp: new_bytes_def)
  have rb: "ready_end ?b" and nc: "\<not> close_sent ?b" using assms(2,4) by (simp_all add: arriving_ready)
  have br: "ws_role ?b \<noteq> ws_role a" using assms(3) by simp
  note ma = keyed_masks[OF assms(1) br]
  have w: "ws_bytes ?b = wire (keyed a (masks_used a) ms) @ encode (plain_frame Op_Close ?p) (key_for a j) [] @ []"
    using assms(7,8,13) a1(7) by simp
  obtain b1 j1 where b1: "echo_loop C ?b = Some b1" "echo_case C ?b = b1" "is_closed b1" "ws_bytes b1 = []"
      "outgoing (io (conn b1)) = outgoing (io (conn ?b)) @ wire (keyed ?b (masks_used ?b) ms) @
         encode (plain_frame Op_Close ?p) (key_for ?b j1) []"
    using echo_session_loops[where C = C, OF rb nc assms(9) w keyed_frames ma(1,2) assms(11,10)] by blast
  have nb: "new_bytes b b1 = wire (keyed ?b (masks_used ?b) ms) @ encode (plain_frame Op_Close ?p) (key_for ?b j1) []"
    using b1(5) by (simp add: new_bytes_def)
  have "\<exists>a2. recv_all C [] (arriving home a1) = (Inr ms, a2) \<and> is_closed a2 \<and> ws_bytes a2 = []"
    if arr: "pending_bytes home = new_bytes b b1" for home
  proof -
    let ?a1 = "arriving home a1"
    have wa: "ws_bytes ?a1 = wire (keyed ?b (masks_used ?b) ms) @
        encode (plain_frame Op_Close ?p) (key_for ?b j1) [] @ []"
      using arr nb a1(5,6) by simp
    have "ws_role ?a1 \<noteq> ws_role ?b" using assms(3) a1(3) by auto
    note mb = keyed_masks[OF rb this]
    have "keepalive ?a1 = None" "writable (conn ?a1)" "close_sent ?a1" using a1(2,4) by (simp_all add: ready_end_def)
    from recv_session[where C = C and got = "[]", OF this assms(9) wa keyed_frames mb(1,2) assms(11,10)]
    show ?thesis by simp
  qed
  then show ?thesis using a1(1) b1(1-3) by blast
qed

theorem echo_session_witness:
  "\<exists>a1 b1 a2. send_all no_codec [Msg_Text [72, 105], Msg_Binary [7], Msg_Close None] (demo_stream Client []) = (Inr (), a1) \<and>
     echo_loop no_codec (arriving [Idle, Chunk (new_bytes (demo_stream Client []) a1)] (demo_stream Server [])) = Some b1 \<and>
     recv_all no_codec [] (arriving [Chunk (new_bytes (demo_stream Server []) b1)] a1) =
       (Inr [Msg_Text [72, 105], Msg_Binary [7]], a2)"
proof -
  let ?a = "demo_stream Client []" and ?b = "demo_stream Server []"
  let ?ms = "[Msg_Text [72, 105], Msg_Binary [7]]"
  obtain r a1 where a1: "send_all no_codec (?ms @ [Msg_Close None]) ?a = (r, a1)" by fastforce
  have ready: "ready_end ?a" "ready_end ?b"
    by (simp_all add: ready_end_def demo_stream_def from_conn_def demo_key_def conn_new_def demo_transport_def writable_def)
  have bufs: "frame_buf ?a = []" "conn_buf (conn ?a) = []" "frame_buf ?b = []" "conn_buf (conn ?b) = []"
    by (simp_all add: demo_stream_def from_conn_def conn_new_def)
  have ms: "\<forall>m \<in> set ?ms. data_message m"
    by (simp add: data_message_def max_payload_def utf8_valid.simps)
  have ne: "pending_bytes [Chunk bs] = bs" "pending_bytes [Idle, Chunk bs] = bs" for bs by simp_all
  have cl: "close_accepted (close_payload None)" "length (close_payload None) \<le> 125"
    by (simp_all add: close_accepted_def close_payload_def)
  from echo_session[OF ready _ _ bufs ms cl a1 ne(2)] show ?thesis
    using a1 ne(1) by fastforce
qed

end
