(* ===== verification/Ws_Cancel.thy ===== *)
theory Ws_Cancel
  imports Ws_Polls Ws_Echo
begin

text \<open>
  WebSocket calls that are dropped while they are pending, as \<open>timeout\<close> or a \<open>select\<close> drops them.  A
  \<open>recv\<close> that waits between two messages can be dropped; inside a message in fragments it takes them
  along; and a call that is writing leaves the frame cut off, in \<open>recv\<close> as in \<open>send\<close>.
\<close>

section \<open>Awaiting\<close>

text \<open>
  Awaiting the state machines of \<open>send\<close> and of \<open>recv\<close>, polled until they are ready, is what the runs
  of the other theories say, whatever the stalls of the transport, the keepalive and the compression.
\<close>

theorem ws_polls_are_runs:
  "await_future (send_poll C m) Sd_Start ws = Some (ws_send C m ws) \<and>
   await_future (recv_poll C) Rv_Start ws = Some (ws_recv C ws)"
  using ws_send.await[of C m Sd_Start ws] ws_receive.await[of C Rv_Start ws] by simp

section \<open>Dropped sends\<close>

text \<open>What a pending send has done.\<close>

lemma pending_send:
  assumes "send_poll C m Sd_Start ws = (Pending, s1, ws1)"
  shows "\<exists>bs ws0 sent rest c. send_bytes C m ws = (Inr bs, ws0) \<and> s1 = Sd_Writing rest \<and> bs = sent @ rest \<and>
    ws1 = ws0\<lparr>conn := c\<rparr> \<and> outgoing (io c) = outgoing (io (conn ws)) @ sent"
proof -
  obtain x ws0 where x: "send_bytes C m ws = (x, ws0)" by fastforce
  then obtain bs where bs: "x = Inr bs" "send_writing bs ws0 = (Pending, s1, ws1)"
    using assms by (cases x) simp_all
  then obtain p rest where w: "ws_write_poll bs ws0 = (p, rest, ws1)" "s1 = Sd_Writing rest"
    by (auto simp: send_writing_def split: prod.splits)
  show ?thesis using ws_write_poll_sent[OF w(1)] send_bytes_same[OF x] x bs(1) w(2) by auto
qed

definition binary_frame :: "byte list \<Rightarrow> frame" where
  "binary_frame p = plain_frame Op_Binary p"

definition unmasked :: "byte list \<Rightarrow> byte list" where
  "unmasked p = encode (binary_frame p) None []"

lemma unmasked_head: "length p = length q \<Longrightarrow> \<exists>h. unmasked p = h @ p \<and> unmasked q = h @ q"
  by (simp add: unmasked_def binary_frame_def encode_def plain_frame_def first_byte_def)

lemma send_binary_bytes:
  "ws_role ws = Server \<Longrightarrow> deflate ws = None \<Longrightarrow> send_bytes C (Msg_Binary p) ws = (Inr (unmasked p), ws)"
  by (simp add: send_bytes_def frame_bytes_def unmasked_def binary_frame_def plain_frame_def)

text \<open>A cut frame is filled up with the bytes that come next.\<close>

lemma cut_frame:
  assumes "unmasked p = sent @ rest" "length rest \<le> length p" "length rest \<le> length extra"
  shows "sent @ extra =
    unmasked (take (length p - length rest) p @ take (length rest) extra) @ drop (length rest) extra"
proof -
  let ?mix = "take (length p - length rest) p @ take (length rest) extra"
  have "length ?mix = length p" using assms(2,3) by simp
  then obtain h where h: "unmasked p = h @ p" "unmasked ?mix = h @ ?mix" using unmasked_head[of p ?mix] by metis
  have "sent = take (length (h @ p) - length rest) (h @ p)" using assms(1) h(1) by simp
  also have "\<dots> = h @ take (length p - length rest) p" using assms(2) by simp
  finally show ?thesis using h(2) by simp
qed

text \<open>
  C22: A \<open>send\<close> that is dropped in the middle of its frame spoils the connection.  When a server has sent part
  of a binary message, and the call is dropped while the transport is busy and another message is sent later,
  the client takes the bytes of the second frame for the missing ones of the first: it receives, as a
  complete and valid message, one that nobody has sent.
\<close>

theorem dropped_send_garbles:
  assumes "ws_role ws = Server" "deflate ws = None" "length p \<le> max_payload" "outgoing (io (conn ws)) = []"
    and "send_poll C (Msg_Binary p) Sd_Start ws = (Pending, Sd_Writing rest, ws1)" "length rest \<le> length p"
    and "ws_send C (Msg_Binary q) ws1 = (Inr (), ws2)" "length rest \<le> length (unmasked q)"
    and "ws_role peer = Client" "keepalive peer = None" "ws_bytes peer = outgoing (io (conn ws2))"
  shows "\<exists>peer1. ws_recv C peer =
    (Inr (Some (Msg_Binary (take (length p - length rest) p @ take (length rest) (unmasked q)))), peer1)"
proof -
  let ?mix = "take (length p - length rest) p @ take (length rest) (unmasked q)"
  obtain sent c where s: "unmasked p = sent @ rest" "ws1 = ws\<lparr>conn := c\<rparr>" "outgoing (io c) = sent"
    using pending_send[OF assms(5)] send_binary_bytes[OF assms(1,2), of C p] assms(4) by auto
  have "send_bytes C (Msg_Binary q) ws1 = (Inr (unmasked q), ws1)"
    using assms(1,2) s(2) by (intro send_binary_bytes) simp_all
  then have w: "ws_write (unmasked q) ws1 = (Inr (), ws2)" using assms(7) by (simp add: ws_send_bytes)
  obtain r c2 where c2: "write_raw (unmasked q) (conn ws1) = (r, c2)" by fastforce
  then have c2': "r = Inr ()" "conn ws2 = c2" using w by (auto simp: ws_write_def split: sum.splits)
  obtain s2 r2 where "unmasked q = s2 @ r2" "outgoing (io c2) = outgoing (io (conn ws1)) @ s2" "r = Inr () \<longrightarrow> r2 = []"
    using write_raw_frame[OF c2] by blast
  then have out: "outgoing (io (conn ws2)) = sent @ unmasked q" using c2' s(2,3) by simp
  have bytes: "ws_bytes peer = encode (data_frame (Msg_Binary ?mix)) None [] @ drop (length rest) (unmasked q)"
    unfolding assms(11) out cut_frame[OF s(1) assms(6,8)] by (simp only: unmasked_def binary_frame_def data_frame.simps)
  have "data_message (Msg_Binary ?mix)" using assms(3,6,8) by (simp add: data_message_def)
  moreover have "mask_for (ws_role peer) None" using assms(9) by (simp add: mask_for_def)
  ultimately show ?thesis using recv_data[OF assms(10) bytes] by blast
qed

text \<open>A server on a transport that takes four bytes and is then busy.\<close>

definition stuck_server :: "unit ws_stream" where
  "stuck_server = from_conn (conn_new \<lparr>incoming = [], accepting = [Accept 4, Busy], outgoing = [], flush_error = None\<rparr>)
     Server (\<lambda>_. [])"

theorem dropped_send_garbles_witness:
  "\<exists>ws1 ws2 peer1. send_poll no_codec (Msg_Binary [1, 2, 3]) Sd_Start stuck_server = (Pending, Sd_Writing [3], ws1) \<and>
     ws_send no_codec (Msg_Binary [7]) ws1 = (Inr (), ws2) \<and>
     ws_recv no_codec (demo_stream Client [outgoing (io (conn ws2))]) = (Inr (Some (Msg_Binary [1, 2, 0x82])), peer1)"
proof -
  let ?t = "\<lambda>acc out. \<lparr>incoming = [], accepting = acc, outgoing = out, flush_error = None\<rparr>"
  let ?ws1 = "stuck_server\<lparr>conn := (conn stuck_server)\<lparr>io := ?t [] [0x82, 3, 1, 2]\<rparr>\<rparr>"
  have role: "ws_role stuck_server = Server" "deflate stuck_server = None" "outgoing (io (conn stuck_server)) = []"
    by (simp_all add: stuck_server_def from_conn_def conn_new_def)
  have enc: "unmasked [1, 2, 3] = [0x82, 3, 1, 2, 3]" "unmasked [7] = [0x82, 1, 7]"
    by (simp_all add: unmasked_def binary_frame_def plain_frame_def encode_def first_byte_def length_bytes_def)
  have p: "send_poll no_codec (Msg_Binary [1, 2, 3]) Sd_Start stuck_server = (Pending, Sd_Writing [3], ?ws1)"
    using send_binary_bytes[OF role(1,2), of no_codec "[1, 2, 3]"] enc
    by (simp add: send_writing_def ws_write_poll_def write_poll_def write_all_poll.simps tr_poll_write.simps stuck_server_def
        from_conn_def conn_new_def)
  have wr: "writable (conn ?ws1)" "deflate ?ws1 = None"
    using role by (simp_all add: writable_def)
  obtain ws2 where q: "ws_send no_codec (Msg_Binary [7]) ?ws1 = (Inr (), ws2)"
      "outgoing (io (conn ws2)) = [0x82, 3, 1, 2, 0x82, 1, 7]"
    using ws_send_writable[OF wr(1), of "Msg_Binary [7]" Op_Binary "[7]" no_codec] wr(2) role enc
    by (simp add: key_for_def unmasked_def binary_frame_def)
  let ?peer = "demo_stream Client [outgoing (io (conn ws2))]"
  have "ws_bytes ?peer = outgoing (io (conn ws2))" using demo_stream_bytes[of "[outgoing (io (conn ws2))]"] q(2) by simp
  from dropped_send_garbles[OF role(1,2) _ role(3) p _ q(1) _ _ _ this] enc
  obtain peer1 where "ws_recv no_codec ?peer = (Inr (Some (Msg_Binary [1, 2, 0x82])), peer1)"
    by (auto simp: max_payload_def)
  then show ?thesis using p q(1) by blast
qed

section \<open>Dropped receives\<close>

text \<open>Nothing is lost where no fragment has been assembled.\<close>

theorem dropped_recv_resumes:
  "recv_poll C Rv_Start ws = (Pending, Rv_Reading None [] False, ws1) \<Longrightarrow> ws_recv C ws1 = ws_recv C ws"
  using ws_receive.pending[of C Rv_Start ws "Rv_Reading None [] False" ws1] by (simp add: ws_recv_result reading_rest_def)

lemma handle_continuation:
  "opcode f = Op_Continuation \<Longrightarrow> \<not> rsv1 f \<Longrightarrow>
     handle_frame C f None [] False ws = Finish (Inl (Ws_Protocol ''continuation without initial frame'')) ws"
  "opcode f = Op_Continuation \<Longrightarrow> \<not> rsv1 f \<Longrightarrow> fin f \<Longrightarrow> length (asm @ payload f) \<le> max_payload \<Longrightarrow>
     handle_frame C f (Some Op_Binary) asm False ws = Finish (Inr (Some (Msg_Binary (asm @ payload f)))) ws"
  by (simp_all add: handle_frame_def check_size_def finish_data_def final_message_def)

text \<open>
  A \<open>recv\<close> that is dropped while it waits for the rest of a message in fragments takes the fragments
  along: not dropped, it would have delivered the message; after the drop the next \<open>recv\<close> finds a
  continuation without a beginning and fails the connection, though the peer has done nothing wrong.
\<close>

theorem dropped_recv_loses_fragments:
  assumes "recv_poll C Rv_Start ws = (Pending, Rv_Reading (Some Op_Binary) asm False, ws1)" "keepalive ws1 = None"
    and "ws_bytes ws1 = encode f k [] @ rest" "wf_frame f" "mask_for (ws_role ws1) k"
    and "opcode f = Op_Continuation" "fin f" "\<not> rsv1 f" "length (asm @ payload f) \<le> max_payload"
  shows "fst (ws_recv C ws) = Inr (Some (Msg_Binary (asm @ payload f))) \<and>
    fst (ws_recv C ws1) = Inl (Ws_Protocol ''continuation without initial frame'')"
proof -
  have "ws_recv C ws = reading_rest C (Some Op_Binary) asm False ws1"
    using ws_receive.pending[OF assms(1)] by simp
  moreover obtain ws2 where "recv_loop C (Some Op_Binary) asm False ws1 = (Inr (Some (Msg_Binary (asm @ payload f))), ws2)"
    using recv_next_frame[OF assms(2-5), of C "Some Op_Binary" asm False] handle_continuation(2)[OF assms(6,8,7,9), of C] by auto
  moreover obtain ws3 where "recv_loop C None [] False ws1 = (Inl (Ws_Protocol ''continuation without initial frame''), ws3)"
    using recv_next_frame[OF assms(2-5), of C None "[]" False] handle_continuation(1)[OF assms(6,8), of C] by auto
  ultimately show ?thesis by (simp add: reading_rest_def ws_recv_result recv_result_def)
qed

definition first_half :: frame where
  "first_half = \<lparr>fin = False, rsv1 = False, opcode = Op_Binary, payload = [1]\<rparr>"

definition second_half :: frame where
  "second_half = \<lparr>fin = True, rsv1 = False, opcode = Op_Continuation, payload = [2]\<rparr>"

definition paused_client :: "read_event list \<Rightarrow> byte list \<Rightarrow> unit ws_stream" where
  "paused_client script buf = (from_conn (conn_new \<lparr>incoming = script, accepting = [], outgoing = [], flush_error = None\<rparr>)
     Client (\<lambda>_. demo_key))\<lparr>frame_buf := buf\<rparr>"

theorem dropped_recv_loses_fragments_witness:
  "\<exists>ws1. recv_poll no_codec Rv_Start (paused_client [Idle, Chunk (encode second_half None [])] (encode first_half None [])) =
       (Pending, Rv_Reading (Some Op_Binary) [1] False, ws1) \<and>
     fst (ws_recv no_codec ws1) = Inl (Ws_Protocol ''continuation without initial frame'')"
proof -
  let ?e = "encode second_half None []" and ?f = "encode first_half None []"
  let ?ws = "paused_client [Idle, Chunk ?e] ?f" and ?ws1 = "paused_client [Chunk ?e] []"
  have d: "decode ?f Client = (Inr (Some (first_half, length ?f)) :: stream_error + _)"
    using decode_encode_gen[of first_half Client None "[]"]
    by (simp add: wf_frame_def first_half_def mask_for_def max_payload_def)
  have n: "decode [] Client = (Inr None :: stream_error + _)" by (simp add: decode_def)
  have fields: "frame_buf ?ws = ?f" "ws_role ?ws = Client" "keepalive ?ws = None"
      "frame_buf ?ws1 = []" "ws_role ?ws1 = Client" "keepalive ?ws1 = None"
    by (simp_all add: paused_client_def from_conn_def)
  have raw: "poll_raw ws_chunk (conn (paused_client [Idle, Chunk ?e] [])) = (Pending, conn ?ws1)"
    by (simp add: poll_raw_def paused_client_def from_conn_def conn_new_def tr_poll_read.simps)
  have act: "frame_act no_codec first_half None [] False (?ws\<lparr>frame_buf := []\<rparr>) =
      Fa_Go_On (Some Op_Binary) [1] False (paused_client [Idle, Chunk ?e] [])"
    by (simp add: frame_act_def first_half_def data_act_def handle_frame_def check_size_def finish_data_def max_payload_def
        paused_client_def)
  have p: "recv_poll no_codec Rv_Start ?ws = (Pending, Rv_Reading (Some Op_Binary) [1] False, ?ws1)"
    using d n act raw by (simp add: recv_poll.simps fields paused_client_def from_conn_def pause_def)
  have "ws_bytes ?ws1 = ?e @ []"
    by (simp add: ws_bytes_def conn_bytes_def paused_client_def from_conn_def conn_new_def second_half_def encode_def)
  from dropped_recv_loses_fragments[OF p fields(6) this] show ?thesis
    using p fields by (auto simp: second_half_def wf_frame_def mask_for_def max_payload_def)
qed

end
