(* ===== verification/Ws_Handshake.thy ===== *)
theory Ws_Handshake
  imports Ws_Stream Http_Server
begin

text \<open>
  The opening handshake: \<open>handshake.rs\<close>, the negotiation half of \<open>deflate.rs\<close>, and
  \<open>WebSocketStream::accept\<close> and \<open>connect\<close> of \<open>stream.rs\<close> (\<open>crates/tpt-net-ws\<close>).  SHA-1 is an
  arbitrary function of its input, the random client key an argument; \<open>feature\<close> says whether
  the crate is built with \<open>permessage-deflate\<close>, and \<open>new_codec\<close> is the constructor of its codec.
\<close>

section \<open>Base64\<close>

definition base64_table :: "byte list" where
  "base64_table = ascii ''ABCDEFGHIJKLMNOPQRSTUVWXYZabcdefghijklmnopqrstuvwxyz0123456789+/''"

definition base64_bits :: "byte \<Rightarrow> byte \<Rightarrow> byte \<Rightarrow> 32 word" where
  "base64_bits a b c = (push_bit 16 (ucast a) OR push_bit 8 (ucast b)) OR ucast c"

definition base64_char :: "32 word \<Rightarrow> byte" where
  "base64_char n = base64_table ! unat (n AND 63)"

text \<open>\<open>chunks(3)\<close>: the last chunk may be short, and is filled with zeros and marked.\<close>

fun base64_encode :: "byte list \<Rightarrow> byte list" where
  "base64_encode [] = []"
| "base64_encode [a] =
     (let n = base64_bits a 0 0 in [base64_char (drop_bit 18 n), base64_char (drop_bit 12 n), 61, 61])"
| "base64_encode [a, b] =
     (let n = base64_bits a b 0
      in [base64_char (drop_bit 18 n), base64_char (drop_bit 12 n), base64_char (drop_bit 6 n), 61])"
| "base64_encode (a # b # c # r) =
     (let n = base64_bits a b c
      in [base64_char (drop_bit 18 n), base64_char (drop_bit 12 n), base64_char (drop_bit 6 n), base64_char n] @
         base64_encode r)"

section \<open>The accept key\<close>

definition ws_guid :: "byte list" where
  "ws_guid = ascii ''258EAFA5-E914-47DA-95CA-C5AB0DC85B11''"

definition accept_key :: "(byte list \<Rightarrow> byte list) \<Rightarrow> byte list \<Rightarrow> byte list" where
  "accept_key sha1 key = base64_encode (sha1 (key @ ws_guid))"

definition validate_and_accept :: "(byte list \<Rightarrow> byte list) \<Rightarrow> byte list \<Rightarrow> stream_error + byte list" where
  "validate_and_accept sha1 key =
     (if length key < 16 then Inl (Ws_Handshake ''missing Sec-WebSocket-Key'') else Inr (accept_key sha1 key))"

definition render_accept_response_with_ext :: "byte list \<Rightarrow> byte list option \<Rightarrow> byte list" where
  "render_accept_response_with_ext accept extensions =
     ascii ''HTTP/1.1 101 Switching Protocols'' @ crlf @
     ascii ''upgrade: websocket'' @ crlf @
     ascii ''connection: Upgrade'' @ crlf @
     ascii ''sec-websocket-accept: '' @ accept @ crlf @
     (case extensions of Some ext \<Rightarrow> ascii ''sec-websocket-extensions: '' @ ext @ crlf | None \<Rightarrow> []) @ crlf"

definition render_accept_response :: "byte list \<Rightarrow> byte list" where
  "render_accept_response accept = render_accept_response_with_ext accept None"

definition render_client_request :: "byte list \<Rightarrow> byte list \<Rightarrow> byte list \<Rightarrow> byte list" where
  "render_client_request path host key =
     ascii ''GET '' @ path @ ascii '' HTTP/1.1'' @ crlf @
     ascii ''host: '' @ host @ crlf @
     ascii ''upgrade: websocket'' @ crlf @
     ascii ''connection: Upgrade'' @ crlf @
     ascii ''sec-websocket-key: '' @ key @ crlf @
     ascii ''sec-websocket-version: 13'' @ crlf @ crlf"

section \<open>Negotiating compression\<close>

definition extension_name :: "byte list" where
  "extension_name = ascii ''permessage-deflate''"

definition client_offer :: "byte list" where
  "client_offer = extension_name"

text \<open>\<open>split\<close> at every separator, and \<open>trim_ascii\<close> (in \<open>stream.rs\<close>: \<open>trim_ows\<close>).\<close>

fun split_at :: "byte \<Rightarrow> byte list \<Rightarrow> byte list list" where
  "split_at s [] = [[]]"
| "split_at s (b # bs) =
     (if b = s then [] # split_at s bs
      else case split_at s bs of p # ps \<Rightarrow> (b # p) # ps | [] \<Rightarrow> [[b]])"

definition trim_ascii :: "byte list \<Rightarrow> byte list" where
  "trim_ascii v = slice v (trim_ows v)"

text \<open>\<open>parse::<u8>\<close>: digits with an optional plus.\<close>

definition parse_u8 :: "byte list \<Rightarrow> nat option" where
  "parse_u8 bs =
     (let ds = (if length bs > 1 \<and> hd bs = 43 then tl bs else bs);
          n = foldl (\<lambda>acc b. acc * 10 + (unat b - 48)) 0 ds
      in if ds = [] \<or> \<not> list_all is_ascii_digit ds \<or> 255 < n then None else Some n)"

text \<open>The parameters of an accepted extension; the two flags of the codec.\<close>

fun deflate_params :: "bool \<times> bool \<Rightarrow> byte list list \<Rightarrow> stream_error + bool \<times> bool" where
  "deflate_params fl [] = Inr fl"
| "deflate_params (rc, rd) (param0 # ps) =
     (let param = trim_ascii param0;
          (key, val) = (case byte_position 61 param of
             Some eq \<Rightarrow> (trim_ascii (take eq param), Some (trim_ascii (drop (eq + 1) param)))
           | None \<Rightarrow> (param, None))
      in if eq_ignore_ascii_case key (ascii ''server_no_context_takeover'') then deflate_params (rc, True) ps
         else if eq_ignore_ascii_case key (ascii ''client_no_context_takeover'') then deflate_params (True, rd) ps
         else if eq_ignore_ascii_case key (ascii ''client_max_window_bits'') then
           (case Option.bind val (\<lambda>v. if utf8_valid v then parse_u8 v else None) of
              Some bits \<Rightarrow>
                if bits < 15
                then Inl (Ws_Handshake ''permessage-deflate client_max_window_bits below 15 is unsupported'')
                else deflate_params (rc, rd) ps
            | None \<Rightarrow> deflate_params (rc, rd) ps)
         else deflate_params (rc, rd) ps)"

fun client_codec_ext :: "byte list list \<Rightarrow> stream_error + (bool \<times> bool) option" where
  "client_codec_ext [] = Inr None"
| "client_codec_ext (ext # exts) =
     (let parts = split_at 59 ext in
      if \<not> eq_ignore_ascii_case (trim_ascii (hd parts)) extension_name then client_codec_ext exts
      else case deflate_params (False, False) (tl parts) of
        Inl e \<Rightarrow> Inl e
      | Inr fl \<Rightarrow> Inr (Some fl))"

definition client_codec :: "byte list \<Rightarrow> stream_error + (bool \<times> bool) option" where
  "client_codec response = client_codec_ext (split_at 44 response)"

definition server_accept :: "byte list option \<Rightarrow> byte list option" where
  "server_accept offer_header =
     (case offer_header of
        None \<Rightarrow> None
      | Some offer \<Rightarrow>
          if list_ex (\<lambda>ext. eq_ignore_ascii_case (trim_ascii (hd (split_at 59 ext))) extension_name) (split_at 44 offer)
          then Some (extension_name @ ascii ''; client_no_context_takeover; server_no_context_takeover'')
          else None)"

section \<open>accept and connect\<close>

definition upgrade_requested :: "header_block \<Rightarrow> bool" where
  "upgrade_requested h =
     (case hb_get (ascii ''upgrade'') h of Some v \<Rightarrow> eq_ignore_ascii_case v (ascii ''websocket'') | None \<Rightarrow> False)"

definition connection_upgrade :: "header_block \<Rightarrow> bool" where
  "connection_upgrade h =
     (case hb_get (ascii ''connection'') h of
        Some v \<Rightarrow> list_ex (\<lambda>p. eq_ignore_ascii_case (trim_ascii p) (ascii ''upgrade'')) (split_at 44 v)
      | None \<Rightarrow> False)"

text \<open>The guards of \<open>accept\<close>, in their order: the key's accept value, or the error.\<close>

definition check_upgrade :: "(byte list \<Rightarrow> byte list) \<Rightarrow> request_head \<Rightarrow> stream_error + byte list" where
  "check_upgrade sha1 h =
     (if \<not> eq_ignore_ascii_case (rq_method h) (ascii ''GET'') then Inl (Ws_Handshake ''upgrade requires a GET request'')
      else if \<not> upgrade_requested (rq_headers h) then Inl (Ws_Handshake ''upgrade header missing'')
      else if \<not> connection_upgrade (rq_headers h)
      then Inl (Ws_Handshake ''connection header missing Upgrade token'')
      else case hb_get (ascii ''sec-websocket-key'') (rq_headers h) of
        None \<Rightarrow> Inl (Ws_Handshake ''Sec-WebSocket-Key missing'')
      | Some key \<Rightarrow>
          if hb_get (ascii ''sec-websocket-version'') (rq_headers h) \<noteq> Some (ascii ''13'')
          then Inl (Ws_Handshake ''unsupported Sec-WebSocket-Version'')
          else validate_and_accept sha1 key)"

definition ws_accept ::
  "(byte list \<Rightarrow> byte list) \<Rightarrow> bool \<Rightarrow> (bool \<Rightarrow> bool \<Rightarrow> 'c) \<Rightarrow> (nat \<Rightarrow> byte list) \<Rightarrow> transport \<Rightarrow>
   (stream_error + 'c ws_stream) \<times> http_connection" where
  "ws_accept sha1 feature new_codec masks t =
     (case read_request_head (conn_new t) of
        (Inl e, c) \<Rightarrow> (Inl (from_http_error e), c)
      | (Inr None, c) \<Rightarrow> (Inl (Ws_Handshake ''connection closed before handshake''), c)
      | (Inr (Some h), c) \<Rightarrow>
          (case check_upgrade sha1 h of
             Inl e \<Rightarrow> (Inl e, c)
           | Inr accept \<Rightarrow>
               let accept_ext =
                     (if feature then server_accept (hb_get (ascii ''sec-websocket-extensions'') (rq_headers h)) else None);
                   response = (if feature then render_accept_response_with_ext accept accept_ext
                               else render_accept_response accept)
               in case write_message response [] c of
                    (Inl e, c1) \<Rightarrow> (Inl (from_http_error e), c1)
                  | (Inr u, c1) \<Rightarrow>
                      (Inr ((from_conn c1 Server masks)
                         \<lparr>deflate := (if accept_ext \<noteq> None then Some (new_codec True True) else None)\<rparr>), c1)))"

text \<open>The request of \<open>connect\<close>: with the feature, the final CRLF gives way to the offer.\<close>

definition connect_request :: "bool \<Rightarrow> byte list \<Rightarrow> byte list \<Rightarrow> byte list \<Rightarrow> byte list" where
  "connect_request feature path host key =
     (let request = render_client_request path host key
      in if feature
         then take (length request - 2) request @ ascii ''sec-websocket-extensions: '' @ client_offer @ crlf @ crlf
         else request)"

fun connect_error :: "http_error \<Rightarrow> stream_error" where
  "connect_error Http_Connection_Closed = Ws_Handshake ''connection closed mid-handshake''"
| "connect_error (Http_Io e) = Ws_Io e"
| "connect_error (Http_Parse r) = Ws_Handshake (''malformed HTTP message: '' @ r)"
| "connect_error Http_Timed_Out = Ws_Handshake ''operation timed out''"
| "connect_error (Http_Conflicting_Headers w) = Ws_Handshake (''conflicting headers: '' @ w)"

definition ws_connect ::
  "(byte list \<Rightarrow> byte list) \<Rightarrow> bool \<Rightarrow> (bool \<Rightarrow> bool \<Rightarrow> 'c) \<Rightarrow> (nat \<Rightarrow> byte list) \<Rightarrow> byte list \<Rightarrow> byte list \<Rightarrow>
   byte list \<Rightarrow> transport \<Rightarrow> (stream_error + 'c ws_stream) \<times> http_connection" where
  "ws_connect sha1 feature new_codec masks key_raw path host t =
     (let key = base64_encode key_raw in
      case write_message (connect_request feature path host key) [] (conn_new t) of
        (Inl e, c) \<Rightarrow> (Inl (from_http_error e), c)
      | (Inr u, c) \<Rightarrow>
          (case read_response_head c of
             (Inl e, c1) \<Rightarrow> (Inl (connect_error e), c1)
           | (Inr h, c1) \<Rightarrow>
               if rs_status h \<noteq> 101 then (Inl (Ws_Handshake ''server did not switch protocols''), c1)
               else if hb_get (ascii ''sec-websocket-accept'') (rs_headers h) \<noteq> Some (accept_key sha1 key)
               then (Inl (Ws_Handshake ''Sec-WebSocket-Accept mismatch''), c1)
               else
                 (case (if feature then hb_get (ascii ''sec-websocket-extensions'') (rs_headers h) else None) of
                    None \<Rightarrow> (Inr (from_conn c1 Client masks), c1)
                  | Some ext \<Rightarrow>
                      (case client_codec ext of
                         Inl e \<Rightarrow> (Inl e, c1)
                       | Inr fl \<Rightarrow>
                           (Inr ((from_conn c1 Client masks)\<lparr>deflate := map_option (\<lambda>(rc, rd). new_codec rc rd) fl\<rparr>), c1)))))"

definition deflate_negotiated :: "bool \<Rightarrow> 'c ws_stream \<Rightarrow> bool" where
  "deflate_negotiated feature ws \<longleftrightarrow> (if feature then deflate ws \<noteq> None else False)"

end
