(* ===== verification/Ws_Open.thy ===== *)
theory Ws_Open
  imports Ws_Handshake Http_Exchange
begin

text \<open>
  Correctness of the opening handshake: the base64 encoder against its decoding, and a client
  and a server of this crate that meet over the wire.
\<close>

section \<open>Base64\<close>

lemma length_base64_table: "length base64_table = 64"
  by (simp add: base64_table_def ascii_def)

lemma base64_index: "unat (n AND 63 :: 32 word) < 64"
proof -
  have "n AND 63 \<le> 63" by (rule word_and_le1)
  then show ?thesis by (simp add: word_le_nat_alt)
qed

lemma base64_char_set: "base64_char n \<in> set base64_table"
  using base64_index[of n] length_base64_table by (simp add: base64_char_def)

lemma base64_table_plain: "b \<in> set base64_table \<Longrightarrow> b \<noteq> 13 \<and> b \<noteq> 10 \<and> \<not> is_ows b"
  by (auto simp: base64_table_def ascii_def is_ows_def)

lemma base64_plain: "b \<in> set (base64_encode d) \<Longrightarrow> b \<noteq> 13 \<and> b \<noteq> 10 \<and> \<not> is_ows b"
proof (induction d rule: base64_encode.induct)
  case (4 x y z r)
  then show ?case using base64_table_plain[OF base64_char_set] by (auto simp: Let_def)
qed (use base64_table_plain[OF base64_char_set] in \<open>auto simp: Let_def is_ows_def\<close>)

lemma base64_length: "length (base64_encode d) = 4 * ((length d + 2) div 3)"
proof (induction d rule: base64_encode.induct)
  case (4 x y z r)
  have "(length r + 5) div 3 = Suc ((length r + 2) div 3)" by presburger
  then show ?case using 4 by (simp add: Let_def add.commute)
qed (simp_all add: Let_def)

lemma base64_header_ok:
  assumes "58 \<notin> set n" "13 \<notin> set n" "10 \<notin> set n" "n \<noteq> [] \<longrightarrow> \<not> is_ows (hd n)"
  shows "header_ok (n, base64_encode d)"
  using assms base64_plain[of "hd (base64_encode d)" d] base64_plain[of "last (base64_encode d)" d] base64_plain[of 13 d]
    base64_plain[of 10 d] unfolding header_ok_def by fastforce

text \<open>The decoding of RFC 4648: characters to six-bit values, four of them to three bytes.\<close>

definition base64_value :: "byte \<Rightarrow> byte" where
  "base64_value ch = (case byte_position ch base64_table of Some i \<Rightarrow> word_of_nat i | None \<Rightarrow> 0)"

fun base64_decode :: "byte list \<Rightarrow> byte list" where
  "base64_decode (p # q # r # s # rest) =
     (let vp = base64_value p; vq = base64_value q; vr = base64_value r; vs = base64_value s in
      [push_bit 2 vp OR drop_bit 4 vq] @
      (if r = 61 then [] else [push_bit 4 vq OR drop_bit 2 vr]) @
      (if s = 61 then [] else [push_bit 6 vr OR vs]) @ base64_decode rest)"
| "base64_decode _ = []"

lemma byte_position_nth: "distinct xs \<Longrightarrow> i < length xs \<Longrightarrow> byte_position (xs ! i) xs = Some i"
proof (induction xs arbitrary: i)
  case (Cons x xs)
  then show ?case by (cases i) auto
qed simp

lemma base64_value_char: "base64_value (base64_char n) = ucast (n AND 63)"
proof -
  have "distinct base64_table" by (simp add: base64_table_def ascii_def)
  then have "byte_position (base64_char n) base64_table = Some (unat (n AND 63))"
    unfolding base64_char_def using base64_index[of n] length_base64_table by (intro byte_position_nth) simp_all
  then show ?thesis by (simp add: base64_value_def)
qed

lemma base64_char_pad: "base64_char n \<noteq> 61"
proof -
  have "61 \<notin> set base64_table" by (simp add: base64_table_def ascii_def)
  then show ?thesis using base64_char_set[of n] by metis
qed

lemma byte_eqI:
  fixes x y :: byte
  assumes "\<And>n. n = 0 \<or> n = 1 \<or> n = 2 \<or> n = 3 \<or> n = 4 \<or> n = 5 \<or> n = 6 \<or> n = 7 \<Longrightarrow> bit x n = bit y n"
  shows "x = y"
proof (rule bit_word_eqI)
  fix n assume "n < LENGTH(8)"
  then have "n < 8" by simp
  then have "n = 0 \<or> n = 1 \<or> n = 2 \<or> n = 3 \<or> n = 4 \<or> n = 5 \<or> n = 6 \<or> n = 7" by presburger
  then show "bit x n = bit y n" by (rule assms)
qed

lemma byte_high: "8 \<le> n \<Longrightarrow> \<not> bit (x :: byte) n"
  using bit_imp_le_length[of x n] by auto

lemma base64_bytes:
  fixes a b c :: byte
  shows "push_bit 2 (ucast (drop_bit 18 (base64_bits a b c) AND 63)) OR
      drop_bit 4 (ucast (drop_bit 12 (base64_bits a b c) AND 63)) = a"
    and "push_bit 4 (ucast (drop_bit 12 (base64_bits a b c) AND 63)) OR
      drop_bit 2 (ucast (drop_bit 6 (base64_bits a b c) AND 63)) = b"
    and "push_bit 6 (ucast (drop_bit 6 (base64_bits a b c) AND 63)) OR ucast (base64_bits a b c AND 63) = c"
proof -
  have 63: "(63 :: 32 word) = mask 6" by (simp add: mask_eq_exp_minus_1)
  show "push_bit 2 (ucast (drop_bit 18 (base64_bits a b c) AND 63)) OR
      drop_bit 4 (ucast (drop_bit 12 (base64_bits a b c) AND 63)) = a"
    unfolding 63 base64_bits_def by (rule byte_eqI, elim disjE) (simp_all add: bit_simps byte_high)
  show "push_bit 4 (ucast (drop_bit 12 (base64_bits a b c) AND 63)) OR
      drop_bit 2 (ucast (drop_bit 6 (base64_bits a b c) AND 63)) = b"
    unfolding 63 base64_bits_def by (rule byte_eqI, elim disjE) (simp_all add: bit_simps byte_high)
  show "push_bit 6 (ucast (drop_bit 6 (base64_bits a b c) AND 63)) OR ucast (base64_bits a b c AND 63) = c"
    unfolding 63 base64_bits_def by (rule byte_eqI, elim disjE) (simp_all add: bit_simps byte_high)
qed

lemma base64_decode_encode: "base64_decode (base64_encode d) = d"
  by (induction d rule: base64_encode.induct)
     (simp_all add: Let_def base64_value_char base64_char_pad base64_bytes)

section \<open>The request\<close>

definition offer_header :: "bool \<Rightarrow> (byte list \<times> byte list) list" where
  "offer_header feature = (if feature then [(ascii ''sec-websocket-extensions'', client_offer)] else [])"

definition upgrade_headers :: "bool \<Rightarrow> byte list \<Rightarrow> byte list \<Rightarrow> (byte list \<times> byte list) list" where
  "upgrade_headers feature host key =
     [(ascii ''host'', host), (ascii ''upgrade'', ascii ''websocket''), (ascii ''connection'', ascii ''Upgrade''),
      (ascii ''sec-websocket-key'', key), (ascii ''sec-websocket-version'', ascii ''13'')] @ offer_header feature"

lemma connect_request_rendered:
  "connect_request feature path host key =
     render_lines (request_line (ascii ''GET'') path Http11) (upgrade_headers feature host key)"
proof -
  let ?first = "request_line (ascii ''GET'') path Http11"
  let ?hs = "upgrade_headers False host key"
  have plain: "render_client_request path host key = (?first @ crlf @ concat (map header_text ?hs)) @ crlf"
    by (simp add: render_client_request_def upgrade_headers_def offer_header_def request_line_def version_bytes_def
        http_11_def header_text_def ascii_def)
  have cut: "take (length (xs @ crlf) - 2) (xs @ crlf) = xs" for xs by (simp add: crlf_def)
  show ?thesis
  proof (cases feature)
    case True
    have "upgrade_headers True host key = ?hs @ [(ascii ''sec-websocket-extensions'', client_offer)]"
      by (simp add: upgrade_headers_def offer_header_def)
    then have "concat (map header_text (upgrade_headers True host key)) =
        concat (map header_text ?hs) @ ascii ''sec-websocket-extensions: '' @ client_offer @ crlf"
      by (simp add: header_text_def ascii_def)
    then show ?thesis
      using render_headers[of ?first "upgrade_headers True host key"] True
      unfolding connect_request_def plain Let_def cut by simp
  next
    case False
    then show ?thesis
      using render_headers[of ?first ?hs] unfolding connect_request_def plain Let_def by simp
  qed
qed

text \<open>What the lookups of the server find.\<close>

lemmas name_compare = header_lookup_def eq_ignore_ascii_case_def to_ascii_lowercase_def ascii_def

lemma upgrade_lookups:
  "header_lookup (ascii ''upgrade'') (upgrade_headers feature host key) = Some (ascii ''websocket'')"
  "header_lookup (ascii ''connection'') (upgrade_headers feature host key) = Some (ascii ''Upgrade'')"
  "header_lookup (ascii ''sec-websocket-key'') (upgrade_headers feature host key) = Some key"
  "header_lookup (ascii ''sec-websocket-version'') (upgrade_headers feature host key) = Some (ascii ''13'')"
  "header_lookup (ascii ''sec-websocket-extensions'') (upgrade_headers feature host key) =
     (if feature then Some client_offer else None)"
  by (simp_all add: upgrade_headers_def offer_header_def name_compare)

lemma trim_token:
  "trim_ascii (ascii ''Upgrade'') = ascii ''Upgrade''" "trim_ascii extension_name = extension_name"
  by (simp_all add: trim_ascii_def trim_ows_def slice_def is_ows_def extension_name_def ascii_def Let_def)

lemma check_upgrade_ok:
  assumes "rq_method h = ascii ''GET''" "hb_iter (rq_headers h) = upgrade_headers feature host key" "16 \<le> length key"
  shows "check_upgrade sha1 h = Inr (accept_key sha1 key)"
proof -
  have "split_at 44 (ascii ''Upgrade'') = [ascii ''Upgrade'']" by (simp add: ascii_def)
  moreover have "eq_ignore_ascii_case (ascii ''Upgrade'') (ascii ''upgrade'')" by (simp add: name_compare)
  ultimately show ?thesis
    using assms
    by (simp add: check_upgrade_def upgrade_requested_def connection_upgrade_def hb_get_lookup upgrade_lookups
        trim_token validate_and_accept_def)
qed

section \<open>Negotiation\<close>

definition accepted_extension :: "byte list" where
  "accepted_extension = extension_name @ ascii ''; client_no_context_takeover; server_no_context_takeover''"

lemma server_accept_offer: "server_accept (Some client_offer) = Some accepted_extension"
proof -
  have "split_at 44 client_offer = [extension_name]" "split_at 59 extension_name = [extension_name]"
    by (simp_all add: client_offer_def extension_name_def ascii_def)
  then show ?thesis by (simp add: server_accept_def accepted_extension_def trim_token)
qed

lemma client_codec_accepted: "client_codec accepted_extension = Inr (Some (True, True))"
proof -
  have parts: "split_at 44 accepted_extension = [accepted_extension]"
    "split_at 59 accepted_extension =
       [extension_name, ascii '' client_no_context_takeover'', ascii '' server_no_context_takeover'']"
    by (simp_all add: accepted_extension_def extension_name_def ascii_def)
  have trim: "trim_ascii (ascii '' client_no_context_takeover'') = ascii ''client_no_context_takeover''"
    "trim_ascii (ascii '' server_no_context_takeover'') = ascii ''server_no_context_takeover''"
    by (simp_all add: trim_ascii_def trim_ows_def slice_def is_ows_def ascii_def Let_def)
  have noeq: "byte_position 61 (ascii ''client_no_context_takeover'') = None"
    "byte_position 61 (ascii ''server_no_context_takeover'') = None"
    by (simp_all add: ascii_def)
  have ne: "\<not> eq_ignore_ascii_case (ascii ''client_no_context_takeover'') (ascii ''server_no_context_takeover'')"
    by (simp add: name_compare)
  show ?thesis
    using parts ne by (simp add: client_codec_def trim_token trim noeq Let_def)
qed

section \<open>The response\<close>

definition switching :: "byte list" where
  "switching = status_line (ascii ''101'') (ascii ''Switching Protocols'')"

definition accept_headers :: "byte list \<Rightarrow> byte list option \<Rightarrow> (byte list \<times> byte list) list" where
  "accept_headers accept ext =
     [(ascii ''upgrade'', ascii ''websocket''), (ascii ''connection'', ascii ''Upgrade''),
      (ascii ''sec-websocket-accept'', accept)] @
     (case ext of Some e \<Rightarrow> [(ascii ''sec-websocket-extensions'', e)] | None \<Rightarrow> [])"

lemma accept_response_rendered:
  "render_accept_response_with_ext accept ext = render_lines switching (accept_headers accept ext)"
proof -
  have "render_accept_response_with_ext accept ext =
      switching @ crlf @ concat (map header_text (accept_headers accept ext)) @ crlf"
    by (cases ext) (simp_all add: render_accept_response_with_ext_def accept_headers_def switching_def
        status_line_def http_11_def header_text_def ascii_def)
  then show ?thesis by (simp add: render_headers)
qed

lemma accept_lookups:
  "header_lookup (ascii ''sec-websocket-accept'') (accept_headers accept ext) = Some accept"
  "header_lookup (ascii ''sec-websocket-extensions'') (accept_headers accept ext) = ext"
  by (cases ext; simp add: accept_headers_def name_compare)+

lemma switching_ok: "status_ok 101 (ascii ''101'') (ascii ''Switching Protocols'')"
  by (simp add: status_ok_def ascii_def is_ascii_digit_def is_ows_def)

section \<open>The two ends\<close>

text \<open>What the caller of \<open>connect\<close> has to pass.\<close>

definition endpoint_ok :: "byte list \<Rightarrow> byte list \<Rightarrow> bool" where
  "endpoint_ok path host \<longleftrightarrow> path \<noteq> [] \<and> 32 \<notin> set path \<and> 13 \<notin> set path \<and> 10 \<notin> set path \<and>
     header_ok (ascii ''host'', host) \<and> length path + length host \<le> 8192"

lemma upgrade_request_ok:
  assumes "endpoint_ok path host"
  shows "request_ok (ascii ''GET'') path (upgrade_headers feature host (base64_encode key))"
proof -
  have "header_ok (ascii ''sec-websocket-key'', base64_encode key)"
    by (rule base64_header_ok) (simp_all add: ascii_def is_ows_def)
  then show ?thesis
    using assms
    by (simp add: request_ok_def endpoint_ok_def upgrade_headers_def offer_header_def client_offer_def extension_name_def)
       (simp add: header_ok_def ascii_def is_tchar_strict_def is_ows_def)
qed

lemma connect_request_length:
  assumes "endpoint_ok path host" "length key = 24"
  shows "length (connect_request feature path host key) + read_chunk \<le> max_head"
  using assms
  by (simp add: connect_request_def render_client_request_def endpoint_ok_def client_offer_def extension_name_def
      ascii_def crlf_def read_chunk_def max_head_def Let_def)

lemma server_accepts:
  assumes "endpoint_ok path host" "length key_raw = 16"
    and "conn_bytes (conn_new t) = connect_request offered path host (base64_encode key_raw) @ rest"
    and "writable (conn_new t)"
  shows "\<exists>c. ws_accept sha1 feature new_codec masks t =
      (Inr ((from_conn c Server masks)\<lparr>deflate := (if feature \<and> offered then Some (new_codec True True) else None)\<rparr>), c) \<and>
    conn_bytes c = rest \<and>
    outgoing (io c) = outgoing t @ render_accept_response_with_ext (accept_key sha1 (base64_encode key_raw))
      (if feature \<and> offered then Some accepted_extension else None)"
proof -
  let ?key = "base64_encode key_raw"
  have klen: "length ?key = 24" using assms(2) by (simp add: base64_length)
  have start: "buf_small (conn_new t)" "\<not> eof (conn_new t)" "io (conn_new t) = t"
    by (simp_all add: conn_new_def buf_small_def)
  obtain h c where h: "read_request_head (conn_new t) = (Inr (Some h), c)" "conn_bytes c = rest" "reads_from (conn_new t) c"
      "rq_method h = ascii ''GET''" "hb_iter (rq_headers h) = upgrade_headers offered host ?key"
    using read_request_head_bytes[OF upgrade_request_ok[OF assms(1)] _ start(1,2)
        assms(3)[unfolded connect_request_rendered]]
      connect_request_length[OF assms(1) klen, unfolded connect_request_rendered] by blast
  let ?ext = "if feature \<and> offered then Some accepted_extension else None"
  let ?out = "render_accept_response_with_ext (accept_key sha1 ?key) ?ext"
  let ?c1 = "c\<lparr>io := (io c)\<lparr>outgoing := outgoing (io c) @ ?out @ []\<rparr>\<rparr>"
  have w: "writable c" "outgoing (io c) = outgoing t"
    using h(3) assms(4) start(3) by (simp_all add: reads_from_def stays_def)
  have chk: "check_upgrade sha1 h = Inr (accept_key sha1 ?key)"
    using klen by (intro check_upgrade_ok[OF h(4,5)]) simp
  have ext: "(if feature then server_accept (hb_get (ascii ''sec-websocket-extensions'') (rq_headers h)) else None) = ?ext"
    using h(5) server_accept_offer by (simp add: hb_get_lookup upgrade_lookups server_accept_def)
  have rsp: "(if feature then render_accept_response_with_ext (accept_key sha1 ?key) ?ext
      else render_accept_response (accept_key sha1 ?key)) = ?out"
    by (simp add: render_accept_response_def)
  have "ws_accept sha1 feature new_codec masks t =
      (Inr ((from_conn ?c1 Server masks)\<lparr>deflate := (if ?ext \<noteq> None then Some (new_codec True True) else None)\<rparr>), ?c1)"
    unfolding ws_accept_def h(1) prod.case sum.case option.case chk ext Let_def rsp write_message_writable[OF w(1)]
    by simp
  moreover have "conn_bytes ?c1 = rest" using h(2) by (simp add: conn_bytes_def)
  ultimately show ?thesis using w(2) by (intro exI[of _ ?c1]) simp
qed

lemma client_connects:
  assumes "endpoint_ok path host" "writable (conn_new t)"
    and "length (accept_key sha1 (base64_encode key_raw)) \<le> 8192"
    and "conn_bytes (conn_new t) = render_accept_response_with_ext (accept_key sha1 (base64_encode key_raw))
      (if agreed then Some accepted_extension else None) @ rest"
    and "agreed \<longrightarrow> feature"
  shows "\<exists>c. ws_connect sha1 feature new_codec masks key_raw path host t =
      (Inr ((from_conn c Client masks)\<lparr>deflate := (if agreed then Some (new_codec True True) else None)\<rparr>), c) \<and>
    conn_bytes c = rest \<and>
    outgoing (io c) = outgoing t @ connect_request feature path host (base64_encode key_raw)"
proof -
  let ?key = "base64_encode key_raw"
  let ?ext = "if agreed then Some accepted_extension else None"
  let ?rs = "accept_headers (accept_key sha1 ?key) ?ext"
  let ?c = "(conn_new t)\<lparr>io := (io (conn_new t))\<lparr>outgoing := outgoing (io (conn_new t)) @
      connect_request feature path host ?key @ []\<rparr>\<rparr>"
  have start: "buf_small ?c" "\<not> eof ?c" "outgoing (io ?c) = outgoing t @ connect_request feature path host ?key"
    by (simp_all add: conn_new_def buf_small_def)
  have bytes: "conn_bytes ?c = render_lines switching ?rs @ rest"
    using assms(4) by (simp add: conn_bytes_def accept_response_rendered)
  have acc: "header_ok (ascii ''sec-websocket-accept'', accept_key sha1 ?key)"
    unfolding accept_key_def by (rule base64_header_ok) (simp_all add: ascii_def is_ows_def)
  have hs: "list_all header_ok ?rs"
    using acc by (simp add: accept_headers_def accepted_extension_def extension_name_def)
       (simp add: header_ok_def ascii_def is_ows_def)
  have "length (render_accept_response_with_ext (accept_key sha1 ?key) ?ext) + read_chunk \<le> max_head"
    using assms(3) by (simp add: render_accept_response_with_ext_def accepted_extension_def extension_name_def ascii_def
        crlf_def read_chunk_def max_head_def)
  then have len: "length (render_lines switching ?rs) + read_chunk \<le> max_head"
    by (simp add: accept_response_rendered)
  obtain h c where h: "read_response_head ?c = (Inr h, c)" "conn_bytes c = rest" "reads_from ?c c"
      "rs_status h = 101" "hb_iter (rs_headers h) = ?rs"
    using read_response_head_bytes[OF switching_ok hs len[unfolded switching_def] start(1,2) bytes[unfolded switching_def]]
    by blast
  have out: "outgoing (io c) = outgoing t @ connect_request feature path host ?key"
    using h(3) start(3) by (simp add: reads_from_def stays_def)
  have acc_eq: "hb_get (ascii ''sec-websocket-accept'') (rs_headers h) = Some (accept_key sha1 ?key)"
    and ext_eq: "hb_get (ascii ''sec-websocket-extensions'') (rs_headers h) = ?ext"
    by (simp_all only: hb_get_lookup h(5) accept_lookups)
  have "ws_connect sha1 feature new_codec masks key_raw path host t =
      (Inr ((from_conn c Client masks)\<lparr>deflate := (if agreed then Some (new_codec True True) else None)\<rparr>), c)"
    unfolding ws_connect_def Let_def write_message_writable[OF assms(2)] prod.case sum.case h(1,4) acc_eq ext_eq
    using assms(5) client_codec_accepted by (cases agreed) (simp_all add: from_conn_def)
  then show ?thesis using h(2) out by blast
qed

end
