(* ===== verification/Ws_Deflate.thy ===== *)
theory Ws_Deflate
  imports Ws_Handshake
begin

text \<open>
  The \<open>permessage-deflate\<close> codec of \<open>crates/tpt-net-ws/src/deflate.rs\<close>: the loops around the
  compression library.  The library is a parameter: one call to its compressor or decompressor
  takes the remaining input and gives an error or how much it consumed, what it appended to the
  output, and (decompressing) whether the output buffer has room left and whether it reported
  that it could not go on.  The loops may run forever when the library never finishes, so they
  are partial: \<open>None\<close> is a call that does not return.
\<close>

record ('z, 'd) zlib =
  z_compress_new :: 'z
  z_compress_vec :: "'z \<Rightarrow> byte list \<Rightarrow> (nat \<times> byte list) option \<times> 'z"
  z_compress_reset :: "'z \<Rightarrow> 'z"
  z_decompress_new :: 'd
  z_decompress_vec :: "'d \<Rightarrow> byte list \<Rightarrow> (nat \<times> byte list \<times> bool \<times> bool) option \<times> 'd"
  z_decompress_reset :: "'d \<Rightarrow> 'd"

definition sync_tail :: "byte list" where
  "sync_tail = [0x00, 0x00, 0xFF, 0xFF]"

record ('z, 'd) deflate_codec =
  dc_compressor :: 'z
  dc_decompressor :: 'd
  dc_reset_compressor :: bool
  dc_reset_decompressor :: bool

definition codec_new :: "('z, 'd) zlib \<Rightarrow> bool \<Rightarrow> bool \<Rightarrow> ('z, 'd) deflate_codec" where
  "codec_new Z rc rd =
     \<lparr>dc_compressor = z_compress_new Z, dc_decompressor = z_decompress_new Z,
      dc_reset_compressor = rc, dc_reset_decompressor = rd\<rparr>"

definition server_default :: "('z, 'd) zlib \<Rightarrow> ('z, 'd) deflate_codec" where
  "server_default Z = codec_new Z True True"

definition ends_with :: "byte list \<Rightarrow> byte list \<Rightarrow> bool" where
  "ends_with xs suf \<longleftrightarrow> length suf \<le> length xs \<and> drop (length xs - length suf) xs = suf"

text \<open>The loop of \<open>compress\<close>: the remaining input shrinks by what the library consumed.\<close>

partial_function (option) compress_loop ::
  "('z, 'd) zlib \<Rightarrow> byte list \<Rightarrow> nat \<Rightarrow> byte list \<Rightarrow> 'z \<Rightarrow> ((string + byte list) \<times> 'z) option" where
  "compress_loop Z data consumed out z =
     (case z_compress_vec Z z (drop consumed data) of
        (None, z1) \<Rightarrow> Some (Inl ''deflate compression failed'', z1)
      | (Some (n, produced), z1) \<Rightarrow>
          if consumed + n = length data \<and> ends_with (out @ produced) sync_tail then Some (Inr (out @ produced), z1)
          else if n = 0 \<and> produced = [] then Some (Inl ''deflate sync flush stalled'', z1)
          else compress_loop Z data (consumed + n) (out @ produced) z1)"

definition dc_compress ::
  "('z, 'd) zlib \<Rightarrow> ('z, 'd) deflate_codec \<Rightarrow> byte list \<Rightarrow> ((string + byte list) \<times> ('z, 'd) deflate_codec) option" where
  "dc_compress Z c data =
     (case compress_loop Z data 0 [] (dc_compressor c) of
        None \<Rightarrow> None
      | Some (Inl e, z) \<Rightarrow> Some (Inl e, c\<lparr>dc_compressor := z\<rparr>)
      | Some (Inr out, z) \<Rightarrow>
          Some (Inr (if ends_with out sync_tail then take (length out - length sync_tail) out else out),
                c\<lparr>dc_compressor := (if dc_reset_compressor c then z_compress_reset Z z else z)\<rparr>))"

partial_function (option) decompress_loop ::
  "('z, 'd) zlib \<Rightarrow> nat \<Rightarrow> byte list \<Rightarrow> nat \<Rightarrow> byte list \<Rightarrow> 'd \<Rightarrow> ((string + byte list) \<times> 'd) option" where
  "decompress_loop Z max_len input consumed out d =
     (case z_decompress_vec Z d (drop consumed input) of
        (None, d1) \<Rightarrow> Some (Inl ''invalid deflate stream'', d1)
      | (Some (n, produced, room, buf_error), d1) \<Rightarrow>
          if length (out @ produced) > max_len then Some (Inl ''decompressed message exceeds 16 MiB limit'', d1)
          else if consumed + n = length input \<and> room then Some (Inr (out @ produced), d1)
          else if n = 0 \<and> produced = [] \<and> buf_error then Some (Inl ''invalid deflate stream'', d1)
          else decompress_loop Z max_len input (consumed + n) (out @ produced) d1)"

definition dc_decompress ::
  "('z, 'd) zlib \<Rightarrow> ('z, 'd) deflate_codec \<Rightarrow> byte list \<Rightarrow> nat \<Rightarrow>
   ((string + byte list) \<times> ('z, 'd) deflate_codec) option" where
  "dc_decompress Z c data max_len =
     (case decompress_loop Z max_len (data @ sync_tail) 0 [] (dc_decompressor c) of
        None \<Rightarrow> None
      | Some (Inl e, d) \<Rightarrow> Some (Inl e, c\<lparr>dc_decompressor := d\<rparr>)
      | Some (Inr out, d) \<Rightarrow>
          Some (Inr out, c\<lparr>dc_decompressor := (if dc_reset_decompressor c then z_decompress_reset Z d else d)\<rparr>))"

section \<open>What the loops promise\<close>

lemma compress_loop_tail:
  "compress_loop Z data consumed out z = Some r \<Longrightarrow> case r of (Inr v, z1) \<Rightarrow> ends_with v sync_tail | _ \<Rightarrow> True"
  by (rule compress_loop.raw_induct[of "\<lambda>Z data consumed out z r. case r of (Inr v, z1) \<Rightarrow> ends_with v sync_tail | _ \<Rightarrow> True"])
     (auto split: prod.splits option.splits if_splits)

lemma decompress_loop_bound:
  "decompress_loop Z max_len input consumed out d = Some r \<Longrightarrow>
     case r of (Inr v, d1) \<Rightarrow> length v \<le> max_len \<and> (\<exists>w. v = out @ w) | _ \<Rightarrow> True"
  by (rule decompress_loop.raw_induct[of
        "\<lambda>Z max_len input consumed out d r. case r of (Inr v, d1) \<Rightarrow> length v \<le> max_len \<and> (\<exists>w. v = out @ w) | _ \<Rightarrow> True"])
     (fastforce split: prod.splits option.splits if_splits sum.splits)+

text \<open>The codec starts every message afresh when the direction does not keep its context.\<close>

lemma dc_compress_reset:
  assumes "dc_compress Z c data = Some (Inr out, c1)" "dc_reset_compressor c" "\<And>z. z_compress_reset Z z = z_compress_new Z"
  shows "dc_compressor c1 = z_compress_new Z"
  using assms by (auto simp: dc_compress_def split: option.splits sum.splits prod.splits)

end
