(* ===== verification/Ws_Open_Properties.thy ===== *)
theory Ws_Open_Properties
  imports Ws_Open Ws_Deflate Http_Properties
begin

text \<open>
  The properties of the opening handshake and of the \<open>permessage-deflate\<close> codec.
\<close>

section \<open>Handshake\<close>

text \<open>
  C18: An \<open>accept\<close> that receives the request of a \<open>connect\<close> (in any chunks), and a \<open>connect\<close> that
  receives the answer of that \<open>accept\<close>, both succeed, whatever the features of the two sides: the
  bytes behind the handshake stay on the connection, and compression is on at one end exactly when
  it is on at the other, which is when both sides have it.
\<close>
theorem handshake_completes:
  assumes "endpoint_ok path host" "length key_raw = 16"
    and "length (accept_key sha1 (base64_encode key_raw)) \<le> 8192"
    and "conn_bytes (conn_new ts) = connect_request fc path host (base64_encode key_raw) @ rest"
    and "writable (conn_new ts)" "writable (conn_new tc)"
    and "conn_bytes (conn_new tc) = drop (length (outgoing ts))
      (outgoing (io (snd (ws_accept sha1 fs new_codec ms ts)))) @ rest1"
  shows "\<exists>ss cs sc cc. ws_accept sha1 fs new_codec ms ts = (Inr ss, cs) \<and>
    ws_connect sha1 fc new_codec mc key_raw path host tc = (Inr sc, cc) \<and>
    conn_bytes cs = rest \<and> conn_bytes cc = rest1 \<and>
    outgoing (io cc) = outgoing tc @ connect_request fc path host (base64_encode key_raw) \<and>
    deflate ss = (if fs \<and> fc then Some (new_codec True True) else None) \<and> deflate sc = deflate ss \<and>
    (deflate_negotiated fs ss \<longleftrightarrow> fs \<and> fc) \<and> (deflate_negotiated fc sc \<longleftrightarrow> fs \<and> fc)"
proof -
  obtain cs where s: "ws_accept sha1 fs new_codec ms ts =
      (Inr ((from_conn cs Server ms)\<lparr>deflate := (if fs \<and> fc then Some (new_codec True True) else None)\<rparr>), cs)"
      "conn_bytes cs = rest"
      "outgoing (io cs) = outgoing ts @ render_accept_response_with_ext (accept_key sha1 (base64_encode key_raw))
        (if fs \<and> fc then Some accepted_extension else None)"
    using server_accepts[OF assms(1,2,4,5)] by blast
  have "conn_bytes (conn_new tc) = render_accept_response_with_ext (accept_key sha1 (base64_encode key_raw))
      (if fs \<and> fc then Some accepted_extension else None) @ rest1"
    unfolding assms(7) s(1) by (simp add: s(3))
  from client_connects[OF assms(1,6,3) this, of fc new_codec mc] obtain cc where
    c: "ws_connect sha1 fc new_codec mc key_raw path host tc =
      (Inr ((from_conn cc Client mc)\<lparr>deflate := (if fs \<and> fc then Some (new_codec True True) else None)\<rparr>), cc)"
      "conn_bytes cc = rest1" "outgoing (io cc) = outgoing tc @ connect_request fc path host (base64_encode key_raw)"
    by auto
  show ?thesis
    by (rule exI conjI s(1,2) c)+ (simp_all add: deflate_negotiated_def)
qed

definition zero_sha1 :: "byte list \<Rightarrow> byte list" where
  "zero_sha1 _ = replicate 20 0"

lemma demo_endpoint_ok: "endpoint_ok (ascii ''/'') (ascii ''h'')"
  by (simp add: endpoint_ok_def header_ok_def ascii_def is_ows_def)

lemma demo_accept_length: "length (accept_key zero_sha1 k) \<le> 8192"
  by (simp add: accept_key_def zero_sha1_def base64_length)

theorem handshake_completes_witness:
  "\<exists>ts ss cs sc cc tc. ws_accept zero_sha1 True (\<lambda>_ _. ()) (\<lambda>_. []) ts = (Inr ss, cs) \<and>
    ws_connect zero_sha1 True (\<lambda>_ _. ()) (\<lambda>_. []) (replicate 16 0) (ascii ''/'') (ascii ''h'') tc = (Inr sc, cc) \<and>
    deflate ss = Some () \<and> deflate sc = Some ()"
proof -
  let ?key = "replicate 16 0 :: byte list"
  let ?q = "connect_request True (ascii ''/'') (ascii ''h'') (base64_encode ?key)"
  let ?ts = "demo_transport ?q"
  have key: "length ?key = 16" by simp
  have len: "7 < length (connect_request True (ascii ''/'') (ascii ''h'') k @ [])" for k
    by (simp add: connect_request_def render_client_request_def ascii_def crlf_def Let_def client_offer_def)
  note t = demo_transport_ok[OF len[simplified]]
  have bs: "conn_bytes (conn_new ?ts) = ?q @ []" using t(1) by simp
  let ?resp = "drop (length (outgoing ?ts)) (outgoing (io (snd (ws_accept zero_sha1 True (\<lambda>_ _. ()) (\<lambda>_. []) ?ts))))"
  obtain cs where s: "outgoing (io (snd (ws_accept zero_sha1 True (\<lambda>_ _. ()) (\<lambda>_. []) ?ts))) = outgoing ?ts @
      render_accept_response_with_ext (accept_key zero_sha1 (base64_encode ?key)) (Some accepted_extension)"
    using server_accepts[OF demo_endpoint_ok key bs t(3), of zero_sha1 True "\<lambda>_ _. ()" "\<lambda>_. []"] by auto
  have rlen: "7 < length ?resp" unfolding s by (simp add: render_accept_response_with_ext_def ascii_def)
  note r = demo_transport_ok[OF rlen]
  have rb: "conn_bytes (conn_new (demo_transport ?resp)) = ?resp @ []" using r(1) by simp
  from handshake_completes[OF demo_endpoint_ok key demo_accept_length bs t(3) r(3) rb] show ?thesis by fastforce
qed

text \<open>
  Decoding what the encoder of the handshake keys writes gives the bytes back, for every
  length and padding.
\<close>
theorem base64_roundtrip: "base64_decode (base64_encode d) = d"
  by (rule base64_decode_encode)

section \<open>Compression\<close>

text \<open>
  Whatever the compression library does, a decompression that returns a message returns at
  most the limit, and a compression that returns one has removed exactly the tail that the
  decompression of the peer appends.
\<close>
theorem deflate_bounded_and_framed:
  "(dc_decompress Z c data m = Some (Inr out, c1) \<longrightarrow> length out \<le> m) \<and>
   (dc_compress Z c data = Some (Inr out, c1) \<longrightarrow>
      (\<exists>z. compress_loop Z data 0 [] (dc_compressor c) = Some (Inr (out @ sync_tail), z)))"
proof (intro conjI impI)
  assume "dc_decompress Z c data m = Some (Inr out, c1)"
  then obtain d where "decompress_loop Z m (data @ sync_tail) 0 [] (dc_decompressor c) = Some (Inr out, d)"
    by (auto simp: dc_decompress_def split: option.splits sum.splits prod.splits)
  from decompress_loop_bound[OF this] show "length out \<le> m" by simp
next
  assume "dc_compress Z c data = Some (Inr out, c1)"
  then obtain v z where v: "compress_loop Z data 0 [] (dc_compressor c) = Some (Inr v, z)"
      "out = (if ends_with v sync_tail then take (length v - length sync_tail) v else v)"
    by (auto simp: dc_compress_def split: option.splits sum.splits prod.splits)
  have tail: "ends_with v sync_tail" using compress_loop_tail[OF v(1)] by simp
  then have "out @ sync_tail = v" unfolding v(2) by (simp add: ends_with_def) (metis append_take_drop_id)
  then show "\<exists>z. compress_loop Z data 0 [] (dc_compressor c) = Some (Inr (out @ sync_tail), z)" using v(1) by blast
qed

text \<open>A library that stores: it appends the tail when it compresses and takes it off again.\<close>

definition stored_zlib :: "(unit, unit) zlib" where
  "stored_zlib = \<lparr>z_compress_new = (), z_compress_vec = (\<lambda>z bs. (Some (length bs, bs @ sync_tail), ())),
     z_compress_reset = id, z_decompress_new = (),
     z_decompress_vec = (\<lambda>d bs. (Some (length bs, take (length bs - 4) bs, True, False), ())),
     z_decompress_reset = id\<rparr>"

lemma stored_decompress:
  "dc_decompress stored_zlib (server_default stored_zlib) [1, 2, 3] 3 = Some (Inr [1, 2, 3], server_default stored_zlib)"
  by (simp add: dc_decompress_def decompress_loop.simps stored_zlib_def server_default_def codec_new_def sync_tail_def)

lemma stored_compress:
  "dc_compress stored_zlib (server_default stored_zlib) [1, 2, 3] = Some (Inr [1, 2, 3], server_default stored_zlib)"
  by (simp add: dc_compress_def compress_loop.simps stored_zlib_def server_default_def codec_new_def sync_tail_def ends_with_def)

theorem deflate_bounded_and_framed_witness:
  "dc_decompress stored_zlib (server_default stored_zlib) [1, 2, 3] 3 = Some (Inr [1, 2, 3], server_default stored_zlib) \<and>
   length [1, 2, 3 :: byte] \<le> 3 \<and>
   (\<exists>z. compress_loop stored_zlib [1, 2, 3] 0 [] (dc_compressor (server_default stored_zlib)) =
      Some (Inr ([1, 2, 3] @ sync_tail), z))"
proof -
  have "dc_decompress stored_zlib (server_default stored_zlib) [1, 2, 3] 3 = Some (Inr [1, 2, 3], server_default stored_zlib) \<longrightarrow>
      length [1, 2, 3 :: byte] \<le> 3"
    by (rule conjunct1[OF deflate_bounded_and_framed])
  moreover have "dc_compress stored_zlib (server_default stored_zlib) [1, 2, 3] = Some (Inr [1, 2, 3], server_default stored_zlib) \<longrightarrow>
      (\<exists>z. compress_loop stored_zlib [1, 2, 3] 0 [] (dc_compressor (server_default stored_zlib)) =
         Some (Inr ([1, 2, 3] @ sync_tail), z))"
    by (rule conjunct2[OF deflate_bounded_and_framed])
  ultimately show ?thesis using stored_decompress stored_compress by blast
qed

end
