(* ===== verification/Runtime_Spawn.thy ===== *)
theory Runtime_Spawn
  imports Spawned_Tasks
begin

text \<open>
  The spawn adapters of the facade (\<open>crates/tpt-async/src/lib.rs\<close>): tasks that run on tokio or smol and
  report through a \<open>Completer\<close>.  The runtimes are parameters.  What is used of them is that a task is polled
  until it is ready unless the runtime drops it (at a shutdown, or when the future panics), and that
  \<open>tokio::task::spawn\<close> spawns on the runtime whose context it is called in, and panics outside of any.
\<close>

section \<open>Error texts\<close>

definition cancelled_text :: string where
  "cancelled_text = ''task was cancelled''"

definition spawn_error_text :: string where
  "spawn_error_text = ''failed to spawn task: executor unavailable''"

section \<open>Tasks on a runtime\<close>

text \<open>The runtime of a task, the task's future until it is over, and what it shares with its handle.\<close>

record ('f, 'v) hosted =
  h_runtime :: nat
  h_future :: "'f option"
  h_shared :: "'v shared_state"

record ('f, 'v) host =
  current_runtime :: "nat option"
  hosted_tasks :: "('f, 'v) hosted list"

definition host_new :: "nat option \<Rightarrow> ('f, 'v) host" where
  "host_new r = \<lparr>current_runtime = r, hosted_tasks = []\<rparr>"

text \<open>\<open>Completer::new\<close>, and the task \<open>async move { completer.complete(future.await) }\<close> on the runtime \<open>r\<close>.\<close>

definition host_on :: "nat \<Rightarrow> 'f \<Rightarrow> ('f, 'v) host \<Rightarrow> (spawn_error + nat) \<times> ('f, 'v) host" where
  "host_on r f h =
     (Inr (length (hosted_tasks h)),
      h\<lparr>hosted_tasks := hosted_tasks h @ [\<lparr>h_runtime = r, h_future = Some f, h_shared = shared_new\<rparr>]\<rparr>)"

text \<open>\<open>TokioHandle::spawn\<close>; \<open>None\<close> is a panic.  The handle is not used.\<close>

definition tokio_handle_spawn :: "nat \<Rightarrow> 'f \<Rightarrow> ('f, 'v) host \<Rightarrow> ((spawn_error + nat) \<times> ('f, 'v) host) option" where
  "tokio_handle_spawn handle f h = (case current_runtime h of None \<Rightarrow> None | Some r \<Rightarrow> Some (host_on r f h))"

definition tokio_spawn :: "'f \<Rightarrow> ('f, 'v) host \<Rightarrow> ((spawn_error + nat) \<times> ('f, 'v) host) option" where
  "tokio_spawn f h = (case current_runtime h of None \<Rightarrow> None | Some r \<Rightarrow> tokio_handle_spawn r f h)"

definition spawn_on_smol :: "nat \<Rightarrow> 'f \<Rightarrow> ('f, 'v) host \<Rightarrow> (spawn_error + nat) \<times> ('f, 'v) host" where
  "spawn_on_smol executor f h = host_on executor f h"

section \<open>What happens to a task\<close>

definition at_task :: "nat \<Rightarrow> (('f, 'v) hosted \<Rightarrow> ('f, 'v) hosted) \<Rightarrow> ('f, 'v) host \<Rightarrow> ('f, 'v) host" where
  "at_task i op h =
     (if i < length (hosted_tasks h) then h\<lparr>hosted_tasks := (hosted_tasks h)[i := op (hosted_tasks h ! i)]\<rparr> else h)"

text \<open>The runtime polls the task, or drops it with the completer in it.\<close>

definition hosted_poll :: "('f \<Rightarrow> 'v poll \<times> 'f) \<Rightarrow> ('f, 'v) hosted \<Rightarrow> ('f, 'v) hosted" where
  "hosted_poll poll t =
     (case h_future t of
        None \<Rightarrow> t
      | Some f \<Rightarrow>
          (case poll f of
             (Pending, f1) \<Rightarrow> t\<lparr>h_future := Some f1\<rparr>
           | (Ready v, f1) \<Rightarrow> t\<lparr>h_future := None, h_shared := completer_complete v (h_shared t)\<rparr>))"

definition hosted_drop :: "('f, 'v) hosted \<Rightarrow> ('f, 'v) hosted" where
  "hosted_drop t =
     (case h_future t of None \<Rightarrow> t | Some f \<Rightarrow> t\<lparr>h_future := None, h_shared := completer_drop (h_shared t)\<rparr>)"

text \<open>The owner of the handle polls it or cancels.\<close>

definition hosted_join :: "nat \<Rightarrow> ('f, 'v) hosted \<Rightarrow> ('f, 'v) hosted" where
  "hosted_join w t = (case join_poll w (h_shared t) of None \<Rightarrow> t | Some (p, s) \<Rightarrow> t\<lparr>h_shared := s\<rparr>)"

definition hosted_cancel :: "('f, 'v) hosted \<Rightarrow> ('f, 'v) hosted" where
  "hosted_cancel t = t\<lparr>h_shared := shared_cancel (h_shared t)\<rparr>"

inductive host_reach :: "('f \<Rightarrow> 'v poll \<times> 'f) \<Rightarrow> ('f, 'v) host \<Rightarrow> bool" for poll where
  start: "host_reach poll (host_new r)"
| enter: "host_reach poll h \<Longrightarrow> host_reach poll (h\<lparr>current_runtime := r\<rparr>)"
| tokio_handle: "host_reach poll h \<Longrightarrow> tokio_handle_spawn k f h = Some (r, h1) \<Longrightarrow> host_reach poll h1"
| tokio: "host_reach poll h \<Longrightarrow> tokio_spawn f h = Some (r, h1) \<Longrightarrow> host_reach poll h1"
| smol: "host_reach poll h \<Longrightarrow> spawn_on_smol e f h = (r, h1) \<Longrightarrow> host_reach poll h1"
| polled: "host_reach poll h \<Longrightarrow> host_reach poll (at_task i (hosted_poll poll) h)"
| dropped: "host_reach poll h \<Longrightarrow> host_reach poll (at_task i hosted_drop h)"
| join: "host_reach poll h \<Longrightarrow> host_reach poll (at_task i (hosted_join w) h)"
| cancel: "host_reach poll h \<Longrightarrow> host_reach poll (at_task i hosted_cancel h)"

section \<open>The invariant\<close>

text \<open>
  While the future is there nothing has been delivered; when the task is over the handle is resolved and no
  waker is left registered; and a waker that is registered belongs to a handle that waits.
\<close>

definition hosted_inv :: "('f, 'v) hosted \<Rightarrow> bool" where
  "hosted_inv t \<longleftrightarrow>
     (case h_future t of
        Some f \<Rightarrow> flags (h_shared t) \<noteq> Flag_Ready \<and> task_result (h_shared t) = None
      | None \<Rightarrow> flags (h_shared t) \<noteq> Flag_Pending) \<and>
     (waker_slot (h_shared t) \<noteq> None \<longrightarrow> flags (h_shared t) = Flag_Pending) \<and>
     (waker_slot (h_shared t) = None \<or> \<not> notified (h_shared t))"

lemma shared_complete_fields:
  "flags (completer_complete v s) = Flag_Ready" "task_result (completer_complete v s) = Some v"
  "waker_slot (completer_complete v s) = None"
  by (simp_all add: completer_complete_def completer_drop_def shared_complete_def)

lemma completer_drop_fields:
  "flags (completer_drop s) = (if flags s = Flag_Pending then Flag_Cancelled else flags s)"
  "flags s = Flag_Pending \<Longrightarrow> waker_slot (completer_drop s) = None"
  "flags s \<noteq> Flag_Pending \<Longrightarrow> completer_drop s = s"
  by (simp_all add: completer_drop_def shared_cancel_def)

lemma hosted_inv_poll: "hosted_inv t \<Longrightarrow> hosted_inv (hosted_poll poll t)"
  by (auto simp: hosted_inv_def hosted_poll_def shared_complete_fields split: option.splits prod.splits poll.splits)

lemma hosted_inv_drop: "hosted_inv t \<Longrightarrow> hosted_inv (hosted_drop t)"
  by (cases "flags (h_shared t) = Flag_Pending")
     (auto simp: hosted_inv_def hosted_drop_def completer_drop_fields split: option.splits)

lemma hosted_inv_cancel: "hosted_inv t \<Longrightarrow> hosted_inv (hosted_cancel t)"
  by (auto simp: hosted_inv_def hosted_cancel_def shared_cancel_def split: option.splits)

lemma hosted_inv_join: "hosted_inv t \<Longrightarrow> hosted_inv (hosted_join w t)"
  by (cases "flags (h_shared t)"; cases "task_result (h_shared t)")
     (auto simp: hosted_inv_def hosted_join_def join_poll_def take_result_def Let_def split: option.splits)

lemma at_task_inv:
  assumes "\<forall>t \<in> set (hosted_tasks h). hosted_inv t" "\<And>t. hosted_inv t \<Longrightarrow> hosted_inv (op t)"
  shows "\<forall>t \<in> set (hosted_tasks (at_task i op h)). hosted_inv t"
  using assms by (auto simp: at_task_def dest!: subsetD[OF set_update_subset_insert])

lemma host_on_inv:
  assumes "\<forall>t \<in> set (hosted_tasks h). hosted_inv t" "host_on r f h = (x, h1)"
  shows "\<forall>t \<in> set (hosted_tasks h1). hosted_inv t"
  using assms by (auto simp: host_on_def hosted_inv_def shared_new_def)

lemma host_reach_inv: "host_reach poll h \<Longrightarrow> \<forall>t \<in> set (hosted_tasks h). hosted_inv t"
proof (induction rule: host_reach.induct)
  case (tokio_handle h k f r h1)
  then show ?case by (auto simp: tokio_handle_spawn_def split: option.splits dest: host_on_inv)
next
  case (tokio h f r h1)
  then show ?case by (auto simp: tokio_spawn_def tokio_handle_spawn_def split: option.splits dest: host_on_inv)
next
  case (smol h e f r h1)
  then show ?case by (auto simp: spawn_on_smol_def dest: host_on_inv)
next
  case (polled h i)
  show ?case by (rule at_task_inv[OF polled.IH hosted_inv_poll])
next
  case (dropped h i)
  show ?case by (rule at_task_inv[OF dropped.IH hosted_inv_drop])
next
  case (join h i w)
  show ?case by (rule at_task_inv[OF join.IH hosted_inv_join])
next
  case (cancel h i)
  show ?case by (rule at_task_inv[OF cancel.IH hosted_inv_cancel])
qed (simp_all add: host_new_def)

section \<open>Properties\<close>

text \<open>
  The handle of a task that an adapter has spawned on tokio or smol is never stranded.  However the
  runtime's polls, a drop of the task, and polls and cancellations through the handle come about, a handle
  that is still pending has its task on the runtime, and when the task is over, with an output, a panic or
  the runtime's shutdown, the handle is resolved and no waker is left in its slot, which a waker leaves only
  by being called.
\<close>

theorem adapter_handles_resolve:
  assumes "host_reach poll h" "i < length (hosted_tasks h)" "t = hosted_tasks h ! i"
  shows "(flags (h_shared t) = Flag_Pending \<longrightarrow> h_future t \<noteq> None) \<and>
    (h_future t = None \<longrightarrow> is_finished (h_shared t) \<and> waker_slot (h_shared t) = None) \<and>
    (flags (h_shared t) = Flag_Ready \<longrightarrow> h_future t = None)"
proof -
  have "hosted_inv t" using host_reach_inv[OF assms(1)] assms(2,3) by simp
  then show ?thesis by (auto simp: hosted_inv_def is_finished_def split: option.splits)
qed

text \<open>A task that is dropped by the runtime after its handle was polled.\<close>

definition demo_host :: "(nat, nat) host" where
  "demo_host = at_task 0 hosted_drop (at_task 0 (hosted_join 7) (snd (spawn_on_smol 3 (0 :: nat) (host_new None))))"

theorem adapter_handles_resolve_witness:
  "h_future (hosted_tasks demo_host ! 0) = None \<and> waker_slot (h_shared (hosted_tasks demo_host ! 0)) = None \<and>
   woken (h_shared (hosted_tasks demo_host ! 0)) = [7] \<and>
   join_poll 7 (h_shared (hosted_tasks demo_host ! 0)) = Some (Ready Was_Cancelled, h_shared (hosted_tasks demo_host ! 0))"
proof -
  have r: "host_reach (\<lambda>f. (Pending, f)) demo_host"
    unfolding demo_host_def
    by (rule host_reach.dropped, rule host_reach.join, rule host_reach.smol[OF host_reach.start surjective_pairing])
  have d: "length (hosted_tasks demo_host) = 1" "h_future (hosted_tasks demo_host ! 0) = None"
      "woken (h_shared (hosted_tasks demo_host ! 0)) = [7]" "flags (h_shared (hosted_tasks demo_host ! 0)) = Flag_Cancelled"
    by (simp_all add: demo_host_def at_task_def hosted_drop_def hosted_join_def spawn_on_smol_def host_on_def host_new_def
        join_poll_def shared_new_def Let_def register_waker_def completer_drop_def shared_cancel_def store_flag_def wake_waiter_def)
  show ?thesis
    using adapter_handles_resolve[OF r _ refl, of 0] d by (simp add: join_poll_def)
qed

text \<open>
  A \<open>TokioHandle\<close> does not spawn on its own runtime: the task lands on the runtime in whose context the call
  is made, and outside of any the call panics although the handle has a runtime.
\<close>

lemma tokio_handle_ignored:
  "tokio_handle_spawn k f (host_new None) = None"
  "tokio_handle_spawn k f (host_new (Some r)) = Some (host_on r f (host_new (Some r)))"
  by (simp_all add: tokio_handle_spawn_def host_new_def)

end
