(* ===== verification/Demo_Programs.thy ===== *)
theory Demo_Programs
  imports Ws_Echo Timer_Properties Http_Heads Http_Server
begin

text \<open>
  Programs that come with the crates: the TCP echo server (\<open>examples/desktop/src/bin/tcp-echo.rs\<close>), the
  WebSocket server of \<open>http-ws.rs\<close>, the client of the Autobahn test suite
  (\<open>crates/tpt-net-ws/examples/autobahn-echo-client.rs\<close>), the browser timer (\<open>examples/wasm/src/lib.rs\<close>), and
  the two fuzz targets that only call a decoder.  Accepting and connecting sockets and printing are left out.
\<close>

section \<open>The TCP echo server\<close>

definition echo_chunk :: nat where
  "echo_chunk = 4096"

text \<open>
  One read with the idle timeout; as with the keepalive of a WebSocket, a stall of the script is a wait that
  elapses, and shorter ones are not in it.
\<close>

definition read_with_timeout :: "transport \<Rightarrow> (io_error + byte list option) \<times> transport" where
  "read_with_timeout rd =
     (case tr_poll_read echo_chunk rd of
        (Pending, rd1) \<Rightarrow> (Inr None, rd1)
      | (Ready (Inl e), rd1) \<Rightarrow> (Inl e, rd1)
      | (Ready (Inr bs), rd1) \<Rightarrow> (Inr (Some bs), rd1))"

lemma read_with_timeout_size:
  "read_with_timeout rd = (Inr (Some bs), rd1) \<Longrightarrow> bs \<noteq> [] \<Longrightarrow> script_size (incoming rd1) < script_size (incoming rd)"
  by (auto simp: read_with_timeout_def split: prod.splits poll.splits sum.splits dest: tr_poll_read_size)

function tcp_echo :: "transport \<Rightarrow> transport \<Rightarrow> (io_error + unit) \<times> transport \<times> transport" where
  "tcp_echo rd wr =
     (case read_with_timeout rd of
        (Inl e, rd1) \<Rightarrow> (Inl e, rd1, wr)
      | (Inr None, rd1) \<Rightarrow> (Inr (), rd1, wr)
      | (Inr (Some bs), rd1) \<Rightarrow>
          if bs = [] then (Inr (), rd1, wr)
          else (case tr_write_all bs wr of
              (Inl e, wr1) \<Rightarrow> (Inl e, rd1, wr1)
            | (Inr u, wr1) \<Rightarrow>
                (case tr_flush wr1 of
                   Inl e \<Rightarrow> (Inl e, rd1, wr1)
                 | Inr u1 \<Rightarrow> tcp_echo rd1 wr1)))"
  by pat_completeness auto
termination
  by (relation "measure (\<lambda>(rd, wr). script_size (incoming rd))") (auto intro: read_with_timeout_size[OF sym])

declare tcp_echo.simps [simp del]

text \<open>The bytes before the first long pause, error or end of a stream, and how it stops there.\<close>

fun before_pause :: "read_event list \<Rightarrow> byte list" where
  "before_pause [] = []"
| "before_pause (Idle # r) = []"
| "before_pause (Read_Error e # r) = []"
| "before_pause (Chunk bs # r) = (if bs = [] then [] else bs @ before_pause r)"

fun stops_with :: "read_event list \<Rightarrow> io_error + unit" where
  "stops_with [] = Inr ()"
| "stops_with (Idle # r) = Inr ()"
| "stops_with (Read_Error e # r) = Inl e"
| "stops_with (Chunk bs # r) = (if bs = [] then Inr () else stops_with r)"

lemma read_with_timeout_bytes:
  assumes "read_with_timeout rd = (r, rd1)"
  shows "(\<exists>bs. r = Inr (Some bs) \<and> bs \<noteq> [] \<and> before_pause (incoming rd) = bs @ before_pause (incoming rd1) \<and>
      stops_with (incoming rd) = stops_with (incoming rd1)) \<or>
    before_pause (incoming rd) = [] \<and>
      (r = Inr None \<and> stops_with (incoming rd) = Inr () \<or> r = Inr (Some []) \<and> stops_with (incoming rd) = Inr () \<or>
       (\<exists>e. r = Inl e \<and> stops_with (incoming rd) = Inl e))"
proof (cases "incoming rd")
  case Nil
  then show ?thesis using assms by (auto simp: read_with_timeout_def tr_poll_read.simps)
next
  case (Cons ev evs)
  show ?thesis
  proof (cases ev)
    case (Chunk bs)
    have split: "take n bs @ drop n bs @ xs = bs @ xs" for n xs by (simp flip: append_assoc)
    show ?thesis
      using assms Cons Chunk split[of echo_chunk]
      by (cases "bs = []"; cases "length bs \<le> echo_chunk")
         (auto simp: read_with_timeout_def tr_poll_read.simps echo_chunk_def)
  qed (use assms Cons in \<open>auto simp: read_with_timeout_def tr_poll_read.simps\<close>)
qed

definition open_writer :: "transport \<Rightarrow> bool" where
  "open_writer wr \<longleftrightarrow> accepting wr = [] \<and> flush_error wr = None"

lemma write_all_open: "open_writer wr \<Longrightarrow> tr_write_all bs wr = (Inr (), wr\<lparr>outgoing := outgoing wr @ bs\<rparr>)"
  by (cases "bs = []")
     (simp_all add: open_writer_def tr_write_all_def await_write_all.simps write_all_poll.simps tr_poll_write.simps)

text \<open>
  The TCP echo server echoes a connection byte for byte, in order, in whatever pieces it comes, until the
  peer closes, pauses for the idle timeout, or the socket fails; only a failure is an error.
\<close>

theorem tcp_echo_echoes:
  assumes "open_writer wr"
  shows "\<exists>rd1. tcp_echo rd wr =
    (stops_with (incoming rd), rd1, wr\<lparr>outgoing := outgoing wr @ before_pause (incoming rd)\<rparr>)"
  using assms
proof (induction rd wr rule: tcp_echo.induct)
  case (1 rd wr)
  obtain r rd1 where r: "read_with_timeout rd = (r, rd1)" by fastforce
  show ?case
  proof (cases "\<exists>bs. r = Inr (Some bs) \<and> bs \<noteq> []")
    case True
    then obtain bs where bs: "r = Inr (Some bs)" "bs \<noteq> []" by blast
    let ?wr = "wr\<lparr>outgoing := outgoing wr @ bs\<rparr>"
    have w: "tr_write_all bs wr = (Inr (), ?wr)" "tr_flush ?wr = Inr ()" "open_writer ?wr"
      using "1.prems" write_all_open by (simp_all add: open_writer_def tr_flush_def)
    have "tcp_echo rd wr = tcp_echo rd1 ?wr" using r bs w by (subst tcp_echo.simps) simp
    moreover obtain rd2 where
      "tcp_echo rd1 ?wr = (stops_with (incoming rd1), rd2, ?wr\<lparr>outgoing := outgoing ?wr @ before_pause (incoming rd1)\<rparr>)"
      using "1.IH"[OF r[symmetric] bs(1) refl bs(2) w(1)[symmetric] refl w(2)] w(3) by blast
    moreover have "stops_with (incoming rd) = stops_with (incoming rd1)" "before_pause (incoming rd) = bs @ before_pause (incoming rd1)"
      using read_with_timeout_bytes[OF r] bs by simp_all
    ultimately show ?thesis by (intro exI[of _ rd2]) simp
  next
    case False
    then have stop: "before_pause (incoming rd) = []"
        "r = Inr None \<and> stops_with (incoming rd) = Inr () \<or> r = Inr (Some []) \<and> stops_with (incoming rd) = Inr () \<or>
         (\<exists>e. r = Inl e \<and> stops_with (incoming rd) = Inl e)"
      using read_with_timeout_bytes[OF r] by blast+
    then have "tcp_echo rd wr = (stops_with (incoming rd), rd1, wr)"
      using r by (elim disjE exE conjE; subst tcp_echo.simps; simp)
    then show ?thesis using stop(1) by simp
  qed
qed

theorem tcp_echo_echoes_witness:
  "\<exists>rd1. tcp_echo \<lparr>incoming = [Chunk [1, 2], Chunk [3], Idle, Chunk [4]], accepting = [], outgoing = [], flush_error = None\<rparr>
      \<lparr>incoming = [], accepting = [], outgoing = [9], flush_error = None\<rparr> =
    (Inr (), rd1, \<lparr>incoming = [], accepting = [], outgoing = [9, 1, 2, 3], flush_error = None\<rparr>)"
  using tcp_echo_echoes[of "\<lparr>incoming = [], accepting = [], outgoing = [9], flush_error = None\<rparr>"
      "\<lparr>incoming = [Chunk [1, 2], Chunk [3], Idle, Chunk [4]], accepting = [], outgoing = [], flush_error = None\<rparr>"]
  by (simp add: open_writer_def)

section \<open>WebSocket programs\<close>

text \<open>The server of \<open>http-ws.rs\<close>; \<open>None\<close> is a panic.\<close>

definition echo_prefix :: "byte list" where
  "echo_prefix = ascii ''echo: ''"

fun prefix_reply :: "message \<Rightarrow> message option" where
  "prefix_reply (Msg_Text t) = Some (Msg_Text (echo_prefix @ t))"
| "prefix_reply (Msg_Close info) = None"
| "prefix_reply m = Some m"

function prefix_echo :: "'c codec_ops \<Rightarrow> 'c ws_stream \<Rightarrow> 'c ws_stream option" where
  "prefix_echo C ws =
     (case ws_recv C ws of
        (Inl e, ws1) \<Rightarrow> None
      | (Inr None, ws1) \<Rightarrow> Some ws1
      | (Inr (Some m), ws1) \<Rightarrow>
          (case prefix_reply m of
             None \<Rightarrow> Some ws1
           | Some reply \<Rightarrow>
               (case ws_send C reply ws1 of
                  (Inl e, ws2) \<Rightarrow> None
                | (Inr u, ws2) \<Rightarrow> prefix_echo C ws2)))"
  by pat_completeness auto

lemma reply_size:
  assumes "ws_recv C ws = (Inr (Some m), ws1)" "ws_send C reply ws1 = (r, ws2)"
  shows "ws_size ws2 < ws_size ws"
  using ws_recv_size[OF assms(1)] ws_send_size[OF assms(2)] by (simp add: ws_size_def)

termination prefix_echo
  by (relation "measure (\<lambda>(C, ws). ws_size ws)") (auto intro: reply_size[OF sym sym])

declare prefix_echo.simps [simp del]

text \<open>One exchange of the demonstration.\<close>

lemma prefix_echo_text:
  assumes "ready_end ws" "ws_bytes ws = encode (plain_frame Op_Text t) k [] @ rest" "mask_for (ws_role ws) k"
    and "utf8_valid t" "utf8_valid (echo_prefix @ t)" "length (echo_prefix @ t) \<le> max_payload"
  shows "\<exists>ws1. prefix_echo C ws = prefix_echo C ws1 \<and> ready_end ws1 \<and> ws_bytes ws1 = rest \<and> ws_role ws1 = ws_role ws \<and>
    outgoing (io (conn ws1)) = outgoing (io (conn ws)) @
      encode (plain_frame Op_Text (echo_prefix @ t)) (key_for ws (masks_used ws)) []"
proof -
  have m: "data_message (Msg_Text t)" "data_message (Msg_Text (echo_prefix @ t))"
    using assms(4-6) by (simp_all add: data_message_def)
  have ka: "keepalive ws = None" using assms(1) by (simp add: ready_end_def)
  obtain ws1 where ws1: "ws_recv C ws = (Inr (Some (Msg_Text t)), ws1)" "only_read ws ws1" "ws_bytes ws1 = rest"
    using recv_data[OF ka _ m(1) assms(3)] assms(2) by auto
  note same = only_read_fields[OF ws1(2)]
  have w: "writable (conn ws1)" "deflate ws1 = None" using assms(1) same by (simp_all add: ready_end_def)
  let ?ws2 = "wrote (encode (data_frame (Msg_Text (echo_prefix @ t))) (key_for ws1 (masks_used ws1)) []) 1 ws1"
  have s: "ws_send C (Msg_Text (echo_prefix @ t)) ws1 = (Inr (), ?ws2)" by (rule send_data[OF w m(2)])
  have "prefix_echo C ws = prefix_echo C ?ws2" using ws1(1) s by (simp add: prefix_echo.simps[of C ws])
  moreover have "ready_end ?ws2" using assms(1) same by (simp add: ready_end_def)
  ultimately show ?thesis
    using ws1(3) same by (intro exI[of _ ?ws2]) (simp add: key_for_def)
qed

text \<open>
  The client of the test suite.  \<open>connect path\<close> gives what connecting and the opening handshake lead to for
  the n-th connection; without a connection at all the client panics, as \<open>None\<close>.
\<close>

definition parse_usize :: "byte list \<Rightarrow> nat option" where
  "parse_usize bs = parse_u64_digits (if 1 < length bs \<and> hd bs = 43 then tl bs else bs)"

definition case_count :: "message option \<Rightarrow> nat option" where
  "case_count m = (case m of Some (Msg_Text t) \<Rightarrow> parse_usize (str_trim t) | _ \<Rightarrow> None)"

definition case_path :: "nat \<Rightarrow> byte list" where
  "case_path n = ascii ''/runCase?case='' @ to_decimal n @ ascii ''&agent=tpt-async''"

type_synonym 'c connections = "nat \<Rightarrow> byte list \<Rightarrow> (stream_error + 'c ws_stream) option"

fun run_cases :: "'c codec_ops \<Rightarrow> 'c connections \<Rightarrow> nat list \<Rightarrow> 'c ws_stream list \<Rightarrow> 'c ws_stream list option" where
  "run_cases C connect [] done = Some done"
| "run_cases C connect (n # ns) done =
     (case connect n (case_path n) of
        None \<Rightarrow> None
      | Some (Inl e) \<Rightarrow> run_cases C connect ns done
      | Some (Inr ws) \<Rightarrow> run_cases C connect ns (done @ [echo_case C ws]))"

definition autobahn_run :: "'c codec_ops \<Rightarrow> 'c connections \<Rightarrow> ('c ws_stream list \<times> 'c ws_stream) option" where
  "autobahn_run C connect =
     (case connect 0 (ascii ''/getCaseCount'') of
        Some (Inr ws) \<Rightarrow>
          (case ws_recv C ws of
             (Inl e, ws1) \<Rightarrow> None
           | (Inr m, ws1) \<Rightarrow>
               (case case_count m of
                  None \<Rightarrow> None
                | Some count \<Rightarrow>
                    (case run_cases C connect [1..<count + 1] [] of
                       None \<Rightarrow> None
                     | Some streams \<Rightarrow>
                         (case connect (count + 1) (ascii ''/updateReports?agent=tpt-async'') of
                            Some (Inr ws2) \<Rightarrow> Some (streams, snd (ws_close C 1000 ws2))
                          | _ \<Rightarrow> None))))
      | _ \<Rightarrow> None)"

text \<open>A case whose handshake fails does not stop the others.\<close>

lemma run_cases_all:
  assumes "\<forall>n \<in> set ns. connect n (case_path n) \<noteq> None"
  shows "run_cases C connect ns acc =
    Some (acc @ [echo_case C ws. Inr ws \<leftarrow> map (\<lambda>n. the (connect n (case_path n))) ns])"
  using assms by (induction ns arbitrary: acc) (auto split: sum.splits)

section \<open>The timer of the page\<close>

text \<open>Dates are milliseconds; a page starts its clock once, and \<open>poll_timer\<close> reads the date three times.\<close>

definition now_ms :: "nat \<Rightarrow> nat \<Rightarrow> nat" where
  "now_ms page_start date = date - page_start"

definition page_sleep_poll :: "nat \<Rightarrow> nat \<Rightarrow> unit poll" where
  "page_sleep_poll due now = (if due \<le> now then Ready () else Pending)"

definition poll_timer :: "nat \<Rightarrow> nat \<Rightarrow> nat \<Rightarrow> nat \<Rightarrow> nat \<Rightarrow> wheel \<Rightarrow> (bool \<times> wheel) option" where
  "poll_timer page_start d1 d2 d3 ms w =
     do {
       w1 \<leftarrow> wheel_advance_to 64 4 (now_ms page_start d1) w;
       Some (page_sleep_poll (now_ms page_start d2 + ms) (now_ms page_start d3) = Ready (), w1)
     }"

text \<open>
  It does not say whether the time has passed since the timer was started, but whether it passed between two
  readings of the same call: a page that polls it in its loop never sees the timer fire.
\<close>

lemma poll_timer_never_fires:
  assumes "poll_timer page_start d1 d2 d3 ms w = Some (fired, w1)" "page_start \<le> d2" "d2 \<le> d3" "d3 < d2 + ms"
  shows "\<not> fired"
  using assms by (auto simp: poll_timer_def page_sleep_poll_def now_ms_def split: bind_splits if_splits)

section \<open>Fuzz targets\<close>

text \<open>The results are discarded by the targets, which look for panics only.\<close>

definition fuzz_ws_decode ::
  "byte list \<Rightarrow> (stream_error + (frame \<times> nat) option) \<times> (stream_error + (frame \<times> nat) option)" where
  "fuzz_ws_decode data = (decode data Server, decode data Client)"

definition fuzz_entry :: "byte list \<Rightarrow> (http_error + head_ranges option) \<times> (http_error + head_ranges option)" where
  "fuzz_entry data = (parse_request_ranges data, parse_response_ranges data)"

text \<open>No over-read: what the decoders report to have used lies in the input.\<close>

lemma fuzz_targets_in_bounds:
  "fst (fuzz_ws_decode data) = Inr (Some (f, n)) \<or> snd (fuzz_ws_decode data) = Inr (Some (f, n)) \<Longrightarrow> n \<le> length data"
  "fst (fuzz_entry data) = Inr (Some r) \<or> snd (fuzz_entry data) = Inr (Some r) \<Longrightarrow> ranges_ok data r"
  by (auto simp: fuzz_ws_decode_def fuzz_entry_def dest: decode_bounds(2) parse_request_ranges_ok(1) parse_response_ranges_ok(1))

end
