(* ===== verification/Xtask.thy ===== *)
theory Xtask
  imports Prelude
begin

text \<open>
  The workspace's automation (\<open>xtask/src/main.rs\<close>).  A command is a program with its arguments and the
  variables it adds to the environment; \<open>status\<close> is the operating system, which runs it in a world and says
  whether it was started and succeeded.  Standard output and error are left out.
\<close>

section \<open>Commands\<close>

type_synonym command = "string \<times> string list \<times> (string \<times> string) list"

datatype exit_code = Success | Failure

type_synonym 'w system = "command \<Rightarrow> 'w \<Rightarrow> bool \<times> 'w"

definition run_with_env ::
  "'w system \<Rightarrow> string \<Rightarrow> string list \<Rightarrow> (string \<times> string) list \<Rightarrow> 'w \<Rightarrow> exit_code \<times> 'w" where
  "run_with_env status program args env w =
     (case status (program, args, env) w of (ok, w1) \<Rightarrow> (if ok then Success else Failure, w1))"

definition run :: "'w system \<Rightarrow> string \<Rightarrow> string list \<Rightarrow> 'w \<Rightarrow> exit_code \<times> 'w" where
  "run status program args w =
     (case status (program, args, []) w of (ok, w1) \<Rightarrow> (if ok then Success else Failure, w1))"

fun run_many :: "'w system \<Rightarrow> (string \<times> string list) list \<Rightarrow> 'w \<Rightarrow> exit_code \<times> 'w" where
  "run_many status [] w = (Success, w)"
| "run_many status ((program, args) # steps) w =
     (case run status program args w of
        (Success, w1) \<Rightarrow> run_many status steps w1
      | (Failure, w1) \<Rightarrow> (Failure, w1))"

section \<open>Tasks\<close>

definition fmt_args :: "string list" where
  "fmt_args = [''fmt'', ''--all'', ''--check'']"

definition clippy_args :: "string list" where
  "clippy_args = [''clippy'', ''--workspace'', ''--all-features'', ''--'', ''-D'', ''warnings'']"

definition test_args :: "string list" where
  "test_args = [''test'', ''--workspace'', ''--all-features'']"

definition docs_args :: "string list" where
  "docs_args = [''doc'', ''--workspace'', ''--no-deps'', ''--all-features'']"

definition docs_env :: "(string \<times> string) list" where
  "docs_env = [(''RUSTDOCFLAGS'', ''-D warnings'')]"

text \<open>The loop over the first three steps, the documentation, the targets (\<open>||\<close> stops), and the licences.\<close>

definition run_all :: "'w system \<Rightarrow> 'w \<Rightarrow> exit_code \<times> 'w" where
  "run_all status w =
     (case run_many status [(''cargo'', fmt_args), (''cargo'', clippy_args), (''cargo'', test_args)] w of
        (Failure, w1) \<Rightarrow> (Failure, w1)
      | (Success, w1) \<Rightarrow>
          (case run_with_env status ''cargo'' docs_args docs_env w1 of
             (Failure, w2) \<Rightarrow> (Failure, w2)
           | (Success, w2) \<Rightarrow>
               (case run status ''cargo'' [''check-embedded''] w2 of
                  (Failure, w3) \<Rightarrow> (Failure, w3)
                | (Success, w3) \<Rightarrow>
                    (case run status ''cargo'' [''check-riscv''] w3 of
                       (Failure, w4) \<Rightarrow> (Failure, w4)
                     | (Success, w4) \<Rightarrow>
                         (case run status ''cargo'' [''check-wasm''] w4 of
                            (Failure, w5) \<Rightarrow> (Failure, w5)
                          | (Success, w5) \<Rightarrow> run status ''cargo'' [''deny'', ''check''] w5)))))"

definition cross_steps :: "(string \<times> string list) list" where
  "cross_steps = [(''cargo'', [''check-embedded'']), (''cargo'', [''check-riscv'']), (''cargo'', [''check-wasm''])]"

text \<open>\<open>main\<close> over the first argument.\<close>

definition xtask_main :: "'w system \<Rightarrow> string option \<Rightarrow> 'w \<Rightarrow> exit_code \<times> 'w" where
  "xtask_main status arg w =
     (let task = case arg of None \<Rightarrow> ''help'' | Some t \<Rightarrow> t
      in if task = ''ci'' then run_all status w
         else if task = ''fmt'' then run status ''cargo'' fmt_args w
         else if task = ''clippy'' then run status ''cargo'' clippy_args w
         else if task = ''test'' then run status ''cargo'' test_args w
         else if task = ''docs'' then run_with_env status ''cargo'' docs_args docs_env w
         else if task = ''cross'' then run_many status cross_steps w
         else if task = ''deny'' then run status ''cargo'' [''deny'', ''check''] w
         else (Failure, w))"

section \<open>Lemmas\<close>

text \<open>\<open>ci\<close> is the other tasks in turn, up to the first that fails.\<close>

fun in_turn :: "('w \<Rightarrow> exit_code \<times> 'w) list \<Rightarrow> 'w \<Rightarrow> exit_code \<times> 'w" where
  "in_turn [] w = (Success, w)"
| "in_turn (t # ts) w = (case t w of (Success, w1) \<Rightarrow> in_turn ts w1 | (Failure, w1) \<Rightarrow> (Failure, w1))"

lemma ci_runs_all_tasks:
  "xtask_main status (Some ''ci'') =
     in_turn (map (\<lambda>t. xtask_main status (Some t)) [''fmt'', ''clippy'', ''test'', ''docs'', ''cross'', ''deny''])"
  by (auto simp: fun_eq_iff xtask_main_def run_all_def cross_steps_def split: prod.splits exit_code.splits)

end
