(* ===== verification/Spec2Isabelle.thy ===== *)
theory Spec2Isabelle
  imports Wheel_Programs Timer_Properties Retry_Policy Clocks Superloop Wheel_Model Driver_Thread Core_Utils Wakers Any_Stream Async_Properties Entry_Macro
    Executor_Nested Fake_Pipe Adapter_Contracts Tls_Inbound Tls_Timeout Tls_Config Http_Dropped Http2_Tasks Http_Demo
    Ws_Cancel Ws_Open_Properties Runtime_Spawn Demo_Programs Xtask
begin

text \<open>
  A verification library for the \<open>tpt-async\<close> workspace: a runtime-independent set of Rust crates
  with a timer wheel, tasks, a single-threaded executor, I/O traits with adapters, in-memory test
  transports, and on top of the I/O traits a TLS stream, an HTTP/1.1 client and server, HTTP/2 glue
  and WebSockets.  The model is a shallow embedding of the sources under \<open>src/crates\<close>: a struct is a
  record, an enum a datatype, a function a HOL function of the same name where HOL leaves it free,
  an early return or an error a branch, a panic the value \<open>None\<close>.

  \<^bold>\<open>The parts of the program and how they meet.\<close>  The timer crate keeps intrusive lists of deadlines
  (\<open>wheel.rs\<close>); the futures \<open>Sleep\<close>, \<open>Timeout\<close> and \<open>Interval\<close> register nodes of their own in it and are
  woken by its ticks, which a driver thread or a test produces.  The executor polls futures that
  wakers put on its queue; a task's result crosses to its \<open>JoinHandle\<close> through a shared flag and slot.
  The network crates are written against the traits \<open>AsyncRead\<close> and \<open>AsyncWrite\<close>: HTTP and WebSocket
  run over any transport, among them the TLS stream and the in-memory pipe of the test crate, and a
  WebSocket is opened by an HTTP/1.1 exchange that hands its buffered bytes over.

  \<^bold>\<open>Common ground.\<close>
  \<^item> \<open>Prelude\<close>: checked, saturating and wrapping arithmetic of the code on natural numbers, lemmas on
    options and lists.
  \<^item> \<open>Bytes\<close>: bytes are words of eight bits, strings are their UTF-8 bytes; ASCII case, decimal and
    hexadecimal digits, big-endian integers.
  \<^item> \<open>Io_Core\<close> (\<open>read.rs\<close>, \<open>read_buf.rs\<close> of \<open>tpt-async-io\<close>): \<open>IoError\<close> and \<open>ReadBuf\<close>.
  \<^item> \<open>Async_Traits\<close> (\<open>read.rs\<close>, \<open>write.rs\<close>): the futures of the extension traits over any stream, as
    partial functions of its polls, and the contracts of the two traits as the locales \<open>async_read\<close>,
    \<open>async_write\<close> and \<open>async_pipe\<close>, under which the futures return and carry every byte.
  \<^item> \<open>Transport\<close>: the stream that the protocols are modelled on.  A transport is an arbitrary peer: a
    script of the answers to its polls (chunks of any size, pending, errors, the end) and of how writes
    are accepted, with the bytes handed over so far.  A theorem over all transports is a theorem over
    all chunkings and stalls.  It keeps the contracts, and awaiting a future on it ends.
    \<open>Any_Stream\<close> is why scripts are enough: the answers of the TLS stream or of the in-memory pipe to the
    polls of any client are those of some script.  It says nothing of whether these answers are right,
    which is what the results on each stream are about.
  \<^item> \<open>Io_Adapters\<close> (\<open>adapters/std_compat.rs\<close>, \<open>tokio_compat.rs\<close>, \<open>async_std_compat.rs\<close>,
    \<open>embedded_compat.rs\<close>): every poll of the adapters between ecosystems, gathering writes, and the impls
    for references.  \<open>Adapter_Contracts\<close>: what the foreign traits promise, as the locales
    \<open>polled_stream\<close>, \<open>blocking_stream\<close>, \<open>polled_sink\<close> and \<open>blocking_sink\<close>, and that a stream adapted from
    tokio, async-std or \<open>std::io\<close> then keeps the contracts of \<open>Async_Traits\<close>.  \<open>embedded-io-async\<close> makes no
    promise for an operation dropped while it is pending, so what its adapters deliver is left open.

  \<^bold>\<open>Timers\<close> (\<open>tpt-async-timer\<close>).
  \<^item> \<open>Timer_Wheel\<close> is \<open>wheel.rs\<close> at the level of pointers: entries at addresses of a memory, \<open>next\<close> and
    \<open>prev\<close> links, list heads per level and slot, the tick counter, the number of registered entries.
    A dereference outside the memory and an underflow are \<open>None\<close>.  The loops along the links
    (\<open>drain_loop\<close>, \<open>cascade_loop\<close>) and \<open>wheel_advance_to\<close> are partial functions, so a cyclic list
    would not return; that they return on every reachable wheel is proved.
  \<^item> \<open>Wheel_Slots\<close> abstracts the links to lists and states where an entry may be; \<open>Wheel_Refine\<close> proves
    the simulation; \<open>Wheel_Service\<close> states as the locale \<open>timer_service\<close> what ticking promises (exactly
    the due entries fire), lifts it to many ticks, and interprets it on the pointer wheel;
    \<open>Wheel_Properties\<close> holds the results on reachable wheels, \<open>Wheel_Programs\<close> the refinement of a plain
    table by arbitrary programs of operations.  They need at least two levels of at least
    two slots, with slot widths that fit 64 bits (\<open>dims_ok\<close>), and hold for every deadline;
    \<open>wheel_single_level_fires_early\<close> shows what goes wrong with one level.
  \<^item> \<open>Timer_Futures\<close> and \<open>Timer_Properties\<close>: \<open>sleep.rs\<close>, \<open>timeout.rs\<close>, \<open>interval.rs\<close>, the functions and one
    iteration of the loop of \<open>driver.rs\<close>, and the loop of \<open>retry.rs\<close>; \<open>Retry_Policy\<close> has its policy, with
    the operations of \<open>f64\<close> in the delay curve as a parameter.
    \<open>skip_not_on_grid\<close> and \<open>driver_sleep_returns_early\<close> record two departures from the documentation.
  \<^item> \<open>Driver_Thread\<close>: the driver's thread as a step relation against the clock, notifications and the
    owners of timers, where \<open>lag\<close> bounds the time that the thread itself needs in a round;
    \<open>driver_misses_registration\<close> shows a registration that comes too late to be noticed.
  \<^item> \<open>Clocks\<close> (\<open>clock.rs\<close>): the tick sources, the contract of a monotone one as the locale
    \<open>monotone_clock\<close>, and a wheel driven by readings; \<open>fugit_never_past_wrap\<close> shows what becomes of a
    counter of 32 bits.  \<open>Superloop\<close> (\<open>examples/embedded/src/main.rs\<close>): two timers polled by hand on one
    wheel.  \<open>Wheel_Model\<close> (\<open>fuzz_targets/timer_wheel_tick.rs\<close>): the fuzz target with its flat model.
  \<^item> \<open>Core_Utils\<close>: the transition function that \<open>state_machine.rs\<close> writes, and \<open>TestDriver\<close>
    (\<open>tpt-async-test\<close>), a wheel advanced by hand.

  \<^bold>\<open>Tasks and execution.\<close>
  \<^item> \<open>Wakers\<close> (\<open>tpt-async-core/src/waker.rs\<close>): raw wakers and their tables, with the reference counts of
    \<open>waker_with\<close> over programs of waker operations, against a specification without counts;
    \<open>waker_panic_dangles\<close> shows what a panic in a closure called by reference does to the count.
  \<^item> \<open>Task_State\<close> (\<open>tpt-async-core/src/task.rs\<close>): the shared state's operations, and the step relation in
    which their atomic actions interleave between the completing end and the handle.  Its invariants
    exclude the panics of the code and a lost wakeup.
  \<^item> \<open>Executor\<close> and \<open>Executor_Threads\<close> (\<open>tpt-async-executor\<close>): spawning, waking and polling as functions,
    where a future is a parameter that says what a poll does to the executor and what is left of
    it; and the step relation of wakers on any threads against the executor's own actions, with the
    invariants that make coalesced wakeups safe.  \<open>poll_scheduled_tasks\<close> and \<open>block_on_loop\<close> are partial
    functions; \<open>bounded_work\<close> is the condition under which the former is shown to return.
  \<^item> \<open>Executor_Nested\<close>: polls that run the executor again, as a stack machine, and \<open>block_on\<close> without
    parking.  \<open>nested_run_strands\<close> and \<open>stranded_forever\<close> show how such a poll can lose its own task.
  \<^item> \<open>Spawned_Tasks\<close>: what \<open>spawn\<close> makes of a future, a completer inside a task and its handle outside, over
    interaction programs that spawn, poll handles and wake.  \<open>Fork_Join\<close>: programs that fork and join,
    run by \<open>block_on\<close>.  \<open>Entry_Macro\<close> (\<open>tpt-async-macros/src/lib.rs\<close>): the attribute on \<open>async fn main\<close>, its
    expansion and what the expansion does.
  \<^item> \<open>Fake_Io\<close> (\<open>tpt-async-test\<close>): the in-memory transports as calls and as interleaved actions of two
    threads.  \<open>Fake_Pipe\<close> shows that they keep the contracts of \<open>Async_Traits\<close>.
  \<^item> \<open>Async_Properties\<close> states the results on tasks, executor and transports.

  \<^bold>\<open>TLS\<close> (\<open>tpt-net-tls\<close>).  \<open>Tls_Stream\<close> has the buffers and loops of \<open>stream.rs\<close>, the handshakes of
  \<open>acceptor.rs\<close> and \<open>connector.rs\<close>, the error conversions and the decision of \<open>pinning.rs\<close>.  The library
  \<open>rustls\<close> is a record of the operations that the code calls.  \<open>Tls_Flow\<close> proves, for every such record
  that hands out its pending records in order (\<open>records_law\<close>), what the loops promise, and that a read
  returns by what rustls documents of \<open>read_tls\<close> and its reader before and after a \<open>close_notify\<close>
  (\<open>read_progress\<close>); \<open>Tls_Properties\<close> has the results and a connection that satisfies the laws.
  \<open>Tls_Inbound\<close> follows the bytes that arrive, from the first of the handshake to the last read, through
  the buffer to rustls (\<open>reads_law\<close>).  \<open>tls_handshake\<close> and \<open>tls_poll_read\<close> are partial functions, since they loop as
  long as the library tells them to; \<open>tls_poll_read_terminates\<close> gives the condition for the latter.
  \<open>Tls_Timeout\<close> puts the handshakes under the timeout of the std driver, over the wheel.  \<open>Tls_Config\<close>
  (\<open>config.rs\<close>): trust stores, server configurations and PEM loading over a platform record, and the HTTP
  client's \<open>connect_tls\<close>.

  \<^bold>\<open>HTTP\<close> (\<open>tpt-net-http\<close>).
  \<^item> \<open>Http_Connection\<close> (\<open>connection.rs\<close>, \<open>error.rs\<close>): the read buffer over a transport.  \<open>Http_Parse\<close>
    (\<open>parse.rs\<close>): the head parsers with their byte ranges.  \<open>Http_Body\<close> (\<open>body.rs\<close>): framing and the
    body reader.  \<open>Http_Server\<close> (\<open>server.rs\<close>, \<open>router.rs\<close>): the keep-alive loop, where a handler is an
    arbitrary run of body reads ending in a response.  \<open>Http_Client\<close> (\<open>client.rs\<close>): one exchange, the
    pool, and redirects, where the connector is a parameter.  \<open>Http2\<close> (\<open>http2.rs\<close>): what is done with a
    stream's request and body, where \<open>h2\<close> and \<open>http\<close> are parameters; \<open>Http2_Tasks\<close>: the loop that accepts
    streams and their tasks, one per stream, as a step relation, with the mutex around the handler.
  \<^item> \<open>Http_Heads\<close>: ranges lie in the buffer, rendered heads parse back.  \<open>Http_Stream\<close>: a reader depends on
    the bytes of the peer only, not on their chunking.  \<open>Http_Bodies\<close>: each framing delivers its body
    and leaves what follows.  \<open>Http_Serve\<close>: the loop against its specification.  \<open>Http_Exchange\<close>: client
    and server against each other.  \<open>Http_Properties\<close>: the results.
  \<^item> \<open>Http_Polls\<close>: the reading futures poll by poll, as state machines that may be dropped while they wait,
    with the locale \<open>polled_function\<close> for those that equal a run to completion.  \<open>Http_Cancel\<close>: what a
    dropped read leaves behind.
  \<^item> \<open>Http_Writes\<close> and \<open>Http_Runs\<close>: the writing futures, a client's exchange, a handler and a server's connection poll
    by poll.  \<open>Http_Dropped\<close>: what a client's exchange leaves behind when it is dropped while it writes, while
    it waits, or with its response unread.
  \<^item> \<open>Http_Demo\<close> (\<open>examples/http-demo.rs\<close>): the demo's routes and handlers, and its client against its
    server.
  \<^item> Every loop is a total function: its measure is what is left of the transport's script and of
    the buffers, or the number of redirects.

  \<^bold>\<open>WebSocket\<close> (\<open>tpt-net-ws\<close>).
  \<^item> \<open>Ws_Frame\<close> (\<open>frame.rs\<close>): the codec and masking.  \<open>Ws_Stream\<close> (\<open>stream.rs\<close>): sending, receiving with
    fragments, pings, keepalive, closing.  \<open>Ws_Handshake\<close> (\<open>handshake.rs\<close>, \<open>stream.rs\<close>, negotiation of
    \<open>deflate.rs\<close>): accept and connect.  \<open>Ws_Deflate\<close> (\<open>deflate.rs\<close>): the loops around the compression
    library, as partial functions.  The library, SHA-1, the random key and the masking keys are
    parameters.
  \<^item> \<open>Ws_Receive\<close>: \<open>recv\<close> sees the frames of the byte stream, whatever its chunking.  \<open>Ws_Open\<close>: base64 and
    a client and server of this crate that meet.  \<open>Ws_Properties\<close>, \<open>Ws_Open_Properties\<close>: the results.
  \<^item> \<open>Ws_Echo\<close>: the echo loops of \<open>examples/echo.rs\<close> and \<open>examples/autobahn-echo-client.rs\<close>, and whole
    sessions against a peer.
  \<^item> \<open>Ws_Polls\<close>: sending and receiving poll by poll, every suspension of \<open>recv\<close> with its keepalive
    included; two interpretations of \<open>polled_function\<close> tie the polls to the runs of \<open>Ws_Stream\<close>.
    \<open>Ws_Cancel\<close>: what a dropped send or receive leaves behind.

  \<^bold>\<open>The facade and small programs.\<close>  \<open>Runtime_Spawn\<close> (\<open>tpt-async\<close>): the spawn adapters for tokio and
  smol, whose executors are parameters, and the texts of the unit errors.  \<open>Demo_Programs\<close>: the loops of the
  remaining examples over sockets, the list of cases of the autobahn client, the hand-polled timer of
  the browser example, and the fuzz targets.

  \<^bold>\<open>Automation.\<close>  \<open>Xtask\<close> (\<open>xtask/src/main.rs\<close>): the tasks as sequences of commands.

  \<^bold>\<open>What the theorems show.\<close>  The timer wheel implements a table of deadlines and fires each entry at
  its tick; the futures over it resolve on time.  No interleaving loses a wakeup, neither of the
  executor, nor of a task handle, nor of the in-memory pipe.  The record layer, the frame codec and
  the HTTP heads and bodies carry bytes unchanged and in order, under any chunking; client and server
  of each protocol understand each other, up to whole echo sessions; programs that fork and join run to
  their sequential value, from the attribute on \<open>main\<close> down; a stream behind an adapter for
  tokio, async-std or \<open>std::io\<close> serves the futures like any other; limits hold and malformed input gives the error of the code.
  HTTP/2 handlers never overlap, though a stalled upload holds nobody up, and where nothing can go on the
  task of every stream has ended, with the answer of its call where that could be sent.
  Several theorems record behaviour that differs from the documentation or from a standard:
  \<open>wheel_next_deadline_misses_minimum\<close>, \<open>completion_overrides_cancel\<close>, \<open>tls_write_overreports\<close>,
  \<open>empty_response_swallows_next\<close>, \<open>pong_loses_fragments\<close>, \<open>h2_truncated_body_served\<close>,
  \<open>dropped_wait_fails_next\<close>, \<open>dropped_request_garbles\<close>, \<open>dropped_response_forges_next\<close>, \<open>fugit_never_past_wrap\<close>, \<open>native_failure_is_fatal\<close>, \<open>fallback_overrides_pins\<close>,
  \<open>dropped_send_garbles\<close>, \<open>dropped_recv_loses_fragments\<close>, \<open>tokio_handle_ignored\<close>, \<open>poll_timer_never_fires\<close>.

  \<^bold>\<open>Conventions and idealisations.\<close>  An async function is its run to completion over a transport
  that may stall.  For HTTP/1.1 and the WebSocket stream the polls are modelled too, since a future can be
  dropped between them; \<open>polls_are_runs\<close>, \<open>exchange_polls_are_runs\<close> and \<open>ws_polls_are_runs\<close> say that the two
  translations of the same functions agree when a future is awaited to its end, which keeps the model
  consistent and is no claim on the code.  Where the code relies on single polls (timers, task handles, \<open>ReadExact\<close> and its siblings, the TLS
  stream), they are modelled one by one.  Critical sections
  are atomic, atomics sequentially consistent.  Counters of 64 bits and lengths of \<open>usize\<close> are natural
  numbers with the saturation, wrap-around or overflow check of the code written out where it matters;
  allocation does not fail.  Floating point is not modelled.

  \<^bold>\<open>Not modelled.\<close>  The inside of third-party code, which is a parameter throughout; the parsing of tokens
  by syn; the spawn traits themselves, which are signatures without code; the accessors that wrap and
  unwrap a stream; re-exports; the printing and argument handling of the examples; benchmarks.

  \<^bold>\<open>Next.\<close>  The state machines of HTTP and WebSocket with the stream as a parameter; closing and flushing among the
  requests of \<open>Any_Stream\<close>.
\<close>

end
